(* ===== verification/Prelude.thy ===== *)
theory Prelude
  imports Main "HOL-Library.Monad_Syntax" "HOL-Library.Signed_Division"
begin

text \<open>
  The vocabulary the component theories share. JavaScript strings and arrays are HOL lists
  (a string is a \<^typ>\<open>string\<close>, one \<^typ>\<open>char\<close> per code unit), JavaScript numbers that
  hold integers are \<^typ>\<open>int\<close>, so that \<open>slice\<close> and \<open>at\<close> keep their negative-index
  behaviour, and a \<open>throw\<close> is the \<open>Inl\<close> of a sum. Each library function of the language
  that the sources call is defined once here, with the lemmas every component needs.
\<close>

named_theorems js_simps \<open>evaluation of the modelled JavaScript library on in-range arguments\<close>

section \<open>Indices\<close>

definition clampIndex :: "int \<Rightarrow> int \<Rightarrow> int" where
  "clampIndex index count = min (max 0 index) (max 0 (count - 1))"

definition moveCursor :: "int \<Rightarrow> int \<Rightarrow> int \<Rightarrow> int" where
  "moveCursor cursor delta count = clampIndex (cursor + delta) count"

lemma clampIndex_nonneg [simp]: "0 \<le> clampIndex i n"
  by (simp add: clampIndex_def)

lemma clampIndex_less: "0 < n \<Longrightarrow> clampIndex i n < n"
  by (simp add: clampIndex_def)

lemma clampIndex_id [js_simps]: "0 \<le> i \<Longrightarrow> i < n \<Longrightarrow> clampIndex i n = i"
  by (simp add: clampIndex_def)

lemma clampIndex_idem [simp]: "clampIndex (clampIndex i n) n = clampIndex i n"
  by (simp add: clampIndex_def)

lemma clampIndex_le_iff: "0 < n \<Longrightarrow> clampIndex i n \<le> n - 1"
  by (simp add: clampIndex_def)

section \<open>Array and string primitives\<close>

text \<open>\<open>Array.prototype.slice\<close> / \<open>String.prototype.slice\<close>: a negative index counts from the end.\<close>

definition js_rel :: "int \<Rightarrow> nat \<Rightarrow> int" where
  "js_rel i n = (if i < 0 then max 0 (int n + i) else min i (int n))"

definition js_slice :: "'a list \<Rightarrow> int \<Rightarrow> int \<Rightarrow> 'a list" where
  "js_slice xs a b =
     (let s = js_rel a (length xs); e = js_rel b (length xs)
      in take (nat (e - s)) (drop (nat s) xs))"

definition js_slice_from :: "'a list \<Rightarrow> int \<Rightarrow> 'a list" where
  "js_slice_from xs a = js_slice xs a (int (length xs))"

text \<open>\<open>Array.prototype.at\<close>, with \<open>undefined\<close> as \<^const>\<open>None\<close>.\<close>

definition js_at :: "'a list \<Rightarrow> int \<Rightarrow> 'a option" where
  "js_at xs i =
     (let k = (if i < 0 then int (length xs) + i else i)
      in if 0 \<le> k \<and> k < int (length xs) then Some (xs ! nat k) else None)"

lemma js_slice_prefix [js_simps]:
  "0 \<le> b \<Longrightarrow> js_slice xs 0 b = take (nat b) xs"
  by (simp add: js_slice_def js_rel_def min_def)

lemma js_slice_from_drop [js_simps]:
  "0 \<le> a \<Longrightarrow> js_slice_from xs a = drop (nat a) xs"
  by (simp add: js_slice_from_def js_slice_def js_rel_def min_def)

lemma js_slice_from_neg [js_simps]:
  "0 < n \<Longrightarrow> js_slice_from xs (- int n) = drop (length xs - n) xs"
  by (simp add: js_slice_from_def js_slice_def js_rel_def max_def nat_diff_distrib)

lemma js_slice_butlast [js_simps]: "js_slice xs 0 (-1) = butlast xs"
proof -
  have "nat (int (length xs) - 1) = length xs - 1" by simp
  then show ?thesis by (simp add: js_slice_def js_rel_def max_def butlast_conv_take)
qed

lemma js_slice_mid [js_simps]:
  "0 \<le> a \<Longrightarrow> 0 \<le> b \<Longrightarrow> js_slice xs a b = take (nat b - nat a) (drop (nat a) xs)"
  by (cases "a \<le> int (length xs)"; cases "b \<le> int (length xs)")
     (auto simp: js_slice_def js_rel_def min_def nat_diff_distrib')

lemma js_at_last [js_simps]: "js_at xs (-1) = (if xs = [] then None else Some (last xs))"
proof -
  have "nat (int (length xs) - 1) = length xs - 1" by simp
  then show ?thesis by (auto simp: js_at_def Let_def last_conv_nth simp del: One_nat_def)
qed

lemma length_js_slice_from_neg:
  "0 < n \<Longrightarrow> length (js_slice_from xs (- int n)) = min n (length xs)"
  by (simp add: js_simps)

section \<open>Splitting and joining\<close>

text \<open>\<open>text.split(sep)\<close> for a one-unit separator: always at least one part.\<close>

fun js_split :: "'a \<Rightarrow> 'a list \<Rightarrow> 'a list list" where
  "js_split sep [] = [[]]"
| "js_split sep (c # cs) =
     (if c = sep then [] # js_split sep cs
      else (case js_split sep cs of [] \<Rightarrow> [[c]] | l # ls \<Rightarrow> (c # l) # ls))"

fun js_join :: "'a list \<Rightarrow> 'a list list \<Rightarrow> 'a list" where
  "js_join sep [] = []"
| "js_join sep [l] = l"
| "js_join sep (l # m # ls) = l @ sep @ js_join sep (m # ls)"

lemma js_split_nonempty [simp]: "js_split sep cs \<noteq> []"
  by (induction cs) (auto split: list.splits)

lemma js_split_Cons_other:
  "c \<noteq> sep \<Longrightarrow> js_split sep (c # cs) = (c # hd (js_split sep cs)) # tl (js_split sep cs)"
  by (cases "js_split sep cs") auto

lemma js_join_Cons: "ls \<noteq> [] \<Longrightarrow> js_join sep (l # ls) = l @ sep @ js_join sep ls"
  by (cases ls) auto

lemma js_join_split [simp]: "js_join [sep] (js_split sep cs) = cs"
proof (induction cs)
  case (Cons c cs)
  then show ?case
    by (cases "js_split sep cs"; cases "tl (js_split sep cs)")
       (auto simp: js_join_Cons)
qed simp

lemma js_split_no_sep: "sep \<notin> set l \<Longrightarrow> js_split sep l = [l]"
  by (induction l) auto

lemma js_split_append_sep:
  "js_split sep (l @ sep # cs) = js_split sep l @ js_split sep cs"
proof (induction l)
  case (Cons c l)
  then show ?case by (cases "js_split sep l") auto
qed simp

lemma js_split_parts_no_sep: "l \<in> set (js_split sep cs) \<Longrightarrow> sep \<notin> set l"
proof (induction cs arbitrary: l)
  case (Cons c cs)
  then show ?case
    by (cases "js_split sep cs") (auto split: if_splits)
qed simp

lemma js_split_join:
  "ls \<noteq> [] \<Longrightarrow> (\<And>l. l \<in> set ls \<Longrightarrow> sep \<notin> set l) \<Longrightarrow> js_split sep (js_join [sep] ls) = ls"
proof (induction ls)
  case (Cons l ls)
  show ?case
  proof (cases ls)
    case Nil
    with Cons.prems show ?thesis by (simp add: js_split_no_sep)
  next
    case (Cons m ms)
    with Cons.IH Cons.prems show ?thesis
      by (simp add: js_split_append_sep js_split_no_sep)
  qed
qed simp

lemma length_js_split: "length (js_split sep cs) = Suc (count_list cs sep)"
proof (induction cs)
  case (Cons c cs)
  then show ?case by (cases "js_split sep cs") auto
qed simp

lemma js_split_append:
  "js_split sep (xs @ ys) =
     butlast (js_split sep xs) @ (last (js_split sep xs) @ hd (js_split sep ys)) # tl (js_split sep ys)"
proof (induction xs)
  case Nil
  show ?case by simp
next
  case (Cons c xs)
  then show ?case
    by (cases "js_split sep xs"; cases "tl (js_split sep xs)") auto
qed

lemma length_js_join: "ls \<noteq> [] \<Longrightarrow> Suc (length (js_join [sep] ls)) = sum_list (map length ls) + length ls"
proof (induction ls)
  case (Cons l ls)
  then show ?case by (cases ls) auto
qed simp

lemma set_js_join: "set (js_join [sep] ls) \<subseteq> insert sep (\<Union> (set ` set ls))"
  by (induction "[sep]" ls rule: js_join.induct) auto

lemma js_join_append:
  "ls \<noteq> [] \<Longrightarrow> ms \<noteq> [] \<Longrightarrow> js_join sep (ls @ ms) = js_join sep ls @ sep @ js_join sep ms"
  by (induction sep ls rule: js_join.induct) (auto simp: js_join_Cons)

text \<open>The offset at which part \<open>l\<close> of a text split at a one-unit separator starts.\<close>

definition line_offset :: "'a list list \<Rightarrow> nat \<Rightarrow> nat" where
  "line_offset ls l = sum_list (map length (take l ls)) + l"

lemma foldl_line_lengths:
  "foldl (\<lambda>acc x. acc + int (length x) + 1) a xs = a + int (sum_list (map length xs) + length xs)"
  by (induction xs arbitrary: a) auto

lemma line_offset_0 [simp]: "line_offset ls 0 = 0"
  by (simp add: line_offset_def)

lemma line_offset_Suc: "l < length ls \<Longrightarrow> line_offset ls (Suc l) = line_offset ls l + length (ls ! l) + 1"
  by (simp add: line_offset_def take_Suc_conv_app_nth)

lemma line_offset_Cons [simp]: "line_offset (x # ls) (Suc l) = Suc (length x + line_offset ls l)"
  by (simp add: line_offset_def)

lemma drop_line_offset:
  "i < length ls \<Longrightarrow> drop (line_offset ls i) (js_join [sep] ls) = js_join [sep] (drop i ls)"
proof (induction ls arbitrary: i)
  case (Cons l ls)
  then show ?case by (cases i; cases ls) (auto simp: js_join_Cons)
qed simp

lemma take_line_offset:
  "j < length ls \<Longrightarrow>
     take (line_offset ls j) (js_join [sep] ls) = concat (map (\<lambda>l. l @ [sep]) (take j ls))"
proof (induction ls arbitrary: j)
  case (Cons l ls)
  then show ?case by (cases j; cases ls) (auto simp: js_join_Cons)
qed simp

lemma js_join_terminated: "js_join [sep] (ls @ [[]]) = concat (map (\<lambda>l. l @ [sep]) ls)"
  by (induction ls) (auto simp: js_join_Cons)

lemma concat_terminated: "ls \<noteq> [] \<Longrightarrow> concat (map (\<lambda>l. l @ [sep]) ls) = js_join [sep] ls @ [sep]"
proof (induction ls)
  case (Cons l ls)
  then show ?case by (cases ls) auto
qed simp

lemma js_split_eq_Nil_part: "js_split sep cs = [[]] \<longleftrightarrow> cs = []"
proof
  assume "js_split sep cs = [[]]"
  then have "js_join [sep] (js_split sep cs) = []" by simp
  then show "cs = []" by simp
qed simp

lemma js_split_last: "cs \<noteq> [] \<Longrightarrow> last (js_split sep cs) = [] \<longleftrightarrow> last cs = sep"
proof (induction cs)
  case (Cons c cs)
  show ?case
  proof (cases "cs = []")
    case False
    with Cons.IH js_split_eq_Nil_part [of sep cs] show ?thesis
      by (cases "js_split sep cs"; cases "tl (js_split sep cs)") auto
  qed simp
qed simp

section \<open>Bounded logs\<close>

text \<open>\<open>[...xs, x].slice(-bound)\<close>: append, keeping the newest \<open>bound\<close> entries.\<close>

definition push_bounded :: "nat \<Rightarrow> 'a list \<Rightarrow> 'a \<Rightarrow> 'a list" where
  "push_bounded bound xs x = js_slice_from (xs @ [x]) (- int bound)"

lemma push_bounded_room: "0 < n \<Longrightarrow> length xs < n \<Longrightarrow> push_bounded n xs x = xs @ [x]"
  by (simp add: push_bounded_def js_simps)

lemma push_bounded_drop:
  "0 < n \<Longrightarrow> push_bounded n xs x = drop (Suc (length xs) - n) xs @ [x]"
  by (simp add: push_bounded_def js_simps Suc_diff_le)

lemma length_push_bounded: "0 < n \<Longrightarrow> length (push_bounded n xs x) = min n (Suc (length xs))"
  by (simp add: push_bounded_def length_js_slice_from_neg)

lemma last_push_bounded: "0 < n \<Longrightarrow> last (push_bounded n xs x) = x"
  by (simp add: push_bounded_drop)

lemma push_bounded_nonempty: "0 < n \<Longrightarrow> push_bounded n xs x \<noteq> []"
  by (simp add: push_bounded_drop)

lemma set_push_bounded: "0 < n \<Longrightarrow> set (push_bounded n xs x) \<subseteq> insert x (set xs)"
  by (auto simp: push_bounded_drop dest: in_set_dropD)

text \<open>lodash \<open>uniq\<close>: each element at its first place.\<close>

fun uniq :: "'a list \<Rightarrow> 'a list" where
  "uniq [] = []"
| "uniq (x # xs) = x # filter (\<lambda>y. y \<noteq> x) (uniq xs)"

lemma uniq_set_distinct [simp]: "set (uniq xs) = set xs" "distinct (uniq xs)"
  by (induction xs) auto

section \<open>Text\<close>

definition isDigit :: "char \<Rightarrow> bool" where
  "isDigit c \<longleftrightarrow> (let n = of_char c :: nat in 48 \<le> n \<and> n \<le> 57)"

definition digit_value :: "char \<Rightarrow> int" where
  "digit_value c = int (of_char c :: nat) - 48"

definition digits_value :: "string \<Rightarrow> int" where
  "digits_value s = foldl (\<lambda>n c. 10 * n + digit_value c) 0 s"

definition ends_with :: "string \<Rightarrow> string \<Rightarrow> bool" where
  "ends_with s e \<longleftrightarrow> length e \<le> length s \<and> drop (length s - length e) s = e"

lemma ends_with_append [simp]: "ends_with (s @ e) e"
  by (simp add: ends_with_def)

lemma ends_with_split: "ends_with s e \<Longrightarrow> take (length s - length e) s @ e = s"
  by (metis append_take_drop_id ends_with_def)

text \<open>\<open>String(n)\<close> of a natural number.\<close>

fun decimal :: "nat \<Rightarrow> string" where
  "decimal n = (if n < 10 then [char_of (48 + n)] else decimal (n div 10) @ [char_of (48 + n mod 10)])"

declare decimal.simps [simp del]

lemma digits_value_snoc: "digits_value (s @ [c]) = 10 * digits_value s + digit_value c"
  by (simp add: digits_value_def)

lemma digit_value_char [simp]: "d < 10 \<Longrightarrow> digit_value (char_of (48 + d)) = int d" "d < 10 \<Longrightarrow> isDigit (char_of (48 + d))"
  by (simp_all add: digit_value_def isDigit_def of_char_of)

lemma decimal_digits: "decimal n \<noteq> [] \<and> list_all isDigit (decimal n) \<and> digits_value (decimal n) = int n"
proof (induction n rule: decimal.induct)
  case (1 n)
  show ?case
  proof (cases "n < 10")
    case True
    then show ?thesis by (simp add: decimal.simps [of n] digits_value_def)
  next
    case False
    moreover have "int n = 10 * int (n div 10) + int (n mod 10)" by (simp add: zdiv_int zmod_int)
    ultimately show ?thesis using 1 by (simp add: decimal.simps [of n] digits_value_snoc)
  qed
qed

lemma decimal_no_leading_zero: "0 < n \<Longrightarrow> hd (decimal n) \<noteq> CHR ''0''"
proof (induction n rule: decimal.induct)
  case (1 n)
  show ?case
  proof (cases "n < 10")
    case True
    then have "digit_value (hd (decimal n)) = int n" by (simp add: decimal.simps [of n])
    moreover have "digit_value (CHR ''0'') = 0" by (simp add: digit_value_def)
    ultimately show ?thesis using 1(2) by auto
  next
    case False
    then have "hd (decimal n) = hd (decimal (n div 10))"
      using decimal_digits [of "n div 10"] by (simp add: decimal.simps [of n])
    moreover have "0 < n div 10" using False by simp
    ultimately show ?thesis using 1(1) [OF False] by simp
  qed
qed

lemma decimal_inject [simp]: "decimal m = decimal n \<longleftrightarrow> m = n"
  by (metis decimal_digits of_nat_eq_iff)

text \<open>\<open>String.includes\<close>.\<close>

definition js_includes :: "'a list \<Rightarrow> 'a list \<Rightarrow> bool" where
  "js_includes t s \<longleftrightarrow> list_ex (\<lambda>n. take (length s) (drop n t) = s) [0..<length t + 1]"

text \<open>Looking an element up by a key.\<close>

lemma list_ex_key: "list_ex (\<lambda>c. f c = k) xs \<longleftrightarrow> k \<in> f ` set xs"
  by (induction xs) auto

lemma find_found: "List.find P xs = Some x \<Longrightarrow> x \<in> set xs \<and> P x"
  by (auto simp: find_Some_iff in_set_conv_nth)

lemma distinct_key_eq: "distinct (map f xs) \<Longrightarrow> x \<in> set xs \<Longrightarrow> y \<in> set xs \<Longrightarrow> f x = f y \<Longrightarrow> x = y"
  by (induction xs) (auto simp: image_iff)

lemma find_key:
  assumes "distinct (map f xs)" "x \<in> set xs"
  shows "List.find (\<lambda>y. f y = f x) xs = Some x"
proof (cases "List.find (\<lambda>y. f y = f x) xs")
  case None
  then show ?thesis using assms(2) by (auto simp: find_None_iff)
next
  case (Some y)
  then have "y \<in> set xs" "f y = f x" using find_found [OF Some] by auto
  then have "y = x" by (intro distinct_key_eq [OF assms(1) _ assms(2)])
  with Some show ?thesis by simp
qed

text \<open>\<open>indexOf\<close> of one unit; \<^const>\<open>None\<close> is -1.\<close>

fun index_of :: "'a \<Rightarrow> 'a list \<Rightarrow> nat option" where
  "index_of c [] = None"
| "index_of c (d # ds) = (if d = c then Some 0 else map_option Suc (index_of c ds))"

lemma index_of_append: "c \<notin> set xs \<Longrightarrow> index_of c (xs @ c # ys) = Some (length xs)"
  by (induction xs) auto

lemma index_of_Some: "index_of c s = Some n \<Longrightarrow> \<exists>xs ys. s = xs @ c # ys \<and> c \<notin> set xs \<and> length xs = n"
proof (induction s arbitrary: n)
  case (Cons d ds)
  show ?case
  proof (cases "d = c")
    case True
    with Cons.prems show ?thesis by (intro exI [of _ "[]"] exI [of _ ds]) simp
  next
    case False
    with Cons.prems obtain m where m: "index_of c ds = Some m" "n = Suc m" by auto
    with Cons.IH obtain xs ys where "ds = xs @ c # ys" "c \<notin> set xs" "length xs = m" by blast
    with False m show ?thesis by (intro exI [of _ "d # xs"] exI [of _ ys]) auto
  qed
qed simp

lemma index_of_None: "c \<notin> set xs \<Longrightarrow> index_of c xs = None"
  by (induction xs) auto

section \<open>Truncation is flooring on values that are not negative\<close>

lemma sdiv_floor [js_simps]: "0 \<le> a \<Longrightarrow> 0 < b \<Longrightarrow> a sdiv b = (a :: int) div b"
  by (cases "a = 0") (simp_all add: signed_divide_int_def)

lemma smod_floor [js_simps]: "0 \<le> a \<Longrightarrow> 0 < b \<Longrightarrow> a smod b = (a :: int) mod b"
  by (cases "a = 0") (simp_all add: signed_modulo_int_def sdiv_floor minus_div_mult_eq_mod)


section \<open>Optional results of a list\<close>

lemma those_Some: "those xs = Some ys \<longleftrightarrow> xs = map Some ys"
proof (induction xs arbitrary: ys)
  case (Cons x xs)
  then show ?case by (cases ys) (auto split: option.splits)
qed auto

lemma those_Some_iff: "those (map f xs) = Some ys \<longleftrightarrow> list_all2 (\<lambda>x y. f x = Some y) xs ys"
  by (induction xs arbitrary: ys) (auto simp: list_all2_Cons1 split: option.splits)

lemma those_map_Some: "those (map f xs) = Some ys \<Longrightarrow> length ys = length xs \<and> (\<forall>i < length xs. f (xs ! i) = Some (ys ! i))"
proof -
  assume "those (map f xs) = Some ys"
  then have eq: "map f xs = map Some ys" by (simp add: those_Some)
  then have "length ys = length xs" by (metis length_map)
  with eq show ?thesis by (metis nth_map)
qed

lemma those_map_total: "(\<And>x. x \<in> set xs \<Longrightarrow> f x = Some (g x)) \<Longrightarrow> those (map f xs) = Some (map g xs)"
  by (induction xs) simp_all

lemma those_members: "those (map f cs) = Some xss \<Longrightarrow> xs \<in> set xss \<Longrightarrow> \<exists>c \<in> set cs. f c = Some xs"
  by (induction cs arbitrary: xss) (auto split: option.splits)

lemma those_total: "\<forall>x \<in> set xs. x \<noteq> None \<Longrightarrow> \<exists>ys. those xs = Some ys"
  by (induction xs) auto

section \<open>Texts with separators\<close>

lemma last_segment: "x \<notin> set k \<Longrightarrow> x \<notin> set l \<Longrightarrow> a @ x # k = b @ x # l \<Longrightarrow> a = b \<and> k = l"
  by (auto simp: append_eq_append_conv2 append_eq_Cons_conv Cons_eq_append_conv)


end
