(* ===== verification/Text_Buffer.thy ===== *)
theory Text_Buffer
  imports Prelude
begin

text \<open>
  The TUI's SQL editor: the immutable buffer of \<open>ql-tool-cli/src/tui/editor/TextBuffer.ts\<close>
  (text, cursor offset, bounded undo points) and the Redux slice over it
  (\<open>tui/store/editor/EditorSlice.ts\<close>). The invariant \<open>tb_wf\<close> says that the cursor and every
  undo point lie inside their texts and that the history is bounded; the cursor's line and
  column are inverse to \<open>offsetOf\<close>.
\<close>

section \<open>State\<close>

record text_snapshot =
  ts_text :: string
  ts_cursor :: int

record text_buffer =
  tb_text :: string
  tb_cursor :: int
  tb_undo :: "text_snapshot list"

record text_position =
  tp_line :: int
  tp_column :: int

datatype cursor_move =
  MoveLeft | MoveRight | MoveUp | MoveDown | LineStart | LineEnd | DocumentStart | DocumentEnd

definition LineSeparator :: char where "LineSeparator = CHR 0x0A"

definition MaxUndo :: nat where "MaxUndo = 200"

definition UndoInput :: string where "UndoInput = ''z''"

abbreviation text_lines :: "string \<Rightarrow> string list" where
  "text_lines t \<equiv> js_split LineSeparator t"

section \<open>Operations\<close>

definition tb_create :: "string \<Rightarrow> text_buffer" where
  "tb_create t = \<lparr>tb_text = t, tb_cursor = int (length t), tb_undo = []\<rparr>"

definition tb_edit :: "text_buffer \<Rightarrow> string \<Rightarrow> int \<Rightarrow> text_buffer" where
  "tb_edit s t c =
     \<lparr>tb_text = t, tb_cursor = c,
      tb_undo = push_bounded MaxUndo (tb_undo s) \<lparr>ts_text = tb_text s, ts_cursor = tb_cursor s\<rparr>\<rparr>"

definition tb_insert :: "text_buffer \<Rightarrow> string \<Rightarrow> text_buffer" where
  "tb_insert s ins =
     (if length ins = 0 then s
      else tb_edit s (js_slice (tb_text s) 0 (tb_cursor s) @ ins @ js_slice_from (tb_text s) (tb_cursor s))
                     (tb_cursor s + int (length ins)))"

definition tb_backspace :: "text_buffer \<Rightarrow> text_buffer" where
  "tb_backspace s =
     (if tb_cursor s = 0 then s
      else tb_edit s (js_slice (tb_text s) 0 (tb_cursor s - 1) @ js_slice_from (tb_text s) (tb_cursor s))
                     (tb_cursor s - 1))"

definition tb_deleteForward :: "text_buffer \<Rightarrow> text_buffer" where
  "tb_deleteForward s =
     (if tb_cursor s \<ge> int (length (tb_text s)) then s
      else tb_edit s (js_slice (tb_text s) 0 (tb_cursor s) @ js_slice_from (tb_text s) (tb_cursor s + 1))
                     (tb_cursor s))"

definition tb_replace :: "text_buffer \<Rightarrow> string \<Rightarrow> text_buffer" where
  "tb_replace s t = (if t = tb_text s then s else tb_edit s t (int (length t)))"

definition tb_undo_op :: "text_buffer \<Rightarrow> text_buffer" where
  "tb_undo_op s =
     (case js_at (tb_undo s) (-1) of
        None \<Rightarrow> s
      | Some p \<Rightarrow> \<lparr>tb_text = ts_text p, tb_cursor = ts_cursor p, tb_undo = js_slice (tb_undo s) 0 (-1)\<rparr>)"

definition tb_position :: "text_buffer \<Rightarrow> text_position" where
  "tb_position s =
     (let before = text_lines (js_slice (tb_text s) 0 (tb_cursor s))
      in \<lparr>tp_line = int (length before) - 1, tp_column = int (length (last before))\<rparr>)"

definition offsetOf :: "string \<Rightarrow> text_position \<Rightarrow> int" where
  "offsetOf t target =
     (let ls = text_lines t; l = clampIndex (tp_line target) (int (length ls))
      in foldl (\<lambda>acc x. acc + int (length x) + 1) 0 (js_slice ls 0 l)
         + clampIndex (tp_column target) (int (length (ls ! nat l)) + 1))"

definition tb_move :: "text_buffer \<Rightarrow> cursor_move \<Rightarrow> text_buffer" where
  "tb_move s dir =
     (let pos = tb_position s; line = tp_line pos; column = tp_column pos;
          ls = text_lines (tb_text s);
          c = (case dir of
                 MoveLeft \<Rightarrow> max 0 (tb_cursor s - 1)
               | MoveRight \<Rightarrow> min (int (length (tb_text s))) (tb_cursor s + 1)
               | MoveUp \<Rightarrow> (if line = 0 then 0
                           else offsetOf (tb_text s) \<lparr>tp_line = line - 1, tp_column = column\<rparr>)
               | MoveDown \<Rightarrow> (if line = int (length ls) - 1 then int (length (tb_text s))
                             else offsetOf (tb_text s) \<lparr>tp_line = line + 1, tp_column = column\<rparr>)
               | LineStart \<Rightarrow> offsetOf (tb_text s) \<lparr>tp_line = line, tp_column = 0\<rparr>
               | LineEnd \<Rightarrow> offsetOf (tb_text s)
                              \<lparr>tp_line = line, tp_column = int (length (ls ! nat line))\<rparr>
               | DocumentStart \<Rightarrow> 0
               | DocumentEnd \<Rightarrow> int (length (tb_text s)))
      in if c = tb_cursor s then s else s\<lparr>tb_cursor := c\<rparr>)"

text \<open>Ink's \<open>Key\<close>, and \<open>toLowerCase\<close> on the Latin-1 code units.\<close>

record ink_key =
  k_return :: bool
  k_backspace :: bool
  k_delete :: bool
  k_leftArrow :: bool
  k_rightArrow :: bool
  k_upArrow :: bool
  k_downArrow :: bool
  k_home :: bool
  k_end :: bool
  k_ctrl :: bool
  k_meta :: bool
  k_escape :: bool
  k_tab :: bool

definition to_lower_char :: "char \<Rightarrow> char" where
  "to_lower_char c =
     (let n = of_char c :: nat
      in if (65 \<le> n \<and> n \<le> 90) \<or> (192 \<le> n \<and> n \<le> 222 \<and> n \<noteq> 215) then char_of (n + 32) else c)"

definition toLowerCase :: "string \<Rightarrow> string" where
  "toLowerCase s = map to_lower_char s"

definition tb_applyKey :: "text_buffer \<Rightarrow> string \<Rightarrow> ink_key \<Rightarrow> bool \<Rightarrow> text_buffer" where
  "tb_applyKey s input key multiline =
     (if k_return key then (if multiline then tb_insert s [LineSeparator] else s)
      else if k_backspace key \<or> k_delete key then tb_backspace s
      else if k_leftArrow key then tb_move s MoveLeft
      else if k_rightArrow key then tb_move s MoveRight
      else if k_upArrow key then tb_move s MoveUp
      else if k_downArrow key then tb_move s MoveDown
      else if k_home key then tb_move s LineStart
      else if k_end key then tb_move s LineEnd
      else if k_ctrl key \<and> toLowerCase input = UndoInput then tb_undo_op s
      else if length input > 0 \<and> \<not> k_ctrl key \<and> \<not> k_meta key \<and> \<not> k_escape key \<and> \<not> k_tab key
        then tb_insert s input
      else s)"

text \<open>\<open>EditorSlice\<close>: one action per reducer.\<close>

datatype editor_action =
  TextReplaced string | TextInserted string | Backspaced | DeletedForward
| EditorCursorMoved cursor_move | KeyApplied string ink_key | Undone

fun editor_reducer :: "text_buffer \<Rightarrow> editor_action \<Rightarrow> text_buffer" where
  "editor_reducer b (TextReplaced t) = tb_replace b t"
| "editor_reducer b (TextInserted t) = tb_insert b t"
| "editor_reducer b Backspaced = tb_backspace b"
| "editor_reducer b DeletedForward = tb_deleteForward b"
| "editor_reducer b (EditorCursorMoved d) = tb_move b d"
| "editor_reducer b (KeyApplied i k) = tb_applyKey b i k True"
| "editor_reducer b Undone = tb_undo_op b"

definition initialEditorState :: text_buffer where
  "initialEditorState = tb_create []"

section \<open>The invariant\<close>

definition snapshot_ok :: "text_snapshot \<Rightarrow> bool" where
  "snapshot_ok p \<longleftrightarrow> 0 \<le> ts_cursor p \<and> ts_cursor p \<le> int (length (ts_text p))"

definition tb_wf :: "text_buffer \<Rightarrow> bool" where
  "tb_wf s \<longleftrightarrow> 0 \<le> tb_cursor s \<and> tb_cursor s \<le> int (length (tb_text s))
     \<and> list_all snapshot_ok (tb_undo s) \<and> length (tb_undo s) \<le> MaxUndo"

lemma MaxUndo_pos [simp]: "0 < MaxUndo"
  by (simp add: MaxUndo_def)

lemma tb_wfD:
  assumes "tb_wf s"
  shows "0 \<le> tb_cursor s" and "tb_cursor s \<le> int (length (tb_text s))"
    and "nat (tb_cursor s) \<le> length (tb_text s)"
  using assms by (auto simp: tb_wf_def)

lemma tb_wf_create: "tb_wf (tb_create t)"
  by (simp add: tb_wf_def tb_create_def)

lemma tb_wf_edit:
  assumes "tb_wf s" and "0 \<le> c" and "c \<le> int (length t)"
  shows "tb_wf (tb_edit s t c)"
proof -
  have "snapshot_ok p" if "p \<in> set (push_bounded MaxUndo (tb_undo s) \<lparr>ts_text = tb_text s, ts_cursor = tb_cursor s\<rparr>)" for p
    using that set_push_bounded [of MaxUndo "tb_undo s"] assms(1)
    by (fastforce simp: tb_wf_def snapshot_ok_def list_all_iff)
  with assms show ?thesis
    by (auto simp: tb_edit_def tb_wf_def length_push_bounded list_all_iff)
qed

lemma tb_wf_insert: "tb_wf s \<Longrightarrow> tb_wf (tb_insert s t)"
  unfolding tb_insert_def using tb_wfD [of s]
  by (auto intro!: tb_wf_edit simp: js_simps)

lemma tb_wf_backspace: "tb_wf s \<Longrightarrow> tb_wf (tb_backspace s)"
  unfolding tb_backspace_def using tb_wfD [of s]
  by (auto intro!: tb_wf_edit simp: js_simps nat_diff_distrib)

lemma tb_wf_deleteForward: "tb_wf s \<Longrightarrow> tb_wf (tb_deleteForward s)"
  unfolding tb_deleteForward_def using tb_wfD [of s]
  by (auto intro!: tb_wf_edit simp: js_simps)

lemma tb_wf_replace: "tb_wf s \<Longrightarrow> tb_wf (tb_replace s t)"
  by (simp add: tb_replace_def tb_wf_edit)

lemma tb_undo_op_None: "tb_undo s = [] \<Longrightarrow> tb_undo_op s = s"
  by (simp add: tb_undo_op_def js_simps)

lemma tb_undo_op_Some:
  "tb_undo s \<noteq> [] \<Longrightarrow> tb_undo_op s =
     \<lparr>tb_text = ts_text (last (tb_undo s)), tb_cursor = ts_cursor (last (tb_undo s)),
      tb_undo = butlast (tb_undo s)\<rparr>"
  by (simp add: tb_undo_op_def js_simps)

lemma tb_wf_undo:
  assumes "tb_wf s"
  shows "tb_wf (tb_undo_op s)"
proof (cases "tb_undo s = []")
  case False
  then have "snapshot_ok (last (tb_undo s))" and "list_all snapshot_ok (butlast (tb_undo s))"
    using assms by (auto simp: tb_wf_def list_all_iff dest: in_set_butlastD)
  with False assms show ?thesis
    by (auto simp: tb_undo_op_Some tb_wf_def snapshot_ok_def)
qed (simp add: tb_undo_op_None assms)

section \<open>Lines and offsets\<close>

definition valid_position :: "string \<Rightarrow> nat \<Rightarrow> nat \<Rightarrow> bool" where
  "valid_position t l c \<longleftrightarrow> l < length (text_lines t) \<and> c \<le> length (text_lines t ! l)"

lemma offsetOf_valid:
  assumes "valid_position t l c"
  shows "offsetOf t \<lparr>tp_line = int l, tp_column = int c\<rparr> = int (line_offset (text_lines t) l + c)"
  using assms
  by (simp add: offsetOf_def valid_position_def clampIndex_id js_simps foldl_line_lengths line_offset_def)

lemma take_valid_position:
  assumes "valid_position t l c"
  shows "take (line_offset (text_lines t) l + c) t
    = js_join [LineSeparator] (take l (text_lines t) @ [take c (text_lines t ! l)])" (is "take ?n t = ?p")
    and "line_offset (text_lines t) l + c \<le> length t"
proof -
  let ?ls = "text_lines t" and ?x = "text_lines t ! l"
  let ?h = "take l ?ls @ [take c ?x]" and ?r = "drop c ?x # drop (Suc l) ?ls"
  have l: "l < length ?ls" using assms by (simp add: valid_position_def)
  have "js_join [LineSeparator] (take l ?ls @ [take c ?x @ drop c ?x] @ drop (Suc l) ?ls) = t"
    by (simp flip: id_take_nth_drop [OF l])
  moreover have "js_join [LineSeparator] (as @ [u @ v] @ bs)
      = js_join [LineSeparator] (as @ [u]) @ js_join [LineSeparator] (v # bs)" for as bs :: "string list" and u v
    by (cases "as = []"; cases bs) (simp_all add: js_join_append js_join_Cons)
  ultimately have t: "t = ?p @ js_join [LineSeparator] ?r" by metis
  have "Suc (length ?p) = sum_list (map length ?h) + length ?h"
    by (rule length_js_join) simp
  then have len: "length ?p = ?n"
    using assms by (simp add: line_offset_def valid_position_def)
  then show "take ?n t = ?p" by (subst t) simp
  show "?n \<le> length t" by (subst t) (simp add: len)
qed

lemma split_valid_position:
  assumes "valid_position t l c"
  shows "text_lines (take (line_offset (text_lines t) l + c) t)
    = take l (text_lines t) @ [take c (text_lines t ! l)]"
proof -
  have "LineSeparator \<notin> set x" if "x \<in> set (take l (text_lines t) @ [take c (text_lines t ! l)])" for x
    using that assms js_split_parts_no_sep [of _ LineSeparator t]
    by (auto simp: valid_position_def dest!: in_set_takeD)
  then show ?thesis
    unfolding take_valid_position(1) [OF assms] by (intro js_split_join) simp_all
qed

text \<open>Placing the cursor on a valid position makes it the cursor's position.\<close>

lemma position_of_offset:
  assumes "valid_position (tb_text s) l c" and "tb_cursor s = int (line_offset (text_lines (tb_text s)) l + c)"
  shows "tb_position s = \<lparr>tp_line = int l, tp_column = int c\<rparr>"
  using assms split_valid_position [OF assms(1)]
  by (auto simp: tb_position_def js_simps valid_position_def nat_int_add min_def)

text \<open>Every in-range cursor is at a valid position.\<close>

lemma position_exists:
  assumes "tb_wf s"
  obtains l c where "valid_position (tb_text s) l c"
    and "tb_cursor s = int (line_offset (text_lines (tb_text s)) l + c)"
    and "tb_position s = \<lparr>tp_line = int l, tp_column = int c\<rparr>"
proof -
  let ?k = "nat (tb_cursor s)"
  let ?b = "text_lines (take ?k (tb_text s))" and ?a = "text_lines (drop ?k (tb_text s))"
  have split: "text_lines (tb_text s) = butlast ?b @ (last ?b @ hd ?a) # tl ?a"
    using js_split_append [of LineSeparator "take ?k (tb_text s)" "drop ?k (tb_text s)"] by simp
  let ?l = "length ?b - 1" and ?c = "length (last ?b)"
  have len: "length (butlast ?b) = ?l" by simp
  have v: "valid_position (tb_text s) ?l ?c"
    by (simp add: valid_position_def split nth_append)
  have "Suc (length (js_join [LineSeparator] ?b)) = sum_list (map length ?b) + length ?b"
    by (rule length_js_join) simp
  moreover have "sum_list (map length ?b) = sum_list (map length (butlast ?b)) + ?c"
    by (subst append_butlast_last_id [of ?b, symmetric]) (simp_all only: map_append sum_list_append js_split_nonempty, simp_all)
  moreover have "1 \<le> length ?b" by (simp add: Suc_le_eq)
  moreover have "line_offset (text_lines (tb_text s)) ?l = sum_list (map length (butlast ?b)) + ?l"
    by (simp add: line_offset_def split)
  moreover have "length (js_join [LineSeparator] ?b) = ?k"
    using tb_wfD [OF assms] by simp
  ultimately have "?k = line_offset (text_lines (tb_text s)) ?l + ?c"
    by linarith
  then have k: "tb_cursor s = int (line_offset (text_lines (tb_text s)) ?l + ?c)"
    using tb_wfD [OF assms] by simp
  show thesis by (rule that [OF v k position_of_offset [OF v k]])
qed

lemma offsetOf_bounds: "0 \<le> offsetOf t p" "offsetOf t p \<le> int (length t)"
proof -
  let ?ls = "text_lines t"
  let ?l = "nat (clampIndex (tp_line p) (int (length ?ls)))"
  let ?c = "nat (clampIndex (tp_column p) (int (length (?ls ! ?l)) + 1))"
  have v: "valid_position t ?l ?c"
    using clampIndex_less [of "int (length ?ls)" "tp_line p"]
      clampIndex_less [of "int (length (?ls ! ?l)) + 1" "tp_column p"]
    by (simp add: valid_position_def nat_less_iff)
  have "offsetOf t p = offsetOf t \<lparr>tp_line = int ?l, tp_column = int ?c\<rparr>"
    by (simp add: offsetOf_def)
  then have "offsetOf t p = int (line_offset ?ls ?l + ?c)"
    by (simp only: offsetOf_valid [OF v])
  with take_valid_position(2) [OF v]
  show "0 \<le> offsetOf t p" "offsetOf t p \<le> int (length t)" by simp_all
qed

lemma tb_wf_move:
  assumes "tb_wf s"
  shows "tb_wf (tb_move s d)"
proof -
  have "0 \<le> tb_cursor (tb_move s d) \<and> tb_cursor (tb_move s d) \<le> int (length (tb_text s))"
    using tb_wfD [OF assms] offsetOf_bounds [of "tb_text s"]
    by (cases d) (auto simp: tb_move_def Let_def)
  moreover have "tb_text (tb_move s d) = tb_text s" "tb_undo (tb_move s d) = tb_undo s"
    by (auto simp: tb_move_def Let_def)
  ultimately show ?thesis using assms by (simp add: tb_wf_def)
qed

lemmas tb_wf_ops = tb_wf_insert tb_wf_backspace tb_wf_deleteForward tb_wf_replace tb_wf_undo tb_wf_move

lemma tb_wf_applyKey: "tb_wf s \<Longrightarrow> tb_wf (tb_applyKey s i k m)"
  by (simp add: tb_applyKey_def tb_wf_ops)

lemma tb_wf_reducer: "tb_wf b \<Longrightarrow> tb_wf (editor_reducer b a)"
  by (cases a) (simp_all add: tb_wf_ops tb_wf_applyKey)

lemma tb_wf_run: "tb_wf b \<Longrightarrow> tb_wf (foldl editor_reducer b acts)"
  by (induction acts arbitrary: b) (simp_all add: tb_wf_reducer)

section \<open>Undo\<close>

fun is_edit_action :: "editor_action \<Rightarrow> bool" where
  "is_edit_action (TextReplaced _) = True"
| "is_edit_action (TextInserted _) = True"
| "is_edit_action Backspaced = True"
| "is_edit_action DeletedForward = True"
| "is_edit_action _ = False"

lemma tb_undo_edit:
  "tb_undo_op (tb_edit s t c) =
     \<lparr>tb_text = tb_text s, tb_cursor = tb_cursor s,
      tb_undo = drop (Suc (length (tb_undo s)) - MaxUndo) (tb_undo s)\<rparr>"
  by (subst tb_undo_op_Some) (simp_all add: tb_edit_def push_bounded_drop)

lemma tb_undo_edit_room:
  "length (tb_undo s) < MaxUndo \<Longrightarrow> tb_undo_op (tb_edit s t c) = s"
  by (simp add: tb_undo_edit)

lemma edit_action_disj:
  "is_edit_action a \<Longrightarrow> editor_reducer b a = b \<or> (\<exists>t c. editor_reducer b a = tb_edit b t c)"
  by (cases a) (auto simp: tb_replace_def tb_insert_def tb_backspace_def tb_deleteForward_def)

lemma edit_action_cases:
  assumes "is_edit_action a"
  obtains (noop) "editor_reducer b a = b" | (edit) t c where "editor_reducer b a = tb_edit b t c"
  using edit_action_disj [OF assms] by blast

lemma edit_undo_length:
  "is_edit_action a \<Longrightarrow> length (tb_undo (editor_reducer b a)) \<le> Suc (length (tb_undo b))"
  by (erule edit_action_cases [of _ b]) (auto simp: tb_edit_def length_push_bounded)

lemma undo_run_length:
  "list_all is_edit_action acts \<Longrightarrow>
     length (tb_undo (foldl editor_reducer b acts)) \<le> length (tb_undo b) + length acts"
proof (induction acts arbitrary: b)
  case (Cons a acts)
  then have "length (tb_undo (foldl editor_reducer (editor_reducer b a) acts))
      \<le> length (tb_undo (editor_reducer b a)) + length acts" by simp
  with edit_undo_length [of a b] Cons.prems show ?case by simp
qed simp

lemma undo_run:
  assumes "list_all is_edit_action acts" and "tb_undo b = []" and "length acts \<le> MaxUndo"
  shows "(tb_undo_op ^^ length (tb_undo (foldl editor_reducer b acts))) (foldl editor_reducer b acts) = b"
  using assms(1,3)
proof (induction acts rule: rev_induct)
  case Nil
  show ?case using assms(2) by simp
next
  case (snoc a acts)
  let ?p = "foldl editor_reducer b acts"
  have IH: "(tb_undo_op ^^ length (tb_undo ?p)) ?p = b" using snoc by simp
  have room: "length (tb_undo ?p) < MaxUndo"
    using undo_run_length [of acts b] snoc.prems assms(2) by simp
  from snoc.prems(1) have "is_edit_action a" by simp
  then show ?case
  proof (cases rule: edit_action_cases [of a ?p])
    case noop
    with IH show ?thesis by simp
  next
    case (edit t c)
    have "length (tb_undo (tb_edit ?p t c)) = Suc (length (tb_undo ?p))"
      using room by (simp add: tb_edit_def length_push_bounded)
    with edit IH room show ?thesis
      by (simp add: funpow_swap1 [symmetric] tb_undo_edit_room funpow_Suc_right del: funpow.simps)
  qed
qed

section \<open>Vertical movement\<close>

lemma position_move_to:
  assumes v: "valid_position (tb_text s) l c"
    and m: "tb_text (tb_move s d) = tb_text s"
      "tb_cursor (tb_move s d) = offsetOf (tb_text s) \<lparr>tp_line = int l, tp_column = int k\<rparr>"
    and c: "c = min k (length (text_lines (tb_text s) ! l))"
  shows "tb_position (tb_move s d) = \<lparr>tp_line = int l, tp_column = int c\<rparr>"
proof -
  have "clampIndex (int k) (int (length (text_lines (tb_text s) ! l)) + 1) = int c"
    by (simp add: clampIndex_def c min_def)
  then have "tb_cursor (tb_move s d) = offsetOf (tb_text s) \<lparr>tp_line = int l, tp_column = int c\<rparr>"
    using v unfolding m(2) by (simp add: offsetOf_def valid_position_def clampIndex_id)
  then have "tb_cursor (tb_move s d) = int (line_offset (text_lines (tb_text s)) l + c)"
    by (simp only: offsetOf_valid [OF v])
  with v m(1) show ?thesis by (simp add: position_of_offset)
qed

lemma tb_move_text [simp]: "tb_text (tb_move s d) = tb_text s"
  by (simp add: tb_move_def Let_def)

section \<open>Properties\<close>

text \<open>
  Whatever sequence of actions the editor slice receives, starting from the empty editor, the
  cursor stays inside the text, every undo point is a cursor inside its own text, and at most
  200 undo points are kept.
\<close>

theorem editor_run_wf: "tb_wf (foldl editor_reducer initialEditorState acts)"
  by (rule tb_wf_run) (simp add: initialEditorState_def tb_wf_create)

text \<open>
  After at most 200 edits of a fresh buffer (no-op edits included), undoing as often as there are
  undo points gives back exactly the fresh buffer: text, cursor and empty history.
\<close>

theorem editor_undo_restores:
  assumes "list_all is_edit_action acts" and "length acts \<le> MaxUndo"
  shows "(tb_undo_op ^^ length (tb_undo (foldl editor_reducer (tb_create t) acts)))
           (foldl editor_reducer (tb_create t) acts) = tb_create t"
  using assms by (intro undo_run) (simp_all add: tb_create_def)

theorem editor_undo_restores_witness:
  "(tb_undo_op ^^ length (tb_undo (foldl editor_reducer (tb_create ''a'') [TextInserted ''bc'', Backspaced])))
     (foldl editor_reducer (tb_create ''a'') [TextInserted ''bc'', Backspaced]) = tb_create ''a''"
  by (rule editor_undo_restores) (simp_all add: MaxUndo_def)

text \<open>
  Line/column positions and offsets are inverse: the offset of the cursor's position is the
  cursor, and placing the cursor at the offset of a position of the text gives that position back.
\<close>

theorem cursor_position_roundtrip:
  assumes "tb_wf s" and "valid_position (tb_text s) l c"
  shows "offsetOf (tb_text s) (tb_position s) = tb_cursor s
    \<and> tb_position (s\<lparr>tb_cursor := offsetOf (tb_text s) \<lparr>tp_line = int l, tp_column = int c\<rparr>\<rparr>)
        = \<lparr>tp_line = int l, tp_column = int c\<rparr>"
proof
  from position_exists [OF assms(1)] show "offsetOf (tb_text s) (tb_position s) = tb_cursor s"
    by (metis offsetOf_valid)
  show "tb_position (s\<lparr>tb_cursor := offsetOf (tb_text s) \<lparr>tp_line = int l, tp_column = int c\<rparr>\<rparr>)
      = \<lparr>tp_line = int l, tp_column = int c\<rparr>"
    using assms(2) by (simp add: position_of_offset offsetOf_valid)
qed

theorem cursor_position_roundtrip_witness:
  "offsetOf (tb_text (tb_create [CHR ''a'', LineSeparator, CHR ''b'']))
       (tb_position (tb_create [CHR ''a'', LineSeparator, CHR ''b'']))
     = tb_cursor (tb_create [CHR ''a'', LineSeparator, CHR ''b''])"
proof -
  have "valid_position (tb_text (tb_create [CHR ''a'', LineSeparator, CHR ''b''])) 1 0"
    by (simp add: valid_position_def tb_create_def LineSeparator_def)
  from cursor_position_roundtrip [OF tb_wf_create this] show ?thesis by blast
qed

text \<open>
  Cursor up and cursor down move exactly one line, keeping the column unless the target line is
  shorter, in which case the cursor goes to the end of that line.
\<close>

theorem vertical_move:
  assumes "tb_wf s" and "tb_position s = \<lparr>tp_line = int l, tp_column = int c\<rparr>"
  shows "(0 < l \<longrightarrow> tb_position (tb_move s MoveUp) =
            \<lparr>tp_line = int (l - 1), tp_column = int (min c (length (text_lines (tb_text s) ! (l - 1))))\<rparr>)
       \<and> (l + 1 < length (text_lines (tb_text s)) \<longrightarrow> tb_position (tb_move s MoveDown) =
            \<lparr>tp_line = int (l + 1), tp_column = int (min c (length (text_lines (tb_text s) ! (l + 1))))\<rparr>)"
proof (intro conjI impI)
  obtain l' c' where "valid_position (tb_text s) l' c'"
    and "tb_position s = \<lparr>tp_line = int l', tp_column = int c'\<rparr>"
    using position_exists [OF assms(1)] by blast
  with assms(2) have l: "l < length (text_lines (tb_text s))"
    by (auto simp: valid_position_def)
  {
    assume "0 < l"
    with assms(2) l show "tb_position (tb_move s MoveUp) =
        \<lparr>tp_line = int (l - 1), tp_column = int (min c (length (text_lines (tb_text s) ! (l - 1))))\<rparr>"
      by (intro position_move_to [where k = c]) (auto simp: valid_position_def tb_move_def Let_def of_nat_diff)
  next
    assume "l + 1 < length (text_lines (tb_text s))"
    with assms(2) show "tb_position (tb_move s MoveDown) =
        \<lparr>tp_line = int (l + 1), tp_column = int (min c (length (text_lines (tb_text s) ! (l + 1))))\<rparr>"
      by (intro position_move_to [where k = c]) (auto simp: valid_position_def tb_move_def Let_def add.commute)
  }
qed

theorem vertical_move_witness:
  "tb_position (tb_move (tb_create [CHR ''a'', LineSeparator, CHR ''b'', CHR ''c'']) MoveUp)
     = \<lparr>tp_line = 0, tp_column = 1\<rparr>"
proof -
  have "tb_position (tb_create [CHR ''a'', LineSeparator, CHR ''b'', CHR ''c''])
      = \<lparr>tp_line = int 1, tp_column = int 2\<rparr>"
    by (simp add: tb_create_def LineSeparator_def tb_position_def js_simps)
  from vertical_move [OF tb_wf_create this] show ?thesis
    by (simp add: tb_create_def LineSeparator_def)
qed

end
