(* ===== verification/Utf8.thy ===== *)
theory Utf8
  imports Prelude
begin

text \<open>
  Node's \<open>buf.toString("utf8")\<close>: the WHATWG UTF-8 decoder, from bytes to UTF-16 code units, an
  ill-formed maximal subpart decoding to one U+FFFD. The decoder never consumes a line feed as
  part of another character, so decoding commutes with splitting at line feeds; the log reader
  of \<open>Line_Index\<close> rests on this.
\<close>

type_synonym byte = nat
type_synonym code_unit = nat

definition utf16_units :: "nat \<Rightarrow> code_unit list" where
  "utf16_units cp =
     (if cp < 0x10000 then [cp]
      else [0xD800 + (cp - 0x10000) div 0x400, 0xDC00 + (cp - 0x10000) mod 0x400])"

text \<open>State: continuation bytes still needed, code point so far, bounds of the next byte.\<close>

function utf8_go :: "nat \<Rightarrow> nat \<Rightarrow> nat \<Rightarrow> nat \<Rightarrow> byte list \<Rightarrow> code_unit list" where
  "utf8_go n cp lo hi [] = (if n = 0 then [] else [0xFFFD])"
| "utf8_go 0 cp lo hi (b # bs) =
     (if b \<le> 0x7F then b # utf8_go 0 0 0x80 0xBF bs
      else if 0xC2 \<le> b \<and> b \<le> 0xDF then utf8_go 1 (b - 0xC0) 0x80 0xBF bs
      else if 0xE0 \<le> b \<and> b \<le> 0xEF
        then utf8_go 2 (b - 0xE0) (if b = 0xE0 then 0xA0 else 0x80) (if b = 0xED then 0x9F else 0xBF) bs
      else if 0xF0 \<le> b \<and> b \<le> 0xF4
        then utf8_go 3 (b - 0xF0) (if b = 0xF0 then 0x90 else 0x80) (if b = 0xF4 then 0x8F else 0xBF) bs
      else 0xFFFD # utf8_go 0 0 0x80 0xBF bs)"
| "utf8_go (Suc n) cp lo hi (b # bs) =
     (if lo \<le> b \<and> b \<le> hi
      then (let cp' = cp * 64 + (b - 0x80)
            in if n = 0 then utf16_units cp' @ utf8_go 0 0 0x80 0xBF bs
               else utf8_go n cp' 0x80 0xBF bs)
      else 0xFFFD # utf8_go 0 0 0x80 0xBF (b # bs))"
  by pat_completeness auto
termination
  by (relation "measure (\<lambda>(n, cp, lo, hi, bs). 2 * length bs + (if n = 0 then 0 else 1))") auto

definition utf8_decode :: "byte list \<Rightarrow> code_unit list" where
  "utf8_decode bs = utf8_go 0 0 0x80 0xBF bs"

definition LF :: nat where "LF = 10"

lemma utf8_decode_Nil [simp]: "utf8_decode [] = []"
  by (simp add: utf8_decode_def)

text \<open>The decoder's invariant: inside a character the next byte is at least 0x80, and the
  character is not an overlong spelling of an ASCII one.\<close>

definition utf8_inv :: "nat \<Rightarrow> nat \<Rightarrow> nat \<Rightarrow> bool" where
  "utf8_inv n cp lo \<longleftrightarrow> n = 0 \<or> (0x80 \<le> lo \<and> 16 \<le> cp * 64 + (lo - 0x80))"

lemma utf8_inv_start [simp]: "utf8_inv 0 cp lo"
  by (simp add: utf8_inv_def)

lemma utf8_inv_lead:
  "0xC2 \<le> b \<Longrightarrow> utf8_inv 1 (b - 0xC0) 0x80"
  "0xE0 \<le> b \<Longrightarrow> utf8_inv 2 (b - 0xE0) (if b = 0xE0 then 0xA0 else 0x80)"
  "0xF0 \<le> b \<Longrightarrow> utf8_inv 3 (b - 0xF0) (if b = 0xF0 then 0x90 else 0x80)"
  by (auto simp: utf8_inv_def)

lemma utf8_inv_step:
  assumes "utf8_inv (Suc n) cp lo" and "lo \<le> b"
  shows "utf8_inv m (cp * 64 + (b - 0x80)) 0x80" and "16 \<le> cp * 64 + (b - 0x80)" and "0x80 \<le> b"
proof -
  from assms have b: "0x80 \<le> lo" "16 \<le> cp * 64 + (lo - 0x80)"
    unfolding utf8_inv_def by (simp_all only: nat.simps simp_thms)
  with assms(2) show "0x80 \<le> b" by simp
  have "lo - 0x80 \<le> b - 0x80" using assms(2) by simp
  with b(2) show *: "16 \<le> cp * 64 + (b - 0x80)" by linarith
  have "utf8_inv m y 0x80" if "16 \<le> y" for y
    using that by (simp add: utf8_inv_def)
  with * show "utf8_inv m (cp * 64 + (b - 0x80)) 0x80" by blast
qed

lemma utf8_lead_cases:
  obtains "b \<le> 0x7F" | "0xC2 \<le> b \<and> b \<le> 0xDF" | "0xE0 \<le> b \<and> b \<le> 0xEF" | "0xF0 \<le> b \<and> b \<le> (0xF4::nat)"
  | "\<not> b \<le> 0x7F" "\<not> (0xC2 \<le> b \<and> b \<le> 0xDF)" "\<not> (0xE0 \<le> b \<and> b \<le> 0xEF)" "\<not> (0xF0 \<le> b \<and> b \<le> 0xF4)"
  by blast

lemma utf8_go_newline:
  "utf8_inv n cp lo \<Longrightarrow> utf8_go n cp lo hi (xs @ LF # ys) = utf8_go n cp lo hi xs @ LF # utf8_decode ys"
proof (induction n cp lo hi xs rule: utf8_go.induct)
  case (1 n cp lo hi)
  then show ?case
    by (cases n) (auto simp: utf8_decode_def LF_def utf8_inv_def)
next
  case (2 cp lo hi b bs)
  have *: "utf8_go 0 0 0x80 0xBF (bs @ LF # ys) = utf8_go 0 0 0x80 0xBF bs @ LF # utf8_decode ys"
    if "b \<le> 0x7F \<or> \<not> (0xC2 \<le> b \<and> b \<le> 0xDF) \<and> \<not> (0xE0 \<le> b \<and> b \<le> 0xEF) \<and> \<not> (0xF0 \<le> b \<and> b \<le> 0xF4)"
    using that 2 by (auto split del: if_split)
  show ?case
    using * 2(2-4) utf8_inv_lead [of b] by (simp split del: if_split cong: if_cong) auto
next
  case (3 n cp lo hi b bs)
  then show ?case by (auto simp: utf8_inv_def Let_def)
qed

lemma utf16_units_no_LF: "16 \<le> cp \<Longrightarrow> LF \<notin> set (utf16_units cp)"
  by (auto simp: utf16_units_def LF_def)

lemma utf8_go_no_LF:
  "utf8_inv n cp lo \<Longrightarrow> LF \<notin> set xs \<Longrightarrow> LF \<notin> set (utf8_go n cp lo hi xs)"
proof (induction n cp lo hi xs rule: utf8_go.induct)
  case (1 n cp lo hi)
  then show ?case by (auto simp: LF_def)
next
  case (2 cp lo hi b bs)
  show ?case
    by (cases rule: utf8_lead_cases [of b]) (use 2 utf8_inv_lead [of b] in \<open>auto simp: LF_def split del: if_split\<close>)
next
  case (3 n cp lo hi b bs)
  then show ?case
    using utf8_inv_step(1,2) [of n cp lo b] utf16_units_no_LF [of "cp * 64 + (b - 0x80)"]
    by (simp add: Let_def) (auto simp: LF_def)
qed

lemma utf8_decode_newline: "utf8_decode (xs @ LF # ys) = utf8_decode xs @ LF # utf8_decode ys"
  using utf8_go_newline [of 0 0 "0x80" "0xBF" xs ys] by (simp add: utf8_decode_def)

lemma utf8_decode_no_LF: "LF \<notin> set xs \<Longrightarrow> LF \<notin> set (utf8_decode xs)"
  by (simp add: utf8_decode_def utf8_go_no_LF)

lemma utf8_decode_join: "utf8_decode (js_join [LF] ls) = js_join [LF] (map utf8_decode ls)"
proof (induction ls)
  case (Cons l ls)
  then show ?case
    by (cases "ls = []") (simp_all add: js_join_Cons utf8_decode_newline)
qed simp

lemma utf8_decode_split: "js_split LF (utf8_decode bs) = map utf8_decode (js_split LF bs)"
proof -
  have "utf8_decode bs = js_join [LF] (map utf8_decode (js_split LF bs))"
    by (metis js_join_split utf8_decode_join)
  moreover have "js_split LF (js_join [LF] (map utf8_decode (js_split LF bs))) = map utf8_decode (js_split LF bs)"
    by (rule js_split_join) (use js_split_parts_no_sep utf8_decode_no_LF in fastforce)+
  ultimately show ?thesis by simp
qed

lemma utf8_decode_ascii: "list_all (\<lambda>b. b < 0x80) bs \<Longrightarrow> utf8_decode bs = bs"
  by (induction bs) (simp_all add: utf8_decode_def)

lemma utf16_units_nonempty [simp]: "utf16_units cp \<noteq> []"
  by (simp add: utf16_units_def)

lemma utf8_go_nonempty: "xs \<noteq> [] \<or> 0 < n \<Longrightarrow> utf8_go n cp lo hi xs \<noteq> []"
proof (induction n cp lo hi xs rule: utf8_go.induct)
  case (2 cp lo hi b bs)
  show ?case
    by (cases rule: utf8_lead_cases [of b]) (use 2 in \<open>auto split del: if_split\<close>)
qed (auto simp: Let_def)

lemma utf8_decode_empty [simp]: "utf8_decode xs = [] \<longleftrightarrow> xs = []"
  using utf8_go_nonempty [of xs 0 0 "0x80" "0xBF"] by (auto simp: utf8_decode_def)

section \<open>Encoding\<close>

text \<open>Writing a string as UTF-8: a surrogate pair is one character, a lone surrogate is written as U+FFFD.
  \<open>toWellFormed\<close> is the string that results (\<open>String.toWellFormed\<close>), which is the string itself when it
  has no lone surrogate.\<close>

definition is_high :: "code_unit \<Rightarrow> bool" where
  "is_high u \<longleftrightarrow> 0xD800 \<le> u \<and> u \<le> 0xDBFF"

definition is_low :: "code_unit \<Rightarrow> bool" where
  "is_low u \<longleftrightarrow> 0xDC00 \<le> u \<and> u \<le> 0xDFFF"

fun code_points :: "code_unit list \<Rightarrow> nat list" where
  "code_points [] = []"
| "code_points [u] = [if is_high u \<or> is_low u then 0xFFFD else u]"
| "code_points (u # v # us) =
     (if is_high u \<and> is_low v then (0x10000 + (u - 0xD800) * 0x400 + (v - 0xDC00)) # code_points us
      else (if is_high u \<or> is_low u then 0xFFFD else u) # code_points (v # us))"

definition utf8_bytes :: "nat \<Rightarrow> byte list" where
  "utf8_bytes cp =
     (if cp < 0x80 then [cp]
      else if cp < 0x800 then [0xC0 + cp div 0x40, 0x80 + cp mod 0x40]
      else if cp < 0x10000 then [0xE0 + cp div 0x1000, 0x80 + cp div 0x40 mod 0x40, 0x80 + cp mod 0x40]
      else [0xF0 + cp div 0x40000, 0x80 + cp div 0x1000 mod 0x40, 0x80 + cp div 0x40 mod 0x40, 0x80 + cp mod 0x40])"

definition utf8_encode :: "code_unit list \<Rightarrow> byte list" where
  "utf8_encode us = concat (map utf8_bytes (code_points us))"

definition toWellFormed :: "code_unit list \<Rightarrow> code_unit list" where
  "toWellFormed us = concat (map utf16_units (code_points us))"

definition scalar_value :: "nat \<Rightarrow> bool" where
  "scalar_value cp \<longleftrightarrow> cp < 0x110000 \<and> \<not> is_high cp \<and> \<not> is_low cp"

lemma code_points_scalar: "\<forall>u \<in> set us. u < 0x10000 \<Longrightarrow> cp \<in> set (code_points us) \<Longrightarrow> scalar_value cp"
  by (induction us rule: code_points.induct) (auto simp: scalar_value_def is_high_def is_low_def split: if_splits)

lemma decode_2:
  assumes "2 \<le> a" "a < 0x20" "b < 0x40"
  shows "utf8_decode ((0xC0 + a) # (0x80 + b) # bs) = utf16_units (a * 0x40 + b) @ utf8_decode bs"
  using assms by (simp add: utf8_decode_def Let_def)

lemma decode_3:
  assumes "a < 0x10" "b < 0x40" "c < 0x40" "a = 0 \<Longrightarrow> 0x20 \<le> b" "a = 0xD \<Longrightarrow> b < 0x20"
  shows "utf8_decode ((0xE0 + a) # (0x80 + b) # (0x80 + c) # bs) = utf16_units ((a * 0x40 + b) * 0x40 + c) @ utf8_decode bs"
  using assms by (auto simp: utf8_decode_def Let_def numeral_2_eq_2)

lemma decode_4:
  assumes "a < 5" "b < 0x40" "c < 0x40" "d < 0x40" "a = 0 \<Longrightarrow> 0x10 \<le> b" "a = 4 \<Longrightarrow> b < 0x10"
  shows "utf8_decode ((0xF0 + a) # (0x80 + b) # (0x80 + c) # (0x80 + d) # bs) =
    utf16_units (((a * 0x40 + b) * 0x40 + c) * 0x40 + d) @ utf8_decode bs"
  using assms by (auto simp: utf8_decode_def Let_def numeral_3_eq_3)

lemma decode_character:
  assumes "scalar_value cp"
  shows "utf8_decode (utf8_bytes cp @ bs) = utf16_units cp @ utf8_decode bs"
proof -
  consider "cp < 0x80" | "0x80 \<le> cp" "cp < 0x800" | "0x800 \<le> cp" "cp < 0x10000" | "0x10000 \<le> cp"
    by linarith
  then show ?thesis
  proof cases
    case 1
    then show ?thesis by (simp add: utf8_bytes_def utf8_decode_def utf16_units_def)
  next
    case 2
    then show ?thesis using decode_2 [of "cp div 0x40" "cp mod 0x40" bs] by (simp add: utf8_bytes_def)
  next
    case 3
    let ?a = "cp div 0x1000" and ?b = "cp div 0x40 mod 0x40" and ?c = "cp mod 0x40"
    have "cp div 0x40 div 0x40 = ?a" by (simp add: div_mult2_eq [symmetric])
    then have ab: "?a * 0x40 + ?b = cp div 0x40" by (metis div_mult_mod_eq)
    have "\<not> is_high cp \<and> \<not> is_low cp" using assms by (simp add: scalar_value_def)
    then have "cp < 0xD800 \<or> 0xE000 \<le> cp" by (auto simp: is_high_def is_low_def)
    then have "cp div 0x40 < 0x360 \<or> 0x380 \<le> cp div 0x40" by (auto simp: div_less_iff_less_mult less_eq_div_iff_mult_less_eq)
    moreover have "0x20 \<le> cp div 0x40" using 3 by (simp add: less_eq_div_iff_mult_less_eq)
    ultimately have "?a = 0 \<Longrightarrow> 0x20 \<le> ?b" "?a = 0xD \<Longrightarrow> ?b < 0x20" using ab by linarith+
    then show ?thesis using decode_3 [of ?a ?b ?c bs] 3 ab by (simp add: utf8_bytes_def div_less_iff_less_mult)
  next
    case 4
    let ?a = "cp div 0x40000" and ?b = "cp div 0x1000 mod 0x40" and ?c = "cp div 0x40 mod 0x40" and ?d = "cp mod 0x40"
    have top: "cp < 0x110000" using assms by (simp add: scalar_value_def)
    have "cp div 0x1000 div 0x40 = ?a" by (simp add: div_mult2_eq [symmetric])
    then have ab: "?a * 0x40 + ?b = cp div 0x1000" by (metis div_mult_mod_eq)
    have "cp div 0x40 div 0x40 = cp div 0x1000" by (simp add: div_mult2_eq [symmetric])
    then have abc: "cp div 0x1000 * 0x40 + ?c = cp div 0x40" by (metis div_mult_mod_eq)
    have "0x10 \<le> cp div 0x1000" "cp div 0x1000 < 0x110"
      using 4 top by (simp_all add: less_eq_div_iff_mult_less_eq div_less_iff_less_mult)
    then have "?a = 0 \<Longrightarrow> 0x10 \<le> ?b" "?a = 4 \<Longrightarrow> ?b < 0x10" "?a < 5" using ab by linarith+
    then show ?thesis using decode_4 [of ?a ?b ?c ?d bs] 4 ab abc by (simp add: utf8_bytes_def)
  qed
qed

lemma decode_characters:
  "\<forall>cp \<in> set cps. scalar_value cp \<Longrightarrow> utf8_decode (concat (map utf8_bytes cps)) = concat (map utf16_units cps)"
  by (induction cps) (simp_all add: decode_character)

text \<open>Decoding what was written gives the string back, with its lone surrogates replaced.\<close>

lemma utf8_decode_encode:
  "\<forall>u \<in> set us. u < 0x10000 \<Longrightarrow> utf8_decode (utf8_encode us) = toWellFormed us"
  unfolding utf8_encode_def toWellFormed_def by (rule decode_characters) (use code_points_scalar in blast)

lemma utf16_units_pair:
  assumes "is_high u" "is_low v"
  shows "utf16_units (0x10000 + (u - 0xD800) * 0x400 + (v - 0xDC00)) = [u, v]"
proof -
  have "\<not> 0x10000 + (u - 0xD800) * 0x400 + (v - 0xDC00) < 0x10000" by simp
  moreover have "0x10000 + (u - 0xD800) * 0x400 + (v - 0xDC00) - 0x10000 = (u - 0xD800) * 0x400 + (v - 0xDC00)" by simp
  moreover have "v - 0xDC00 < 0x400" using assms(2) unfolding is_low_def by linarith
  then have "((u - 0xD800) * 0x400 + (v - 0xDC00)) div 0x400 = u - 0xD800"
    "((u - 0xD800) * 0x400 + (v - 0xDC00)) mod 0x400 = v - 0xDC00" by simp_all
  ultimately show ?thesis using assms unfolding utf16_units_def is_high_def is_low_def by simp
qed

lemma toWellFormed_no_surrogates:
  "\<forall>u \<in> set us. u < 0x10000 \<and> \<not> is_high u \<and> \<not> is_low u \<Longrightarrow> toWellFormed us = us"
  by (induction us rule: code_points.induct) (auto simp: toWellFormed_def utf16_units_def)

lemma utf8_bytes_LF: "LF \<in> set (utf8_bytes cp) \<longleftrightarrow> cp = LF"
  by (auto simp: utf8_bytes_def LF_def)

lemma code_points_LF: "LF \<in> set (code_points us) \<Longrightarrow> LF \<in> set us"
  by (induction us rule: code_points.induct) (auto simp: LF_def is_high_def is_low_def split: if_splits)

lemma utf8_encode_no_LF: "LF \<notin> set us \<Longrightarrow> LF \<notin> set (utf8_encode us)"
  using code_points_LF by (auto simp: utf8_encode_def utf8_bytes_LF)

lemma code_points_append_ascii:
  "c < 0x80 \<Longrightarrow> code_points (us @ [c]) = code_points us @ [c]"
  by (induction us rule: code_points.induct) (auto simp: is_high_def is_low_def)

lemma utf8_encode_append_LF: "utf8_encode (us @ [LF]) = utf8_encode us @ [LF]"
  by (simp add: utf8_encode_def code_points_append_ascii utf8_bytes_def LF_def)

lemma utf8_bytes_nonempty [simp]: "utf8_bytes cp \<noteq> []"
  by (simp add: utf8_bytes_def)

lemma utf8_encode_empty [simp]: "utf8_encode us = [] \<longleftrightarrow> us = []"
  by (cases us rule: code_points.cases) (auto simp: utf8_encode_def)

end
