(* ===== verification/Line_Index.thy ===== *)
theory Line_Index
  imports Utf8
begin

text \<open>
  \<open>debugging-shared/src/utils/LineIndex.ts\<close>: the byte offsets of a log file's line starts, built
  by streaming the file, extended by streaming only the appended bytes, and used for windowed
  reads. A file is an inode and its bytes; \<open>stat\<close> and the reads are separate, so each operation
  takes the stat result and the bytes its reads see (a log only grows, so those bytes extend
  what the stat saw). The abstract index \<open>index_spec\<close> says what the offsets are; building and
  extending both refine it, and reading a window is reading those lines of the file. Sizes and
  offsets are natural numbers: every subtraction of the source is clamped or guarded.
\<close>

section \<open>State and operations\<close>

record file_stat =
  st_ino :: nat
  st_size :: nat

record line_index =
  li_path :: string
  li_ino :: nat
  li_byteOffsets :: "nat list"
  li_totalBytes :: nat
  li_completeLineCount :: nat

definition ChunkSize :: nat where "ChunkSize = 2 ^ 20"

definition NewlineByte :: byte where "NewlineByte = LF"

definition NewlineByteLength :: nat where "NewlineByteLength = 1"

text \<open>
  Node's read stream delivers the requested range in \<open>data\<close> events of any sizes up to \<open>highWaterMark\<close>; how it cuts
  the range is its own choice, so a chunking is an argument of every operation that streams. What is relied on is
  that the chunks put together are the range.
\<close>

type_synonym chunking = "byte list \<Rightarrow> byte list list"

definition delivers :: "chunking \<Rightarrow> bool" where
  "delivers chunks \<longleftrightarrow> (\<forall>bs. concat (chunks bs) = bs \<and> list_all (\<lambda>c. c \<noteq> [] \<and> length c \<le> ChunkSize) (chunks bs))"

definition newline_indices :: "byte list \<Rightarrow> nat list" where
  "newline_indices buf = filter (\<lambda>i. buf ! i = NewlineByte) [0..<length buf]"

text \<open>One \<open>data\<close> event: the stream's cursor and the offsets found so far.\<close>

definition on_data :: "nat \<Rightarrow> nat \<times> nat list \<Rightarrow> byte list \<Rightarrow> nat \<times> nat list" where
  "on_data endByte st buf =
     (let (cursor, offsets) = st
      in (cursor + length buf,
          offsets @ filter (\<lambda>pos. pos < endByte)
            (map (\<lambda>i. cursor + i + NewlineByteLength) (newline_indices buf))))"

definition streamNewlineOffsets :: "chunking \<Rightarrow> byte list \<Rightarrow> nat \<Rightarrow> nat \<Rightarrow> nat list \<Rightarrow> nat list" where
  "streamNewlineOffsets chunks content startByte endByte seed =
     (if startByte \<ge> endByte then seed
      else snd (foldl (on_data endByte) (startByte, seed)
             (chunks (take (endByte - startByte) (drop startByte content)))))"

text \<open>\<open>Buffer.alloc(1)\<close> is zero-filled: a read past the end leaves 0, which is not a line feed.\<close>

definition tailEndsInNewline :: "byte list \<Rightarrow> nat \<Rightarrow> bool" where
  "tailEndsInNewline content totalBytes =
     (if totalBytes = 0 then False
      else (if totalBytes - 1 < length content then content ! (totalBytes - 1) else 0) = NewlineByte)"

definition computeCompleteLineCount :: "nat list \<Rightarrow> bool \<Rightarrow> nat" where
  "computeCompleteLineCount byteOffsets tailIsComplete =
     nat (max 0 (int (length byteOffsets) - (if tailIsComplete then 0 else 1)))"

definition buildLineIndex :: "chunking \<Rightarrow> string \<Rightarrow> file_stat \<Rightarrow> byte list \<Rightarrow> line_index" where
  "buildLineIndex chunks path stat content =
     (let byteOffsets = streamNewlineOffsets chunks content 0 (st_size stat) [0];
          tailIsComplete = tailEndsInNewline content (st_size stat)
      in \<lparr>li_path = path, li_ino = st_ino stat, li_byteOffsets = byteOffsets,
          li_totalBytes = st_size stat,
          li_completeLineCount = computeCompleteLineCount byteOffsets tailIsComplete\<rparr>)"

definition extendLineIndex :: "chunking \<Rightarrow> line_index \<Rightarrow> file_stat \<Rightarrow> byte list \<Rightarrow> line_index" where
  "extendLineIndex chunks index stat content =
     (if st_ino stat \<noteq> li_ino index then buildLineIndex chunks (li_path index) stat content
      else if st_size stat \<le> li_totalBytes index then index
      else
        (let oldTailIsNewline = tailEndsInNewline content (li_totalBytes index);
             seed = (if oldTailIsNewline then li_byteOffsets index @ [li_totalBytes index]
                     else li_byteOffsets index);
             byteOffsets = streamNewlineOffsets chunks content (li_totalBytes index) (st_size stat) seed;
             newTailIsComplete = tailEndsInNewline content (st_size stat)
         in index\<lparr>li_byteOffsets := byteOffsets, li_totalBytes := st_size stat,
              li_completeLineCount := computeCompleteLineCount byteOffsets newTailIsComplete\<rparr>))"

definition nth_or :: "'a list \<Rightarrow> nat \<Rightarrow> 'a \<Rightarrow> 'a" where
  "nth_or xs i d = (if i < length xs then xs ! i else d)"

definition readLines :: "line_index \<Rightarrow> byte list \<Rightarrow> nat \<Rightarrow> nat \<Rightarrow> code_unit list list" where
  "readLines index content start_line count =
     (let start = nth_or (li_byteOffsets index) start_line (li_totalBytes index);
          stop = nth_or (li_byteOffsets index) (start_line + count) (li_totalBytes index)
      in if start \<ge> stop then []
         else
           (let text = utf8_decode (take (stop - start) (drop start content))
            in if text \<noteq> [] \<and> last text = LF then js_split LF (butlast text) else js_split LF text))"

section \<open>The abstract index\<close>

text \<open>The lines of a file: the parts between line feeds, without the empty part after a final one.\<close>

definition file_lines :: "byte list \<Rightarrow> byte list list" where
  "file_lines bs =
     (if bs = [] then [] else if last bs = LF then butlast (js_split LF bs) else js_split LF bs)"

definition index_spec :: "string \<Rightarrow> nat \<Rightarrow> byte list \<Rightarrow> line_index" where
  "index_spec path ino bs =
     \<lparr>li_path = path, li_ino = ino,
      li_byteOffsets = map (line_offset (js_split LF bs)) [0..<max 1 (length (file_lines bs))],
      li_totalBytes = length bs, li_completeLineCount = count_list bs LF\<rparr>"

section \<open>Streaming\<close>

fun nl_ends :: "nat \<Rightarrow> byte list \<Rightarrow> nat list" where
  "nl_ends k [] = []"
| "nl_ends k (b # bs) = (if b = LF then Suc k # nl_ends (Suc k) bs else nl_ends (Suc k) bs)"

lemma nl_ends_append: "nl_ends k (xs @ ys) = nl_ends k xs @ nl_ends (k + length xs) ys"
  by (induction xs arbitrary: k) auto

lemma newline_indices_Cons:
  "newline_indices (b # bs) = (if b = LF then [0] else []) @ map Suc (newline_indices bs)"
  by (simp add: newline_indices_def NewlineByte_def upt_conv_Cons map_Suc_upt [symmetric] filter_map o_def
      del: upt_Suc)

lemma map_newline_indices: "map (\<lambda>i. k + i + 1) (newline_indices bs) = nl_ends k bs"
proof (induction bs arbitrary: k)
  case Nil
  show ?case by (simp add: newline_indices_def)
next
  case (Cons b bs)
  from Cons [of "Suc k"] show ?case by (simp add: newline_indices_Cons o_def)
qed

lemma on_data_eq:
  "on_data e (c, os) buf = (c + length buf, os @ filter (\<lambda>pos. pos < e) (nl_ends c buf))"
  using map_newline_indices [of c buf] by (simp add: on_data_def NewlineByteLength_def)

text \<open>The offsets found do not depend on how the stream is cut into chunks.\<close>

lemma stream_chunks:
  "foldl (on_data e) (c, os) chunks
     = (c + length (concat chunks), os @ filter (\<lambda>pos. pos < e) (nl_ends c (concat chunks)))"
  by (induction chunks arbitrary: c os) (simp_all add: on_data_eq nl_ends_append)

lemma streamNewlineOffsets_eq:
  assumes "delivers chunks" and "s \<le> e" and "e \<le> length content"
  shows "streamNewlineOffsets chunks content s e seed
    = seed @ filter (\<lambda>pos. pos < e) (nl_ends s (take (e - s) (drop s content)))"
  using assms by (simp add: streamNewlineOffsets_def stream_chunks delivers_def)

text \<open>Two read streams: one byte at a time, and full chunks.\<close>

definition bytewise :: chunking where "bytewise bs = map (\<lambda>b. [b]) bs"

function full_chunks :: chunking where
  "full_chunks bs = (if bs = [] then [] else take ChunkSize bs # full_chunks (drop ChunkSize bs))"
  by pat_completeness auto
termination
  by (relation "measure length") (auto simp: ChunkSize_def)

declare full_chunks.simps [simp del]

lemma delivers_bytewise: "delivers bytewise"
proof -
  have "concat (bytewise bs) = bs" for bs by (induction bs) (simp_all add: bytewise_def)
  then show ?thesis by (simp add: delivers_def list_all_iff ChunkSize_def bytewise_def)
qed

lemma delivers_full: "delivers full_chunks"
proof -
  have "concat (full_chunks bs) = bs \<and> list_all (\<lambda>c. c \<noteq> [] \<and> length c \<le> ChunkSize) (full_chunks bs)" for bs
  proof (induction bs rule: full_chunks.induct)
    case (1 bs)
    then show ?case by (subst (1 2) full_chunks.simps) (auto simp: ChunkSize_def)
  qed
  then show ?thesis by (simp add: delivers_def)
qed

lemma nl_ends_range: "p \<in> set (nl_ends k bs) \<Longrightarrow> k < p \<and> p \<le> k + length bs"
  by (induction bs arbitrary: k) (auto split: if_splits dest!: Suc_lessD, fastforce+)

lemma nl_ends_offsets:
  "nl_ends k bs = map (\<lambda>i. k + line_offset (js_split LF bs) (Suc i)) [0..<length (js_split LF bs) - 1]"
proof (induction bs arbitrary: k)
  case (Cons b bs)
  obtain l ls where ls: "js_split LF bs = l # ls" by (cases "js_split LF bs") auto
  from Cons [of "Suc k"] show ?case
    by (simp add: ls upt_conv_Cons map_Suc_upt [symmetric] o_def del: upt_Suc)
qed simp

section \<open>The offsets are the line starts\<close>

definition offsets_of :: "byte list \<Rightarrow> nat list" where
  "offsets_of bs = 0 # filter (\<lambda>pos. pos < length bs) (nl_ends 0 bs)"

lemma line_offset_less:
  assumes "i < j" and "j \<le> length ls"
  shows "line_offset ls i < line_offset ls j"
proof -
  have "take j ls = take i ls @ take (j - i) (drop i ls)"
    using assms(1) by (metis less_imp_le take_add le_add_diff_inverse)
  with assms(1) show ?thesis by (simp add: line_offset_def)
qed

lemma line_offset_end:
  "line_offset (js_split sep bs) (length (js_split sep bs) - 1) + length (last (js_split sep bs)) = length bs"
proof -
  let ?ls = "js_split sep bs"
  have "sum_list (map length ?ls) = sum_list (map length (butlast ?ls)) + length (last ?ls)"
    by (subst append_butlast_last_id [of ?ls, symmetric]) (simp_all only: map_append sum_list_append js_split_nonempty, simp_all)
  moreover have "take (length ?ls - 1) ?ls = butlast ?ls" by (simp add: butlast_conv_take)
  moreover have "1 \<le> length ?ls" by (simp add: Suc_le_eq)
  moreover have "Suc (length bs) = sum_list (map length ?ls) + length ?ls"
    using length_js_join [of ?ls sep] by simp
  ultimately show ?thesis by (simp only: line_offset_def)
qed

lemma length_file_lines:
  "length (file_lines bs) = (if bs = [] then 0 else length (js_split LF bs) - (if last bs = LF then 1 else 0))"
  by (simp add: file_lines_def)

lemma offsets_of_eq:
  "offsets_of bs = map (line_offset (js_split LF bs)) [0..<max 1 (length (file_lines bs))]"
proof (cases "bs = []")
  case True
  then show ?thesis by (simp add: offsets_of_def file_lines_def)
next
  case False
  let ?ls = "js_split LF bs" and ?n = "length (js_split LF bs)"
  have n1: "1 \<le> ?n" by (simp add: Suc_le_eq)
  have nl: "nl_ends 0 bs = map (line_offset ?ls) (map Suc [0..<?n - 1])"
    by (simp add: nl_ends_offsets [of 0] o_def)
  have pos: "line_offset ?ls i < length bs" if "i < ?n - 1" for i
    using line_offset_less [of i "?n - 1" ?ls] that line_offset_end [of LF bs] by simp
  show ?thesis
  proof (cases "last bs = LF")
    case True
    with False have last: "last ?ls = []" by (simp add: js_split_last)
    with line_offset_end [of LF bs] have lst: "line_offset ?ls (?n - 1) = length bs" by simp
    have "?n \<noteq> 1"
      using last False by (metis js_join_split js_split_eq_Nil_part last_ConsL length_Suc_conv length_0_conv One_nat_def)
    with n1 obtain m where m: "?n = Suc (Suc m)" by (metis One_nat_def Suc_le_D not0_implies_Suc)
    have "filter (\<lambda>pos. pos < length bs) (nl_ends 0 bs) = map (line_offset ?ls) (map Suc [0..<m])"
      using pos lst by (simp add: nl m filter_map o_def filter_id_conv)
    then show ?thesis
      using False True by (simp add: offsets_of_def length_file_lines m map_Suc_upt upt_conv_Cons del: upt_Suc)
  next
    case neq: False
    then have "last ?ls \<noteq> []" using False by (simp add: js_split_last)
    with line_offset_end [of LF bs] have "line_offset ?ls (?n - 1) < length bs" by (cases "last ?ls") auto
    with pos have "line_offset ?ls i < length bs" if "i < ?n" for i
      using that by (cases "i = ?n - 1") auto
    then have "filter (\<lambda>pos. pos < length bs) (nl_ends 0 bs) = map (line_offset ?ls) (map Suc [0..<?n - 1])"
      by (auto simp: nl filter_id_conv)
    with n1 show ?thesis
      using False neq by (simp add: offsets_of_def length_file_lines map_Suc_upt upt_conv_Cons max_def del: upt_Suc)
  qed
qed

lemma tailEndsInNewline_eq:
  assumes "n \<le> length content"
  shows "tailEndsInNewline content n = (n \<noteq> 0 \<and> last (take n content) = LF)"
proof (cases "n = 0")
  case False
  then have "last (take n content) = content ! (n - 1)"
    using assms by (subst last_conv_nth) (auto simp: min_def)
  moreover have "n - 1 < length content" using False assms by simp
  ultimately show ?thesis using False by (simp add: tailEndsInNewline_def NewlineByte_def)
qed (simp add: tailEndsInNewline_def)

lemma complete_count:
  "computeCompleteLineCount (offsets_of bs) (bs \<noteq> [] \<and> last bs = LF) = count_list bs LF"
proof -
  have "last bs = LF \<Longrightarrow> bs \<noteq> [] \<Longrightarrow> 0 < count_list bs LF"
    by (metis count_list_0_iff last_in_set not_gr_zero)
  then show ?thesis
    using length_js_split [of LF bs]
    by (auto simp: offsets_of_eq computeCompleteLineCount_def length_file_lines max_def)
qed

lemma index_spec_offsets:
  "index_spec path ino bs = \<lparr>li_path = path, li_ino = ino, li_byteOffsets = offsets_of bs,
     li_totalBytes = length bs,
     li_completeLineCount = computeCompleteLineCount (offsets_of bs) (bs \<noteq> [] \<and> last bs = LF)\<rparr>"
  unfolding index_spec_def complete_count by (simp only: offsets_of_eq)

lemma build_spec:
  assumes "delivers chunks" and "st_size stat \<le> length content"
  shows "buildLineIndex chunks path stat content = index_spec path (st_ino stat) (take (st_size stat) content)"
proof -
  let ?bs = "take (st_size stat) content"
  have "streamNewlineOffsets chunks content 0 (st_size stat) [0] = offsets_of ?bs"
    using assms by (simp add: streamNewlineOffsets_eq offsets_of_def)
  moreover have "tailEndsInNewline content (st_size stat) = (?bs \<noteq> [] \<and> last ?bs = LF)"
    using assms by (auto simp: tailEndsInNewline_eq)
  ultimately show ?thesis
    using assms by (simp add: buildLineIndex_def index_spec_offsets Let_def)
qed

lemma filter_below_total:
  "filter (\<lambda>pos. pos < length bs + k) (nl_ends 0 bs)
    = filter (\<lambda>pos. pos < length bs) (nl_ends 0 bs) @ (if bs \<noteq> [] \<and> last bs = LF \<and> 0 < k then [length bs] else [])"
proof (induction bs rule: rev_induct)
  case (snoc b bs)
  have "filter (\<lambda>pos. pos < Suc (length bs + j)) (nl_ends 0 bs) = nl_ends 0 bs" for j
    by (auto simp: filter_id_conv dest!: nl_ends_range)
  from this [of 0] this [of k] show ?case by (simp add: nl_ends_append)
qed simp

lemma offsets_of_append:
  assumes "ys \<noteq> []"
  shows "offsets_of (xs @ ys) = (offsets_of xs @ (if xs \<noteq> [] \<and> last xs = LF then [length xs] else []))
    @ filter (\<lambda>pos. pos < length xs + length ys) (nl_ends (length xs) ys)"
  using assms by (simp add: offsets_of_def nl_ends_append filter_below_total)

lemma extend_spec:
  assumes delivers: "delivers chunks" and grown: "take (length old) content = old" and size: "length old \<le> st_size stat"
    and read: "st_size stat \<le> length content"
  shows "extendLineIndex chunks (index_spec path (st_ino stat) old) stat content
    = index_spec path (st_ino stat) (take (st_size stat) content)"
proof (cases "st_size stat = length old")
  case True
  with grown show ?thesis by (simp add: extendLineIndex_def index_spec_def)
next
  case False
  let ?new = "take (st_size stat - length old) (drop (length old) content)"
  have bs: "take (st_size stat) content = old @ ?new"
    using grown size take_add [of "length old" "st_size stat - length old" content] by simp
  have new: "?new \<noteq> []" using False size read by simp
  have len: "length old + length ?new = st_size stat" using size read by simp
  define t where "t = (old \<noteq> [] \<and> last old = LF)"
  have old_tail: "tailEndsInNewline content (length old) = t"
    using grown size read by (auto simp: tailEndsInNewline_eq t_def)
  have "streamNewlineOffsets chunks content (length old) (st_size stat)
      (if t then offsets_of old @ [length old] else offsets_of old)
      = offsets_of (take (st_size stat) content)"
    using delivers size read new by (simp add: streamNewlineOffsets_eq bs offsets_of_append len t_def)
  moreover have "tailEndsInNewline content (st_size stat)
      = (take (st_size stat) content \<noteq> [] \<and> last (take (st_size stat) content) = LF)"
    using size read False by (auto simp: tailEndsInNewline_eq)
  ultimately show ?thesis
    using False size read
    by (cases t) (simp_all add: extendLineIndex_def index_spec_offsets old_tail Let_def)
qed

section \<open>Reading a window\<close>

definition decode_window :: "byte list \<Rightarrow> code_unit list list" where
  "decode_window bs =
     (let text = utf8_decode bs
      in if text \<noteq> [] \<and> last text = LF then js_split LF (butlast text) else js_split LF text)"

lemma split_join_decoded:
  assumes "ls \<noteq> []" and "\<And>l. l \<in> set ls \<Longrightarrow> LF \<notin> set l"
  shows "js_split LF (js_join [LF] (map utf8_decode ls)) = map utf8_decode ls"
proof (rule js_split_join)
  show "\<And>l. l \<in> set (map utf8_decode ls) \<Longrightarrow> LF \<notin> set l"
    using assms(2) utf8_decode_no_LF by fastforce
qed (simp add: assms)

lemma decode_window_terminated:
  assumes "ls \<noteq> []" and "\<And>l. l \<in> set ls \<Longrightarrow> LF \<notin> set l"
  shows "decode_window (concat (map (\<lambda>l. l @ [LF]) ls)) = map utf8_decode ls"
  using split_join_decoded [OF assms] assms(1)
  by (simp add: decode_window_def concat_terminated utf8_decode_newline [of _ "[]", simplified] utf8_decode_join)

lemma decode_window_open:
  assumes "ls \<noteq> []" and "\<And>l. l \<in> set ls \<Longrightarrow> LF \<notin> set l" and "last ls \<noteq> []"
  shows "decode_window (js_join [LF] ls) = map utf8_decode ls"
proof -
  let ?t = "js_join [LF] (map utf8_decode ls)"
  have sp: "js_split LF ?t = map utf8_decode ls"
    by (rule split_join_decoded [OF assms(1,2)])
  have "\<not> (?t \<noteq> [] \<and> last ?t = LF)"
    using js_split_last [of ?t LF] assms(1,3) by (auto simp: sp last_map)
  then show ?thesis by (auto simp: decode_window_def utf8_decode_join sp Let_def)
qed

lemma file_lines_no_LF: "l \<in> set (file_lines bs) \<Longrightarrow> LF \<notin> set l"
  by (auto simp: file_lines_def split: if_splits dest: js_split_parts_no_sep in_set_butlastD)

lemma line_offset_drop:
  "i \<le> j \<Longrightarrow> line_offset ls j - line_offset ls i = line_offset (drop i ls) (j - i)"
  using take_add [of i "j - i" ls] by (simp add: line_offset_def)

lemma file_lines_split:
  assumes "bs \<noteq> []"
  shows "js_split LF bs = file_lines bs @ (if last bs = LF then [[]] else [])"
    and "last bs \<noteq> LF \<Longrightarrow> last (js_split LF bs) \<noteq> []"
  using assms js_split_last [OF assms, of LF]
  by (auto simp: file_lines_def) (metis append_butlast_last_id js_split_nonempty)

lemma file_lines_nonempty: "bs \<noteq> [] \<Longrightarrow> file_lines bs \<noteq> []"
  using file_lines_split(1) [of bs] js_split_eq_Nil_part [of LF bs] by (auto split: if_splits)

text \<open>The bytes of a window of complete or trailing lines.\<close>

lemma window_bytes:
  assumes "bs \<noteq> []" and "i < length (file_lines bs)" and "0 < count"
  shows "decode_window
      (take ((if i + count < length (file_lines bs) then line_offset (js_split LF bs) (i + count) else length bs)
              - line_offset (js_split LF bs) i) (drop (line_offset (js_split LF bs) i) bs))
    = map utf8_decode (take count (drop i (file_lines bs)))"
proof -
  let ?ls = "js_split LF bs" and ?fl = "file_lines bs"
  have i: "i < length ?ls" using assms(2) by (simp add: file_lines_split [OF assms(1)])
  have drop: "drop (line_offset ?ls i) bs = js_join [LF] (drop i ?ls)"
    using drop_line_offset [OF i, of LF] by simp
  have no: "LF \<notin> set l" if "l \<in> set (drop k ?fl)" for l k
    using that by (meson file_lines_no_LF in_set_dropD)
  have all_bytes: "take (length bs - line_offset ?ls i) (js_join [LF] (drop i ?ls)) = js_join [LF] (drop i ?ls)"
    by (simp flip: drop)
  show ?thesis
  proof (cases "i + count < length ?fl")
    case True
    then have "take count (drop i ?ls) = take count (drop i ?fl)" "count < length (drop i ?ls)"
      by (simp_all add: file_lines_split [OF assms(1)])
    with True show ?thesis
      using decode_window_terminated [of "take count (drop i ?fl)"] assms no
      by (simp add: drop line_offset_drop take_line_offset) (meson in_set_takeD)
  next
    case False
    then have all: "take count (drop i ?fl) = drop i ?fl" by simp
    show ?thesis
    proof (cases "last bs = LF")
      case True
      then have eq: "js_join [LF] (drop i ?ls) = concat (map (\<lambda>l. l @ [LF]) (drop i ?fl))"
        using assms by (simp add: file_lines_split js_join_terminated)
      with False show ?thesis
        using decode_window_terminated [of "drop i ?fl"] assms no all_bytes [unfolded eq]
        by (simp add: drop all)
    next
      case neq: False
      then have eq: "drop i ?ls = drop i ?fl" and "last (drop i ?fl) \<noteq> []"
        using assms file_lines_split [OF assms(1)] by (simp_all add: last_drop)
      with False show ?thesis
        using decode_window_open [of "drop i ?fl"] assms no all_bytes [unfolded eq]
        by (simp add: drop all eq)
    qed
  qed
qed

lemma readLines_decode_window:
  "readLines index content i count =
     (let start = nth_or (li_byteOffsets index) i (li_totalBytes index);
          stop = nth_or (li_byteOffsets index) (i + count) (li_totalBytes index)
      in if start \<ge> stop then [] else decode_window (take (stop - start) (drop start content)))"
  by (simp add: readLines_def decode_window_def Let_def)

lemma take_drop_prefix:
  assumes "take (length b) c = b" and "e \<le> length b"
  shows "take (e - k) (drop k c) = take (e - k) (drop k b)"
proof -
  have "take e c = take e b" using assms by (metis min.absorb1 take_take)
  then show ?thesis by (simp flip: drop_take)
qed

lemma line_start_less:
  assumes "k < length (file_lines bs)"
  shows "line_offset (js_split LF bs) k < length bs"
proof -
  have ne: "bs \<noteq> []" using assms by (auto simp: file_lines_def)
  let ?ls = "js_split LF bs"
  show ?thesis
  proof (cases "k = length ?ls - 1")
    case True
    then have "last bs \<noteq> LF" using assms ne by (auto simp: length_file_lines split: if_splits)
    then have "last ?ls \<noteq> []" using js_split_last [OF ne, of LF] by simp
    with True line_offset_end [of LF bs] show ?thesis by (cases "last ?ls") auto
  next
    case False
    then have "k < length ?ls - 1" using assms by (auto simp: length_file_lines split: if_splits)
    with line_offset_less [of k "length ?ls - 1" ?ls] line_offset_end [of LF bs] show ?thesis by simp
  qed
qed

lemma readLines_spec:
  assumes "take (length bs) content = bs"
  shows "readLines (index_spec path ino bs) content i count
    = map utf8_decode (take count (drop i (file_lines bs)))"
proof (cases "bs = [] \<or> length (file_lines bs) \<le> i \<or> count = 0")
  case True
  then consider "bs = []" | "count = 0" | "bs \<noteq> []" "length (file_lines bs) \<le> i" by blast
  then show ?thesis
  proof cases
    case 1
    then show ?thesis by (simp add: readLines_decode_window index_spec_def nth_or_def file_lines_def)
  next
    case 2
    then show ?thesis by (simp add: readLines_decode_window Let_def)
  next
    case 3
    then have "max 1 (length (file_lines bs)) = length (file_lines bs)"
      using file_lines_nonempty [of bs] by (cases "file_lines bs") simp_all
    with 3 show ?thesis by (simp add: readLines_decode_window index_spec_def nth_or_def)
  qed
next
  case False
  let ?ls = "js_split LF bs" and ?n = "length (file_lines bs)"
  let ?stop = "if i + count < ?n then line_offset ?ls (i + count) else length bs"
  from False have i: "bs \<noteq> []" "i < ?n" "0 < count" by auto
  have le: "line_offset ?ls i < ?stop \<and> ?stop \<le> length bs"
  proof -
    have n: "?n \<le> length ?ls" by (simp add: length_file_lines)
    show ?thesis
      using line_start_less [of i bs] line_start_less [of "i + count" bs] i n line_offset_less [of i "i + count" ?ls] by auto
  qed
  then have "take (?stop - line_offset ?ls i) (drop (line_offset ?ls i) content)
      = take (?stop - line_offset ?ls i) (drop (line_offset ?ls i) bs)"
    using take_drop_prefix [OF assms] by blast
  with le i show ?thesis
    using window_bytes [OF i]
    by (auto simp: readLines_decode_window index_spec_def nth_or_def Let_def max_def)
qed

section \<open>A growing log\<close>

text \<open>
  The index as it evolves: built once, then extended at each poll. The log only grows, so every
  poll sees a prefix of its later content; a poll is the size that \<open>stat\<close> reported and the chunks of its stream.
\<close>

definition poll_index :: "string \<Rightarrow> nat \<Rightarrow> byte list \<Rightarrow> nat \<times> chunking \<Rightarrow> (nat \<times> chunking) list \<Rightarrow> line_index" where
  "poll_index path ino content first polls =
     foldl (\<lambda>index (size, chunks). extendLineIndex chunks index \<lparr>st_ino = ino, st_size = size\<rparr> content)
       (buildLineIndex (snd first) path \<lparr>st_ino = ino, st_size = fst first\<rparr> content) polls"

lemma extend_index_spec:
  assumes "delivers chunks" and "a \<le> length content" and "b \<le> length content"
  shows "extendLineIndex chunks (index_spec path ino (take a content)) \<lparr>st_ino = ino, st_size = b\<rparr> content
    = index_spec path ino (take (max a b) content)"
proof (cases "a \<le> b")
  case True
  with assms extend_spec [OF assms(1), of "take a content" content "\<lparr>st_ino = ino, st_size = b\<rparr>" path] show ?thesis
    by (simp add: max_def)
next
  case False
  with assms show ?thesis by (simp add: extendLineIndex_def index_spec_def)
qed

lemma foldl_max_le:
  "(a::nat) \<le> m \<Longrightarrow> list_all (\<lambda>n. n \<le> m) ns \<Longrightarrow> foldl max a ns \<le> m"
  by (induction ns arbitrary: a) auto

definition possible_poll :: "byte list \<Rightarrow> nat \<times> chunking \<Rightarrow> bool" where
  "possible_poll content poll \<longleftrightarrow> fst poll \<le> length content \<and> delivers (snd poll)"

lemma poll_index_spec:
  assumes "possible_poll content first" and "list_all (possible_poll content) polls"
  shows "poll_index path ino content first polls
    = index_spec path ino (take (foldl max (fst first) (map fst polls)) content)"
  using assms(2)
proof (induction polls rule: rev_induct)
  case Nil
  from assms(1) show ?case by (simp add: poll_index_def build_spec possible_poll_def)
next
  case (snoc poll polls)
  have "list_all (\<lambda>n. n \<le> length content) (map fst polls)"
    using snoc.prems by (simp add: list_all_iff possible_poll_def)
  then have "foldl max (fst first) (map fst polls) \<le> length content"
    using assms(1) by (simp add: foldl_max_le possible_poll_def)
  with snoc show ?case
    by (cases poll) (simp add: poll_index_def extend_index_spec possible_poll_def)
qed

section \<open>Properties\<close>

text \<open>
  C38: Following a growing log incrementally is indistinguishable from indexing it from scratch: after
  any sequence of polls (also ones that see no growth or a stale smaller size), the index equals
  a full build at the largest size seen, however each poll's read stream cut its range into chunks and however
  the full build's does.
\<close>

theorem incremental_index_equals_rebuild:
  assumes "possible_poll content first" and "list_all (possible_poll content) polls" and "delivers chunks"
  shows "poll_index path ino content first polls
    = buildLineIndex chunks path \<lparr>st_ino = ino, st_size = foldl max (fst first) (map fst polls)\<rparr> content"
proof -
  have "list_all (\<lambda>n. n \<le> length content) (map fst polls)"
    using assms(2) by (simp add: list_all_iff possible_poll_def)
  then have "foldl max (fst first) (map fst polls) \<le> length content"
    using assms(1) by (simp add: foldl_max_le possible_poll_def)
  then show ?thesis by (simp add: poll_index_spec [OF assms(1,2)] build_spec [OF assms(3)])
qed

theorem incremental_index_equals_rebuild_witness:
  "poll_index ''log'' 7 [97, LF, 98, 99, LF, 100] (1, full_chunks) [(2, bytewise), (2, full_chunks), (5, bytewise)]
    = buildLineIndex full_chunks ''log'' \<lparr>st_ino = 7, st_size = 5\<rparr> [97, LF, 98, 99, LF, 100]"
  using incremental_index_equals_rebuild [of "[97, LF, 98, 99, LF, 100]" "(1, full_chunks)"
      "[(2, bytewise), (2, full_chunks), (5, bytewise)]" full_chunks "''log''" 7]
  by (simp add: possible_poll_def delivers_bytewise delivers_full)

text \<open>
  An index built over a file lists, for each line, the byte at which it starts, and its
  complete-line count is the number of line feeds, so a line still being written is not counted.
\<close>

theorem build_index_contents:
  assumes "delivers chunks" and "sz \<le> length content"
  shows "li_byteOffsets (buildLineIndex chunks path \<lparr>st_ino = ino, st_size = sz\<rparr> content)
      = map (line_offset (js_split LF (take sz content))) [0..<max 1 (length (file_lines (take sz content)))]
    \<and> li_completeLineCount (buildLineIndex chunks path \<lparr>st_ino = ino, st_size = sz\<rparr> content)
      = count_list (take sz content) LF"
  using assms by (simp add: build_spec index_spec_def)

theorem build_index_contents_witness:
  "li_byteOffsets (buildLineIndex bytewise ''log'' \<lparr>st_ino = 7, st_size = 3\<rparr> [97, LF, 98]) = [0, 2]"
  using build_index_contents [OF delivers_bytewise, of 3 "[97, LF, 98]" "''log''" 7]
  by (simp add: LF_def file_lines_def line_offset_def upt_rec)

text \<open>
  Reading \<open>count\<close> lines from line \<open>i\<close> through an incrementally maintained index returns exactly
  those lines of the file, decoded as UTF-8: never a line cut short, never a neighbour's bytes,
  and nothing past the end.
\<close>

theorem readLines_reads_lines:
  assumes "possible_poll content first" and "list_all (possible_poll content) polls"
  shows "readLines (poll_index path ino content first polls) content i count
    = map utf8_decode (take count (drop i (file_lines (take (foldl max (fst first) (map fst polls)) content))))"
proof -
  have "list_all (\<lambda>n. n \<le> length content) (map fst polls)"
    using assms(2) by (simp add: list_all_iff possible_poll_def)
  then have "foldl max (fst first) (map fst polls) \<le> length content"
    using assms(1) by (simp add: foldl_max_le possible_poll_def)
  then show ?thesis by (simp add: poll_index_spec [OF assms] readLines_spec)
qed

theorem readLines_reads_lines_witness:
  "readLines (poll_index ''log'' 7 [97, LF, 98, 99, LF, 100] (2, bytewise) [(5, full_chunks)]) [97, LF, 98, 99, LF, 100] 1 10 = [[98, 99]]"
  using readLines_reads_lines [of "[97, LF, 98, 99, LF, 100]" "(2, bytewise)" "[(5, full_chunks)]" "''log''" 7 1 10]
  by (simp add: LF_def file_lines_def utf8_decode_ascii possible_poll_def delivers_bytewise delivers_full)

end
