(* ===== verification/Canonical_Codec.thy ===== *)
theory Canonical_Codec
  imports Prelude
begin

text \<open>
  \<open>flow-batch-operator-slashing/src/EnvelopeCanonicalCodec.ts\<close>: the field-complete protobuf
  encoding whose keccak256 the OPP header checksums are, the derivation of the semantic header
  (SEC-102), the tagged dispute envelope and the chain-tip helpers. Bytes and bigints are \<^typ>\<open>int\<close>.
  The locale \<open>prefix_codec\<close> is the contract of one encoded field: a decoder that gives back the
  value and what follows. Its interpretations on the encoders below give unique decodability, so
  two different headers or payloads never have the same checksum pre-image. The \<open>ethers\<close> functions
  and the generated \<open>Envelope.toBinary\<close> are not part of the repository: they are the fields of
  \<open>codec_lib\<close>, an argument of the definitions, with their documented behaviour in \<open>lib_ok\<close>.
\<close>

unbundle bit_operations_syntax

type_synonym bytes = "int list"

section \<open>Primitive encoders\<close>

definition WireTypeLengthDelimited :: int where "WireTypeLengthDelimited = 2"

definition WireTypeVarint :: int where "WireTypeVarint = 0"

function canonicalVarint :: "int \<Rightarrow> bytes" where
  "canonicalVarint v =
     (if v \<ge> 0x80 then ((v AND 0x7f) OR 0x80) # canonicalVarint (drop_bit 7 v) else [v])"
  by pat_completeness auto
termination
  by (relation "measure nat") (auto simp: drop_bit_eq_div)

declare canonicalVarint.simps [simp del]

definition canonicalTag :: "int \<Rightarrow> int \<Rightarrow> bytes" where
  "canonicalTag field wireType = canonicalVarint ((push_bit 3 field) OR wireType)"

definition canonicalVarintField :: "int \<Rightarrow> int \<Rightarrow> bytes" where
  "canonicalVarintField field v = canonicalTag field WireTypeVarint @ canonicalVarint v"

definition canonicalBytesField :: "int \<Rightarrow> bytes \<Rightarrow> bytes" where
  "canonicalBytesField field bs =
     canonicalTag field WireTypeLengthDelimited @ canonicalVarint (int (length bs)) @ bs"

definition canonicalSubMessage :: "int \<Rightarrow> bytes \<Rightarrow> bytes" where
  "canonicalSubMessage field body =
     canonicalTag field WireTypeLengthDelimited @ canonicalVarint (int (length body)) @ body"

section \<open>Messages\<close>

definition canonicalChainId :: "int \<Rightarrow> int \<Rightarrow> bytes" where
  "canonicalChainId kind ident = canonicalVarintField 1 kind @ canonicalVarintField 2 ident"

definition canonicalEndpointsDefault :: bytes where
  "canonicalEndpointsDefault =
     canonicalSubMessage 1 (canonicalChainId 0 0) @ canonicalSubMessage 2 (canonicalChainId 0 0)"

record attestation_body =
  ab_type :: int
  ab_dataSize :: int
  ab_data :: bytes

definition canonicalAttestation :: "attestation_body \<Rightarrow> bytes" where
  "canonicalAttestation att =
     canonicalVarintField 1 (ab_type att) @ canonicalVarintField 2 (ab_dataSize att)
     @ canonicalBytesField 3 (ab_data att)"

definition canonicalPayload :: "int \<Rightarrow> attestation_body list \<Rightarrow> bytes" where
  "canonicalPayload version atts =
     canonicalVarintField 1 version
     @ concat (map (\<lambda>att. canonicalSubMessage 2 (canonicalAttestation att)) atts)"

record header_body =
  hb_messageId :: bytes
  hb_previousMessageId :: bytes
  hb_payloadSize :: int
  hb_payloadChecksum :: bytes
  hb_timestamp :: int
  hb_headerChecksum :: bytes

definition canonicalHeader :: "header_body \<Rightarrow> bytes" where
  "canonicalHeader h =
     canonicalSubMessage 1 canonicalEndpointsDefault
     @ canonicalBytesField 2 (hb_messageId h)
     @ canonicalBytesField 3 (hb_previousMessageId h)
     @ canonicalVarintField 5 (hb_payloadSize h)
     @ canonicalBytesField 6 (hb_payloadChecksum h)
     @ canonicalVarintField 7 (hb_timestamp h)
     @ canonicalBytesField 8 (hb_headerChecksum h)"

section \<open>The contract of an encoded field\<close>

locale prefix_codec =
  fixes enc :: "'a \<Rightarrow> bytes"
    and dec :: "bytes \<Rightarrow> ('a \<times> bytes) option"
    and ok :: "'a \<Rightarrow> bool"
  assumes dec_enc: "ok x \<Longrightarrow> dec (enc x @ rest) = Some (x, rest)"
begin

lemma enc_append_inject:
  assumes "ok x" and "ok y"
  shows "enc x @ r = enc y @ s \<longleftrightarrow> x = y \<and> r = s"
proof
  assume "enc x @ r = enc y @ s"
  then have "Some (x, r) = Some (y, s)"
    by (metis dec_enc [OF assms(1)] dec_enc [OF assms(2)])
  then show "x = y \<and> r = s" by simp
qed simp

lemma enc_inject: "ok x \<Longrightarrow> ok y \<Longrightarrow> enc x = enc y \<longleftrightarrow> x = y"
  using enc_append_inject [of x y "[]" "[]"] by simp

end

text \<open>A field whose encoding is never empty can be repeated up to the end of its message.\<close>

locale repeated_codec = prefix_codec +
  assumes enc_nonempty: "enc x \<noteq> []"
begin

lemma repeated_inject:
  "list_all ok xs \<Longrightarrow> list_all ok ys \<Longrightarrow> concat (map enc xs) = concat (map enc ys) \<Longrightarrow> xs = ys"
proof (induction xs arbitrary: ys)
  case Nil
  then show ?case by (cases ys) (auto simp: enc_nonempty)
next
  case (Cons x xs)
  from Cons.prems obtain y ys' where ys: "ys = y # ys'"
    by (cases ys) (auto simp: enc_nonempty)
  with Cons.prems have "x = y \<and> concat (map enc xs) = concat (map enc ys')"
    using enc_append_inject [of x y] by simp
  with Cons ys show ?case by simp
qed

end

section \<open>Decoders\<close>

fun dec_varint :: "bytes \<Rightarrow> (int \<times> bytes) option" where
  "dec_varint [] = None"
| "dec_varint (b # bs) =
     (if b < 0x80 then Some (b, bs)
      else (case dec_varint bs of None \<Rightarrow> None | Some (v, r) \<Rightarrow> Some ((b - 0x80) + 0x80 * v, r)))"

definition dec_tag :: "int \<Rightarrow> int \<Rightarrow> bytes \<Rightarrow> bytes option" where
  "dec_tag field wireType bs =
     (case dec_varint bs of None \<Rightarrow> None
      | Some (t, r) \<Rightarrow> if t = ((push_bit 3 field) OR wireType) then Some r else None)"

definition dec_varint_field :: "int \<Rightarrow> bytes \<Rightarrow> (int \<times> bytes) option" where
  "dec_varint_field field bs = Option.bind (dec_tag field WireTypeVarint bs) dec_varint"

definition dec_bytes_field :: "int \<Rightarrow> bytes \<Rightarrow> (bytes \<times> bytes) option" where
  "dec_bytes_field field bs =
     Option.bind (dec_tag field WireTypeLengthDelimited bs)
       (\<lambda>r. Option.bind (dec_varint r)
         (\<lambda>(n, s). if 0 \<le> n \<and> nat n \<le> length s then Some (take (nat n) s, drop (nat n) s) else None))"

lemma take_bit_or_exp: "take_bit n v OR 2 ^ n = take_bit n v + (2 ^ n :: int)"
  by (rule disjunctive_add_eq_or [symmetric], rule bit_eqI) (auto simp: bit_simps)

lemma varint_low: "(v AND 0x7f) OR 0x80 = v mod 0x80 + (0x80 :: int)"
  using take_bit_or_exp [of 7 v] take_bit_eq_mask [of 7 v]
  by (simp add: mask_eq_exp_minus_1 take_bit_eq_mod)

lemma canonicalVarint_step:
  "v \<ge> 0x80 \<Longrightarrow> canonicalVarint v = (v mod 0x80 + 0x80) # canonicalVarint (v div 0x80)"
  by (subst canonicalVarint.simps) (simp add: varint_low drop_bit_eq_div)

lemma canonicalVarint_small: "v < 0x80 \<Longrightarrow> canonicalVarint v = [v]"
  by (subst canonicalVarint.simps) simp

lemma dec_varint_enc: "0 \<le> v \<Longrightarrow> dec_varint (canonicalVarint v @ rest) = Some (v, rest)"
proof (induction v rule: canonicalVarint.induct)
  case (1 v)
  show ?case
  proof (cases "v \<ge> 0x80")
    case True
    moreover have "drop_bit 7 v = v div 0x80" by (simp add: drop_bit_eq_div)
    ultimately have "dec_varint (canonicalVarint (v div 0x80) @ rest) = Some (v div 0x80, rest)"
      using 1 by simp
    moreover have "\<not> v mod 0x80 < 0" by (simp add: not_less)
    ultimately show ?thesis by (simp add: canonicalVarint_step [OF True])
  qed (simp add: canonicalVarint_small 1)
qed

lemma canonicalVarint_nonempty [simp]: "canonicalVarint v \<noteq> []"
  by (subst canonicalVarint.simps) simp

interpretation varint: repeated_codec canonicalVarint dec_varint "\<lambda>v. 0 \<le> v"
  by unfold_locales (simp_all add: dec_varint_enc)

section \<open>Fields are uniquely decodable\<close>

lemma wire_type_nonneg [simp]: "0 \<le> WireTypeVarint" "0 \<le> WireTypeLengthDelimited"
  by (simp_all add: WireTypeVarint_def WireTypeLengthDelimited_def)

lemma dec_tag_enc:
  "0 \<le> f \<Longrightarrow> 0 \<le> w \<Longrightarrow> dec_tag f w (canonicalTag f w @ rest) = Some rest"
  by (simp add: dec_tag_def canonicalTag_def dec_varint_enc)

lemma dec_varint_field_enc:
  "0 \<le> f \<Longrightarrow> 0 \<le> v \<Longrightarrow> dec_varint_field f (canonicalVarintField f v @ rest) = Some (v, rest)"
  by (simp add: dec_varint_field_def canonicalVarintField_def dec_tag_enc dec_varint_enc)

lemma dec_bytes_field_enc:
  "0 \<le> f \<Longrightarrow> dec_bytes_field f (canonicalBytesField f bs @ rest) = Some (bs, rest)"
  by (simp add: dec_bytes_field_def canonicalBytesField_def dec_tag_enc dec_varint_enc)

lemma canonicalSubMessage_eq: "canonicalSubMessage f body = canonicalBytesField f body"
  by (simp add: canonicalSubMessage_def canonicalBytesField_def)

lemma canonicalTag_nonempty [simp]: "canonicalTag f w \<noteq> []"
  by (simp add: canonicalTag_def)

lemma field_nonempty: "canonicalVarintField f v \<noteq> []" "canonicalBytesField f bs \<noteq> []"
  by (simp_all add: canonicalVarintField_def canonicalBytesField_def)

interpretation varint_field: repeated_codec "canonicalVarintField (int f)" "dec_varint_field (int f)" "\<lambda>v. 0 \<le> v"
  for f :: nat
  by unfold_locales (simp_all add: dec_varint_field_enc field_nonempty)

interpretation bytes_field: repeated_codec "canonicalBytesField (int f)" "dec_bytes_field (int f)" "\<lambda>_. True"
  for f :: nat
  by unfold_locales (simp_all add: dec_bytes_field_enc field_nonempty)

text \<open>An attestation body, read field by field.\<close>

definition dec_attestation :: "bytes \<Rightarrow> (attestation_body \<times> bytes) option" where
  "dec_attestation bs =
     Option.bind (dec_varint_field 1 bs) (\<lambda>(t, r).
     Option.bind (dec_varint_field 2 r) (\<lambda>(n, s).
     Option.bind (dec_bytes_field 3 s) (\<lambda>(d, u).
       Some (\<lparr>ab_type = t, ab_dataSize = n, ab_data = d\<rparr>, u))))"

definition attestation_ok :: "attestation_body \<Rightarrow> bool" where
  "attestation_ok a \<longleftrightarrow> 0 \<le> ab_type a \<and> 0 \<le> ab_dataSize a"

interpretation attestation: prefix_codec canonicalAttestation dec_attestation attestation_ok
  by unfold_locales
    (simp add: dec_attestation_def canonicalAttestation_def attestation_ok_def
      dec_varint_field_enc dec_bytes_field_enc)

text \<open>One repeated \<open>attestation\<close> field: the sub-message's body must be used up.\<close>

definition enc_attestation_field :: "attestation_body \<Rightarrow> bytes" where
  "enc_attestation_field a = canonicalSubMessage 2 (canonicalAttestation a)"

definition dec_attestation_field :: "bytes \<Rightarrow> (attestation_body \<times> bytes) option" where
  "dec_attestation_field bs =
     Option.bind (dec_bytes_field 2 bs) (\<lambda>(body, r).
     Option.bind (dec_attestation body) (\<lambda>(a, s). if s = [] then Some (a, r) else None))"

interpretation attestation_field: repeated_codec enc_attestation_field dec_attestation_field attestation_ok
  using attestation.dec_enc [where rest = "[]"]
  by unfold_locales
    (simp_all add: enc_attestation_field_def dec_attestation_field_def canonicalSubMessage_eq
      dec_bytes_field_enc field_nonempty)

definition dec_header :: "bytes \<Rightarrow> (header_body \<times> bytes) option" where
  "dec_header bs =
     Option.bind (dec_bytes_field 1 bs) (\<lambda>(_, r1).
     Option.bind (dec_bytes_field 2 r1) (\<lambda>(mid, r2).
     Option.bind (dec_bytes_field 3 r2) (\<lambda>(prev, r3).
     Option.bind (dec_varint_field 5 r3) (\<lambda>(sz, r5).
     Option.bind (dec_bytes_field 6 r5) (\<lambda>(pc, r6).
     Option.bind (dec_varint_field 7 r6) (\<lambda>(ts, r7).
     Option.bind (dec_bytes_field 8 r7) (\<lambda>(hc, r8).
       Some (\<lparr>hb_messageId = mid, hb_previousMessageId = prev, hb_payloadSize = sz,
              hb_payloadChecksum = pc, hb_timestamp = ts, hb_headerChecksum = hc\<rparr>, r8))))))))"

definition header_ok :: "header_body \<Rightarrow> bool" where
  "header_ok h \<longleftrightarrow> 0 \<le> hb_payloadSize h \<and> 0 \<le> hb_timestamp h"

interpretation header: prefix_codec canonicalHeader dec_header header_ok
  by unfold_locales
    (simp add: dec_header_def canonicalHeader_def header_ok_def canonicalSubMessage_eq
      dec_varint_field_enc dec_bytes_field_enc)

lemma canonicalPayload_eq:
  "canonicalPayload v atts = canonicalVarintField 1 v @ concat (map enc_attestation_field atts)"
  by (simp add: canonicalPayload_def enc_attestation_field_def [abs_def])

lemma canonicalPayload_inject:
  assumes "0 \<le> v" "0 \<le> w" "list_all attestation_ok as" "list_all attestation_ok bs"
    and "canonicalPayload v as = canonicalPayload w bs"
  shows "v = w \<and> as = bs"
  using assms varint_field.enc_append_inject [of v w 1] attestation_field.repeated_inject [of as bs]
  by (simp add: canonicalPayload_eq)

section \<open>The semantic header\<close>

record envelope_message =
  em_messageId :: bytes
  em_previousMessageId :: bytes
  em_payloadSize :: int
  em_payloadChecksum :: bytes
  em_timestamp :: int
  em_headerChecksum :: bytes
  em_version :: int
  em_attestations :: "attestation_body list"

record envelope =
  ev_epochIndex :: int
  ev_epochEnvelopeIndex :: int
  ev_epochTimestamp :: int
  ev_previousEnvelopeHash :: bytes
  ev_messages :: "envelope_message list"

text \<open>
  The libraries: \<open>getBytes(keccak256(bytes))\<close>, \<open>getBytes(toBeHex(value, width))\<close> and
  \<open>getBytes("0x...")\<close> (\<^const>\<open>None\<close> when they throw), \<open>toBigInt(bytes)\<close>, and the generated
  \<open>Envelope.toBinary\<close>.
\<close>

record codec_lib =
  keccak256 :: "bytes \<Rightarrow> bytes"
  toBeBytes :: "int \<Rightarrow> nat \<Rightarrow> bytes option"
  toBigInt :: "bytes \<Rightarrow> int"
  getBytesHex :: "string \<Rightarrow> bytes option"
  toBinary :: "envelope \<Rightarrow> bytes"

definition keccakBytes :: "codec_lib \<Rightarrow> bytes \<Rightarrow> bytes" where
  "keccakBytes lib bs = keccak256 lib (map (\<lambda>b. b mod 256) bs)"

definition messageSequence :: "codec_lib \<Rightarrow> bytes \<Rightarrow> int" where
  "messageSequence lib messageId =
     (if length messageId < 8 then 0 else toBigInt lib (js_slice messageId 0 8))"

definition deriveMessageId :: "codec_lib \<Rightarrow> bytes \<Rightarrow> int \<Rightarrow> bytes option" where
  "deriveMessageId lib headerChecksum sq =
     Option.bind (toBeBytes lib sq 8)
       (\<lambda>bs. if length bs > length headerChecksum then None
             else Some (bs @ drop (length bs) headerChecksum))"

record canonical_attestation =
  ca_type :: int
  ca_data :: bytes

record semantic_input =
  si_version :: int
  si_attestations :: "canonical_attestation list"
  si_timestampMs :: int
  si_previousMessageId :: bytes

record semantic_header =
  sh_payloadSize :: int
  sh_payloadChecksum :: bytes
  sh_headerChecksum :: bytes
  sh_messageId :: bytes

definition semantic_payload :: "semantic_input \<Rightarrow> bytes" where
  "semantic_payload input =
     canonicalPayload (si_version input)
       (map (\<lambda>att. \<lparr>ab_type = ca_type att, ab_dataSize = int (length (ca_data att)), ab_data = ca_data att\<rparr>)
         (si_attestations input))"

definition deriveSemanticHeader :: "codec_lib \<Rightarrow> semantic_input \<Rightarrow> semantic_header option" where
  "deriveSemanticHeader lib input =
     (let payloadCanonical = semantic_payload input;
          payloadChecksum = keccakBytes lib payloadCanonical;
          headerChecksum = keccakBytes lib (canonicalHeader
            \<lparr>hb_messageId = [], hb_previousMessageId = si_previousMessageId input,
             hb_payloadSize = int (length payloadCanonical), hb_payloadChecksum = payloadChecksum,
             hb_timestamp = si_timestampMs input, hb_headerChecksum = []\<rparr>)
      in map_option
           (\<lambda>messageId. \<lparr>sh_payloadSize = int (length payloadCanonical), sh_payloadChecksum = payloadChecksum,
              sh_headerChecksum = headerChecksum, sh_messageId = messageId\<rparr>)
           (deriveMessageId lib headerChecksum (messageSequence lib (si_previousMessageId input) + 1)))"

section \<open>Tagged dispute envelopes and chain tips\<close>

text \<open>\<open>TextEncoder\<close> on Latin-1 code units.\<close>

definition text_encode :: "string \<Rightarrow> bytes" where
  "text_encode s =
     concat (map (\<lambda>c. let n = of_char c :: int
                      in if n < 0x80 then [n] else [0xC0 + n div 64, 0x80 + n mod 64]) s)"

record tagged_input =
  ti_epochIndex :: int
  ti_epochEnvelopeIndex :: int
  ti_epochTimestampMs :: int
  ti_payloadVersion :: int
  ti_tag :: string
  ti_previousMessageId :: bytes
  ti_previousEnvelopeHash :: bytes

text \<open>\<open>AttestationType.UNSPECIFIED\<close>, the proto enum's zero.\<close>

definition AttestationTypeUnspecified :: int where "AttestationTypeUnspecified = 0"

definition tagged_semantic_input :: "tagged_input \<Rightarrow> semantic_input" where
  "tagged_semantic_input input =
     \<lparr>si_version = ti_payloadVersion input,
      si_attestations = [\<lparr>ca_type = AttestationTypeUnspecified, ca_data = text_encode (ti_tag input)\<rparr>],
      si_timestampMs = ti_epochTimestampMs input, si_previousMessageId = ti_previousMessageId input\<rparr>"

definition tagged_envelope :: "tagged_input \<Rightarrow> semantic_header \<Rightarrow> envelope" where
  "tagged_envelope input header =
     (let data = text_encode (ti_tag input)
      in \<lparr>ev_epochIndex = ti_epochIndex input, ev_epochEnvelopeIndex = ti_epochEnvelopeIndex input,
          ev_epochTimestamp = ti_epochTimestampMs input, ev_previousEnvelopeHash = ti_previousEnvelopeHash input,
          ev_messages = [\<lparr>em_messageId = sh_messageId header, em_previousMessageId = ti_previousMessageId input,
            em_payloadSize = sh_payloadSize header, em_payloadChecksum = sh_payloadChecksum header,
            em_timestamp = ti_epochTimestampMs input, em_headerChecksum = sh_headerChecksum header,
            em_version = ti_payloadVersion input,
            em_attestations = [\<lparr>ab_type = AttestationTypeUnspecified, ab_dataSize = int (length data), ab_data = data\<rparr>]\<rparr>]\<rparr>)"

definition encodeTaggedEnvelope :: "codec_lib \<Rightarrow> tagged_input \<Rightarrow> bytes option" where
  "encodeTaggedEnvelope lib input =
     map_option (\<lambda>header. toBinary lib (tagged_envelope input header))
       (deriveSemanticHeader lib (tagged_semantic_input input))"

definition parseChainTip :: "codec_lib \<Rightarrow> string option \<Rightarrow> bytes option" where
  "parseChainTip lib raw =
     (case raw of None \<Rightarrow> Some []
      | Some r \<Rightarrow>
          if r = [] then Some []
          else (let hex = (if take 2 r = ''0x'' then js_slice_from r 2 else r)
                in if length hex = 0 \<or> list_all (\<lambda>c. c = CHR ''0'') hex then Some []
                   else getBytesHex lib (''0x'' @ hex)))"

definition hex_digit :: "int \<Rightarrow> char" where
  "hex_digit n = ''0123456789abcdef'' ! nat n"

definition bytesToHex :: "bytes \<Rightarrow> string" where
  "bytesToHex bs = concat (map (\<lambda>b. let v = b mod 256 in [hex_digit (v div 16), hex_digit (v mod 16)]) bs)"

section \<open>Byte range\<close>

definition byte_list :: "bytes \<Rightarrow> bool" where
  "byte_list bs \<longleftrightarrow> list_all (\<lambda>b. 0 \<le> b \<and> b < 256) bs"

lemma byte_list_append [simp]: "byte_list (xs @ ys) \<longleftrightarrow> byte_list xs \<and> byte_list ys"
  by (simp add: byte_list_def)

lemma byte_list_Nil [simp]: "byte_list []"
  by (simp add: byte_list_def)

lemma byte_list_concat: "byte_list (concat xss) \<longleftrightarrow> list_all byte_list xss"
  by (induction xss) simp_all

lemma byte_list_mod: "byte_list bs \<Longrightarrow> map (\<lambda>b. b mod 256) bs = bs"
  by (auto simp: byte_list_def list_all_iff map_idI)

lemma byte_list_varint: "0 \<le> v \<Longrightarrow> byte_list (canonicalVarint v)"
proof (induction v rule: canonicalVarint.induct)
  case (1 v)
  show ?case
  proof (cases "v \<ge> 0x80")
    case True
    moreover have "drop_bit 7 v = v div 0x80" by (simp add: drop_bit_eq_div)
    ultimately have "byte_list (canonicalVarint (v div 0x80))" using 1 by simp
    moreover have "0 \<le> v mod 0x80" "v mod 0x80 < 0x80" by simp_all
    ultimately show ?thesis by (simp add: canonicalVarint_step [OF True] byte_list_def)
  qed (use 1 in \<open>simp add: canonicalVarint_small byte_list_def\<close>)
qed

lemma byte_list_fields:
  "0 \<le> f \<Longrightarrow> 0 \<le> v \<Longrightarrow> byte_list (canonicalVarintField f v)"
  "0 \<le> f \<Longrightarrow> byte_list bs \<Longrightarrow> byte_list (canonicalBytesField f bs)"
  by (simp_all add: canonicalVarintField_def canonicalBytesField_def canonicalTag_def byte_list_varint)

definition header_bytes_ok :: "header_body \<Rightarrow> bool" where
  "header_bytes_ok h \<longleftrightarrow> header_ok h \<and> byte_list (hb_messageId h) \<and> byte_list (hb_previousMessageId h)
     \<and> byte_list (hb_payloadChecksum h) \<and> byte_list (hb_headerChecksum h)"

lemma byte_list_header: "header_bytes_ok h \<Longrightarrow> byte_list (canonicalHeader h)"
  by (simp add: canonicalHeader_def header_bytes_ok_def header_ok_def canonicalSubMessage_eq byte_list_fields
      canonicalEndpointsDefault_def canonicalChainId_def)

definition attestation_bytes_ok :: "attestation_body \<Rightarrow> bool" where
  "attestation_bytes_ok a \<longleftrightarrow> attestation_ok a \<and> byte_list (ab_data a)"

lemma byte_list_payload:
  "0 \<le> v \<Longrightarrow> list_all attestation_bytes_ok atts \<Longrightarrow> byte_list (canonicalPayload v atts)"
  by (auto simp: canonicalPayload_def byte_list_concat byte_list_fields canonicalSubMessage_eq list_all_iff
      canonicalAttestation_def attestation_bytes_ok_def attestation_ok_def)

section \<open>What the libraries promise\<close>

text \<open>
  A keccak256 digest is 32 bytes; a value below \<open>2 ^ 64\<close> fits the 8-byte big-endian form, which
  \<open>toBigInt\<close> reads back.
\<close>

definition lib_ok :: "codec_lib \<Rightarrow> bool" where
  "lib_ok lib \<longleftrightarrow>
     (\<forall>bs. length (keccak256 lib bs) = 32 \<and> byte_list (keccak256 lib bs)) \<and>
     (\<forall>v. 0 \<le> v \<and> v < 2 ^ 64 \<longrightarrow>
        (\<exists>bs. toBeBytes lib v 8 = Some bs \<and> length bs = 8 \<and> byte_list bs \<and> toBigInt lib bs = v))"

lemma lib_ok_keccak: "lib_ok lib \<Longrightarrow> length (keccakBytes lib bs) = 32 \<and> byte_list (keccakBytes lib bs)"
  by (simp add: lib_ok_def keccakBytes_def)

lemma deriveMessageId_ok:
  assumes "lib_ok lib" and "length hc = 32" and "0 \<le> v" and "v < 2 ^ 64"
  obtains bs where "deriveMessageId lib hc v = Some (bs @ drop 8 hc)" and "length bs = 8" and "toBigInt lib bs = v"
    and "byte_list bs"
  using assms unfolding lib_ok_def deriveMessageId_def by fastforce

lemma messageSequence_derived:
  "length bs = 8 \<Longrightarrow> messageSequence lib (bs @ rest) = toBigInt lib bs"
  by (simp add: messageSequence_def js_simps)

definition input_ok :: "semantic_input \<Rightarrow> bool" where
  "input_ok input \<longleftrightarrow> 0 \<le> si_version input \<and> 0 \<le> si_timestampMs input \<and> byte_list (si_previousMessageId input)
     \<and> list_all (\<lambda>a. 0 \<le> ca_type a \<and> byte_list (ca_data a)) (si_attestations input)"

lemma deriveSemanticHeader_ok:
  assumes "lib_ok lib" and "0 \<le> messageSequence lib (si_previousMessageId input)"
    and "messageSequence lib (si_previousMessageId input) + 1 < 2 ^ 64"
  obtains h bs where "deriveSemanticHeader lib input = Some h"
    and "sh_messageId h = bs @ drop 8 (sh_headerChecksum h)" and "length (sh_headerChecksum h) = 32"
    and "length bs = 8" and "toBigInt lib bs = messageSequence lib (si_previousMessageId input) + 1"
    and "byte_list (sh_messageId h)"
proof -
  let ?hc = "keccakBytes lib (canonicalHeader
            \<lparr>hb_messageId = [], hb_previousMessageId = si_previousMessageId input,
             hb_payloadSize = int (length (semantic_payload input)),
             hb_payloadChecksum = keccakBytes lib (semantic_payload input),
             hb_timestamp = si_timestampMs input, hb_headerChecksum = []\<rparr>)"
  have hc: "length ?hc = 32" "byte_list ?hc" using lib_ok_keccak [OF assms(1)] by auto
  obtain bs where bs: "deriveMessageId lib ?hc (messageSequence lib (si_previousMessageId input) + 1)
      = Some (bs @ drop 8 ?hc)" "length bs = 8"
      "toBigInt lib bs = messageSequence lib (si_previousMessageId input) + 1" "byte_list bs"
    using deriveMessageId_ok [OF assms(1) hc(1), of "messageSequence lib (si_previousMessageId input) + 1"] assms by auto
  have "byte_list (drop 8 ?hc)"
    using hc(2) by (auto simp: byte_list_def list_all_iff dest: in_set_dropD)
  with bs hc that show thesis by (simp add: deriveSemanticHeader_def Let_def)
qed

section \<open>Properties of the encoding\<close>

text \<open>
  C8: The canonical encodings are unambiguous: \<open>dec_header\<close> reads back every field of a header in
  front of any further bytes, and two payloads with the same encoding have the same version and
  the same attestations in the same order.
\<close>

theorem canonical_encoding_unambiguous:
  assumes "header_ok h" and "0 \<le> v" and "0 \<le> w"
    and "list_all attestation_ok as" and "list_all attestation_ok bs"
  shows "dec_header (canonicalHeader h @ rest) = Some (h, rest) \<and>
         (canonicalPayload v as = canonicalPayload w bs \<longleftrightarrow> v = w \<and> as = bs)"
  using header.dec_enc [OF assms(1)] canonicalPayload_inject [OF assms(2-5)] by auto

theorem canonical_encoding_unambiguous_witness:
  "let h = \<lparr>hb_messageId = [], hb_previousMessageId = [1, 2], hb_payloadSize = 300, hb_payloadChecksum = [9],
            hb_timestamp = 5, hb_headerChecksum = []\<rparr>
   in dec_header (canonicalHeader h @ [7]) = Some (h, [7])"
  using canonical_encoding_unambiguous
    [of "\<lparr>hb_messageId = [], hb_previousMessageId = [1, 2], hb_payloadSize = 300, hb_payloadChecksum = [9],
         hb_timestamp = 5, hb_headerChecksum = []\<rparr>" 0 0 "[]" "[]" "[7]"]
  by (simp add: header_ok_def)

text \<open>A library record that meets \<open>lib_ok\<close>: a digest that keeps the first 32 bytes, big-endian numbers.\<close>

primrec be_bytes :: "nat \<Rightarrow> int \<Rightarrow> bytes" where
  "be_bytes 0 v = []"
| "be_bytes (Suc n) v = be_bytes n (v div 256) @ [v mod 256]"

definition be_value :: "bytes \<Rightarrow> int" where
  "be_value bs = foldl (\<lambda>a b. 256 * a + b) 0 bs"

definition sample_lib :: codec_lib where
  "sample_lib = \<lparr>keccak256 = (\<lambda>bs. map (\<lambda>b. b mod 256) (take 32 (bs @ replicate 32 0))),
     toBeBytes = (\<lambda>v n. if 0 \<le> v \<and> v < 256 ^ n then Some (be_bytes n v) else None),
     toBigInt = be_value, getBytesHex = (\<lambda>_. None), toBinary = (\<lambda>_. [])\<rparr>"

lemma be_value_be_bytes: "0 \<le> v \<Longrightarrow> v < 256 ^ n \<Longrightarrow> be_value (be_bytes n v) = v"
proof (induction n arbitrary: v)
  case (Suc n)
  from Suc.prems have "v div 256 < 256 ^ n" by (simp add: div_less_iff_less_mult mult.commute)
  with Suc have "be_value (be_bytes n (v div 256)) = v div 256" by simp
  then show ?case by (simp add: be_value_def)
qed (simp add: be_value_def)

lemma length_be_bytes [simp]: "length (be_bytes n v) = n"
  by (induction n arbitrary: v) simp_all

lemma byte_list_be_bytes: "byte_list (be_bytes n v)"
  by (induction n arbitrary: v) (simp_all add: byte_list_def)

lemma sample_lib_ok: "lib_ok sample_lib"
proof -
  have "(2 ^ 64 :: int) = 256 ^ 8" by simp
  then show ?thesis
    by (auto simp: lib_ok_def sample_lib_def be_value_be_bytes byte_list_be_bytes)
      (simp_all add: byte_list_def list_all_iff)
qed

section \<open>Chaining\<close>

text \<open>Successive messages of one stream: each header is derived from the previous message's id.\<close>

primrec semantic_chain :: "codec_lib \<Rightarrow> bytes \<Rightarrow> semantic_input list \<Rightarrow> semantic_header list option" where
  "semantic_chain lib tip [] = Some []"
| "semantic_chain lib tip (i # is) =
     Option.bind (deriveSemanticHeader lib (i\<lparr>si_previousMessageId := tip\<rparr>))
       (\<lambda>h. map_option ((#) h) (semantic_chain lib (sh_messageId h) is))"

lemma semantic_chain_from:
  assumes "lib_ok lib" and "0 \<le> messageSequence lib tip"
    and "messageSequence lib tip + int (length is) < 2 ^ 64"
  shows "\<exists>hs. semantic_chain lib tip is = Some hs \<and> length hs = length is \<and>
           (\<forall>n < length hs. length (sh_messageId (hs ! n)) = 32 \<and>
              drop 8 (sh_messageId (hs ! n)) = drop 8 (sh_headerChecksum (hs ! n)) \<and>
              messageSequence lib (sh_messageId (hs ! n)) = messageSequence lib tip + int n + 1)"
  using assms(2,3)
proof (induction "is" arbitrary: tip)
  case (Cons i "is")
  let ?s = "messageSequence lib tip"
  obtain h bs where h: "deriveSemanticHeader lib (i\<lparr>si_previousMessageId := tip\<rparr>) = Some h"
    and mid: "sh_messageId h = bs @ drop 8 (sh_headerChecksum h)" and len: "length (sh_headerChecksum h) = 32"
    and bs: "length bs = 8" "toBigInt lib bs = ?s + 1"
    using Cons.prems
    by - (rule deriveSemanticHeader_ok [OF assms(1), of "i\<lparr>si_previousMessageId := tip\<rparr>"], simp_all)
  have sq: "messageSequence lib (sh_messageId h) = ?s + 1"
    using mid bs by (simp add: messageSequence_derived)
  obtain hs where hs: "semantic_chain lib (sh_messageId h) is = Some hs" "length hs = length is"
    "\<forall>n < length hs. length (sh_messageId (hs ! n)) = 32 \<and>
              drop 8 (sh_messageId (hs ! n)) = drop 8 (sh_headerChecksum (hs ! n)) \<and>
              messageSequence lib (sh_messageId (hs ! n)) = ?s + 1 + int n + 1"
    using Cons.IH [of "sh_messageId h"] Cons.prems sq by auto
  have "length (sh_messageId ((h # hs) ! n)) = 32 \<and>
      drop 8 (sh_messageId ((h # hs) ! n)) = drop 8 (sh_headerChecksum ((h # hs) ! n)) \<and>
      messageSequence lib (sh_messageId ((h # hs) ! n)) = ?s + int n + 1" if "n < Suc (length hs)" for n
    using that hs(3) mid bs len sq by (cases n) auto
  with h hs show ?case by auto
qed simp

text \<open>
  A stream of messages derived one from the other, starting at genesis, is always derivable
  while the sequence fits 64 bits; the n-th message id is 32 bytes long, carries the sequence number n
  (counting from one) in its first 8 bytes, and keeps the header checksum in the other 24.
\<close>

theorem semantic_chain_sequence:
  assumes "lib_ok lib" and "int (length is) < 2 ^ 64"
  shows "\<exists>hs. semantic_chain lib [] is = Some hs \<and> length hs = length is \<and>
           (\<forall>n < length hs. length (sh_messageId (hs ! n)) = 32 \<and>
              drop 8 (sh_messageId (hs ! n)) = drop 8 (sh_headerChecksum (hs ! n)) \<and>
              messageSequence lib (sh_messageId (hs ! n)) = int n + 1)"
  using semantic_chain_from [OF assms(1), of "[]" "is"] assms(2) by (simp add: messageSequence_def)

theorem semantic_chain_sequence_witness:
  "let i = \<lparr>si_version = 1, si_attestations = [], si_timestampMs = 5, si_previousMessageId = []\<rparr>
   in \<exists>hs. semantic_chain sample_lib [] [i, i, i] = Some hs \<and> length hs = 3 \<and>
        messageSequence sample_lib (sh_messageId (hs ! 2)) = 3"
  using semantic_chain_sequence [OF sample_lib_ok, of
      "replicate 3 \<lparr>si_version = 1, si_attestations = [], si_timestampMs = 5, si_previousMessageId = []\<rparr>"]
  by (auto simp: numeral_3_eq_3)

section \<open>Binding\<close>

text \<open>The bytes whose keccak256 is the header checksum.\<close>

definition header_preimage :: "codec_lib \<Rightarrow> semantic_input \<Rightarrow> bytes" where
  "header_preimage lib input =
     canonicalHeader
            \<lparr>hb_messageId = [], hb_previousMessageId = si_previousMessageId input,
             hb_payloadSize = int (length (semantic_payload input)),
             hb_payloadChecksum = keccakBytes lib (semantic_payload input),
             hb_timestamp = si_timestampMs input, hb_headerChecksum = []\<rparr>"

lemma deriveSemanticHeader_checksum:
  "deriveSemanticHeader lib input = Some h \<Longrightarrow>
     sh_headerChecksum h = keccakBytes lib (header_preimage lib input) \<and>
     sh_payloadChecksum h = keccakBytes lib (semantic_payload input) \<and>
     sh_payloadSize h = int (length (semantic_payload input))"
  by (auto simp: deriveSemanticHeader_def header_preimage_def Let_def)

lemma semantic_payload_inject:
  assumes "input_ok x" and "input_ok y" and "semantic_payload x = semantic_payload y"
  shows "si_version x = si_version y \<and> si_attestations x = si_attestations y"
proof -
  let ?body = "\<lambda>att :: canonical_attestation. \<lparr>ab_type = ca_type att, ab_dataSize = int (length (ca_data att)), ab_data = ca_data att\<rparr>"
  have ok: "list_all attestation_ok (map ?body (si_attestations z))" if "input_ok z" for z
    using that by (auto simp: input_ok_def list_all_iff attestation_ok_def)
  have "inj ?body"
  proof (rule injI)
    show "a = b" if "?body a = ?body b" for a b
      using that by (cases a, cases b) simp
  qed
  moreover have "si_version x = si_version y \<and> map ?body (si_attestations x) = map ?body (si_attestations y)"
    using canonicalPayload_inject [OF _ _ ok ok] assms unfolding input_ok_def semantic_payload_def by blast
  ultimately show ?thesis using inj_map_eq_map by blast
qed

text \<open>
  The header checksum binds the whole message: two inputs that give the same header checksum are
  equal in version, attestations, timestamp and previous id, unless their payloads, or the blanked
  headers built from them, are themselves a keccak256 collision.
\<close>

theorem header_checksum_binds:
  assumes "input_ok x" and "input_ok y"
    and "deriveSemanticHeader lib x = Some h" and "deriveSemanticHeader lib y = Some k"
    and "sh_headerChecksum h = sh_headerChecksum k"
  shows "x = y \<or>
         (semantic_payload x \<noteq> semantic_payload y \<and>
            keccakBytes lib (semantic_payload x) = keccakBytes lib (semantic_payload y)) \<or>
         (header_preimage lib x \<noteq> header_preimage lib y \<and>
            keccakBytes lib (header_preimage lib x) = keccakBytes lib (header_preimage lib y))"
proof (cases "header_preimage lib x = header_preimage lib y")
  case True
  then have "si_previousMessageId x = si_previousMessageId y \<and> si_timestampMs x = si_timestampMs y \<and>
      keccakBytes lib (semantic_payload x) = keccakBytes lib (semantic_payload y)"
    unfolding header_preimage_def using assms(1,2) by (subst (asm) header.enc_inject) (auto simp: header_ok_def input_ok_def)
  then show ?thesis using semantic_payload_inject [OF assms(1,2)] by (auto intro!: semantic_input.equality)
qed (use assms deriveSemanticHeader_checksum in metis)

theorem header_checksum_binds_witness:
  "let x = \<lparr>si_version = 1, si_attestations = [], si_timestampMs = 5, si_previousMessageId = []\<rparr>;
       y = x\<lparr>si_timestampMs := 6\<rparr>
   in header_preimage sample_lib x \<noteq> header_preimage sample_lib y \<and>
      keccakBytes sample_lib (header_preimage sample_lib x) = keccakBytes sample_lib (header_preimage sample_lib y)"
proof -
  let ?x = "\<lparr>si_version = 1, si_attestations = [], si_timestampMs = 5, si_previousMessageId = []\<rparr>"
  let ?y = "?x\<lparr>si_timestampMs := 6\<rparr>"
  have derives: "\<exists>h. deriveSemanticHeader sample_lib z = Some h" if "si_previousMessageId z = []" for z
    by (rule deriveSemanticHeader_ok [OF sample_lib_ok, of z]) (use that in \<open>auto simp: messageSequence_def\<close>)
  obtain h k where hk: "deriveSemanticHeader sample_lib ?x = Some h" "deriveSemanticHeader sample_lib ?y = Some k"
    using derives [of ?x] derives [of ?y] by auto
  have same: "keccakBytes sample_lib (header_preimage sample_lib ?x) = keccakBytes sample_lib (header_preimage sample_lib ?y)"
    by code_simp
  have "input_ok ?x" "input_ok ?y" by (simp_all add: input_ok_def)
  from header_checksum_binds [OF this hk] same deriveSemanticHeader_checksum [OF hk(1)]
    deriveSemanticHeader_checksum [OF hk(2)]
  show ?thesis by (auto simp: semantic_payload_def)
qed

section \<open>Chain tips\<close>

lemma nibble_cases:
  assumes "0 \<le> n" and "n < (16 :: int)"
  shows "n \<in> {0, 1, 2, 3, 4, 5, 6, 7, 8, 9, 10, 11, 12, 13, 14, 15}"
  using assms by simp presburger

lemma hex_digit_not_x: "0 \<le> n \<Longrightarrow> n < 16 \<Longrightarrow> hex_digit n \<noteq> CHR ''x''"
  by (drule (1) nibble_cases) (auto simp: hex_digit_def)

lemma hex_digit_zero: "0 \<le> n \<Longrightarrow> n < 16 \<Longrightarrow> hex_digit n = CHR ''0'' \<longleftrightarrow> n = 0"
  by (drule (1) nibble_cases) (auto simp: hex_digit_def)

lemma bytesToHex_Cons:
  "bytesToHex (b # bs) = hex_digit (b mod 256 div 16) # hex_digit (b mod 256 mod 16) # bytesToHex bs"
  by (simp add: bytesToHex_def Let_def)

lemma byte_nibbles:
  "0 \<le> (b mod 256) div (16 :: int)" "(b mod 256) div (16 :: int) < 16"
  "0 \<le> (b mod 256) mod (16 :: int)" "(b mod 256) mod (16 :: int) < 16"
  by (simp_all add: div_less_iff_less_mult)

lemma bytesToHex_no_prefix: "take 2 (bytesToHex bs) \<noteq> ''0x''"
  by (cases bs) (simp_all add: bytesToHex_def [of "[]"] bytesToHex_Cons hex_digit_not_x byte_nibbles)

lemma bytesToHex_zero:
  "byte_list bs \<Longrightarrow> list_all (\<lambda>c. c = CHR ''0'') (bytesToHex bs) \<longleftrightarrow> list_all (\<lambda>b. b = 0) bs"
proof (induction bs)
  case (Cons b bs)
  then have "0 \<le> b" "b < 256" "byte_list bs" by (simp_all add: byte_list_def)
  moreover from this have "b div 16 = 0 \<and> b mod 16 = 0 \<longleftrightarrow> b = 0" by presburger
  ultimately show ?case
    using Cons.IH byte_nibbles [of b] by (auto simp: bytesToHex_Cons hex_digit_zero)
qed (simp add: bytesToHex_def)

lemma bytesToHex_empty: "bytesToHex bs = [] \<longleftrightarrow> bs = []"
  by (cases bs) (simp_all add: bytesToHex_def [of "[]"] bytesToHex_Cons)

text \<open>
  A chain tip written as hex, with or without the \<open>0x\<close> prefix, is read back byte for byte,
  except that the all-zero field of a stream at genesis, like an absent one, is read as no bytes at all.
\<close>

theorem parseChainTip_roundtrip:
  assumes "\<And>xs. byte_list xs \<Longrightarrow> getBytesHex lib (''0x'' @ bytesToHex xs) = Some xs" and "byte_list bs"
  shows "parseChainTip lib (Some (bytesToHex bs)) = Some (if list_all (\<lambda>b. b = 0) bs then [] else bs) \<and>
         parseChainTip lib (Some (''0x'' @ bytesToHex bs)) = Some (if list_all (\<lambda>b. b = 0) bs then [] else bs) \<and>
         parseChainTip lib None = Some []"
proof -
  have "js_slice_from (''0x'' @ t) 2 = t" for t by (simp add: js_simps)
  then show ?thesis
    using assms bytesToHex_no_prefix [of bs] bytesToHex_zero [OF assms(2)] bytesToHex_empty [of bs]
    by (auto simp: parseChainTip_def Let_def)
qed

text \<open>A \<open>getBytes\<close> on lower-case hex, for the instance below.\<close>

definition hex_nibble :: "char \<Rightarrow> int" where
  "hex_nibble c = (let n = of_char c in if n < 97 then n - 48 else n - 87)"

fun hex_bytes :: "string \<Rightarrow> bytes option" where
  "hex_bytes [] = Some []"
| "hex_bytes [c] = None"
| "hex_bytes (c # d # cs) = map_option ((#) (16 * hex_nibble c + hex_nibble d)) (hex_bytes cs)"

lemma hex_nibble_digit: "0 \<le> n \<Longrightarrow> n < 16 \<Longrightarrow> hex_nibble (hex_digit n) = n"
  by (drule (1) nibble_cases) (auto simp: hex_digit_def hex_nibble_def)

lemma hex_bytes_bytesToHex: "byte_list bs \<Longrightarrow> hex_bytes (bytesToHex bs) = Some bs"
proof (induction bs)
  case (Cons b bs)
  then have "0 \<le> b" "b < 256" "byte_list bs" by (simp_all add: byte_list_def)
  then show ?case
    using Cons.IH byte_nibbles [of b] by (simp add: bytesToHex_Cons hex_nibble_digit)
qed (simp add: bytesToHex_def)

theorem parseChainTip_roundtrip_witness:
  "parseChainTip (sample_lib\<lparr>getBytesHex := (\<lambda>s. hex_bytes (drop 2 s))\<rparr>) (Some (bytesToHex [0, 171])) = Some [0, 171]"
  using parseChainTip_roundtrip [of "sample_lib\<lparr>getBytesHex := (\<lambda>s. hex_bytes (drop 2 s))\<rparr>" "[0, 171]"]
  by (simp add: hex_bytes_bytesToHex byte_list_def)

end
