(* ===== verification/Kicker_Accrual.thy ===== *)
theory Kicker_Accrual
  imports Prelude "HOL-Library.Signed_Division"
begin

text \<open>
  \<open>flow-liq-kicker/src/LIQKickerAccrual.ts\<close>: the flow's integer model of the kicker's gift and of
  the yield index. A \<open>bigint\<close> is an \<^typ>\<open>int\<close>; its \<open>/\<close> and \<open>%\<close> truncate towards zero, so they are
  \<^const>\<open>signed_divide\<close> and \<^const>\<open>signed_modulo\<close>; \<open><<\<close> and \<open>>>\<close> are \<^const>\<open>push_bit\<close> and \<^const>\<open>drop_bit\<close>.
  The table rows hold decimal strings that the code reads with \<open>BigInt\<close>: the model holds the numbers.
  A \<open>throw\<close> is \<^const>\<open>None\<close>.
\<close>

section \<open>Constants\<close>

definition BpsScale :: int where "BpsScale = 10000"

definition JulianYearSec :: int where "JulianYearSec = 31557600"

definition MicrosPerSecond :: int where "MicrosPerSecond = 1000000"

definition PriceFractionBits :: nat where "PriceFractionBits = 64"

definition YieldIndexScale :: int where "YieldIndexScale = 1000000000000"

definition MaxCatchupMicros :: int where "MaxCatchupMicros = 72 * 3600 * MicrosPerSecond"

definition LimbBits :: nat where "LimbBits = 128"

definition CumulativeModulus :: int where "CumulativeModulus = push_bit (2 * LimbBits) 1"

definition AccrualDivisor :: int where "AccrualDivisor = BpsScale * JulianYearSec * MicrosPerSecond"

section \<open>Operations\<close>

record cumulative_price =
  cp_hi :: int
  cp_lo :: int

definition cumulative :: "cumulative_price \<Rightarrow> int" where
  "cumulative price = push_bit LimbBits (cp_hi price) + cp_lo price"

definition twap :: "int \<Rightarrow> int \<Rightarrow> int \<Rightarrow> int" where
  "twap before after elapsedMicros =
     (if elapsedMicros \<le> 0 then 0
      else (let delta = (after - before + CumulativeModulus) smod CumulativeModulus
            in if drop_bit LimbBits delta \<ge> elapsedMicros then 0 else delta sdiv elapsedMicros))"

definition interest :: "int \<Rightarrow> int \<Rightarrow> int \<Rightarrow> int" where
  "interest supply rateBps elapsedMicros = (supply * rateBps * elapsedMicros) sdiv AccrualDivisor"

definition priceFixedPoint :: "int \<Rightarrow> int \<Rightarrow> int option" where
  "priceFixedPoint poolWire poolShadow =
     (if poolShadow < 0 \<or> poolWire < 0 then None
      else if poolShadow = 0 then Some 0
      else Some (push_bit PriceFractionBits poolWire sdiv poolShadow))"

definition spotDeviates :: "int \<Rightarrow> int \<Rightarrow> int \<Rightarrow> bool" where
  "spotDeviates spot tw maxDeviationBps =
     (let deviation = (if spot > tw then spot - tw else tw - spot)
      in deviation * BpsScale > tw * maxDeviationBps)"

record gift_input =
  gi_supply :: int
  gi_supplySnapshot :: int
  gi_rateBps :: int
  gi_elapsedMicros :: int
  gi_price :: int

definition gift :: "gift_input \<Rightarrow> int" where
  "gift input =
     drop_bit PriceFractionBits
       (interest (if gi_supply input < gi_supplySnapshot input then gi_supply input else gi_supplySnapshot input)
          (gi_rateBps input)
          (if gi_elapsedMicros input > MaxCatchupMicros then MaxCatchupMicros else gi_elapsedMicros input)
        * gi_price input)"

definition checkpointsBelowMinimum :: "gift_input \<Rightarrow> int \<Rightarrow> bool" where
  "checkpointsBelowMinimum input minimumGift \<longleftrightarrow>
     gi_supply input > gi_supplySnapshot input \<and>
     gi_elapsedMicros input \<ge> MaxCatchupMicros \<and>
     gift input < minimumGift \<and>
     gift (input\<lparr>gi_supplySnapshot := gi_supply input\<rparr>) \<ge> minimumGift"

record yield_index =
  yi_index :: int
  yi_pot :: int
  yi_carry :: int

definition distribute :: "yield_index \<Rightarrow> int \<Rightarrow> int \<Rightarrow> yield_index option" where
  "distribute before amount supply =
     (if supply \<le> 0 then None
      else (let total = amount * YieldIndexScale + yi_carry before
            in Some \<lparr>yi_index = yi_index before + total sdiv supply,
                     yi_pot = yi_pot before + amount,
                     yi_carry = total smod supply\<rparr>))"

section \<open>The contracts' arithmetic\<close>

lemma AccrualDivisor_pos [simp]: "0 < AccrualDivisor"
  by (simp add: AccrualDivisor_def BpsScale_def JulianYearSec_def MicrosPerSecond_def)

lemma MaxCatchupMicros_pos [simp]: "0 < MaxCatchupMicros" "0 \<le> MaxCatchupMicros"
  by (simp_all add: MaxCatchupMicros_def MicrosPerSecond_def)

lemma YieldIndexScale_pos [simp]: "0 < YieldIndexScale"
  by (simp add: YieldIndexScale_def)

section \<open>The time-weighted average\<close>

lemma CumulativeModulus_eq: "CumulativeModulus = 2 ^ 256"
  by (simp add: CumulativeModulus_def LimbBits_def push_bit_eq_mult)

lemma twap_wrapped_delta:
  assumes "0 \<le> d" and "d < 2 ^ 256"
  shows "((b + d) mod 2 ^ 256 - b mod 2 ^ 256 + CumulativeModulus) smod CumulativeModulus = d"
proof -
  let ?M = "2 ^ 256 :: int"
  have "0 \<le> (b + d) mod ?M" "b mod ?M < ?M" by simp_all
  then have "0 \<le> (b + d) mod ?M - b mod ?M + ?M" by linarith
  then have "((b + d) mod ?M - b mod ?M + ?M) smod ?M = ((b + d) mod ?M - b mod ?M + ?M) mod ?M"
    by (simp add: smod_floor)
  also have "\<dots> = ((b + d) - b) mod ?M" by (simp add: mod_simps)
  also have "\<dots> = d" using assms by simp
  finally show ?thesis by (simp only: CumulativeModulus_eq)
qed

text \<open>
  The average is right across the accumulator's wrap at \<open>2 ^ 256\<close>: when a pool accumulates an average
  price \<open>p\<close> below \<open>2 ^ 128\<close> over a window, wherever the counter started, \<open>twap\<close> of the two wrapped
  snapshots is \<open>p\<close>, the remainder of the window floored away.
\<close>

theorem twap_average:
  assumes "0 < e" and "0 \<le> p" and "p < 2 ^ 128" and "0 \<le> r" and "r < e" and "p * e + r < 2 ^ 256"
  shows "twap (b mod 2 ^ 256) ((b + (p * e + r)) mod 2 ^ 256) e = p"
proof -
  have d: "0 \<le> p * e + r" using assms by simp
  have "p * e + r < 2 ^ 128 * e"
  proof -
    have "(p + 1) * e \<le> 2 ^ 128 * e" by (rule mult_right_mono) (use assms(1,3) in simp_all)
    then show ?thesis using assms(5) by (simp add: distrib_right)
  qed
  then have "drop_bit LimbBits (p * e + r) < e"
    using assms(1) by (simp add: drop_bit_eq_div LimbBits_def div_less_iff_less_mult mult.commute)
  moreover have "(p * e + r) sdiv e = p" using assms d by (simp add: sdiv_floor)
  ultimately show ?thesis
    using assms(1) twap_wrapped_delta [OF d assms(6), of b] by (simp add: twap_def Let_def)
qed

theorem twap_average_witness:
  "twap ((2 ^ 256 - 1) mod 2 ^ 256) ((2 ^ 256 - 1 + (5 * 10 + 3)) mod 2 ^ 256) 10 = 5"
  using twap_average [of 10 5 3 "2 ^ 256 - 1"] by simp

section \<open>The spot guard\<close>

text \<open>
  The spot price passes the deviation guard exactly when it lies in the closed band of
  \<open>maxDeviationBps\<close> basis points around the average; against a zero average any spot but zero is
  refused.
\<close>

theorem spotDeviates_band:
  "\<not> spotDeviates spot tw m \<longleftrightarrow> tw * (10000 - m) \<le> spot * 10000 \<and> spot * 10000 \<le> tw * (10000 + m)"
  if "0 \<le> tw" and "0 \<le> m"
  using mult_nonneg_nonneg [OF that] by (auto simp: spotDeviates_def BpsScale_def algebra_simps)

theorem spotDeviates_band_witness:
  "\<not> spotDeviates 105 100 500 \<and> spotDeviates 1 0 500"
  using spotDeviates_band [of 100 500 105] spotDeviates_band [of 0 500 1] by simp

section \<open>The gift\<close>

text \<open>The interval a kick pays for, and the supply it pays on.\<close>

definition gift_ok :: "gift_input \<Rightarrow> bool" where
  "gift_ok i \<longleftrightarrow> 0 \<le> gi_supply i \<and> 0 \<le> gi_supplySnapshot i \<and> 0 \<le> gi_rateBps i \<and> 0 \<le> gi_elapsedMicros i \<and> 0 \<le> gi_price i"

definition gift_le :: "gift_input \<Rightarrow> gift_input \<Rightarrow> bool" where
  "gift_le i j \<longleftrightarrow> gi_supply i \<le> gi_supply j \<and> gi_supplySnapshot i \<le> gi_supplySnapshot j
     \<and> gi_rateBps i \<le> gi_rateBps j \<and> gi_elapsedMicros i \<le> gi_elapsedMicros j \<and> gi_price i \<le> gi_price j"

lemma interest_mono:
  assumes "0 \<le> s" "s \<le> s'" "0 \<le> r" "r \<le> r'" "0 \<le> e" "e \<le> e'"
  shows "0 \<le> interest s r e \<and> interest s r e \<le> interest s' r' e'"
proof -
  have "s * r * e \<le> s' * r' * e'" using assms by (intro mult_mono) simp_all
  then show ?thesis
    using assms by (simp add: interest_def sdiv_floor zdiv_mono1 pos_imp_zdiv_nonneg_iff)
qed

lemma gift_min:
  "gift i = drop_bit PriceFractionBits
     (interest (min (gi_supply i) (gi_supplySnapshot i)) (gi_rateBps i) (min MaxCatchupMicros (gi_elapsedMicros i)) * gi_price i)"
  by (simp add: gift_def min_def not_less)

lemma drop_bit_int_mono: "a \<le> b \<Longrightarrow> drop_bit n a \<le> drop_bit n (b :: int)"
  by (simp add: drop_bit_eq_div zdiv_mono1)

lemma gift_mono:
  assumes "gift_ok i" and "gift_le i j"
  shows "0 \<le> gift i \<and> gift i \<le> gift j"
proof -
  let ?s = "\<lambda>i. min (gi_supply i) (gi_supplySnapshot i)"
  let ?e = "\<lambda>i. min MaxCatchupMicros (gi_elapsedMicros i)"
  have I: "0 \<le> interest (?s i) (gi_rateBps i) (?e i) \<and>
      interest (?s i) (gi_rateBps i) (?e i) \<le> interest (?s j) (gi_rateBps j) (?e j)"
    using assms by (intro interest_mono) (auto simp: gift_ok_def gift_le_def)
  moreover have p: "0 \<le> gi_price i" "gi_price i \<le> gi_price j" using assms by (simp_all add: gift_ok_def gift_le_def)
  ultimately have "interest (?s i) (gi_rateBps i) (?e i) * gi_price i \<le> interest (?s j) (gi_rateBps j) (?e j) * gi_price j"
    by (intro mult_mono) auto
  with I p show ?thesis by (simp add: gift_min drop_bit_int_mono)
qed

text \<open>
  The gift is never negative, never falls when supply, snapshot, rate, interval or price grow, and never
  pays for more than the 72 hour catch-up or for supply issued after the snapshot.
\<close>

theorem gift_bounded:
  assumes "gift_ok i"
  shows "(gift_le i j \<longrightarrow> 0 \<le> gift i \<and> gift i \<le> gift j) \<and>
         gift i \<le> drop_bit PriceFractionBits (interest (gi_supplySnapshot i) (gi_rateBps i) MaxCatchupMicros * gi_price i)"
proof -
  let ?k = "i\<lparr>gi_supply := max (gi_supply i) (gi_supplySnapshot i),
    gi_elapsedMicros := max (gi_elapsedMicros i) MaxCatchupMicros\<rparr>"
  have "gift i \<le> gift ?k" using gift_mono [OF assms] by (simp add: gift_le_def)
  moreover have "gift ?k = drop_bit PriceFractionBits
      (interest (gi_supplySnapshot i) (gi_rateBps i) MaxCatchupMicros * gi_price i)"
    by (simp add: gift_min)
  ultimately show ?thesis using gift_mono [OF assms, of j] by simp
qed

theorem gift_bounded_witness:
  "let i = \<lparr>gi_supply = 10 ^ 12, gi_supplySnapshot = 10 ^ 12, gi_rateBps = 500, gi_elapsedMicros = MaxCatchupMicros,
            gi_price = 2 ^ 65\<rparr>
   in gift i = 821355236 \<and> gift i \<le> gift (i\<lparr>gi_price := 2 ^ 66\<rparr>)"
proof -
  let ?i = "\<lparr>gi_supply = 10 ^ 12, gi_supplySnapshot = 10 ^ 12, gi_rateBps = 500, gi_elapsedMicros = MaxCatchupMicros,
            gi_price = 2 ^ 65\<rparr> :: gift_input"
  have "gift_ok ?i" by (simp add: gift_ok_def MaxCatchupMicros_def MicrosPerSecond_def)
  moreover have "gift ?i = 821355236" by code_simp
  ultimately show ?thesis
    using gift_bounded [of ?i "?i\<lparr>gi_price := 2 ^ 66\<rparr>"] by (simp add: gift_le_def)
qed

text \<open>
  A kick checkpoints without paying only when waiting cannot help: however much later the same supply,
  snapshot, rate and price are kicked, the gift stays below the minimum, while the gift on the
  current supply, which the checkpoint makes the next snapshot, reaches it after a full interval.
\<close>

theorem checkpoint_only_when_stuck:
  assumes "checkpointsBelowMinimum i m"
  shows "(\<forall>e. gi_elapsedMicros i \<le> e \<longrightarrow> gift (i\<lparr>gi_elapsedMicros := e\<rparr>) < m) \<and>
         (\<forall>e. MaxCatchupMicros \<le> e \<longrightarrow>
            m \<le> gift (i\<lparr>gi_supplySnapshot := gi_supply i, gi_elapsedMicros := e\<rparr>))"
proof -
  have full: "gift (k\<lparr>gi_elapsedMicros := e\<rparr>) = gift k"
    if "MaxCatchupMicros \<le> e" "MaxCatchupMicros \<le> gi_elapsedMicros k" for k e
    using that by (simp add: gift_min min_def)
  have i: "MaxCatchupMicros \<le> gi_elapsedMicros i" "gift i < m" "m \<le> gift (i\<lparr>gi_supplySnapshot := gi_supply i\<rparr>)"
    using assms by (simp_all add: checkpointsBelowMinimum_def)
  then show ?thesis
    using full [of _ i] full [of _ "i\<lparr>gi_supplySnapshot := gi_supply i\<rparr>"] by auto
qed

theorem checkpoint_only_when_stuck_witness:
  "let i = \<lparr>gi_supply = 10 ^ 12, gi_supplySnapshot = 10 ^ 6, gi_rateBps = 500, gi_elapsedMicros = MaxCatchupMicros,
            gi_price = 2 ^ 65\<rparr>
   in gift (i\<lparr>gi_elapsedMicros := 2 * MaxCatchupMicros\<rparr>) < 1000"
proof -
  let ?i = "\<lparr>gi_supply = 10 ^ 12, gi_supplySnapshot = 10 ^ 6, gi_rateBps = 500, gi_elapsedMicros = MaxCatchupMicros,
            gi_price = 2 ^ 65\<rparr> :: gift_input"
  have "checkpointsBelowMinimum ?i 1000" by code_simp
  from checkpoint_only_when_stuck [OF this] show ?thesis
    by (simp add: MaxCatchupMicros_def MicrosPerSecond_def)
qed

section \<open>The yield index\<close>

text \<open>A run of distributions over one supply.\<close>

primrec distribute_all :: "int \<Rightarrow> int list \<Rightarrow> yield_index \<Rightarrow> yield_index option" where
  "distribute_all supply [] y = Some y"
| "distribute_all supply (a # xs) y = Option.bind (distribute y a supply) (distribute_all supply xs)"

definition yield_ok :: "int \<Rightarrow> yield_index \<Rightarrow> bool" where
  "yield_ok supply y \<longleftrightarrow> 0 < supply \<and> 0 \<le> yi_carry y \<and> yi_carry y < supply"

lemma distribute_step:
  assumes "yield_ok supply y" and "0 \<le> a"
  obtains z where "distribute y a supply = Some z" and "yield_ok supply z" and "yi_pot z = yi_pot y + a"
    and "yi_index z * supply + yi_carry z = yi_index y * supply + yi_carry y + a * YieldIndexScale"
proof -
  have s: "0 < supply" "0 \<le> yi_carry y" using assms by (simp_all add: yield_ok_def)
  let ?t = "a * YieldIndexScale + yi_carry y"
  have "0 \<le> ?t" using assms s by (simp add: YieldIndexScale_def)
  then have "distribute y a supply = Some \<lparr>yi_index = yi_index y + ?t div supply, yi_pot = yi_pot y + a, yi_carry = ?t mod supply\<rparr>"
    using s by (simp add: distribute_def Let_def sdiv_floor smod_floor)
  moreover have "?t div supply * supply + ?t mod supply = ?t" by (rule div_mult_mod_eq)
  ultimately show thesis using that s by (simp add: yield_ok_def algebra_simps)
qed

lemma distribute_all_conserves:
  assumes "yield_ok supply y" and "list_all (\<lambda>a. 0 \<le> a) xs"
  shows "\<exists>z. distribute_all supply xs y = Some z \<and> yield_ok supply z \<and> yi_pot z = yi_pot y + sum_list xs \<and>
    yi_index z * supply + yi_carry z = yi_index y * supply + yi_carry y + sum_list xs * YieldIndexScale"
  using assms
proof (induction xs arbitrary: y)
  case (Cons a xs)
  then obtain z where z: "distribute y a supply = Some z" "yield_ok supply z" "yi_pot z = yi_pot y + a"
    "yi_index z * supply + yi_carry z = yi_index y * supply + yi_carry y + a * YieldIndexScale"
    using distribute_step [of "supply" y a] by auto
  from Cons.IH [OF z(2)] Cons.prems z show ?case by (auto simp: algebra_simps)
qed simp

lemma quotient_remainder_unique:
  assumes "q * s + r = q' * s + (r' :: int)" "0 \<le> r" "r < s" "0 \<le> r'" "r' < s"
  shows "q = q' \<and> r = r'"
proof -
  have "(q * s + r) div s = q" using assms(2,3) by simp
  moreover have "(q' * s + r') div s = q'" using assms(4,5) by simp
  ultimately have "q = q'" by (simp only: assms(1))
  with assms(1) show ?thesis by simp
qed

text \<open>
  The carry makes the index independent of how the yield arrives: distributing any list of gifts one by
  one leaves the same index, pot and carry as distributing their sum at once.
\<close>

theorem distribute_batching:
  assumes "yield_ok supply y" and "list_all (\<lambda>a. 0 \<le> a) xs"
  shows "distribute_all supply xs y = distribute y (sum_list xs) supply"
proof -
  obtain z where z: "distribute_all supply xs y = Some z" "yield_ok supply z" "yi_pot z = yi_pot y + sum_list xs"
    "yi_index z * supply + yi_carry z = yi_index y * supply + yi_carry y + sum_list xs * YieldIndexScale"
    using distribute_all_conserves [OF assms] by auto
  have "0 \<le> sum_list xs" using assms(2) by (auto simp: list_all_iff intro: sum_list_nonneg)
  then obtain w where w: "distribute y (sum_list xs) supply = Some w" "yield_ok supply w" "yi_pot w = yi_pot y + sum_list xs"
    "yi_index w * supply + yi_carry w = yi_index y * supply + yi_carry y + sum_list xs * YieldIndexScale"
    using distribute_step [OF assms(1)] by auto
  have "yi_index z = yi_index w \<and> yi_carry z = yi_carry w"
    using quotient_remainder_unique [of "yi_index z" "supply" "yi_carry z" "yi_index w" "yi_carry w"] z w
    by (simp add: yield_ok_def)
  with z w show ?thesis by simp
qed

theorem distribute_batching_witness:
  "distribute_all 7 [1, 2, 3] \<lparr>yi_index = 0, yi_pot = 0, yi_carry = 4\<rparr>
     = distribute \<lparr>yi_index = 0, yi_pot = 0, yi_carry = 4\<rparr> 6 7"
  using distribute_batching [of 7 "\<lparr>yi_index = 0, yi_pot = 0, yi_carry = 4\<rparr>" "[1, 2, 3]"]
  by (simp add: yield_ok_def)

text \<open>
  A run of distributions, each with its amount and the supply it is spread over: by how much each moved the index, and the
  index in the end.
\<close>

primrec distribute_each :: "(int \<times> int) list \<Rightarrow> yield_index \<Rightarrow> (int list \<times> yield_index) option" where
  "distribute_each [] y = Some ([], y)"
| "distribute_each (round # rounds) y =
     (case distribute y (fst round) (snd round) of
        None \<Rightarrow> None
      | Some z \<Rightarrow> (case distribute_each rounds z of
          None \<Rightarrow> None
        | Some (deltas, w) \<Rightarrow> Some ((yi_index z - yi_index y) # deltas, w)))"

text \<open>
  A holder: the balances it held one after the other, each with the number of distributions it held it for. Whenever the
  balance changes the holder is paid \<open>balance * \<Delta>index / YieldIndexScale\<close> for the time since the last change.
\<close>

type_synonym holder = "(int \<times> nat) list"

fun owed :: "holder \<Rightarrow> int list \<Rightarrow> int" where
  "owed [] deltas = 0"
| "owed ((b, n) # h) deltas = b * sum_list (take n deltas) div YieldIndexScale + owed h (drop n deltas)"

definition balance :: "nat \<Rightarrow> holder \<Rightarrow> int" where
  "balance t h = (let bs = concat (map (\<lambda>(b, n). replicate n b) h) in if t < length bs then bs ! t else 0)"

lemma distribute_each_conserves:
  assumes "\<forall>round \<in> set rounds. 0 \<le> fst round \<and> 0 < snd round" and "0 \<le> yi_carry y"
  shows "\<exists>ds z. distribute_each rounds y = Some (ds, z) \<and> length ds = length rounds \<and> (\<forall>d \<in> set ds. 0 \<le> d) \<and> 0 \<le> yi_carry z \<and>
    yi_pot z = yi_pot y + sum_list (map fst rounds) \<and>
    (\<Sum>t < length ds. snd (rounds ! t) * ds ! t) + yi_carry z = yi_carry y + sum_list (map fst rounds) * YieldIndexScale"
  using assms
proof (induction rounds arbitrary: y)
  case (Cons r rounds)
  let ?t = "fst r * YieldIndexScale + yi_carry y"
  have t: "0 \<le> ?t" and pos: "0 < snd r" using Cons.prems by (simp_all add: YieldIndexScale_def)
  define z where "z = \<lparr>yi_index = yi_index y + ?t div snd r, yi_pot = yi_pot y + fst r, yi_carry = ?t mod snd r\<rparr>"
  have one: "distribute y (fst r) (snd r) = Some z"
    using t pos by (simp add: distribute_def Let_def sdiv_floor smod_floor z_def)
  have z: "0 \<le> yi_carry z" "0 \<le> yi_index z - yi_index y" "yi_pot z = yi_pot y + fst r"
    "snd r * (yi_index z - yi_index y) + yi_carry z = ?t"
    using t pos by (simp_all add: z_def pos_imp_zdiv_nonneg_iff)
  from Cons.IH [OF _ z(1)] Cons.prems obtain ds w where ih: "distribute_each rounds z = Some (ds, w)" "length ds = length rounds"
    "\<forall>d \<in> set ds. 0 \<le> d" "0 \<le> yi_carry w" "yi_pot w = yi_pot z + sum_list (map fst rounds)"
    "(\<Sum>t < length ds. snd (rounds ! t) * ds ! t) + yi_carry w = yi_carry z + sum_list (map fst rounds) * YieldIndexScale"
    by auto
  have "(\<Sum>t < length (r # rounds). snd ((r # rounds) ! t) * ((yi_index z - yi_index y) # ds) ! t)
      = snd r * (yi_index z - yi_index y) + (\<Sum>t < length rounds. snd (rounds ! t) * ds ! t)"
    by (simp add: sum.lessThan_Suc_shift del: sum.lessThan_Suc)
  with one z ih show ?case by (simp add: algebra_simps)
qed simp

lemma owed_le:
  assumes "\<forall>d \<in> set ds. 0 \<le> d"
  shows "owed h ds * YieldIndexScale \<le> (\<Sum>t < length ds. balance t h * ds ! t)"
proof -
  have "owed h ds * YieldIndexScale \<le> sum_list (map2 (*) (concat (map (\<lambda>(b, n). replicate n b) h)) ds)"
  proof (induction h ds rule: owed.induct)
    case (2 b n h ds)
    have "b * sum_list (take n ds) div YieldIndexScale * YieldIndexScale \<le> b * sum_list (take n ds)"
      using div_mult_mod_eq [of "b * sum_list (take n ds)" YieldIndexScale]
        pos_mod_sign [OF YieldIndexScale_pos, of "b * sum_list (take n ds)"] by linarith
    moreover have "sum_list (map2 (*) (replicate n b) xs) = b * sum_list (take n xs)" for xs :: "int list"
      by (induction n arbitrary: xs) (case_tac [2] xs, auto simp: algebra_simps)
    ultimately show ?case using 2 by (simp add: zip_append1 distrib_right)
  qed simp
  also have "\<dots> = (\<Sum>t < length ds. balance t h * ds ! t)"
  proof -
    have "sum_list (map2 (*) bs ds) = (\<Sum>t < length ds. (if t < length bs then bs ! t else 0) * ds ! t)" for bs
    proof (induction ds arbitrary: bs)
      case (Cons d ds)
      show ?case
      proof (cases bs)
        case bs: (Cons b bs')
        show ?thesis unfolding bs using Cons.IH [of bs'] by (simp add: sum.lessThan_Suc_shift del: sum.lessThan_Suc cong: if_cong)
      qed simp
    qed simp
    then show ?thesis by (simp add: balance_def Let_def)
  qed
  finally show ?thesis .
qed

text \<open>
  C9: The pot is always enough. Take any run of distributions from an empty index, of any amounts, each over any
  positive supply of its own, and any holders whose balances change between the distributions, together never more than the
  supply of the distribution: what they are owed, each payment floored, is at most what is in the pot.
\<close>

theorem pot_covers_owed:
  assumes "\<forall>round \<in> set rounds. 0 \<le> fst round \<and> 0 < snd round"
    and "\<forall>t < length rounds. sum_list (map (balance t) holders) \<le> snd (rounds ! t)"
  shows "\<exists>deltas z. distribute_each rounds \<lparr>yi_index = 0, yi_pot = 0, yi_carry = 0\<rparr> = Some (deltas, z) \<and>
    sum_list (map (\<lambda>h. owed h deltas) holders) \<le> yi_pot z"
proof -
  obtain ds z where z: "distribute_each rounds \<lparr>yi_index = 0, yi_pot = 0, yi_carry = 0\<rparr> = Some (ds, z)"
    "length ds = length rounds" "\<forall>d \<in> set ds. 0 \<le> d" "0 \<le> yi_carry z" "yi_pot z = sum_list (map fst rounds)"
    "(\<Sum>t < length ds. snd (rounds ! t) * ds ! t) + yi_carry z = sum_list (map fst rounds) * YieldIndexScale"
    using distribute_each_conserves [OF assms(1), of "\<lparr>yi_index = 0, yi_pot = 0, yi_carry = 0\<rparr>"] by auto
  have swap: "sum_list (map (\<lambda>h. \<Sum>t < length ds. balance t h * ds ! t) hs)
      = (\<Sum>t < length ds. sum_list (map (balance t) hs) * ds ! t)" for hs
    by (induction hs) (simp_all add: sum.distrib distrib_right)
  have "sum_list (map (\<lambda>h. owed h ds) holders) * YieldIndexScale = sum_list (map (\<lambda>h. owed h ds * YieldIndexScale) holders)"
    by (simp add: sum_list_mult_const)
  also have "\<dots> \<le> sum_list (map (\<lambda>h. \<Sum>t < length ds. balance t h * ds ! t) holders)"
    using owed_le [OF z(3)] by (intro sum_list_mono)
  also have "\<dots> \<le> (\<Sum>t < length ds. snd (rounds ! t) * ds ! t)"
    unfolding swap by (rule sum_mono, rule mult_right_mono) (use assms(2) z(2,3) in auto)
  also have "\<dots> \<le> yi_pot z * YieldIndexScale" using z(4-6) by simp
  finally show ?thesis using z(1) by simp
qed

theorem pot_covers_owed_witness:
  "\<exists>deltas z. distribute_each [(10, 7), (5, 20)] \<lparr>yi_index = 0, yi_pot = 0, yi_carry = 0\<rparr> = Some (deltas, z) \<and>
     owed [(3, 1), (8, 1)] deltas + owed [(4, 2)] deltas \<le> yi_pot z"
  using pot_covers_owed [of "[(10, 7), (5, 20)]" "[[(3, 1), (8, 1)], [(4, 2)]]"]
  by (simp add: balance_def All_less_Suc numeral_2_eq_2 less_Suc_eq all_conj_distrib)

end
