(* ===== verification/Batch_Schedule.thy ===== *)
theory Batch_Schedule
  imports Prelude Complex_Main
begin

text \<open>
  \<open>cluster-tool/src/config/BatchOperatorSchedule.ts\<close>: the schema that resolves and validates the
  batch-operator sliding-window schedule. A JS number that reaches the schema is a \<^typ>\<open>rat\<close>
  (\<open>z.number()\<close> has already refused the non-finite ones); \<open>null\<close> and \<open>undefined\<close> are \<^const>\<open>None\<close>.
  An issue is a constructor with the data its message quotes; every refinement of a field is run,
  and the transform only when no field has an issue, as the schema library does.
\<close>

section \<open>Limits\<close>

definition DefaultBatchOperatorGroupCount :: int where "DefaultBatchOperatorGroupCount = 3"

definition MinimumOperatorsPerEpoch :: int where "MinimumOperatorsPerEpoch = 1"

definition MaxOperatorsPerEpoch :: int where "MaxOperatorsPerEpoch = 7"

definition MaxBatchOperatorGroups :: int where "MaxBatchOperatorGroups = 8"

definition MaxScheduledBatchOperators :: int where
  "MaxScheduledBatchOperators = MaxBatchOperatorGroups * MaxOperatorsPerEpoch"

definition MaxBatchOperatorRoster :: int where "MaxBatchOperatorRoster = 26"

section \<open>Fields\<close>

datatype schedule_field = BatchOperatorCount | OperatorsPerEpoch | BatchOpGroups

datatype schedule_issue =
  NotPositiveWhole schedule_field
| ExceedsCeiling schedule_field int
| EvenGroupSize int
| OffLattice int
| RosterTooSmall int int int int

fun issue_path :: "schedule_issue \<Rightarrow> schedule_field" where
  "issue_path (NotPositiveWhole f) = f"
| "issue_path (ExceedsCeiling f _) = f"
| "issue_path (EvenGroupSize _) = OperatorsPerEpoch"
| "issue_path (OffLattice _) = BatchOperatorCount"
| "issue_path (RosterTooSmall _ _ _ _) = BatchOperatorCount"

definition is_whole :: "rat \<Rightarrow> bool" where
  "is_whole v \<longleftrightarrow> of_int \<lfloor>v\<rfloor> = v"

definition positiveCountSchema :: "schedule_field \<Rightarrow> rat \<Rightarrow> schedule_issue list" where
  "positiveCountSchema field v = (if is_whole v \<and> v > 0 then [] else [NotPositiveWhole field])"

definition counted_field :: "schedule_field \<Rightarrow> int \<Rightarrow> rat \<Rightarrow> schedule_issue list" where
  "counted_field field limit v =
     positiveCountSchema field v @ (if v \<le> of_int limit then [] else [ExceedsCeiling field limit])"

definition nullish_field :: "schedule_field \<Rightarrow> int \<Rightarrow> rat option \<Rightarrow> schedule_issue list" where
  "nullish_field field limit v = (case v of None \<Rightarrow> [] | Some x \<Rightarrow> counted_field field limit x)"

record schedule_options =
  so_batchOperatorCount :: rat
  so_operatorsPerEpoch :: "rat option"
  so_batchOpGroups :: "rat option"

definition options_issues :: "schedule_options \<Rightarrow> schedule_issue list" where
  "options_issues options =
     counted_field BatchOperatorCount MaxBatchOperatorRoster (so_batchOperatorCount options)
     @ nullish_field OperatorsPerEpoch MaxOperatorsPerEpoch (so_operatorsPerEpoch options)
     @ nullish_field BatchOpGroups MaxBatchOperatorGroups (so_batchOpGroups options)"

section \<open>Derivation and cross-field rules\<close>

definition deriveOperatorsPerEpoch :: "int \<Rightarrow> int \<Rightarrow> int" where
  "deriveOperatorsPerEpoch batchOperatorCount batchOpGroups =
     (let fits = min (batchOperatorCount div batchOpGroups) MaxOperatorsPerEpoch;
          odd_size = (if fits mod 2 = 0 then fits - 1 else fits)
      in max MinimumOperatorsPerEpoch odd_size)"

record batch_schedule =
  bs_operatorsPerEpoch :: int
  bs_batchOpGroups :: int
  bs_batchOperatorMinimumActive :: int

definition schedule_transform ::
  "int \<Rightarrow> int option \<Rightarrow> int option \<Rightarrow> schedule_issue list \<times> batch_schedule" where
  "schedule_transform count operatorsPerEpoch batchOpGroups =
     (let groups = (case batchOpGroups of Some g \<Rightarrow> g | None \<Rightarrow> DefaultBatchOperatorGroupCount);
          isDerived = (operatorsPerEpoch = None \<and> batchOpGroups = None);
          gsize = (case operatorsPerEpoch of Some n \<Rightarrow> n | None \<Rightarrow> deriveOperatorsPerEpoch count groups);
          total = gsize * groups
      in ((if gsize mod 2 \<noteq> 1 then [EvenGroupSize gsize] else [])
          @ (if isDerived \<and> total \<noteq> count then [OffLattice count]
             else if total > count then [RosterTooSmall total gsize groups count] else []),
          \<lparr>bs_operatorsPerEpoch = gsize, bs_batchOpGroups = groups, bs_batchOperatorMinimumActive = total\<rparr>))"

definition schedule_resolve :: "schedule_options \<Rightarrow> schedule_issue list + batch_schedule" where
  "schedule_resolve options =
     (if options_issues options \<noteq> [] then Inl (options_issues options)
      else (case schedule_transform \<lfloor>so_batchOperatorCount options\<rfloor>
              (map_option floor (so_operatorsPerEpoch options)) (map_option floor (so_batchOpGroups options)) of
              (issues, schedule) \<Rightarrow> if issues \<noteq> [] then Inl issues else Inr schedule))"

section \<open>Lemmas\<close>

named_theorems limit_defs

lemmas [limit_defs] = DefaultBatchOperatorGroupCount_def MinimumOperatorsPerEpoch_def MaxOperatorsPerEpoch_def
  MaxBatchOperatorGroups_def MaxScheduledBatchOperators_def MaxBatchOperatorRoster_def

lemma counted_field_ok:
  "counted_field f c v = [] \<longleftrightarrow> of_int \<lfloor>v\<rfloor> = v \<and> 1 \<le> \<lfloor>v\<rfloor> \<and> \<lfloor>v\<rfloor> \<le> c"
proof (cases "of_int \<lfloor>v\<rfloor> = v")
  case True
  then have "v > 0 \<longleftrightarrow> \<lfloor>v\<rfloor> > 0" and "v \<le> of_int c \<longleftrightarrow> \<lfloor>v\<rfloor> \<le> c"
    by (metis of_int_0_less_iff, metis of_int_le_iff)
  with True show ?thesis by (auto simp: counted_field_def positiveCountSchema_def is_whole_def)
qed (simp add: counted_field_def positiveCountSchema_def is_whole_def)

lemma counted_field_of_int [simp]:
  "counted_field f c (of_int n) = [] \<longleftrightarrow> 1 \<le> n \<and> n \<le> c"
  by (simp add: counted_field_ok)

lemma nullish_field_ok:
  "nullish_field f c v = [] \<longleftrightarrow> (case map_option floor v of None \<Rightarrow> True | Some n \<Rightarrow> 1 \<le> n \<and> n \<le> c) \<and>
     (\<forall>x. v = Some x \<longrightarrow> of_int \<lfloor>x\<rfloor> = x)"
  by (auto simp: nullish_field_def counted_field_ok split: option.splits)

lemma deriveOperatorsPerEpoch_bounds:
  "1 \<le> deriveOperatorsPerEpoch c g \<and> deriveOperatorsPerEpoch c g \<le> 7 \<and> odd (deriveOperatorsPerEpoch c g)"
proof -
  define fits where "fits = min (c div g) 7"
  have eq: "deriveOperatorsPerEpoch c g = max 1 (if fits mod 2 = 0 then fits - 1 else fits)"
    by (simp add: deriveOperatorsPerEpoch_def fits_def limit_defs Let_def)
  have "fits \<le> 7" by (simp add: fits_def)
  then show ?thesis unfolding eq odd_iff_mod_2_eq_one max_def by presburger
qed

lemma deriveOperatorsPerEpoch_largest:
  assumes "0 < g" and "odd n" and "0 < n" and "n \<le> 7" and "n * g \<le> c"
  shows "n \<le> deriveOperatorsPerEpoch c g \<and> deriveOperatorsPerEpoch c g * g \<le> c"
proof -
  define fits where "fits = min (c div g) 7"
  have eq: "deriveOperatorsPerEpoch c g = max 1 (if fits mod 2 = 0 then fits - 1 else fits)"
    by (simp add: deriveOperatorsPerEpoch_def fits_def limit_defs Let_def)
  have "n \<le> c div g" using zdiv_mono1 [OF assms(5,1)] assms(1) by simp
  then have n: "n \<le> fits" using assms(4) by (simp add: fits_def)
  then have d: "n \<le> deriveOperatorsPerEpoch c g" "deriveOperatorsPerEpoch c g \<le> fits"
    using assms(2,3) unfolding eq odd_iff_mod_2_eq_one max_def by presburger+
  have "deriveOperatorsPerEpoch c g * g \<le> c div g * g"
    using d(2) assms(1) by (simp add: fits_def mult_right_mono)
  also have "\<dots> \<le> c" using div_mult_mod_eq [of c g] pos_mod_sign [OF assms(1), of c] by linarith
  finally show ?thesis using d by simp
qed

lemma schedule_resolve_Inr:
  assumes "schedule_resolve o1 = Inr s"
  shows "options_issues o1 = []" and
    "schedule_transform \<lfloor>so_batchOperatorCount o1\<rfloor> (map_option floor (so_operatorsPerEpoch o1))
       (map_option floor (so_batchOpGroups o1)) = ([], s)"
  using assms by (auto simp: schedule_resolve_def split: if_splits prod.splits)

lemma schedule_transform_ok:
  assumes "schedule_transform c n g = ([], s)"
  shows "bs_batchOpGroups s = (case g of Some k \<Rightarrow> k | None \<Rightarrow> 3)"
    and "bs_operatorsPerEpoch s = (case n of Some k \<Rightarrow> k | None \<Rightarrow> deriveOperatorsPerEpoch c (bs_batchOpGroups s))"
    and "bs_batchOperatorMinimumActive s = bs_operatorsPerEpoch s * bs_batchOpGroups s"
    and "odd (bs_operatorsPerEpoch s)" and "bs_operatorsPerEpoch s * bs_batchOpGroups s \<le> c"
  using assms
  by (cases n; cases g;
      auto simp: schedule_transform_def Let_def DefaultBatchOperatorGroupCount_def odd_iff_mod_2_eq_one split: if_splits)+

section \<open>Properties\<close>

text \<open>
  Every schedule the resolver accepts is one the depot and the harness accept: an odd group size of at
  most 7, at most 8 groups, at most 56 scheduled operators, all of them in a roster of whole size of at
  most 26; a stated half is kept as stated, and a size that was not stated is the largest odd one that
  fits the roster.
\<close>

theorem schedule_resolve_sound:
  assumes "schedule_resolve options = Inr s"
  shows "odd (bs_operatorsPerEpoch s) \<and> 1 \<le> bs_operatorsPerEpoch s \<and> bs_operatorsPerEpoch s \<le> MaxOperatorsPerEpoch
    \<and> 1 \<le> bs_batchOpGroups s \<and> bs_batchOpGroups s \<le> MaxBatchOperatorGroups
    \<and> bs_batchOperatorMinimumActive s = bs_operatorsPerEpoch s * bs_batchOpGroups s
    \<and> bs_batchOperatorMinimumActive s \<le> MaxScheduledBatchOperators
    \<and> rat_of_int (bs_batchOperatorMinimumActive s) \<le> so_batchOperatorCount options
    \<and> so_batchOperatorCount options \<le> of_int MaxBatchOperatorRoster
    \<and> (\<forall>n. so_operatorsPerEpoch options = Some n \<longrightarrow> of_int (bs_operatorsPerEpoch s) = n)
    \<and> (\<forall>g. so_batchOpGroups options = Some g \<longrightarrow> of_int (bs_batchOpGroups s) = g)
    \<and> (so_operatorsPerEpoch options = None \<longrightarrow> (\<forall>n. odd n \<and> 0 < n \<and> n \<le> MaxOperatorsPerEpoch
          \<and> rat_of_int (n * bs_batchOpGroups s) \<le> so_batchOperatorCount options \<longrightarrow> n \<le> bs_operatorsPerEpoch s))"
proof -
  let ?c = "\<lfloor>so_batchOperatorCount options\<rfloor>"
  note r = schedule_resolve_Inr [OF assms]
  have c: "of_int ?c = so_batchOperatorCount options" "1 \<le> ?c" "?c \<le> 26"
    using r(1) by (simp_all add: options_issues_def counted_field_ok limit_defs)
  have n: "case map_option floor (so_operatorsPerEpoch options) of None \<Rightarrow> True | Some n \<Rightarrow> 1 \<le> n \<and> n \<le> 7"
    "\<And>x. so_operatorsPerEpoch options = Some x \<Longrightarrow> of_int \<lfloor>x\<rfloor> = x"
    using r(1) by (simp_all add: options_issues_def nullish_field_ok limit_defs)
  have g: "case map_option floor (so_batchOpGroups options) of None \<Rightarrow> True | Some n \<Rightarrow> 1 \<le> n \<and> n \<le> 8"
    "\<And>x. so_batchOpGroups options = Some x \<Longrightarrow> of_int \<lfloor>x\<rfloor> = x"
    using r(1) by (simp_all add: options_issues_def nullish_field_ok limit_defs)
  let ?g = "bs_batchOpGroups s" and ?n = "bs_operatorsPerEpoch s"
  note t = schedule_transform_ok [OF r(2)]
  note groups = t(1) and gsize = t(2) and total = t(3-5)
  have g8: "1 \<le> ?g" "?g \<le> 8" using g(1) groups by (auto split: option.splits)
  have n7: "1 \<le> ?n" "?n \<le> 7"
    using n(1) gsize deriveOperatorsPerEpoch_bounds [of ?c ?g] by (auto split: option.splits)
  have "?n * ?g \<le> 7 * 8" using n7 g8 by (intro mult_mono) auto
  moreover have "m \<le> ?n" if "so_operatorsPerEpoch options = None" "odd m" "0 < m" "m \<le> 7"
    "rat_of_int (m * ?g) \<le> so_batchOperatorCount options" for m
    using deriveOperatorsPerEpoch_largest [of ?g m ?c] that g8 gsize c(1) by (metis of_int_le_iff option.case(1)
        option.map(1) zero_less_one order_less_le_trans)
  moreover have "rat_of_int (?n * ?g) \<le> so_batchOperatorCount options" using total(3) c(1) by (metis of_int_le_iff)
  moreover have "so_batchOperatorCount options \<le> 26" using c by (metis of_int_le_iff of_int_numeral)
  ultimately show ?thesis
    using total g8 n7 groups gsize n(2) g(2) by (auto simp: limit_defs)
qed

theorem schedule_resolve_sound_witness:
  "\<exists>s. schedule_resolve \<lparr>so_batchOperatorCount = 17, so_operatorsPerEpoch = None, so_batchOpGroups = Some 3\<rparr> = Inr s
     \<and> bs_operatorsPerEpoch s = 5 \<and> odd (bs_operatorsPerEpoch s)"
proof -
  let ?s = "\<lparr>bs_operatorsPerEpoch = 5, bs_batchOpGroups = 3, bs_batchOperatorMinimumActive = 15\<rparr>"
  have "schedule_resolve \<lparr>so_batchOperatorCount = 17, so_operatorsPerEpoch = None, so_batchOpGroups = Some 3\<rparr> = Inr ?s"
    by code_simp
  from this schedule_resolve_sound [OF this] show ?thesis by auto
qed

lemma lattice_cases:
  assumes "1 \<le> n" and "n \<le> (26 :: int)"
  shows "deriveOperatorsPerEpoch n 3 * 3 = n \<longleftrightarrow> n \<in> {3, 9, 15, 21}"
proof -
  have "list_all (\<lambda>n. deriveOperatorsPerEpoch n 3 * 3 = n \<longleftrightarrow> n \<in> set [3, 9, 15, 21]) [1..26]" by code_simp
  with assms show ?thesis by (simp add: list_all_iff)
qed

text \<open>
  With neither half stated a whole roster is accepted exactly when it is 3, 9, 15 or 21, and is then split
  into three groups with nobody left out; any other roster of legal size gets the one issue that names the
  lattice.
\<close>

theorem schedule_derived_lattice:
  assumes "1 \<le> n" and "n \<le> MaxBatchOperatorRoster"
  shows "schedule_resolve \<lparr>so_batchOperatorCount = of_int n, so_operatorsPerEpoch = None, so_batchOpGroups = None\<rparr> =
    (if n \<in> {3, 9, 15, 21}
     then Inr \<lparr>bs_operatorsPerEpoch = n div 3, bs_batchOpGroups = 3, bs_batchOperatorMinimumActive = n\<rparr>
     else Inl [OffLattice n])"
proof -
  let ?o = "\<lparr>so_batchOperatorCount = of_int n, so_operatorsPerEpoch = None, so_batchOpGroups = None\<rparr>"
  have "options_issues ?o = []"
    using assms by (simp add: options_issues_def nullish_field_def)
  moreover define d where "d = deriveOperatorsPerEpoch n 3"
  moreover have "d mod 2 = 1"
    using deriveOperatorsPerEpoch_bounds [of n 3] by (simp add: d_def odd_iff_mod_2_eq_one)
  moreover have L: "d * 3 = n \<longleftrightarrow> n \<in> {3, 9, 15, 21}"
    unfolding d_def using assms by (intro lattice_cases) (simp_all add: limit_defs)
  moreover have "d * 3 = n \<Longrightarrow> d = n div 3" by linarith
  ultimately show ?thesis
    by (cases "n \<in> {3, 9, 15, 21}")
      (simp_all del: insert_iff add: schedule_resolve_def schedule_transform_def Let_def DefaultBatchOperatorGroupCount_def)
qed

theorem schedule_derived_lattice_witness:
  "schedule_resolve \<lparr>so_batchOperatorCount = of_int 12, so_operatorsPerEpoch = None, so_batchOpGroups = None\<rparr>
     = Inl [OffLattice 12]"
  using schedule_derived_lattice [of 12] by (simp add: limit_defs)

end
