(* ===== verification/Stream_Protocol.thy ===== *)
theory Stream_Protocol
  imports Prelude Complex_Main
begin

text \<open>
  \<open>debugging-shared/src/rpc/StreamProtocol.ts\<close>: the topics, reasons and frames of the WebSocket
  protocol and the schema that validates a frame on both ends. The text of a frame is modelled by
  the value \<open>JSON.parse\<close> gives for it (\<open>json\<close>, an object being its list of properties with distinct
  keys); a number is a \<^typ>\<open>rat\<close>. An absent property (\<open>undefined\<close>) is \<^const>\<open>None\<close>: the schema lets
  \<open>params\<close> and \<open>payload\<close> be absent, and \<open>JSON.stringify\<close> leaves them out.
\<close>

section \<open>JSON values\<close>

datatype json = JNull | JBool bool | JNum rat | JStr string | JArr "json list" | JObj "(string \<times> json) list"

fun json_get :: "json \<Rightarrow> string \<Rightarrow> json option" where
  "json_get (JObj kvs) k = map_of kvs k"
| "json_get _ k = None"

fun as_number :: "json option \<Rightarrow> rat option" where
  "as_number (Some (JNum n)) = Some n"
| "as_number _ = None"

fun as_string :: "json option \<Rightarrow> string option" where
  "as_string (Some (JStr s)) = Some s"
| "as_string _ = None"

lemma as_number_Some [simp]: "as_number j = Some n \<longleftrightarrow> j = Some (JNum n)"
  by (auto elim: as_number.elims)

lemma as_string_Some [simp]: "as_string j = Some n \<longleftrightarrow> j = Some (JStr n)"
  by (auto elim: as_string.elims)

section \<open>Enums\<close>

datatype stream_topic = ProcessLiveness | LogTail | EnvelopeWatch

fun topic_name :: "stream_topic \<Rightarrow> string" where
  "topic_name ProcessLiveness = ''process-liveness''"
| "topic_name LogTail = ''log-tail''"
| "topic_name EnvelopeWatch = ''envelope-watch''"

datatype stream_frame_type = Subscribe | Subscribed | Event | Unsubscribe | Closed | Error

fun frame_type_name :: "stream_frame_type \<Rightarrow> string" where
  "frame_type_name Subscribe = ''subscribe''"
| "frame_type_name Subscribed = ''subscribed''"
| "frame_type_name Event = ''event''"
| "frame_type_name Unsubscribe = ''unsubscribe''"
| "frame_type_name Closed = ''closed''"
| "frame_type_name Error = ''error''"

datatype closed_reason = ClientRequested | ServerShutdown | UnsupportedTopic | ReasonInvalidParams | InternalError

fun reason_name :: "closed_reason \<Rightarrow> string" where
  "reason_name ClientRequested = ''client-requested''"
| "reason_name ServerShutdown = ''server-shutdown''"
| "reason_name UnsupportedTopic = ''unsupported-topic''"
| "reason_name ReasonInvalidParams = ''invalid-params''"
| "reason_name InternalError = ''internal-error''"

datatype stream_error_code = ParseError | InvalidFrameType | UnknownTopic | CodeInvalidParams | CodeInternal

fun code_name :: "stream_error_code \<Rightarrow> string" where
  "code_name ParseError = ''parse-error''"
| "code_name InvalidFrameType = ''invalid-frame-type''"
| "code_name UnknownTopic = ''unknown-topic''"
| "code_name CodeInvalidParams = ''invalid-params''"
| "code_name CodeInternal = ''internal-error''"

text \<open>\<open>z.enum\<close>: the member whose string value it is.\<close>

definition enum_member :: "'a list \<Rightarrow> ('a \<Rightarrow> string) \<Rightarrow> string option \<Rightarrow> 'a option" where
  "enum_member members name s = Option.bind s (\<lambda>v. find (\<lambda>m. name m = v) members)"

definition parse_topic :: "string \<Rightarrow> stream_topic option" where
  "parse_topic s = enum_member [ProcessLiveness, LogTail, EnvelopeWatch] topic_name (Some s)"

definition parse_frame_type :: "string option \<Rightarrow> stream_frame_type option" where
  "parse_frame_type = enum_member [Subscribe, Subscribed, Event, Unsubscribe, Closed, Error] frame_type_name"

definition parse_reason :: "string option \<Rightarrow> closed_reason option" where
  "parse_reason = enum_member [ClientRequested, ServerShutdown, UnsupportedTopic, ReasonInvalidParams, InternalError] reason_name"

definition parse_code :: "string option \<Rightarrow> stream_error_code option" where
  "parse_code = enum_member [ParseError, InvalidFrameType, UnknownTopic, CodeInvalidParams, CodeInternal] code_name"

lemma parse_topic_name [simp]: "parse_topic (topic_name t) = Some t"
  by (cases t) (simp_all add: parse_topic_def enum_member_def)

lemma parse_frame_type_name [simp]: "parse_frame_type (Some (frame_type_name t)) = Some t"
  by (cases t) (simp_all add: parse_frame_type_def enum_member_def)

lemma parse_reason_name [simp]: "parse_reason (Some (reason_name t)) = Some t"
  by (cases t) (simp_all add: parse_reason_def enum_member_def)

lemma parse_code_name [simp]: "parse_code (Some (code_name t)) = Some t"
  by (cases t) (simp_all add: parse_code_def enum_member_def)

lemma enum_member_sound: "enum_member ms name s = Some m \<Longrightarrow> s = Some (name m)"
  by (auto simp: enum_member_def find_Some_iff split: Option.bind_splits)

section \<open>The state of a socket\<close>

text \<open>\<open>WebSocket.readyState\<close>: it only ever moves forward in this order.\<close>

datatype ready_state = CONNECTING | OPEN | CLOSING | CLOSED

fun ready_rank :: "ready_state \<Rightarrow> nat" where
  "ready_rank CONNECTING = 0"
| "ready_rank OPEN = 1"
| "ready_rank CLOSING = 2"
| "ready_rank CLOSED = 3"

lemma ready_rank_inject: "ready_rank a = ready_rank b \<Longrightarrow> a = b"
  by (cases a; cases b) simp_all

instantiation ready_state :: linorder
begin

definition less_eq_ready_state :: "ready_state \<Rightarrow> ready_state \<Rightarrow> bool" where
  "less_eq_ready_state a b \<longleftrightarrow> ready_rank a \<le> ready_rank b"

definition less_ready_state :: "ready_state \<Rightarrow> ready_state \<Rightarrow> bool" where
  "less_ready_state a b \<longleftrightarrow> ready_rank a < ready_rank b"

instance
  by (intro_classes; auto simp: less_eq_ready_state_def less_ready_state_def intro: ready_rank_inject)

end

lemmas ready_le_defs = less_eq_ready_state_def less_ready_state_def

section \<open>Frames\<close>

type_synonym sub_id = rat

datatype stream_frame =
  SubscribeFrame sub_id string "json option"
| SubscribedFrame sub_id
| EventFrame sub_id "json option"
| UnsubscribeFrame sub_id
| ClosedFrame sub_id closed_reason
| ErrorFrame stream_error_code string

fun frame_type :: "stream_frame \<Rightarrow> stream_frame_type" where
  "frame_type (SubscribeFrame _ _ _) = Subscribe"
| "frame_type (SubscribedFrame _) = Subscribed"
| "frame_type (EventFrame _ _) = Event"
| "frame_type (UnsubscribeFrame _) = Unsubscribe"
| "frame_type (ClosedFrame _ _) = Closed"
| "frame_type (ErrorFrame _ _) = Error"

definition optional_property :: "string \<Rightarrow> json option \<Rightarrow> (string \<times> json) list" where
  "optional_property k v = (case v of None \<Rightarrow> [] | Some j \<Rightarrow> [(k, j)])"

fun frame_properties :: "stream_frame \<Rightarrow> (string \<times> json) list" where
  "frame_properties (SubscribeFrame i topic params) =
     [(''id'', JNum i), (''topic'', JStr topic)] @ optional_property ''params'' params"
| "frame_properties (SubscribedFrame i) = [(''id'', JNum i)]"
| "frame_properties (EventFrame i payload) = [(''id'', JNum i)] @ optional_property ''payload'' payload"
| "frame_properties (UnsubscribeFrame i) = [(''id'', JNum i)]"
| "frame_properties (ClosedFrame i reason) = [(''id'', JNum i), (''reason'', JStr (reason_name reason))]"
| "frame_properties (ErrorFrame code message) = [(''code'', JStr (code_name code)), (''message'', JStr message)]"

definition frame_serialize :: "stream_frame \<Rightarrow> json" where
  "frame_serialize f = JObj ((''type'', JStr (frame_type_name (frame_type f))) # frame_properties f)"

definition parse_subscribe :: "json \<Rightarrow> stream_frame option" where
  "parse_subscribe j =
     do { i \<leftarrow> as_number (json_get j ''id''); topic \<leftarrow> as_string (json_get j ''topic'');
          Some (SubscribeFrame i topic (json_get j ''params'')) }"

definition parse_subscribed :: "json \<Rightarrow> stream_frame option" where
  "parse_subscribed j = map_option SubscribedFrame (as_number (json_get j ''id''))"

definition parse_event :: "json \<Rightarrow> stream_frame option" where
  "parse_event j =
     do { i \<leftarrow> as_number (json_get j ''id''); Some (EventFrame i (json_get j ''payload'')) }"

definition parse_unsubscribe :: "json \<Rightarrow> stream_frame option" where
  "parse_unsubscribe j = map_option UnsubscribeFrame (as_number (json_get j ''id''))"

definition parse_closed :: "json \<Rightarrow> stream_frame option" where
  "parse_closed j =
     do { i \<leftarrow> as_number (json_get j ''id''); r \<leftarrow> parse_reason (as_string (json_get j ''reason''));
          Some (ClosedFrame i r) }"

definition parse_error :: "json \<Rightarrow> stream_frame option" where
  "parse_error j =
     do { c \<leftarrow> parse_code (as_string (json_get j ''code'')); m \<leftarrow> as_string (json_get j ''message'');
          Some (ErrorFrame c m) }"

definition frame_deserialize :: "json \<Rightarrow> stream_frame option" where
  "frame_deserialize j =
     (case parse_frame_type (as_string (json_get j ''type'')) of
        None \<Rightarrow> None
      | Some Subscribe \<Rightarrow> parse_subscribe j
      | Some Subscribed \<Rightarrow> parse_subscribed j
      | Some Event \<Rightarrow> parse_event j
      | Some Unsubscribe \<Rightarrow> parse_unsubscribe j
      | Some Closed \<Rightarrow> parse_closed j
      | Some Error \<Rightarrow> parse_error j)"

lemmas parse_defs = parse_subscribe_def parse_subscribed_def parse_event_def parse_unsubscribe_def
  parse_closed_def parse_error_def

lemma frame_roundtrip: "frame_deserialize (frame_serialize f) = Some f"
  by (cases f)
    (simp_all add: frame_deserialize_def frame_serialize_def parse_defs optional_property_def
      parse_frame_type_def parse_code_name [unfolded parse_code_def] enum_member_def split: option.split)

lemma frame_deserialize_sound:
  assumes "frame_deserialize j = Some f"
  shows "json_get j ''type'' = Some (JStr (frame_type_name (frame_type f))) \<and>
         list_all (\<lambda>(k, v). json_get j k = Some v) (frame_properties f)"
proof -
  obtain t where t: "parse_frame_type (as_string (json_get j ''type'')) = Some t"
    using assms by (auto simp: frame_deserialize_def split: option.splits)
  then have ty: "json_get j ''type'' = Some (JStr (frame_type_name t))"
    by (auto simp: parse_frame_type_def dest: enum_member_sound)
  have r: "parse_reason s = Some r \<Longrightarrow> s = Some (reason_name r)" for s r
    by (auto simp: parse_reason_def dest: enum_member_sound)
  have c: "parse_code s = Some r \<Longrightarrow> s = Some (code_name r)" for s r
    by (auto simp: parse_code_def dest: enum_member_sound)
  show ?thesis
    using assms t ty
    by (cases t)
      (auto simp: frame_deserialize_def parse_defs optional_property_def bind_eq_Some_conv dest!: r c split: option.split)
qed

text \<open>
  A frame that is serialized and read back is the same frame, and conversely every text the schema
  accepts carries the discriminator of the frame it is read as, and each property of that
  frame with its value: a missing or mistyped field is never defaulted.
\<close>

theorem stream_frame_roundtrip:
  "frame_deserialize (frame_serialize f) = Some f \<and>
   (\<forall>j g. frame_deserialize j = Some g \<longrightarrow>
      json_get j ''type'' = Some (JStr (frame_type_name (frame_type g))) \<and>
      list_all (\<lambda>(k, v). json_get j k = Some v) (frame_properties g))"
  using frame_roundtrip frame_deserialize_sound by blast

theorem stream_frame_roundtrip_witness:
  "json_get (JObj [(''id'', JNum 4), (''reason'', JStr ''client-requested''), (''type'', JStr ''closed'')]) ''reason''
     = Some (JStr (reason_name ClientRequested))"
proof -
  have "frame_deserialize (JObj [(''id'', JNum 4), (''reason'', JStr ''client-requested''), (''type'', JStr ''closed'')])
      = Some (ClosedFrame 4 ClientRequested)"
    by (simp add: frame_deserialize_def parse_defs parse_frame_type_def parse_reason_def enum_member_def)
  with stream_frame_roundtrip show ?thesis by fastforce
qed

end
