(* ===== verification/Subscription.thy ===== *)
theory Subscription
  imports Stream_Protocol "HOL-Library.Multiset"
begin

text \<open>
  \<open>debugging-client-shared/src/subscriptions/DebuggingSubscription.ts\<close>: the subscription handle a
  consumer holds. The emitter's listeners are counted (removing one is the emitter's own operation and
  not modelled); \<open>ds_delivered\<close> logs what each listener, by its position, was called with. The
  callbacks given to \<open>setImmediate\<close> are the queue \<open>ds_tasks\<close>, run first in first out.
\<close>

section \<open>State and operations\<close>

datatype 'p delivery = EventDelivery 'p | ClosedDelivery closed_reason

datatype 'p immediate = DrainEvents "'p list" | DrainClosed closed_reason

record 'p subscription =
  ds_id :: sub_id
  ds_topic :: stream_topic
  ds_closed :: bool
  ds_pendingEvents :: "'p list"
  ds_pendingCloseReason :: "closed_reason option"
  ds_eventListeners :: nat
  ds_closedListeners :: nat
  ds_tasks :: "'p immediate list"
  ds_delivered :: "(nat \<times> 'p delivery) list"

definition ds_new :: "sub_id \<Rightarrow> stream_topic \<Rightarrow> 'p subscription" where
  "ds_new ident topic =
     \<lparr>ds_id = ident, ds_topic = topic, ds_closed = False, ds_pendingEvents = [], ds_pendingCloseReason = None,
      ds_eventListeners = 0, ds_closedListeners = 0, ds_tasks = [], ds_delivered = []\<rparr>"

definition ds_emit_event :: "'p \<Rightarrow> 'p subscription \<Rightarrow> 'p subscription" where
  "ds_emit_event p s =
     s\<lparr>ds_delivered := ds_delivered s @ map (\<lambda>l. (l, EventDelivery p)) [0..<ds_eventListeners s]\<rparr>"

definition ds_emit_closed :: "closed_reason \<Rightarrow> 'p subscription \<Rightarrow> 'p subscription" where
  "ds_emit_closed r s =
     s\<lparr>ds_delivered := ds_delivered s @ map (\<lambda>l. (l, ClosedDelivery r)) [0..<ds_closedListeners s]\<rparr>"

definition emitEvent :: "'p \<Rightarrow> 'p subscription \<Rightarrow> 'p subscription" where
  "emitEvent payload s =
     (if ds_closed s then s
      else if ds_eventListeners s = 0 then s\<lparr>ds_pendingEvents := ds_pendingEvents s @ [payload]\<rparr>
      else ds_emit_event payload s)"

definition notifyClosed :: "closed_reason \<Rightarrow> 'p subscription \<Rightarrow> 'p subscription" where
  "notifyClosed reason s =
     (if ds_closed s then s
      else (let s1 = s\<lparr>ds_closed := True\<rparr>
            in if ds_closedListeners s1 = 0 then s1\<lparr>ds_pendingCloseReason := Some reason\<rparr>
               else ds_emit_closed reason s1))"

text \<open>\<open>close\<close>, with the transport's hook as a change of the transport's state \<open>c\<close>.\<close>

definition ds_close ::
  "(closed_reason \<Rightarrow> 'c \<Rightarrow> 'c) \<Rightarrow> closed_reason \<Rightarrow> 'c \<times> 'p subscription \<Rightarrow> 'c \<times> 'p subscription" where
  "ds_close onCloseInternal reason cs =
     (case cs of (c, s) \<Rightarrow>
        if ds_closed s then (c, s) else (onCloseInternal reason c, notifyClosed reason s))"

definition isClosed :: "'p subscription \<Rightarrow> bool" where
  "isClosed s \<longleftrightarrow> ds_closed s"

definition on_event :: "'p subscription \<Rightarrow> 'p subscription" where
  "on_event s =
     (let s1 = s\<lparr>ds_eventListeners := ds_eventListeners s + 1\<rparr>
      in if length (ds_pendingEvents s1) > 0
         then s1\<lparr>ds_pendingEvents := [], ds_tasks := ds_tasks s1 @ [DrainEvents (ds_pendingEvents s1)]\<rparr>
         else s1)"

definition on_closed :: "'p subscription \<Rightarrow> 'p subscription" where
  "on_closed s =
     (let s1 = s\<lparr>ds_closedListeners := ds_closedListeners s + 1\<rparr>
      in case ds_pendingCloseReason s1 of
           None \<Rightarrow> s1
         | Some reason \<Rightarrow> s1\<lparr>ds_pendingCloseReason := None, ds_tasks := ds_tasks s1 @ [DrainClosed reason]\<rparr>)"

fun run_immediate :: "'p immediate \<Rightarrow> 'p subscription \<Rightarrow> 'p subscription" where
  "run_immediate (DrainEvents ps) s = fold ds_emit_event ps s"
| "run_immediate (DrainClosed r) s = ds_emit_closed r s"

definition next_tick :: "'p subscription \<Rightarrow> 'p subscription" where
  "next_tick s = (case ds_tasks s of [] \<Rightarrow> s | t # ts \<Rightarrow> run_immediate t (s\<lparr>ds_tasks := ts\<rparr>))"

text \<open>What the transport, the consumer and the event loop can do to a subscription.\<close>

datatype 'p sub_op = EmitOp 'p | NotifyOp closed_reason | OnEventOp | OnClosedOp | TickOp

fun sub_step :: "'p sub_op \<Rightarrow> 'p subscription \<Rightarrow> 'p subscription" where
  "sub_step (EmitOp p) = emitEvent p"
| "sub_step (NotifyOp r) = notifyClosed r"
| "sub_step OnEventOp = on_event"
| "sub_step OnClosedOp = on_closed"
| "sub_step TickOp = next_tick"

section \<open>Where an event or a close signal is\<close>

text \<open>The events the first listener has received, the ones scheduled, and all that were taken.\<close>

definition received :: "'p subscription \<Rightarrow> 'p list" where
  "received s = concat (map (\<lambda>(l, d). case d of EventDelivery p \<Rightarrow> if l = 0 then [p] else [] | _ \<Rightarrow> []) (ds_delivered s))"

definition closes_received :: "'p subscription \<Rightarrow> nat" where
  "closes_received s = length (filter (\<lambda>(l, d). l = 0 \<and> (case d of ClosedDelivery _ \<Rightarrow> True | _ \<Rightarrow> False)) (ds_delivered s))"

fun task_events :: "'p immediate \<Rightarrow> 'p list" where
  "task_events (DrainEvents ps) = ps"
| "task_events (DrainClosed _) = []"

fun task_closes :: "'p immediate \<Rightarrow> nat" where
  "task_closes (DrainEvents _) = 0"
| "task_closes (DrainClosed _) = 1"

definition scheduled :: "'p subscription \<Rightarrow> 'p list" where
  "scheduled s = concat (map task_events (ds_tasks s))"

definition events_of :: "'p subscription \<Rightarrow> 'p list" where
  "events_of s = received s @ scheduled s @ ds_pendingEvents s"

definition closes_of :: "'p subscription \<Rightarrow> nat" where
  "closes_of s = closes_received s + sum_list (map task_closes (ds_tasks s)) + (if ds_pendingCloseReason s = None then 0 else 1)"

text \<open>Nothing is scheduled without a listener, and nothing stays buffered with one.\<close>

definition ds_wf :: "'p subscription \<Rightarrow> bool" where
  "ds_wf s \<longleftrightarrow>
     (if ds_eventListeners s = 0 then scheduled s = [] \<and> received s = [] else ds_pendingEvents s = []) \<and>
     (if ds_closedListeners s = 0 then sum_list (map task_closes (ds_tasks s)) = 0 else ds_pendingCloseReason s = None) \<and>
     closes_of s = (if ds_closed s then 1 else 0)"

lemma concat_at_zero: "concat (map (\<lambda>l. if l = 0 then [p] else []) [0..<n]) = (if n = 0 then [] else [p])"
  by (induction n) simp_all

lemma filter_at_zero: "length (filter (\<lambda>l. l = 0) [0..<n]) = (if n = 0 then 0 else 1)"
  by (induction n) simp_all

lemma ds_emit_event_simps [simp]:
  "received (ds_emit_event p s) = received s @ (if ds_eventListeners s = 0 then [] else [p])"
  "closes_received (ds_emit_event p s) = closes_received s"
  "ds_eventListeners (ds_emit_event p s) = ds_eventListeners s"
  "ds_closedListeners (ds_emit_event p s) = ds_closedListeners s"
  "ds_tasks (ds_emit_event p s) = ds_tasks s"
  "ds_pendingEvents (ds_emit_event p s) = ds_pendingEvents s"
  "ds_pendingCloseReason (ds_emit_event p s) = ds_pendingCloseReason s"
  "ds_closed (ds_emit_event p s) = ds_closed s"
  by (simp_all add: ds_emit_event_def received_def closes_received_def comp_def concat_at_zero split del: if_split)

lemma ds_emit_closed_simps [simp]:
  "received (ds_emit_closed r s) = received s"
  "closes_received (ds_emit_closed r s) = closes_received s + (if ds_closedListeners s = 0 then 0 else 1)"
  "ds_eventListeners (ds_emit_closed r s) = ds_eventListeners s"
  "ds_closedListeners (ds_emit_closed r s) = ds_closedListeners s"
  "ds_tasks (ds_emit_closed r s) = ds_tasks s"
  "ds_pendingEvents (ds_emit_closed r s) = ds_pendingEvents s"
  "ds_pendingCloseReason (ds_emit_closed r s) = ds_pendingCloseReason s"
  "ds_closed (ds_emit_closed r s) = ds_closed s"
  by (simp_all add: ds_emit_closed_def received_def closes_received_def filter_map comp_def filter_at_zero split del: if_split)

lemma fold_emit_simps [simp]:
  "received (fold ds_emit_event ps s) = received s @ (if ds_eventListeners s = 0 then [] else ps)"
  "closes_received (fold ds_emit_event ps s) = closes_received s"
  "ds_eventListeners (fold ds_emit_event ps s) = ds_eventListeners s"
  "ds_closedListeners (fold ds_emit_event ps s) = ds_closedListeners s"
  "ds_tasks (fold ds_emit_event ps s) = ds_tasks s"
  "ds_pendingEvents (fold ds_emit_event ps s) = ds_pendingEvents s"
  "ds_pendingCloseReason (fold ds_emit_event ps s) = ds_pendingCloseReason s"
  "ds_closed (fold ds_emit_event ps s) = ds_closed s"
  by (induction ps arbitrary: s) simp_all

lemma received_update [simp]:
  "received (s\<lparr>ds_pendingEvents := a\<rparr>) = received s" "received (s\<lparr>ds_tasks := b\<rparr>) = received s"
  "received (s\<lparr>ds_closed := c\<rparr>) = received s" "received (s\<lparr>ds_pendingCloseReason := d\<rparr>) = received s"
  "received (s\<lparr>ds_eventListeners := e\<rparr>) = received s" "received (s\<lparr>ds_closedListeners := e\<rparr>) = received s"
  "closes_received (s\<lparr>ds_pendingEvents := a\<rparr>) = closes_received s" "closes_received (s\<lparr>ds_tasks := b\<rparr>) = closes_received s"
  "closes_received (s\<lparr>ds_closed := c\<rparr>) = closes_received s" "closes_received (s\<lparr>ds_pendingCloseReason := d\<rparr>) = closes_received s"
  "closes_received (s\<lparr>ds_eventListeners := e\<rparr>) = closes_received s" "closes_received (s\<lparr>ds_closedListeners := e\<rparr>) = closes_received s"
  by (simp_all add: received_def closes_received_def)

lemmas ds_defs = emitEvent_def notifyClosed_def on_event_def on_closed_def next_tick_def Let_def

section \<open>Preservation and conservation\<close>

lemma ds_wf_new [simp]: "ds_wf (ds_new i t)"
  by (simp add: ds_wf_def ds_new_def scheduled_def received_def closes_of_def closes_received_def)

lemma next_tick_cases:
  obtains "ds_tasks s = []" "next_tick s = s"
  | ps ts where "ds_tasks s = DrainEvents ps # ts" "next_tick s = fold ds_emit_event ps (s\<lparr>ds_tasks := ts\<rparr>)"
  | r ts where "ds_tasks s = DrainClosed r # ts" "next_tick s = ds_emit_closed r (s\<lparr>ds_tasks := ts\<rparr>)"
proof (cases "ds_tasks s")
  case (Cons t ts)
  with that(2,3) show ?thesis by (cases t) (simp_all add: next_tick_def)
qed (simp_all add: that(1) next_tick_def)

lemma sub_step_wf: "ds_wf s \<Longrightarrow> ds_wf (sub_step op s)"
proof (cases op)
  case TickOp
  assume "ds_wf s"
  with TickOp show ?thesis
    by (cases s rule: next_tick_cases) (auto simp: ds_wf_def scheduled_def closes_of_def simp del: sum_list_eq_0_iff split: if_splits)
next
  case OnClosedOp
  assume "ds_wf s"
  with OnClosedOp show ?thesis
    by (cases "ds_pendingCloseReason s") (auto simp: ds_wf_def scheduled_def closes_of_def on_closed_def simp del: sum_list_eq_0_iff split: if_splits)
qed (auto simp: ds_wf_def scheduled_def closes_of_def ds_defs simp del: sum_list_eq_0_iff split: if_splits)

definition accepted :: "'p sub_op \<Rightarrow> 'p subscription \<Rightarrow> 'p list" where
  "accepted op s = (case op of EmitOp p \<Rightarrow> if ds_closed s then [] else [p] | _ \<Rightarrow> [])"

lemma events_of_step:
  assumes "ds_wf s"
  shows "mset (events_of (sub_step op s)) = mset (events_of s) + mset (accepted op s)"
proof (cases op)
  case TickOp
  with assms show ?thesis
    by (cases s rule: next_tick_cases)
      (auto simp: ds_wf_def events_of_def scheduled_def accepted_def split: if_splits)
next
  case OnClosedOp
  with assms show ?thesis
    by (cases "ds_pendingCloseReason s") (auto simp: events_of_def scheduled_def accepted_def on_closed_def)
qed (use assms in \<open>auto simp: ds_wf_def events_of_def scheduled_def accepted_def ds_defs split: if_splits\<close>)

text \<open>No event arrives while older ones wait for their tick: then order is kept as well.\<close>

definition in_turn :: "'p sub_op \<Rightarrow> 'p subscription \<Rightarrow> bool" where
  "in_turn op s \<longleftrightarrow> (case op of EmitOp _ \<Rightarrow> scheduled s = [] | _ \<Rightarrow> True)"

lemma events_of_step_order:
  assumes "ds_wf s" and "in_turn op s"
  shows "events_of (sub_step op s) = events_of s @ accepted op s"
proof (cases op)
  case TickOp
  with assms show ?thesis
    by (cases s rule: next_tick_cases)
      (auto simp: ds_wf_def events_of_def scheduled_def accepted_def split: if_splits)
next
  case OnClosedOp
  with assms show ?thesis
    by (cases "ds_pendingCloseReason s") (auto simp: events_of_def scheduled_def accepted_def on_closed_def)
next
  case (EmitOp p)
  with assms have "scheduled s = []" by (simp add: in_turn_def)
  with EmitOp assms(1) show ?thesis
    by (simp add: ds_wf_def events_of_def accepted_def emitEvent_def scheduled_def del: concat_eq_Nil_conv split: if_splits)
qed (use assms in \<open>auto simp: ds_wf_def events_of_def scheduled_def accepted_def ds_defs split: if_splits\<close>)

section \<open>Runs\<close>

primrec sub_run :: "'p sub_op list \<Rightarrow> 'p subscription \<Rightarrow> 'p subscription" where
  "sub_run [] s = s"
| "sub_run (op # ops) s = sub_run ops (sub_step op s)"

primrec accepted_run :: "'p sub_op list \<Rightarrow> 'p subscription \<Rightarrow> 'p list" where
  "accepted_run [] s = []"
| "accepted_run (op # ops) s = accepted op s @ accepted_run ops (sub_step op s)"

primrec in_turn_run :: "'p sub_op list \<Rightarrow> 'p subscription \<Rightarrow> bool" where
  "in_turn_run [] s \<longleftrightarrow> True"
| "in_turn_run (op # ops) s \<longleftrightarrow> in_turn op s \<and> in_turn_run ops (sub_step op s)"

lemma sub_run_wf: "ds_wf s \<Longrightarrow> ds_wf (sub_run ops s)"
  by (induction ops arbitrary: s) (simp_all add: sub_step_wf)

lemma events_of_run:
  "ds_wf s \<Longrightarrow> mset (events_of (sub_run ops s)) = mset (events_of s) + mset (accepted_run ops s)"
  by (induction ops arbitrary: s) (simp_all add: sub_step_wf events_of_step add.assoc)

lemma events_of_run_order:
  "ds_wf s \<Longrightarrow> in_turn_run ops s \<Longrightarrow> events_of (sub_run ops s) = events_of s @ accepted_run ops s"
  by (induction ops arbitrary: s) (simp_all add: sub_step_wf events_of_step_order)

lemma events_of_new [simp]: "events_of (ds_new i t) = []"
  by (simp add: events_of_def ds_new_def received_def scheduled_def)

text \<open>
  C7: Buffering loses and repeats nothing: over any interleaving of pushes, closes, listener attachments
  and ticks, each event taken before the close is exactly once at the first listener, in a
  scheduled drain, or still buffered; once a listener is attached and the ticks have run, it has had them
  all, whether or not the subscription has closed meanwhile.
\<close>

theorem subscription_exactly_once:
  "mset (events_of (sub_run ops (ds_new i t))) = mset (accepted_run ops (ds_new i t)) \<and>
   (0 < ds_eventListeners (sub_run ops (ds_new i t)) \<and> ds_tasks (sub_run ops (ds_new i t)) = [] \<longrightarrow>
      mset (received (sub_run ops (ds_new i t))) = mset (accepted_run ops (ds_new i t)))"
proof -
  let ?s = "sub_run ops (ds_new i t)"
  have all: "mset (events_of ?s) = mset (accepted_run ops (ds_new i t))"
    by (simp add: events_of_run)
  moreover have "events_of ?s = received ?s" if "0 < ds_eventListeners ?s" "ds_tasks ?s = []"
    using that sub_run_wf [OF ds_wf_new, of ops i t] by (simp add: ds_wf_def events_of_def scheduled_def)
  ultimately show ?thesis by auto
qed

theorem subscription_exactly_once_witness:
  "let s = sub_run [EmitOp (7 :: nat), OnEventOp, EmitOp 8, TickOp, NotifyOp ClientRequested, EmitOp 9] (ds_new 1 LogTail)
   in mset (received s) = {#7, 8#}"
proof -
  let ?ops = "[EmitOp (7 :: nat), OnEventOp, EmitOp 8, TickOp, NotifyOp ClientRequested, EmitOp 9]"
  have "accepted_run ?ops (ds_new 1 LogTail) = [7, 8]" and "ds_tasks (sub_run ?ops (ds_new 1 LogTail)) = []"
    and "ds_eventListeners (sub_run ?ops (ds_new 1 LogTail)) = 1"
    by (simp_all add: accepted_def ds_defs ds_new_def ds_emit_event_def ds_emit_closed_def)
  with subscription_exactly_once [of ?ops 1 LogTail] show ?thesis
    by (simp del: sub_run.simps accepted_run.simps)
qed

text \<open>
  Events keep their order when none is pushed between a listener's attachment and the tick that
  drains the buffer. Without that they need not: an event pushed in between overtakes the buffered
  ones.
\<close>

theorem subscription_order:
  "(in_turn_run ops (ds_new i t) \<longrightarrow> events_of (sub_run ops (ds_new i t)) = accepted_run ops (ds_new i t)) \<and>
   received (sub_run [EmitOp p, OnEventOp, EmitOp q, TickOp] (ds_new i t)) = [q, p]"
proof -
  have "received (sub_run [EmitOp p, OnEventOp, EmitOp q, TickOp] (ds_new i t)) = [q, p]"
    by (simp add: ds_defs ds_new_def ds_emit_event_def received_def)
  then show ?thesis using events_of_run_order [OF ds_wf_new, of ops i t] by simp
qed

theorem subscription_order_witness:
  "events_of (sub_run [EmitOp (1 :: nat), EmitOp 2, OnEventOp, TickOp, EmitOp 3] (ds_new 1 LogTail)) = [1, 2, 3]"
proof -
  let ?ops = "[EmitOp (1 :: nat), EmitOp 2, OnEventOp, TickOp, EmitOp 3]"
  have "in_turn_run ?ops (ds_new 1 LogTail)" "accepted_run ?ops (ds_new 1 LogTail) = [1, 2, 3]"
    by (simp_all add: in_turn_def accepted_def scheduled_def ds_defs ds_new_def ds_emit_event_def)
  with subscription_order [of ?ops 1 LogTail 0 0] show ?thesis by argo
qed

text \<open>
  A close is signalled once: however often the transport and the consumer close a subscription, the first
  closed-listener is called at most once over any run, exactly once when it is attached and the ticks have
  run after a close, and never before one.
\<close>

theorem subscription_closed_once:
  "closes_of (sub_run ops (ds_new i t)) = (if ds_closed (sub_run ops (ds_new i t)) then 1 else 0) \<and>
   (0 < ds_closedListeners (sub_run ops (ds_new i t)) \<and> ds_tasks (sub_run ops (ds_new i t)) = [] \<longrightarrow>
      closes_received (sub_run ops (ds_new i t)) = (if ds_closed (sub_run ops (ds_new i t)) then 1 else 0))"
  using sub_run_wf [OF ds_wf_new, of ops i t]
  by (auto simp: ds_wf_def closes_of_def simp del: sum_list_eq_0_iff)

theorem subscription_closed_once_witness:
  "closes_received (sub_run [NotifyOp ServerShutdown, OnClosedOp, NotifyOp ClientRequested, TickOp]
     (ds_new 1 LogTail :: nat subscription)) = 1"
proof -
  let ?s = "sub_run [NotifyOp ServerShutdown, OnClosedOp, NotifyOp ClientRequested, TickOp]
     (ds_new 1 LogTail :: nat subscription)"
  have "ds_closedListeners ?s = 1" "ds_tasks ?s = []" "ds_closed ?s"
    by (simp_all add: ds_defs ds_new_def ds_emit_closed_def)
  with subscription_closed_once [of "[NotifyOp ServerShutdown, OnClosedOp, NotifyOp ClientRequested, TickOp]" 1 LogTail]
  show ?thesis by (metis less_numeral_extra(1))
qed

end
