(* ===== verification/Stream_Client.thy ===== *)
theory Stream_Client
  imports Subscription
begin

text \<open>
  \<open>debugging-client-shared/src/net/WebSocketStreamClient.ts\<close>: the client end of the stream transport.
  \<open>cl_subs\<close> holds the keys of the \<open>subs\<close> map in insertion order; the records themselves are the
  objects \<open>cl_objects\<close>, which the consumer keeps after the map has dropped them. \<open>cl_sent\<close> logs the
  frames given to the socket. A promise that settles keeps its first outcome.
\<close>

section \<open>State\<close>

datatype ack_state = AckPending | AckResolved | AckRejected string

type_synonym payload = "json option"

record client_sub =
  as_subscription :: "payload subscription"
  as_ack :: ack_state

record stream_client =
  cl_ws :: "ready_state option"
  cl_nextId :: sub_id
  cl_subs :: "sub_id list"
  cl_objects :: "sub_id \<rightharpoonup> client_sub"
  cl_sent :: "stream_frame list"

definition InitialSubscriptionId :: sub_id where "InitialSubscriptionId = 1"

definition cl_new :: stream_client where
  "cl_new = \<lparr>cl_ws = None, cl_nextId = InitialSubscriptionId, cl_subs = [], cl_objects = Map.empty, cl_sent = []\<rparr>"

section \<open>Operations\<close>

definition update_sub :: "(client_sub \<Rightarrow> client_sub) \<Rightarrow> sub_id \<Rightarrow> stream_client \<Rightarrow> stream_client" where
  "update_sub f i c =
     (case cl_objects c i of None \<Rightarrow> c | Some rec \<Rightarrow> c\<lparr>cl_objects := (cl_objects c)(i \<mapsto> f rec)\<rparr>)"

fun settle :: "ack_state \<Rightarrow> ack_state \<Rightarrow> ack_state" where
  "settle outcome AckPending = outcome"
| "settle outcome a = a"

definition ack_settle :: "ack_state \<Rightarrow> client_sub \<Rightarrow> client_sub" where
  "ack_settle outcome rec = rec\<lparr>as_ack := settle outcome (as_ack rec)\<rparr>"

definition with_subscription :: "(payload subscription \<Rightarrow> payload subscription) \<Rightarrow> client_sub \<Rightarrow> client_sub" where
  "with_subscription f rec = rec\<lparr>as_subscription := f (as_subscription rec)\<rparr>"

definition cl_send :: "stream_frame \<Rightarrow> stream_client \<Rightarrow> stream_client" where
  "cl_send frame c = (if cl_ws c = Some OPEN then c\<lparr>cl_sent := cl_sent c @ [frame]\<rparr> else c)"

text \<open>\<open>connect\<close> up to its await, and the two events that settle it.\<close>

definition cl_connect :: "stream_client \<Rightarrow> stream_client" where
  "cl_connect c = (if cl_ws c \<noteq> None then c else c\<lparr>cl_ws := Some CONNECTING\<rparr>)"

definition ws_becomes :: "ready_state \<Rightarrow> stream_client \<Rightarrow> stream_client" where
  "ws_becomes r c = c\<lparr>cl_ws := map_option (max r) (cl_ws c)\<rparr>"

definition close_all :: "(client_sub \<Rightarrow> client_sub) \<Rightarrow> stream_client \<Rightarrow> stream_client" where
  "close_all f c = (fold (update_sub f) (cl_subs c) c)\<lparr>cl_subs := []\<rparr>"

definition cl_disconnect :: "stream_client \<Rightarrow> stream_client" where
  "cl_disconnect c =
     (let c1 = close_all (with_subscription (notifyClosed ServerShutdown)) c
      in if cl_ws c1 = None then c1 else c1\<lparr>cl_ws := None\<rparr>)"

definition cl_subscribe :: "stream_topic \<Rightarrow> payload \<Rightarrow> stream_client \<Rightarrow> (string + sub_id) \<times> stream_client" where
  "cl_subscribe topic params c =
     (if cl_ws c = None then (Inl ''WebSocketStreamClient: connect() before subscribe()'', c)
      else (let i = cl_nextId c;
                c1 = c\<lparr>cl_nextId := cl_nextId c + 1\<rparr>;
                rec = \<lparr>as_subscription = ds_new i topic, as_ack = AckPending\<rparr>;
                c2 = c1\<lparr>cl_subs := cl_subs c1 @ [i], cl_objects := (cl_objects c1)(i \<mapsto> rec)\<rparr>
            in (Inr i, cl_send (SubscribeFrame i (topic_name topic) params) c2)))"

definition cl_handle :: "stream_frame \<Rightarrow> stream_client \<Rightarrow> stream_client" where
  "cl_handle frame c =
     (case frame of
        SubscribedFrame i \<Rightarrow> if i \<in> set (cl_subs c) then update_sub (ack_settle AckResolved) i c else c
      | EventFrame i payload \<Rightarrow>
          if i \<in> set (cl_subs c) then update_sub (with_subscription (emitEvent payload)) i c else c
      | ClosedFrame i reason \<Rightarrow>
          if i \<in> set (cl_subs c)
          then update_sub (with_subscription (notifyClosed reason)) i (c\<lparr>cl_subs := removeAll i (cl_subs c)\<rparr>)
          else c
      | ErrorFrame _ message \<Rightarrow>
          close_all (\<lambda>rec. with_subscription (notifyClosed InternalError) (ack_settle (AckRejected message) rec)) c
      | _ \<Rightarrow> c)"

definition cl_onMessage :: "json \<Rightarrow> stream_client \<Rightarrow> stream_client" where
  "cl_onMessage raw c = (case frame_deserialize raw of None \<Rightarrow> c | Some frame \<Rightarrow> cl_handle frame c)"

definition cl_onClose :: "stream_client \<Rightarrow> stream_client" where
  "cl_onClose c = (close_all (with_subscription (notifyClosed ServerShutdown)) c)\<lparr>cl_ws := None\<rparr>"

definition cl_sendUnsubscribe :: "sub_id \<Rightarrow> closed_reason \<Rightarrow> stream_client \<Rightarrow> stream_client" where
  "cl_sendUnsubscribe i reason c =
     (if i \<notin> set (cl_subs c) then c
      else cl_send (UnsubscribeFrame i) (c\<lparr>cl_subs := removeAll i (cl_subs c)\<rparr>))"

text \<open>The consumer calls \<open>close\<close> on a subscription it was given.\<close>

definition cl_consumer_close :: "sub_id \<Rightarrow> closed_reason \<Rightarrow> stream_client \<Rightarrow> stream_client" where
  "cl_consumer_close i reason c =
     (case cl_objects c i of
        None \<Rightarrow> c
      | Some rec \<Rightarrow>
          (case ds_close (cl_sendUnsubscribe i) reason (c, as_subscription rec) of
             (c1, s) \<Rightarrow> update_sub (with_subscription (\<lambda>_. s)) i c1))"

datatype client_op =
  ConnectOp | SocketOp ready_state | DisconnectOp | SubscribeOp stream_topic payload | MessageOp json | SocketClosedOp
| ConsumerCloseOp sub_id closed_reason | ListenOp sub_id | ListenClosedOp sub_id | ImmediateOp sub_id

fun client_step :: "client_op \<Rightarrow> stream_client \<Rightarrow> stream_client" where
  "client_step ConnectOp c = cl_connect c"
| "client_step (SocketOp r) c = ws_becomes r c"
| "client_step DisconnectOp c = cl_disconnect c"
| "client_step (SubscribeOp topic params) c = snd (cl_subscribe topic params c)"
| "client_step (MessageOp raw) c = cl_onMessage raw c"
| "client_step SocketClosedOp c = cl_onClose c"
| "client_step (ConsumerCloseOp i reason) c = cl_consumer_close i reason c"
| "client_step (ListenOp i) c = update_sub (with_subscription on_event) i c"
| "client_step (ListenClosedOp i) c = update_sub (with_subscription on_closed) i c"
| "client_step (ImmediateOp i) c = update_sub (with_subscription next_tick) i c"

inductive client_reachable :: "stream_client \<Rightarrow> bool" where
  reachable_new: "client_reachable cl_new"
| reachable_step: "client_reachable c \<Longrightarrow> client_reachable (client_step op c)"

inductive_cases client_reachableE: "client_reachable c"

section \<open>One subscription at a time\<close>

lemma update_sub_simps [simp]:
  "cl_ws (update_sub f i c) = cl_ws c" "cl_nextId (update_sub f i c) = cl_nextId c"
  "cl_subs (update_sub f i c) = cl_subs c" "cl_sent (update_sub f i c) = cl_sent c"
  by (simp_all add: update_sub_def split: option.split)

lemma update_sub_objects:
  "cl_objects (update_sub f i c) j = (if j = i then map_option f (cl_objects c i) else cl_objects c j)"
  by (simp add: update_sub_def split: option.split)

lemma fold_update_sub_simps [simp]:
  "cl_ws (fold (update_sub f) is c) = cl_ws c" "cl_nextId (fold (update_sub f) is c) = cl_nextId c"
  "cl_subs (fold (update_sub f) is c) = cl_subs c" "cl_sent (fold (update_sub f) is c) = cl_sent c"
  by (induction "is" arbitrary: c) simp_all

lemma fold_update_sub_objects:
  "distinct is \<Longrightarrow> cl_objects (fold (update_sub f) is c) j = (if j \<in> set is then map_option f (cl_objects c j) else cl_objects c j)"
  by (induction "is" arbitrary: c) (auto simp: update_sub_objects)

lemma close_all_simps [simp]:
  "cl_ws (close_all f c) = cl_ws c" "cl_nextId (close_all f c) = cl_nextId c"
  "cl_subs (close_all f c) = []" "cl_sent (close_all f c) = cl_sent c"
  by (simp_all add: close_all_def)

lemma close_all_objects:
  "distinct (cl_subs c) \<Longrightarrow>
   cl_objects (close_all f c) j = (if j \<in> set (cl_subs c) then map_option f (cl_objects c j) else cl_objects c j)"
  by (simp add: close_all_def fold_update_sub_objects)

lemma cl_send_simps [simp]:
  "cl_ws (cl_send f c) = cl_ws c" "cl_nextId (cl_send f c) = cl_nextId c"
  "cl_subs (cl_send f c) = cl_subs c" "cl_objects (cl_send f c) = cl_objects c"
  by (simp_all add: cl_send_def)

lemma notifyClosed_closed [simp]: "ds_closed (notifyClosed r s)"
  by (simp add: notifyClosed_def Let_def)

lemma notifyClosed_id [simp]: "ds_id (notifyClosed r s) = ds_id s"
  by (simp add: notifyClosed_def Let_def ds_emit_closed_def)

lemma notifyClosed_wf: "ds_wf s \<Longrightarrow> ds_wf (notifyClosed r s)"
  using sub_step_wf [of s "NotifyOp r"] by simp

lemma fold_emit_id [simp]: "ds_id (fold ds_emit_event ps s) = ds_id s"
  by (induction ps arbitrary: s) (simp_all add: ds_emit_event_def)

lemma sub_step_keeps:
  "ds_id (sub_step op s) = ds_id s \<and> (ds_closed (sub_step op s) \<longleftrightarrow> ds_closed s \<or> (\<exists>r. op = NotifyOp r))"
proof (cases op)
  case TickOp
  then show ?thesis by (cases s rule: next_tick_cases) (simp_all add: ds_emit_closed_def)
next
  case OnClosedOp
  then show ?thesis by (simp add: on_closed_def Let_def split: option.split)
qed (simp_all add: emitEvent_def ds_emit_event_def on_event_def Let_def)

section \<open>The registry invariant\<close>

text \<open>
  The map holds exactly the subscriptions that are open; ids are allocated upwards and never used twice.
\<close>

definition client_wf :: "stream_client \<Rightarrow> bool" where
  "client_wf c \<longleftrightarrow>
     distinct (cl_subs c) \<and>
     (\<forall>i. i \<in> set (cl_subs c) \<longleftrightarrow> (\<exists>rec. cl_objects c i = Some rec \<and> \<not> ds_closed (as_subscription rec))) \<and>
     (\<forall>i rec. cl_objects c i = Some rec \<longrightarrow> i < cl_nextId c \<and> ds_id (as_subscription rec) = i \<and> ds_wf (as_subscription rec))"

lemma client_wfD:
  assumes "client_wf c"
  shows "distinct (cl_subs c)"
    and "i \<in> set (cl_subs c) \<longleftrightarrow> (\<exists>rec. cl_objects c i = Some rec \<and> \<not> ds_closed (as_subscription rec))"
    and "cl_objects c i = Some rec \<Longrightarrow> i < cl_nextId c \<and> ds_id (as_subscription rec) = i \<and> ds_wf (as_subscription rec)"
  using assms by (simp_all add: client_wf_def)

lemma wf_sub_op:
  assumes "client_wf c" and "\<And>s. f s = sub_step op s" and "\<And>r. op \<noteq> NotifyOp r"
  shows "client_wf (update_sub (with_subscription f) i c)"
  using assms sub_step_keeps [of op]
  by (auto simp: client_wf_def sub_step_wf update_sub_objects with_subscription_def split: if_splits)

lemma wf_close_all:
  assumes "client_wf c" and "\<And>rec. as_subscription (f rec) = notifyClosed r (as_subscription rec)"
  shows "client_wf (close_all f c)"
  using assms(2) client_wfD [OF assms(1)]
  by (auto simp: client_wf_def notifyClosed_wf close_all_objects split: if_splits)

lemma wf_close_one:
  assumes "client_wf c" and "cl_subs d = removeAll i (cl_subs c)" and "cl_objects d = cl_objects c"
    and "cl_nextId d = cl_nextId c"
  shows "client_wf (update_sub (with_subscription (notifyClosed r)) i d)"
  using assms by (auto simp: client_wf_def notifyClosed_wf update_sub_objects with_subscription_def distinct_removeAll split: if_splits)

lemma client_wf_ws [simp]: "client_wf (c\<lparr>cl_ws := w\<rparr>) = client_wf c"
  by (simp add: client_wf_def)

lemma ds_new_simps [simp]: "ds_id (ds_new i t) = i" "\<not> ds_closed (ds_new i t)"
  by (simp_all add: ds_new_def)

lemma wf_subscribe: "client_wf c \<Longrightarrow> client_wf (snd (cl_subscribe topic params c))"
  by (force simp: cl_subscribe_def Let_def client_wf_def split: if_splits)

lemma consumer_close_cases:
  assumes "client_wf c"
  obtains "cl_consumer_close i reason c = c"
  | rec where "i \<in> set (cl_subs c)" and "cl_objects c i = Some rec" and "\<not> ds_closed (as_subscription rec)"
    and "cl_consumer_close i reason c =
      update_sub (with_subscription (notifyClosed reason)) i
        (cl_send (UnsubscribeFrame i) (c\<lparr>cl_subs := removeAll i (cl_subs c)\<rparr>))"
proof (cases "cl_objects c i")
  case None
  then show thesis using that(1) by (simp add: cl_consumer_close_def)
next
  case (Some rec)
  show thesis
  proof (cases "ds_closed (as_subscription rec)")
    case True
    with Some that(1) show thesis
      by (simp add: cl_consumer_close_def ds_close_def update_sub_def with_subscription_def fun_upd_idem)
  next
    case False
    then have "i \<in> set (cl_subs c)" using client_wfD(2) [OF assms] Some by blast
    with Some False that(2) show thesis
      by (simp add: cl_consumer_close_def ds_close_def cl_sendUnsubscribe_def update_sub_def with_subscription_def)
  qed
qed

lemma ack_settle_wf: "client_wf c \<Longrightarrow> client_wf (update_sub (ack_settle a) i c)"
  by (auto simp: client_wf_def update_sub_objects ack_settle_def)

lemma handle_wf: "client_wf c \<Longrightarrow> client_wf (cl_handle f c)"
proof (cases f)
  case (EventFrame i p)
  assume "client_wf c"
  with EventFrame show ?thesis using wf_sub_op [of c "emitEvent p" "EmitOp p"] by (simp add: cl_handle_def)
next
  case (ClosedFrame i r)
  assume "client_wf c"
  with ClosedFrame show ?thesis by (simp add: cl_handle_def wf_close_one)
next
  case (ErrorFrame code m)
  assume "client_wf c"
  with ErrorFrame show ?thesis
    by (simp add: cl_handle_def wf_close_all [where r = InternalError] with_subscription_def ack_settle_def)
qed (simp_all add: cl_handle_def ack_settle_wf)

lemma client_step_wf: "client_wf c \<Longrightarrow> client_wf (client_step op c)"
proof (induction op c rule: client_step.induct)
  case (3 c)
  then show ?case by (simp add: cl_disconnect_def Let_def wf_close_all [where r = ServerShutdown] with_subscription_def)
next
  case (6 c)
  then show ?case by (simp add: cl_onClose_def wf_close_all [where r = ServerShutdown] with_subscription_def)
next
  case (7 i reason c)
  then show ?case by (cases rule: consumer_close_cases [OF 7(1), of i reason]) (simp_all add: wf_close_one)
next
  case (8 i c)
  then show ?case using wf_sub_op [of c on_event OnEventOp] by simp
next
  case (9 i c)
  then show ?case using wf_sub_op [of c on_closed OnClosedOp] by simp
next
  case (10 i c)
  then show ?case using wf_sub_op [of c next_tick TickOp] by simp
qed (simp_all add: cl_connect_def ws_becomes_def wf_subscribe cl_onMessage_def handle_wf split: option.split)

lemma client_new_wf: "client_wf cl_new"
  by (simp add: client_wf_def cl_new_def)

lemma client_reachable_wf: "client_reachable c \<Longrightarrow> client_wf c"
  by (induction rule: client_reachable.induct) (simp_all add: client_new_wf client_step_wf)

section \<open>Frames sent\<close>

fun subscribes :: "stream_frame \<Rightarrow> sub_id list" where
  "subscribes (SubscribeFrame i _ _) = [i]"
| "subscribes _ = []"

fun unsubscribes :: "stream_frame \<Rightarrow> sub_id list" where
  "unsubscribes (UnsubscribeFrame i) = [i]"
| "unsubscribes _ = []"

definition sent_wf :: "stream_client \<Rightarrow> bool" where
  "sent_wf c \<longleftrightarrow>
     (let ss = concat (map subscribes (cl_sent c)); us = concat (map unsubscribes (cl_sent c))
      in distinct ss \<and> distinct us \<and> (\<forall>i \<in> set ss. i < cl_nextId c) \<and>
         (\<forall>i \<in> set us. i < cl_nextId c \<and> i \<notin> set (cl_subs c)))"

lemma sent_wf_keep:
  assumes "sent_wf c" and "cl_sent d = cl_sent c" and "set (cl_subs d) \<subseteq> set (cl_subs c)" and "cl_nextId d = cl_nextId c"
  shows "sent_wf d"
  using assms by (auto simp: sent_wf_def Let_def)

lemma handle_keeps_sent:
  "cl_sent (cl_handle f c) = cl_sent c \<and> set (cl_subs (cl_handle f c)) \<subseteq> set (cl_subs c) \<and> cl_nextId (cl_handle f c) = cl_nextId c"
  by (auto simp: cl_handle_def split: stream_frame.split)

lemma sent_wf_subscribe:
  assumes "sent_wf c"
  shows "sent_wf (snd (cl_subscribe topic params c))"
  using assms by (force simp: cl_subscribe_def cl_send_def sent_wf_def Let_def)

lemma sent_wf_unsubscribe:
  assumes "sent_wf c" and "client_wf c" and "i \<in> set (cl_subs c)"
  shows "sent_wf (update_sub f i (cl_send (UnsubscribeFrame i) (c\<lparr>cl_subs := removeAll i (cl_subs c)\<rparr>)))"
  using assms client_wfD(2,3) [OF assms(2), of i] by (auto simp: cl_send_def sent_wf_def Let_def)

lemma client_step_sent_wf: "sent_wf c \<Longrightarrow> client_wf c \<Longrightarrow> sent_wf (client_step op c)"
proof (induction op c rule: client_step.induct)
  case (3 c)
  then show ?case by (auto simp: cl_disconnect_def Let_def intro: sent_wf_keep)
next
  case (4 topic params c)
  then show ?case by (simp add: sent_wf_subscribe)
next
  case (5 raw c)
  then show ?case using handle_keeps_sent by (auto simp: cl_onMessage_def intro: sent_wf_keep split: option.split)
next
  case (6 c)
  then show ?case by (auto simp: cl_onClose_def intro: sent_wf_keep)
next
  case (7 i reason c)
  then show ?case by (cases rule: consumer_close_cases [OF 7(2), of i reason]) (simp_all add: sent_wf_unsubscribe)
qed (auto simp: cl_connect_def ws_becomes_def elim: sent_wf_keep)

lemma client_reachable_sent: "client_reachable c \<Longrightarrow> sent_wf c"
  by (induction rule: client_reachable.induct)
    (simp_all add: client_step_sent_wf client_reachable_wf, simp add: sent_wf_def cl_new_def)

text \<open>
  C6: In every reachable client state the map routes to exactly the subscriptions that are still open; a
  subscription id is subscribed at most once and unsubscribed at most once, never while it is
  still in the map.
\<close>

theorem client_registry:
  assumes "client_reachable c"
  shows "(i \<in> set (cl_subs c) \<longleftrightarrow> (\<exists>rec. cl_objects c i = Some rec \<and> \<not> isClosed (as_subscription rec))) \<and>
         distinct (concat (map subscribes (cl_sent c))) \<and> distinct (concat (map unsubscribes (cl_sent c))) \<and>
         (i \<in> set (concat (map unsubscribes (cl_sent c))) \<longrightarrow> i \<notin> set (cl_subs c))"
  using client_wfD(2) [OF client_reachable_wf [OF assms], of i] client_reachable_sent [OF assms]
  by (auto simp: isClosed_def sent_wf_def Let_def)

lemma reachable_run: "client_reachable (fold client_step ops cl_new)"
proof -
  have "client_reachable c \<Longrightarrow> client_reachable (fold client_step ops c)" for c
    by (induction ops arbitrary: c) (simp_all add: reachable_step)
  then show ?thesis by (simp add: reachable_new)
qed

theorem client_registry_witness:
  "let c = fold client_step [ConnectOp, SocketOp OPEN, SubscribeOp LogTail None, SubscribeOp ProcessLiveness None,
             ConsumerCloseOp 1 ClientRequested] cl_new
   in cl_subs c = [2] \<and> distinct (concat (map unsubscribes (cl_sent c)))"
proof -
  let ?ops = "[ConnectOp, SocketOp OPEN, SubscribeOp LogTail None, SubscribeOp ProcessLiveness None,
             ConsumerCloseOp 1 ClientRequested]"
  have "cl_subs (fold client_step ?ops cl_new) = [2]"
    by (simp add: cl_connect_def ws_becomes_def max_def ready_le_defs cl_subscribe_def cl_consumer_close_def ds_close_def
        cl_sendUnsubscribe_def cl_new_def InitialSubscriptionId_def cl_send_def)
  with client_registry [OF reachable_run [of ?ops]] show ?thesis by metis
qed

section \<open>Routing\<close>

text \<open>
  An event frame reaches the subscription it names and no other, and only while that is open; any frame
  for an id that is not in the map, and any text the schema refuses, changes no subscription.
\<close>

theorem client_routing:
  assumes "client_reachable c"
  shows "cl_objects (cl_onMessage (frame_serialize (EventFrame i p)) c) j =
           map_option (\<lambda>rec. if j = i then with_subscription (emitEvent p) rec else rec) (cl_objects c j) \<and>
         (frame_deserialize raw = None \<longrightarrow> cl_onMessage raw c = c) \<and>
         (i \<notin> set (cl_subs c) \<longrightarrow>
            cl_handle (EventFrame i p) c = c \<and> cl_handle (SubscribedFrame i) c = c \<and> cl_handle (ClosedFrame i r) c = c)"
proof -
  have closed: "with_subscription (emitEvent p) rec = rec" if "cl_objects c i = Some rec" "i \<notin> set (cl_subs c)" for rec
    using that client_wfD(2) [OF client_reachable_wf [OF assms], of i]
    by (auto simp: with_subscription_def emitEvent_def)
  show ?thesis
    by (cases "cl_objects c j")
      (auto simp: cl_onMessage_def frame_roundtrip cl_handle_def update_sub_objects closed)
qed

theorem client_routing_witness:
  "let c = fold client_step [ConnectOp, SocketOp OPEN, SubscribeOp LogTail None] cl_new
   in cl_objects (cl_onMessage (frame_serialize (EventFrame 5 None)) c) 1 = cl_objects c 1"
  using client_routing [OF reachable_run [of "[ConnectOp, SocketOp OPEN, SubscribeOp LogTail None]"], of 5 None 1]
  by (simp add: Let_def option.map_ident)

section \<open>A closed subscription stays as it is\<close>

definition same_content :: "client_sub \<Rightarrow> client_sub \<Rightarrow> bool" where
  "same_content r q \<longleftrightarrow>
     ds_closed (as_subscription q) \<and> as_ack q = as_ack r \<and>
     mset (events_of (as_subscription q)) = mset (events_of (as_subscription r)) \<and>
     closes_of (as_subscription q) = closes_of (as_subscription r)"

lemma same_content_refl: "ds_closed (as_subscription r) \<Longrightarrow> same_content r r"
  by (simp add: same_content_def)

lemma same_content_trans: "same_content a b \<Longrightarrow> same_content b c \<Longrightarrow> same_content a c"
  by (simp add: same_content_def)

lemma same_content_sub_step:
  assumes "ds_closed (as_subscription r)" and "ds_wf (as_subscription r)" and "\<And>s. f s = sub_step op s"
  shows "same_content r (with_subscription f r)"
proof -
  let ?s = "as_subscription r"
  have "ds_closed (sub_step op ?s)" using sub_step_keeps [of op ?s] assms(1) by simp
  moreover have "accepted op ?s = []" using assms(1) by (simp add: accepted_def split: sub_op.split)
  ultimately show ?thesis
    using assms events_of_step [OF assms(2), of op] sub_step_wf [OF assms(2), of op]
    by (simp add: same_content_def with_subscription_def ds_wf_def)
qed

lemma closed_not_in_map:
  "client_wf c \<Longrightarrow> cl_objects c i = Some r \<Longrightarrow> ds_closed (as_subscription r) \<Longrightarrow> i \<notin> set (cl_subs c)"
  using client_wfD(2) by auto

lemma closed_handle:
  "client_wf c \<Longrightarrow> i \<notin> set (cl_subs c) \<Longrightarrow> cl_objects (cl_handle f c) i = cl_objects c i"
  by (auto simp: cl_handle_def update_sub_objects close_all_objects client_wfD(1) split: stream_frame.split)

lemma listener_step:
  assumes "client_wf c" "cl_objects c i = Some r" "ds_closed (as_subscription r)" "\<And>s. f s = sub_step op s"
  shows "\<exists>q. cl_objects (update_sub (with_subscription f) j c) i = Some q \<and> same_content r q"
proof (cases "i = j")
  case True
  with assms client_wfD(3) [OF assms(1,2)] show ?thesis
    by (simp add: update_sub_objects same_content_sub_step [where op = op])
qed (use assms in \<open>simp add: update_sub_objects same_content_refl\<close>)

lemma closed_step:
  assumes "client_wf c" "cl_objects c i = Some r" "ds_closed (as_subscription r)"
  shows "\<exists>q. cl_objects (client_step op c) i = Some q \<and> same_content r q"
proof -
  note out = closed_not_in_map [OF assms]
  have keep: ?thesis if "cl_objects (client_step op c) i = cl_objects c i"
    using that assms by (simp add: same_content_refl)
  show ?thesis
  proof (cases op)
    case (SubscribeOp t ps)
    have "i \<noteq> cl_nextId c" using client_wfD(3) [OF assms(1,2)] by auto
    with SubscribeOp show ?thesis by (intro keep) (simp add: cl_subscribe_def Let_def)
  next
    case (MessageOp raw)
    with out assms(1) show ?thesis by (intro keep) (simp add: cl_onMessage_def closed_handle split: option.split)
  next
    case (ConsumerCloseOp j reason)
    show ?thesis
    proof (rule keep, cases rule: consumer_close_cases [OF assms(1), of j reason])
      case (2 rec)
      with out ConsumerCloseOp show "cl_objects (client_step op c) i = cl_objects c i"
        by (auto simp: update_sub_objects)
    qed (simp add: ConsumerCloseOp)
  next
    case (ListenOp j)
    then show ?thesis using listener_step [OF assms, of on_event OnEventOp j] by simp
  next
    case (ListenClosedOp j)
    then show ?thesis using listener_step [OF assms, of on_closed OnClosedOp j] by simp
  next
    case (ImmediateOp j)
    then show ?thesis using listener_step [OF assms, of next_tick TickOp j] by simp
  qed (rule keep, use out client_wfD(1) [OF assms(1)] in
      \<open>simp add: cl_connect_def ws_becomes_def cl_disconnect_def cl_onClose_def Let_def close_all_objects\<close>)+
qed

lemma closed_run:
  assumes "client_wf c" "cl_objects c i = Some r" "ds_closed (as_subscription r)"
  shows "\<exists>q. cl_objects (fold client_step ops c) i = Some q \<and> same_content r q"
  using assms
proof (induction ops arbitrary: c r)
  case (Cons op ops)
  obtain q where q: "cl_objects (client_step op c) i = Some q" "same_content r q"
    using closed_step [OF Cons.prems] by blast
  then have "ds_closed (as_subscription q)" by (simp add: same_content_def)
  from Cons.IH [OF client_step_wf [OF Cons.prems(1)] q(1) this] q(2) show ?case
    by (auto intro: same_content_trans)
qed (simp add: same_content_refl)

text \<open>
  Once a subscription is closed, by whichever side, nothing that happens later, no late frame of the
  server and no further close, adds an event or a second close signal to it.
\<close>

theorem client_closed_is_final:
  assumes "client_reachable c" and "cl_objects c i = Some r" and "isClosed (as_subscription r)"
  shows "\<exists>q. cl_objects (fold client_step ops c) i = Some q \<and> isClosed (as_subscription q) \<and>
             mset (events_of (as_subscription q)) = mset (events_of (as_subscription r)) \<and>
             closes_of (as_subscription q) = 1"
  using closed_run [OF client_reachable_wf [OF assms(1)] assms(2), of ops] assms
    client_wfD(3) [OF client_reachable_wf [OF assms(1)] assms(2)]
  by (auto simp: same_content_def isClosed_def ds_wf_def)

theorem client_closed_is_final_witness:
  "let c = fold client_step [ConnectOp, SocketOp OPEN, SubscribeOp LogTail None, ConsumerCloseOp 1 ClientRequested] cl_new;
       late = frame_serialize (EventFrame 1 None)
   in \<exists>q. cl_objects (cl_onMessage late c) 1 = Some q \<and> closes_of (as_subscription q) = 1"
proof -
  let ?ops = "[ConnectOp, SocketOp OPEN, SubscribeOp LogTail None, ConsumerCloseOp 1 ClientRequested]"
  let ?r = "\<lparr>as_subscription = notifyClosed ClientRequested (ds_new 1 LogTail), as_ack = AckPending\<rparr>"
  have "cl_objects (fold client_step ?ops cl_new) 1 = Some ?r"
    by (simp add: cl_connect_def ws_becomes_def max_def ready_le_defs cl_subscribe_def cl_consumer_close_def ds_close_def update_sub_def
        with_subscription_def cl_sendUnsubscribe_def cl_new_def InitialSubscriptionId_def cl_send_def)
  from client_closed_is_final [OF reachable_run this, of "[MessageOp (frame_serialize (EventFrame 1 None))]"]
  show ?thesis by (auto simp: Let_def isClosed_def)
qed

section \<open>A subscribe call that never returns\<close>

text \<open>
  When the connection closes, or the server closes the subscription, before it has acknowledged it, the
  record leaves the map with its acknowledgement unsettled, and no later operation settles it: the
  \<open>subscribe\<close> call that awaits it neither returns nor throws.
\<close>

theorem pending_subscribe_never_settles:
  assumes "client_reachable c" and "cl_objects c i = Some r" and "i \<in> set (cl_subs c)" and "as_ack r = AckPending"
    and "op = SocketClosedOp \<or> op = DisconnectOp \<or> op = MessageOp (frame_serialize (ClosedFrame i reason))"
  shows "\<exists>q. cl_objects (fold client_step ops (client_step op c)) i = Some q \<and> as_ack q = AckPending"
proof -
  note wf = client_reachable_wf [OF assms(1)]
  have "\<exists>q. cl_objects (client_step op c) i = Some q \<and> ds_closed (as_subscription q) \<and> as_ack q = AckPending"
    using assms(2-5) client_wfD(1) [OF wf]
    by (auto simp: cl_onClose_def cl_disconnect_def close_all_objects with_subscription_def Let_def
        cl_onMessage_def frame_roundtrip cl_handle_def update_sub_objects)
  then obtain q where q: "cl_objects (client_step op c) i = Some q" "ds_closed (as_subscription q)" "as_ack q = AckPending"
    by blast
  from closed_run [OF client_step_wf [OF wf] q(1,2), of ops] q(3) show ?thesis by (auto simp: same_content_def)
qed

theorem pending_subscribe_never_settles_witness:
  "let c = fold client_step [ConnectOp, SocketOp OPEN, SubscribeOp LogTail None] cl_new
   in \<exists>q. cl_objects (fold client_step [ConnectOp, SocketOp OPEN] (client_step SocketClosedOp c)) 1 = Some q \<and>
          as_ack q = AckPending"
proof -
  let ?ops = "[ConnectOp, SocketOp OPEN, SubscribeOp LogTail None]"
  let ?r = "\<lparr>as_subscription = ds_new 1 LogTail, as_ack = AckPending\<rparr>"
  have "cl_objects (fold client_step ?ops cl_new) 1 = Some ?r" "1 \<in> set (cl_subs (fold client_step ?ops cl_new))"
    by (simp_all add: cl_connect_def ws_becomes_def max_def ready_le_defs cl_subscribe_def cl_new_def InitialSubscriptionId_def cl_send_def)
  from pending_subscribe_never_settles [OF reachable_run this, of SocketClosedOp ClientRequested "[ConnectOp, SocketOp OPEN]"]
  show ?thesis by (simp add: Let_def)
qed

end
