(* ===== verification/Stream_Server.thy ===== *)
theory Stream_Server
  imports Stream_Protocol "HOL-Library.AList"
begin

text \<open>
  \<open>debugging-server/src/streams/StreamServer.ts\<close>: the server end of the stream transport. A connection
  is the number it was accepted under, a stream the number it was created under; the two-level
  \<open>subscriptions\<close> map is an association list per connection, in insertion order. Each \<open>await\<close> ends a
  step: \<open>stop()\<close> of a stream takes effect at once, the \<open>Closed\<close> frame follows in a step of its
  own, and what a stream does after \<open>start\<close> (emit at any time, or fail) are steps of the stream, whose own
  theory is \<open>Server_Streams\<close>. A stream is \<open>Stopped\<close> when its \<open>stop()\<close> was called. \<open>sv_out\<close> logs the frames the
  sockets were given.
\<close>

section \<open>State\<close>

datatype stream_life = Live | Stopped | Failed

record server_stream =
  ss_conn :: nat
  ss_id :: sub_id
  ss_topic :: stream_topic
  ss_life :: stream_life

record stream_server =
  sv_attached :: bool
  sv_ready :: "nat \<rightharpoonup> ready_state"
  sv_subs :: "nat \<rightharpoonup> (sub_id \<times> nat) list"
  sv_streams :: "nat \<rightharpoonup> server_stream"
  sv_nextConn :: nat
  sv_nextStream :: nat
  sv_closing :: "(nat \<times> sub_id) list"
  sv_out :: "(nat \<times> stream_frame) list"

definition sv_new :: stream_server where
  "sv_new = \<lparr>sv_attached = False, sv_ready = Map.empty, sv_subs = Map.empty, sv_streams = Map.empty,
     sv_nextConn = 0, sv_nextStream = 0, sv_closing = [], sv_out = []\<rparr>"

definition StreamPath :: string where "StreamPath = ''/api/stream''"

section \<open>Frame senders\<close>

definition safeSend :: "nat \<Rightarrow> stream_frame \<Rightarrow> stream_server \<Rightarrow> stream_server" where
  "safeSend ws frame s = (if sv_ready s ws \<noteq> Some OPEN then s else s\<lparr>sv_out := sv_out s @ [(ws, frame)]\<rparr>)"

definition sendEvent :: "nat \<Rightarrow> sub_id \<Rightarrow> json option \<Rightarrow> stream_server \<Rightarrow> stream_server" where
  "sendEvent ws i payload = safeSend ws (EventFrame i payload)"

definition sendSubscribed :: "nat \<Rightarrow> sub_id \<Rightarrow> stream_server \<Rightarrow> stream_server" where
  "sendSubscribed ws i = safeSend ws (SubscribedFrame i)"

definition sendClosed :: "nat \<Rightarrow> sub_id \<Rightarrow> closed_reason \<Rightarrow> stream_server \<Rightarrow> stream_server" where
  "sendClosed ws i reason = safeSend ws (ClosedFrame i reason)"

definition sendError :: "nat \<Rightarrow> stream_error_code \<Rightarrow> string \<Rightarrow> stream_server \<Rightarrow> stream_server" where
  "sendError ws code message = safeSend ws (ErrorFrame code message)"

section \<open>Connection lifecycle\<close>

definition set_life :: "stream_life \<Rightarrow> nat \<Rightarrow> stream_server \<Rightarrow> stream_server" where
  "set_life l h s = s\<lparr>sv_streams := (sv_streams s)(h := map_option (\<lambda>t. t\<lparr>ss_life := l\<rparr>) (sv_streams s h))\<rparr>"

definition stop_all :: "nat list \<Rightarrow> stream_server \<Rightarrow> stream_server" where
  "stop_all hs s = fold (set_life Stopped) hs s"

definition sv_attach :: "stream_server \<Rightarrow> stream_server" where
  "sv_attach s = s\<lparr>sv_attached := True\<rparr>"

definition onConnection :: "nat \<Rightarrow> stream_server \<Rightarrow> stream_server" where
  "onConnection ws s = s\<lparr>sv_subs := (sv_subs s)(ws \<mapsto> [])\<rparr>"

definition onUpgrade :: "string \<Rightarrow> stream_server \<Rightarrow> stream_server" where
  "onUpgrade url s =
     (if \<not> sv_attached s \<or> url \<noteq> StreamPath then s
      else (let ws = sv_nextConn s
            in onConnection ws (s\<lparr>sv_nextConn := ws + 1, sv_ready := (sv_ready s)(ws \<mapsto> OPEN)\<rparr>)))"

definition sv_onClose :: "nat \<Rightarrow> stream_server \<Rightarrow> stream_server" where
  "sv_onClose ws s =
     (case sv_subs s ws of
        None \<Rightarrow> s
      | Some perConn \<Rightarrow> stop_all (map snd perConn) (s\<lparr>sv_subs := (sv_subs s)(ws := None)\<rparr>))"

text \<open>\<open>detach\<close> up to its await (every subscription of every connection), and the rest of it.\<close>

definition detach_begin :: "stream_server \<Rightarrow> stream_server" where
  "detach_begin s =
     stop_all (concat (map (\<lambda>ws. case sv_subs s ws of None \<Rightarrow> [] | Some perConn \<Rightarrow> map snd perConn) [0..<sv_nextConn s])) s"

definition detach_end :: "stream_server \<Rightarrow> stream_server" where
  "detach_end s =
     s\<lparr>sv_subs := Map.empty, sv_ready := (\<lambda>ws. map_option (max CLOSING) (sv_ready s ws)), sv_attached := False\<rparr>"

section \<open>Subscribe and unsubscribe\<close>

definition handleSubscribe :: "nat \<Rightarrow> sub_id \<Rightarrow> string \<Rightarrow> stream_server \<Rightarrow> stream_server" where
  "handleSubscribe ws i topic s =
     (case sv_subs s ws of
        None \<Rightarrow> s
      | Some perConn \<Rightarrow>
          (case parse_topic topic of
             None \<Rightarrow> sendError ws UnknownTopic (''No such topic: '' @ topic) s
           | Some t \<Rightarrow>
               (let h = sv_nextStream s;
                    stream = \<lparr>ss_conn = ws, ss_id = i, ss_topic = t, ss_life = Live\<rparr>
                in sendSubscribed ws i
                     (s\<lparr>sv_nextStream := h + 1, sv_streams := (sv_streams s)(h \<mapsto> stream),
                        sv_subs := (sv_subs s)(ws \<mapsto> AList.update i h perConn)\<rparr>))))"

text \<open>\<open>stream.start\<close> of \<open>h\<close> rejects.\<close>

definition startFailed :: "nat \<Rightarrow> string \<Rightarrow> stream_server \<Rightarrow> stream_server" where
  "startFailed h message s =
     (case sv_streams s h of
        None \<Rightarrow> s
      | Some t \<Rightarrow>
          (let s1 = set_life Failed h s;
               s2 = s1\<lparr>sv_subs := (sv_subs s1)(ss_conn t := map_option (AList.delete (ss_id t)) (sv_subs s1 (ss_conn t)))\<rparr>
           in sendError (ss_conn t) CodeInternal (''Subscribe failed: '' @ message) s2))"

text \<open>The callback given to \<open>stream.start\<close>.\<close>

definition streamEmit :: "nat \<Rightarrow> json option \<Rightarrow> stream_server \<Rightarrow> stream_server" where
  "streamEmit h payload s =
     (case sv_streams s h of None \<Rightarrow> s | Some t \<Rightarrow> sendEvent (ss_conn t) (ss_id t) payload s)"

text \<open>\<open>handleUnsubscribe\<close> up to its await, and the acknowledgement that follows.\<close>

definition handleUnsubscribe :: "nat \<Rightarrow> sub_id \<Rightarrow> stream_server \<Rightarrow> stream_server" where
  "handleUnsubscribe ws i s =
     (case sv_subs s ws of
        None \<Rightarrow> s
      | Some perConn \<Rightarrow>
          (case map_of perConn i of
             None \<Rightarrow> s
           | Some h \<Rightarrow>
               set_life Stopped h
                 (s\<lparr>sv_subs := (sv_subs s)(ws \<mapsto> AList.delete i perConn), sv_closing := sv_closing s @ [(ws, i)]\<rparr>)))"

definition finishUnsubscribe :: "nat \<Rightarrow> sub_id \<Rightarrow> stream_server \<Rightarrow> stream_server" where
  "finishUnsubscribe ws i s =
     (if (ws, i) \<in> set (sv_closing s)
      then sendClosed ws i ClientRequested (s\<lparr>sv_closing := remove1 (ws, i) (sv_closing s)\<rparr>)
      else s)"

definition sv_onMessage :: "nat \<Rightarrow> json \<Rightarrow> stream_server \<Rightarrow> stream_server" where
  "sv_onMessage ws raw s =
     (case frame_deserialize raw of
        None \<Rightarrow> sendError ws ParseError ''Frame is not a valid StreamFrame'' s
      | Some (SubscribeFrame i topic params) \<Rightarrow> handleSubscribe ws i topic s
      | Some (UnsubscribeFrame i) \<Rightarrow> handleUnsubscribe ws i s
      | Some frame \<Rightarrow>
          sendError ws InvalidFrameType
            (''Server does not accept frames of type '' @ frame_type_name (frame_type frame)) s)"

datatype server_op =
  AttachOp | UpgradeOp string | MessageOp nat json | ReadyOp nat ready_state | ConnClosedOp nat
| EmitOp nat "json option" | StartFailedOp nat string | StopDoneOp nat sub_id | DetachOp | DetachedOp

fun server_step :: "server_op \<Rightarrow> stream_server \<Rightarrow> stream_server" where
  "server_step AttachOp s = sv_attach s"
| "server_step (UpgradeOp url) s = onUpgrade url s"
| "server_step (MessageOp ws raw) s = sv_onMessage ws raw s"
| "server_step (ReadyOp ws r) s = s\<lparr>sv_ready := (sv_ready s)(ws := map_option (max r) (sv_ready s ws))\<rparr>"
| "server_step (ConnClosedOp ws) s = sv_onClose ws s"
| "server_step (EmitOp h payload) s = streamEmit h payload s"
| "server_step (StartFailedOp h message) s = startFailed h message s"
| "server_step (StopDoneOp ws i) s = finishUnsubscribe ws i s"
| "server_step DetachOp s = detach_begin s"
| "server_step DetachedOp s = detach_end s"

section \<open>Projections\<close>

lemma set_life_simps [simp]:
  "sv_attached (set_life l h s) = sv_attached s" "sv_ready (set_life l h s) = sv_ready s"
  "sv_subs (set_life l h s) = sv_subs s" "sv_nextConn (set_life l h s) = sv_nextConn s"
  "sv_nextStream (set_life l h s) = sv_nextStream s" "sv_closing (set_life l h s) = sv_closing s"
  "sv_out (set_life l h s) = sv_out s"
  by (simp_all add: set_life_def)

lemma set_life_streams:
  "sv_streams (set_life l h s) k = (if k = h then map_option (\<lambda>t. t\<lparr>ss_life := l\<rparr>) (sv_streams s h) else sv_streams s k)"
  by (simp add: set_life_def)

lemma stop_all_simps [simp]:
  "sv_attached (stop_all hs s) = sv_attached s" "sv_ready (stop_all hs s) = sv_ready s"
  "sv_subs (stop_all hs s) = sv_subs s" "sv_nextConn (stop_all hs s) = sv_nextConn s"
  "sv_nextStream (stop_all hs s) = sv_nextStream s" "sv_closing (stop_all hs s) = sv_closing s"
  "sv_out (stop_all hs s) = sv_out s"
  unfolding stop_all_def by (induction hs arbitrary: s) simp_all

lemma stop_all_streams:
  "sv_streams (stop_all hs s) k =
     (if k \<in> set hs then map_option (\<lambda>t. t\<lparr>ss_life := Stopped\<rparr>) (sv_streams s k) else sv_streams s k)"
  unfolding stop_all_def
  by (induction hs arbitrary: s) (auto simp: set_life_streams option.map_comp comp_def)

lemma safeSend_simps [simp]:
  "sv_attached (safeSend ws f s) = sv_attached s" "sv_ready (safeSend ws f s) = sv_ready s"
  "sv_subs (safeSend ws f s) = sv_subs s" "sv_nextConn (safeSend ws f s) = sv_nextConn s"
  "sv_nextStream (safeSend ws f s) = sv_nextStream s" "sv_closing (safeSend ws f s) = sv_closing s"
  "sv_streams (safeSend ws f s) = sv_streams s"
  by (simp_all add: safeSend_def)

lemmas sender_defs = sendEvent_def sendSubscribed_def sendClosed_def sendError_def

section \<open>The frames of one subscription\<close>

fun frame_sub :: "stream_frame \<Rightarrow> sub_id option" where
  "frame_sub (SubscribedFrame i) = Some i"
| "frame_sub (EventFrame i _) = Some i"
| "frame_sub (ClosedFrame i _) = Some i"
| "frame_sub _ = None"

definition channel :: "nat \<Rightarrow> sub_id \<Rightarrow> stream_server \<Rightarrow> stream_frame list" where
  "channel ws i s = map snd (filter (\<lambda>(w, f). w = ws \<and> frame_sub f = Some i) (sv_out s))"

text \<open>
  What a client may see of one subscription: an acknowledgement, then events, then one close, then the events of
  calls that were still waiting when the stream was stopped; \<open>Done\<close> counts those.
\<close>

datatype phase = Fresh | Active | Done nat | Broken

fun phase_step :: "phase \<Rightarrow> stream_frame \<Rightarrow> phase" where
  "phase_step Fresh (SubscribedFrame _) = Active"
| "phase_step Active (EventFrame _ _) = Active"
| "phase_step Active (ClosedFrame _ _) = Done 0"
| "phase_step (Done n) (EventFrame _ _) = Done (Suc n)"
| "phase_step _ _ = Broken"

fun lateness :: "phase \<Rightarrow> nat" where
  "lateness (Done n) = n"
| "lateness _ = 0"

definition phase_of :: "nat \<Rightarrow> sub_id \<Rightarrow> stream_server \<Rightarrow> phase" where
  "phase_of ws i s = foldl phase_step Fresh (channel ws i s)"

lemma phase_of_send:
  "phase_of ws i (safeSend w f s) =
     (if sv_ready s w = Some OPEN \<and> w = ws \<and> frame_sub f = Some i then phase_step (phase_of ws i s) f else phase_of ws i s)"
  by (auto simp: safeSend_def phase_of_def channel_def)

lemma phase_of_same: "sv_out s = sv_out t \<Longrightarrow> phase_of ws i s = phase_of ws i t"
  by (simp add: phase_of_def channel_def)

lemma phase_of_update [simp]:
  "phase_of ws i (set_life l h s) = phase_of ws i s" "phase_of ws i (stop_all hs s) = phase_of ws i s"
  "phase_of ws i (s\<lparr>sv_attached := a\<rparr>) = phase_of ws i s" "phase_of ws i (s\<lparr>sv_ready := r\<rparr>) = phase_of ws i s"
  "phase_of ws i (s\<lparr>sv_subs := u\<rparr>) = phase_of ws i s" "phase_of ws i (s\<lparr>sv_streams := m\<rparr>) = phase_of ws i s"
  "phase_of ws i (s\<lparr>sv_nextConn := n\<rparr>) = phase_of ws i s" "phase_of ws i (s\<lparr>sv_nextStream := n\<rparr>) = phase_of ws i s"
  "phase_of ws i (s\<lparr>sv_closing := c\<rparr>) = phase_of ws i s"
  by (rule phase_of_same, simp)+

lemma foldl_Broken: "foldl phase_step Broken fs = Broken"
  by (induction fs) simp_all

lemma foldl_Done:
  "foldl phase_step (Done n) fs \<noteq> Broken \<Longrightarrow> (\<forall>f \<in> set fs. frame_type f = Event) \<and> foldl phase_step (Done n) fs = Done (n + length fs)"
proof (induction fs arbitrary: n)
  case (Cons f fs)
  from Cons.prems Cons.IH [of "Suc n"] show ?case by (cases f) (auto simp: foldl_Broken)
qed simp

lemma foldl_Active:
  assumes "foldl phase_step Active fs \<noteq> Broken"
  shows "\<exists>evs rest. fs = evs @ rest \<and> (\<forall>f \<in> set evs. frame_type f = Event) \<and>
    (rest = [] \<or> (\<exists>f late. rest = f # late \<and> frame_type f = Closed \<and> (\<forall>f \<in> set late. frame_type f = Event) \<and>
       length late = lateness (foldl phase_step Active fs)))"
  using assms
proof (induction fs)
  case (Cons f fs)
  show ?case
  proof (cases f)
    case (EventFrame i p)
    with Cons obtain evs rest where "fs = evs @ rest" "\<forall>f \<in> set evs. frame_type f = Event"
      "rest = [] \<or> (\<exists>f late. rest = f # late \<and> frame_type f = Closed \<and> (\<forall>f \<in> set late. frame_type f = Event) \<and>
         length late = lateness (foldl phase_step Active fs))" by auto
    with EventFrame show ?thesis by (intro exI [of _ "f # evs"] exI [of _ rest]) simp
  next
    case (ClosedFrame i r)
    with Cons.prems foldl_Done [of 0 fs] show ?thesis by (intro exI [of _ "[]"] exI [of _ "f # fs"]) simp
  qed (use Cons.prems in \<open>simp_all add: foldl_Broken\<close>)
qed simp

lemma phase_shape:
  assumes "phase_of ws i s \<noteq> Broken"
  shows "channel ws i s = [] \<or>
    (\<exists>evs rest. channel ws i s = SubscribedFrame i # evs @ rest \<and> (\<forall>f \<in> set evs. frame_type f = Event) \<and>
       (rest = [] \<or> (\<exists>f late. rest = f # late \<and> frame_type f = Closed \<and> (\<forall>f \<in> set late. frame_type f = Event) \<and>
          length late = lateness (phase_of ws i s))))"
proof (cases "channel ws i s")
  case (Cons f fs)
  have "\<forall>g \<in> set (channel ws i s). frame_sub g = Some i" by (auto simp: channel_def)
  with Cons have "frame_sub f = Some i" by simp
  with Cons assms have "f = SubscribedFrame i \<and> foldl phase_step Active fs \<noteq> Broken \<and> phase_of ws i s = foldl phase_step Active fs"
    by (cases f) (simp_all add: phase_of_def foldl_Broken)
  with Cons foldl_Active [of fs] show ?thesis by auto
qed simp

section \<open>Runs with fresh ids\<close>

definition owned :: "nat \<Rightarrow> sub_id \<Rightarrow> nat \<Rightarrow> stream_server \<Rightarrow> bool" where
  "owned ws i h s \<longleftrightarrow> (\<exists>t. sv_streams s h = Some t \<and> ss_conn t = ws \<and> ss_id t = i)"

definition live :: "nat \<Rightarrow> stream_server \<Rightarrow> bool" where
  "live h s \<longleftrightarrow> (\<exists>t. sv_streams s h = Some t \<and> ss_life t = Live)"

definition registered :: "nat \<Rightarrow> sub_id \<Rightarrow> nat \<Rightarrow> stream_server \<Rightarrow> bool" where
  "registered ws i h s \<longleftrightarrow> (\<exists>perConn. sv_subs s ws = Some perConn \<and> map_of perConn i = Some h)"

text \<open>
  What the server relies on: a client does not use an id again on a connection (\<open>StreamClient\<close> counts them up). A stream
  may emit at any time, also after it was stopped.
\<close>

definition fresh_ids :: "server_op \<Rightarrow> stream_server \<Rightarrow> bool" where
  "fresh_ids op s \<longleftrightarrow>
     (case op of
        MessageOp ws raw \<Rightarrow>
          (case frame_deserialize raw of Some (SubscribeFrame i _ _) \<Rightarrow> \<forall>h. \<not> owned ws i h s | _ \<Rightarrow> True)
      | _ \<Rightarrow> True)"

inductive fresh_reachable :: "stream_server \<Rightarrow> bool" where
  fresh_new: "fresh_reachable sv_new"
| fresh_step: "fresh_reachable s \<Longrightarrow> fresh_ids op s \<Longrightarrow> fresh_reachable (server_step op s)"

inductive_cases fresh_reachableE: "fresh_reachable s"

definition server_inv :: "stream_server \<Rightarrow> bool" where
  "server_inv s \<longleftrightarrow>
     (\<forall>ws i h. owned ws i h s \<longrightarrow> h < sv_nextStream s \<and> ws < sv_nextConn s) \<and>
     (\<forall>ws perConn. sv_subs s ws = Some perConn \<longrightarrow> ws < sv_nextConn s \<and> distinct (map fst perConn)) \<and>
     (\<forall>ws i h. registered ws i h s \<longrightarrow> owned ws i h s) \<and>
     (\<forall>ws i h k. owned ws i h s \<longrightarrow> owned ws i k s \<longrightarrow> h = k) \<and>
     (\<forall>ws i h. owned ws i h s \<longrightarrow> live h s \<longrightarrow> sv_subs s ws \<noteq> None \<longrightarrow> registered ws i h s)"

lemma server_inv_new: "server_inv sv_new"
  by (simp add: server_inv_def sv_new_def owned_def registered_def)

lemma owned_set_life [simp]: "owned ws i h (set_life l k s) = owned ws i h s"
  by (auto simp: owned_def set_life_streams)

lemma owned_stop_all [simp]: "owned ws i h (stop_all hs s) = owned ws i h s"
  by (auto simp: owned_def stop_all_streams)

lemma live_set_life [simp]: "live h (set_life l k s) \<longleftrightarrow> (if h = k then sv_streams s h \<noteq> None \<and> l = Live else live h s)"
  by (auto simp: live_def set_life_streams)

lemma live_stop_all [simp]: "live h (stop_all hs s) \<longleftrightarrow> live h s \<and> h \<notin> set hs"
  by (auto simp: live_def stop_all_streams)

lemma registered_simps [simp]:
  "registered ws i h (set_life l k s) = registered ws i h s" "registered ws i h (stop_all hs s) = registered ws i h s"
  "registered ws i h (safeSend w f s) = registered ws i h s" "owned ws i h (safeSend w f s) = owned ws i h s"
  "live h (safeSend w f s) = live h s"
  by (simp_all add: registered_def owned_def live_def)

lemma safeSend_inv [simp]: "server_inv (safeSend w f s) = server_inv s"
  by (simp add: server_inv_def)

text \<open>What an operation does to the three relations is all the invariant depends on.\<close>

lemma server_invD:
  assumes "server_inv s"
  shows "owned ws i h s \<Longrightarrow> h < sv_nextStream s" and "owned ws i h s \<Longrightarrow> ws < sv_nextConn s"
    and "sv_subs s ws = Some perConn \<Longrightarrow> ws < sv_nextConn s" and "sv_subs s ws = Some perConn \<Longrightarrow> distinct (map fst perConn)"
    and "registered ws i h s \<Longrightarrow> owned ws i h s" and "owned ws i h s \<Longrightarrow> owned ws i k s \<Longrightarrow> h = k"
    and "owned ws i h s \<Longrightarrow> live h s \<Longrightarrow> sv_subs s ws \<noteq> None \<Longrightarrow> registered ws i h s"
  using assms unfolding server_inv_def by blast+

lemma server_invI:
  assumes "\<And>ws i h. owned ws i h s \<Longrightarrow> h < sv_nextStream s \<and> ws < sv_nextConn s"
    and "\<And>ws perConn. sv_subs s ws = Some perConn \<Longrightarrow> ws < sv_nextConn s \<and> distinct (map fst perConn)"
    and "\<And>ws i h. registered ws i h s \<Longrightarrow> owned ws i h s"
    and "\<And>ws i h k. owned ws i h s \<Longrightarrow> owned ws i k s \<Longrightarrow> h = k"
    and "\<And>ws i h. owned ws i h s \<Longrightarrow> live h s \<Longrightarrow> sv_subs s ws \<noteq> None \<Longrightarrow> registered ws i h s"
  shows "server_inv s"
  using assms unfolding server_inv_def by blast

lemma frame_updates [simp]:
  "owned ws i h (s\<lparr>sv_subs := u\<rparr>) = owned ws i h s" "live h (s\<lparr>sv_subs := u\<rparr>) = live h s"
  "owned ws i h (s\<lparr>sv_ready := r\<rparr>) = owned ws i h s" "live h (s\<lparr>sv_ready := r\<rparr>) = live h s"
  "owned ws i h (s\<lparr>sv_nextConn := n\<rparr>) = owned ws i h s" "live h (s\<lparr>sv_nextConn := n\<rparr>) = live h s"
  "owned ws i h (s\<lparr>sv_closing := c\<rparr>) = owned ws i h s" "live h (s\<lparr>sv_closing := c\<rparr>) = live h s"
  "owned ws i h (s\<lparr>sv_attached := a\<rparr>) = owned ws i h s" "live h (s\<lparr>sv_attached := a\<rparr>) = live h s"
  "registered ws i h (s\<lparr>sv_ready := r\<rparr>) = registered ws i h s"
  "registered ws i h (s\<lparr>sv_closing := c\<rparr>) = registered ws i h s"
  "registered ws i h (s\<lparr>sv_attached := a\<rparr>) = registered ws i h s"
  by (simp_all add: owned_def live_def registered_def)

lemma onUpgrade_registered:
  "server_inv s \<Longrightarrow> registered ws i h (onUpgrade url s) = registered ws i h s"
  using server_invD(3) [of s "sv_nextConn s"]
  by (auto simp: onUpgrade_def onConnection_def registered_def Let_def)

lemma onUpgrade_frame [simp]:
  "owned ws i h (onUpgrade url s) = owned ws i h s" "live h (onUpgrade url s) = live h s"
  by (simp_all add: onUpgrade_def onConnection_def Let_def)

lemma onUpgrade_inv: "server_inv s \<Longrightarrow> server_inv (onUpgrade url s)"
  by (rule server_invI)
    (auto simp: onUpgrade_registered dest: server_invD,
     auto simp: onUpgrade_def onConnection_def Let_def less_Suc_eq dest: server_invD split: if_splits)

lemma onClose_registered:
  "registered w i h (sv_onClose ws s) \<longleftrightarrow> w \<noteq> ws \<and> registered w i h s"
  by (auto simp: sv_onClose_def registered_def split: option.split)

lemma onClose_subs: "sv_subs (sv_onClose ws s) = (sv_subs s)(ws := None)"
  by (auto simp: sv_onClose_def split: option.split)

lemma onClose_live:
  "server_inv s \<Longrightarrow> owned w i h s \<Longrightarrow> live h (sv_onClose ws s) \<Longrightarrow> sv_subs s w \<noteq> None \<Longrightarrow> w \<noteq> ws \<and> live h s"
  using server_invD(7) [of s w i h]
  by (force simp: sv_onClose_def registered_def dest: map_of_SomeD split: option.splits)

lemma onClose_mono: "live h (sv_onClose ws s) \<Longrightarrow> live h s"
  by (auto simp: sv_onClose_def live_def stop_all_streams split: option.splits if_splits)

lemma onClose_owned [simp]: "owned w i h (sv_onClose ws s) = owned w i h s"
  by (simp add: sv_onClose_def split: option.split)

lemma sv_onClose_inv: "server_inv s \<Longrightarrow> server_inv (sv_onClose ws s)"
  by (rule server_invI)
    (auto simp: onClose_registered onClose_subs dest: server_invD onClose_mono split: if_splits,
     auto simp: sv_onClose_def dest: server_invD split: option.splits)

lemma handleSubscribe_cases:
  obtains "handleSubscribe ws i topic s = s"
  | m where "handleSubscribe ws i topic s = sendError ws UnknownTopic m s"
  | perConn t where "sv_subs s ws = Some perConn" and "parse_topic topic = Some t"
    and "handleSubscribe ws i topic s =
      sendSubscribed ws i
        (s\<lparr>sv_nextStream := sv_nextStream s + 1,
           sv_streams := (sv_streams s)(sv_nextStream s \<mapsto> \<lparr>ss_conn = ws, ss_id = i, ss_topic = t, ss_life = Live\<rparr>),
           sv_subs := (sv_subs s)(ws \<mapsto> AList.update i (sv_nextStream s) perConn)\<rparr>)"
  by (cases "sv_subs s ws"; cases "parse_topic topic") (simp_all add: handleSubscribe_def Let_def)

text \<open>The state in which the \<open>Subscribed\<close> frame is sent.\<close>

definition subscribed_state :: "nat \<Rightarrow> sub_id \<Rightarrow> stream_topic \<Rightarrow> (sub_id \<times> nat) list \<Rightarrow> stream_server \<Rightarrow> stream_server" where
  "subscribed_state ws i t perConn s =
     s\<lparr>sv_nextStream := sv_nextStream s + 1,
       sv_streams := (sv_streams s)(sv_nextStream s \<mapsto> \<lparr>ss_conn = ws, ss_id = i, ss_topic = t, ss_life = Live\<rparr>),
       sv_subs := (sv_subs s)(ws \<mapsto> AList.update i (sv_nextStream s) perConn)\<rparr>"

lemma subscribed_owned:
  "server_inv s \<Longrightarrow>
   owned w j h (subscribed_state ws i t perConn s) \<longleftrightarrow> owned w j h s \<or> (w = ws \<and> j = i \<and> h = sv_nextStream s)"
  by (auto simp: owned_def subscribed_state_def dest: server_invD(1) [of s w j, unfolded owned_def])

lemma subscribed_live:
  "live h (subscribed_state ws i t perConn s) \<longleftrightarrow> live h s \<or> h = sv_nextStream s"
  by (auto simp: live_def subscribed_state_def)

lemma subscribed_registered:
  "sv_subs s ws = Some perConn \<Longrightarrow>
   registered w j h (subscribed_state ws i t perConn s) \<longleftrightarrow>
     (if w = ws \<and> j = i then h = sv_nextStream s else registered w j h s)"
  by (auto simp: registered_def subscribed_state_def update_conv')

lemma subscribed_inv:
  assumes "server_inv s" and "sv_subs s ws = Some perConn" and "\<forall>h. \<not> owned ws i h s"
  shows "server_inv (subscribed_state ws i t perConn s)"
proof (rule server_invI)
  fix w j h k
  let ?t = "subscribed_state ws i t perConn s"
  have nx: "sv_nextStream ?t = Suc (sv_nextStream s)" "sv_nextConn ?t = sv_nextConn s"
    "sv_subs ?t = (sv_subs s)(ws \<mapsto> AList.update i (sv_nextStream s) perConn)"
    by (simp_all add: subscribed_state_def)
  note D = server_invD [OF assms(1)]
  show "h < sv_nextStream ?t \<and> w < sv_nextConn ?t" if "owned w j h ?t"
    using that D(1) [of w j h] D(2) [of w j h] D(3) [OF assms(2)] assms(1) nx by (auto simp: subscribed_owned)
  show "w < sv_nextConn ?t \<and> distinct (map fst p)" if "sv_subs ?t w = Some p" for p
    using that D(3,4) assms(2) by (auto simp: nx distinct_update split: if_splits)
  show "owned w j h ?t" if "registered w j h ?t"
    using that D(5) [of w j h] assms(1,2) by (auto simp: subscribed_owned subscribed_registered split: if_splits)
  show "h = k" if "owned w j h ?t" "owned w j k ?t"
    using that assms(1,3) D(6) [of w j h k] by (auto simp: subscribed_owned)
  show "registered w j h ?t" if "owned w j h ?t" "live h ?t" "sv_subs ?t w \<noteq> None"
    using that assms D(7) [of w j h] D(1) [of w j h] nx
    by (auto simp: subscribed_owned subscribed_live subscribed_registered split: if_splits)
qed

lemma handleSubscribe_inv:
  assumes "server_inv s" and "\<forall>h. \<not> owned ws i h s"
  shows "server_inv (handleSubscribe ws i topic s)"
  using assms subscribed_inv [OF assms(1) _ assms(2)]
  by (cases rule: handleSubscribe_cases [of ws i topic s]) (simp_all add: sender_defs subscribed_state_def)

lemma dropped_inv:
  assumes "server_inv s" and "sv_subs s ws = Some perConn" and "l \<noteq> Live"
    and "\<And>k. map_of perConn i = Some k \<Longrightarrow> k = h"
  shows "server_inv (set_life l h (s\<lparr>sv_subs := (sv_subs s)(ws \<mapsto> AList.delete i perConn)\<rparr>))"
    and "registered w j k (set_life l h (s\<lparr>sv_subs := (sv_subs s)(ws \<mapsto> AList.delete i perConn)\<rparr>))
      \<longleftrightarrow> registered w j k s \<and> \<not> (w = ws \<and> j = i)"
proof -
  let ?u = "s\<lparr>sv_subs := (sv_subs s)(ws \<mapsto> AList.delete i perConn)\<rparr>"
  have r: "registered w j k ?u \<longleftrightarrow> registered w j k s \<and> \<not> (w = ws \<and> j = i)" for w j k
    using assms(2) by (auto simp: registered_def delete_conv' split: if_splits)
  then show "registered w j k (set_life l h ?u) \<longleftrightarrow> registered w j k s \<and> \<not> (w = ws \<and> j = i)" by simp
  have k: "k = h" if "registered ws i k s" for k
    using that assms(2,4) by (auto simp: registered_def)
  note D = server_invD [OF assms(1)]
  show "server_inv (set_life l h ?u)"
  proof (rule server_invI)
    fix w j k m
    show "k < sv_nextStream (set_life l h ?u) \<and> w < sv_nextConn (set_life l h ?u)" if "owned w j k (set_life l h ?u)"
      using that D(1,2) by simp
    show "w < sv_nextConn (set_life l h ?u) \<and> distinct (map fst p)" if "sv_subs (set_life l h ?u) w = Some p" for p
      using that D(3,4) assms(2) by (auto simp: distinct_delete split: if_splits)
    show "owned w j k (set_life l h ?u)" if "registered w j k (set_life l h ?u)"
      using that D(5) by (simp add: r)
    show "k = m" if "owned w j k (set_life l h ?u)" "owned w j m (set_life l h ?u)"
      using that D(6) by simp
    show "registered w j k (set_life l h ?u)" if "owned w j k (set_life l h ?u)" "live k (set_life l h ?u)" "sv_subs (set_life l h ?u) w \<noteq> None"
      using that D(7) [of w j k] k [of k] assms(2,3) by (auto simp: r split: if_splits)
  qed
qed

lemma detach_begin_inv: "server_inv s \<Longrightarrow> server_inv (detach_begin s)"
  by (rule server_invI) (auto simp: detach_begin_def dest: server_invD)

lemma detach_end_simps [simp]:
  "owned ws i h (detach_end s) = owned ws i h s" "live h (detach_end s) = live h s" "\<not> registered ws i h (detach_end s)"
  by (simp_all add: detach_end_def owned_def live_def registered_def)

lemma detach_end_inv: "server_inv s \<Longrightarrow> server_inv (detach_end s)"
  by (rule server_invI) (auto dest: server_invD, auto simp: detach_end_def dest: server_invD)

lemma simple_updates_inv [simp]:
  "server_inv (s\<lparr>sv_ready := r\<rparr>) = server_inv s" "server_inv (s\<lparr>sv_closing := c\<rparr>) = server_inv s"
  "server_inv (s\<lparr>sv_attached := a\<rparr>) = server_inv s"
  by (simp_all add: server_inv_def)

lemma handleUnsubscribe_cases:
  obtains "handleUnsubscribe ws i s = s"
  | perConn h where "sv_subs s ws = Some perConn" and "map_of perConn i = Some h"
    and "handleUnsubscribe ws i s =
      (set_life Stopped h (s\<lparr>sv_subs := (sv_subs s)(ws \<mapsto> AList.delete i perConn)\<rparr>))\<lparr>sv_closing := sv_closing s @ [(ws, i)]\<rparr>"
proof (cases "sv_subs s ws")
  case (Some perConn)
  then show thesis
    using that by (cases "map_of perConn i") (simp_all add: handleUnsubscribe_def set_life_def)
qed (simp add: handleUnsubscribe_def that(1))

lemma handleUnsubscribe_inv:
  assumes "server_inv s"
  shows "server_inv (handleUnsubscribe ws i s)"
proof (cases rule: handleUnsubscribe_cases [of ws i s])
  case (2 perConn h)
  with dropped_inv(1) [OF assms 2(1), of Stopped i h] show ?thesis by simp
qed (simp add: assms)

lemma subs_streams_commute:
  "s\<lparr>sv_streams := m, sv_subs := u\<rparr> = s\<lparr>sv_subs := u, sv_streams := m\<rparr>"
  by simp

lemma startFailed_cases:
  obtains "startFailed h m s = s"
  | t where "sv_streams s h = Some t" and "sv_subs s (ss_conn t) = None"
    and "startFailed h m s = sendError (ss_conn t) CodeInternal (''Subscribe failed: '' @ m) (set_life Failed h s)"
  | t perConn where "sv_streams s h = Some t" and "sv_subs s (ss_conn t) = Some perConn"
    and "startFailed h m s = sendError (ss_conn t) CodeInternal (''Subscribe failed: '' @ m)
      (set_life Failed h (s\<lparr>sv_subs := (sv_subs s)(ss_conn t \<mapsto> AList.delete (ss_id t) perConn)\<rparr>))"
proof (cases "sv_streams s h")
  case (Some t)
  show thesis
  proof (cases "sv_subs s (ss_conn t)")
    case None
    then have "(sv_subs s)(ss_conn t := None) = sv_subs s" by (rule fun_upd_idem)
    with None Some that(2) show thesis by (simp add: startFailed_def Let_def set_life_def)
  next
    case (Some p)
    note h = \<open>sv_streams s h = Some t\<close>
    show thesis
      by (rule that(3) [OF h Some]) (simp add: startFailed_def Let_def set_life_def h Some subs_streams_commute)
  qed
qed (simp add: startFailed_def that(1))

lemma set_life_inv: "server_inv s \<Longrightarrow> l \<noteq> Live \<Longrightarrow> server_inv (set_life l h s)"
  by (rule server_invI) (auto dest: server_invD split: if_splits)

lemma startFailed_inv:
  assumes "server_inv s"
  shows "server_inv (startFailed h m s)"
proof (cases rule: startFailed_cases [of h m s])
  case (3 t perConn)
  have "k = h" if "map_of perConn (ss_id t) = Some k" for k
    using that 3 server_invD(5,6) [OF assms, of "ss_conn t" "ss_id t"]
    by (metis owned_def registered_def)
  with 3 dropped_inv(1) [OF assms 3(2), of Failed "ss_id t" h] show ?thesis by (simp add: sender_defs)
qed (simp_all add: assms sender_defs set_life_inv)

lemma server_step_inv:
  assumes "server_inv s" and "fresh_ids op s"
  shows "server_inv (server_step op s)"
proof (cases op)
  case (MessageOp ws raw)
  show ?thesis
  proof (cases "frame_deserialize raw")
    case (Some f)
    with MessageOp assms show ?thesis
      by (cases f) (simp_all add: sv_onMessage_def sender_defs fresh_ids_def handleSubscribe_inv handleUnsubscribe_inv)
  qed (use MessageOp assms in \<open>simp add: sv_onMessage_def sender_defs\<close>)
qed (use assms in \<open>simp_all add: sv_attach_def onUpgrade_inv sv_onClose_inv streamEmit_def sender_defs startFailed_inv
      finishUnsubscribe_def detach_begin_inv detach_end_inv fresh_ids_def split: option.split\<close>)

section \<open>The order of frames is kept\<close>

definition known :: "nat \<Rightarrow> sub_id \<Rightarrow> stream_server \<Rightarrow> bool" where
  "known ws i s \<longleftrightarrow> (\<exists>h. owned ws i h s)"

definition enrolled :: "nat \<Rightarrow> sub_id \<Rightarrow> stream_server \<Rightarrow> bool" where
  "enrolled ws i s \<longleftrightarrow> (\<exists>h. registered ws i h s)"

definition phase_inv :: "stream_server \<Rightarrow> bool" where
  "phase_inv s \<longleftrightarrow>
     distinct (sv_closing s) \<and> (\<forall>ws. sv_ready s ws \<noteq> Some CONNECTING) \<and>
     (\<forall>ws i. phase_of ws i s \<noteq> Broken \<and>
        (\<not> known ws i s \<longrightarrow> phase_of ws i s = Fresh \<and> (ws, i) \<notin> set (sv_closing s)) \<and>
        (enrolled ws i s \<longrightarrow> (ws, i) \<notin> set (sv_closing s)) \<and>
        (sv_ready s ws = Some OPEN \<and> known ws i s \<longrightarrow> phase_of ws i s \<noteq> Fresh) \<and>
        (sv_ready s ws = Some OPEN \<and> (enrolled ws i s \<or> (ws, i) \<in> set (sv_closing s)) \<longrightarrow> phase_of ws i s = Active) \<and>
        ((ws, i) \<in> set (sv_closing s) \<or> (\<exists>n. phase_of ws i s = Done n) \<longrightarrow> (\<forall>h. owned ws i h s \<longrightarrow> \<not> live h s)))"

lemma phase_inv_new: "phase_inv sv_new"
  by (simp add: phase_inv_def sv_new_def known_def enrolled_def owned_def registered_def phase_of_def channel_def)

lemma phase_invD:
  assumes "phase_inv s"
  shows "phase_of ws i s \<noteq> Broken" and "\<not> known ws i s \<Longrightarrow> phase_of ws i s = Fresh"
    and "\<not> known ws i s \<Longrightarrow> (ws, i) \<notin> set (sv_closing s)" and "enrolled ws i s \<Longrightarrow> (ws, i) \<notin> set (sv_closing s)"
    and "sv_ready s ws = Some OPEN \<Longrightarrow> enrolled ws i s \<Longrightarrow> phase_of ws i s = Active"
    and "sv_ready s ws = Some OPEN \<Longrightarrow> (ws, i) \<in> set (sv_closing s) \<Longrightarrow> phase_of ws i s = Active"
    and "distinct (sv_closing s)"
    and "sv_ready s ws = Some OPEN \<Longrightarrow> known ws i s \<Longrightarrow> phase_of ws i s \<noteq> Fresh"
    and "(ws, i) \<in> set (sv_closing s) \<Longrightarrow> owned ws i h s \<Longrightarrow> \<not> live h s"
    and "phase_of ws i s = Done n \<Longrightarrow> owned ws i h s \<Longrightarrow> \<not> live h s"
    and "sv_ready s ws \<noteq> Some CONNECTING"
  using assms unfolding phase_inv_def by blast+

lemma phase_invI:
  assumes "distinct (sv_closing t)" and "\<And>ws. sv_ready t ws \<noteq> Some CONNECTING" and "\<And>ws i. phase_of ws i t \<noteq> Broken"
    and "\<And>ws i. \<not> known ws i t \<Longrightarrow> phase_of ws i t = Fresh \<and> (ws, i) \<notin> set (sv_closing t)"
    and "\<And>ws i. enrolled ws i t \<Longrightarrow> (ws, i) \<notin> set (sv_closing t)"
    and "\<And>ws i. sv_ready t ws = Some OPEN \<Longrightarrow> known ws i t \<Longrightarrow> phase_of ws i t \<noteq> Fresh"
    and "\<And>ws i. sv_ready t ws = Some OPEN \<Longrightarrow> enrolled ws i t \<or> (ws, i) \<in> set (sv_closing t) \<Longrightarrow> phase_of ws i t = Active"
    and "\<And>ws i h. (ws, i) \<in> set (sv_closing t) \<or> (\<exists>n. phase_of ws i t = Done n) \<Longrightarrow> owned ws i h t \<Longrightarrow> \<not> live h t"
  shows "phase_inv t"
  using assms unfolding phase_inv_def by blast

text \<open>An operation that sends nothing on a channel, enrols nothing, starts nothing and reopens no socket.\<close>

lemma phase_inv_weaken:
  assumes "phase_inv s" and "sv_closing t = sv_closing s" and "\<And>ws i. phase_of ws i t = phase_of ws i s"
    and "\<And>ws i h. owned ws i h t = owned ws i h s" and "\<And>ws i. enrolled ws i t \<Longrightarrow> enrolled ws i s"
    and "\<And>ws. sv_ready s ws \<noteq> Some CONNECTING \<Longrightarrow> sv_ready t ws \<noteq> Some CONNECTING"
    and "\<And>ws i. sv_ready t ws = Some OPEN \<Longrightarrow> known ws i s \<or> enrolled ws i s \<Longrightarrow> sv_ready s ws = Some OPEN"
    and "\<And>h. live h t \<Longrightarrow> live h s"
  shows "phase_inv t"
proof -
  note D = phase_invD [OF assms(1)]
  have k: "known ws i t = known ws i s" for ws i using assms(4) by (simp add: known_def)
  show ?thesis
  proof (rule phase_invI)
    fix ws i h
    show "phase_of ws i t \<noteq> Fresh" if "sv_ready t ws = Some OPEN" "known ws i t"
      using that D(8) assms(7) k assms(3) by metis
    show "phase_of ws i t = Active" if "sv_ready t ws = Some OPEN" "enrolled ws i t \<or> (ws, i) \<in> set (sv_closing t)"
    proof -
      have e: "enrolled ws i s \<or> (ws, i) \<in> set (sv_closing s)" using that(2) assms(2,5) by auto
      then have "known ws i s \<or> enrolled ws i s" using D(3) by blast
      with that(1) assms(7) have "sv_ready s ws = Some OPEN" by blast
      with e D(5,6) assms(3) show ?thesis by metis
    qed
    show "\<not> live h t" if "(ws, i) \<in> set (sv_closing t) \<or> (\<exists>n. phase_of ws i t = Done n)" "owned ws i h t"
      using that D(9,10) assms(2,3,4,8) by metis
  qed (use D assms(2,3,5,6) k in auto)
qed

lemma known_simps [simp]:
  "known ws i (safeSend w f s) = known ws i s" "known ws i (set_life l h s) = known ws i s"
  "known ws i (stop_all hs s) = known ws i s" "known ws i (s\<lparr>sv_subs := u\<rparr>) = known ws i s"
  "known ws i (s\<lparr>sv_ready := r\<rparr>) = known ws i s" "known ws i (s\<lparr>sv_closing := c\<rparr>) = known ws i s"
  "known ws i (s\<lparr>sv_attached := a\<rparr>) = known ws i s"
  by (simp_all add: known_def)

lemma enrolled_simps [simp]:
  "enrolled ws i (safeSend w f s) = enrolled ws i s" "enrolled ws i (set_life l h s) = enrolled ws i s"
  "enrolled ws i (stop_all hs s) = enrolled ws i s" "enrolled ws i (s\<lparr>sv_ready := r\<rparr>) = enrolled ws i s"
  "enrolled ws i (s\<lparr>sv_closing := c\<rparr>) = enrolled ws i s" "enrolled ws i (s\<lparr>sv_attached := a\<rparr>) = enrolled ws i s"
  by (simp_all add: enrolled_def)

lemma enrolled_delete:
  "sv_subs s ws = Some perConn \<Longrightarrow>
   enrolled w j (s\<lparr>sv_subs := (sv_subs s)(ws \<mapsto> AList.delete i perConn)\<rparr>) \<longleftrightarrow> enrolled w j s \<and> \<not> (w = ws \<and> j = i)"
  by (auto simp: enrolled_def registered_def delete_conv' split: if_splits)

lemma phase_inv_ready: "phase_inv s \<Longrightarrow> sv_ready s ws \<noteq> Some CONNECTING"
  by (simp add: phase_inv_def)

lemma phase_of_error [simp]: "phase_of ws i (sendError w c m s) = phase_of ws i s"
  by (simp add: sendError_def phase_of_send)

lemma error_phase_inv [simp]: "phase_inv s \<Longrightarrow> phase_inv (sendError w c m s)"
  by (erule phase_inv_weaken) (simp_all add: sendError_def phase_of_send phase_inv_ready)

lemma upgrade_phase_inv:
  assumes "phase_inv s" and "server_inv s"
  shows "phase_inv (onUpgrade url s)"
proof (rule phase_inv_weaken [OF assms(1)])
  fix ws i
  show "phase_of ws i (onUpgrade url s) = phase_of ws i s"
    by (rule phase_of_same) (simp add: onUpgrade_def onConnection_def Let_def)
  have "\<not> known (sv_nextConn s) i s" and "\<not> enrolled (sv_nextConn s) i s"
    using server_invD(2) [OF assms(2)] server_invD(5) [OF assms(2)] by (fastforce simp: known_def enrolled_def)+
  then show "sv_ready s ws = Some OPEN"
    if "sv_ready (onUpgrade url s) ws = Some OPEN" "known ws i s \<or> enrolled ws i s"
    using that by (auto simp: onUpgrade_def onConnection_def Let_def split: if_splits)
  show "enrolled ws i s" if "enrolled ws i (onUpgrade url s)"
    using that by (simp add: enrolled_def onUpgrade_registered [OF assms(2)])
  show "sv_ready (onUpgrade url s) ws \<noteq> Some CONNECTING"
    using phase_inv_ready [OF assms(1)] by (simp add: onUpgrade_def onConnection_def Let_def)
qed (simp_all, simp add: onUpgrade_def onConnection_def Let_def)

lemma onClose_simps [simp]:
  "sv_closing (sv_onClose ws s) = sv_closing s" "sv_ready (sv_onClose ws s) = sv_ready s"
  "phase_of w i (sv_onClose ws s) = phase_of w i s" "known w i (sv_onClose ws s) = known w i s"
  by (simp_all add: sv_onClose_def split: option.split)

lemma close_phase_inv: "phase_inv s \<Longrightarrow> phase_inv (sv_onClose ws s)"
  by (erule phase_inv_weaken) (auto simp: enrolled_def onClose_registered phase_inv_ready dest: onClose_mono)

lemma max_ready:
  "max r q = OPEN \<Longrightarrow> q \<noteq> CONNECTING \<Longrightarrow> q = OPEN" "max r q = CONNECTING \<Longrightarrow> q = CONNECTING"
  by (cases r; cases q; simp add: max_def ready_le_defs)+

lemma detach_begin_phase_inv: "phase_inv s \<Longrightarrow> phase_inv (detach_begin s)"
  by (erule phase_inv_weaken) (simp_all add: detach_begin_def phase_inv_ready)

lemma ready_phase_inv:
  assumes "phase_inv s" and "\<And>w. g w = map_option (max (r w)) (sv_ready s w)"
  shows "phase_inv (s\<lparr>sv_ready := g\<rparr>)"
  using phase_inv_ready [OF assms(1)]
  by (rule_tac phase_inv_weaken [OF assms(1)]) (auto simp: assms(2) dest!: max_ready)

lemma detach_end_fields [simp]:
  "sv_closing (detach_end s) = sv_closing s" "phase_of ws i (detach_end s) = phase_of ws i s"
  "known ws i (detach_end s) = known ws i s" "\<not> enrolled ws i (detach_end s)"
  "sv_ready (detach_end s) ws = map_option (max CLOSING) (sv_ready s ws)"
  by (simp_all add: known_def enrolled_def) (simp_all add: detach_end_def)

lemma max_closing: "max CLOSING q \<noteq> OPEN"
  by (cases q) (simp_all add: max_def ready_le_defs)

lemma detach_end_phase_inv: "phase_inv s \<Longrightarrow> phase_inv (detach_end s)"
  by (erule phase_inv_weaken) (auto simp: max_closing dest: max_ready)

text \<open>The operations that send on a channel.\<close>

lemma subscribed_fields:
  assumes "server_inv s" and "sv_subs s ws = Some perConn"
  shows "known w j (subscribed_state ws i t perConn s) \<longleftrightarrow> known w j s \<or> (w = ws \<and> j = i)"
    and "enrolled w j (subscribed_state ws i t perConn s) \<longleftrightarrow> enrolled w j s \<or> (w = ws \<and> j = i)"
    and "phase_of w j (subscribed_state ws i t perConn s) = phase_of w j s"
    and "sv_ready (subscribed_state ws i t perConn s) = sv_ready s"
    and "sv_closing (subscribed_state ws i t perConn s) = sv_closing s"
  by (auto simp: known_def enrolled_def subscribed_owned [OF assms(1)] subscribed_registered [OF assms(2)])
    (simp_all add: subscribed_state_def)

lemma subscribed_phase_inv:
  assumes "phase_inv s" and "server_inv s" and "sv_subs s ws = Some perConn" and "\<not> known ws i s"
  shows "phase_inv (sendSubscribed ws i (subscribed_state ws i t perConn s))"
proof (rule phase_invI)
  note F = subscribed_fields [OF assms(2,3), where i = i and t = t] and D = phase_invD [OF assms(1)]
  fix w j h
  let ?t = "sendSubscribed ws i (subscribed_state ws i t perConn s)"
  have p: "phase_of w j ?t = (if sv_ready s ws = Some OPEN \<and> w = ws \<and> j = i then Active else phase_of w j s)"
    using D(2) [OF assms(4)] by (auto simp: sendSubscribed_def phase_of_send F)
  show "distinct (sv_closing ?t)" "sv_ready ?t w \<noteq> Some CONNECTING"
    using D(7) phase_inv_ready [OF assms(1)] by (simp_all add: sendSubscribed_def F)
  show "phase_of w j ?t \<noteq> Broken" using D(1) by (simp add: p)
  show "phase_of w j ?t = Fresh \<and> (w, j) \<notin> set (sv_closing ?t)" if "\<not> known w j ?t"
    using that D(2,3) [of w j] unfolding p by (auto simp: sendSubscribed_def F)
  show "(w, j) \<notin> set (sv_closing ?t)" if "enrolled w j ?t"
    using that D(3) [OF assms(4)] D(4) [of w j] by (auto simp: sendSubscribed_def F)
  show "phase_of w j ?t \<noteq> Fresh" if "sv_ready ?t w = Some OPEN" "known w j ?t"
    using that D(8) [of w j] unfolding p by (auto simp: sendSubscribed_def F)
  show "phase_of w j ?t = Active" if "sv_ready ?t w = Some OPEN" "enrolled w j ?t \<or> (w, j) \<in> set (sv_closing ?t)"
    using that D(5,6) [of w j] unfolding p by (auto simp: sendSubscribed_def F)
  show "\<not> live h ?t" if c: "(w, j) \<in> set (sv_closing ?t) \<or> (\<exists>n. phase_of w j ?t = Done n)" and o: "owned w j h ?t"
  proof (cases "w = ws \<and> j = i")
    case True
    with c show ?thesis using D(2,3) [OF assms(4)] unfolding p by (auto simp: sendSubscribed_def F split: if_splits)
  next
    case False
    with o have os: "owned w j h s" by (auto simp: sendSubscribed_def subscribed_owned [OF assms(2)])
    from False c have "(w, j) \<in> set (sv_closing s) \<or> (\<exists>n. phase_of w j s = Done n)"
      unfolding p by (auto simp: sendSubscribed_def F)
    with os D(9,10) have "\<not> live h s" by blast
    moreover have "h \<noteq> sv_nextStream s" using server_invD(1) [OF assms(2) os] by simp
    ultimately show ?thesis by (simp add: sendSubscribed_def subscribed_live)
  qed
qed

lemma handleSubscribe_phase_inv:
  assumes "phase_inv s" and "server_inv s" and "\<forall>h. \<not> owned ws i h s"
  shows "phase_inv (handleSubscribe ws i topic s)"
  using subscribed_phase_inv [OF assms(1,2)] assms
  by (cases rule: handleSubscribe_cases [of ws i topic s]) (simp_all add: subscribed_state_def known_def)

lemma unsubscribe_phase_inv:
  assumes "phase_inv s" and "server_inv s"
  shows "phase_inv (handleUnsubscribe ws i s)"
proof (cases rule: handleUnsubscribe_cases [of ws i s])
  case (2 perConn h)
  have r: "registered ws i h s" using 2(1,2) by (auto simp: registered_def)
  then have e: "enrolled ws i s" by (auto simp: enrolled_def)
  have o: "owned ws i h s" using server_invD(5) [OF assms(2) r] .
  then have k: "known ws i s" by (auto simp: known_def)
  have u: "owned ws i k s \<Longrightarrow> k = h" for k using server_invD(6) [OF assms(2) _ o] .
  note D = phase_invD [OF assms(1)]
  show ?thesis
    unfolding 2(3)
    by (rule phase_invI)
      (use D e k u phase_inv_ready [OF assms(1)] in \<open>auto simp: enrolled_delete [OF 2(1)]\<close>)
qed (simp add: assms)

lemma finish_phase:
  assumes "phase_inv s"
  shows "phase_of w j (finishUnsubscribe ws i s) =
    (if (ws, i) \<in> set (sv_closing s) \<and> sv_ready s ws = Some OPEN \<and> w = ws \<and> j = i then Done 0 else phase_of w j s)"
  using phase_invD(6) [OF assms, of ws i] by (auto simp: finishUnsubscribe_def sendClosed_def phase_of_send)

lemma finish_phase_inv:
  assumes "phase_inv s"
  shows "phase_inv (finishUnsubscribe ws i s)"
proof (cases "(ws, i) \<in> set (sv_closing s)")
  case True
  note D = phase_invD [OF assms]
  have k: "known ws i s" and e: "\<not> enrolled ws i s" using D(3,4) [of ws i] True by auto
  have F: "sv_closing (finishUnsubscribe ws i s) = remove1 (ws, i) (sv_closing s)"
    "sv_ready (finishUnsubscribe ws i s) = sv_ready s" "owned w j h (finishUnsubscribe ws i s) = owned w j h s"
    "known w j (finishUnsubscribe ws i s) = known w j s" "enrolled w j (finishUnsubscribe ws i s) = enrolled w j s"
    "live h (finishUnsubscribe ws i s) = live h s" for w j h
    using True by (simp_all add: finishUnsubscribe_def sendClosed_def)
  show ?thesis
    by (rule phase_invI)
      (use True D k e phase_inv_ready [OF assms] in \<open>auto simp: finish_phase [OF assms] F set_remove1_eq split: if_splits\<close>)
qed (simp add: finishUnsubscribe_def assms)

lemma startFailed_phase_inv:
  assumes "phase_inv s"
  shows "phase_inv (startFailed h m s)"
proof (cases rule: startFailed_cases [of h m s])
  case 2
  have "phase_inv (set_life Failed h s)" by (rule phase_inv_weaken [OF assms]) (simp_all split: if_splits)
  with 2 show ?thesis by simp
next
  case (3 t perConn)
  have "phase_inv (set_life Failed h (s\<lparr>sv_subs := (sv_subs s)(ss_conn t \<mapsto> AList.delete (ss_id t) perConn)\<rparr>))"
    by (rule phase_inv_weaken [OF assms]) (simp_all add: enrolled_delete [OF 3(2)] split: if_splits)
  with 3 show ?thesis by simp
qed (simp add: assms)

lemma emit_phase:
  assumes "phase_inv s"
  shows "phase_of w j (streamEmit h payload s) =
    (if owned w j h s \<and> sv_ready s w = Some OPEN
     then (case phase_of w j s of Done n \<Rightarrow> Done (Suc n) | p \<Rightarrow> p) else phase_of w j s)"
proof (cases "owned w j h s \<and> sv_ready s w = Some OPEN")
  case True
  then have "phase_of w j s \<noteq> Fresh" "phase_of w j s \<noteq> Broken"
    using phase_invD(8) [OF assms, of w j] phase_invD(1) [OF assms] by (auto simp: known_def)
  with True show ?thesis
    by (cases "phase_of w j s") (auto simp: streamEmit_def sendEvent_def phase_of_send owned_def)
next
  case False
  then show ?thesis by (auto simp: streamEmit_def sendEvent_def phase_of_send owned_def split: option.split)
qed

lemma emit_simps [simp]:
  "sv_closing (streamEmit h p s) = sv_closing s" "sv_ready (streamEmit h p s) = sv_ready s"
  "owned w j k (streamEmit h p s) = owned w j k s" "live k (streamEmit h p s) = live k s"
  "known w j (streamEmit h p s) = known w j s" "enrolled w j (streamEmit h p s) = enrolled w j s"
  by (simp_all add: streamEmit_def sendEvent_def split: option.split)

lemma emit_phase_inv:
  assumes "phase_inv s"
  shows "phase_inv (streamEmit h payload s)"
proof -
  note D = phase_invD [OF assms]
  have "(phase_of w j (streamEmit h payload s) = p) \<longleftrightarrow> phase_of w j s = p" if "p \<noteq> Broken" "\<forall>n. p \<noteq> Done n" for w j p
    using that by (auto simp: emit_phase [OF assms] split: phase.split)
  moreover have "phase_of w j (streamEmit h payload s) \<noteq> Broken" for w j
    using D(1) [of w j] by (auto simp: emit_phase [OF assms] split: phase.split)
  moreover have "(\<exists>n. phase_of w j (streamEmit h payload s) = Done n) \<longleftrightarrow> (\<exists>n. phase_of w j s = Done n)" for w j
    by (auto simp: emit_phase [OF assms] split: phase.split)
  ultimately show ?thesis
    by (intro phase_invI) (use D in auto)
qed

lemma server_step_phase_inv:
  assumes "phase_inv s" and "server_inv s" and "fresh_ids op s"
  shows "phase_inv (server_step op s)"
proof (cases op)
  case AttachOp
  show ?thesis by (rule phase_inv_weaken [OF assms(1)]) (simp_all add: AttachOp sv_attach_def)
next
  case (MessageOp ws raw)
  show ?thesis
  proof (cases "frame_deserialize raw")
    case (Some f)
    with MessageOp assms show ?thesis
      by (cases f) (simp_all add: sv_onMessage_def fresh_ids_def handleSubscribe_phase_inv unsubscribe_phase_inv)
  qed (use MessageOp assms in \<open>simp add: sv_onMessage_def\<close>)
next
  case (ReadyOp ws r)
  have "phase_of w i (s\<lparr>sv_ready := g\<rparr>) = phase_of w i s" for w i g by simp
  show ?thesis
    by (rule phase_inv_weaken [OF assms(1)])
      (use phase_inv_ready [OF assms(1)] in \<open>auto simp: ReadyOp dest!: max_ready split: if_splits\<close>)
qed (use assms in \<open>simp_all add: upgrade_phase_inv close_phase_inv emit_phase_inv startFailed_phase_inv finish_phase_inv
      detach_begin_phase_inv detach_end_phase_inv\<close>)

lemma fresh_reachable_inv: "fresh_reachable s \<Longrightarrow> server_inv s \<and> phase_inv s"
  by (induction rule: fresh_reachable.induct)
    (simp_all add: server_inv_new phase_inv_new server_step_inv server_step_phase_inv)

section \<open>What a client sees\<close>

primrec fresh_run :: "server_op list \<Rightarrow> stream_server \<Rightarrow> bool" where
  "fresh_run [] s \<longleftrightarrow> True"
| "fresh_run (op # ops) s \<longleftrightarrow> fresh_ids op s \<and> fresh_run ops (server_step op s)"

lemma fresh_run_reachable: "fresh_run ops s \<Longrightarrow> fresh_reachable s \<Longrightarrow> fresh_reachable (fold server_step ops s)"
  by (induction ops arbitrary: s) (simp_all add: fresh_step)

text \<open>How often the subscription's stream emits in a run after it was stopped or failed.\<close>

definition late_emit :: "nat \<Rightarrow> sub_id \<Rightarrow> server_op \<Rightarrow> stream_server \<Rightarrow> nat" where
  "late_emit ws i op s = (case op of EmitOp h payload \<Rightarrow> if owned ws i h s \<and> \<not> live h s then 1 else 0 | _ \<Rightarrow> 0)"

primrec late_emits :: "nat \<Rightarrow> sub_id \<Rightarrow> server_op list \<Rightarrow> stream_server \<Rightarrow> nat" where
  "late_emits ws i [] s = 0"
| "late_emits ws i (op # ops) s = late_emit ws i op s + late_emits ws i ops (server_step op s)"

lemma send_lateness:
  "frame_type f \<noteq> Event \<Longrightarrow> lateness (phase_of ws i (safeSend w f s)) \<le> lateness (phase_of ws i s)"
  by (cases f; cases "phase_of ws i s") (auto simp: phase_of_send)

lemma message_lateness: "lateness (phase_of ws i (sv_onMessage w raw s)) \<le> lateness (phase_of ws i s)"
proof -
  have S: "lateness (phase_of ws i (handleSubscribe w j topic s)) \<le> lateness (phase_of ws i s)" for j topic
  proof (cases rule: handleSubscribe_cases [of w j topic s])
    case (3 p t)
    have "phase_of ws i (subscribed_state w j t p s) = phase_of ws i s"
      by (rule phase_of_same) (simp add: subscribed_state_def)
    with 3(3) send_lateness [of "SubscribedFrame j" ws i w "subscribed_state w j t p s"] show ?thesis
      by (simp add: sendSubscribed_def subscribed_state_def)
  qed simp_all
  have U: "phase_of ws i (handleUnsubscribe w j s) = phase_of ws i s" for j
    by (cases rule: handleUnsubscribe_cases [of w j s]) simp_all
  show ?thesis using S U by (auto simp: sv_onMessage_def split: option.split stream_frame.split)
qed

lemma step_lateness:
  assumes "phase_inv s"
  shows "lateness (phase_of ws i (server_step op s)) \<le> lateness (phase_of ws i s) + late_emit ws i op s"
proof (cases op)
  case (UpgradeOp url)
  have "phase_of ws i (onUpgrade url s) = phase_of ws i s"
    by (rule phase_of_same) (simp add: onUpgrade_def onConnection_def Let_def)
  with UpgradeOp show ?thesis by simp
next
  case (EmitOp h p)
  with phase_invD(10) [OF assms] show ?thesis
    by (auto simp: emit_phase [OF assms] late_emit_def split: phase.split)
next
  case (StartFailedOp h m)
  have "phase_of ws i (startFailed h m s) = phase_of ws i s"
    by (cases rule: startFailed_cases [of h m s]) simp_all
  with StartFailedOp show ?thesis by simp
qed (simp_all add: sv_attach_def message_lateness trans_le_add1 finish_phase [OF assms] detach_begin_def)

lemma run_lateness:
  "fresh_run ops s \<Longrightarrow> server_inv s \<Longrightarrow> phase_inv s
   \<Longrightarrow> lateness (phase_of ws i (fold server_step ops s)) \<le> lateness (phase_of ws i s) + late_emits ws i ops s"
proof (induction ops arbitrary: s)
  case (Cons op ops)
  then have "lateness (phase_of ws i (fold server_step ops (server_step op s)))
      \<le> lateness (phase_of ws i (server_step op s)) + late_emits ws i ops (server_step op s)"
    by (simp add: server_step_inv server_step_phase_inv)
  with step_lateness [OF Cons.prems(3), of ws i op] show ?case by simp
qed simp

text \<open>
  C4: In every run in which no client uses a subscription id again on its connection, the server sends on each connection
  and for each id nothing, or one \<open>Subscribed\<close>, then events, then at most one \<open>Closed\<close>; what follows the \<open>Closed\<close>
  are events only, at most as many as the stream emitted after it was stopped or had failed - none if it did not. So no event precedes the
  acknowledgement, however messages, emits, failures, closes and shutdowns interleave.
\<close>

theorem server_frame_order:
  assumes "fresh_run ops sv_new"
  shows "channel ws i (fold server_step ops sv_new) = [] \<or>
    (\<exists>evs rest. channel ws i (fold server_step ops sv_new) = SubscribedFrame i # evs @ rest \<and>
       (\<forall>f \<in> set evs. frame_type f = Event) \<and>
       (rest = [] \<or> (\<exists>f late. rest = f # late \<and> frame_type f = Closed \<and> (\<forall>f \<in> set late. frame_type f = Event) \<and>
          length late \<le> late_emits ws i ops sv_new)))"
proof -
  let ?s = "fold server_step ops sv_new"
  have "fresh_reachable ?s" using fresh_run_reachable [OF assms fresh_new] .
  then have "phase_of ws i ?s \<noteq> Broken" using fresh_reachable_inv phase_invD(1) by blast
  note shape = phase_shape [OF this]
  have late: "lateness (phase_of ws i ?s) \<le> late_emits ws i ops sv_new"
  proof -
    have "lateness (phase_of ws i sv_new) = 0" by (simp add: phase_of_def channel_def sv_new_def)
    then show ?thesis using run_lateness [OF assms server_inv_new phase_inv_new, of ws i] by simp
  qed
  show ?thesis
    by (rule disj_forward [OF shape], assumption)
      (elim exE conjE, intro exI conjI, assumption, assumption, erule disj_forward, assumption,
        elim exE conjE, intro exI conjI, assumption+, simp add: late)
qed

definition sample_ops :: "server_op list" where
  "sample_ops = [AttachOp, UpgradeOp StreamPath, MessageOp 0 (frame_serialize (SubscribeFrame 1 (topic_name LogTail) None)),
     EmitOp 0 None, MessageOp 0 (frame_serialize (UnsubscribeFrame 1)), StopDoneOp 0 1, EmitOp 0 None]"

lemmas sample_simps = sample_ops_def sv_new_def sv_attach_def onUpgrade_def onConnection_def frame_roundtrip
  sv_onMessage_def handleSubscribe_def Let_def sender_defs safeSend_def streamEmit_def handleUnsubscribe_def
  set_life_def finishUnsubscribe_def channel_def owned_def live_def

lemma sample_ops_fresh: "fresh_run (take n sample_ops) sv_new"
proof -
  have other: "fresh_ids AttachOp u" "fresh_ids (UpgradeOp url) u" "fresh_ids (EmitOp h p) u" "fresh_ids (StopDoneOp w j) u"
    "fresh_ids (MessageOp w (frame_serialize (UnsubscribeFrame j))) u" for u url h p w j
    by (simp_all add: fresh_ids_def frame_roundtrip)
  have "sv_streams (server_step (UpgradeOp StreamPath) (server_step AttachOp sv_new)) = Map.empty"
    by (simp add: sv_new_def sv_attach_def onUpgrade_def onConnection_def Let_def)
  then have "fresh_ids (MessageOp 0 (frame_serialize (SubscribeFrame 1 (topic_name LogTail) None)))
      (server_step (UpgradeOp StreamPath) (server_step AttachOp sv_new))"
    by (simp add: fresh_ids_def frame_roundtrip owned_def del: topic_name.simps)
  then have "fresh_run sample_ops sv_new"
    unfolding sample_ops_def fresh_run.simps by (intro conjI other TrueI)
  moreover have "fresh_run (xs @ ys) t \<Longrightarrow> fresh_run xs t" for xs ys t
    by (induction xs arbitrary: t) simp_all
  ultimately show ?thesis by (metis append_take_drop_id)
qed

theorem server_frame_order_witness:
  "let s = fold server_step sample_ops sv_new
   in channel 0 1 s = [SubscribedFrame 1, EventFrame 1 None, ClosedFrame 1 ClientRequested, EventFrame 1 None] \<and>
      late_emits 0 1 sample_ops sv_new = 1 \<and>
      (\<exists>evs rest. channel 0 1 s = SubscribedFrame 1 # evs @ rest \<and> (\<forall>f \<in> set evs. frame_type f = Event))"
proof -
  have "channel 0 1 (fold server_step sample_ops sv_new) =
      [SubscribedFrame 1, EventFrame 1 None, ClosedFrame 1 ClientRequested, EventFrame 1 None]"
    by (simp add: sample_simps del: topic_name.simps)
  moreover have "late_emits 0 1 sample_ops sv_new = 1"
    by (simp add: sample_simps late_emit_def del: topic_name.simps)
  moreover have "fresh_run sample_ops sv_new"
    using sample_ops_fresh [of 7] by (simp add: sample_ops_def)
  ultimately show ?thesis using server_frame_order [of sample_ops 0 1] unfolding Let_def by (metis list.distinct(1))
qed

section \<open>Streams and their connections\<close>

lemma unsubscribe_stops:
  assumes "server_inv s" and "owned ws i h s" and "sv_subs s ws \<noteq> None"
  shows "\<not> live h (handleUnsubscribe ws i s)"
proof (cases rule: handleUnsubscribe_cases [of ws i s])
  case 1
  have "\<not> live h s"
  proof
    assume "live h s"
    then obtain p where p: "sv_subs s ws = Some p" "map_of p i = Some h"
      using server_invD(7) [OF assms(1,2)] assms(3) by (auto simp: registered_def)
    then have "sv_closing (handleUnsubscribe ws i s) = sv_closing s @ [(ws, i)]"
      by (simp add: handleUnsubscribe_def)
    with 1 show False by simp
  qed
  with 1 show ?thesis by simp
next
  case (2 p k)
  then have "k = h" using server_invD(5,6) [OF assms(1)] assms(2) by (metis registered_def)
  with 2 show ?thesis by simp
qed

lemma detach_stops:
  assumes "server_inv s" and "owned ws i h s" and "sv_subs s ws \<noteq> None"
  shows "\<not> live h (detach_begin s)"
proof
  assume "live h (detach_begin s)"
  then have l: "live h s" and n: "h \<notin> (\<Union>w \<in> {0..<sv_nextConn s}. case sv_subs s w of None \<Rightarrow> {} | Some p \<Rightarrow> snd ` set p)"
    by (auto simp: detach_begin_def split: option.splits)
  obtain p where "sv_subs s ws = Some p" "map_of p i = Some h"
    using server_invD(7) [OF assms(1,2) l assms(3)] by (auto simp: registered_def)
  with n server_invD(3) [OF assms(1)] show False by (force dest: map_of_SomeD)
qed

lemma step_keeps_connection:
  assumes "op \<noteq> DetachedOp" and "sv_subs (server_step op s) ws = None" and "sv_subs s ws \<noteq> None"
  shows "op = ConnClosedOp ws"
proof (rule ccontr)
  assume n: "op \<noteq> ConnClosedOp ws"
  have S: "sv_subs (handleSubscribe w i topic s) ws \<noteq> None" for w i topic
    using assms(3) by (cases rule: handleSubscribe_cases [of w i topic s]) (auto simp: sender_defs)
  have U: "sv_subs (handleUnsubscribe w i s) ws \<noteq> None" for w i
    using assms(3) by (cases rule: handleUnsubscribe_cases [of w i s]) auto
  have F: "sv_subs (startFailed h m s) ws \<noteq> None" for h m
    using assms(3) by (cases rule: startFailed_cases [of h m s]) (auto simp: sender_defs)
  have M: "sv_subs (sv_onMessage w raw s) ws \<noteq> None" for w raw
    using S U assms(3) by (auto simp: sv_onMessage_def sender_defs split: option.split stream_frame.split)
  show False using n assms M F
    by (cases op) (auto simp: sv_attach_def onUpgrade_def onConnection_def Let_def onClose_subs streamEmit_def sender_defs
        finishUnsubscribe_def detach_begin_def split: option.splits if_splits)
qed

text \<open>
  C5: In a state reached by a run in which no client uses an id again on its connection, and for a connection in the map:
  its close and a \<open>detach\<close> call \<open>stop\<close> on every stream subscribed over it that was not stopped before, an
  unsubscribe on the one it names, and a connection that leaves the map other than at the end of a \<open>detach\<close> leaves none of
  its streams unstopped.
\<close>

theorem server_stops_streams:
  assumes "fresh_reachable s" and "owned ws i h s" and "sv_subs s ws \<noteq> None"
  shows "\<not> live h (server_step (ConnClosedOp ws) s) \<and> \<not> live h (server_step DetachOp s) \<and>
     \<not> live h (server_step (MessageOp ws (frame_serialize (UnsubscribeFrame i))) s) \<and>
     (\<forall>op. op \<noteq> DetachedOp \<and> sv_subs (server_step op s) ws = None \<longrightarrow> \<not> live h (server_step op s))"
proof -
  note inv = conjunct1 [OF fresh_reachable_inv [OF assms(1)]]
  note closed = onClose_live [OF inv assms(2)]
  have close: "\<not> live h (server_step (ConnClosedOp ws) s)" using closed assms(3) by auto
  then have "\<not> live h (server_step op s)" if "op \<noteq> DetachedOp" "sv_subs (server_step op s) ws = None" for op
    using step_keeps_connection [OF that assms(3)] by blast
  moreover have "\<not> live h (server_step (MessageOp ws (frame_serialize (UnsubscribeFrame i))) s)"
    using unsubscribe_stops [OF inv assms(2,3)] by (simp add: sv_onMessage_def frame_roundtrip)
  moreover have "\<not> live h (server_step DetachOp s)" using detach_stops [OF inv assms(2,3)] by simp
  ultimately show ?thesis using close by blast
qed

theorem server_stops_streams_witness:
  "let s = fold server_step (take 4 sample_ops) sv_new
   in live 0 s \<and> \<not> live 0 (server_step (ConnClosedOp 0) s)"
proof -
  let ?s = "fold server_step (take 4 sample_ops) sv_new"
  have "live 0 ?s \<and> owned 0 1 0 ?s \<and> sv_subs ?s 0 \<noteq> None"
    by (simp add: sample_ops_def sv_new_def sv_attach_def onUpgrade_def onConnection_def frame_roundtrip
        sv_onMessage_def handleSubscribe_def Let_def sender_defs safeSend_def streamEmit_def live_def owned_def
        del: topic_name.simps)
  then show ?thesis
    using server_stops_streams [OF fresh_run_reachable [OF sample_ops_fresh [of 4] fresh_new], of 0 1 0]
    unfolding Let_def by blast
qed

section \<open>Subscribing twice under one id\<close>

definition absent :: "nat \<Rightarrow> stream_server \<Rightarrow> bool" where
  "absent h s \<longleftrightarrow> h < sv_nextStream s \<and> (\<forall>ws p. sv_subs s ws = Some p \<longrightarrow> h \<notin> snd ` set p)"

lemma snd_update: "snd ` set (AList.update k v al) \<subseteq> insert v (snd ` set al)"
  by (induction al) auto

lemma snd_delete: "snd ` set (AList.delete k al) \<subseteq> snd ` set al"
  by (auto simp: AList.delete_eq)

lemma update_twice: "AList.update k w (AList.update k v al) = AList.update k w al"
  by (induction al) auto

lemma absent_set_life [simp]: "absent h (set_life l k s) = absent h s" "absent h (safeSend w f s) = absent h s"
  by (simp_all add: absent_def)

lemma absent_step:
  assumes "absent h s" and "live h s" and "\<And>m. op \<noteq> StartFailedOp h m"
  shows "absent h (server_step op s) \<and> live h (server_step op s)"
proof -
  have subs: "h \<notin> snd ` set p" if "sv_subs s ws = Some p" for ws p
    using that assms(1) by (simp add: absent_def)
  have n: "h < sv_nextStream s" using assms(1) by (simp add: absent_def)
  have S: "absent h (handleSubscribe ws i topic s) \<and> live h (handleSubscribe ws i topic s)" for ws i topic
  proof (cases rule: handleSubscribe_cases [of ws i topic s])
    case (3 p t)
    have "h \<notin> snd ` set (AList.update i (sv_nextStream s) p)"
      using snd_update [of i "sv_nextStream s" p] subs [OF 3(1)] n by auto
    with 3 subs n assms(2) show ?thesis by (auto simp: absent_def sendSubscribed_def live_def)
  qed (use assms in \<open>simp_all add: sender_defs\<close>)
  have drop: "absent h (s\<lparr>sv_subs := (sv_subs s)(ws \<mapsto> AList.delete i p)\<rparr>)" if "sv_subs s ws = Some p" for ws i p
    using subs [OF that] snd_delete [of i p] subs n by (auto simp: absent_def)
  have U: "absent h (handleUnsubscribe ws i s) \<and> live h (handleUnsubscribe ws i s)" for ws i
  proof (cases rule: handleUnsubscribe_cases [of ws i s])
    case (2 p k)
    then have "k \<noteq> h" using subs [OF 2(1)] by (force dest: map_of_SomeD)
    with 2 drop [OF 2(1), of i] assms(2) show ?thesis by (auto simp: absent_def)
  qed (use assms in simp_all)
  show ?thesis
  proof (cases op)
    case (UpgradeOp url)
    with assms(1,2) show ?thesis by (auto simp: onUpgrade_def onConnection_def Let_def absent_def split: if_splits)
  next
    case (MessageOp ws raw)
    with S U assms show ?thesis
      by (auto simp: sv_onMessage_def sender_defs split: option.split stream_frame.split)
  next
    case (ConnClosedOp ws)
    with assms subs show ?thesis by (auto simp: sv_onClose_def absent_def split: option.split)
  next
    case (StartFailedOp k m)
    with assms(3) have "k \<noteq> h" by auto
    with StartFailedOp drop assms show ?thesis
      by (cases rule: startFailed_cases [of k m s]) (auto simp: sender_defs)
  next
    case DetachOp
    have "h \<notin> set (case sv_subs s ws of None \<Rightarrow> [] | Some p \<Rightarrow> map snd p)" for ws
      using subs by (auto split: option.split)
    with DetachOp assms show ?thesis by (auto simp: detach_begin_def absent_def)
  qed (use assms in \<open>auto simp: sv_attach_def streamEmit_def sender_defs finishUnsubscribe_def absent_def detach_end_def split: option.split\<close>)
qed

lemma absent_run:
  "absent h s \<Longrightarrow> live h s \<Longrightarrow> list_all (\<lambda>op. \<forall>m. op \<noteq> StartFailedOp h m) ops \<Longrightarrow> live h (fold server_step ops s)"
  by (induction ops arbitrary: s) (simp_all add: absent_step)

text \<open>
  A second subscribe frame with an id that is in use replaces the map entry without stopping the stream
  behind it: that stream is never stopped again, not by an unsubscribe, not when its connection closes
  and not by \<open>detach\<close>.
\<close>

theorem duplicate_subscribe_leaks:
  assumes "fresh_reachable s" and "sv_subs s ws = Some p"
    and "op = MessageOp ws (frame_serialize (SubscribeFrame i (topic_name t) params))"
    and "list_all (\<lambda>op. \<forall>m. op \<noteq> StartFailedOp (sv_nextStream s) m) ops"
  shows "live (sv_nextStream s) (fold server_step ops (server_step op (server_step op s)))"
proof (rule absent_run [OF _ _ assms(4)])
  note inv = conjunct1 [OF fresh_reachable_inv [OF assms(1)]]
  let ?h = "sv_nextStream s"
  have one: "server_step op u = sendSubscribed ws i (subscribed_state ws i t q u)" if "sv_subs u ws = Some q" for u q
    using that by (simp add: assms(3) sv_onMessage_def frame_roundtrip handleSubscribe_def subscribed_state_def Let_def)
  have s1: "sv_subs (server_step op s) ws = Some (AList.update i ?h p)"
    by (simp add: one [OF assms(2)] sendSubscribed_def subscribed_state_def)
  have "h < ?h" if "sv_subs s w = Some q" "(k, h) \<in> set q" for w q k h
    using that server_invD(1) [OF inv] server_invD(4,5) [OF inv] by (metis map_of_is_SomeI registered_def)
  then have A: "?h \<notin> snd ` set q" if "sv_subs s w = Some q" for w q using that by force
  have "?h \<notin> insert (Suc ?h) (snd ` set p)" using A [OF assms(2)] by simp
  then have B: "?h \<notin> snd ` set (AList.update i (Suc ?h) p)" using snd_update [of i "Suc ?h" p] by blast
  have "absent ?h (subscribed_state ws i t (AList.update i ?h p) (sendSubscribed ws i (subscribed_state ws i t p s)))"
    using A B by (simp add: absent_def sendSubscribed_def subscribed_state_def update_twice)
  moreover have two: "server_step op (server_step op s) = sendSubscribed ws i
      (subscribed_state ws i t (AList.update i ?h p) (sendSubscribed ws i (subscribed_state ws i t p s)))"
    by (subst one [OF s1], subst one [OF assms(2)], rule refl)
  ultimately show "absent ?h (server_step op (server_step op s))" by (simp add: sendSubscribed_def)
  show "live ?h (server_step op (server_step op s))"
    unfolding two by (simp add: live_def sendSubscribed_def subscribed_state_def)
qed

theorem duplicate_subscribe_leaks_witness:
  "let s = fold server_step (take 2 sample_ops) sv_new;
       op = MessageOp 0 (frame_serialize (SubscribeFrame 1 (topic_name LogTail) None))
   in live 0 (fold server_step [ConnClosedOp 0, DetachOp, DetachedOp] (server_step op (server_step op s)))"
proof -
  let ?s = "fold server_step (take 2 sample_ops) sv_new"
  have "sv_subs ?s 0 = Some []" "sv_nextStream ?s = 0"
    by (simp_all add: sample_ops_def sv_new_def sv_attach_def onUpgrade_def onConnection_def Let_def)
  then show ?thesis
    using duplicate_subscribe_leaks [OF fresh_run_reachable [OF sample_ops_fresh [of 2] fresh_new], of 0 "[]" _ 1 LogTail None
        "[ConnClosedOp 0, DetachOp, DetachedOp]"]
    by (simp add: Let_def)
qed

text \<open>
  So does a subscribe that arrives while \<open>detach\<close> waits for the streams it stopped: it is accepted, and the map it was entered in
  is cleared when \<open>detach\<close> goes on.
\<close>

theorem subscribe_during_detach_leaks:
  assumes "sv_subs (detach_begin s) ws = Some p"
    and "op = MessageOp ws (frame_serialize (SubscribeFrame i (topic_name t) params))"
    and "list_all (\<lambda>op. \<forall>m. op \<noteq> StartFailedOp (sv_nextStream s) m) ops"
  shows "live (sv_nextStream s) (fold server_step ([DetachOp, op, DetachedOp] @ ops) s)"
proof -
  let ?h = "sv_nextStream s" and ?s = "server_step op (server_step DetachOp s)"
  have n: "sv_nextStream (detach_begin s) = ?h" by (simp add: detach_begin_def)
  have "?s = sendSubscribed ws i (subscribed_state ws i t p (detach_begin s))"
    using assms(1,2) by (simp add: sv_onMessage_def frame_roundtrip handleSubscribe_def subscribed_state_def Let_def)
  then have "live ?h ?s" and "?h < sv_nextStream ?s"
    by (simp_all add: live_def sendSubscribed_def subscribed_state_def n)
  then have "live ?h (detach_end ?s)" and "absent ?h (detach_end ?s)"
    by (simp_all add: absent_def) (simp_all add: detach_end_def)
  from absent_run [OF this(2,1) assms(3)] show ?thesis by simp
qed

theorem subscribe_during_detach_leaks_witness:
  "live 0 (fold server_step [DetachOp, MessageOp 0 (frame_serialize (SubscribeFrame 1 (topic_name LogTail) None)), DetachedOp,
     ConnClosedOp 0] (fold server_step (take 2 sample_ops) sv_new))"
proof -
  let ?s = "fold server_step (take 2 sample_ops) sv_new"
  have "sv_subs (detach_begin ?s) 0 = Some []" "sv_nextStream ?s = 0"
    by (simp_all add: sample_ops_def sv_new_def sv_attach_def onUpgrade_def onConnection_def Let_def detach_begin_def)
  then show ?thesis
    using subscribe_during_detach_leaks [of ?s 0 "[]" _ 1 LogTail None "[ConnClosedOp 0]"] by simp
qed

end
