(* ===== verification/Storage_Key.thy ===== *)
theory Storage_Key
  imports Prelude "HOL-Library.Multiset" "HOL-Library.AList" "HOL-Library.Sublist"
begin

text \<open>
  The files of the debugging surface: \<open>debugging-shared/src/opp/EnvelopeStorageKey.ts\<close>,
  \<open>debugging-shared/src/opp/EnvelopeRecordReader.ts\<close> and the path guard of
  \<open>debugging-shared/src/utils/PathResolvers.ts\<close>. The endpoints enum and the protobuf decoders are
  generated code of another package: the enum's reverse map is the argument \<open>members\<close>, reading
  and decoding one pair the argument \<open>readPair\<close>.
\<close>

section \<open>Strings\<close>

definition isSpace :: "char \<Rightarrow> bool" where
  "isSpace c \<longleftrightarrow> (let n = of_char c :: nat in n = 32 \<or> (9 \<le> n \<and> n \<le> 13) \<or> n = 160)"

text \<open>\<open>parseInt(s, 10)\<close>: white space, a sign, then the longest run of digits; \<^const>\<open>None\<close> is \<open>NaN\<close>.\<close>

definition parse_int :: "string \<Rightarrow> int option" where
  "parse_int s =
     (let t = dropWhile isSpace s;
          sgn = (if take 1 t = ''-'' then -1 else 1);
          u = (if take 1 t = ''-'' \<or> take 1 t = ''+'' then drop 1 t else t);
          ds = takeWhile isDigit u
      in if ds = [] then None else Some (sgn * digits_value ds))"

definition last_index_of :: "char \<Rightarrow> string \<Rightarrow> nat option" where
  "last_index_of c s = map_option (\<lambda>k. length s - 1 - k) (index_of c (rev s))"

definition js_substring :: "'a list \<Rightarrow> nat \<Rightarrow> nat \<Rightarrow> 'a list" where
  "js_substring s a b = take (max a b - min a b) (drop (min a b) s)"

section \<open>Storage keys\<close>

record parsed_key =
  pk_key :: string
  pk_epochIndex :: int
  pk_endpointsKey :: string
  pk_checksum :: string

definition parseEnvelopeStorageKey :: "string \<Rightarrow> parsed_key option" where
  "parseEnvelopeStorageKey key =
     (case index_of CHR ''-'' key of
        None \<Rightarrow> None
      | Some firstDash \<Rightarrow>
          (case last_index_of CHR ''-'' key of
             None \<Rightarrow> None
           | Some lastDash \<Rightarrow>
               if lastDash \<le> firstDash then None
               else (let epochStr = js_substring key 0 firstDash;
                         endpointsKey = js_substring key (firstDash + 1) lastDash;
                         checksum = js_substring key (lastDash + 1) (length key)
                     in case parse_int epochStr of
                          None \<Rightarrow> None
                        | Some epochIndex \<Rightarrow>
                            Some \<lparr>pk_key = key, pk_epochIndex = epochIndex, pk_endpointsKey = endpointsKey,
                              pk_checksum = checksum\<rparr>)))"

text \<open>The enum object maps names to numbers; \<open>UNKNOWN\<close> is the value of the fallback member.\<close>

definition resolveEndpointsType :: "(string \<Rightarrow> nat option) \<Rightarrow> nat \<Rightarrow> string \<Rightarrow> nat" where
  "resolveEndpointsType members UNKNOWN endpointsKey =
     (case members endpointsKey of None \<Rightarrow> UNKNOWN | Some v \<Rightarrow> v)"

lemma last_index_of_append: "c \<notin> set ys \<Longrightarrow> last_index_of c (xs @ c # ys) = Some (length xs)"
  using index_of_append [of c "rev ys" "rev xs"] by (simp add: last_index_of_def)

lemma last_index_of_Some:
  assumes "last_index_of c s = Some n"
  shows "\<exists>xs ys. s = xs @ c # ys \<and> c \<notin> set ys \<and> length xs = n"
proof -
  obtain k where k: "index_of c (rev s) = Some k" "n = length s - 1 - k"
    using assms by (auto simp: last_index_of_def)
  obtain xs ys where xs: "rev s = xs @ c # ys" "c \<notin> set xs" "length xs = k" using index_of_Some [OF k(1)] by blast
  moreover have "s = rev ys @ c # rev xs" using arg_cong [OF xs(1), of rev] by simp
  ultimately show ?thesis using k by (intro exI [of _ "rev ys"] exI [of _ "rev xs"]) simp
qed

lemma parse_int_digits:
  assumes "ds \<noteq> []" and "list_all isDigit ds"
  shows "parse_int ds = Some (digits_value ds)"
proof -
  obtain d es where ds: "ds = d # es" using assms(1) by (cases ds) auto
  have d: "isDigit d" using assms(2) ds by simp
  then have "\<not> isSpace d" "d \<noteq> CHR ''-''" "d \<noteq> CHR ''+''" by (auto simp: isDigit_def isSpace_def Let_def)
  moreover have "takeWhile isDigit ds = ds" using assms(2) by (simp add: list_all_iff takeWhile_eq_all_conv)
  ultimately show ?thesis by (simp add: parse_int_def ds)
qed

text \<open>
  The name the server gives an envelope file, digits, endpoints name and checksum joined by dashes, is
  read back into its parts, also when the endpoints name itself has dashes; conversely a key that parses is
  those three parts joined, with no dash left in the first or the last.
\<close>

theorem storage_key_roundtrip:
  "(ds \<noteq> [] \<and> list_all isDigit ds \<and> CHR ''-'' \<notin> set ck \<longrightarrow>
      parseEnvelopeStorageKey (ds @ ''-'' @ ek @ ''-'' @ ck) =
        Some \<lparr>pk_key = ds @ ''-'' @ ek @ ''-'' @ ck, pk_epochIndex = digits_value ds, pk_endpointsKey = ek, pk_checksum = ck\<rparr>) \<and>
   (parseEnvelopeStorageKey key = Some p \<longrightarrow>
      (\<exists>es. key = es @ ''-'' @ pk_endpointsKey p @ ''-'' @ pk_checksum p \<and> parse_int es = Some (pk_epochIndex p) \<and>
         CHR ''-'' \<notin> set es \<and> CHR ''-'' \<notin> set (pk_checksum p)))"
proof (intro conjI impI)
  assume a: "ds \<noteq> [] \<and> list_all isDigit ds \<and> CHR ''-'' \<notin> set ck"
  then have nd: "CHR ''-'' \<notin> set ds" by (auto simp: list_all_iff isDigit_def Let_def)
  let ?key = "ds @ ''-'' @ ek @ ''-'' @ ck"
  have "index_of CHR ''-'' ?key = Some (length ds)" using index_of_append [OF nd] by simp
  moreover have "last_index_of CHR ''-'' ?key = Some (length (ds @ ''-'' @ ek))"
    using last_index_of_append [of "CHR ''-''" ck "ds @ ''-'' @ ek"] a by simp
  moreover have "js_substring ?key 0 (length ds) = ds" by (simp add: js_substring_def)
  moreover have "js_substring ?key (length ds + 1) (length (ds @ ''-'' @ ek)) = ek" by (simp add: js_substring_def)
  moreover have "js_substring ?key (length (ds @ ''-'' @ ek) + 1) (length ?key) = ck" by (simp add: js_substring_def)
  ultimately show "parseEnvelopeStorageKey ?key =
        Some \<lparr>pk_key = ?key, pk_epochIndex = digits_value ds, pk_endpointsKey = ek, pk_checksum = ck\<rparr>"
    using parse_int_digits [of ds] a by (simp add: parseEnvelopeStorageKey_def)
next
  assume "parseEnvelopeStorageKey key = Some p"
  then obtain f l where f: "index_of CHR ''-'' key = Some f" and l: "last_index_of CHR ''-'' key = Some l" and "f < l"
    and e: "parse_int (js_substring key 0 f) = Some (pk_epochIndex p)"
    and ek: "pk_endpointsKey p = js_substring key (f + 1) l" and ck: "pk_checksum p = js_substring key (l + 1) (length key)"
    by (auto simp: parseEnvelopeStorageKey_def Let_def not_le split: option.splits if_splits)
  obtain es r where es: "key = es @ CHR ''-'' # r" "CHR ''-'' \<notin> set es" "length es = f" using index_of_Some [OF f] by blast
  obtain q cs where cs: "key = q @ CHR ''-'' # cs" "CHR ''-'' \<notin> set cs" "length q = l" using last_index_of_Some [OF l] by blast
  have "take (Suc f) q = es @ ''-''"
    using es(1,3) cs(1,3) \<open>f < l\<close> by (metis Suc_leI append.assoc append_Cons append_Nil append_eq_conv_conj length_append_singleton take_append diff_is_0_eq take_0 append_Nil2)
  then obtain m where m: "q = es @ ''-'' @ m" by (metis append.assoc append_take_drop_id)
  then have "js_substring key 0 f = es" "js_substring key (f + 1) l = m" "js_substring key (l + 1) (length key) = cs"
    using es(3) cs by (auto simp: js_substring_def)
  with m cs es e ek ck show "\<exists>es. key = es @ ''-'' @ pk_endpointsKey p @ ''-'' @ pk_checksum p \<and>
      parse_int es = Some (pk_epochIndex p) \<and> CHR ''-'' \<notin> set es \<and> CHR ''-'' \<notin> set (pk_checksum p)"
    by (intro exI [of _ es]) simp
qed

theorem storage_key_roundtrip_witness:
  "map_option pk_epochIndex (parseEnvelopeStorageKey ''00000042-A-B-c0'') = Some 42"
  using storage_key_roundtrip [of "''00000042''" "''c0''" "''A-B''" "[]"]
  by (simp add: isDigit_def digits_value_def digit_value_def)

section \<open>Reading a directory of records\<close>

definition DataExt :: string where "DataExt = ''.data''"

definition MetadataExt :: string where "MetadataExt = ''.metadata''"

record record_filter =
  rf_epochStart :: "int option"
  rf_epochEnd :: "int option"
  rf_endpointsType :: "nat option"

record 'r epoch_record =
  er_epoch :: int
  er_checksum :: string
  er_endpointsType :: nat
  er_body :: 'r

text \<open>One pair; \<open>readPair\<close> gives the decoded bodies, or \<^const>\<open>None\<close> when reading or decoding throws.\<close>

definition tryReadOne ::
  "(string \<Rightarrow> nat option) \<Rightarrow> nat \<Rightarrow> (string \<Rightarrow> 'r option) \<Rightarrow> record_filter \<Rightarrow> string \<Rightarrow> 'r epoch_record option" where
  "tryReadOne members UNKNOWN readPair flt baseKey =
     (case parseEnvelopeStorageKey baseKey of
        None \<Rightarrow> None
      | Some parsed \<Rightarrow>
          if (case rf_epochStart flt of None \<Rightarrow> False | Some a \<Rightarrow> pk_epochIndex parsed < a) then None
          else if (case rf_epochEnd flt of None \<Rightarrow> False | Some b \<Rightarrow> pk_epochIndex parsed > b) then None
          else (let endpointsType = resolveEndpointsType members UNKNOWN (pk_endpointsKey parsed)
                in if (case rf_endpointsType flt of None \<Rightarrow> False
                       | Some t \<Rightarrow> t \<noteq> UNKNOWN \<and> endpointsType \<noteq> t) then None
                   else map_option (\<lambda>body. \<lparr>er_epoch = pk_epochIndex parsed, er_checksum = pk_checksum parsed,
                          er_endpointsType = endpointsType, er_body = body\<rparr>) (readPair baseKey)))"

definition base_keys :: "string list \<Rightarrow> string list" where
  "base_keys filenames =
     map (\<lambda>f. js_slice f 0 (- int (length MetadataExt))) (filter (\<lambda>f. ends_with f MetadataExt) filenames)"

definition add_record :: "'r epoch_record \<Rightarrow> (int \<times> 'r epoch_record list) list \<Rightarrow> (int \<times> 'r epoch_record list) list" where
  "add_record r byEpoch =
     AList.update (er_epoch r) ((case map_of byEpoch (er_epoch r) of None \<Rightarrow> [] | Some arr \<Rightarrow> arr) @ [r]) byEpoch"

text \<open>
  The pairs are read concurrently: \<open>order\<close> is the order in which the reads complete, some permutation
  of the base keys.
\<close>

definition readEnvelopeRecordsFromDir ::
  "(string \<Rightarrow> nat option) \<Rightarrow> nat \<Rightarrow> (string \<Rightarrow> 'r option) \<Rightarrow> record_filter \<Rightarrow> string list \<Rightarrow> (int \<times> 'r epoch_record list) list" where
  "readEnvelopeRecordsFromDir members UNKNOWN readPair flt order =
     sort_key fst
       (foldl (\<lambda>byEpoch baseKey.
          case tryReadOne members UNKNOWN readPair flt baseKey of None \<Rightarrow> byEpoch | Some r \<Rightarrow> add_record r byEpoch)
        [] order)"

definition group_of :: "(int \<times> 'r list) list \<Rightarrow> int \<Rightarrow> 'r list" where
  "group_of al e = (case map_of al e of None \<Rightarrow> [] | Some rs \<Rightarrow> rs)"

definition groups_ok :: "(int \<times> 'r epoch_record list) list \<Rightarrow> 'r epoch_record list \<Rightarrow> bool" where
  "groups_ok al rs \<longleftrightarrow> distinct (map fst al) \<and> (\<forall>(e, g) \<in> set al. g \<noteq> []) \<and>
     (\<forall>e. group_of al e = filter (\<lambda>r. er_epoch r = e) rs)"

lemma set_update_pair: "x \<in> set (AList.update k v al) \<Longrightarrow> x = (k, v) \<or> x \<in> set al"
  by (induction al) (auto split: if_splits)

lemma add_record_ok: "groups_ok al rs \<Longrightarrow> groups_ok (add_record r al) (rs @ [r])"
proof -
  assume ok: "groups_ok al rs"
  have "g \<noteq> []" if "(e, g) \<in> set (add_record r al)" for e g
    using set_update_pair [OF that [unfolded add_record_def]] ok by (auto simp: groups_ok_def)
  moreover have "group_of (add_record r al) e = filter (\<lambda>r. er_epoch r = e) (rs @ [r])" for e
    using ok by (simp add: groups_ok_def add_record_def group_of_def update_conv')
  ultimately show ?thesis using ok by (auto simp: groups_ok_def add_record_def distinct_update)
qed

lemma fold_records_ok:
  "groups_ok al rs \<Longrightarrow>
   groups_ok (foldl (\<lambda>byEpoch k. case f k of None \<Rightarrow> byEpoch | Some r \<Rightarrow> add_record r byEpoch) al order)
     (rs @ List.map_filter f order)"
proof (induction order arbitrary: al rs)
  case (Cons k order)
  show ?case
  proof (cases "f k")
    case (Some r)
    then show ?thesis using Cons.IH [OF add_record_ok [OF Cons.prems, of r]] by (simp add: map_filter_simps)
  qed (use Cons in \<open>simp add: map_filter_simps\<close>)
qed (simp add: map_filter_simps)

lemma distinct_sort_key: "distinct (map fst al) \<Longrightarrow> distinct (map fst (sort_key fst al))"
  by (metis mset_eq_imp_distinct_iff mset_map mset_sort)

lemma map_of_sort_key: "distinct (map fst al) \<Longrightarrow> map_of (sort_key fst al) = map_of al"
  by (subst map_of_inject_set) (simp_all add: distinct_sort_key)

lemma group_sorted:
  assumes "groups_ok al rs"
  shows "groups_ok (sort_key fst al) rs"
proof -
  have d: "distinct (map fst al)" using assms by (simp add: groups_ok_def)
  with assms distinct_sort_key [OF d] show ?thesis by (simp add: groups_ok_def group_of_def map_of_sort_key [OF d])
qed

lemma groups_dom:
  assumes "groups_ok al rs"
  shows "e \<in> fst ` set al \<longleftrightarrow> group_of al e \<noteq> []"
proof (cases "map_of al e")
  case None
  then have "e \<notin> fst ` set al" by (simp add: map_of_eq_None_iff)
  with None show ?thesis by (simp add: group_of_def)
next
  case (Some g)
  then have "(e, g) \<in> set al" by (rule map_of_SomeD)
  moreover from this have "g \<noteq> []" using assms unfolding groups_ok_def by blast
  ultimately show ?thesis using Some by (force simp: group_of_def)
qed

text \<open>
  A directory scan groups the records that pass the filter by epoch, epochs strictly ascending and none
  empty; whatever order the concurrent reads complete in, the epochs are the same and each holds the same
  records.
\<close>

theorem scan_groups_by_epoch:
  assumes "mset order = mset keys"
  shows "sorted_wrt (<) (map fst (readEnvelopeRecordsFromDir members UNKNOWN readPair flt order)) \<and>
    (\<forall>(e, g) \<in> set (readEnvelopeRecordsFromDir members UNKNOWN readPair flt order). g \<noteq> []) \<and>
    map fst (readEnvelopeRecordsFromDir members UNKNOWN readPair flt order)
      = map fst (readEnvelopeRecordsFromDir members UNKNOWN readPair flt keys) \<and>
    (\<forall>e. mset (group_of (readEnvelopeRecordsFromDir members UNKNOWN readPair flt order) e) =
       mset (filter (\<lambda>r. er_epoch r = e) (List.map_filter (tryReadOne members UNKNOWN readPair flt) keys)))"
proof -
  let ?f = "tryReadOne members UNKNOWN readPair flt"
  define scan where "scan = readEnvelopeRecordsFromDir members UNKNOWN readPair flt"
  have ok: "groups_ok (scan ks) (List.map_filter ?f ks)" for ks
    using fold_records_ok [of "[]" "[]" ?f ks]
    by (simp add: scan_def readEnvelopeRecordsFromDir_def group_sorted groups_ok_def [of "[]"] group_of_def)
  have strict: "sorted_wrt (<) (map fst (scan ks))" for ks
    using ok [of ks] by (simp add: strict_sorted_iff groups_ok_def) (simp add: scan_def readEnvelopeRecordsFromDir_def)
  have same: "mset (filter P (List.map_filter ?f order)) = mset (filter P (List.map_filter ?f keys))" for P
    using assms by (simp add: List.map_filter_def)
  have dom: "e \<in> fst ` set (scan ks) \<longleftrightarrow> filter (\<lambda>r. er_epoch r = e) (List.map_filter ?f ks) \<noteq> []" for e ks
  proof -
    have "e \<in> fst ` set (scan ks) \<longleftrightarrow> group_of (scan ks) e \<noteq> []" by (rule groups_dom [OF ok])
    then show ?thesis using ok [of ks] by (simp add: groups_ok_def)
  qed
  have "e \<in> fst ` set (scan order) \<longleftrightarrow> e \<in> fst ` set (scan keys)" for e
    unfolding dom using same [of "\<lambda>r. er_epoch r = e"] by (metis mset_zero_iff)
  then have "set (map fst (scan order)) = set (map fst (scan keys))" by (simp add: set_eq_iff)
  then have "map fst (scan order) = map fst (scan keys)"
    using strict by (metis strict_sorted_equal)
  with strict [of order] ok [of order] same show ?thesis by (simp add: groups_ok_def scan_def [symmetric])
qed

theorem scan_groups_by_epoch_witness:
  "let scan = readEnvelopeRecordsFromDir Map.empty 0 Some \<lparr>rf_epochStart = None, rf_epochEnd = Some 2, rf_endpointsType = None\<rparr>
   in map fst (scan (rev [''1-A-y'', ''2-B-w'', ''3-A-z''])) = map fst (scan [''1-A-y'', ''2-B-w'', ''3-A-z''])"
  unfolding Let_def by (rule scan_groups_by_epoch [OF mset_rev, THEN conjunct2, THEN conjunct2, THEN conjunct1])

section \<open>The path guard\<close>

text \<open>\<open>Path.resolve\<close> on POSIX: lexical, relative to the working directory; it does not follow links.\<close>

definition path_step :: "string list \<Rightarrow> string \<Rightarrow> string list" where
  "path_step stack seg =
     (if seg = [] \<or> seg = ''.'' then stack else if seg = ''..'' then butlast stack else stack @ [seg])"

definition path_segments :: "string \<Rightarrow> string \<Rightarrow> string list" where
  "path_segments cwd p =
     foldl path_step [] (js_split CHR ''/'' (if take 1 p = ''/'' then p else cwd @ ''/'' @ p))"

definition path_resolve :: "string \<Rightarrow> string \<Rightarrow> string" where
  "path_resolve cwd p = ''/'' @ js_join ''/'' (path_segments cwd p)"

definition isPathUnder :: "string \<Rightarrow> string \<Rightarrow> string \<Rightarrow> bool" where
  "isPathUnder cwd candidate root =
     (let resolvedCandidate = path_resolve cwd candidate;
          resolvedRoot = path_resolve cwd root;
          rootWithSep = (if ends_with resolvedRoot ''/'' then resolvedRoot else resolvedRoot @ ''/'')
      in resolvedCandidate = resolvedRoot \<or> take (length rootWithSep) resolvedCandidate = rootWithSep)"

text \<open>A segment of a resolved path.\<close>

definition proper_segment :: "string \<Rightarrow> bool" where
  "proper_segment seg \<longleftrightarrow> seg \<noteq> [] \<and> seg \<noteq> ''.'' \<and> seg \<noteq> ''..'' \<and> CHR ''/'' \<notin> set seg"

lemma path_step_proper:
  assumes "list_all proper_segment st" and "CHR ''/'' \<notin> set x"
  shows "list_all proper_segment (path_step st x)"
proof -
  have "list_all proper_segment (butlast st)"
    using assms(1) by (auto simp: list_all_iff dest: in_set_butlastD)
  moreover have "proper_segment x" if "x \<noteq> []" "x \<noteq> ''.''" "x \<noteq> ''..''"
    using that assms(2) unfolding proper_segment_def by blast
  ultimately show ?thesis using assms(1) unfolding path_step_def by simp
qed

lemma path_fold_proper:
  "list_all proper_segment st \<Longrightarrow> \<forall>x \<in> set xs. CHR ''/'' \<notin> set x \<Longrightarrow> list_all proper_segment (foldl path_step st xs)"
proof (induction xs arbitrary: st)
  case (Cons x xs)
  then have "list_all proper_segment (path_step st x)" by (simp add: path_step_proper)
  with Cons show ?case by simp
qed simp

lemma path_segments_proper: "list_all proper_segment (path_segments cwd p)"
  unfolding path_segments_def by (rule path_fold_proper) (auto dest: js_split_parts_no_sep)

lemma join_segments_inject:
  assumes "list_all proper_segment as" and "list_all proper_segment bs"
  shows "js_join ''/'' as = js_join ''/'' bs \<longleftrightarrow> as = bs"
proof
  assume eq: "js_join ''/'' as = js_join ''/'' bs"
  have split: "js_split CHR ''/'' (js_join ''/'' xs) = (if xs = [] then [[]] else xs)" if "list_all proper_segment xs" for xs
  proof (cases "xs = []")
    case False
    moreover have "\<And>l. l \<in> set xs \<Longrightarrow> CHR ''/'' \<notin> set l"
      using that unfolding list_all_iff proper_segment_def by blast
    ultimately show ?thesis using js_split_join [of xs "CHR ''/''"] by simp
  qed simp
  have "[[]] \<noteq> xs" if "list_all proper_segment xs" for xs
    using that unfolding proper_segment_def by auto
  then show "as = bs"
    using eq split [OF assms(1)] split [OF assms(2)] assms by metis
qed simp

lemma take_prefix: "take (length xs) ys = xs \<longleftrightarrow> (\<exists>zs. ys = xs @ zs)"
proof
  assume "take (length xs) ys = xs"
  then have "ys = xs @ drop (length xs) ys" by (metis append_take_drop_id)
  then show "\<exists>zs. ys = xs @ zs" by blast
qed auto

lemma join_segments_prefix:
  assumes "list_all proper_segment rs" and "list_all proper_segment cs" and "rs \<noteq> []"
  shows "(\<exists>zs. js_join ''/'' cs = js_join ''/'' rs @ ''/'' @ zs) \<longleftrightarrow> strict_prefix rs cs"
proof
  assume "\<exists>zs. js_join ''/'' cs = js_join ''/'' rs @ ''/'' @ zs"
  then obtain zs where zs: "js_join ''/'' cs = js_join ''/'' rs @ CHR ''/'' # zs" by auto
  then have "cs \<noteq> []" by auto
  have nosep: "\<And>l. l \<in> set xs \<Longrightarrow> CHR ''/'' \<notin> set l" if "list_all proper_segment xs" for xs
    using that by (auto simp: list_all_iff proper_segment_def)
  have "cs = js_split CHR ''/'' (js_join ''/'' cs)" using js_split_join [OF \<open>cs \<noteq> []\<close> nosep [OF assms(2)]] by simp
  also have "\<dots> = rs @ js_split CHR ''/'' zs"
    using zs js_split_join [OF assms(3) nosep [OF assms(1)]] by (simp add: js_split_append_sep)
  finally show "strict_prefix rs cs" by (auto simp: strict_prefix_def prefix_def)
next
  assume "strict_prefix rs cs"
  then obtain ms where "cs = rs @ ms" "ms \<noteq> []" by (auto simp: strict_prefix_def prefix_def)
  then show "\<exists>zs. js_join ''/'' cs = js_join ''/'' rs @ ''/'' @ zs"
    using assms(3) by (simp add: js_join_append)
qed

lemma join_ends: "list_all proper_segment rs \<Longrightarrow> ends_with (''/'' @ js_join ''/'' rs) ''/'' \<longleftrightarrow> rs = []"
proof (cases rs rule: rev_cases)
  case (snoc xs x)
  assume "list_all proper_segment rs"
  then have x: "x \<noteq> []" "CHR ''/'' \<notin> set x" using snoc by (auto simp: proper_segment_def)
  have "\<exists>ys. js_join ''/'' rs = ys @ x"
    using snoc js_join_append [of xs "[x]" "''/''"] by (cases "xs = []") auto
  then obtain ys where ys: "js_join ''/'' rs = ys @ x" by blast
  obtain us u where "x = us @ [u]" using x(1) by (cases x rule: rev_cases) auto
  with x ys snoc show ?thesis by (auto simp: ends_with_def)
qed (simp add: ends_with_def)

lemma isPathUnder_prefix:
  "isPathUnder cwd candidate root \<longleftrightarrow> prefix (path_segments cwd root) (path_segments cwd candidate)"
proof -
  let ?r = "path_segments cwd root" and ?c = "path_segments cwd candidate"
  note pr = path_segments_proper [of cwd root] and pc = path_segments_proper [of cwd candidate]
  show ?thesis
  proof (cases "?r = []")
    case True
    then show ?thesis by (simp add: isPathUnder_def path_resolve_def ends_with_def)
  next
    case False
    with join_ends [OF pr] have "\<not> ends_with (path_resolve cwd root) ''/''" by (simp add: path_resolve_def)
    then have "isPathUnder cwd candidate root \<longleftrightarrow>
        js_join ''/'' ?c = js_join ''/'' ?r \<or> (\<exists>zs. js_join ''/'' ?c = js_join ''/'' ?r @ ''/'' @ zs)"
      using take_prefix [of "path_resolve cwd root @ ''/''" "path_resolve cwd candidate"]
      by (simp add: isPathUnder_def path_resolve_def)
    also have "\<dots> \<longleftrightarrow> ?c = ?r \<or> strict_prefix ?r ?c"
      using join_segments_inject [OF pc pr] join_segments_prefix [OF pr pc False] by simp
    finally show ?thesis by (auto simp: strict_prefix_def)
  qed
qed

text \<open>
  The guard of the log routes accepts a path exactly when, after resolving \<open>.\<close>, \<open>..\<close> and repeated
  slashes in both, the segments of the root are an initial part of its own: \<open>..\<close> cannot climb out, and a
  sibling directory whose name merely starts with the root's is refused.
\<close>

theorem path_guard_segments:
  "isPathUnder cwd candidate root \<longleftrightarrow> prefix (path_segments cwd root) (path_segments cwd candidate)"
  by (rule isPathUnder_prefix)

end
