(* ===== verification/Server_Streams.thy ===== *)
theory Server_Streams
  imports Line_Index Storage_Key
begin

text \<open>
  The streams behind the server's topics: \<open>debugging-server/src/streams/LogTailStream.ts\<close>,
  \<open>ProcessLivenessStream.ts\<close> and \<open>EnvelopeWatchStream.ts\<close>. Each \<open>await\<close> ends a step: a call in progress is an
  entry of the stream's list of work, and the event that completes it says what the file system or the cluster
  answered (\<^const>\<open>None\<close> when it failed). So calls overlap as they do in the code, and a \<open>stop\<close> may come while a
  start, a tick or a read is waiting. What the streams share after a stop is the locale \<open>server_stream\<close>.
\<close>

section \<open>The contract of a stream\<close>

text \<open>
  A stopped stream stays stopped and takes on nothing new; each call that was in progress when it was stopped may
  still emit, once.
\<close>

locale server_stream =
  fixes stop :: "'s \<Rightarrow> 's" and stopped :: "'s \<Rightarrow> bool" and step :: "'i \<Rightarrow> 's \<Rightarrow> 'e list \<times> 's" and inflight :: "'s \<Rightarrow> nat"
  assumes stop_stopped: "stopped (stop s)"
    and stop_inflight: "inflight (stop s) = inflight s"
    and step_stopped: "stopped s \<Longrightarrow> stopped (snd (step i s))"
    and step_drains: "stopped s \<Longrightarrow> length (fst (step i s)) + inflight (snd (step i s)) \<le> inflight s"
begin

primrec run :: "'i list \<Rightarrow> 's \<Rightarrow> 'e list \<times> 's" where
  "run [] s = ([], s)"
| "run (i # is) s = (case step i s of (es, s1) \<Rightarrow> case run is s1 of (fs, s2) \<Rightarrow> (es @ fs, s2))"

lemma run_fst: "fst (run (i # is) s) = fst (step i s) @ fst (run is (snd (step i s)))"
  by (simp split: prod.split)

lemma run_snd: "snd (run (i # is) s) = snd (run is (snd (step i s)))"
  by (simp split: prod.split)

lemma run_append: "run (is @ js) s = (case run is s of (es, s1) \<Rightarrow> case run js s1 of (fs, s2) \<Rightarrow> (es @ fs, s2))"
  by (induction "is" arbitrary: s) (simp_all split: prod.split)

lemma run_stopped: "stopped s \<Longrightarrow> stopped (snd (run is s)) \<and> length (fst (run is s)) + inflight (snd (run is s)) \<le> inflight s"
proof (induction "is" arbitrary: s)
  case (Cons i "is")
  have "stopped (snd (step i s))" "length (fst (step i s)) + inflight (snd (step i s)) \<le> inflight s"
    using step_stopped [OF Cons.prems] step_drains [OF Cons.prems] .
  with Cons.IH [of "snd (step i s)"] show ?case by (simp add: run_fst run_snd del: run.simps)
qed simp

lemma drains_after_stop: "length (fst (run is (stop s))) \<le> inflight s"
  using run_stopped [OF stop_stopped, of "is" s] stop_inflight [of s] by simp

lemma quiet_after_stop: "inflight s = 0 \<Longrightarrow> fst (run is (stop s)) = []"
  using drains_after_stop [of "is" s] by simp

end

lemma take_out: "n < length xs \<Longrightarrow> Suc (length (take n xs @ drop (Suc n) xs)) = length xs"
  by simp

section \<open>LogTailStream\<close>

text \<open>
  \<open>Starting\<close> is \<open>start\<close> waiting for its first index, \<open>Indexing\<close> a tick waiting for the index it extends (or builds, when
  there is none yet), \<open>Reading\<close> a tick waiting for its lines. A view of the file is what \<open>stat\<close> and the reads see.
\<close>

type_synonym file_view = "(file_stat \<times> byte list \<times> chunking) option"

datatype tail_work = Starting | Indexing "line_index option" | Reading line_index nat nat

record log_tail =
  lt_path :: string
  lt_index :: "line_index option"
  lt_stopped :: bool
  lt_timer :: bool
  lt_work :: "tail_work list"

record log_tail_event =
  le_path :: string
  le_appendedFromLine :: nat
  le_lines :: "code_unit list list"
  le_totalBytes :: nat
  le_totalLines :: nat
  le_ino :: nat

definition lt_new :: "string \<Rightarrow> log_tail" where
  "lt_new path = \<lparr>lt_path = path, lt_index = None, lt_stopped = False, lt_timer = False, lt_work = []\<rparr>"

definition log_event :: "string \<Rightarrow> nat \<Rightarrow> code_unit list list \<Rightarrow> line_index \<Rightarrow> log_tail_event" where
  "log_event path fromLine lines index =
     \<lparr>le_path = path, le_appendedFromLine = fromLine, le_lines = lines, le_totalBytes = li_totalBytes index,
      le_totalLines = li_completeLineCount index, le_ino = li_ino index\<rparr>"

text \<open>\<open>start\<close> up to its await, and the rest of it, which does not look at \<open>stopped\<close>.\<close>

definition lt_start :: "string \<Rightarrow> string \<Rightarrow> log_tail \<Rightarrow> string + log_tail" where
  "lt_start cwd clusterPath s =
     (if \<not> isPathUnder cwd (lt_path s) clusterPath
      then Inl (''LogTailStream: '' @ lt_path s @ '' is not under '' @ clusterPath)
      else Inr (s\<lparr>lt_work := lt_work s @ [Starting]\<rparr>))"

definition lt_started :: "file_view \<Rightarrow> log_tail \<Rightarrow> log_tail_event list \<times> log_tail" where
  "lt_started view s =
     (case view of
        None \<Rightarrow> ([], s\<lparr>lt_timer := True\<rparr>)
      | Some (stat, content, chunks) \<Rightarrow>
          (let index = buildLineIndex chunks (lt_path s) stat content
           in ([log_event (lt_path s) 0 [] index], s\<lparr>lt_index := Some index, lt_timer := True\<rparr>)))"

definition lt_stop :: "log_tail \<Rightarrow> log_tail" where
  "lt_stop s = s\<lparr>lt_stopped := True, lt_timer := False\<rparr>"

text \<open>\<open>tick\<close> up to its first await, up to its second, and the rest of it.\<close>

definition lt_tick :: "log_tail \<Rightarrow> log_tail" where
  "lt_tick s = (if lt_stopped s then s else s\<lparr>lt_work := lt_work s @ [Indexing (lt_index s)]\<rparr>)"

definition lt_indexed :: "line_index option \<Rightarrow> file_view \<Rightarrow> log_tail \<Rightarrow> log_tail_event list \<times> log_tail" where
  "lt_indexed base view s =
     (case view of
        None \<Rightarrow> ([], s)
      | Some (stat, content, chunks) \<Rightarrow>
          (let next = (case base of
                         Some index \<Rightarrow> extendLineIndex chunks index stat content
                       | None \<Rightarrow> buildLineIndex chunks (lt_path s) stat content)
           in if (case lt_index s of
                    Some index \<Rightarrow> li_totalBytes next = li_totalBytes index \<and> li_ino next = li_ino index
                  | None \<Rightarrow> False)
              then ([], s)
              else (let fromLine = (case lt_index s of Some index \<Rightarrow> li_completeLineCount index | None \<Rightarrow> 0);
                        appendedCount = int (li_completeLineCount next) - int fromLine
                    in if appendedCount > 0
                       then ([], s\<lparr>lt_work := lt_work s @ [Reading next fromLine (nat appendedCount)]\<rparr>)
                       else ([log_event (lt_path s) fromLine [] next], s\<lparr>lt_index := Some next\<rparr>))))"

definition lt_read :: "line_index \<Rightarrow> nat \<Rightarrow> nat \<Rightarrow> file_view \<Rightarrow> log_tail \<Rightarrow> log_tail_event list \<times> log_tail" where
  "lt_read next fromLine appendedCount view s =
     (case view of
        None \<Rightarrow> ([], s)
      | Some (stat, content, chunks) \<Rightarrow>
          ([log_event (lt_path s) fromLine (readLines next content fromLine appendedCount) next], s\<lparr>lt_index := Some next\<rparr>))"

text \<open>An event: the timer fires, or the call at a place of the work list is answered.\<close>

datatype tail_event = TailTick | TailAnswer nat file_view

definition lt_step :: "tail_event \<Rightarrow> log_tail \<Rightarrow> log_tail_event list \<times> log_tail" where
  "lt_step e s =
     (case e of
        TailTick \<Rightarrow> ([], if lt_timer s then lt_tick s else s)
      | TailAnswer n view \<Rightarrow>
          if n < length (lt_work s)
          then (let s1 = s\<lparr>lt_work := take n (lt_work s) @ drop (Suc n) (lt_work s)\<rparr>
                in case lt_work s ! n of
                     Starting \<Rightarrow> lt_started view s1
                   | Indexing base \<Rightarrow> lt_indexed base view s1
                   | Reading next fromLine appendedCount \<Rightarrow> lt_read next fromLine appendedCount view s1)
          else ([], s))"

lemma lt_started_frame:
  "lt_stopped (snd (lt_started v s)) = lt_stopped s" "lt_work (snd (lt_started v s)) = lt_work s"
  "length (fst (lt_started v s)) \<le> 1"
  by (auto simp: lt_started_def Let_def split: option.split)

lemma lt_read_frame:
  "lt_stopped (snd (lt_read x f c v s)) = lt_stopped s" "lt_work (snd (lt_read x f c v s)) = lt_work s"
  "length (fst (lt_read x f c v s)) \<le> 1"
  by (auto simp: lt_read_def split: option.split)

lemma lt_indexed_frame:
  "lt_stopped (snd (lt_indexed b v s)) = lt_stopped s"
  "length (fst (lt_indexed b v s)) + length (lt_work (snd (lt_indexed b v s))) \<le> Suc (length (lt_work s))"
  unfolding lt_indexed_def Let_def by (auto split: option.split)

lemma lt_step_frame:
  assumes "lt_stopped s"
  shows "lt_stopped (snd (lt_step e s))" "length (fst (lt_step e s)) + length (lt_work (snd (lt_step e s))) \<le> length (lt_work s)"
proof -
  have "lt_stopped (snd (lt_step e s)) \<and> length (fst (lt_step e s)) + length (lt_work (snd (lt_step e s))) \<le> length (lt_work s)"
  proof (cases e)
    case TailTick
    then show ?thesis using assms by (simp add: lt_step_def lt_tick_def)
  next
    case (TailAnswer n v)
    show ?thesis
    proof (cases "n < length (lt_work s)")
      case True
      let ?s1 = "s\<lparr>lt_work := take n (lt_work s) @ drop (Suc n) (lt_work s)\<rparr>"
      have len: "Suc (length (lt_work ?s1)) = length (lt_work s)" using take_out [OF True] by simp
      show ?thesis
      proof (cases "lt_work s ! n")
        case Starting
        then show ?thesis using TailAnswer True assms len lt_started_frame [of v ?s1] by (simp add: lt_step_def Let_def)
      next
        case (Indexing b)
        then show ?thesis using TailAnswer True assms len lt_indexed_frame [of b v ?s1] by (simp add: lt_step_def Let_def)
      next
        case (Reading x f c)
        then show ?thesis using TailAnswer True assms len lt_read_frame [of x f c v ?s1] by (simp add: lt_step_def Let_def)
      qed
    next
      case False
      then show ?thesis using TailAnswer assms by (simp add: lt_step_def)
    qed
  qed
  then show "lt_stopped (snd (lt_step e s))" "length (fst (lt_step e s)) + length (lt_work (snd (lt_step e s))) \<le> length (lt_work s)"
    by simp_all
qed

interpretation log_tail: server_stream lt_stop lt_stopped lt_step "\<lambda>s. length (lt_work s)"
  by unfold_locales (simp_all add: lt_stop_def lt_step_frame)

text \<open>The complete lines of what has been written so far.\<close>

definition complete_lines :: "byte list \<Rightarrow> code_unit list list" where
  "complete_lines bs = map utf8_decode (butlast (js_split LF bs))"

lemma length_complete_lines [simp]: "length (complete_lines bs) = count_list bs LF"
  by (simp add: complete_lines_def length_js_split)

lemma take_complete: "take (count_list bs LF) (file_lines bs) = butlast (js_split LF bs)"
proof (cases "bs = [] \<or> last bs = LF")
  case True
  then show ?thesis by (auto simp: file_lines_def length_js_split)
next
  case False
  then show ?thesis by (simp add: file_lines_def butlast_conv_take length_js_split)
qed

lemma read_complete:
  assumes "take (length bs) content = bs"
  shows "readLines (index_spec path ino bs) content n (count_list bs LF - n) = drop n (complete_lines bs)"
  by (simp add: readLines_spec [OF assms] complete_lines_def take_complete [symmetric] drop_take drop_map take_map)

lemma complete_lines_append: "\<exists>more. complete_lines (xs @ ys) = complete_lines xs @ more"
  by (simp add: complete_lines_def js_split_append butlast_append)

lemma complete_lines_grow:
  "a \<le> b \<Longrightarrow> complete_lines (take a content) @ drop (count_list (take a content) LF) (complete_lines (take b content))
     = complete_lines (take b content)"
proof -
  assume "a \<le> b"
  then have "take b content = take a content @ drop a (take b content)"
    by (metis append_take_drop_id min.absorb1 take_take)
  then obtain more where "complete_lines (take b content) = complete_lines (take a content) @ more"
    using complete_lines_append by metis
  then show ?thesis by simp
qed

lemma count_list_take_mono: "a \<le> b \<Longrightarrow> count_list (take a xs) x \<le> count_list (take b xs) x"
  by (metis append_take_drop_id count_list_append le_add1 min.absorb1 take_take)

text \<open>A tick that runs to its end before anything else happens; the file is what it was at the first answer.\<close>

definition whole_tick :: "file_view \<Rightarrow> tail_event list" where
  "whole_tick view = [TailTick, TailAnswer 0 view, TailAnswer 0 view]"

text \<open>One such tick on a log that only grows.\<close>

lemma lt_tick_grow:
  assumes "m \<le> length content" and "b \<le> length content" and "delivers chunks"
    and s: "\<not> lt_stopped s" "lt_timer s" "lt_work s = []" "lt_index s = Some (index_spec (lt_path s) ino (take m content))"
  shows "log_tail.run (whole_tick (Some (\<lparr>st_ino = ino, st_size = b\<rparr>, content, chunks))) s =
    (if b \<le> m then ([], s)
     else ([log_event (lt_path s) (count_list (take m content) LF)
              (drop (count_list (take m content) LF) (complete_lines (take b content)))
              (index_spec (lt_path s) ino (take b content))],
           s\<lparr>lt_index := Some (index_spec (lt_path s) ino (take b content))\<rparr>))"
proof -
  let ?v = "Some (\<lparr>st_ino = ino, st_size = b\<rparr>, content, chunks)" and ?p = "lt_path s"
  let ?next = "index_spec ?p ino (take (max m b) content)"
  have nx: "extendLineIndex chunks (index_spec ?p ino (take m content)) \<lparr>st_ino = ino, st_size = b\<rparr> content = ?next"
    using extend_index_spec [OF assms(3,1,2)] by simp
  have f: "li_completeLineCount (index_spec p i bs) = count_list bs LF" "li_totalBytes (index_spec p i bs) = length bs"
    "li_ino (index_spec p i bs) = i" for p i bs by (simp_all add: index_spec_def)
  have id: "s\<lparr>lt_work := []\<rparr> = s" using s(3) by simp
  have tick: "lt_step TailTick s = ([], s\<lparr>lt_work := [Indexing (lt_index s)]\<rparr>)"
    using s(1-3) by (simp add: lt_step_def lt_tick_def)
  have answer: "lt_step (TailAnswer 0 ?v) (s\<lparr>lt_work := [Indexing base]\<rparr>) = lt_indexed base ?v s" for base
    by (simp add: lt_step_def Let_def id)
  have run: "log_tail.run (whole_tick ?v) s = (case lt_indexed (lt_index s) ?v s of (es, s1) \<Rightarrow>
      case lt_step (TailAnswer 0 ?v) s1 of (fs, s2) \<Rightarrow> (es @ fs, s2))"
    by (simp add: whole_tick_def tick answer split: prod.split)
  show ?thesis
  proof (cases "b \<le> m")
    case True
    then have "lt_indexed (lt_index s) ?v s = ([], s)" using assms by (simp add: lt_indexed_def nx f max_def)
    then show ?thesis using True s(3) by (simp add: run lt_step_def)
  next
    case False
    let ?n = "count_list (take m content) LF" and ?k = "count_list (take b content) LF"
    have le: "?n \<le> ?k" using False by (simp add: count_list_take_mono)
    have differ: "\<not> (li_totalBytes ?next = li_totalBytes (index_spec ?p ino (take m content)) \<and>
        li_ino ?next = li_ino (index_spec ?p ino (take m content)))"
      using False assms(1,2) by (simp add: f max_def)
    show ?thesis
    proof (cases "?n < ?k")
      case True
      then have ix: "lt_indexed (lt_index s) ?v s = ([], s\<lparr>lt_work := [Reading ?next ?n (?k - ?n)]\<rparr>)"
        using False s assms(1,2) differ by (simp add: lt_indexed_def nx f max_def Let_def)
      have "readLines (index_spec ?p ino (take b content)) content ?n (?k - ?n) = drop ?n (complete_lines (take b content))"
        using read_complete [of "take b content" content ?p ino ?n] assms(2) by (simp add: min_def)
      then show ?thesis unfolding run ix using False s by (simp add: lt_step_def lt_read_def Let_def max_def)
    next
      case nk: False
      then have "drop ?n (complete_lines (take b content)) = []" by simp
      moreover have "lt_indexed (lt_index s) ?v s = ([log_event ?p ?n [] ?next], s\<lparr>lt_index := Some ?next\<rparr>)"
        using False s assms(1,2) differ nk by (simp add: lt_indexed_def nx f max_def Let_def)
      ultimately show ?thesis unfolding run using False s by (simp add: lt_step_def max_def)
    qed
  qed
qed

definition ticks_of :: "nat \<Rightarrow> byte list \<Rightarrow> (nat \<times> chunking) list \<Rightarrow> tail_event list" where
  "ticks_of ino content polls =
     concat (map (\<lambda>(n, chunks). whole_tick (Some (\<lparr>st_ino = ino, st_size = n\<rparr>, content, chunks))) polls)"

lemma log_tail_run:
  assumes "m \<le> length content" and "list_all (possible_poll content) polls"
    and "\<not> lt_stopped s" "lt_timer s" "lt_work s = []" and "lt_index s = Some (index_spec (lt_path s) ino (take m content))"
  shows "concat (map le_lines (fst (log_tail.run (ticks_of ino content polls) s)))
      = drop (count_list (take m content) LF) (complete_lines (take (foldl max m (map fst polls)) content))"
  using assms
proof (induction polls arbitrary: m s)
  case (Cons poll polls)
  obtain b chunks where poll: "poll = (b, chunks)" by fastforce
  have b: "b \<le> length content" "delivers chunks" using Cons.prems(2) by (simp_all add: poll possible_poll_def)
  note tick = lt_tick_grow [OF Cons.prems(1) b Cons.prems(3-6)]
  let ?tick = "log_tail.run (whole_tick (Some (\<lparr>st_ino = ino, st_size = b\<rparr>, content, chunks))) s"
  have run: "fst (log_tail.run (ticks_of ino content ((b, chunks) # polls)) s) =
      fst ?tick @ fst (log_tail.run (ticks_of ino content polls) (snd ?tick))"
    by (simp add: ticks_of_def log_tail.run_append split: prod.split del: log_tail.run.simps)
  show ?case
  proof (cases "b \<le> m")
    case True
    with Cons.IH [OF Cons.prems(1) _ Cons.prems(3-6)] Cons.prems(2) show ?thesis
      by (simp add: run tick poll max_absorb1 del: log_tail.run.simps)
  next
    case False
    let ?t = "s\<lparr>lt_index := Some (index_spec (lt_path s) ino (take b content))\<rparr>"
    have le: "b \<le> foldl max b ns" for ns by (induction ns rule: rev_induct) auto
    have rest: "concat (map le_lines (fst (log_tail.run (ticks_of ino content polls) ?t)))
        = drop (count_list (take b content) LF) (complete_lines (take (foldl max b (map fst polls)) content))"
      using Cons.IH [of b ?t] Cons.prems b(1) by simp
    have "drop n (complete_lines (take b content)) @ drop (count_list (take b content) LF) (complete_lines (take (foldl max b ns) content))
        = drop n (complete_lines (take (foldl max b ns) content))" if "n \<le> count_list (take b content) LF" for n ns
      using complete_lines_grow [OF le, of content] that
      by (metis append_eq_conv_conj drop_append diff_is_0_eq drop_0 length_complete_lines)
    from this [of "count_list (take m content) LF"] show ?thesis
      using rest False count_list_take_mono [of m b content LF]
      by (simp add: run tick poll max_absorb2 log_event_def del: log_tail.run.simps)
  qed
qed (simp add: ticks_of_def)

text \<open>
  A log tail whose ticks do not overlap delivers every line once: after the stream has started on a log that then only
  grows, the lines of all its events, in order, are the complete lines written since the start, whatever the ticks
  saw of the growth, and the line still being written is held back until its line feed arrives. A path
  outside the cluster directory is refused.
\<close>

theorem log_tail_lines:
  assumes "possible_poll content first" and "list_all (possible_poll content) polls"
  shows "(isPathUnder cwd path root \<longrightarrow>
      (\<exists>s0 e s. lt_start cwd root (lt_new path) = Inr s0 \<and>
         lt_step (TailAnswer 0 (Some (\<lparr>st_ino = ino, st_size = fst first\<rparr>, content, snd first))) s0 = ([e], s) \<and>
         le_lines e = [] \<and> le_totalLines e = count_list (take (fst first) content) LF \<and>
         concat (map le_lines (fst (log_tail.run (ticks_of ino content polls) s)))
           = drop (le_totalLines e) (complete_lines (take (foldl max (fst first) (map fst polls)) content)))) \<and>
    (\<not> isPathUnder cwd path root \<longrightarrow> isl (lt_start cwd root (lt_new path)))"
proof (intro conjI impI)
  assume p: "isPathUnder cwd path root"
  have first: "fst first \<le> length content" "delivers (snd first)" using assms(1) by (simp_all add: possible_poll_def)
  let ?s = "(lt_new path)\<lparr>lt_index := Some (index_spec path ino (take (fst first) content)), lt_timer := True\<rparr>"
  let ?e = "log_event path 0 [] (index_spec path ino (take (fst first) content))"
  have start: "lt_start cwd root (lt_new path) = Inr ((lt_new path)\<lparr>lt_work := [Starting]\<rparr>)"
    using p by (simp add: lt_start_def lt_new_def)
  have answer: "lt_step (TailAnswer 0 (Some (\<lparr>st_ino = ino, st_size = fst first\<rparr>, content, snd first)))
      ((lt_new path)\<lparr>lt_work := [Starting]\<rparr>) = ([?e], ?s)"
    using first by (simp add: lt_step_def lt_started_def build_spec lt_new_def Let_def)
  have "concat (map le_lines (fst (log_tail.run (ticks_of ino content polls) ?s)))
      = drop (count_list (take (fst first) content) LF) (complete_lines (take (foldl max (fst first) (map fst polls)) content))"
    by (rule log_tail_run [OF first(1) assms(2)]) (simp_all add: lt_new_def)
  moreover have "le_lines ?e = []" "le_totalLines ?e = count_list (take (fst first) content) LF"
    by (simp_all add: log_event_def index_spec_def)
  ultimately show "\<exists>s0 e s. lt_start cwd root (lt_new path) = Inr s0 \<and>
         lt_step (TailAnswer 0 (Some (\<lparr>st_ino = ino, st_size = fst first\<rparr>, content, snd first))) s0 = ([e], s) \<and>
         le_lines e = [] \<and> le_totalLines e = count_list (take (fst first) content) LF \<and>
         concat (map le_lines (fst (log_tail.run (ticks_of ino content polls) s)))
           = drop (le_totalLines e) (complete_lines (take (foldl max (fst first) (map fst polls)) content))"
    using start answer by (metis (no_types, lifting))
qed (simp add: lt_start_def lt_new_def)

theorem log_tail_lines_witness:
  "\<exists>s0 e s. lt_start ''/'' ''/c'' (lt_new ''/c/n.log'') = Inr s0 \<and>
     lt_step (TailAnswer 0 (Some (\<lparr>st_ino = 3, st_size = 2\<rparr>, [97, LF, 98, LF, 99], bytewise))) s0 = ([e], s) \<and>
     concat (map le_lines (fst (log_tail.run (ticks_of 3 [97, LF, 98, LF, 99] [(3, bytewise), (5, full_chunks)]) s))) = [[98]]"
proof -
  have "prefix (path_segments ''/'' ''/c'') (path_segments ''/'' ''/c/n.log'')"
    by (simp add: path_segments_def path_step_def)
  then have "isPathUnder ''/'' ''/c/n.log'' ''/c''" by (simp only: isPathUnder_prefix)
  moreover have "complete_lines [97, LF, 98, LF, 99] = [[97], [98]]"
    by (simp add: complete_lines_def LF_def utf8_decode_ascii)
  moreover have "possible_poll [97, LF, 98, LF, 99] (2, bytewise)"
    "list_all (possible_poll [97, LF, 98, LF, 99]) [(3, bytewise), (5, full_chunks)]"
    by (simp_all add: possible_poll_def delivers_bytewise delivers_full)
  ultimately show ?thesis
    using log_tail_lines [of "[97, LF, 98, LF, 99]" "(2, bytewise)" "[(3, bytewise), (5, full_chunks)]" "''/''" "''/c/n.log''" "''/c''" 3]
    by (auto simp: LF_def)
qed

text \<open>Two ticks that both wait for the index while the log has grown by a whole line each send that growth.\<close>

lemma overlapping_ticks_repeat:
  assumes "m \<le> length content" and "b \<le> length content" and "delivers chunks"
    and s: "\<not> lt_stopped s" "lt_timer s" "lt_work s = []" "lt_index s = Some (index_spec (lt_path s) ino (take m content))"
    and grown: "count_list (take m content) LF < count_list (take b content) LF"
    and v: "v = Some (\<lparr>st_ino = ino, st_size = b\<rparr>, content, chunks)"
  shows "map le_lines (fst (log_tail.run [TailTick, TailTick, TailAnswer 0 v, TailAnswer 0 v, TailAnswer 0 v, TailAnswer 0 v] s))
    = replicate 2 (drop (count_list (take m content) LF) (complete_lines (take b content)))"
proof -
  let ?p = "lt_path s" and ?n = "count_list (take m content) LF" and ?k = "count_list (take b content) LF"
  let ?old = "index_spec ?p ino (take m content)" and ?next = "index_spec ?p ino (take b content)"
  have mb: "m < b" using grown count_list_take_mono [of b m content LF] by (metis leD le_less_linear)
  have nx: "extendLineIndex chunks ?old \<lparr>st_ino = ino, st_size = b\<rparr> content = ?next"
    using extend_index_spec [OF assms(3,1,2)] mb by (simp add: max_def)
  have f: "li_completeLineCount (index_spec p i bs) = count_list bs LF" "li_totalBytes (index_spec p i bs) = length bs"
    "li_ino (index_spec p i bs) = i" for p i bs by (simp_all add: index_spec_def)
  have ix: "lt_indexed (Some ?old) v t = ([], t\<lparr>lt_work := lt_work t @ [Reading ?next ?n (?k - ?n)]\<rparr>)"
    if "lt_index t = Some ?old" for t
    using that mb assms(1,2) grown by (simp add: lt_indexed_def v nx f Let_def)
  have "readLines ?next content ?n (?k - ?n) = drop ?n (complete_lines (take b content))"
    using read_complete [of "take b content" content ?p ino ?n] assms(2) by (simp add: min_def)
  then have rd: "map le_lines (fst (lt_read ?next ?n (?k - ?n) v t)) = [drop ?n (complete_lines (take b content))]"
    "lt_work (snd (lt_read ?next ?n (?k - ?n) v t)) = lt_work t" for t
    by (simp_all add: lt_read_def v log_event_def)
  have tick: "lt_step TailTick t = ([], t\<lparr>lt_work := lt_work t @ [Indexing (lt_index t)]\<rparr>)" if "lt_timer t" "\<not> lt_stopped t" for t
    using that by (simp add: lt_step_def lt_tick_def)
  have indexed: "lt_step (TailAnswer 0 v) t = ([], t\<lparr>lt_work := ws @ [Reading ?next ?n (?k - ?n)]\<rparr>)"
    if "lt_work t = Indexing (Some ?old) # ws" "lt_index t = Some ?old" for t ws
    using that ix [of "t\<lparr>lt_work := ws\<rparr>"] by (simp add: lt_step_def Let_def)
  have read: "map le_lines (fst (lt_step (TailAnswer 0 v) t)) = [drop ?n (complete_lines (take b content))] \<and>
      lt_work (snd (lt_step (TailAnswer 0 v) t)) = ws"
    if "lt_work t = Reading ?next ?n (?k - ?n) # ws" for t ws
    using that rd by (simp add: lt_step_def Let_def)
  let ?t = "s\<lparr>lt_work := [Reading ?next ?n (?k - ?n), Reading ?next ?n (?k - ?n)]\<rparr>"
  have "log_tail.run [TailTick, TailTick, TailAnswer 0 v, TailAnswer 0 v] s = ([], ?t)"
    using s by (simp add: tick indexed)
  then have "fst (log_tail.run ([TailTick, TailTick, TailAnswer 0 v, TailAnswer 0 v] @ [TailAnswer 0 v, TailAnswer 0 v]) s) =
      fst (log_tail.run [TailAnswer 0 v, TailAnswer 0 v] ?t)"
    unfolding log_tail.run_append by (simp split: prod.split del: log_tail.run.simps)
  moreover have "map le_lines (fst (log_tail.run [TailAnswer 0 v, TailAnswer 0 v] ?t)) = replicate 2 (drop ?n (complete_lines (take b content)))"
    using read [of ?t] read [of "snd (lt_step (TailAnswer 0 v) ?t)" "[]"]
    by (simp add: log_tail.run_fst numeral_2_eq_2 del: log_tail.run.simps) (simp add: log_tail.run.simps)
  ultimately show ?thesis by simp
qed

text \<open>A stop while \<open>start\<close> waits is undone: the stream still sends its first event and sets a timer that nothing clears.\<close>

lemma stop_during_start:
  assumes "lt_start cwd root (lt_new path) = Inr s" and "lt_step (TailAnswer 0 (Some (stat, content, chunks))) (lt_stop s) = (es, t)"
  shows "lt_stopped t \<and> lt_timer t \<and> length es = 1"
  using assms by (auto simp: lt_start_def lt_new_def lt_stop_def lt_step_def lt_started_def Let_def split: if_splits)

section \<open>ProcessLivenessStream\<close>

text \<open>A probed source: its label, the pid read from its file and whether that process exists.\<close>

record probe =
  pr_label :: string
  pr_pid :: "int option"
  pr_alive :: bool

record liveness =
  lv_label :: string
  lv_pid :: "int option"
  lv_alive :: bool
  lv_lastCheckedAt :: int
  lv_exitedAt :: "int option"

record liveness_event =
  ve_setSnapshots :: "liveness list"
  ve_removedLabels :: "string list"

text \<open>
  An entry of the work list is a tick that waits for the cluster's state; \<open>True\<close> marks the one that \<open>start\<close> awaits, after
  which it sets the timer.
\<close>

record liveness_stream =
  pl_prev :: "(string \<times> liveness) list"
  pl_stopped :: bool
  pl_timer :: bool
  pl_work :: "bool list"

definition pl_new :: liveness_stream where
  "pl_new = \<lparr>pl_prev = [], pl_stopped = False, pl_timer = False, pl_work = []\<rparr>"

definition pl_stop :: "liveness_stream \<Rightarrow> liveness_stream" where
  "pl_stop s = s\<lparr>pl_stopped := True, pl_timer := False\<rparr>"

definition pl_snapshot :: "(string \<times> liveness) list \<Rightarrow> int \<Rightarrow> probe \<Rightarrow> liveness" where
  "pl_snapshot prev now src =
     (let prior = map_of prev (pr_label src);
          exitedAt = (if pr_alive src then None
                      else if (case prior of Some p \<Rightarrow> lv_alive p | None \<Rightarrow> False) then Some now
                      else (case prior of
                              Some p \<Rightarrow> (case lv_exitedAt p of Some e \<Rightarrow> Some e | None \<Rightarrow> Some now)
                            | None \<Rightarrow> Some now))
      in \<lparr>lv_label = pr_label src, lv_pid = pr_pid src, lv_alive = pr_alive src, lv_lastCheckedAt = now,
          lv_exitedAt = exitedAt\<rparr>)"

definition pl_next :: "(string \<times> liveness) list \<Rightarrow> int \<Rightarrow> probe list \<Rightarrow> (string \<times> liveness) list" where
  "pl_next prev now sources =
     foldl (\<lambda>next src. AList.update (pr_label src) (pl_snapshot prev now src) next) [] sources"

definition pl_changed :: "(string \<times> liveness) list \<Rightarrow> string \<times> liveness \<Rightarrow> bool" where
  "pl_changed prev entry =
     (case entry of (label, snap) \<Rightarrow>
        case map_of prev label of
          None \<Rightarrow> True
        | Some prior \<Rightarrow> lv_pid prior \<noteq> lv_pid snap \<or> lv_alive prior \<noteq> lv_alive snap \<or> lv_exitedAt prior \<noteq> lv_exitedAt snap)"

definition pl_start :: "liveness_stream \<Rightarrow> liveness_stream" where
  "pl_start s = (if pl_stopped s then s\<lparr>pl_timer := True\<rparr> else s\<lparr>pl_work := pl_work s @ [True]\<rparr>)"

text \<open>\<open>tick\<close> up to its await.\<close>

definition pl_tick :: "liveness_stream \<Rightarrow> liveness_stream" where
  "pl_tick s = (if pl_stopped s then s else s\<lparr>pl_work := pl_work s @ [False]\<rparr>)"

text \<open>The rest of it, with the time and the probes of the sources; a \<open>getState\<close> that rejects ends it.\<close>

definition pl_probed :: "bool \<Rightarrow> (int \<times> probe list) option \<Rightarrow> liveness_stream \<Rightarrow> liveness_event list \<times> liveness_stream" where
  "pl_probed starting inp s =
     (case inp of
        None \<Rightarrow> ([], s)
      | Some (now, sources) \<Rightarrow>
          (let nxt = pl_next (pl_prev s) now sources;
               setSnapshots = map snd (filter (pl_changed (pl_prev s)) nxt);
               removedLabels = filter (\<lambda>label. map_of nxt label = None) (map fst (pl_prev s));
               s1 = s\<lparr>pl_prev := nxt, pl_timer := (pl_timer s \<or> starting)\<rparr>
           in (if length setSnapshots > 0 \<or> length removedLabels > 0
               then [\<lparr>ve_setSnapshots = setSnapshots, ve_removedLabels = removedLabels\<rparr>] else [], s1)))"

datatype liveness_input = LivenessStart | LivenessTick | LivenessAnswer nat "(int \<times> probe list) option"

definition pl_step :: "liveness_input \<Rightarrow> liveness_stream \<Rightarrow> liveness_event list \<times> liveness_stream" where
  "pl_step e s =
     (case e of
        LivenessStart \<Rightarrow> ([], pl_start s)
      | LivenessTick \<Rightarrow> ([], if pl_timer s then pl_tick s else s)
      | LivenessAnswer n inp \<Rightarrow>
          if n < length (pl_work s)
          then pl_probed (pl_work s ! n) inp (s\<lparr>pl_work := take n (pl_work s) @ drop (Suc n) (pl_work s)\<rparr>)
          else ([], s))"

lemma pl_probed_frame:
  "pl_stopped (snd (pl_probed b inp s)) = pl_stopped s" "pl_work (snd (pl_probed b inp s)) = pl_work s"
  "length (fst (pl_probed b inp s)) \<le> 1"
  by (auto simp: pl_probed_def Let_def split: option.split)

lemma pl_step_frame:
  assumes "pl_stopped s"
  shows "pl_stopped (snd (pl_step e s))" "length (fst (pl_step e s)) + length (pl_work (snd (pl_step e s))) \<le> length (pl_work s)"
proof -
  have one: "length (fst (pl_probed b inp t)) \<le> Suc 0" for b inp t using pl_probed_frame(3) [of b inp t] by simp
  have "length (fst (pl_probed b inp t)) + k - Suc 0 \<le> k" for b inp t k
    using one [of b inp t] by arith
  then show "length (fst (pl_step e s)) + length (pl_work (snd (pl_step e s))) \<le> length (pl_work s)"
    using assms by (auto simp: pl_step_def pl_start_def pl_tick_def pl_probed_frame split: liveness_input.split)
  show "pl_stopped (snd (pl_step e s))"
    using assms by (auto simp: pl_step_def pl_start_def pl_tick_def pl_probed_frame split: liveness_input.split)
qed

interpretation liveness: server_stream pl_stop pl_stopped pl_step "\<lambda>s. length (pl_work s)"
  by unfold_locales (simp_all add: pl_stop_def pl_step_frame)


text \<open>What a consumer makes of the events: set the snapshots, drop the removed labels.\<close>

definition merge_event :: "liveness_event \<Rightarrow> (string \<rightharpoonup> liveness) \<Rightarrow> (string \<rightharpoonup> liveness)" where
  "merge_event e view =
     (\<lambda>l. if l \<in> set (ve_removedLabels e) then None
          else (case map_of (map (\<lambda>snap. (lv_label snap, snap)) (ve_setSnapshots e)) l of
                  Some snap \<Rightarrow> Some snap | None \<Rightarrow> view l))"

definition observed :: "liveness \<Rightarrow> int option \<times> bool \<times> int option" where
  "observed snap = (lv_pid snap, lv_alive snap, lv_exitedAt snap)"

definition labelled :: "(string \<times> liveness) list \<Rightarrow> bool" where
  "labelled al \<longleftrightarrow> distinct (map fst al) \<and> (\<forall>(l, snap) \<in> set al. lv_label snap = l)"

lemma pl_next_labelled: "labelled (pl_next prev now sources)"
proof -
  have "labelled al \<Longrightarrow> labelled (foldl (\<lambda>next src. AList.update (pr_label src) (pl_snapshot prev now src) next) al sources)" for al
  proof (induction sources arbitrary: al)
    case (Cons src sources)
    have "lv_label snap = l" if "(l, snap) \<in> set (AList.update (pr_label src) (pl_snapshot prev now src) al)" for l snap
      using set_update_pair [OF that] Cons.prems by (auto simp: labelled_def pl_snapshot_def Let_def)
    with Cons have "labelled (AList.update (pr_label src) (pl_snapshot prev now src) al)"
      by (auto simp: labelled_def distinct_update)
    with Cons.IH show ?case by simp
  qed simp
  from this [of "[]"] show ?thesis by (simp add: pl_next_def labelled_def)
qed

lemma map_of_relabel: "labelled al \<Longrightarrow> map_of (map (\<lambda>snap. (lv_label snap, snap)) (map snd al)) = map_of al"
proof -
  assume "labelled al"
  then have "map (\<lambda>snap. (lv_label snap, snap)) (map snd al) = al"
    unfolding map_map by (intro map_idI) (auto simp: labelled_def)
  then show ?thesis by simp
qed

lemma map_of_filter_distinct:
  "distinct (map fst al) \<Longrightarrow> map_of (filter P al) l = (case map_of al l of None \<Rightarrow> None | Some v \<Rightarrow> if P (l, v) then Some v else None)"
proof (induction al)
  case (Cons a al)
  show ?case
  proof (cases "fst a = l")
    case True
    then have "map_of al l = None" using Cons.prems by (auto simp: map_of_eq_None_iff)
    with True Cons show ?thesis by (cases a) simp
  next
    case False
    with Cons show ?thesis by (cases a) auto
  qed
qed simp

lemma labelled_filter: "labelled al \<Longrightarrow> labelled (filter P al)"
  by (auto simp: labelled_def distinct_map_filter)

lemma merge_tick:
  assumes "\<forall>l. map_option observed (view l) = map_option observed (map_of prev l)"
    and "nxt = pl_next prev now sources"
    and "e = \<lparr>ve_setSnapshots = map snd (filter (pl_changed prev) nxt),
          ve_removedLabels = filter (\<lambda>label. map_of nxt label = None) (map fst prev)\<rparr>"
  shows "map_option observed (merge_event e view l) = map_option observed (map_of nxt l)"
proof -
  have lab: "labelled nxt" using assms(2) pl_next_labelled by simp
  have set: "map_of (map (\<lambda>snap. (lv_label snap, snap)) (ve_setSnapshots e)) l
      = (case map_of nxt l of None \<Rightarrow> None | Some v \<Rightarrow> if pl_changed prev (l, v) then Some v else None)"
    using map_of_relabel [OF labelled_filter [OF lab], of "pl_changed prev"] lab
    by (simp add: assms(3) map_of_filter_distinct labelled_def)
  have removed: "l \<in> set (ve_removedLabels e) \<longleftrightarrow> map_of nxt l = None \<and> map_of prev l \<noteq> None"
    by (auto simp: assms(3) map_of_eq_None_iff)
  show ?thesis
  proof (cases "map_of nxt l")
    case None
    with assms(1) show ?thesis using set removed by (cases "map_of prev l") (auto simp: merge_event_def)
  next
    case (Some v)
    show ?thesis
    proof (cases "pl_changed prev (l, v)")
      case True
      with Some show ?thesis using set removed by (simp add: merge_event_def)
    next
      case False
      then obtain p where "map_of prev l = Some p" "observed p = observed v"
        by (auto simp: pl_changed_def observed_def split: option.splits)
      with False Some assms(1) show ?thesis using set removed by (auto simp: merge_event_def)
    qed
  qed
qed

lemma no_event_no_change:
  assumes "filter (pl_changed prev) nxt = []" and "filter (\<lambda>label. map_of nxt label = None) (map fst prev) = []"
  shows "merge_event \<lparr>ve_setSnapshots = map snd (filter (pl_changed prev) nxt),
          ve_removedLabels = filter (\<lambda>label. map_of nxt label = None) (map fst prev)\<rparr> view = view"
  using assms by (simp add: merge_event_def)

lemma pl_probed_merge:
  assumes "\<forall>l. map_option observed (view l) = map_option observed (map_of (pl_prev s) l)"
  shows "\<forall>l. map_option observed (fold merge_event (fst (pl_probed b inp s)) view l)
    = map_option observed (map_of (pl_prev (snd (pl_probed b inp s))) l)"
proof (cases inp)
  case None
  then show ?thesis using assms by (simp add: pl_probed_def)
next
  case (Some i)
  obtain now sources where inp: "inp = Some (now, sources)" using Some by (cases i) simp
  let ?nxt = "pl_next (pl_prev s) now sources"
  let ?e = "\<lparr>ve_setSnapshots = map snd (filter (pl_changed (pl_prev s)) ?nxt),
          ve_removedLabels = filter (\<lambda>label. map_of ?nxt label = None) (map fst (pl_prev s))\<rparr>"
  have merged: "\<forall>l. map_option observed (merge_event ?e view l) = map_option observed (map_of ?nxt l)"
    using merge_tick [OF assms refl refl] by blast
  have events: "fst (pl_probed b inp s) = (if length (ve_setSnapshots ?e) > 0 \<or> length (ve_removedLabels ?e) > 0 then [?e] else [])"
    by (simp add: pl_probed_def inp Let_def filter_map)
  have "fold merge_event (fst (pl_probed b inp s)) view = merge_event ?e view"
    using no_event_no_change [of "pl_prev s" ?nxt view] unfolding events by (auto simp: filter_map)
  moreover have "pl_prev (snd (pl_probed b inp s)) = ?nxt" by (simp add: pl_probed_def inp Let_def)
  ultimately show ?thesis using merged by simp
qed

lemma liveness_view:
  assumes "\<forall>l. map_option observed (view l) = map_option observed (map_of (pl_prev s) l)"
  shows "\<forall>l. map_option observed (fold merge_event (fst (liveness.run inps s)) view l)
    = map_option observed (map_of (pl_prev (snd (liveness.run inps s))) l)"
  using assms
proof (induction inps arbitrary: s view)
  case (Cons inp inps)
  have "\<forall>l. map_option observed (fold merge_event (fst (pl_step inp s)) view l)
    = map_option observed (map_of (pl_prev (snd (pl_step inp s))) l)"
    using Cons.prems pl_probed_merge [of view "s\<lparr>pl_work := ws\<rparr>" for ws]
    by (auto simp: pl_step_def pl_start_def pl_tick_def split: liveness_input.split)
  from Cons.IH [OF this] show ?case
    by (simp add: liveness.run_fst liveness.run_snd del: liveness.run.simps)
qed simp

text \<open>
  C40: The liveness stream only sends differences, and they are enough: a consumer that merges every event
  into an empty view knows, after any starts, ticks, answers and failures in any order, pid, state and exit time of
  exactly the sources the server last saw.
\<close>

theorem liveness_diffs_suffice:
  "map_option observed (fold merge_event (fst (liveness.run inps pl_new)) Map.empty l)
    = map_option observed (map_of (pl_prev (snd (liveness.run inps pl_new))) l)"
  using liveness_view [of Map.empty pl_new inps] by (simp add: pl_new_def)

section \<open>EnvelopeWatchStream\<close>

text \<open>
  \<open>ew_starting\<close> counts the starts that wait for \<open>mkdir\<close>; \<open>ew_hydration\<close> is how far the one hydration has come;
  \<open>ew_reading\<close> holds the keys (with the \<open>hydrating\<close> flag) whose pair is being read: the check for a
  seen key comes before the read, the note that it was seen after it.
\<close>

datatype hydration = Unscheduled | Scheduled | Listing | Hydrating "string list"

record watch_stream =
  ew_seen :: "string set"
  ew_stopped :: bool
  ew_watching :: bool
  ew_starting :: nat
  ew_hydration :: hydration
  ew_reading :: "(string \<times> bool) list"

datatype envelope_event_kind = Hydrated | Added

text \<open>The epoch, the checksum and the endpoints of the payload are those of the parsed key.\<close>

type_synonym 'r envelope_event = "envelope_event_kind \<times> parsed_key \<times> 'r"

definition ew_new :: watch_stream where
  "ew_new = \<lparr>ew_seen = {}, ew_stopped = False, ew_watching = False, ew_starting = 0, ew_hydration = Unscheduled, ew_reading = []\<rparr>"

text \<open>\<open>start\<close> up to its await, and the rest of it (\<open>False\<close> when it rejects), which does not look at \<open>stopped\<close>.\<close>

definition ew_start :: "watch_stream \<Rightarrow> watch_stream" where
  "ew_start s = s\<lparr>ew_starting := Suc (ew_starting s)\<rparr>"

definition ew_started :: "bool \<Rightarrow> watch_stream \<Rightarrow> watch_stream" where
  "ew_started ok s =
     (if ew_starting s = 0 then s
      else if ok then s\<lparr>ew_starting := ew_starting s - 1, ew_watching := True, ew_hydration := Scheduled\<rparr>
      else s\<lparr>ew_starting := ew_starting s - 1\<rparr>)"

definition ew_stop :: "watch_stream \<Rightarrow> watch_stream" where
  "ew_stop s = s\<lparr>ew_stopped := True, ew_watching := False, ew_seen := {}\<rparr>"

definition tryEmitBaseKey :: "string \<Rightarrow> bool \<Rightarrow> watch_stream \<Rightarrow> watch_stream" where
  "tryEmitBaseKey baseKey hydrating s =
     (if baseKey \<in> ew_seen s then s else s\<lparr>ew_reading := ew_reading s @ [(baseKey, hydrating)]\<rparr>)"

text \<open>What \<open>readPair\<close> gives, when both files were read and decoded as \<open>contents\<close>, or not.\<close>

definition readPair :: "string \<Rightarrow> 'r option \<Rightarrow> (parsed_key \<times> 'r) option" where
  "readPair baseKey contents =
     (case parseEnvelopeStorageKey baseKey of None \<Rightarrow> None | Some parsed \<Rightarrow> map_option (\<lambda>r. (parsed, r)) contents)"

definition finishRead :: "nat \<Rightarrow> 'r option \<Rightarrow> watch_stream \<Rightarrow> 'r envelope_event list \<times> watch_stream" where
  "finishRead n contents s =
     (if n < length (ew_reading s)
      then (case ew_reading s ! n of (baseKey, hydrating) \<Rightarrow>
              let s1 = s\<lparr>ew_reading := take n (ew_reading s) @ drop (Suc n) (ew_reading s)\<rparr>
              in case readPair baseKey contents of
                   None \<Rightarrow> ([], s1)
                 | Some (parsed, r) \<Rightarrow>
                     ([(if hydrating then Hydrated else Added, parsed, r)], s1\<lparr>ew_seen := insert baseKey (ew_seen s1)\<rparr>))
      else ([], s))"

definition tryEmit :: "string \<Rightarrow> bool \<Rightarrow> watch_stream \<Rightarrow> watch_stream" where
  "tryEmit filename hydrating s =
     (if \<not> ends_with filename MetadataExt then s
      else tryEmitBaseKey (js_slice filename 0 (- int (length MetadataExt))) hydrating s)"

text \<open>The watcher's callback; an event without a file name is the empty name.\<close>

definition onWatch :: "string \<Rightarrow> watch_stream \<Rightarrow> watch_stream" where
  "onWatch filename s = (if filename = [] \<or> ew_stopped s then s else tryEmit filename False s)"

text \<open>\<open>hydrate\<close>: its first turn, the listing of the directory, and the turns of its loop, each after the last one's read.\<close>

definition hydrate :: "watch_stream \<Rightarrow> watch_stream" where
  "hydrate s = (if ew_hydration s \<noteq> Scheduled then s else s\<lparr>ew_hydration := (if ew_stopped s then Unscheduled else Listing)\<rparr>)"

definition hydrate_listed :: "string list option \<Rightarrow> watch_stream \<Rightarrow> watch_stream" where
  "hydrate_listed existing s =
     (if ew_hydration s \<noteq> Listing then s
      else s\<lparr>ew_hydration := (case existing of None \<Rightarrow> Unscheduled | Some files \<Rightarrow> Hydrating (base_keys files))\<rparr>)"

definition hydrateKey :: "string \<Rightarrow> watch_stream \<Rightarrow> watch_stream" where
  "hydrateKey baseKey s = (if ew_stopped s then s else tryEmitBaseKey baseKey True s)"

definition hydrate_next :: "watch_stream \<Rightarrow> watch_stream" where
  "hydrate_next s =
     (case ew_hydration s of
        Hydrating (baseKey # baseKeys) \<Rightarrow>
          if list_ex snd (ew_reading s) then s else hydrateKey baseKey (s\<lparr>ew_hydration := Hydrating baseKeys\<rparr>)
      | _ \<Rightarrow> s)"

datatype 'r watch_event =
  WatchStart | WatchStarted bool | FileEvent string | HydrateTurn | HydrateListed "string list option" | HydrateNext
| ReadAnswer nat "'r option"

definition ew_step :: "'r watch_event \<Rightarrow> watch_stream \<Rightarrow> 'r envelope_event list \<times> watch_stream" where
  "ew_step e s =
     (case e of
        WatchStart \<Rightarrow> ([], ew_start s)
      | WatchStarted ok \<Rightarrow> ([], ew_started ok s)
      | FileEvent filename \<Rightarrow> ([], if ew_watching s then onWatch filename s else s)
      | HydrateTurn \<Rightarrow> ([], hydrate s)
      | HydrateListed existing \<Rightarrow> ([], hydrate_listed existing s)
      | HydrateNext \<Rightarrow> ([], hydrate_next s)
      | ReadAnswer n contents \<Rightarrow> finishRead n contents s)"

lemma ew_stopped_steps:
  assumes "ew_stopped s"
  shows "ew_stopped (ew_started ok s)" "ew_reading (ew_started ok s) = ew_reading s" "onWatch f s = s" "ew_stopped (hydrate s)"
    "ew_reading (hydrate s) = ew_reading s" "ew_stopped (hydrate_listed l s)" "ew_reading (hydrate_listed l s) = ew_reading s"
    "ew_stopped (hydrate_next s)" "ew_reading (hydrate_next s) = ew_reading s"
  using assms
  by (auto simp: ew_started_def onWatch_def hydrate_def hydrate_listed_def hydrate_next_def hydrateKey_def split: hydration.split list.split)

lemma finishRead_frame:
  "ew_stopped (snd (finishRead n c s)) = ew_stopped s"
  "length (fst (finishRead n c s)) + length (ew_reading (snd (finishRead n c s))) \<le> length (ew_reading s)"
  using take_out [of n "ew_reading s"] by (auto simp: finishRead_def Let_def split: option.split prod.split)

interpretation watch: server_stream ew_stop ew_stopped "ew_step :: 'r watch_event \<Rightarrow> _" "\<lambda>s. length (ew_reading s)"
  by unfold_locales
    (auto simp: ew_stop_def ew_step_def ew_stopped_steps ew_start_def finishRead_frame split: watch_event.split)

text \<open>
  The reads of one key that a run ends, with the \<open>hydrating\<close> flag they were made with and what \<^const>\<open>readPair\<close> gave;
  what such a read emits; whether reads of the key never overlap; and the two ways in which the directory reports
  a key: a file event while the watcher is there, and the listing of the hydration.
\<close>

primrec key_reads :: "string \<Rightarrow> 'r watch_event list \<Rightarrow> watch_stream \<Rightarrow> (bool \<times> (parsed_key \<times> 'r) option) list" where
  "key_reads k [] s = []"
| "key_reads k (e # es) s =
     (case e of
        ReadAnswer n contents \<Rightarrow>
          if n < length (ew_reading s) \<and> fst (ew_reading s ! n) = k then [(snd (ew_reading s ! n), readPair k contents)] else []
      | _ \<Rightarrow> []) @ key_reads k es (snd (ew_step e s))"

definition announcement :: "bool \<times> (parsed_key \<times> 'r) option \<Rightarrow> 'r envelope_event list" where
  "announcement a =
     (case snd a of None \<Rightarrow> [] | Some (parsed, r) \<Rightarrow> [(if fst a then Hydrated else Added, parsed, r)])"

definition announced :: "string \<Rightarrow> 'r envelope_event list \<Rightarrow> 'r envelope_event list" where
  "announced k es = filter (\<lambda>e. pk_key (fst (snd e)) = k) es"

primrec single_reads :: "string \<Rightarrow> 'r watch_event list \<Rightarrow> watch_stream \<Rightarrow> bool" where
  "single_reads k [] s = (count_list (map fst (ew_reading s)) k \<le> 1)"
| "single_reads k (e # es) s = (count_list (map fst (ew_reading s)) k \<le> 1 \<and> single_reads k es (snd (ew_step e s)))"

definition reported :: "string \<Rightarrow> 'r watch_event \<Rightarrow> watch_stream \<Rightarrow> bool" where
  "reported k e s =
     (case e of
        FileEvent filename \<Rightarrow> ew_watching s \<and> filename = k @ MetadataExt
      | HydrateListed (Some files) \<Rightarrow> ew_hydration s = Listing \<and> k @ MetadataExt \<in> set files
      | _ \<Rightarrow> False)"

text \<open>The keys the stream still has to do with: those being read and those the hydration has not come to.\<close>

definition pending :: "watch_stream \<Rightarrow> string set" where
  "pending s = fst ` set (ew_reading s) \<union> (case ew_hydration s of Hydrating baseKeys \<Rightarrow> set baseKeys | _ \<Rightarrow> {})"

lemma announced_append: "announced k (xs @ ys) = announced k xs @ announced k ys"
  by (simp add: announced_def)

lemma announced_Nil: "announced k [] = []"
  by (simp add: announced_def)

lemma readPair_key: "readPair k c = Some (p, r) \<Longrightarrow> pk_key p = k"
  by (auto simp: readPair_def parseEnvelopeStorageKey_def Let_def split: option.splits if_splits)

lemma base_key_of_name: "js_slice (k @ MetadataExt) 0 (- int (length MetadataExt)) = k"
  by (simp add: js_slice_def js_rel_def MetadataExt_def)

lemma finishRead_announced:
  "announced k (fst (finishRead n c s)) =
     (if n < length (ew_reading s) \<and> fst (ew_reading s ! n) = k
      then announcement (snd (ew_reading s ! n), readPair k c) else [])"
  by (auto simp: finishRead_def announced_def announcement_def Let_def dest: readPair_key split: prod.split option.split)

text \<open>What is announced of a key is what its reads gave, and nothing else.\<close>

lemma announced_reads: "announced k (fst (watch.run es s)) = concat (map announcement (key_reads k es s))"
proof (induction es arbitrary: s)
  case (Cons e es)
  have "announced k (fst (ew_step e s)) = concat (map announcement
      (case e of ReadAnswer n c \<Rightarrow> if n < length (ew_reading s) \<and> fst (ew_reading s ! n) = k
          then [(snd (ew_reading s ! n), readPair k c)] else [] | _ \<Rightarrow> []))"
    by (cases e) (auto simp: ew_step_def announced_Nil finishRead_announced)
  with Cons.IH show ?case by (simp add: watch.run_fst announced_append del: watch.run.simps)
qed (simp add: announced_Nil)

lemma finishRead_seen:
  "k \<in> ew_seen (snd (finishRead n c s)) \<longleftrightarrow> k \<in> ew_seen s \<or> announced k (fst (finishRead n c s)) \<noteq> []"
  by (auto simp: finishRead_def announced_def Let_def dest: readPair_key split: prod.split option.split)

lemma finishRead_reading:
  "n < length (ew_reading s) \<Longrightarrow> ew_reading (snd (finishRead n c s)) = take n (ew_reading s) @ drop (Suc n) (ew_reading s)"
  "\<not> n < length (ew_reading s) \<Longrightarrow> snd (finishRead n c s) = s"
  by (auto simp: finishRead_def Let_def split: prod.split option.split)

lemma silent_steps:
  "ew_seen (ew_start s) = ew_seen s" "ew_seen (ew_started b s) = ew_seen s" "ew_seen (onWatch f s) = ew_seen s"
  "ew_seen (hydrate s) = ew_seen s" "ew_seen (hydrate_listed l s) = ew_seen s" "ew_seen (hydrate_next s) = ew_seen s"
  by (auto simp: ew_start_def ew_started_def onWatch_def tryEmit_def tryEmitBaseKey_def hydrate_def hydrate_listed_def
      hydrate_next_def hydrateKey_def split: hydration.split list.split)

text \<open>A key is not read again once it was announced.\<close>

lemma silent_reading:
  assumes "k \<in> ew_seen s"
  shows "count_list (map fst (ew_reading (ew_start s))) k = count_list (map fst (ew_reading s)) k"
    "count_list (map fst (ew_reading (ew_started b s))) k = count_list (map fst (ew_reading s)) k"
    "count_list (map fst (ew_reading (onWatch f s))) k = count_list (map fst (ew_reading s)) k"
    "count_list (map fst (ew_reading (hydrate s))) k = count_list (map fst (ew_reading s)) k"
    "count_list (map fst (ew_reading (hydrate_listed l s))) k = count_list (map fst (ew_reading s)) k"
    "count_list (map fst (ew_reading (hydrate_next s))) k = count_list (map fst (ew_reading s)) k"
  using assms
  by (auto simp: ew_start_def ew_started_def onWatch_def tryEmit_def tryEmitBaseKey_def hydrate_def hydrate_listed_def
      hydrate_next_def hydrateKey_def split: hydration.split list.split)

lemma count_taken:
  "n < length xs \<Longrightarrow> count_list (map fst (take n xs @ drop (Suc n) xs)) k
     + (if fst (xs ! n) = k then 1 else 0) = count_list (map fst xs) k"
proof -
  assume "n < length xs"
  then have "count_list (map fst xs) k = count_list (map fst (take n xs @ xs ! n # drop (Suc n) xs)) k"
    by (simp add: id_take_nth_drop [symmetric])
  then show ?thesis by simp
qed

lemma single_reads_head: "single_reads k es s \<Longrightarrow> count_list (map fst (ew_reading s)) k \<le> 1"
  by (cases es) simp_all

lemma single_step:
  assumes "single_reads k (e # es) s" and "k \<in> ew_seen s \<longrightarrow> k \<notin> fst ` set (ew_reading s)"
  defines "s1 \<equiv> snd (ew_step e s)"
  shows "k \<in> ew_seen s1 \<longrightarrow> k \<notin> fst ` set (ew_reading s1)"
    and "length (announced k (fst (ew_step e s))) \<le> 1"
    and "announced k (fst (ew_step e s)) \<noteq> [] \<longleftrightarrow> k \<notin> ew_seen s \<and> k \<in> ew_seen s1"
proof -
  have zero: "k \<notin> fst ` set xs \<longleftrightarrow> count_list (map fst xs) k = 0" for xs :: "(string \<times> bool) list"
    by (simp add: count_list_0_iff)
  have one: "length (announced k (fst (finishRead n c s))) \<le> 1" for n and c :: "'a option"
    by (simp add: finishRead_announced announcement_def split: option.split prod.split)
  have quiet: "\<not> (\<exists>n c. e = ReadAnswer n c) \<Longrightarrow> fst (ew_step e s) = [] \<and> ew_seen s1 = ew_seen s \<and>
      (k \<in> ew_seen s \<longrightarrow> count_list (map fst (ew_reading s1)) k = count_list (map fst (ew_reading s)) k)"
    unfolding s1_def by (cases e) (auto simp: ew_step_def silent_steps silent_reading)
  have "(k \<in> ew_seen s1 \<longrightarrow> count_list (map fst (ew_reading s1)) k = 0) \<and> length (announced k (fst (ew_step e s))) \<le> 1
      \<and> (announced k (fst (ew_step e s)) \<noteq> [] \<longleftrightarrow> k \<notin> ew_seen s \<and> k \<in> ew_seen s1)"
  proof (cases "\<exists>n c. e = ReadAnswer n c")
    case True
    then obtain n c where e: "e = ReadAnswer n c" by blast
    then have step: "ew_step e s = finishRead n c s" by (simp add: ew_step_def)
    show ?thesis
    proof (cases "n < length (ew_reading s)")
      case True
      have count: "count_list (map fst (ew_reading s1)) k + (if fst (ew_reading s ! n) = k then 1 else 0)
          = count_list (map fst (ew_reading s)) k"
        using count_taken [OF True] by (simp add: s1_def step finishRead_reading(1) [OF True])
      have "count_list (map fst (ew_reading s)) k \<le> 1" using single_reads_head [OF assms(1)] .
      moreover have "announced k (fst (ew_step e s)) \<noteq> [] \<Longrightarrow> fst (ew_reading s ! n) = k"
        by (simp add: step finishRead_announced split: if_splits)
      ultimately show ?thesis
        using count one [of n c] finishRead_seen [of k n c s] assms(2)[unfolded zero]
        by (auto simp: s1_def step split: if_splits)
    next
      case False
      then show ?thesis using assms(2)[unfolded zero] finishRead_seen [of k n c s]
        by (auto simp: s1_def step finishRead_reading(2) finishRead_announced)
    qed
  next
    case False
    from quiet [OF this] show ?thesis using assms(2)[unfolded zero] by (auto simp: announced_Nil)
  qed
  then show "k \<in> ew_seen s1 \<longrightarrow> k \<notin> fst ` set (ew_reading s1)" and "length (announced k (fst (ew_step e s))) \<le> 1"
    and "announced k (fst (ew_step e s)) \<noteq> [] \<longleftrightarrow> k \<notin> ew_seen s \<and> k \<in> ew_seen s1"
    unfolding zero by blast+
qed

lemma announced_at_most_once:
  "single_reads k es s \<Longrightarrow> k \<in> ew_seen s \<longrightarrow> k \<notin> fst ` set (ew_reading s)
   \<Longrightarrow> length (announced k (fst (watch.run es s))) \<le> (if k \<in> ew_seen s then 0 else 1)"
proof (induction es arbitrary: s)
  case (Cons e es)
  let ?s1 = "snd (ew_step e s)"
  note step = single_step [OF Cons.prems]
  have "single_reads k es ?s1" using Cons.prems(1) by simp
  from Cons.IH [OF this step(1)]
  have ih: "length (announced k (fst (watch.run es ?s1))) \<le> (if k \<in> ew_seen ?s1 then 0 else 1)" .
  have mono: "k \<in> ew_seen s \<Longrightarrow> k \<in> ew_seen ?s1"
    by (cases e) (auto simp: ew_step_def silent_steps finishRead_seen)
  have "announced k (fst (watch.run (e # es) s)) = announced k (fst (ew_step e s)) @ announced k (fst (watch.run es ?s1))"
    by (simp add: watch.run_fst announced_append del: watch.run.simps)
  with ih mono step(2,3) show ?case
    by (cases "announced k (fst (ew_step e s)) = []") (auto split: if_splits)
qed (simp add: announced_Nil)

text \<open>A key the stream has to do with stays so until it is announced or a read of it fails.\<close>

definition owed :: "string \<Rightarrow> watch_stream \<Rightarrow> bool" where
  "owed k s \<longleftrightarrow> k \<in> ew_seen s \<or> k \<in> pending s"

lemma owed_read:
  "owed k s \<Longrightarrow> key_reads k [ReadAnswer n c] s = [] \<or> (\<exists>x. key_reads k [ReadAnswer n c] s = [x] \<and> snd x \<noteq> None)
   \<Longrightarrow> owed k (snd (finishRead n c s))"
proof -
  assume owed: "owed k s"
    and ok: "key_reads k [ReadAnswer n c] s = [] \<or> (\<exists>x. key_reads k [ReadAnswer n c] s = [x] \<and> snd x \<noteq> None)"
  have hyd: "ew_hydration (snd (finishRead n c s)) = ew_hydration s"
    by (auto simp: finishRead_def Let_def split: prod.split option.split)
  show ?thesis
  proof (cases "n < length (ew_reading s)")
    case True
    let ?r = "ew_reading s"
    have split: "set ?r = insert (?r ! n) (set (take n ?r @ drop (Suc n) ?r))"
      using id_take_nth_drop [OF True] by (metis list.set(2) set_append Un_insert_right)
    show ?thesis
    proof (cases "fst (?r ! n) = k")
      case True
      with \<open>n < length ?r\<close> ok obtain p r where "readPair k c = Some (p, r)" by auto
      with True \<open>n < length ?r\<close> have "announced k (fst (finishRead n c s)) \<noteq> []"
        by (simp add: finishRead_announced announcement_def)
      then show ?thesis by (simp add: owed_def finishRead_seen)
    next
      case False
      have "k \<in> pending s \<Longrightarrow> k \<in> pending (snd (finishRead n c s))"
        using False split by (auto simp: pending_def hyd finishRead_reading(1) [OF True])
      with owed show ?thesis by (auto simp: owed_def finishRead_seen)
    qed
  next
    case False
    then show ?thesis using owed by (simp add: finishRead_reading)
  qed
qed

lemma owed_step:
  assumes "owed k s" and "\<not> ew_stopped s" and "e \<noteq> WatchStarted True" and "None \<notin> snd ` set (key_reads k [e] s)"
  shows "owed k (snd (ew_step e s)) \<and> \<not> ew_stopped (snd (ew_step e s))"
proof (cases e)
  case (ReadAnswer n c)
  have "key_reads k [ReadAnswer n c] s = [] \<or> (\<exists>x. key_reads k [ReadAnswer n c] s = [x] \<and> snd x \<noteq> None)"
    using assms(4) ReadAnswer by (cases "readPair k c") auto
  from owed_read [OF assms(1) this] show ?thesis using ReadAnswer assms(2) by (simp add: ew_step_def finishRead_frame)
next
  case (HydrateTurn)
  then show ?thesis using assms by (auto simp: ew_step_def hydrate_def owed_def pending_def split: hydration.splits)
next
  case (HydrateListed l)
  then show ?thesis using assms by (auto simp: ew_step_def hydrate_listed_def owed_def pending_def split: hydration.splits)
next
  case HydrateNext
  then show ?thesis using assms
    by (auto simp: ew_step_def hydrate_next_def hydrateKey_def tryEmitBaseKey_def owed_def pending_def split: hydration.splits list.split)
next
  case (FileEvent f)
  then show ?thesis using assms
    by (auto simp: ew_step_def onWatch_def tryEmit_def tryEmitBaseKey_def owed_def pending_def split: hydration.splits)
qed (use assms in \<open>auto simp: ew_step_def ew_start_def ew_started_def owed_def pending_def\<close>)

lemma reported_owed:
  assumes "reported k e s" and "\<not> ew_stopped s"
  shows "owed k (snd (ew_step e s)) \<and> \<not> ew_stopped (snd (ew_step e s))"
proof -
  have name: "k @ MetadataExt \<noteq> []" by (simp add: MetadataExt_def)
  have listed: "k @ MetadataExt \<in> set files \<Longrightarrow> k \<in> set (base_keys files)" for files
    using base_key_of_name [of k] by (force simp: base_keys_def)
  show ?thesis
    using assms listed name
    by (auto simp: reported_def ew_step_def onWatch_def tryEmit_def tryEmitBaseKey_def base_key_of_name hydrate_listed_def
        owed_def pending_def split: watch_event.splits option.splits)
qed

lemma owed_run:
  "owed k s \<Longrightarrow> \<not> ew_stopped s \<Longrightarrow> WatchStarted True \<notin> set es \<Longrightarrow> None \<notin> snd ` set (key_reads k es s)
   \<Longrightarrow> owed k (snd (watch.run es s))"
proof (induction es arbitrary: s)
  case (Cons e es)
  have head: "None \<notin> snd ` set (key_reads k [e] s)" and rest: "None \<notin> snd ` set (key_reads k es (snd (ew_step e s)))"
    using Cons.prems(4) by (auto simp: image_Un)
  have "owed k (snd (ew_step e s)) \<and> \<not> ew_stopped (snd (ew_step e s))"
    by (rule owed_step [OF Cons.prems(1,2) _ head]) (use Cons.prems(3) in auto)
  then have "owed k (snd (ew_step e s))" "\<not> ew_stopped (snd (ew_step e s))" by blast+
  with Cons.IH [OF this _ rest] Cons.prems(3) show ?case by (simp add: watch.run_snd del: watch.run.simps)
qed simp

lemma never_stopped: "\<not> ew_stopped s \<Longrightarrow> \<not> ew_stopped (snd (watch.run es s))"
proof (induction es arbitrary: s)
  case (Cons e es)
  have "\<not> ew_stopped (snd (ew_step e s))"
    using Cons.prems by (cases e) (auto simp: ew_step_def ew_start_def ew_started_def onWatch_def tryEmit_def tryEmitBaseKey_def
      hydrate_def hydrate_listed_def hydrate_next_def hydrateKey_def finishRead_frame split: hydration.split list.split)
  with Cons.IH show ?case by (simp add: watch.run_snd del: watch.run.simps)
qed simp

lemma seen_announced: "k \<in> ew_seen (snd (watch.run es s)) \<longleftrightarrow> k \<in> ew_seen s \<or> announced k (fst (watch.run es s)) \<noteq> []"
proof (induction es arbitrary: s)
  case (Cons e es)
  have "k \<in> ew_seen (snd (ew_step e s)) \<longleftrightarrow> k \<in> ew_seen s \<or> announced k (fst (ew_step e s)) \<noteq> []"
    by (cases e) (simp_all add: ew_step_def silent_steps announced_Nil finishRead_seen)
  with Cons.IH show ?case by (simp add: watch.run_fst watch.run_snd announced_append del: watch.run.simps)
qed (simp add: announced_Nil)

lemma report_served:
  assumes "reported k e (snd (watch.run es1 ew_new))" and "WatchStarted True \<notin> set es2"
    and "None \<notin> snd ` set (key_reads k es2 (snd (watch.run (es1 @ [e]) ew_new)))"
    and "k \<notin> pending (snd (watch.run (es1 @ e # es2) ew_new))"
  shows "announced k (fst (watch.run (es1 @ e # es2) ew_new)) \<noteq> []"
proof -
  let ?s1 = "snd (watch.run es1 ew_new)" and ?s = "snd (watch.run (es1 @ [e]) ew_new)"
  have run: "es1 @ e # es2 = (es1 @ [e]) @ es2" by simp
  have s: "?s = snd (ew_step e ?s1)" by (simp add: watch.run_append split: prod.split)
  have last: "snd (watch.run (es1 @ e # es2) ew_new) = snd (watch.run es2 ?s)"
    unfolding run by (subst watch.run_append) (simp split: prod.split)
  have "\<not> ew_stopped ?s1" by (rule never_stopped) (simp add: ew_new_def)
  from reported_owed [OF assms(1) this] have "owed k ?s" "\<not> ew_stopped ?s" unfolding s by blast+
  from owed_run [OF this assms(2,3)] assms(4) have "k \<in> ew_seen (snd (watch.run (es1 @ e # es2) ew_new))"
    unfolding last owed_def by blast
  then show ?thesis by (simp add: seen_announced ew_new_def)
qed

text \<open>
  C39: An envelope is announced once. In a run that starts from a fresh stream and is not stopped - any starts, listings,
  file events and answered reads, in any order - exactly the successful reads of a key are announced, with what they gave.
  If two reads of the key are never in progress together, that is at most once. And a key that was reported, by a file event
  or by the listing of the hydration, has been announced once the stream has nothing more to do with it, unless a read of
  it failed after the report or \<open>start\<close> completed again. So a reported, readable envelope comes exactly once.
\<close>

theorem envelope_announced_once:
  "announced k (fst (watch.run es ew_new)) = concat (map announcement (key_reads k es ew_new)) \<and>
   (single_reads k es ew_new \<longrightarrow> length (announced k (fst (watch.run es ew_new))) \<le> 1) \<and>
   (\<forall>es1 e es2. es = es1 @ e # es2 \<and> reported k e (snd (watch.run es1 ew_new)) \<and> WatchStarted True \<notin> set es2 \<and>
      None \<notin> snd ` set (key_reads k es2 (snd (watch.run (es1 @ [e]) ew_new))) \<and> k \<notin> pending (snd (watch.run es ew_new))
      \<longrightarrow> announced k (fst (watch.run es ew_new)) \<noteq> [])"
  using announced_reads [of k es ew_new] announced_at_most_once [of k es ew_new] report_served [of k]
  by (auto simp: ew_new_def)

lemmas watch_eval = watch.run_fst watch.run_snd watch.run.simps(1) fst_conv snd_conv append.simps

lemma envelope_announced_once_witness:
  "map (\<lambda>(kind, p, r). (kind, pk_epochIndex p, r)) (announced ''7-A-c0'' (fst (watch.run
      [WatchStart, WatchStarted True, HydrateTurn, FileEvent ''7-A-c0.metadata'', ReadAnswer 0 (None :: string option),
       HydrateListed (Some [''x'', ''7-A-c0.metadata'']), HydrateNext, ReadAnswer 0 (Some ''env''), FileEvent ''7-A-c0.metadata'']
      ew_new))) = [(Hydrated, 7, ''env'')]"
proof -
  let ?es1 = "[WatchStart, WatchStarted True, HydrateTurn, FileEvent ''7-A-c0.metadata'', ReadAnswer 0 (None :: string option)]"
  let ?e = "HydrateListed (Some [''x'', ''7-A-c0.metadata'']) :: string watch_event"
  let ?es2 = "[HydrateNext, ReadAnswer 0 (Some ''env''), FileEvent ''7-A-c0.metadata'']"
  have once: "single_reads ''7-A-c0'' (?es1 @ ?e # ?es2) ew_new" by code_simp
  have reported: "reported ''7-A-c0'' ?e (snd (watch.run ?es1 ew_new))" unfolding watch_eval by code_simp
  have ok: "None \<notin> snd ` set (key_reads ''7-A-c0'' ?es2 (snd (watch.run (?es1 @ [?e]) ew_new)))" unfolding watch_eval by code_simp
  have pending: "''7-A-c0'' \<notin> pending (snd (watch.run (?es1 @ ?e # ?es2) ew_new))" unfolding watch_eval by code_simp
  note claim = envelope_announced_once [of "''7-A-c0''" "?es1 @ ?e # ?es2"]
  have run: "announced ''7-A-c0'' (fst (watch.run (?es1 @ ?e # ?es2) ew_new))
      = concat (map announcement (key_reads ''7-A-c0'' (?es1 @ ?e # ?es2) ew_new))"
    by (rule conjunct1 [OF claim])
  have "length (announced ''7-A-c0'' (fst (watch.run (?es1 @ ?e # ?es2) ew_new))) \<le> 1"
    by (rule mp [OF conjunct1 [OF conjunct2 [OF claim]] once])
  have "announced ''7-A-c0'' (fst (watch.run (?es1 @ ?e # ?es2) ew_new)) \<noteq> []"
    by (rule mp [OF spec [OF spec [OF spec [OF conjunct2 [OF conjunct2 [OF claim]]]], of ?es1 ?e ?es2]])
       (intro conjI refl reported ok pending, simp)
  have "map (\<lambda>(kind, p, r). (kind, pk_epochIndex p, r))
      (concat (map announcement (key_reads ''7-A-c0'' (?es1 @ ?e # ?es2) ew_new))) = [(Hydrated, 7, ''env'')]"
    by code_simp
  with run show ?thesis by (simp only: append.simps)
qed

text \<open>Two reports in quick succession overlap: the key is checked before the read and noted after it.\<close>

lemma overlapping_reads_announce_twice:
  "map fst (fst (watch.run [WatchStart, WatchStarted True, FileEvent ''7-A-c0.metadata'', FileEvent ''7-A-c0.metadata'',
      ReadAnswer 0 (Some ''env''), ReadAnswer 0 (Some ''env'')] ew_new)) = [Added, Added]"
  unfolding watch_eval by code_simp

text \<open>
  What happens after \<open>stop\<close>: each call that was waiting may still end and emit, once; nothing else is emitted, however many
  timers, file events and answers were still to come.
\<close>

theorem streams_drain_after_stop:
  "length (fst (log_tail.run fs (lt_stop a))) \<le> length (lt_work a) \<and>
   length (fst (liveness.run ps (pl_stop b))) \<le> length (pl_work b) \<and>
   length (fst (watch.run ns (ew_stop c))) \<le> length (ew_reading c)"
  using log_tail.drains_after_stop [of fs a] liveness.drains_after_stop [of ps b] watch.drains_after_stop [of ns c] by blast

end
