(* ===== verification/Cell_Values.thy ===== *)
theory Cell_Values
  imports Prelude Complex_Main
begin

text \<open>
  \<open>ql-shared/src/values/CellFormatter.ts\<close> and \<open>CellValue.ts\<close>, with the lexical patterns of
  \<open>ql-shared/src/protocol/QueryResultPatterns.ts\<close>: the text of a cell by its column's logical type,
  and the typed comparison the result grid sorts by. A text is the list of its UTF-16 code units; a
  \<open>throw\<close> is \<^const>\<open>None\<close>. Two things are arguments: \<open>lower\<close>, the Unicode table behind
  \<open>toLowerCase\<close>, and \<open>show_float\<close>, the engine's shortest decimal of a double.
\<close>

section \<open>Texts\<close>

type_synonym utf16 = "nat list"

definition lit :: "string \<Rightarrow> utf16" where
  "lit s = map of_char s"

definition is_digit :: "nat \<Rightarrow> bool" where
  "is_digit c \<longleftrightarrow> 48 \<le> c \<and> c \<le> 57"

definition Minus :: nat where "Minus = 45"

definition DecimalPoint :: nat where "DecimalPoint = 46"

definition Zero :: nat where "Zero = 48"

text \<open>\<open>0|[1-9][0-9]*\<close>\<close>

definition UnsignedDecimal :: "utf16 \<Rightarrow> bool" where
  "UnsignedDecimal t \<longleftrightarrow> t \<noteq> [] \<and> list_all is_digit t \<and> (hd t = Zero \<longrightarrow> length t = 1)"

definition unsigned_part :: "utf16 \<Rightarrow> utf16" where
  "unsigned_part t = (if take 1 t = [Minus] then drop 1 t else t)"

definition SignedInteger :: "utf16 \<Rightarrow> bool" where
  "SignedInteger t \<longleftrightarrow> UnsignedDecimal (unsigned_part t)"

definition SignedDecimal :: "utf16 \<Rightarrow> bool" where
  "SignedDecimal t \<longleftrightarrow>
     (let parts = js_split DecimalPoint t
      in UnsignedDecimal (unsigned_part (hd parts)) \<and>
         (length parts = 1 \<or> length parts = 2 \<and> parts ! 1 \<noteq> [] \<and> list_all is_digit (parts ! 1)))"

definition hex_value :: "nat \<Rightarrow> nat option" where
  "hex_value c =
     (if is_digit c then Some (c - 48)
      else if 97 \<le> c \<and> c \<le> 102 then Some (c - 87)
      else if 65 \<le> c \<and> c \<le> 70 then Some (c - 55) else None)"

definition IeeeHex :: "utf16 \<Rightarrow> bool" where
  "IeeeHex t \<longleftrightarrow> map (\<lambda>c. if c = 88 then 120 else c) (take 2 t) = lit ''0x'' \<and> drop 2 t \<noteq> [] \<and>
     even (length (drop 2 t)) \<and> list_all (\<lambda>c. hex_value c \<noteq> None) (drop 2 t)"

text \<open>\<open>BigInt\<close> of an optionally signed run of digits (of the empty text: 0).\<close>

definition digits_nat :: "utf16 \<Rightarrow> nat" where
  "digits_nat t = foldl (\<lambda>n c. 10 * n + (c - 48)) 0 t"

definition big_int :: "utf16 \<Rightarrow> int" where
  "big_int t = (if take 1 t = [Minus] then - int (digits_nat (drop 1 t)) else int (digits_nat t))"

definition pad_end :: "utf16 \<Rightarrow> nat \<Rightarrow> utf16" where
  "pad_end t n = t @ replicate (n - length t) Zero"

section \<open>Columns and cells\<close>

datatype logical_type =
  integer_type | decimal_type | boolean_type | text_type | time_type | asset_type | extended_asset_type
| json_type | ieee_hex_type | enumeration_type

record query_column =
  qc_name :: utf16
  qc_logical_type :: logical_type

datatype cell_value = CNull | CBool bool | CStr utf16 | CArr "cell_value list" | CObj "(utf16 \<times> cell_value) list"

record asset_cell =
  ac_amount :: utf16
  ac_symbol :: utf16
  ac_precision :: utf16
  ac_contract :: "utf16 option"

datatype cell_format_mode = display_mode | canonical_mode

definition DefaultNullText :: utf16 where "DefaultNullText = lit ''NULL''"

section \<open>Formatting\<close>

definition ControlPictureBase :: nat where "ControlPictureBase = 0x2400"

definition LastC0Control :: nat where "LastC0Control = 0x1f"

definition DeleteCode :: nat where "DeleteCode = 0x7f"

definition DeletePicture :: nat where "DeletePicture = 0x2421"

definition escapeControlCharacters :: "utf16 \<Rightarrow> utf16" where
  "escapeControlCharacters t =
     map (\<lambda>c. if c = DeleteCode then DeletePicture else if c \<le> LastC0Control then ControlPictureBase + c else c) t"

definition padAssetFraction :: "utf16 \<Rightarrow> nat \<Rightarrow> utf16" where
  "padAssetFraction amount precision =
     (let parts = js_split DecimalPoint amount;
          integer = hd parts;
          fraction = (if length parts > 1 then parts ! 1 else []);
          padded = pad_end fraction precision
      in if length padded = 0 then integer else integer @ [DecimalPoint] @ padded)"

fun formatInteger :: "cell_value \<Rightarrow> utf16 option" where
  "formatInteger (CStr t) = (if SignedInteger t then Some t else None)"
| "formatInteger _ = None"

fun formatDecimal :: "cell_value \<Rightarrow> utf16 option" where
  "formatDecimal (CStr t) = (if SignedDecimal t then Some t else None)"
| "formatDecimal _ = None"

fun formatBoolean :: "cell_value \<Rightarrow> utf16 option" where
  "formatBoolean (CBool b) = Some (if b then lit ''true'' else lit ''false'')"
| "formatBoolean _ = None"

fun formatText :: "cell_format_mode \<Rightarrow> cell_value \<Rightarrow> utf16 option" where
  "formatText mode (CStr t) = Some (if mode = display_mode then escapeControlCharacters t else t)"
| "formatText mode _ = None"

fun assertAsset :: "cell_value \<Rightarrow> asset_cell option" where
  "assertAsset (CObj members) =
     (case (map_of members (lit ''amount''), map_of members (lit ''symbol''), map_of members (lit ''precision'')) of
        (Some (CStr amount), Some (CStr symbol), Some (CStr precision)) \<Rightarrow>
          if SignedDecimal amount \<and> UnsignedDecimal precision
          then (case map_of members (lit ''contract'') of
                  None \<Rightarrow> Some \<lparr>ac_amount = amount, ac_symbol = symbol, ac_precision = precision, ac_contract = None\<rparr>
                | Some (CStr c) \<Rightarrow> Some \<lparr>ac_amount = amount, ac_symbol = symbol, ac_precision = precision, ac_contract = Some c\<rparr>
                | _ \<Rightarrow> None)
          else None
      | _ \<Rightarrow> None)"
| "assertAsset _ = None"

definition formatAsset :: "query_column \<Rightarrow> cell_value \<Rightarrow> utf16 option" where
  "formatAsset column v =
     Option.bind (assertAsset v) (\<lambda>asset.
       let quantity = padAssetFraction (ac_amount asset) (digits_nat (ac_precision asset)) @ lit '' '' @ ac_symbol asset
       in if qc_logical_type column = extended_asset_type \<and> ac_contract asset = None then None
          else Some (case ac_contract asset of None \<Rightarrow> quantity | Some c \<Rightarrow> quantity @ lit ''@'' @ c))"

text \<open>\<open>JSON.stringify\<close> of a cell: there are no numbers in one.\<close>

definition hex_unit :: "nat \<Rightarrow> nat" where
  "hex_unit n = (if n < 10 then 48 + n else 87 + n)"

definition json_escape_unit :: "nat \<Rightarrow> utf16" where
  "json_escape_unit c =
     (if c = 34 then [92, 34] else if c = 92 then [92, 92]
      else if c = 8 then lit [CHR 0x5C, CHR ''b''] else if c = 12 then lit [CHR 0x5C, CHR ''f'']
      else if c = 10 then lit [CHR 0x5C, CHR ''n''] else if c = 13 then lit [CHR 0x5C, CHR ''r'']
      else if c = 9 then lit [CHR 0x5C, CHR ''t'']
      else if c < 32 \<or> (0xD800 \<le> c \<and> c \<le> 0xDFFF)
           then [92, 117, hex_unit (c div 4096), hex_unit (c div 256 mod 16), hex_unit (c div 16 mod 16), hex_unit (c mod 16)]
      else [c])"

text \<open>A surrogate pair is one character and written as it is; a lone surrogate is escaped.\<close>

fun json_escape :: "utf16 \<Rightarrow> utf16" where
  "json_escape [] = []"
| "json_escape [c] = json_escape_unit c"
| "json_escape (c # d # cs) =
     (if 0xD800 \<le> c \<and> c \<le> 0xDBFF \<and> 0xDC00 \<le> d \<and> d \<le> 0xDFFF then c # d # json_escape cs
      else json_escape_unit c @ json_escape (d # cs))"

definition json_string :: "utf16 \<Rightarrow> utf16" where
  "json_string t = [34] @ json_escape t @ [34]"

fun json_stringify :: "cell_value \<Rightarrow> utf16" where
  "json_stringify CNull = lit ''null''"
| "json_stringify (CBool b) = (if b then lit ''true'' else lit ''false'')"
| "json_stringify (CStr t) = json_string t"
| "json_stringify (CArr vs) = lit ''['' @ js_join (lit '','') (map json_stringify vs) @ lit '']''"
| "json_stringify (CObj fs) =
     lit ''{'' @ js_join (lit '','') (map (\<lambda>(k, v). json_string k @ lit '':'' @ json_stringify v) fs) @ lit ''}''"

definition formatIeeeHexText :: "cell_value \<Rightarrow> utf16 option" where
  "formatIeeeHexText v = (case v of CStr t \<Rightarrow> if IeeeHex t then Some t else None | _ \<Rightarrow> None)"

section \<open>IEEE values\<close>

datatype ieee = NotANumber | Infinite bool | Finite rat

fun hex_bytes :: "utf16 \<Rightarrow> nat list" where
  "hex_bytes (a # b # cs) = (16 * the (hex_value a) + the (hex_value b)) # hex_bytes cs"
| "hex_bytes _ = []"

definition le_nat :: "nat list \<Rightarrow> nat" where
  "le_nat bs = foldr (\<lambda>b n. b + 256 * n) bs 0"

definition pow2 :: "int \<Rightarrow> rat" where
  "pow2 e = (if 0 \<le> e then 2 ^ nat e else 1 / 2 ^ nat (- e))"

text \<open>The value of \<open>ebits\<close> exponent and \<open>mbits\<close> fraction bits (binary32: 8, 23; binary64: 11, 52).\<close>

definition ieee_value :: "nat \<Rightarrow> nat \<Rightarrow> nat \<Rightarrow> ieee" where
  "ieee_value ebits mbits n =
     (let m = n mod 2 ^ mbits; e = n div 2 ^ mbits mod 2 ^ ebits; neg = odd (n div 2 ^ (mbits + ebits));
          bias = 2 ^ (ebits - 1) - (1 :: int)
      in if e = 2 ^ ebits - 1 then (if m = 0 then Infinite neg else NotANumber)
         else Finite ((if neg then -1 else 1) *
           (if e = 0 then of_nat m * pow2 (1 - bias - int mbits)
            else of_nat (2 ^ mbits + m) * pow2 (int e - bias - int mbits))))"

definition decodeIeeeHex :: "utf16 \<Rightarrow> ieee option" where
  "decodeIeeeHex hex =
     (let bytes = hex_bytes (drop 2 hex)
      in if length bytes = 4 then Some (ieee_value 8 23 (le_nat bytes))
         else if length bytes = 8 then Some (ieee_value 11 52 (le_nat bytes)) else None)"

definition formatIeeeHex :: "(ieee \<Rightarrow> utf16) \<Rightarrow> cell_format_mode \<Rightarrow> cell_value \<Rightarrow> utf16 option" where
  "formatIeeeHex show_float mode v =
     map_option (\<lambda>hex. if mode = canonical_mode then hex
                       else (case decodeIeeeHex hex of None \<Rightarrow> hex | Some x \<Rightarrow> show_float x))
       (formatIeeeHexText v)"

definition cell_format :: "(ieee \<Rightarrow> utf16) \<Rightarrow> cell_format_mode \<Rightarrow> query_column \<Rightarrow> cell_value \<Rightarrow> utf16 option" where
  "cell_format show_float mode column v =
     (if v = CNull then Some DefaultNullText
      else (case qc_logical_type column of
              integer_type \<Rightarrow> formatInteger v
            | decimal_type \<Rightarrow> formatDecimal v
            | boolean_type \<Rightarrow> formatBoolean v
            | text_type \<Rightarrow> formatText mode v
            | enumeration_type \<Rightarrow> formatText mode v
            | time_type \<Rightarrow> formatText mode v
            | asset_type \<Rightarrow> formatAsset column v
            | extended_asset_type \<Rightarrow> formatAsset column v
            | json_type \<Rightarrow> Some (json_stringify v)
            | ieee_hex_type \<Rightarrow> formatIeeeHex show_float mode v))"

text \<open>The canonical text never shows a float.\<close>

definition canonical :: "query_column \<Rightarrow> cell_value \<Rightarrow> utf16 option" where
  "canonical column v = cell_format (\<lambda>_. []) canonical_mode column v"

definition containsText :: "(utf16 \<Rightarrow> utf16) \<Rightarrow> (ieee \<Rightarrow> utf16) \<Rightarrow> query_column \<Rightarrow> cell_value \<Rightarrow> utf16 \<Rightarrow> bool option" where
  "containsText lower show_float column v t =
     map_option (\<lambda>shown. js_includes (lower shown) (lower t)) (cell_format show_float display_mode column v)"

datatype cell_alignment = left_aligned | right_aligned

definition alignment :: "query_column \<Rightarrow> cell_alignment" where
  "alignment column =
     (if qc_logical_type column \<in> {integer_type, decimal_type, asset_type, extended_asset_type}
      then right_aligned else left_aligned)"

section \<open>Comparison\<close>

datatype sort_key =
  KNull | KInteger int | KDecimal utf16 | KBoolean bool | KAsset asset_cell | KHex utf16 "ieee option" | KText utf16

definition sortKey :: "query_column \<Rightarrow> cell_value \<Rightarrow> sort_key option" where
  "sortKey column v =
     (if v = CNull then Some KNull
      else (case qc_logical_type column of
              integer_type \<Rightarrow> map_option (\<lambda>t. KInteger (big_int t)) (formatInteger v)
            | decimal_type \<Rightarrow> map_option KDecimal (formatDecimal v)
            | boolean_type \<Rightarrow> map_option (\<lambda>t. KBoolean (t = lit ''true'')) (formatBoolean v)
            | asset_type \<Rightarrow> map_option KAsset (assertAsset v)
            | extended_asset_type \<Rightarrow> map_option KAsset (assertAsset v)
            | ieee_hex_type \<Rightarrow> map_option (\<lambda>hex. KHex hex (decodeIeeeHex hex)) (formatIeeeHexText v)
            | _ \<Rightarrow> map_option KText (canonical column v)))"

definition compareDecimal :: "utf16 \<Rightarrow> utf16 \<Rightarrow> int" where
  "compareDecimal left right =
     (let lp = js_split DecimalPoint left; rp = js_split DecimalPoint right;
          leftFraction = (if length lp > 1 then lp ! 1 else []);
          rightFraction = (if length rp > 1 then rp ! 1 else []);
          scale = max (length leftFraction) (length rightFraction)
      in sgn (big_int (hd lp @ pad_end leftFraction scale) - big_int (hd rp @ pad_end rightFraction scale)))"

fun compareText :: "utf16 \<Rightarrow> utf16 \<Rightarrow> int" where
  "compareText [] [] = 0"
| "compareText [] (_ # _) = -1"
| "compareText (_ # _) [] = 1"
| "compareText (a # as) (b # bs) = (if a < b then -1 else if b < a then 1 else compareText as bs)"

definition compareAsset :: "asset_cell \<Rightarrow> asset_cell \<Rightarrow> int" where
  "compareAsset left right =
     (if ac_symbol left = ac_symbol right then compareDecimal (ac_amount left) (ac_amount right)
      else compareText (ac_symbol left) (ac_symbol right))"

text \<open>\<open>sign(left - right)\<close> on floats; the difference of equal infinities is \<open>NaN\<close>, whose sign is 0.\<close>

fun compare_ieee :: "ieee \<Rightarrow> ieee \<Rightarrow> int" where
  "compare_ieee (Finite a) (Finite b) = (if a < b then -1 else if b < a then 1 else 0)"
| "compare_ieee (Infinite a) (Infinite b) = (if a = b then 0 else if a then -1 else 1)"
| "compare_ieee (Infinite a) _ = (if a then -1 else 1)"
| "compare_ieee _ (Infinite b) = (if b then 1 else -1)"
| "compare_ieee _ _ = 0"

fun compareIeeeHex :: "utf16 \<times> ieee option \<Rightarrow> utf16 \<times> ieee option \<Rightarrow> int" where
  "compareIeeeHex (lh, Some l) (rh, Some r) =
     (if l \<noteq> NotANumber \<and> r \<noteq> NotANumber then compare_ieee l r else compareText lh rh)"
| "compareIeeeHex (lh, _) (rh, _) = compareText lh rh"

definition nullOrder :: "sort_key \<Rightarrow> sort_key \<Rightarrow> int" where
  "nullOrder left right = (if left = right then 0 else if left = KNull then 1 else -1)"

text \<open>Keys of one column; the last equation is never reached by them.\<close>

fun compare_keys :: "sort_key \<Rightarrow> sort_key \<Rightarrow> int" where
  "compare_keys (KInteger l) (KInteger r) = sgn (l - r)"
| "compare_keys (KDecimal l) (KDecimal r) = compareDecimal l r"
| "compare_keys (KBoolean l) (KBoolean r) = (if l then 1 else 0) - (if r then 1 else 0)"
| "compare_keys (KAsset l) (KAsset r) = compareAsset l r"
| "compare_keys (KHex l x) (KHex r y) = compareIeeeHex (l, x) (r, y)"
| "compare_keys (KText l) (KText r) = compareText l r"
| "compare_keys _ _ = 0"

definition compareSortKeys :: "sort_key \<Rightarrow> sort_key \<Rightarrow> int" where
  "compareSortKeys left right =
     (if left = KNull \<or> right = KNull then nullOrder left right else compare_keys left right)"

definition cell_compare :: "query_column \<Rightarrow> cell_value \<Rightarrow> cell_value \<Rightarrow> int option" where
  "cell_compare column left right =
     Option.bind (sortKey column left) (\<lambda>l. map_option (compareSortKeys l) (sortKey column right))"

section \<open>Comparators\<close>

text \<open>What \<open>Array.prototype.sort\<close> asks of its comparator, on the elements \<open>ok\<close>.\<close>

locale comparator =
  fixes cmp :: "'a \<Rightarrow> 'a \<Rightarrow> int" and ok :: "'a \<Rightarrow> bool"
  assumes cmp_sym: "ok a \<Longrightarrow> ok b \<Longrightarrow> cmp b a = - cmp a b"
    and cmp_trans: "ok a \<Longrightarrow> ok b \<Longrightarrow> ok c \<Longrightarrow> cmp a b \<le> 0 \<Longrightarrow> cmp b c \<le> 0 \<Longrightarrow> cmp a c \<le> 0"
begin

lemma cmp_refl: "ok a \<Longrightarrow> cmp a a = 0"
  using cmp_sym [of a a] by simp

lemma cmp_total: "ok a \<Longrightarrow> ok b \<Longrightarrow> cmp a b \<le> 0 \<or> cmp b a \<le> 0"
  using cmp_sym [of a b] by linarith

end

text \<open>A comparator that is the sign of a difference, and one that breaks ties by another.\<close>

lemma comparator_measure:
  assumes "\<And>a b. ok a \<Longrightarrow> ok b \<Longrightarrow> cmp a b = (if f a < f b then -1 else if f b < (f a :: 'v :: linorder) then 1 else 0)"
  shows "comparator cmp ok"
  using assms by unfold_locales (auto split: if_splits)

lemma comparator_then:
  assumes "comparator c1 ok" and "comparator c2 ok"
  shows "comparator (\<lambda>a b. if c1 a b = 0 then c2 a b else c1 a b) ok"
proof
  note s1 = comparator.cmp_sym [OF assms(1)] and t1 = comparator.cmp_trans [OF assms(1)]
    and s2 = comparator.cmp_sym [OF assms(2)] and t2 = comparator.cmp_trans [OF assms(2)]
  fix a b c assume ok: "ok a" "ok b" "ok c"
  show "(if c1 b a = 0 then c2 b a else c1 b a) = - (if c1 a b = 0 then c2 a b else c1 a b)"
    using s1 [OF ok(1,2)] s2 [OF ok(1,2)] by simp
  assume ab: "(if c1 a b = 0 then c2 a b else c1 a b) \<le> 0" and bc: "(if c1 b c = 0 then c2 b c else c1 b c) \<le> 0"
  then have le: "c1 a b \<le> 0" "c1 b c \<le> 0" by (auto split: if_splits)
  then have ac: "c1 a c \<le> 0" using t1 [OF ok] by blast
  show "(if c1 a c = 0 then c2 a c else c1 a c) \<le> 0"
  proof (cases "c1 a c = 0")
    case True
    have "c1 b a \<le> 0" using t1 [of b c a] ok le s1 [of a c] True by simp
    moreover have "c1 c b \<le> 0" using t1 [of c a b] ok le s1 [of a c] True by simp
    ultimately have "c1 a b = 0" "c1 b c = 0" using le s1 [of a b] s1 [of b c] ok by auto
    with ab bc True t2 [OF ok] show ?thesis by simp
  qed (use ac in simp)
qed

lemma comparator_find:
  assumes "\<And>c. c \<in> set cs \<Longrightarrow> comparator (g c) ok" and "comparator base ok"
  shows "comparator (\<lambda>a b. case find (\<lambda>x. x \<noteq> 0) (map (\<lambda>c. g c a b) cs) of Some x \<Rightarrow> x | None \<Rightarrow> base a b) ok"
  using assms(1)
proof (induction cs)
  case Nil
  show ?case by (simp add: assms(2))
next
  case (Cons c cs)
  have eq: "(\<lambda>a b. case find (\<lambda>x. x \<noteq> 0) (map (\<lambda>c. g c a b) (c # cs)) of Some x \<Rightarrow> x | None \<Rightarrow> base a b) =
      (\<lambda>a b. if g c a b = 0 then case find (\<lambda>x. x \<noteq> 0) (map (\<lambda>c. g c a b) cs) of Some x \<Rightarrow> x | None \<Rightarrow> base a b
        else g c a b)"
    by (intro ext) simp
  show ?case unfolding eq by (rule comparator_then) (use Cons in simp_all)
qed

lemma comparator_via:
  assumes "comparator cmp ok" and "\<And>a. ok' a \<Longrightarrow> ok (f a)"
  shows "comparator (\<lambda>a b. cmp (f a) (f b)) ok'"
  by (rule comparator.intro) (blast intro: comparator.cmp_sym [OF assms(1)] comparator.cmp_trans [OF assms(1)] assms(2))+

text \<open>Insertion by the comparator: the stable order that \<open>sort\<close> is specified to give.\<close>

primrec js_insert :: "('a \<Rightarrow> 'a \<Rightarrow> int) \<Rightarrow> 'a \<Rightarrow> 'a list \<Rightarrow> 'a list" where
  "js_insert cmp x [] = [x]"
| "js_insert cmp x (y # ys) = (if cmp x y \<le> 0 then x # y # ys else y # js_insert cmp x ys)"

primrec js_sort :: "('a \<Rightarrow> 'a \<Rightarrow> int) \<Rightarrow> 'a list \<Rightarrow> 'a list" where
  "js_sort cmp [] = []"
| "js_sort cmp (x # xs) = js_insert cmp x (js_sort cmp xs)"

lemma set_js_insert [simp]: "set (js_insert cmp x xs) = insert x (set xs)"
  by (induction xs) auto

lemma set_js_sort [simp]: "set (js_sort cmp xs) = set xs"
  by (induction xs) auto

lemma distinct_js_insert: "distinct (js_insert cmp x xs) \<longleftrightarrow> x \<notin> set xs \<and> distinct xs"
  by (induction xs) auto

lemma distinct_js_sort [simp]: "distinct (js_sort cmp xs) \<longleftrightarrow> distinct xs"
  by (induction xs) (auto simp: distinct_js_insert)

lemma length_js_insert [simp]: "length (js_insert cmp x xs) = Suc (length xs)"
  by (induction xs) auto

lemma length_js_sort [simp]: "length (js_sort cmp xs) = length xs"
  by (induction xs) auto

context comparator
begin

lemma insert_sorted:
  "ok x \<Longrightarrow> list_all ok ys \<Longrightarrow> sorted_wrt (\<lambda>a b. cmp a b \<le> 0) ys \<Longrightarrow> sorted_wrt (\<lambda>a b. cmp a b \<le> 0) (js_insert cmp x ys)"
proof (induction ys)
  case (Cons y ys)
  then have y: "ok y" "list_all ok ys" "\<forall>b \<in> set ys. cmp y b \<le> 0" by simp_all
  show ?case
  proof (cases "cmp x y \<le> 0")
    case True
    have "cmp x b \<le> 0" if "b \<in> set ys" for b
      using True y that Cons.prems(1) cmp_trans [of x y b] by (auto simp: list_all_iff)
    with True Cons.prems show ?thesis by simp
  next
    case False
    then have "cmp y x \<le> 0" using cmp_total [OF Cons.prems(1) y(1)] by simp
    with False Cons y show ?thesis by simp
  qed
qed simp

lemma sort_sorted: "list_all ok xs \<Longrightarrow> sorted_wrt (\<lambda>a b. cmp a b \<le> 0) (js_sort cmp xs)"
  by (induction xs) (simp_all add: insert_sorted list_all_iff)

end

section \<open>Decimals\<close>

definition decimal_value :: "utf16 \<Rightarrow> rat" where
  "decimal_value t =
     (let parts = js_split DecimalPoint t; fraction = (if length parts > 1 then parts ! 1 else [])
      in (if take 1 (hd parts) = [Minus] then -1 else 1) *
         (of_nat (digits_nat (unsigned_part (hd parts))) + of_nat (digits_nat fraction) / 10 ^ length fraction))"

lemma digits_nat_from: "foldl (\<lambda>n c. 10 * n + (c - 48)) k t = k * 10 ^ length t + digits_nat t"
proof (induction t arbitrary: k)
  case (Cons c t)
  from Cons [of "10 * k + (c - 48)"] Cons [of "c - 48"] show ?case
    by (simp add: digits_nat_def algebra_simps)
qed (simp add: digits_nat_def)

lemma digits_nat_append: "digits_nat (s @ t) = digits_nat s * 10 ^ length t + digits_nat t"
  unfolding digits_nat_def foldl_append by (rule digits_nat_from [unfolded digits_nat_def])

lemma digits_nat_zeros: "digits_nat (replicate n Zero) = 0"
  by (induction n) (simp_all add: digits_nat_def Zero_def)

lemma digits_nat_pad: "digits_nat (pad_end t n) = digits_nat t * 10 ^ (n - length t)"
  by (simp add: pad_end_def digits_nat_append digits_nat_zeros)

lemma big_int_scaled:
  assumes "ip \<noteq> []" and "length fr \<le> n"
  shows "rat_of_int (big_int (ip @ pad_end fr n)) =
    10 ^ n * ((if take 1 ip = [Minus] then -1 else 1) *
      (of_nat (digits_nat (unsigned_part ip)) + of_nat (digits_nat fr) / 10 ^ length fr))"
proof -
  have len: "length (pad_end fr n) = n" using assms(2) by (simp add: pad_end_def)
  have "(10 :: rat) ^ n = 10 ^ (n - length fr) * 10 ^ length fr" using assms(2) by (simp flip: power_add)
  then have p: "(10 :: rat) ^ (n - length fr) = 10 ^ n / 10 ^ length fr" by simp
  have scaled: "rat_of_nat (digits_nat (u @ pad_end fr n)) =
      10 ^ n * (of_nat (digits_nat u) + of_nat (digits_nat fr) / 10 ^ length fr)" for u
    by (simp add: digits_nat_append digits_nat_pad len p algebra_simps)
  from assms(1) obtain c cs where ip: "ip = c # cs" by (cases ip) simp_all
  show ?thesis using scaled [of cs] scaled [of ip] by (simp add: big_int_def unsigned_part_def ip algebra_simps)
qed

lemma signed_decimal_parts: "SignedDecimal t \<Longrightarrow> hd (js_split DecimalPoint t) \<noteq> []"
  by (auto simp: SignedDecimal_def Let_def UnsignedDecimal_def unsigned_part_def)

lemma compareDecimal_value:
  assumes "SignedDecimal l" and "SignedDecimal r"
  shows "compareDecimal l r =
    (if decimal_value l < decimal_value r then -1 else if decimal_value r < decimal_value l then 1 else 0)"
proof -
  let ?lp = "js_split DecimalPoint l" and ?rp = "js_split DecimalPoint r"
  define lf where "lf = (if length ?lp > 1 then ?lp ! 1 else [])"
  define rf where "rf = (if length ?rp > 1 then ?rp ! 1 else [])"
  define n where "n = max (length lf) (length rf)"
  let ?a = "big_int (hd ?lp @ pad_end lf n)" and ?b = "big_int (hd ?rp @ pad_end rf n)"
  have "rat_of_int ?a = 10 ^ n * decimal_value l" "rat_of_int ?b = 10 ^ n * decimal_value r"
    using big_int_scaled [OF signed_decimal_parts [OF assms(1)], of lf n]
      big_int_scaled [OF signed_decimal_parts [OF assms(2)], of rf n]
    by (simp_all add: decimal_value_def lf_def rf_def n_def Let_def)
  then have "?a < ?b \<longleftrightarrow> decimal_value l < decimal_value r" "?b < ?a \<longleftrightarrow> decimal_value r < decimal_value l"
    by (simp_all flip: of_int_less_iff [where ?'a = rat])
  moreover have "compareDecimal l r = sgn (?a - ?b)"
    by (simp add: compareDecimal_def lf_def rf_def n_def Let_def)
  ultimately show ?thesis by (auto simp: sgn_if)
qed

section \<open>The comparison of a column's cells is consistent\<close>

lemma compareText_sym: "compareText t s = - compareText s t"
  by (induction s t rule: compareText.induct) auto

lemma compareText_trans: "compareText a b \<le> 0 \<Longrightarrow> compareText b c \<le> 0 \<Longrightarrow> compareText a c \<le> 0"
proof (induction a b arbitrary: c rule: compareText.induct)
  case 1
  then show ?case by simp
next
  case (2 y ys)
  then show ?case by (cases c) auto
next
  case (4 x xs y ys)
  show ?case
  proof (cases c)
    case (Cons z zs)
    show ?thesis
    proof (cases "x = y \<and> y = z")
      case True
      with 4 Cons show ?thesis by simp
    next
      case False
      with 4(2,3) Cons show ?thesis by (simp split: if_splits)
    qed
  qed (use 4(3) in simp)
qed simp

lemma compareText_comparator: "comparator compareText ok"
  using compareText_sym compareText_trans by unfold_locales blast+

fun key_ok :: "logical_type \<Rightarrow> sort_key \<Rightarrow> bool" where
  "key_ok ty KNull \<longleftrightarrow> True"
| "key_ok ty (KInteger _) \<longleftrightarrow> ty = integer_type"
| "key_ok ty (KDecimal t) \<longleftrightarrow> ty = decimal_type \<and> SignedDecimal t"
| "key_ok ty (KBoolean _) \<longleftrightarrow> ty = boolean_type"
| "key_ok ty (KAsset a) \<longleftrightarrow> ty \<in> {asset_type, extended_asset_type} \<and> SignedDecimal (ac_amount a)"
| "key_ok ty (KHex _ d) \<longleftrightarrow> ty = ieee_hex_type \<and> d \<noteq> None \<and> d \<noteq> Some NotANumber"
| "key_ok ty (KText _) \<longleftrightarrow> ty \<in> {text_type, enumeration_type, time_type, json_type}"

lemma sortKey_ok:
  assumes "sortKey column v = Some k" and "qc_logical_type column \<noteq> ieee_hex_type"
  shows "key_ok (qc_logical_type column) k"
proof -
  have d: "formatDecimal v = Some t \<Longrightarrow> SignedDecimal t" for t by (cases v) (auto split: if_splits)
  have a: "assertAsset v = Some a \<Longrightarrow> SignedDecimal (ac_amount a)" for a
    by (cases v) (auto split: option.splits cell_value.splits if_splits)
  consider "v = CNull" | "v \<noteq> CNull" by blast
  then show ?thesis
  proof cases
    case 1
    with assms(1) have "k = KNull" by (simp add: sortKey_def)
    then show ?thesis by simp
  next
    case 2
    with assms(1) have k: "(case qc_logical_type column of
              integer_type \<Rightarrow> map_option (\<lambda>t. KInteger (big_int t)) (formatInteger v)
            | decimal_type \<Rightarrow> map_option KDecimal (formatDecimal v)
            | boolean_type \<Rightarrow> map_option (\<lambda>t. KBoolean (t = lit ''true'')) (formatBoolean v)
            | asset_type \<Rightarrow> map_option KAsset (assertAsset v)
            | extended_asset_type \<Rightarrow> map_option KAsset (assertAsset v)
            | ieee_hex_type \<Rightarrow> map_option (\<lambda>hex. KHex hex (decodeIeeeHex hex)) (formatIeeeHexText v)
            | _ \<Rightarrow> map_option KText (canonical column v)) = Some k"
      by (simp only: sortKey_def if_False)
    show ?thesis
    proof (cases "qc_logical_type column")
      case ieee_hex_type
      with assms(2) show ?thesis by simp
    qed (use k d a in \<open>auto simp only: logical_type.case map_option_eq_Some key_ok.simps insert_iff logical_type.simps\<close>)
  qed
qed

lemma compareAsset_comparator: "comparator compareAsset (\<lambda>a. SignedDecimal (ac_amount a))"
proof -
  have dec: "comparator (\<lambda>a b. compareDecimal (ac_amount a) (ac_amount b)) (\<lambda>a. SignedDecimal (ac_amount a))"
    by (rule comparator_measure [where f = "decimal_value \<circ> ac_amount"]) (simp add: compareDecimal_value)
  have sym: "comparator (\<lambda>a b. compareText (ac_symbol a) (ac_symbol b)) (\<lambda>a. SignedDecimal (ac_amount a))"
    using compareText_sym compareText_trans by unfold_locales blast+
  have zero: "compareText s t = 0 \<longleftrightarrow> s = t" for s t
    by (induction s t rule: compareText.induct) auto
  have eq: "compareAsset = (\<lambda>a b. if compareText (ac_symbol a) (ac_symbol b) = 0 then compareDecimal (ac_amount a) (ac_amount b)
      else compareText (ac_symbol a) (ac_symbol b))"
    by (intro ext) (simp add: compareAsset_def zero)
  show ?thesis unfolding eq by (rule comparator_then [OF sym dec])
qed

text \<open>Floats in numeric order: negative infinity, the finite values, infinity.\<close>

fun ieee_rank :: "ieee \<Rightarrow> int" where
  "ieee_rank (Infinite neg) = (if neg then -1 else 1)"
| "ieee_rank _ = 0"

fun ieee_finite :: "ieee \<Rightarrow> rat" where
  "ieee_finite (Finite q) = q"
| "ieee_finite _ = 0"

lemma compare_ieee_rank:
  "a \<noteq> NotANumber \<Longrightarrow> b \<noteq> NotANumber \<Longrightarrow> compare_ieee a b =
    (if ieee_rank a < ieee_rank b \<or> ieee_rank a = ieee_rank b \<and> ieee_finite a < ieee_finite b then -1
     else if ieee_rank b < ieee_rank a \<or> ieee_rank b = ieee_rank a \<and> ieee_finite b < ieee_finite a then 1 else 0)"
  by (cases a; cases b) auto

lemma compare_ieee_comparator: "comparator compare_ieee (\<lambda>x. x \<noteq> NotANumber)"
proof (rule comparator.intro)
  fix a b c
  assume ok: "a \<noteq> NotANumber" "b \<noteq> NotANumber"
  then show "compare_ieee b a = - compare_ieee a b" by (cases a; cases b) auto
  assume "c \<noteq> NotANumber" "compare_ieee a b \<le> 0" "compare_ieee b c \<le> 0"
  with ok show "compare_ieee a c \<le> 0" by (cases a; cases b; cases c) (auto split: if_splits)
qed

lemma compareDecimal_comparator: "comparator compareDecimal SignedDecimal"
  by (rule comparator_measure [where f = decimal_value]) (rule compareDecimal_value)

definition full_key :: "logical_type \<Rightarrow> sort_key \<Rightarrow> bool" where
  "full_key ty k \<longleftrightarrow> key_ok ty k \<and> k \<noteq> KNull"

lemma compare_keys_sym:
  assumes "full_key ty a" and "full_key ty b"
  shows "compare_keys b a = - compare_keys a b"
proof (cases a)
  case (KInteger i)
  then obtain j where "b = KInteger j" using assms by (cases b) (auto simp: full_key_def)
  with KInteger show ?thesis by (auto simp: sgn_if)
next
  case (KDecimal s)
  then obtain t where "b = KDecimal t" using assms by (cases b) (auto simp: full_key_def)
  with KDecimal assms show ?thesis
    using comparator.cmp_sym [OF compareDecimal_comparator, of s t] by (simp add: full_key_def)
next
  case (KBoolean i)
  then obtain j where "b = KBoolean j" using assms by (cases b) (auto simp: full_key_def)
  with KBoolean show ?thesis by simp
next
  case (KAsset s)
  then obtain t where "b = KAsset t" using assms by (cases b) (auto simp: full_key_def)
  with KAsset assms show ?thesis using comparator.cmp_sym [OF compareAsset_comparator, of s t] by (simp add: full_key_def)
next
  case (KHex s x)
  then obtain t y where "b = KHex t (Some y)" "y \<noteq> NotANumber" using assms by (cases b) (auto simp: full_key_def)
  moreover obtain w where "x = Some w" "w \<noteq> NotANumber" using KHex assms(1) by (auto simp: full_key_def)
  ultimately show ?thesis using KHex comparator.cmp_sym [OF compare_ieee_comparator, of w y] by simp
next
  case (KText s)
  then obtain t where "b = KText t" using assms by (cases b) (auto simp: full_key_def)
  with KText show ?thesis using compareText_sym [of t s] by simp
qed (use assms in \<open>simp add: full_key_def\<close>)

lemma compare_keys_trans:
  assumes "full_key ty a" "full_key ty b" "full_key ty c" "compare_keys a b \<le> 0" "compare_keys b c \<le> 0"
  shows "compare_keys a c \<le> 0"
proof (cases b)
  case (KInteger i)
  then obtain j k where "a = KInteger j" "c = KInteger k" using assms(1-3) by (cases a; cases c) (auto simp: full_key_def)
  moreover have "sgn (x - y) \<le> 0 \<longleftrightarrow> x \<le> y" for x y :: int by (simp add: sgn_if)
  ultimately show ?thesis using KInteger assms(4,5) by simp
next
  case (KDecimal s)
  then obtain t u where "a = KDecimal t" "c = KDecimal u" using assms(1-3) by (cases a; cases c) (auto simp: full_key_def)
  with KDecimal assms show ?thesis using comparator.cmp_trans [OF compareDecimal_comparator, of t s u] by (simp add: full_key_def)
next
  case (KBoolean i)
  then obtain j k where "a = KBoolean j" "c = KBoolean k" using assms(1-3) by (cases a; cases c) (auto simp: full_key_def)
  with KBoolean assms show ?thesis by (auto split: if_splits)
next
  case (KAsset s)
  then obtain t u where "a = KAsset t" "c = KAsset u" using assms(1-3) by (cases a; cases c) (auto simp: full_key_def)
  with KAsset assms show ?thesis using comparator.cmp_trans [OF compareAsset_comparator, of t s u] by (simp add: full_key_def)
next
  case (KHex s x)
  then obtain t y u z where "a = KHex t (Some y)" "c = KHex u (Some z)" "y \<noteq> NotANumber" "z \<noteq> NotANumber"
    using assms(1-3) by (cases a; cases c) (auto simp: full_key_def)
  moreover obtain w where "x = Some w" "w \<noteq> NotANumber" using KHex assms(2) by (auto simp: full_key_def)
  ultimately show ?thesis using KHex assms(4,5) comparator.cmp_trans [OF compare_ieee_comparator, of y w z] by simp
next
  case (KText s)
  then obtain t u where "a = KText t" "c = KText u" using assms(1-3) by (cases a; cases c) (auto simp: full_key_def)
  with KText assms show ?thesis using compareText_trans [of t s u] by simp
qed (use assms in \<open>simp add: full_key_def\<close>)

lemma compareSortKeys_comparator: "comparator compareSortKeys (key_ok ty)"
proof (rule comparator.intro)
  fix a b c assume ok: "key_ok ty a" "key_ok ty b"
  then show "compareSortKeys b a = - compareSortKeys a b"
    using compare_keys_sym [of ty a b] by (simp add: compareSortKeys_def nullOrder_def full_key_def)
  assume c: "key_ok ty c" and le: "compareSortKeys a b \<le> 0" "compareSortKeys b c \<le> 0"
  show "compareSortKeys a c \<le> 0"
  proof (cases "a = KNull \<or> b = KNull \<or> c = KNull")
    case True
    with le show ?thesis by (auto simp: compareSortKeys_def nullOrder_def split: if_splits)
  next
    case False
    with le ok c compare_keys_trans [of ty a b c] show ?thesis by (simp add: compareSortKeys_def full_key_def)
  qed
qed

interpretation sort_keys: comparator compareSortKeys "key_ok ty" for ty
  by (rule compareSortKeys_comparator)

lemma cell_compare_keys:
  "cell_compare column a b = Some x \<longleftrightarrow>
    (\<exists>ka kb. sortKey column a = Some ka \<and> sortKey column b = Some kb \<and> x = compareSortKeys ka kb)"
  by (auto simp: cell_compare_def bind_eq_Some_conv)

lemma sortKey_null: "sortKey column v = Some KNull \<longleftrightarrow> v = CNull"
  by (cases "qc_logical_type column") (auto simp: sortKey_def)

lemma decode_one: "decodeIeeeHex (lit ''0x0000803f'') = Some (Finite 1)"
  by (simp add: decodeIeeeHex_def lit_def hex_value_def is_digit_def ieee_value_def le_nat_def pow2_def)

lemma decode_nan: "decodeIeeeHex (lit ''0x0100c07f'') = Some NotANumber"
  by (simp add: decodeIeeeHex_def lit_def hex_value_def is_digit_def ieee_value_def le_nat_def)

lemma decode_below_one: "decodeIeeeHex (lit ''0xffff7f3f'') = Some (Finite (16777215 / 16777216))"
  by (simp add: decodeIeeeHex_def lit_def hex_value_def is_digit_def ieee_value_def le_nat_def pow2_def)

section \<open>Properties\<close>

text \<open>The typed comparison of a column other than an IEEE hex one is a consistent comparator: swapping the
  cells negates it, it is transitive, and NULL is neither below nor equal to any other cell.\<close>

theorem typed_comparison_consistent:
  assumes "qc_logical_type column \<noteq> ieee_hex_type"
    and "cell_compare column a b = Some x" and "cell_compare column b c = Some y"
  shows "cell_compare column b a = Some (- x) \<and>
    (x \<le> 0 \<and> y \<le> 0 \<longrightarrow> (\<exists>z. z \<le> 0 \<and> cell_compare column a c = Some z)) \<and>
    (a = CNull \<and> b \<noteq> CNull \<longrightarrow> x = 1)"
proof -
  let ?ty = "qc_logical_type column"
  from assms(2,3) obtain ka kb kc where keys: "sortKey column a = Some ka" "sortKey column b = Some kb"
      "sortKey column c = Some kc" and x: "x = compareSortKeys ka kb" and y: "y = compareSortKeys kb kc"
    by (auto simp: cell_compare_keys)
  note ok = keys [THEN sortKey_ok, OF assms(1)]
  have "compareSortKeys kb ka = - x"
    unfolding x by (rule sort_keys.cmp_sym [OF ok(1,2)])
  moreover have "x \<le> 0 \<and> y \<le> 0 \<longrightarrow> compareSortKeys ka kc \<le> 0"
    unfolding x y using sort_keys.cmp_trans [OF ok] by blast
  moreover have "a = CNull \<and> b \<noteq> CNull \<longrightarrow> x = 1"
    using keys(1,2) sortKey_null [of column b] by (auto simp: x compareSortKeys_def nullOrder_def sortKey_def)
  ultimately show ?thesis using keys by (simp add: cell_compare_def)
qed

lemma typed_comparison_consistent_witness:
  "cell_compare \<lparr>qc_name = [], qc_logical_type = integer_type\<rparr> CNull (CStr (lit ''7'')) = Some 1"
proof -
  let ?column = "\<lparr>qc_name = [], qc_logical_type = integer_type\<rparr>"
  have "cell_compare ?column (CStr (lit ''7'')) CNull = Some (-1)" "cell_compare ?column CNull CNull = Some 0" by code_simp+
  from typed_comparison_consistent [OF _ this] show ?thesis by simp
qed

text \<open>Two decimal texts compare as the numbers they denote, at any length and scale.\<close>

theorem decimal_cells_compare_exactly:
  assumes "qc_logical_type column = decimal_type" and "SignedDecimal l" and "SignedDecimal r"
  shows "cell_compare column (CStr l) (CStr r) = Some (if decimal_value l < decimal_value r then -1
    else if decimal_value r < decimal_value l then 1 else 0)"
  using compareDecimal_value [OF assms(2,3)] assms
  by (simp add: cell_compare_def sortKey_def compareSortKeys_def)

lemma decimal_cells_compare_exactly_witness:
  "cell_compare \<lparr>qc_name = [], qc_logical_type = decimal_type\<rparr> (CStr (lit ''-1.05'')) (CStr (lit ''-1.5'')) = Some 1"
proof -
  have "decimal_value (lit ''-1.05'') = - (105 / 100)" "decimal_value (lit ''-1.5'') = - (15 / 10)"
    by (simp_all add: decimal_value_def lit_def DecimalPoint_def Minus_def unsigned_part_def digits_nat_def)
  moreover have "SignedDecimal (lit ''-1.05'')" "SignedDecimal (lit ''-1.5'')" by code_simp+
  ultimately show ?thesis by (subst decimal_cells_compare_exactly) simp_all
qed

text \<open>On an IEEE hex column the comparison is not transitive once a NaN is there: the numbers are ordered as
  numbers, the NaN by its text, and 1, a NaN and the float below 1 form a cycle.\<close>

theorem ieee_hex_comparison_cycle:
  fixes column defines "column \<equiv> \<lparr>qc_name = [], qc_logical_type = ieee_hex_type\<rparr>"
  shows "cell_compare column (CStr (lit ''0x0000803f'')) (CStr (lit ''0x0100c07f'')) = Some (-1) \<and>
    cell_compare column (CStr (lit ''0x0100c07f'')) (CStr (lit ''0xffff7f3f'')) = Some (-1) \<and>
    cell_compare column (CStr (lit ''0xffff7f3f'')) (CStr (lit ''0x0000803f'')) = Some (-1)"
proof -
  have "IeeeHex (lit ''0x0000803f'')" "IeeeHex (lit ''0x0100c07f'')" "IeeeHex (lit ''0xffff7f3f'')" by code_simp+
  moreover have "compareText (lit ''0x0000803f'') (lit ''0x0100c07f'') = -1" "compareText (lit ''0x0100c07f'') (lit ''0xffff7f3f'') = -1"
    by code_simp+
  ultimately show ?thesis
    by (simp add: column_def cell_compare_def sortKey_def formatIeeeHexText_def compareSortKeys_def decode_one decode_nan
      decode_below_one)
qed

end
