(* ===== verification/Result_View.thy ===== *)
theory Result_View
  imports Cell_Values
begin

text \<open>
  \<open>ql-shared/src/results\<close>: the sorted, filtered and projected view of one result page
  (\<open>ResultView.ts\<close>) and find-in-results (\<open>ResultSearch.ts\<close>), with the row check of
  \<open>ql-shared/src/protocol/QueryResultShape.ts\<close>. A row is the list of its members; a \<open>throw\<close> is
  \<^const>\<open>None\<close>, and so is the use of a cell the row does not have.
\<close>

section \<open>Results\<close>

type_synonym query_row = "(utf16 \<times> cell_value) list"

record query_result =
  qr_columns :: "query_column list"
  qr_rows :: "query_row list"

text \<open>The indexes of the rows \<open>refineRowKeys\<close> reports.\<close>

definition refineRowKeys :: "query_result \<Rightarrow> nat list" where
  "refineRowKeys result =
     (let names = remdups (map qc_name (qr_columns result))
      in filter (\<lambda>index. let keys = map fst (qr_rows result ! index)
                         in \<not> (length keys = length names \<and> list_all (\<lambda>k. k \<in> set names) keys))
           [0..<length (qr_rows result)])"

section \<open>The view\<close>

datatype sort_direction = asc | desc

record column_sort =
  cs_column :: utf16
  cs_direction :: sort_direction

record column_filter =
  cf_column :: utf16
  cf_text :: utf16

record view_options =
  vo_sorts :: "column_sort list"
  vo_filters :: "column_filter list"
  vo_columns :: "utf16 list option"

record result_view =
  rv_result :: query_result
  rv_order :: "nat list"
  rv_projected :: "query_column list"

definition assertColumn :: "query_column list \<Rightarrow> utf16 \<Rightarrow> query_column option" where
  "assertColumn columns name = find (\<lambda>candidate. qc_name candidate = name) columns"

text \<open>\<open>every\<close> over checks that may throw: it stops at the first false.\<close>

fun every_opt :: "('a \<Rightarrow> bool option) \<Rightarrow> 'a list \<Rightarrow> bool option" where
  "every_opt p [] = Some True"
| "every_opt p (x # xs) = Option.bind (p x) (\<lambda>b. if b then every_opt p xs else Some False)"

fun filter_opt :: "('a \<Rightarrow> bool option) \<Rightarrow> 'a list \<Rightarrow> 'a list option" where
  "filter_opt p [] = Some []"
| "filter_opt p (x # xs) =
     Option.bind (p x) (\<lambda>b. map_option (\<lambda>ys. if b then x # ys else ys) (filter_opt p xs))"

type_synonym text_lib = "(utf16 \<Rightarrow> utf16) \<times> (ieee \<Rightarrow> utf16)"

definition contains_cell :: "text_lib \<Rightarrow> query_column \<Rightarrow> query_row \<Rightarrow> utf16 \<Rightarrow> bool option" where
  "contains_cell L column row t =
     Option.bind (map_of row (qc_name column)) (\<lambda>v. containsText (fst L) (snd L) column v t)"

definition row_passes :: "text_lib \<Rightarrow> (query_column \<times> utf16) list \<Rightarrow> query_row \<Rightarrow> bool option" where
  "row_passes L filterColumns row = every_opt (\<lambda>(column, t). contains_cell L column row t) filterColumns"

definition cell_key :: "query_row \<Rightarrow> query_column \<Rightarrow> sort_key option" where
  "cell_key row column = Option.bind (map_of row (qc_name column)) (sortKey column)"

definition row_keys :: "(query_column \<times> sort_direction) list \<Rightarrow> query_row \<Rightarrow> sort_key list option" where
  "row_keys sortColumns row = those (map (\<lambda>(column, _). cell_key row column) sortColumns)"

definition directed :: "sort_direction \<Rightarrow> sort_key \<Rightarrow> sort_key \<Rightarrow> int" where
  "directed direction leftKey rightKey =
     (let compared = compareSortKeys leftKey rightKey
      in if leftKey = KNull \<or> rightKey = KNull \<or> direction = asc then compared else - compared)"

definition row_compare :: "sort_direction list \<Rightarrow> (nat \<Rightarrow> sort_key list) \<Rightarrow> nat \<Rightarrow> nat \<Rightarrow> int" where
  "row_compare directions keys left right =
     (case find (\<lambda>compared. compared \<noteq> 0)
             (map (\<lambda>i. directed (directions ! i) (keys left ! i) (keys right ! i)) [0..<length directions]) of
        Some compared \<Rightarrow> compared
      | None \<Rightarrow> int left - int right)"

definition resolve_filters :: "query_result \<Rightarrow> view_options \<Rightarrow> (query_column \<times> utf16) list option" where
  "resolve_filters result options =
     those (map (\<lambda>f. map_option (\<lambda>c. (c, cf_text f)) (assertColumn (qr_columns result) (cf_column f))) (vo_filters options))"

definition resolve_sorts :: "query_result \<Rightarrow> view_options \<Rightarrow> (query_column \<times> sort_direction) list option" where
  "resolve_sorts result options =
     those (map (\<lambda>s. map_option (\<lambda>c. (c, cs_direction s)) (assertColumn (qr_columns result) (cs_column s))) (vo_sorts options))"

definition view_create :: "text_lib \<Rightarrow> query_result \<Rightarrow> view_options \<Rightarrow> result_view option" where
  "view_create L result options =
     (let columns = (case vo_columns options of Some cs \<Rightarrow> cs | None \<Rightarrow> map qc_name (qr_columns result))
      in Option.bind (those (map (assertColumn (qr_columns result)) columns)) (\<lambda>projected.
         Option.bind (resolve_filters result options) (\<lambda>filterColumns.
         Option.bind (resolve_sorts result options) (\<lambda>sortColumns.
         Option.bind (filter_opt (\<lambda>index. row_passes L filterColumns (qr_rows result ! index)) [0..<length (qr_rows result)]) (\<lambda>kept.
         Option.bind (those (map (\<lambda>index. row_keys sortColumns (qr_rows result ! index)) kept)) (\<lambda>keylists.
           Some \<lparr>rv_result = result,
                 rv_order = js_sort (row_compare (map snd sortColumns) (the \<circ> map_of (zip kept keylists))) kept,
                 rv_projected = projected\<rparr>))))))"

definition rowCount :: "result_view \<Rightarrow> nat" where
  "rowCount v = length (rv_order v)"

definition view_row :: "result_view \<Rightarrow> nat \<Rightarrow> query_row option" where
  "view_row v index = (if index < rowCount v then Some (qr_rows (rv_result v) ! (rv_order v ! index)) else None)"

definition view_rows :: "result_view \<Rightarrow> int \<Rightarrow> int \<Rightarrow> query_row list" where
  "view_rows v start end =
     map (\<lambda>index. qr_rows (rv_result v) ! index)
       (js_slice (rv_order v) (max 0 start) (min (int (length (rv_order v))) end))"

definition fullRange :: "result_view \<Rightarrow> int \<times> int" where
  "fullRange v = (0, int (rowCount v))"

definition result_find :: "text_lib \<Rightarrow> result_view \<Rightarrow> utf16 \<Rightarrow> (nat \<times> utf16) list option" where
  "result_find L v t =
     (if length t = 0 then Some []
      else map_option concat (those (map (\<lambda>rowIndex.
             Option.bind (view_row v rowIndex) (\<lambda>row.
               map_option (map (\<lambda>column. (rowIndex, qc_name column)))
                 (filter_opt (\<lambda>column. contains_cell L column row t) (rv_projected v)))) [0..<rowCount v])))"

section \<open>The order of the rows\<close>

lemma directed_comparator: "comparator (directed direction) (key_ok ty)"
proof (rule comparator.intro)
  fix a b c assume ok: "key_ok ty a" "key_ok ty b"
  show "directed direction b a = - directed direction a b"
    using sort_keys.cmp_sym [OF ok] by (auto simp: directed_def Let_def)
  assume c: "key_ok ty c" and le: "directed direction a b \<le> 0" "directed direction b c \<le> 0"
  show "directed direction a c \<le> 0"
  proof (cases "a = KNull \<or> b = KNull \<or> c = KNull \<or> direction = asc")
    case True
    have "compareSortKeys a b \<le> 0 \<and> compareSortKeys b c \<le> 0 \<longrightarrow> compareSortKeys a c \<le> 0"
      using sort_keys.cmp_trans [OF ok c] by blast
    with True le show ?thesis
      by (auto simp: directed_def Let_def compareSortKeys_def nullOrder_def split: if_splits)
  next
    case False
    with le have "compareSortKeys c b \<le> 0" "compareSortKeys b a \<le> 0"
      using sort_keys.cmp_sym [OF ok(2) c] sort_keys.cmp_sym [OF ok] by (simp_all add: directed_def)
    then have "compareSortKeys c a \<le> 0" using sort_keys.cmp_trans [OF c ok(2) ok(1)] by blast
    with False show ?thesis using sort_keys.cmp_sym [OF ok(1) c] by (simp add: directed_def)
  qed
qed

definition keys_fit :: "logical_type list \<Rightarrow> sort_direction list \<Rightarrow> sort_key list \<Rightarrow> bool" where
  "keys_fit types directions ks \<longleftrightarrow> length directions = length types \<and> list_all2 key_ok types ks"

lemma row_compare_comparator: "comparator (row_compare directions keys) (\<lambda>i. keys_fit types directions (keys i))"
  unfolding row_compare_def
proof (rule comparator_find)
  fix c assume "c \<in> set [0..<length directions]"
  then show "comparator (\<lambda>a b. directed (directions ! c) (keys a ! c) (keys b ! c)) (\<lambda>i. keys_fit types directions (keys i))"
    by (intro comparator_via [OF directed_comparator [of _ "types ! c"]]) (auto simp: keys_fit_def list_all2_conv_all_nth)
qed (rule comparator.intro; simp)

interpretation view_order: comparator "row_compare directions keys" "\<lambda>i. keys_fit types directions (keys i)"
  for types directions keys
  by (rule row_compare_comparator)

text \<open>Row \<open>l\<close> comes first: by the first sort column that tells the two apart, or by its place in the page.\<close>

definition row_before :: "sort_direction list \<Rightarrow> (nat \<Rightarrow> sort_key list) \<Rightarrow> nat \<Rightarrow> nat \<Rightarrow> bool" where
  "row_before directions keys l r \<longleftrightarrow>
     (let same = (\<lambda>m. directed (directions ! m) (keys l ! m) (keys r ! m) = 0)
      in (\<exists>k < length directions. (\<forall>m < k. same m) \<and> directed (directions ! k) (keys l ! k) (keys r ! k) < 0) \<or>
         (\<forall>m < length directions. same m) \<and> l < r)"

lemma row_compare_before: "l \<noteq> r \<Longrightarrow> row_compare directions keys l r \<le> 0 \<longleftrightarrow> row_before directions keys l r"
proof -
  assume ne: "l \<noteq> r"
  define g where "g = (\<lambda>m. directed (directions ! m) (keys l ! m) (keys r ! m))"
  show ?thesis
  proof (cases "find (\<lambda>x. x \<noteq> 0) (map g [0..<length directions])")
    case None
    then have "\<forall>m < length directions. g m = 0" by (auto simp: find_None_iff)
    with None ne show ?thesis by (auto simp: row_compare_def row_before_def g_def)
  next
    case (Some x)
    then obtain k where k: "k < length directions" "x = g k" "g k \<noteq> 0" "\<forall>m < k. g m = 0"
      by (auto simp: find_Some_iff)
    have "(\<exists>k < length directions. (\<forall>m < k. g m = 0) \<and> g k < 0) \<longleftrightarrow> g k < 0"
    proof
      assume "\<exists>j < length directions. (\<forall>m < j. g m = 0) \<and> g j < 0"
      then obtain j where j: "\<forall>m < j. g m = 0" "g j < 0" by blast
      with k(3,4) have "j = k" by (metis less_irrefl linorder_neqE_nat)
      with j show "g k < 0" by simp
    qed (use k in blast)
    moreover have "\<not> (\<forall>m < length directions. g m = 0)" using k by blast
    ultimately show ?thesis using Some k by (auto simp: row_compare_def row_before_def g_def Let_def)
  qed
qed

lemma filter_opt_Some:
  "filter_opt p xs = Some ys \<Longrightarrow> ys = filter (\<lambda>x. p x = Some True) xs"
  by (induction xs arbitrary: ys) (auto simp: bind_eq_Some_conv split: if_splits)

lemma row_keys_fit:
  assumes "row_keys sortColumns row = Some ks" and "\<forall>(c, d) \<in> set sortColumns. qc_logical_type c \<noteq> ieee_hex_type"
  shows "keys_fit (map (qc_logical_type \<circ> fst) sortColumns) (map snd sortColumns) ks"
proof -
  have keys: "map (\<lambda>(c, _). cell_key row c) sortColumns = map Some ks"
    using assms(1) by (simp add: row_keys_def those_Some)
  then have len: "length ks = length sortColumns" by (metis length_map)
  have "key_ok (qc_logical_type (fst (sortColumns ! i))) (ks ! i)" if "i < length sortColumns" for i
  proof -
    have "cell_key row (fst (sortColumns ! i)) = Some (ks ! i)"
      using keys that len by (metis (mono_tags, lifting) nth_map case_prod_beta)
    moreover have "qc_logical_type (fst (sortColumns ! i)) \<noteq> ieee_hex_type"
      using assms(2) that by (metis (mono_tags, lifting) case_prodD nth_mem prod.collapse)
    ultimately show ?thesis by (auto simp: cell_key_def bind_eq_Some_conv intro: sortKey_ok)
  qed
  with len show ?thesis by (simp add: keys_fit_def list_all2_conv_all_nth)
qed

definition keys_at :: "query_result \<Rightarrow> (query_column \<times> sort_direction) list \<Rightarrow> nat \<Rightarrow> sort_key list" where
  "keys_at result sortColumns i = the (row_keys sortColumns (qr_rows result ! i))"

lemma row_compare_cong: "keys l = keys' l \<Longrightarrow> keys r = keys' r \<Longrightarrow> row_compare ds keys l r = row_compare ds keys' l r"
  by (simp add: row_compare_def)

lemma js_insert_cong:
  "(\<And>y. y \<in> set ys \<Longrightarrow> c x y = c' x y) \<Longrightarrow> js_insert c x ys = js_insert c' x ys"
  by (induction ys) auto

lemma js_sort_cong:
  "(\<And>x y. x \<in> set xs \<Longrightarrow> y \<in> set xs \<Longrightarrow> c x y = c' x y) \<Longrightarrow> js_sort c xs = js_sort c' xs"
proof (induction xs)
  case (Cons x xs)
  then have "js_sort c xs = js_sort c' xs" by simp
  moreover have "js_insert c x (js_sort c' xs) = js_insert c' x (js_sort c' xs)"
    by (rule js_insert_cong) (use Cons.prems in simp)
  ultimately show ?case by simp
qed simp

lemma view_create_order:
  assumes "view_create L result options = Some v" and "resolve_filters result options = Some fc"
    and "resolve_sorts result options = Some sc"
  defines "kept \<equiv> filter (\<lambda>i. row_passes L fc (qr_rows result ! i) = Some True) [0..<length (qr_rows result)]"
  shows "rv_order v = js_sort (row_compare (map snd sc) (keys_at result sc)) kept \<and> rv_result v = result \<and>
    (\<forall>i \<in> set kept. row_keys sc (qr_rows result ! i) \<noteq> None)"
proof -
  obtain keylists where keylists: "those (map (\<lambda>i. row_keys sc (qr_rows result ! i)) kept) = Some keylists"
    and order: "rv_order v = js_sort (row_compare (map snd sc) (the \<circ> map_of (zip kept keylists))) kept" "rv_result v = result"
    using assms(1-3) by (auto simp: view_create_def bind_eq_Some_conv Let_def kept_def dest!: filter_opt_Some)
  have keys: "map (\<lambda>i. row_keys sc (qr_rows result ! i)) kept = map Some keylists"
    using keylists by (simp add: those_Some)
  then have len: "length keylists = length kept" by (metis length_map)
  have dist: "distinct kept" by (simp add: kept_def)
  have at: "row_keys sc (qr_rows result ! i) \<noteq> None \<and> (the \<circ> map_of (zip kept keylists)) i = keys_at result sc i"
    if i: "i \<in> set kept" for i
  proof -
    obtain n where n: "n < length kept" "i = kept ! n" using i by (auto simp: in_set_conv_nth)
    have "row_keys sc (qr_rows result ! i) = Some (keylists ! n)"
      using arg_cong [OF keys, of "\<lambda>xs. xs ! n"] n len by simp
    moreover have "map_of (zip kept keylists) i = Some (keylists ! n)"
      using map_of_zip_nth [OF len [symmetric] dist, of n] n len by simp
    ultimately show ?thesis by (simp add: keys_at_def)
  qed
  have "js_sort (row_compare (map snd sc) (the \<circ> map_of (zip kept keylists))) kept =
      js_sort (row_compare (map snd sc) (keys_at result sc)) kept"
    by (rule js_sort_cong, rule row_compare_cong) (use at in blast)+
  with order at show ?thesis by simp
qed

lemma view_sorted:
  assumes "view_create L result options = Some v" and "resolve_filters result options = Some fc"
    and "resolve_sorts result options = Some sc" and "\<forall>(c, d) \<in> set sc. qc_logical_type c \<noteq> ieee_hex_type"
  shows "sorted_wrt (row_before (map snd sc) (keys_at result sc)) (rv_order v)"
proof -
  let ?kept = "filter (\<lambda>i. row_passes L fc (qr_rows result ! i) = Some True) [0..<length (qr_rows result)]"
  note order = view_create_order [OF assms(1-3)]
  have "list_all (\<lambda>i. keys_fit (map (qc_logical_type \<circ> fst) sc) (map snd sc) (keys_at result sc i)) ?kept"
    using order row_keys_fit [OF _ assms(4)] by (auto simp: list_all_iff keys_at_def)
  then have "sorted_wrt (\<lambda>l r. row_compare (map snd sc) (keys_at result sc) l r \<le> 0) (rv_order v)"
    using order view_order.sort_sorted by metis
  moreover have "distinct (rv_order v)" using order by simp
  then have "rv_order v ! i \<noteq> rv_order v ! j" if "i < j" "j < length (rv_order v)" for i j
    using that by (simp add: distinct_conv_nth)
  ultimately show ?thesis
    by (simp add: sorted_wrt_iff_nth_less row_compare_before)
qed

section \<open>Properties of the view\<close>

text \<open>The view shows exactly the rows every filter accepts, each once, and of two of them the first is the one
  the first telling sort column puts first, or else the one that comes first in the page.\<close>

theorem result_view_order:
  assumes "view_create L result options = Some v" and "resolve_filters result options = Some fc"
    and "resolve_sorts result options = Some sc" and "\<forall>(c, d) \<in> set sc. qc_logical_type c \<noteq> ieee_hex_type"
  shows "set (rv_order v) = {i. i < length (qr_rows result) \<and> row_passes L fc (qr_rows result ! i) = Some True} \<and>
    distinct (rv_order v) \<and>
    (\<forall>i j. i < j \<and> j < rowCount v \<longrightarrow>
      row_before (map snd sc) (keys_at result sc) (rv_order v ! i) (rv_order v ! j))"
proof -
  note order = view_create_order [OF assms(1-3)]
  have "set (rv_order v) = {i. i < length (qr_rows result) \<and> row_passes L fc (qr_rows result ! i) = Some True}"
    using order by auto
  moreover have "distinct (rv_order v)" using order by simp
  ultimately show ?thesis
    using view_sorted [OF assms] by (simp add: sorted_wrt_iff_nth_less rowCount_def)
qed

definition amount_column :: query_column where
  "amount_column = \<lparr>qc_name = lit ''n'', qc_logical_type = integer_type\<rparr>"

definition sample_result :: query_result where
  "sample_result = \<lparr>qr_columns = [amount_column],
     qr_rows = [[(lit ''n'', CStr (lit ''9''))], [(lit ''n'', CNull)], [(lit ''n'', CStr (lit ''10''))], [(lit ''n'', CStr (lit ''9''))]]\<rparr>"

definition sample_options :: view_options where
  "sample_options = \<lparr>vo_sorts = [\<lparr>cs_column = lit ''n'', cs_direction = desc\<rparr>], vo_filters = [], vo_columns = None\<rparr>"

lemma sample_view:
  "map_option rv_order (view_create (id, \<lambda>_. []) sample_result sample_options) = Some [2, 0, 3, 1]"
  "resolve_filters sample_result sample_options = Some []"
  "resolve_sorts sample_result sample_options = Some [(amount_column, desc)]"
  by code_simp+

lemma result_view_order_witness: "row_before [desc] (keys_at sample_result [(amount_column, desc)]) 2 1"
proof -
  obtain v where v: "view_create (id, \<lambda>_. []) sample_result sample_options = Some v" "rv_order v = [2, 0, 3, 1]"
    using sample_view(1) by blast
  have "\<forall>(c, d) \<in> set [(amount_column, desc)]. qc_logical_type c \<noteq> ieee_hex_type" by (simp add: amount_column_def)
  from result_view_order [OF v(1) sample_view(2,3) this, THEN conjunct2, THEN conjunct2, rule_format, of 0 3] v(2)
  show ?thesis by (simp add: rowCount_def)
qed

text \<open>NULL cells of the leading sort column come last, ascending or descending.\<close>

theorem nulls_sort_last:
  assumes "view_create L result options = Some v" and "resolve_filters result options = Some fc"
    and "resolve_sorts result options = Some ((column, direction) # sc)"
    and "\<forall>(c, d) \<in> set ((column, direction) # sc). qc_logical_type c \<noteq> ieee_hex_type"
    and "i < j" and "j < rowCount v"
    and "map_of (qr_rows result ! (rv_order v ! i)) (qc_name column) = Some CNull"
  shows "map_of (qr_rows result ! (rv_order v ! j)) (qc_name column) = Some CNull"
proof -
  let ?sc = "(column, direction) # sc" and ?k = "keys_at result ((column, direction) # sc)"
  note order = view_create_order [OF assms(1-3)]
  have first: "cell_key (qr_rows result ! (rv_order v ! n)) column = Some (?k (rv_order v ! n) ! 0)"
    if "n < rowCount v" for n
  proof -
    have "rv_order v ! n \<in> set (rv_order v)" using that by (simp add: rowCount_def)
    with order obtain ks where "row_keys ?sc (qr_rows result ! (rv_order v ! n)) = Some ks" by fastforce
    then show ?thesis by (cases ks) (auto simp: keys_at_def row_keys_def split: option.splits)
  qed
  have null: "?k (rv_order v ! n) ! 0 = KNull \<longleftrightarrow> map_of (qr_rows result ! (rv_order v ! n)) (qc_name column) = Some CNull"
    if n: "n < rowCount v" for n
  proof -
    obtain w where w: "map_of (qr_rows result ! (rv_order v ! n)) (qc_name column) = Some w"
        "sortKey column w = Some (?k (rv_order v ! n) ! 0)"
      using first [OF n] by (auto simp: cell_key_def bind_eq_Some_conv)
    then show ?thesis using sortKey_null [of column w] by simp
  qed
  have "?k (rv_order v ! i) ! 0 = KNull" using null [of i] assms(5-7) by simp
  moreover have "row_before (map snd ?sc) ?k (rv_order v ! i) (rv_order v ! j)"
    using view_sorted [OF assms(1-4)] assms(5,6) by (simp add: sorted_wrt_iff_nth_less rowCount_def)
  then have "directed direction (?k (rv_order v ! i) ! 0) (?k (rv_order v ! j) ! 0) \<le> 0"
    by (auto simp: row_before_def Let_def dest: spec [of _ 0])
  ultimately have "?k (rv_order v ! j) ! 0 = KNull"
    by (auto simp: directed_def compareSortKeys_def nullOrder_def Let_def split: if_splits)
  with null [of j] assms(6) show ?thesis by simp
qed

definition null_result :: query_result where
  "null_result = \<lparr>qr_columns = [amount_column],
     qr_rows = [[(lit ''n'', CNull)], [(lit ''n'', CStr (lit ''9''))], [(lit ''n'', CNull)]]\<rparr>"

lemma null_view:
  "map_option rv_order (view_create (id, \<lambda>_. []) null_result sample_options) = Some [1, 0, 2]"
  "resolve_filters null_result sample_options = Some []"
  "resolve_sorts null_result sample_options = Some [(amount_column, desc)]"
  "map_of (qr_rows null_result ! 0) (qc_name amount_column) = Some CNull"
  by code_simp+

lemma nulls_sort_last_witness: "map_of (qr_rows null_result ! 2) (qc_name amount_column) = Some CNull"
proof -
  obtain v where v: "view_create (id, \<lambda>_. []) null_result sample_options = Some v" "rv_order v = [1, 0, 2]"
    using null_view(1) by blast
  have "\<forall>(c, d) \<in> set [(amount_column, desc)]. qc_logical_type c \<noteq> ieee_hex_type" by (simp add: amount_column_def)
  from nulls_sort_last [OF v(1) null_view(2,3) this, of 1 2] v(2) null_view(4)
  show ?thesis by (simp add: rowCount_def)
qed

end
