(* ===== verification/Delimited_Text.thy ===== *)
theory Delimited_Text
  imports Result_View
begin

text \<open>
  \<open>ql-shared/src/results/DelimitedText.ts\<close> and the TSV side of \<open>ResultSelection.ts\<close>: the CSV and TSV
  text of records and of copied selections. The readers (\<open>tsv_read\<close>, \<open>csv_record\<close>) are not in the code: they
  are what the formats promise to a program that reads the text, and the round trips are stated with them.
\<close>

section \<open>Delimited text\<close>

definition RecordSeparator :: nat where "RecordSeparator = 10"

definition Tab :: nat where "Tab = 9"
definition CarriageReturn :: nat where "CarriageReturn = 13"
definition Comma :: nat where "Comma = 44"
definition CsvQuote :: nat where "CsvQuote = 34"
definition Backslash :: nat where "Backslash = 92"

record dialect =
  dl_separator :: nat
  dl_nullText :: utf16
  dl_escape :: "utf16 \<Rightarrow> utf16"

definition replaceAll :: "nat \<Rightarrow> utf16 \<Rightarrow> utf16 \<Rightarrow> utf16" where
  "replaceAll raw replacement t = concat (map (\<lambda>c. if c = raw then replacement else [c]) t)"

definition CsvDialect :: dialect where
  "CsvDialect = \<lparr>dl_separator = Comma, dl_nullText = [],
     dl_escape = (\<lambda>t. if list_ex (\<lambda>c. c \<in> {CsvQuote, Comma, CarriageReturn, RecordSeparator}) t
                      then [CsvQuote] @ replaceAll CsvQuote [CsvQuote, CsvQuote] t @ [CsvQuote] else t)\<rparr>"

definition TsvEscapes :: "(nat \<times> utf16) list" where
  "TsvEscapes = [(Backslash, [Backslash, Backslash]), (Tab, [Backslash, 116]), (RecordSeparator, [Backslash, 110]),
     (CarriageReturn, [Backslash, 114])]"

definition TsvDialect :: dialect where
  "TsvDialect = \<lparr>dl_separator = Tab, dl_nullText = [Backslash, 78],
     dl_escape = (\<lambda>t. foldl (\<lambda>escaped (raw, replacement). replaceAll raw replacement escaped) t TsvEscapes)\<rparr>"

definition delimited_field :: "dialect \<Rightarrow> query_column \<Rightarrow> cell_value option \<Rightarrow> utf16 option" where
  "delimited_field d column cell =
     Option.bind cell (\<lambda>v. if v = CNull then Some (dl_nullText d) else map_option (dl_escape d) (canonical column v))"

definition delimited_record :: "dialect \<Rightarrow> query_column list \<Rightarrow> query_row \<Rightarrow> utf16 option" where
  "delimited_record d columns row =
     map_option (js_join [dl_separator d])
       (those (map (\<lambda>column. delimited_field d column (map_of row (qc_name column))) columns))"

definition delimited_header :: "dialect \<Rightarrow> query_column list \<Rightarrow> utf16" where
  "delimited_header d columns = js_join [dl_separator d] (map (\<lambda>column. dl_escape d (qc_name column)) columns)"

text \<open>Copying a cell, a row, a column or a range of a view as TSV.\<close>

definition selection_cell :: "result_view \<Rightarrow> nat \<Rightarrow> utf16 \<Rightarrow> utf16 option" where
  "selection_cell v rowIndex column =
     Option.bind (assertColumn (rv_projected v) column) (\<lambda>target.
       Option.bind (view_row v rowIndex) (\<lambda>row. delimited_field TsvDialect target (map_of row column)))"

definition selection_row :: "result_view \<Rightarrow> nat \<Rightarrow> utf16 option" where
  "selection_row v rowIndex =
     Option.bind (view_row v rowIndex) (delimited_record TsvDialect (rv_projected v))"

definition selection_column :: "result_view \<Rightarrow> utf16 \<Rightarrow> utf16 option" where
  "selection_column v column =
     Option.bind (assertColumn (rv_projected v) column) (\<lambda>target.
       map_option (js_join [RecordSeparator])
         (those (map (\<lambda>row. delimited_field TsvDialect target (map_of row column))
            (view_rows v (fst (fullRange v)) (snd (fullRange v))))))"

definition selection_range :: "result_view \<Rightarrow> int \<Rightarrow> int \<Rightarrow> utf16 option" where
  "selection_range v start stop =
     map_option (\<lambda>records. js_join [RecordSeparator] (delimited_header TsvDialect (rv_projected v) # records))
       (those (map (delimited_record TsvDialect (rv_projected v)) (view_rows v start stop)))"

section \<open>Reading TSV\<close>

fun tsv_unescape :: "utf16 \<Rightarrow> utf16" where
  "tsv_unescape (c # d # cs) =
     (if c = Backslash
      then (if d = 116 then Tab else if d = 110 then RecordSeparator else if d = 114 then CarriageReturn else d) # tsv_unescape cs
      else c # tsv_unescape (d # cs))"
| "tsv_unescape t = t"

definition tsv_read :: "utf16 \<Rightarrow> utf16 option" where
  "tsv_read f = (if f = [Backslash, 78] then None else Some (tsv_unescape f))"

lemmas delimiter_defs = RecordSeparator_def Tab_def CarriageReturn_def Comma_def CsvQuote_def Backslash_def

definition tsv_unit :: "nat \<Rightarrow> utf16" where
  "tsv_unit c = (if c = Backslash then [Backslash, Backslash] else if c = Tab then [Backslash, 116]
     else if c = RecordSeparator then [Backslash, 110] else if c = CarriageReturn then [Backslash, 114] else [c])"

lemma replaceAll_Cons: "replaceAll raw r (c # t) = (if c = raw then r else [c]) @ replaceAll raw r t"
  by (simp add: replaceAll_def)

lemma replaceAll_append: "replaceAll raw r (s @ t) = replaceAll raw r s @ replaceAll raw r t"
  by (simp add: replaceAll_def)

lemma replaceAll_Nil: "replaceAll raw r [] = []"
  by (simp add: replaceAll_def)

lemma tsv_escape_units: "dl_escape TsvDialect t = concat (map tsv_unit t)"
  by (induction t)
    (auto simp: TsvDialect_def TsvEscapes_def tsv_unit_def replaceAll_Cons replaceAll_append replaceAll_Nil delimiter_defs)

lemma tsv_unescape_escape: "tsv_unescape (concat (map tsv_unit t)) = t"
proof (induction t)
  case (Cons c t)
  have "tsv_unescape (tsv_unit c @ s) = c # tsv_unescape s" for s
    by (cases s) (auto simp: tsv_unit_def delimiter_defs)
  with Cons show ?case by simp
qed simp

lemma tsv_escape_not_null: "concat (map tsv_unit t) \<noteq> [Backslash, 78]"
  by (cases t) (auto simp: tsv_unit_def delimiter_defs)

lemma tsv_escape_separators: "c \<in> set (concat (map tsv_unit t)) \<Longrightarrow> c \<noteq> Tab \<and> c \<noteq> RecordSeparator"
  by (auto simp: tsv_unit_def delimiter_defs split: if_splits)

text \<open>What a field stands for: nothing for NULL, else the canonical text.\<close>

definition field_content :: "query_column \<Rightarrow> query_row \<Rightarrow> utf16 option" where
  "field_content column row =
     (case map_of row (qc_name column) of Some v \<Rightarrow> if v = CNull then None else canonical column v | None \<Rightarrow> None)"

lemma tsv_field:
  assumes "delimited_field TsvDialect column (map_of row (qc_name column)) = Some f"
  shows "tsv_read f = field_content column row \<and> Tab \<notin> set f \<and> RecordSeparator \<notin> set f"
proof -
  obtain v where v: "map_of row (qc_name column) = Some v"
    and f: "if v = CNull then f = [Backslash, 78] else \<exists>t. canonical column v = Some t \<and> f = concat (map tsv_unit t)"
    using assms tsv_escape_units by (auto simp: delimited_field_def bind_eq_Some_conv TsvDialect_def split: if_splits)
  show ?thesis
  proof (cases "v = CNull")
    case True
    with v f show ?thesis by (simp add: tsv_read_def field_content_def delimiter_defs)
  next
    case False
    with f obtain t where "canonical column v = Some t" "f = concat (map tsv_unit t)" by auto
    with False v tsv_escape_not_null [of t] tsv_unescape_escape [of t] tsv_escape_separators [of _ t] show ?thesis
      by (auto simp: tsv_read_def field_content_def simp del: set_concat)
  qed
qed

lemma tsv_record:
  assumes "delimited_record TsvDialect columns row = Some t" and "columns \<noteq> []"
  shows "map tsv_read (js_split Tab t) = map (\<lambda>column. field_content column row) columns \<and> RecordSeparator \<notin> set t"
proof -
  obtain fs where fs: "those (map (\<lambda>column. delimited_field TsvDialect column (map_of row (qc_name column))) columns) = Some fs"
    and t: "t = js_join [Tab] fs"
    using assms(1) by (auto simp: delimited_record_def TsvDialect_def)
  note field = those_map_Some [OF fs]
  have content: "tsv_read (fs ! i) = field_content (columns ! i) row \<and> Tab \<notin> set (fs ! i) \<and> RecordSeparator \<notin> set (fs ! i)"
    if "i < length columns" for i
    using field that by (intro tsv_field) simp
  have nonempty: "fs \<noteq> []" using assms(2) field by auto
  have "js_split Tab t = fs"
    unfolding t by (rule js_split_join [OF nonempty]) (use content field in \<open>auto simp: in_set_conv_nth\<close>)
  moreover have "map tsv_read fs = map (\<lambda>column. field_content column row) columns"
    by (rule nth_equalityI) (use content field in simp_all)
  moreover have "set t \<subseteq> insert Tab (\<Union> (set ` set fs))" unfolding t by (rule set_js_join)
  moreover have "RecordSeparator \<notin> set f" if "f \<in> set fs" for f
    using content field that by (metis in_set_conv_nth)
  moreover have "RecordSeparator \<noteq> Tab" by (simp add: delimiter_defs)
  ultimately have "RecordSeparator \<notin> set t" "js_split Tab t = fs" "map tsv_read fs = map (\<lambda>column. field_content column row) columns"
    by auto
  then show ?thesis by simp
qed

lemma tsv_header:
  assumes "columns \<noteq> []"
  shows "map tsv_read (js_split Tab (delimited_header TsvDialect columns)) = map (Some \<circ> qc_name) columns \<and>
    RecordSeparator \<notin> set (delimited_header TsvDialect columns)"
proof -
  let ?fs = "map (\<lambda>column. concat (map tsv_unit (qc_name column))) columns"
  have t: "delimited_header TsvDialect columns = js_join [Tab] ?fs"
    by (simp add: delimited_header_def tsv_escape_units) (simp add: TsvDialect_def)
  have "js_split Tab (js_join [Tab] ?fs) = ?fs"
    by (rule js_split_join) (use assms tsv_escape_separators in \<open>auto simp del: set_concat\<close>)
  moreover have "map tsv_read ?fs = map (Some \<circ> qc_name) columns"
    using tsv_escape_not_null tsv_unescape_escape by (simp add: tsv_read_def)
  moreover have "RecordSeparator \<notin> set (js_join [Tab] ?fs)"
    using set_js_join [of Tab ?fs] tsv_escape_separators by (fastforce simp: delimiter_defs simp del: set_concat)
  ultimately show ?thesis by (simp only: t simp_thms)
qed

section \<open>Reading CSV\<close>

fun csv_quoted :: "utf16 \<Rightarrow> utf16 \<times> utf16" where
  "csv_quoted [] = ([], [])"
| "csv_quoted [c] = (if c = CsvQuote then ([], []) else ([c], []))"
| "csv_quoted (c # d # cs) =
     (if c = CsvQuote
      then (if d = CsvQuote then (CsvQuote # fst (csv_quoted cs), snd (csv_quoted cs)) else ([], d # cs))
      else (c # fst (csv_quoted (d # cs)), snd (csv_quoted (d # cs))))"

definition csv_field :: "utf16 \<Rightarrow> utf16 \<times> utf16" where
  "csv_field t =
     (if take 1 t = [CsvQuote] then csv_quoted (drop 1 t)
      else (takeWhile (\<lambda>c. c \<noteq> Comma \<and> c \<noteq> RecordSeparator) t, dropWhile (\<lambda>c. c \<noteq> Comma \<and> c \<noteq> RecordSeparator) t))"

text \<open>The fields of the first record, and what follows it.\<close>

primrec csv_fields :: "nat \<Rightarrow> utf16 \<Rightarrow> utf16 list \<times> utf16" where
  "csv_fields 0 t = ([], t)"
| "csv_fields (Suc n) t =
     (let (f, rest) = csv_field t
      in if take 1 rest = [Comma] then (let (fs, r) = csv_fields n (drop 1 rest) in (f # fs, r)) else ([f], rest))"

definition csv_record :: "utf16 \<Rightarrow> utf16 list \<times> utf16" where
  "csv_record t = csv_fields (Suc (length t)) t"

definition ends_field :: "utf16 \<Rightarrow> bool" where
  "ends_field rest \<longleftrightarrow> take 1 rest \<in> {[], [Comma], [RecordSeparator]}"

lemma csv_quoted_escape:
  assumes "take 1 rest \<noteq> [CsvQuote]"
  shows "csv_quoted (replaceAll CsvQuote [CsvQuote, CsvQuote] t @ CsvQuote # rest) = (t, rest)"
proof (induction t)
  case Nil
  with assms show ?case by (cases rest) (auto simp: replaceAll_Nil)
next
  case (Cons c t)
  have "csv_quoted (c # s) = (c # fst (csv_quoted s), snd (csv_quoted s))" if "c \<noteq> CsvQuote" for s
    using that by (cases s) auto
  with Cons show ?case by (simp add: replaceAll_Cons)
qed

lemma csv_field_escape:
  assumes "ends_field rest"
  shows "csv_field (dl_escape CsvDialect t @ rest) = (t, rest)"
proof (cases "list_ex (\<lambda>c. c \<in> {CsvQuote, Comma, CarriageReturn, RecordSeparator}) t")
  case True
  have "take 1 rest \<noteq> [CsvQuote]" using assms by (auto simp: ends_field_def delimiter_defs)
  with True csv_quoted_escape show ?thesis by (simp add: CsvDialect_def csv_field_def)
next
  case False
  then have "\<forall>c \<in> set t. c \<noteq> Comma \<and> c \<noteq> RecordSeparator \<and> c \<noteq> CsvQuote" by (auto simp: list_ex_iff)
  with False assms show ?thesis
    by (cases t; cases rest) (auto simp: CsvDialect_def csv_field_def ends_field_def takeWhile_append dropWhile_append delimiter_defs)
qed

lemma csv_fields_join:
  assumes "fs \<noteq> []" and "length fs \<le> n" and "rest = [] \<or> take 1 rest = [RecordSeparator]"
  shows "csv_fields n (js_join [Comma] (map (dl_escape CsvDialect) fs) @ rest) = (fs, rest)"
  using assms(1,2)
proof (induction fs arbitrary: n)
  case (Cons f fs)
  then obtain m where n: "n = Suc m" by (cases n) auto
  show ?case
  proof (cases "fs = []")
    case True
    have "ends_field rest" "take 1 rest \<noteq> [Comma]" using assms(3) by (auto simp: ends_field_def delimiter_defs)
    then show ?thesis using csv_field_escape [of rest f] by (simp add: n True)
  next
    case False
    let ?more = "js_join [Comma] (map (dl_escape CsvDialect) fs) @ rest"
    have "csv_field (dl_escape CsvDialect f @ Comma # ?more) = (f, Comma # ?more)"
      by (rule csv_field_escape) (simp add: ends_field_def)
    moreover have "csv_fields m ?more = (fs, rest)" using Cons.IH [OF False, of m] Cons.prems(2) n by simp
    ultimately show ?thesis using False by (simp add: n js_join_Cons)
  qed
qed simp

lemma csv_record_join:
  assumes "fs \<noteq> []" and "rest = [] \<or> take 1 rest = [RecordSeparator]"
  shows "csv_record (js_join [Comma] (map (dl_escape CsvDialect) fs) @ rest) = (fs, rest)"
proof -
  let ?es = "map (dl_escape CsvDialect) fs"
  have "Suc (length (js_join [Comma] ?es)) = sum_list (map length ?es) + length ?es"
    by (rule length_js_join) (use assms(1) in simp)
  then show ?thesis unfolding csv_record_def by (intro csv_fields_join assms) simp
qed

lemma csv_record_fields:
  assumes "delimited_record CsvDialect columns row = Some t"
  shows "t = js_join [Comma] (map (dl_escape CsvDialect)
    (map (\<lambda>column. case field_content column row of None \<Rightarrow> [] | Some x \<Rightarrow> x) columns))"
proof -
  obtain fs where fs: "those (map (\<lambda>column. delimited_field CsvDialect column (map_of row (qc_name column))) columns) = Some fs"
    and t: "t = js_join [Comma] fs"
    using assms by (auto simp: delimited_record_def CsvDialect_def)
  note field = those_map_Some [OF fs]
  have "fs ! i = dl_escape CsvDialect (case field_content (columns ! i) row of None \<Rightarrow> [] | Some x \<Rightarrow> x)"
    if "i < length columns" for i
  proof -
    have "delimited_field CsvDialect (columns ! i) (map_of row (qc_name (columns ! i))) = Some (fs ! i)" using field that by blast
    then show ?thesis
      by (auto simp: delimited_field_def field_content_def bind_eq_Some_conv CsvDialect_def split: if_splits)
  qed
  then have "fs = map (dl_escape CsvDialect) (map (\<lambda>column. case field_content column row of None \<Rightarrow> [] | Some x \<Rightarrow> x) columns)"
    using field by (intro nth_equalityI) simp_all
  with t show ?thesis by simp
qed

section \<open>Properties\<close>

text \<open>A copied TSV range reads back as the column names and then, row by row, the canonical text of every cell,
  with NULL told apart from any text.\<close>

theorem tsv_range_roundtrip:
  assumes "selection_range v start stop = Some t" and "rv_projected v \<noteq> []"
  shows "map (\<lambda>line. map tsv_read (js_split Tab line)) (js_split RecordSeparator t) =
    map (Some \<circ> qc_name) (rv_projected v) #
      map (\<lambda>row. map (\<lambda>column. field_content column row) (rv_projected v)) (view_rows v start stop)"
proof -
  let ?columns = "rv_projected v" and ?rows = "view_rows v start stop"
  obtain rs where rs: "those (map (delimited_record TsvDialect ?columns) ?rows) = Some rs"
    and t: "t = js_join [RecordSeparator] (delimited_header TsvDialect ?columns # rs)"
    using assms(1) by (auto simp: selection_range_def)
  note each = those_map_Some [OF rs]
  have row: "map tsv_read (js_split Tab (rs ! i)) = map (\<lambda>column. field_content column (?rows ! i)) ?columns \<and>
      RecordSeparator \<notin> set (rs ! i)" if "i < length ?rows" for i
    using each that assms(2) by (intro tsv_record) simp_all
  have "js_split RecordSeparator t = delimited_header TsvDialect ?columns # rs"
    unfolding t
  proof (rule js_split_join)
    fix l assume "l \<in> set (delimited_header TsvDialect ?columns # rs)"
    then consider "l = delimited_header TsvDialect ?columns" | i where "i < length rs" "l = rs ! i"
      by (auto simp: in_set_conv_nth)
    then show "RecordSeparator \<notin> set l" using tsv_header [OF assms(2)] row each by cases auto
  qed simp
  moreover have "map (\<lambda>line. map tsv_read (js_split Tab line)) rs =
      map (\<lambda>row. map (\<lambda>column. field_content column row) ?columns) ?rows"
    by (rule nth_equalityI) (use row each in simp_all)
  ultimately show ?thesis using tsv_header [OF assms(2)] by simp
qed

definition sample_text_view :: result_view where
  "sample_text_view = \<lparr>
     rv_result = \<lparr>qr_columns = [\<lparr>qc_name = lit ''a'', qc_logical_type = text_type\<rparr>],
       qr_rows = [[(lit ''a'', CStr [92, 78, 9])], [(lit ''a'', CNull)]]\<rparr>,
     rv_order = [1, 0], rv_projected = [\<lparr>qc_name = lit ''a'', qc_logical_type = text_type\<rparr>]\<rparr>"

lemma sample_range:
  "selection_range sample_text_view 0 9 = Some (lit ''a'' @ [10] @ [92, 78] @ [10] @ [92, 92, 78, 92, 116])"
  "rv_projected sample_text_view \<noteq> []"
  "view_rows sample_text_view 0 9 = [[(lit ''a'', CNull)], [(lit ''a'', CStr [92, 78, 9])]]"
  by code_simp+

lemma tsv_range_roundtrip_witness:
  "map (\<lambda>line. map tsv_read (js_split Tab line)) (js_split RecordSeparator (lit ''a'' @ [10] @ [92, 78] @ [10] @ [92, 92, 78, 92, 116])) =
    [[Some (lit ''a'')], [None], [Some [92, 78, 9]]]"
  unfolding tsv_range_roundtrip [OF sample_range(1,2)] sample_range(3)
  by (simp add: sample_text_view_def field_content_def canonical_def cell_format_def)

text \<open>A CSV record, alone or followed by more lines, reads back as the canonical text of every cell, whatever
  quotes, commas and line breaks it holds; a NULL reads as the empty text.\<close>

theorem csv_record_roundtrip:
  assumes "delimited_record CsvDialect columns row = Some t" and "columns \<noteq> []"
    and "rest = [] \<or> take 1 rest = [RecordSeparator]"
  shows "csv_record (t @ rest) =
    (map (\<lambda>column. case field_content column row of None \<Rightarrow> [] | Some x \<Rightarrow> x) columns, rest)"
  unfolding csv_record_fields [OF assms(1)] by (rule csv_record_join) (use assms in simp_all)

lemma csv_record_roundtrip_witness:
  "csv_record [34, 34, 34, 44, 10, 34, 44] = ([[34, 44, 10], []], [])"
proof -
  let ?columns = "[\<lparr>qc_name = lit ''a'', qc_logical_type = text_type\<rparr>, \<lparr>qc_name = lit ''b'', qc_logical_type = text_type\<rparr>]"
  let ?row = "[(lit ''a'', CStr [34, 44, 10]), (lit ''b'', CNull)]"
  have "delimited_record CsvDialect ?columns ?row = Some [34, 34, 34, 44, 10, 34, 44]" by code_simp
  from csv_record_roundtrip [OF this, of "[]"] show ?thesis
    by (simp add: field_content_def canonical_def cell_format_def lit_def)
qed

end
