(* ===== verification/Paging.thy ===== *)
theory Paging
  imports Cell_Values
begin

text \<open>
  \<open>ql-shared/src/results/QueryPager.ts\<close>, \<open>PagedQuery.ts\<close> and \<open>ResultSummary.ts\<close>: the page a request asks
  for and what a response's page reads as. A page size or number is a rational, so the code's
  \<open>Number.isInteger\<close> guards are guards here; the counters of a response are decimal texts, read by
  \<open>Number\<close> (exact up to \<open>2 ^ 53\<close>).
\<close>

section \<open>The pager\<close>

datatype page_size_mode = paged | all_rows

record page_request =
  pr_mode :: page_size_mode
  pr_pageSize :: rat
  pr_page :: rat

record page_window =
  pw_limit :: "rat option"
  pw_offset :: rat

definition DefaultPageSize :: rat where "DefaultPageSize = 100"

definition FirstPage :: rat where "FirstPage = 1"

definition isInteger :: "rat \<Rightarrow> bool" where
  "isInteger x \<longleftrightarrow> of_int \<lfloor>x\<rfloor> = x"

definition pager_new :: "page_size_mode option \<Rightarrow> rat option \<Rightarrow> rat option \<Rightarrow> page_request option" where
  "pager_new mode asked page =
     (let pageSize = (case asked of Some s \<Rightarrow> s | None \<Rightarrow> DefaultPageSize);
          page = (case page of Some p \<Rightarrow> p | None \<Rightarrow> FirstPage)
      in if \<not> isInteger pageSize \<or> pageSize \<le> 0 then None
         else if \<not> isInteger page \<or> page < FirstPage then None
         else Some \<lparr>pr_mode = (case mode of Some m \<Rightarrow> m | None \<Rightarrow> paged), pr_pageSize = pageSize, pr_page = page\<rparr>)"

definition pager_window :: "page_request \<Rightarrow> page_window" where
  "pager_window p =
     (if pr_mode p = all_rows then \<lparr>pw_limit = None, pw_offset = 0\<rparr>
      else \<lparr>pw_limit = Some (pr_pageSize p), pw_offset = (pr_page p - FirstPage) * pr_pageSize p\<rparr>)"

definition withPage :: "page_request \<Rightarrow> rat \<Rightarrow> page_request option" where
  "withPage p page = pager_new (Some (pr_mode p)) (Some (pr_pageSize p)) (Some page)"

definition withPageSize :: "page_request \<Rightarrow> rat \<Rightarrow> page_request option" where
  "withPageSize p pageSize = pager_new (Some (pr_mode p)) (Some pageSize) (Some FirstPage)"

definition withMode :: "page_request \<Rightarrow> page_size_mode \<Rightarrow> page_request option" where
  "withMode p mode = pager_new (Some mode) (Some (pr_pageSize p)) (Some FirstPage)"

record query_page =
  qp_offset :: utf16
  qp_limit :: "utf16 option"
  qp_returned_rows :: utf16
  qp_total_rows :: utf16
  qp_has_more :: bool

definition to_number :: "utf16 \<Rightarrow> rat" where
  "to_number t = of_nat (digits_nat t)"

definition pager_pageCount :: "query_page \<Rightarrow> rat \<Rightarrow> rat" where
  "pager_pageCount page pageSize = max FirstPage (of_int \<lceil>to_number (qp_total_rows page) / pageSize\<rceil>)"

section \<open>The summary of a response\<close>

definition effectivePageSize :: "query_page \<Rightarrow> rat option \<Rightarrow> rat" where
  "effectivePageSize page pageSize =
     max (case pageSize of Some s \<Rightarrow> s | None \<Rightarrow> to_number (qp_total_rows page)) 1"

definition pageNumber :: "query_page \<Rightarrow> rat option \<Rightarrow> rat" where
  "pageNumber page pageSize = of_int \<lfloor>to_number (qp_offset page) / effectivePageSize page pageSize\<rfloor> + FirstPage"

definition summary_pageCount :: "query_page \<Rightarrow> rat option \<Rightarrow> rat" where
  "summary_pageCount page pageSize =
     max (pager_pageCount page (effectivePageSize page pageSize)) (pageNumber page pageSize)"

text \<open>The text of an integral number.\<close>

fun show_nat :: "nat \<Rightarrow> utf16" where
  "show_nat n = (if n < 10 then [48 + n] else show_nat (n div 10) @ [48 + n mod 10])"

declare show_nat.simps [simp del]

definition show_number :: "rat \<Rightarrow> utf16" where
  "show_number x = (if x < 0 then [Minus] else []) @ show_nat (nat \<bar>\<lfloor>x\<rfloor>\<bar>)"

definition SummarySeparator :: utf16 where "SummarySeparator = [32, 0xB7, 32]"

definition RowRangeSeparator :: utf16 where "RowRangeSeparator = [0x2013]"

definition pagePart :: "query_page \<Rightarrow> rat option \<Rightarrow> utf16" where
  "pagePart page pageSize =
     lit ''page '' @ show_number (pageNumber page pageSize) @ lit ''/'' @ show_number (summary_pageCount page pageSize)"

definition rowsPart :: "query_page \<Rightarrow> utf16" where
  "rowsPart page =
     (let offset = to_number (qp_offset page); returned = to_number (qp_returned_rows page)
      in if returned = 0 then lit ''rows 0 of '' @ qp_total_rows page
         else lit ''rows '' @ show_number (offset + 1) @ RowRangeSeparator @ show_number (offset + returned) @
              lit '' of '' @ qp_total_rows page)"

definition totalPart :: "query_page \<Rightarrow> utf16" where
  "totalPart page = lit ''total '' @ qp_total_rows page"

definition blockPart :: "utf16 \<Rightarrow> utf16" where
  "blockPart block_num = lit ''block '' @ block_num"

definition describe :: "query_page \<Rightarrow> utf16 \<Rightarrow> rat option \<Rightarrow> utf16" where
  "describe page block_num pageSize =
     js_join SummarySeparator [pagePart page pageSize, rowsPart page, blockPart block_num]"

section \<open>Pages\<close>

definition pager_ok :: "page_request \<Rightarrow> bool" where
  "pager_ok p \<longleftrightarrow> isInteger (pr_pageSize p) \<and> pr_pageSize p > 0 \<and> isInteger (pr_page p) \<and> pr_page p \<ge> FirstPage"

lemma pager_new_ok: "pager_new mode asked page = Some p \<Longrightarrow> pager_ok p"
  by (auto simp: pager_new_def pager_ok_def Let_def split: if_splits)

lemma pager_ok_nat:
  assumes "pager_ok p"
  obtains s n where "pr_pageSize p = of_nat s" "s > 0" "pr_page p = of_nat (Suc n)"
proof -
  let ?s = "\<lfloor>pr_pageSize p\<rfloor>" and ?p = "\<lfloor>pr_page p\<rfloor>"
  have eq: "of_int ?s = pr_pageSize p" "of_int ?p = pr_page p" using assms by (simp_all add: pager_ok_def isInteger_def)
  have "(0 :: rat) < of_int ?s" "(1 :: rat) \<le> of_int ?p" unfolding eq using assms by (simp_all add: pager_ok_def FirstPage_def)
  then have "?s > 0" "?p \<ge> 1" by (simp_all only: of_int_0_less_iff of_int_1_le_iff)
  then have "of_nat (nat ?s) = pr_pageSize p" "of_nat (nat ?p) = pr_page p" "nat ?s > 0"
    using of_nat_nat [of ?s, where ?'a = rat] of_nat_nat [of ?p, where ?'a = rat] eq by simp_all
  moreover have "nat ?p = Suc (nat (?p - 1))" using \<open>?p \<ge> 1\<close> by arith
  ultimately have "pr_pageSize p = of_nat (nat ?s)" "nat ?s > 0" "pr_page p = of_nat (Suc (nat (?p - 1)))"
    by (simp_all only:)
  then show ?thesis using that by blast
qed

text \<open>The rows of a window over the complete output, as the server answers it.\<close>

definition window_rows :: "page_window \<Rightarrow> 'r list \<Rightarrow> 'r list" where
  "window_rows w rows =
     (let rest = drop (nat \<lfloor>pw_offset w\<rfloor>) rows in case pw_limit w of None \<Rightarrow> rest | Some l \<Rightarrow> take (nat \<lfloor>l\<rfloor>) rest)"

lemma window_rows_page:
  "window_rows (pager_window \<lparr>pr_mode = paged, pr_pageSize = of_nat s, pr_page = of_nat (Suc n)\<rparr>) rows = take s (drop (n * s) rows)"
proof -
  have "(of_nat (Suc n) - FirstPage) * of_nat s = (of_int (int (n * s)) :: rat)" by (simp add: FirstPage_def)
  then have "\<lfloor>(of_nat (Suc n) - FirstPage) * (of_nat s :: rat)\<rfloor> = int (n * s)" by (simp only: floor_of_int)
  then have "nat \<lfloor>(of_nat (Suc n) - FirstPage) * (of_nat s :: rat)\<rfloor> = n * s" by (simp only: nat_int)
  then show ?thesis by (simp add: window_rows_def pager_window_def del: of_nat_Suc)
qed

lemma take_pages: "s > 0 \<Longrightarrow> concat (map (\<lambda>n. take s (drop (n * s) rows)) [0..<m]) = take (m * s) rows"
proof (induction m)
  case (Suc m)
  have "take (Suc m * s) rows = take (m * s) rows @ take s (drop (m * s) rows)" by (simp add: add.commute flip: take_add)
  with Suc show ?case by simp
qed simp

lemma page_count_nat:
  assumes "s > 0" and "to_number (qp_total_rows page) = of_nat t"
  obtains m where "pager_pageCount page (of_nat s) = of_nat m" "m > 0" "t \<le> m * s" "t > 0 \<Longrightarrow> (m - 1) * s < t"
proof -
  let ?c = "\<lceil>(of_nat t :: rat) / of_nat s\<rceil>"
  define m where "m = nat (max 1 ?c)"
  have c0: "0 \<le> ?c" by (simp add: le_ceiling_iff) (simp add: order_less_le_trans [of _ 0])
  have m: "int m = max 1 ?c" by (simp add: m_def)
  have "pager_pageCount page (of_nat s) = of_int (max 1 ?c)"
    using assms(2) by (simp add: pager_pageCount_def FirstPage_def)
  then have 1: "pager_pageCount page (of_nat s) = of_nat m" by (simp flip: m)
  have "(of_nat t :: rat) / of_nat s \<le> of_int ?c" by (rule le_of_int_ceiling)
  also have "\<dots> \<le> of_int (int m)" unfolding m by simp
  finally have "(of_nat t :: rat) \<le> of_nat m * of_nat s" using assms(1) by (simp add: divide_le_eq)
  then have 2: "t \<le> m * s" by (simp flip: of_nat_mult)
  have 3: "(m - 1) * s < t" if "t > 0"
  proof -
    have "?c > 0" using that assms(1) by simp
    with m have "int m = ?c" by simp
    with \<open>?c > 0\<close> have "m \<ge> 1" by linarith
    with \<open>int m = ?c\<close> have "int (m - 1) = ?c - 1" by linarith
    then have "(of_nat (m - 1) :: rat) = of_int (?c - 1)" by (metis of_int_of_nat_eq)
    also have "\<dots> < of_nat t / of_nat s" by linarith
    finally have "of_nat (m - 1) * of_nat s < (of_nat t :: rat)" using assms(1) by (simp add: less_divide_eq)
    then show ?thesis by (simp flip: of_nat_mult)
  qed
  have "m > 0" using m by linarith
  with 1 2 3 show ?thesis using that by blast
qed

section \<open>Properties\<close>

text \<open>For a pager the constructor accepts, the windows of pages 1 to the page count, one after another, are the
  complete output, every row once, and the last page is not empty unless the output is.\<close>

theorem pages_tile_the_output:
  assumes "pager_new (Some paged) asked first = Some p" and "to_number (qp_total_rows page) = of_nat (length rows)"
  shows "concat (map (\<lambda>n. window_rows (pager_window (p\<lparr>pr_page := of_nat (Suc n)\<rparr>)) rows)
      [0..<nat \<lfloor>pager_pageCount page (pr_pageSize p)\<rfloor>]) = rows \<and>
    (rows \<noteq> [] \<longrightarrow> window_rows (pager_window (p\<lparr>pr_page := pager_pageCount page (pr_pageSize p)\<rparr>)) rows \<noteq> [])"
proof -
  obtain s where s: "pr_pageSize p = of_nat s" "s > 0" using pager_ok_nat [OF pager_new_ok [OF assms(1)]] by metis
  have mode: "pr_mode p = paged" using assms(1) by (auto simp: pager_new_def Let_def split: if_splits)
  obtain m where m: "pager_pageCount page (of_nat s) = of_nat m" "m > 0" "length rows \<le> m * s"
      "length rows > 0 \<Longrightarrow> (m - 1) * s < length rows"
    using page_count_nat [OF s(2) assms(2)] by blast
  have window: "window_rows (pager_window (p\<lparr>pr_page := of_nat (Suc n)\<rparr>)) rows = take s (drop (n * s) rows)" for n
  proof -
    have p: "p\<lparr>pr_page := of_nat (Suc n)\<rparr> = \<lparr>pr_mode = paged, pr_pageSize = of_nat s, pr_page = of_nat (Suc n)\<rparr>"
      using s mode by (cases p) simp
    show ?thesis unfolding p by (rule window_rows_page)
  qed
  have "concat (map (\<lambda>n. window_rows (pager_window (p\<lparr>pr_page := of_nat (Suc n)\<rparr>)) rows) [0..<m]) = rows"
    unfolding window using take_pages [OF s(2), of rows m] m(3) by simp
  moreover have "window_rows (pager_window (p\<lparr>pr_page := of_nat m\<rparr>)) rows \<noteq> []" if "rows \<noteq> []"
    using window [of "m - 1"] m(2,4) s(2) that by simp
  ultimately show ?thesis using m(1) s(1) by simp
qed

definition seven_rows_page :: query_page where
  "seven_rows_page = \<lparr>qp_offset = lit ''6'', qp_limit = Some (lit ''3''), qp_returned_rows = lit ''1'', qp_total_rows = lit ''7'', qp_has_more = False\<rparr>"

lemma pages_tile_the_output_witness:
  "concat (map (\<lambda>n. window_rows (pager_window \<lparr>pr_mode = paged, pr_pageSize = 3, pr_page = of_nat (Suc n)\<rparr>) [1 :: nat, 2, 3, 4, 5, 6, 7])
    [0..<nat \<lfloor>pager_pageCount seven_rows_page 3\<rfloor>]) = [1, 2, 3, 4, 5, 6, 7]"
proof -
  have new: "pager_new (Some paged) (Some 3) None = Some \<lparr>pr_mode = paged, pr_pageSize = 3, pr_page = 1\<rparr>"
    by (simp add: pager_new_def isInteger_def FirstPage_def)
  have "to_number (qp_total_rows seven_rows_page) = of_nat (length [1 :: nat, 2, 3, 4, 5, 6, 7])"
    by (simp add: seven_rows_page_def to_number_def digits_nat_def lit_def)
  from pages_tile_the_output [OF new this, THEN conjunct1] show ?thesis by simp
qed

text \<open>A response to a paged request, whose offset is the window's, reads as the page that was asked for, of at
  least as many pages.\<close>

theorem summary_shows_requested_page:
  assumes "pager_new (Some paged) asked first = Some p"
    and "to_number (qp_offset page) = pw_offset (pager_window p)"
  shows "pageNumber page (pw_limit (pager_window p)) = pr_page p \<and>
    pr_page p \<le> summary_pageCount page (pw_limit (pager_window p))"
proof -
  obtain s n where s: "pr_pageSize p = of_nat s" "s > 0" and n: "pr_page p = of_nat (Suc n)"
    using pager_ok_nat [OF pager_new_ok [OF assms(1)]] by metis
  have "pr_mode p = paged" using assms(1) by (auto simp: pager_new_def Let_def split: if_splits)
  then have w: "pager_window p = \<lparr>pw_limit = Some (of_nat s), pw_offset = of_nat n * of_nat s\<rparr>"
    using s n by (simp add: pager_window_def FirstPage_def)
  have "effectivePageSize page (Some (of_nat s)) = of_nat s" using s(2) by (simp add: effectivePageSize_def)
  then have "pageNumber page (pw_limit (pager_window p)) = of_int \<lfloor>of_nat n :: rat\<rfloor> + FirstPage"
    using assms(2) s(2) by (simp add: pageNumber_def w)
  then have "pageNumber page (pw_limit (pager_window p)) = pr_page p" by (simp add: n FirstPage_def)
  then show ?thesis by (simp add: summary_pageCount_def)
qed

lemma summary_shows_requested_page_witness:
  "pageNumber seven_rows_page (Some 3) = 3"
proof -
  have new: "pager_new (Some paged) (Some 3) (Some 3) = Some \<lparr>pr_mode = paged, pr_pageSize = 3, pr_page = 3\<rparr>"
    by (simp add: pager_new_def isInteger_def FirstPage_def)
  have "to_number (qp_offset seven_rows_page) = pw_offset (pager_window \<lparr>pr_mode = paged, pr_pageSize = 3, pr_page = 3\<rparr>)"
    by (simp add: seven_rows_page_def to_number_def digits_nat_def lit_def pager_window_def FirstPage_def)
  from summary_shows_requested_page [OF new this] show ?thesis by (simp add: pager_window_def)
qed

end
