(* ===== verification/Build_Engine.thy ===== *)
theory Build_Engine
  imports Prelude
begin

text \<open>
  The orchestration engine of the cluster tool, \<open>cluster-tool/src/orchestration\<close>: phases of steps
  (\<open>ClusterBuildPhase.ts\<close>), groups of phases and groups (\<open>ClusterBuildPhaseGroup.ts\<close>), the root
  that runs them and the flat narrative it keeps for an interrupted run (\<open>ClusterBuild.ts\<close>), and the
  report tree (\<open>cluster-tool/src/report/Report.ts\<close>).

  A step's body and the scheduling of \<open>Bluebird.map\<close> are not in the code, so a run is a sequence of
  actions: an item begins when it is its turn (after its elder siblings in a series, while a slot is free in
  parallel), the body of a running step returns, throws, or outlives its timer, and a child whose items are
  over is collected by its parent. An \<open>AbortController\<close> is a flag of its node; a signal is linked to every
  controller below it, so a node is aborted when it or a node above it is.
\<close>

section \<open>Steps, phases and groups\<close>

datatype 'e step_status = ok | failed 'e | skipped

datatype 'e step_state = Waiting | Running | Settled "'e step_status"

record 'e build_step =
  st_name :: string
  st_timeoutMs :: "nat option"
  st_state :: "'e step_state"

record node_info =
  ni_name :: string
  ni_parallel :: bool
  ni_concurrency :: "nat option"
  ni_timeoutMs :: "nat option"

record node_state =
  ns_started :: bool
  ns_aborted :: bool
  ns_closed :: bool

datatype 'e build_node =
  Phase node_info node_state "'e build_step list"
| Group node_info node_state "'e build_node list"

definition Idle :: node_state where
  "Idle = \<lparr>ns_started = False, ns_aborted = False, ns_closed = False\<rparr>"

fun node_info_of :: "'e build_node \<Rightarrow> node_info" where
  "node_info_of (Phase i s steps) = i"
| "node_info_of (Group i s children) = i"

fun node_state_of :: "'e build_node \<Rightarrow> node_state" where
  "node_state_of (Phase i s steps) = s"
| "node_state_of (Group i s children) = s"

fun with_state :: "(node_state \<Rightarrow> node_state) \<Rightarrow> 'e build_node \<Rightarrow> 'e build_node" where
  "with_state f (Phase i s steps) = Phase i (f s) steps"
| "with_state f (Group i s children) = Group i (f s) children"

abbreviation started :: "'e build_node \<Rightarrow> bool" where "started n \<equiv> ns_started (node_state_of n)"
abbreviation closed :: "'e build_node \<Rightarrow> bool" where "closed n \<equiv> ns_closed (node_state_of n)"

section \<open>The report\<close>

datatype 'e report_node =
  ReportPhase string "(string \<times> 'e step_status) list"
| ReportGroup string "'e report_node list"

text \<open>\<open>PhaseBuilder.build\<close> and \<open>Group.from\<close> compute the flag when the node is frozen.\<close>

fun succeeded :: "'e report_node \<Rightarrow> bool" where
  "succeeded (ReportPhase name steps) \<longleftrightarrow> (\<forall>(n, status) \<in> set steps. status = ok)"
| "succeeded (ReportGroup name children) \<longleftrightarrow> (\<forall>c \<in> set children. succeeded c)"

fun report_phases :: "'e report_node \<Rightarrow> 'e report_node list" where
  "report_phases (ReportPhase name steps) = [ReportPhase name steps]"
| "report_phases (ReportGroup name children) = concat (map report_phases children)"

fun report_stepCount :: "'e report_node \<Rightarrow> nat" where
  "report_stepCount (ReportPhase name steps) = length steps"
| "report_stepCount (ReportGroup name children) = sum_list (map report_stepCount children)"

fun report_skippedCount :: "'e report_node \<Rightarrow> nat" where
  "report_skippedCount (ReportPhase name steps) = length (filter (\<lambda>(n, status). status = skipped) steps)"
| "report_skippedCount (ReportGroup name children) = sum_list (map report_skippedCount children)"

definition hasProblem :: "'e report_node \<Rightarrow> bool" where
  "hasProblem n \<longleftrightarrow> \<not> succeeded n \<or> report_skippedCount n > 0"

datatype verdict = SUCCESS | FAILED | INTERRUPTED

record 'e report =
  rp_nodes :: "'e report_node list"
  rp_interrupted :: bool

definition report_succeeded :: "'e report \<Rightarrow> bool" where
  "report_succeeded r \<longleftrightarrow> (\<forall>n \<in> set (rp_nodes r). succeeded n)"

definition report_verdict :: "'e report \<Rightarrow> verdict" where
  "report_verdict r = (if rp_interrupted r then INTERRUPTED else if report_succeeded r then SUCCESS else FAILED)"

text \<open>What \<open>run\<close> returns: the steps' results in input order, the nodes of the children that were run.\<close>

fun status_of :: "'e step_state \<Rightarrow> 'e step_status option" where
  "status_of (Settled status) = Some status"
| "status_of _ = None"

definition step_results :: "'e build_step list \<Rightarrow> (string \<times> 'e step_status) list" where
  "step_results steps = concat (map (\<lambda>st. case status_of (st_state st) of None \<Rightarrow> [] | Some x \<Rightarrow> [(st_name st, x)]) steps)"

fun run_report :: "'e build_node \<Rightarrow> 'e report_node" where
  "run_report (Phase i s steps) = ReportPhase (ni_name i) (step_results steps)"
| "run_report (Group i s children) = ReportGroup (ni_name i) (map run_report (filter closed children))"

section \<open>Running\<close>

datatype 'e action = BeginItem nat | StepReturns nat | StepThrows nat 'e | StepExpires nat | FinishItem nat

definition settled :: "'e build_step \<Rightarrow> bool" where
  "settled st \<longleftrightarrow> status_of (st_state st) \<noteq> None"

text \<open>The turn of item \<open>k\<close>: \<open>eachSeries\<close>, or \<open>Bluebird.map\<close> with its concurrency, which limits nothing when below one.\<close>

definition may_begin :: "node_info \<Rightarrow> nat \<Rightarrow> bool list \<Rightarrow> bool list \<Rightarrow> bool" where
  "may_begin i k active over =
     (if ni_parallel i
      then (case ni_concurrency i of None \<Rightarrow> True | Some c \<Rightarrow> c < 1 \<or> length (filter id active) < c)
      else list_all id (take k over))"

text \<open>A step's ceiling; a missing or a zero one arms no timer, and an abort disarms it.\<close>

definition timer_armed :: "bool \<Rightarrow> node_info \<Rightarrow> 'e build_step \<Rightarrow> bool" where
  "timer_armed aborted i st \<longleftrightarrow>
     \<not> aborted \<and>
     (case (case st_timeoutMs st of Some t \<Rightarrow> Some t | None \<Rightarrow> ni_timeoutMs i) of None \<Rightarrow> False | Some t \<Rightarrow> t \<noteq> 0)"

definition settle_step :: "nat \<Rightarrow> 'e step_status \<Rightarrow> 'e build_step list \<Rightarrow> 'e build_step list" where
  "settle_step k status steps = steps[k := (steps ! k)\<lparr>st_state := Settled status\<rparr>]"

text \<open>\<open>runStep\<close> up to its body, and after it; \<open>ext\<close> is the state of the signal the phase was given.\<close>

fun phase_action :: "'e \<Rightarrow> bool \<Rightarrow> 'e action \<Rightarrow> node_info \<Rightarrow> node_state \<Rightarrow> 'e build_step list \<Rightarrow> (node_state \<times> 'e build_step list) option" where
  "phase_action expired ext (BeginItem k) i s steps =
     (if k < length steps \<and> st_state (steps ! k) = Waiting \<and>
         may_begin i k (map (\<lambda>st. st_state st = Running) steps) (map settled steps)
      then Some (s, if ext \<or> ns_aborted s then settle_step k skipped steps
                    else steps[k := (steps ! k)\<lparr>st_state := Running\<rparr>])
      else None)"
| "phase_action expired ext (StepReturns k) i s steps =
     (if k < length steps \<and> st_state (steps ! k) = Running then Some (s, settle_step k ok steps) else None)"
| "phase_action expired ext (StepThrows k e) i s steps =
     (if k < length steps \<and> st_state (steps ! k) = Running
      then Some (s\<lparr>ns_aborted := True\<rparr>, settle_step k (failed e) steps) else None)"
| "phase_action expired ext (StepExpires k) i s steps =
     (if k < length steps \<and> st_state (steps ! k) = Running \<and> timer_armed (ext \<or> ns_aborted s) i (steps ! k)
      then Some (s\<lparr>ns_aborted := True\<rparr>, settle_step k (failed expired) steps) else None)"
| "phase_action expired ext (FinishItem k) i s steps = None"

text \<open>The items of a node are over; in an aborted series the children not yet run are omitted.\<close>

fun node_over :: "bool \<Rightarrow> 'e build_node \<Rightarrow> bool" where
  "node_over ext (Phase i s steps) \<longleftrightarrow> list_all settled steps"
| "node_over ext (Group i s children) \<longleftrightarrow>
     list_all closed children \<or>
     \<not> ni_parallel i \<and> (ext \<or> ns_aborted s) \<and> list_all (\<lambda>c. started c \<longrightarrow> closed c) children"

definition start_node :: "'e build_node \<Rightarrow> 'e build_node" where
  "start_node = with_state (\<lambda>s. s\<lparr>ns_started := True\<rparr>)"

definition close_node :: "'e build_node \<Rightarrow> 'e build_node" where
  "close_node = with_state (\<lambda>s. s\<lparr>ns_closed := True\<rparr>)"

fun is_phase :: "'e build_node \<Rightarrow> bool" where
  "is_phase (Phase i s steps) = True"
| "is_phase (Group i s children) = False"

text \<open>A child begins, or its nodes are collected: a failed one aborts the group, and a finished phase has been
  recorded in \<open>context.completedPhases\<close>.\<close>

fun group_action :: "bool \<Rightarrow> 'e action \<Rightarrow> node_info \<Rightarrow> node_state \<Rightarrow> 'e build_node list \<Rightarrow>
    ((node_state \<times> 'e build_node list) \<times> 'e report_node list) option" where
  "group_action ext (BeginItem k) i s children =
     (if k < length children \<and> \<not> started (children ! k) \<and> (ni_parallel i \<or> \<not> (ext \<or> ns_aborted s)) \<and>
         may_begin i k (map (\<lambda>c. started c \<and> \<not> closed c) children) (map closed children)
      then Some ((s, children[k := start_node (children ! k)]), []) else None)"
| "group_action ext (FinishItem k) i s children =
     (if k < length children \<and> started (children ! k) \<and> \<not> closed (children ! k) \<and>
         node_over (ext \<or> ns_aborted s) (children ! k)
      then (let result = run_report (children ! k)
            in Some ((if succeeded result then s else s\<lparr>ns_aborted := True\<rparr>, children[k := close_node (children ! k)]),
                     if is_phase (children ! k) then [result] else []))
      else None)"
| "group_action ext _ i s children = None"

fun node_event :: "'e \<Rightarrow> bool \<Rightarrow> nat list \<Rightarrow> 'e action \<Rightarrow> 'e build_node \<Rightarrow> ('e build_node \<times> 'e report_node list) option" where
  "node_event expired ext path act (Phase i s steps) =
     (if path = [] then map_option (\<lambda>(s', steps'). (Phase i s' steps', [])) (phase_action expired ext act i s steps) else None)"
| "node_event expired ext [] act (Group i s children) =
     map_option (\<lambda>((s', children'), finished). (Group i s' children', finished)) (group_action ext act i s children)"
| "node_event expired ext (k # path) act (Group i s children) =
     (if k < length children \<and> started (children ! k) \<and> \<not> closed (children ! k)
      then map_option (\<lambda>(c, finished). (Group i s (children[k := c]), finished))
             (node_event expired (ext \<or> ns_aborted s) path act (children ! k))
      else None)"

section \<open>The build\<close>

record 'e build =
  bd_root :: "'e build_node"
  bd_completedPhases :: "'e report_node list"

fun pristine :: "'e build_node \<Rightarrow> bool" where
  "pristine (Phase i s steps) \<longleftrightarrow> s = Idle \<and> (\<forall>st \<in> set steps. st_state st = Waiting)"
| "pristine (Group i s children) \<longleftrightarrow> s = Idle \<and> (\<forall>c \<in> set children. pristine c)"

text \<open>The root runs its children in order, like a group in series, with a controller of its own.\<close>

definition RootInfo :: node_info where
  "RootInfo = \<lparr>ni_name = '''', ni_parallel = False, ni_concurrency = None, ni_timeoutMs = None\<rparr>"

definition build_start :: "'e build_node list \<Rightarrow> 'e build" where
  "build_start children =
     \<lparr>bd_root = Group RootInfo (Idle\<lparr>ns_started := True\<rparr>) children, bd_completedPhases = []\<rparr>"

definition build_step :: "'e \<Rightarrow> nat list \<times> 'e action \<Rightarrow> 'e build \<Rightarrow> 'e build option" where
  "build_step expired event b =
     map_option (\<lambda>(root, finished). \<lparr>bd_root = root, bd_completedPhases = bd_completedPhases b @ finished\<rparr>)
       (node_event expired False (fst event) (snd event) (bd_root b))"

fun build_run :: "'e \<Rightarrow> (nat list \<times> 'e action) list \<Rightarrow> 'e build \<Rightarrow> 'e build option" where
  "build_run expired [] b = Some b"
| "build_run expired (event # events) b = Option.bind (build_step expired event b) (build_run expired events)"

definition build_over :: "'e build \<Rightarrow> bool" where
  "build_over b \<longleftrightarrow> node_over False (bd_root b)"

fun root_nodes :: "'e build_node \<Rightarrow> 'e report_node list" where
  "root_nodes (Group i s children) = map run_report (filter closed children)"
| "root_nodes (Phase i s steps) = []"

definition build_report :: "'e build \<Rightarrow> 'e report" where
  "build_report b = \<lparr>rp_nodes = root_nodes (bd_root b), rp_interrupted = False\<rparr>"

definition interruptedReport :: "'e build \<Rightarrow> 'e report" where
  "interruptedReport b = \<lparr>rp_nodes = bd_completedPhases b, rp_interrupted = True\<rparr>"

inductive build_reachable :: "'e \<Rightarrow> 'e build_node list \<Rightarrow> 'e build \<Rightarrow> bool" for expired children where
  start: "build_reachable expired children (build_start children)"
| step: "build_reachable expired children b \<Longrightarrow> build_step expired event b = Some b' \<Longrightarrow> build_reachable expired children b'"

inductive_cases build_reachableE: "build_reachable expired children b"

end
