(* ===== verification/Build_Proofs.thy ===== *)
theory Build_Proofs
  imports Build_Engine
begin

text \<open>
  The invariant of a running build and what follows from it: the discipline of series and parallel items, where
  aborts come from, and that a run gets on and ends.
\<close>

section \<open>The invariant\<close>

definition step_failed :: "'e build_step \<Rightarrow> bool" where
  "step_failed st \<longleftrightarrow> (case st_state st of Settled (failed e) \<Rightarrow> True | _ \<Rightarrow> False)"

fun has_failed :: "'e build_node \<Rightarrow> bool" where
  "has_failed (Phase i s steps) \<longleftrightarrow> (\<exists>st \<in> set steps. step_failed st)"
| "has_failed (Group i s children) \<longleftrightarrow> (\<exists>c \<in> set children. has_failed c)"

fun all_ok :: "'e build_node \<Rightarrow> bool" where
  "all_ok (Phase i s steps) \<longleftrightarrow> (\<forall>st \<in> set steps. st_state st = Settled ok)"
| "all_ok (Group i s children) \<longleftrightarrow> (\<forall>c \<in> set children. all_ok c)"

text \<open>In a series an item has begun only if every elder one is over, and nothing runs after a failure.\<close>

definition in_series :: "('a \<Rightarrow> bool) \<Rightarrow> ('a \<Rightarrow> bool) \<Rightarrow> 'a list \<Rightarrow> bool" where
  "in_series begun over xs \<longleftrightarrow> (\<forall>j k. j < k \<and> k < length xs \<and> begun (xs ! k) \<longrightarrow> over (xs ! j))"

definition first_error :: "'e build_step list \<Rightarrow> bool" where
  "first_error steps \<longleftrightarrow> (\<forall>j k. j < k \<and> k < length steps \<and> step_failed (steps ! j) \<longrightarrow>
     st_state (steps ! k) \<in> {Waiting, Settled skipped})"

definition within :: "node_info \<Rightarrow> ('a \<Rightarrow> bool) \<Rightarrow> 'a list \<Rightarrow> bool" where
  "within i active xs \<longleftrightarrow>
     (case ni_concurrency i of None \<Rightarrow> True | Some c \<Rightarrow> ni_parallel i \<and> 1 \<le> c \<longrightarrow> length (filter active xs) \<le> c)"

fun node_inv :: "bool \<Rightarrow> 'e build_node \<Rightarrow> bool" where
  "node_inv ext (Phase i s steps) \<longleftrightarrow>
     (\<not> ns_started s \<longrightarrow> pristine (Phase i s steps)) \<and>
     (ns_closed s \<longrightarrow> list_all settled steps) \<and>
     (ns_aborted s \<longleftrightarrow> has_failed (Phase i s steps)) \<and>
     ((\<exists>st \<in> set steps. st_state st = Settled skipped) \<longrightarrow> ext \<or> ns_aborted s) \<and>
     (\<not> ni_parallel i \<longrightarrow> in_series (\<lambda>st. st_state st \<noteq> Waiting) settled steps \<and> first_error steps) \<and>
     within i (\<lambda>st. st_state st = Running) steps"
| "node_inv ext (Group i s children) \<longleftrightarrow>
     (\<not> ns_started s \<longrightarrow> pristine (Group i s children)) \<and>
     (ns_closed s \<longrightarrow> node_over ext (Group i s children)) \<and>
     (ns_aborted s \<longrightarrow> has_failed (Group i s children) \<or> ext) \<and>
     (\<forall>c \<in> set children. closed c \<longrightarrow> started c \<and> (succeeded (run_report c) \<or> ns_aborted s)) \<and>
     (\<not> ni_parallel i \<longrightarrow> in_series started closed children) \<and>
     within i (\<lambda>c. started c \<and> \<not> closed c) children \<and>
     (\<forall>c \<in> set children. node_inv (ext \<or> ns_aborted s) c)"

lemma node_over_mono: "node_over ext n \<Longrightarrow> (ext \<Longrightarrow> ext') \<Longrightarrow> node_over ext' n"
  by (cases n) auto

lemma node_inv_mono: "node_inv ext n \<Longrightarrow> (ext \<Longrightarrow> ext') \<Longrightarrow> node_inv ext' n"
proof (induction n arbitrary: ext ext')
  case (Group i s children)
  have "node_inv (ext' \<or> ns_aborted s) c" if "c \<in> set children" for c
    using Group.IH [OF that, of "ext \<or> ns_aborted s" "ext' \<or> ns_aborted s"] Group.prems that by auto
  moreover have "ns_closed s \<longrightarrow> node_over ext' (Group i s children)"
    using Group.prems node_over_mono [of ext "Group i s children" ext'] by simp
  moreover have "ns_aborted s \<longrightarrow> has_failed (Group i s children) \<or> ext'" using Group.prems by auto
  ultimately show ?case using Group.prems by simp
qed auto

lemma with_state_simps [simp]:
  "node_state_of (with_state f n) = f (node_state_of n)" "has_failed (with_state f n) = has_failed n"
  "run_report (with_state f n) = run_report n" "node_over ext (close_node n) = node_over ext n"
  by (cases n; simp add: close_node_def)+

lemma start_node_simps [simp]:
  "started (start_node n)" "closed (start_node n) = closed n" "has_failed (start_node n) = has_failed n"
  "run_report (start_node n) = run_report n"
  by (simp_all add: start_node_def)

lemma close_node_simps [simp]:
  "started (close_node n) = started n" "closed (close_node n)" "has_failed (close_node n) = has_failed n"
  "run_report (close_node n) = run_report n"
  by (simp_all add: close_node_def)

lemma pristine_idle: "pristine n \<Longrightarrow> node_state_of n = Idle"
  by (cases n) auto

lemma pristine_no_failure: "pristine n \<Longrightarrow> \<not> has_failed n"
  by (induction n) (auto simp: step_failed_def)

lemma pristine_children_within: "\<forall>c \<in> set children. pristine c \<Longrightarrow> within i (\<lambda>c. started c \<and> \<not> closed c) children"
proof -
  assume p: "\<forall>c \<in> set children. pristine c"
  have none: "filter (\<lambda>c. started c \<and> \<not> closed c) children = []"
    using p by (auto simp: filter_empty_conv Idle_def dest!: pristine_idle)
  show ?thesis by (simp add: within_def none split: option.split)
qed

lemma pristine_inv: "pristine n \<Longrightarrow> node_inv ext n \<and> node_inv ext (start_node n)"
proof (induction n arbitrary: ext)
  case (Phase i s steps)
  have none: "filter (\<lambda>st. st_state st = Running) steps = []" "filter step_failed steps = []"
    using Phase by (auto simp: filter_empty_conv step_failed_def)
  have "within i (\<lambda>st. st_state st = Running) steps" by (simp add: within_def none split: option.split)
  moreover have "in_series (\<lambda>st. st_state st \<noteq> Waiting) settled steps" using Phase by (auto simp: in_series_def)
  moreover have "first_error steps" using Phase by (auto simp: first_error_def)
  ultimately show ?case using Phase by (auto simp: start_node_def Idle_def step_failed_def)
next
  case (Group i s children)
  then have p: "\<forall>c \<in> set children. pristine c" and s: "s = Idle" by simp_all
  have "in_series started closed children"
    using p by (auto simp: in_series_def Idle_def dest!: pristine_idle [OF bspec [OF _ nth_mem]])
  moreover have "\<forall>c \<in> set children. \<not> closed c \<and> \<not> started c" using p by (auto simp: Idle_def dest!: pristine_idle bspec)
  ultimately show ?case
    using p s Group.IH pristine_children_within [OF p, of i] by (simp add: start_node_def Idle_def)
qed

lemma unstarted_pristine: "node_inv ext n \<Longrightarrow> \<not> started n \<Longrightarrow> pristine n"
  by (cases n) auto

lemma quiet_succeeds: "node_inv False n \<Longrightarrow> \<not> has_failed n \<Longrightarrow> succeeded (run_report n)"
proof (induction n)
  case (Phase i s steps)
  have "x = ok" if "st \<in> set steps" "status_of (st_state st) = Some x" for st x
  proof (cases x)
    case (failed e)
    with that Phase show ?thesis by (cases "st_state st") (auto simp: step_failed_def)
  next
    case skipped
    with that have "st_state st = Settled skipped" by (cases "st_state st") auto
    with that Phase show ?thesis by auto
  qed
  then show ?case by (auto simp: step_results_def split: option.splits)
next
  case (Group i s children)
  then show ?case by auto
qed

section \<open>Every action keeps the invariant\<close>

lemma in_series_update:
  assumes "in_series begun over xs" and "k < length xs" and "over (xs ! k) \<longrightarrow> over y"
    and "begun y \<longrightarrow> begun (xs ! k) \<or> (\<forall>j < k. over (xs ! j))"
  shows "in_series begun over (xs[k := y])"
  unfolding in_series_def
proof (intro allI impI)
  fix j l assume "j < l \<and> l < length (xs[k := y]) \<and> begun (xs[k := y] ! l)"
  then have l: "j < l" "l < length xs" "begun (xs[k := y] ! l)" by simp_all
  have "over (xs ! j)"
  proof (cases "l = k")
    case True
    with l assms(1,4) show ?thesis by (auto simp: in_series_def)
  next
    case False
    with l assms(1) show ?thesis by (auto simp: in_series_def)
  qed
  with assms(2,3) l show "over (xs[k := y] ! j)" by (cases "j = k") auto
qed

lemma filter_update_length:
  "k < length xs \<Longrightarrow> length (filter P (xs[k := y])) + (if P (xs ! k) then 1 else 0) = length (filter P xs) + (if P y then 1 else 0)"
proof -
  assume k: "k < length xs"
  have "filter P xs = filter P (take k xs @ xs ! k # drop (Suc k) xs)" using id_take_nth_drop [OF k] by simp
  moreover have "filter P (xs[k := y]) = filter P (take k xs @ y # drop (Suc k) xs)" using k by (simp add: upd_conv_take_nth_drop)
  ultimately show ?thesis by simp
qed

lemma bex_split: "k < length xs \<Longrightarrow> (\<exists>x \<in> set xs. P x) \<longleftrightarrow> P (xs ! k) \<or> (\<exists>j < length xs. j \<noteq> k \<and> P (xs ! j))"
  by (metis in_set_conv_nth)

lemma bex_update:
  assumes "k < length xs"
  shows "(\<exists>x \<in> set (xs[k := y]). P x) \<longleftrightarrow> P y \<or> (\<exists>j < length xs. j \<noteq> k \<and> P (xs ! j))"
proof -
  have "(\<exists>x \<in> set (xs[k := y]). P x) \<longleftrightarrow>
      P (xs[k := y] ! k) \<or> (\<exists>j < length (xs[k := y]). j \<noteq> k \<and> P (xs[k := y] ! j))"
    by (rule bex_split) (use assms in simp)
  then show ?thesis using assms by (simp add: nth_list_update cong: conj_cong)
qed

lemma bex_update_same: "k < length xs \<Longrightarrow> P y = P (xs ! k) \<Longrightarrow> (\<exists>x \<in> set (xs[k := y]). P x) \<longleftrightarrow> (\<exists>x \<in> set xs. P x)"
  by (simp only: bex_update bex_split [of k xs P])

lemma within_update:
  assumes "within i active xs" and "k < length xs"
    and "active y \<longrightarrow> active (xs ! k) \<or> (\<forall>c. ni_parallel i \<and> ni_concurrency i = Some c \<and> 1 \<le> c \<longrightarrow> length (filter active xs) < c)"
  shows "within i active (xs[k := y])"
  using filter_update_length [OF assms(2), of active y] assms(1,3)
  by (auto simp: within_def split: option.splits if_splits)

lemma may_begin_within:
  "may_begin i k (map active xs) over \<Longrightarrow> ni_parallel i \<and> ni_concurrency i = Some c \<and> 1 \<le> c \<Longrightarrow> length (filter active xs) < c"
  by (simp add: may_begin_def filter_map comp_def)

lemma may_begin_series:
  assumes "may_begin i k active (map over xs)" and "\<not> ni_parallel i" and "k < length xs"
  shows "\<forall>j < k. over (xs ! j)"
proof (intro allI impI)
  fix j assume j: "j < k"
  have "\<forall>n < length (take k (map over xs)). take k (map over xs) ! n"
    using assms(1,2) by (simp add: may_begin_def list_all_length)
  then have "take k (map over xs) ! j" using j assms(3) by simp
  then show "over (xs ! j)" using j assms(3) by simp
qed

lemma settle_step_nth:
  "k < length steps \<Longrightarrow> settle_step k x steps ! j = (if j = k then (steps ! k)\<lparr>st_state := Settled x\<rparr> else steps ! j)"
  by (simp add: settle_step_def)

lemma first_error_update:
  assumes "first_error steps" and "in_series (\<lambda>st. st_state st \<noteq> Waiting) settled steps" and "k < length steps"
    and "step_failed y \<longrightarrow> st_state (steps ! k) = Running"
    and "st_state y \<in> {Waiting, Settled skipped} \<or> st_state (steps ! k) = Running \<or> (\<forall>j < k. \<not> step_failed (steps ! j))"
  shows "first_error (steps[k := y])"
  unfolding first_error_def
proof (intro allI impI)
  fix j l assume a: "j < l \<and> l < length (steps[k := y]) \<and> step_failed (steps[k := y] ! j)"
  then have l: "j < l" "l < length steps" by simp_all
  have waiting: "st_state (steps ! l) = Waiting" if "j = k" "st_state (steps ! k) = Running"
  proof (rule ccontr)
    assume "st_state (steps ! l) \<noteq> Waiting"
    with assms(2) l have "settled (steps ! j)" by (auto simp: in_series_def)
    with that show False by (simp add: settled_def)
  qed
  consider "j = k" | "l = k" "j \<noteq> k" | "j \<noteq> k" "l \<noteq> k" by blast
  then show "st_state (steps[k := y] ! l) \<in> {Waiting, Settled skipped}"
  proof cases
    case 1
    with a assms(3,4) waiting l show ?thesis by simp
  next
    case 2
    with a have "step_failed (steps ! j)" "j < k" by simp_all
    with assms(1,3) have "st_state (steps ! k) \<in> {Waiting, Settled skipped}" by (auto simp: first_error_def)
    with 2 assms(3,5) \<open>step_failed (steps ! j)\<close> \<open>j < k\<close> show ?thesis by auto
  next
    case 3
    with a assms(1) l show ?thesis by (auto simp: first_error_def)
  qed
qed

lemma phase_update_inv:
  assumes inv: "node_inv ext (Phase i s steps)" and live: "ns_started s" "\<not> ns_closed s"
    and k: "k < length steps" "\<not> settled (steps ! k)"
    and turn: "st_state (steps ! k) = Waiting \<Longrightarrow> may_begin i k (map (\<lambda>st. st_state st = Running) steps) (map settled steps)"
    and y: "st_state y \<noteq> Waiting" "st_state y = Running \<Longrightarrow> st_state (steps ! k) = Waiting \<and> \<not> ns_aborted s"
      "st_state y = Settled skipped \<Longrightarrow> ext \<or> ns_aborted s"
      "st_state (steps ! k) = Waiting \<Longrightarrow> st_state y \<in> {Running, Settled skipped}"
  shows "node_inv ext (Phase i (s\<lparr>ns_aborted := ns_aborted s \<or> step_failed y\<rparr>) (steps[k := y]))"
proof -
  have st: "st_state (steps ! k) = Waiting \<or> st_state (steps ! k) = Running"
    using k(2) by (cases "st_state (steps ! k)") (auto simp: settled_def)
  then have old: "\<not> step_failed (steps ! k)" by (auto simp: step_failed_def)
  have aborted: "ns_aborted s \<or> step_failed y \<longleftrightarrow> (\<exists>st \<in> set (steps[k := y]). step_failed st)"
    unfolding bex_update [OF k(1)] using inv old bex_split [OF k(1), of step_failed] by auto
  have skipped: "(\<exists>st \<in> set (steps[k := y]). st_state st = Settled skipped) \<longrightarrow> ext \<or> ns_aborted s"
    using inv y(3) set_update_subset_insert [of steps k y] by auto
  have series: "in_series (\<lambda>st. st_state st \<noteq> Waiting) settled (steps[k := y]) \<and> first_error (steps[k := y])"
    if "\<not> ni_parallel i"
  proof
    have elder: "in_series (\<lambda>st. st_state st \<noteq> Waiting) settled steps" "first_error steps" using inv that by simp_all
    show "in_series (\<lambda>st. st_state st \<noteq> Waiting) settled (steps[k := y])"
      by (rule in_series_update [OF elder(1) k(1)]) (use k(2) turn that st may_begin_series [OF _ that k(1)] in auto)
    have "\<forall>j < k. \<not> step_failed (steps ! j)" if "st_state y = Running"
      using y(2) [OF that] inv k(1) by auto
    then have "st_state y \<in> {Waiting, Settled skipped} \<or> st_state (steps ! k) = Running \<or> (\<forall>j < k. \<not> step_failed (steps ! j))"
      using st y(4) by auto
    moreover have "step_failed y \<longrightarrow> st_state (steps ! k) = Running" using st y(4) by (auto simp: step_failed_def)
    ultimately show "first_error (steps[k := y])" by (intro first_error_update [OF elder(2,1) k(1)])
  qed
  have "within i (\<lambda>st. st_state st = Running) (steps[k := y])"
  proof (rule within_update [OF _ k(1)])
    show "st_state y = Running \<longrightarrow> st_state (steps ! k) = Running \<or>
        (\<forall>c. ni_parallel i \<and> ni_concurrency i = Some c \<and> 1 \<le> c \<longrightarrow> length (filter (\<lambda>st. st_state st = Running) steps) < c)"
      using y(2) may_begin_within [OF turn] by blast
  qed (use inv in simp)
  with aborted skipped series live show ?thesis by auto
qed

lemma phase_action_inv:
  fixes steps :: "'e build_step list"
  assumes "node_inv ext (Phase i s steps)" and "ns_started s" and "\<not> ns_closed s"
    and "phase_action expired ext act i s steps = Some (s', steps')"
  shows "node_inv ext (Phase i s' steps') \<and> ns_started s' \<and> \<not> ns_closed s' \<and>
    (has_failed (Phase i s steps) \<longrightarrow> has_failed (Phase i s' steps'))"
proof -
  have flag: "s\<lparr>ns_aborted := ns_aborted s \<or> False\<rparr> = s" by simp
  have result: "\<exists>y :: 'e build_step. node_inv ext (Phase i (s\<lparr>ns_aborted := ns_aborted s \<or> step_failed y\<rparr>) steps') \<and>
      s' = s\<lparr>ns_aborted := ns_aborted s \<or> step_failed y\<rparr>"
  proof (cases act)
    case (BeginItem k)
    with assms(4) have k: "k < length steps" "st_state (steps ! k) = Waiting"
        "may_begin i k (map (\<lambda>st. st_state st = Running) steps) (map settled steps)"
        "s' = s" "steps' = steps[k := (steps ! k)\<lparr>st_state := if ext \<or> ns_aborted s then Settled skipped else Running\<rparr>]"
      by (auto simp: settle_step_def split: if_splits)
    let ?y = "(steps ! k)\<lparr>st_state := if ext \<or> ns_aborted s then Settled skipped else Running\<rparr>"
    have "node_inv ext (Phase i (s\<lparr>ns_aborted := ns_aborted s \<or> step_failed ?y\<rparr>) (steps[k := ?y]))"
      by (rule phase_update_inv [OF assms(1-3) k(1)]) (use k in \<open>auto simp: settled_def split: if_splits\<close>)
    moreover have "\<not> step_failed ?y" by (simp add: step_failed_def)
    then have "s = s\<lparr>ns_aborted := ns_aborted s \<or> step_failed ?y\<rparr>" by simp
    ultimately show ?thesis unfolding k(4,5) by blast
  next
    case (StepReturns k)
    with assms(4) have k: "k < length steps" "st_state (steps ! k) = Running" "s' = s" "steps' = settle_step k ok steps"
      by (auto split: if_splits)
    let ?y = "(steps ! k)\<lparr>st_state := Settled ok\<rparr>"
    have "node_inv ext (Phase i (s\<lparr>ns_aborted := ns_aborted s \<or> step_failed ?y\<rparr>) (steps[k := ?y]))"
      by (rule phase_update_inv [OF assms(1-3) k(1)]) (use k in \<open>auto simp: settled_def\<close>)
    moreover have "\<not> step_failed ?y" by (simp add: step_failed_def)
    then have "s' = s\<lparr>ns_aborted := ns_aborted s \<or> step_failed ?y\<rparr>" "steps' = steps[k := ?y]"
      by (simp_all add: k(3,4) settle_step_def)
    ultimately show ?thesis by blast
  next
    case (StepThrows k e)
    with assms(4) have k: "k < length steps" "st_state (steps ! k) = Running" "s' = s\<lparr>ns_aborted := True\<rparr>"
        "steps' = settle_step k (failed e) steps"
      by (auto split: if_splits)
    let ?y = "(steps ! k)\<lparr>st_state := Settled (failed e)\<rparr>"
    have "node_inv ext (Phase i (s\<lparr>ns_aborted := ns_aborted s \<or> step_failed ?y\<rparr>) (steps[k := ?y]))"
      by (rule phase_update_inv [OF assms(1-3) k(1)]) (use k in \<open>auto simp: settled_def\<close>)
    moreover have "step_failed ?y" by (simp add: step_failed_def)
    then have "s' = s\<lparr>ns_aborted := ns_aborted s \<or> step_failed ?y\<rparr>" "steps' = steps[k := ?y]"
      by (simp_all add: k(3,4) settle_step_def)
    ultimately show ?thesis by blast
  next
    case (StepExpires k)
    with assms(4) have k: "k < length steps" "st_state (steps ! k) = Running" "s' = s\<lparr>ns_aborted := True\<rparr>"
        "steps' = settle_step k (failed expired) steps"
      by (auto split: if_splits)
    let ?y = "(steps ! k)\<lparr>st_state := Settled (failed expired)\<rparr>"
    have "node_inv ext (Phase i (s\<lparr>ns_aborted := ns_aborted s \<or> step_failed ?y\<rparr>) (steps[k := ?y]))"
      by (rule phase_update_inv [OF assms(1-3) k(1)]) (use k in \<open>auto simp: settled_def\<close>)
    moreover have "step_failed ?y" by (simp add: step_failed_def)
    then have "s' = s\<lparr>ns_aborted := ns_aborted s \<or> step_failed ?y\<rparr>" "steps' = steps[k := ?y]"
      by (simp_all add: k(3,4) settle_step_def)
    ultimately show ?thesis by blast
  qed (use assms(4) in simp)
  then obtain y :: "'e build_step" where new: "node_inv ext (Phase i s' steps')"
      and s': "s' = s\<lparr>ns_aborted := ns_aborted s \<or> step_failed y\<rparr>" by blast
  have "has_failed (Phase i s steps) \<Longrightarrow> ns_aborted s" using assms(1) by (simp only: node_inv.simps)
  moreover have "ns_aborted s' \<Longrightarrow> has_failed (Phase i s' steps')" using new by (simp only: node_inv.simps)
  moreover have "ns_started s'" "\<not> ns_closed s'" "ns_aborted s \<Longrightarrow> ns_aborted s'" using assms(2,3) by (simp_all add: s')
  ultimately show ?thesis using new by blast
qed

lemma group_begin_inv:
  assumes inv: "node_inv ext (Group i s children)" and live: "ns_started s" "\<not> ns_closed s"
    and k: "k < length children" "\<not> started (children ! k)" "ni_parallel i \<or> \<not> (ext \<or> ns_aborted s)"
    and turn: "may_begin i k (map (\<lambda>c. started c \<and> \<not> closed c) children) (map closed children)"
  shows "node_inv ext (Group i s (children[k := start_node (children ! k)]))"
proof -
  let ?c = "children ! k" and ?children' = "children[k := start_node (children ! k)]"
  have mem: "?c \<in> set children" using k(1) by simp
  then have "node_inv (ext \<or> ns_aborted s) ?c" using inv by simp
  then have fresh: "pristine ?c" using k(2) by (rule unstarted_pristine)
  have sub: "set ?children' \<subseteq> insert (start_node ?c) (set children)" by (rule set_update_subset_insert)
  have same_failed: "has_failed (Group i s ?children') \<longleftrightarrow> has_failed (Group i s children)"
    using bex_update_same [OF k(1), of has_failed] by simp
  have "node_inv (ext \<or> ns_aborted s) c" if "c \<in> set ?children'" for c
    using that sub inv pristine_inv [OF fresh] by auto
  moreover have "closed c \<longrightarrow> started c \<and> (succeeded (run_report c) \<or> ns_aborted s)" if "c \<in> set ?children'" for c
    using that sub inv k(2) mem by auto
  moreover have "in_series started closed ?children'" if "\<not> ni_parallel i"
    by (rule in_series_update [OF _ k(1)]) (use inv that may_begin_series [OF turn that k(1)] in auto)
  moreover have "within i (\<lambda>c. started c \<and> \<not> closed c) ?children'"
    by (rule within_update [OF _ k(1)]) (use inv may_begin_within [OF turn] in auto)
  ultimately show ?thesis using inv live same_failed by simp
qed

lemma group_finish_inv:
  assumes inv: "node_inv ext (Group i s children)" and live: "ns_started s" "\<not> ns_closed s"
    and k: "k < length children" "started (children ! k)" "\<not> closed (children ! k)"
      "node_over (ext \<or> ns_aborted s) (children ! k)"
    and s': "s' = (if succeeded (run_report (children ! k)) then s else s\<lparr>ns_aborted := True\<rparr>)"
  shows "node_inv ext (Group i s' (children[k := close_node (children ! k)]))"
proof -
  let ?c = "children ! k" and ?children' = "children[k := close_node (children ! k)]"
  have mem: "?c \<in> set children" using k(1) by simp
  then have c: "node_inv (ext \<or> ns_aborted s) ?c" using inv by simp
  have sub: "set ?children' \<subseteq> insert (close_node ?c) (set children)" by (rule set_update_subset_insert)
  have flags: "ns_started s'" "\<not> ns_closed s'" "ns_aborted s \<longrightarrow> ns_aborted s'"
      "ns_aborted s' \<longleftrightarrow> ns_aborted s \<or> \<not> succeeded (run_report ?c)"
    using live by (simp_all add: s')
  have same_failed: "has_failed (Group i s' ?children') \<longleftrightarrow> has_failed (Group i s children)"
    using bex_update_same [OF k(1), of has_failed] by simp
  have "ns_aborted s' \<longrightarrow> has_failed (Group i s' ?children') \<or> ext"
  proof
    assume "ns_aborted s'"
    then consider "ns_aborted s" | "\<not> ns_aborted s" "\<not> succeeded (run_report ?c)" using flags(4) by blast
    then show "has_failed (Group i s' ?children') \<or> ext"
    proof cases
      case 1
      with inv same_failed show ?thesis by simp
    next
      case 2
      show ?thesis
      proof (cases ext)
        case False
        with 2 c have "node_inv False ?c" by simp
        with 2 quiet_succeeds have "has_failed ?c" by blast
        with mem same_failed show ?thesis by auto
      qed simp
    qed
  qed
  moreover have "node_inv (ext \<or> ns_aborted s') c" if "c \<in> set ?children'" for c
  proof -
    have "node_inv (ext \<or> ns_aborted s) (close_node ?c)"
      using c k by (cases ?c) (auto simp: close_node_def)
    then have "node_inv (ext \<or> ns_aborted s) c" using that sub inv by auto
    then show ?thesis by (rule node_inv_mono) (use flags(3) in blast)
  qed
  moreover have "closed c \<longrightarrow> started c \<and> (succeeded (run_report c) \<or> ns_aborted s')" if "c \<in> set ?children'" for c
    using that sub inv k(2) flags by auto
  moreover have "in_series started closed ?children'" if "\<not> ni_parallel i"
    by (rule in_series_update [OF _ k(1)]) (use inv that k in auto)
  moreover have "within i (\<lambda>c. started c \<and> \<not> closed c) ?children'"
    by (rule within_update [OF _ k(1)]) (use inv in auto)
  ultimately show ?thesis using flags(1,2) by simp
qed

lemma group_action_inv:
  assumes "node_inv ext (Group i s children)" and "ns_started s" and "\<not> ns_closed s"
    and "group_action ext act i s children = Some ((s', children'), finished)"
  shows "node_inv ext (Group i s' children') \<and> ns_started s' \<and> \<not> ns_closed s'"
proof (cases act)
  case (BeginItem k)
  with assms group_begin_inv [OF assms(1-3), of k] show ?thesis by (auto split: if_splits)
next
  case (FinishItem k)
  with assms(4) have k: "k < length children" "started (children ! k)" "\<not> closed (children ! k)"
      "node_over (ext \<or> ns_aborted s) (children ! k)"
      "s' = (if succeeded (run_report (children ! k)) then s else s\<lparr>ns_aborted := True\<rparr>)"
      "children' = children[k := close_node (children ! k)]"
    by (auto simp: Let_def split: if_splits)
  have "node_inv ext (Group i s' (children[k := close_node (children ! k)]))"
    by (rule group_finish_inv [OF assms(1-3) k(1-5)])
  with k(5,6) assms(2,3) show ?thesis by simp
qed (use assms(4) in simp_all)

lemma child_failure_kept:
  assumes "k < length children" and "has_failed (children ! k) \<longrightarrow> has_failed c"
    and "has_failed (Group i s children)"
  shows "has_failed (Group i s (children[k := c]))"
  using assms(2,3) bex_split [OF assms(1), of has_failed] bex_update [OF assms(1), of c has_failed] by auto

lemma group_descend_inv:
  assumes inv: "node_inv ext (Group i s children)" and live: "ns_started s" "\<not> ns_closed s"
    and k: "k < length children" "started (children ! k)" "\<not> closed (children ! k)"
    and c: "node_inv (ext \<or> ns_aborted s) c" "started c" "\<not> closed c" "has_failed (children ! k) \<longrightarrow> has_failed c"
  shows "node_inv ext (Group i s (children[k := c]))"
proof -
  let ?children' = "children[k := c]"
  have sub: "set ?children' \<subseteq> insert c (set children)" by (rule set_update_subset_insert)
  have "node_inv (ext \<or> ns_aborted s) d" if "d \<in> set ?children'" for d using that sub inv c(1) by auto
  moreover have "closed d \<longrightarrow> started d \<and> (succeeded (run_report d) \<or> ns_aborted s)" if "d \<in> set ?children'" for d
    using that sub inv c by auto
  moreover have "in_series started closed ?children'" if "\<not> ni_parallel i"
    by (rule in_series_update [OF _ k(1)]) (use inv that k in auto)
  moreover have "within i (\<lambda>d. started d \<and> \<not> closed d) ?children'"
    by (rule within_update [OF _ k(1)]) (use inv k in auto)
  moreover have "ns_aborted s \<longrightarrow> has_failed (Group i s ?children') \<or> ext"
    using inv child_failure_kept [OF k(1) c(4), of i s] by auto
  ultimately show ?thesis using live by simp
qed

lemma node_event_inv:
  "node_event expired ext path act n = Some (n', finished) \<Longrightarrow> node_inv ext n \<Longrightarrow> started n \<Longrightarrow> \<not> closed n \<Longrightarrow>
    node_inv ext n' \<and> started n' \<and> \<not> closed n' \<and> (has_failed n \<longrightarrow> has_failed n')"
proof (induction expired ext path act n arbitrary: n' finished rule: node_event.induct)
  case (1 expired ext path act i s steps)
  from 1(1) obtain s' steps' where act: "phase_action expired ext act i s steps = Some (s', steps')" "n' = Phase i s' steps'"
    by (auto split: if_splits)
  have "node_inv ext (Phase i s' steps') \<and> ns_started s' \<and> \<not> ns_closed s' \<and>
      (has_failed (Phase i s steps) \<longrightarrow> has_failed (Phase i s' steps'))"
    by (rule phase_action_inv [OF 1(2) _ _ act(1)]) (use 1(3,4) in simp_all)
  then show ?case unfolding act(2) node_state_of.simps .
next
  case (2 expired ext act i s children)
  from 2(1) obtain s' children' where act: "group_action ext act i s children = Some ((s', children'), finished)"
      "n' = Group i s' children'" by auto
  have "has_failed (Group i s children) \<longrightarrow> has_failed (Group i s' children')"
  proof (cases act)
    case (BeginItem k)
    with act(1) have "k < length children" "children' = children[k := start_node (children ! k)]" by (auto split: if_splits)
    then show ?thesis using bex_update_same [of k children has_failed] by simp
  next
    case (FinishItem k)
    with act(1) have "k < length children" "children' = children[k := close_node (children ! k)]"
      by (auto simp: Let_def split: if_splits)
    then show ?thesis using bex_update_same [of k children has_failed] by simp
  qed (use act(1) in simp_all)
  moreover have "node_inv ext (Group i s' children') \<and> ns_started s' \<and> \<not> ns_closed s'"
    by (rule group_action_inv [OF 2(2) _ _ act(1)]) (use 2(3,4) in simp_all)
  ultimately show ?case unfolding act(2) node_state_of.simps by blast
next
  case (3 expired ext k path act i s children)
  from 3(2) obtain c where k: "k < length children" "started (children ! k)" "\<not> closed (children ! k)"
    and c: "node_event expired (ext \<or> ns_aborted s) path act (children ! k) = Some (c, finished)"
    and n': "n' = Group i s (children[k := c])" by (auto split: if_splits)
  have "node_inv (ext \<or> ns_aborted s) (children ! k)" using 3(3) k(1) by simp
  from 3(1) [OF _ c this k(2,3)] k have new: "node_inv (ext \<or> ns_aborted s) c" "started c" "\<not> closed c"
      "has_failed (children ! k) \<longrightarrow> has_failed c" by blast+
  have "node_inv ext n'" unfolding n' by (rule group_descend_inv [OF 3(3) _ _ k new]) (use 3(4,5) in simp_all)
  moreover have "has_failed (Group i s children) \<longrightarrow> has_failed n'"
    unfolding n' using child_failure_kept [OF k(1) new(4), of i s] by blast
  ultimately show ?case using 3(4,5) by (simp add: n')
qed

lemma reachable_inv:
  assumes "build_reachable expired children b" and "\<forall>c \<in> set children. pristine c"
  shows "node_inv False (bd_root b) \<and> started (bd_root b) \<and> \<not> closed (bd_root b)"
  using assms(1)
proof induction
  case start
  have "pristine (Group RootInfo Idle children)" using assms(2) by simp
  from pristine_inv [OF this, of False] show ?case by (simp add: build_start_def start_node_def) (simp add: Idle_def)
next
  case (step b event b')
  from step.hyps(2) obtain finished where "node_event expired False (fst event) (snd event) (bd_root b) = Some (bd_root b', finished)"
    by (auto simp: build_step_def)
  from node_event_inv [OF this] step.IH show ?case by blast
qed

end
