(* ===== verification/Build_Properties.thy ===== *)
theory Build_Properties
  imports Build_Proofs "HOL-Library.Multiset"
begin

text \<open>
  What the invariant of \<open>Build_Proofs\<close> means for a build: the discipline of its phases, its verdict, the narrative
  an interrupted run leaves, and that a run gets on and ends.
\<close>

section \<open>The nodes of a build\<close>

fun subnodes :: "'e build_node \<Rightarrow> 'e build_node list" where
  "subnodes (Phase i s steps) = [Phase i s steps]"
| "subnodes (Group i s children) = Group i s children # concat (map subnodes children)"

lemma node_inv_subnodes: "node_inv ext n \<Longrightarrow> m \<in> set (subnodes n) \<Longrightarrow> \<exists>ext'. node_inv ext' m"
proof (induction n arbitrary: ext)
  case (Group i s children)
  from Group.prems(2) consider "m = Group i s children" | c where "c \<in> set children" "m \<in> set (subnodes c)" by auto
  then show ?case
  proof cases
    case 1
    with Group.prems(1) show ?thesis by blast
  next
    case 2
    have "node_inv (ext \<or> ns_aborted s) c" using Group.prems(1) 2(1) by simp
    with Group.IH 2 show ?thesis by blast
  qed
qed auto

text \<open>The plan a tree was built from: what it is when nothing has run.\<close>

fun erase :: "'e build_node \<Rightarrow> 'e build_node" where
  "erase (Phase i s steps) = Phase i Idle (map (\<lambda>st. st\<lparr>st_state := Waiting\<rparr>) steps)"
| "erase (Group i s children) = Group i Idle (map erase children)"

lemma erase_pristine: "pristine n \<Longrightarrow> erase n = n"
proof (induction n)
  case (Phase i s steps)
  then show ?case by (auto intro!: map_idI)
next
  case (Group i s children)
  then show ?case by (auto intro!: map_idI)
qed

lemma erase_with_state [simp]: "erase (with_state f n) = erase n" "erase (start_node n) = erase n" "erase (close_node n) = erase n"
  by (cases n; simp add: start_node_def close_node_def)+

lemma map_update_same: "k < length xs \<Longrightarrow> f y = f (xs ! k) \<Longrightarrow> map f (xs[k := y]) = map f xs"
  by (simp add: map_update list_update_same_conv)

lemma phase_action_erase:
  "phase_action expired ext act i s steps = Some (s', steps') \<Longrightarrow>
    map (\<lambda>st. st\<lparr>st_state := Waiting\<rparr>) steps' = map (\<lambda>st. st\<lparr>st_state := Waiting\<rparr>) steps"
  by (cases act) (auto simp: settle_step_def map_update_same split: if_splits)

lemma node_event_erase: "node_event expired ext path act n = Some (n', finished) \<Longrightarrow> erase n' = erase n"
proof (induction expired ext path act n arbitrary: n' finished rule: node_event.induct)
  case (1 expired ext path act i s steps)
  then show ?case by (auto dest: phase_action_erase split: if_splits)
next
  case (2 expired ext act i s children)
  then show ?case by (cases act) (auto simp: Let_def map_update_same split: if_splits)
next
  case (3 expired ext k path act i s children)
  from 3(2) obtain c where k: "k < length children" "started (children ! k)" "\<not> closed (children ! k)"
    and c: "node_event expired (ext \<or> ns_aborted s) path act (children ! k) = Some (c, finished)"
    and n': "n' = Group i s (children[k := c])" by (auto split: if_splits)
  have "erase c = erase (children ! k)" using 3(1) [OF _ c] k by blast
  with k n' show ?case by (simp add: map_update_same)
qed

lemma build_step_event:
  "build_step expired event b = Some b' \<Longrightarrow>
    \<exists>finished. node_event expired False (fst event) (snd event) (bd_root b) = Some (bd_root b', finished) \<and>
      bd_completedPhases b' = bd_completedPhases b @ finished"
  by (auto simp: build_step_def)

lemma reachable_erase:
  "build_reachable expired children b \<Longrightarrow> \<forall>c \<in> set children. pristine c \<Longrightarrow>
    erase (bd_root b) = Group RootInfo Idle children"
proof (induction rule: build_reachable.induct)
  case start
  then show ?case using erase_pristine by (auto simp: build_start_def intro!: map_idI)
next
  case (step b event b')
  then show ?case using build_step_event [OF step.hyps(2)] node_event_erase by metis
qed

section \<open>The verdict\<close>

lemma all_ok_no_failure: "all_ok n \<Longrightarrow> \<not> has_failed n"
  by (induction n) (auto simp: step_failed_def)

lemma all_ok_succeeds: "all_ok n \<Longrightarrow> succeeded (run_report n)"
  by (induction n) (auto simp: step_results_def)

text \<open>Without a failure nothing was skipped or omitted, so what is over has run to the end.\<close>

lemma quiet_over_ok: "node_inv False n \<Longrightarrow> \<not> has_failed n \<Longrightarrow> node_over False n \<Longrightarrow> all_ok n"
proof (induction n)
  case (Phase i s steps)
  have "st_state st = Settled ok" if "st \<in> set steps" for st
  proof -
    have "settled st" "\<not> step_failed st" "st_state st \<noteq> Settled skipped" using Phase that by (auto simp: list_all_iff)
    then show ?thesis
      by (cases "st_state st"; cases "the (status_of (st_state st))") (auto simp: settled_def step_failed_def)
  qed
  then show ?case by simp
next
  case (Group i s children)
  then have live: "\<not> ns_aborted s" by auto
  have "all_ok c" if c: "c \<in> set children" for c
  proof (rule Group.IH [OF c])
    show inv: "node_inv False c" "\<not> has_failed c" using Group.prems live c by auto
    have "closed c" using Group.prems(3) live c by (simp add: list_all_iff)
    with inv(1) show "node_over False c" by (cases c) auto
  qed
  then show ?case by simp
qed

lemma failed_not_succeeded:
  "node_inv ext n \<Longrightarrow> node_over ext n \<Longrightarrow> has_failed n \<Longrightarrow> \<not> succeeded (run_report n)"
proof (induction n arbitrary: ext)
  case (Phase i s steps)
  then obtain st where st: "st \<in> set steps" "step_failed st" by auto
  then obtain e where "st_state st = Settled (failed e)" by (auto simp: step_failed_def split: step_state.splits step_status.splits)
  with st(1) have "(st_name st, failed e) \<in> set (step_results steps)" by (force simp: step_results_def)
  then show ?case by auto
next
  case (Group i s children)
  then obtain c where c: "c \<in> set children" "has_failed c" by auto
  have inv: "node_inv (ext \<or> ns_aborted s) c" using Group.prems(1) c(1) by simp
  have "started c" using c(2) unstarted_pristine [OF inv] pristine_no_failure by blast
  with Group.prems(2) c(1) have "closed c" by (auto simp: list_all_iff)
  moreover from inv this have "node_over (ext \<or> ns_aborted s) c" by (cases c) auto
  ultimately show ?case using Group.IH [OF c(1) inv _ c(2)] c(1) by auto
qed

lemma verdict:
  assumes "node_inv False n" and "node_over False n"
  shows "succeeded (run_report n) \<longleftrightarrow> all_ok n"
  using quiet_over_ok [OF assms(1) _ assms(2)] failed_not_succeeded [OF assms] all_ok_succeeds by blast

lemma skipped_needs_failure:
  "node_inv False n \<Longrightarrow> \<not> has_failed n \<Longrightarrow> Phase i s steps \<in> set (subnodes n) \<Longrightarrow> st \<in> set steps \<Longrightarrow>
    st_state st \<noteq> Settled skipped"
proof (induction n)
  case (Group j t children)
  then have live: "\<not> ns_aborted t" by auto
  from Group.prems(3) obtain c where c: "c \<in> set children" "Phase i s steps \<in> set (subnodes c)" by auto
  show ?case by (rule Group.IH [OF c(1) _ _ c(2)]) (use Group.prems live c in auto)
qed auto

section \<open>The flat narrative\<close>

definition closed_phases :: "'e build_node \<Rightarrow> 'e report_node list" where
  "closed_phases n = map run_report (filter (\<lambda>m. is_phase m \<and> closed m) (subnodes n))"

lemma closed_phases_Phase: "closed_phases (Phase i s steps) = (if ns_closed s then [run_report (Phase i s steps)] else [])"
  by (simp add: closed_phases_def)

lemma closed_phases_Group: "closed_phases (Group i s children) = concat (map closed_phases children)"
  by (simp add: closed_phases_def [abs_def] filter_concat map_concat comp_def)

lemma pristine_closed_phases: "pristine n \<Longrightarrow> closed_phases n = []"
  by (induction n) (auto simp: closed_phases_Phase closed_phases_Group Idle_def)

lemma closed_phases_start [simp]: "closed_phases (start_node n) = closed_phases n"
  by (cases n) (simp_all add: start_node_def closed_phases_Phase closed_phases_Group)

lemma closed_phases_close:
  "\<not> closed n \<Longrightarrow> mset (closed_phases (close_node n)) = mset (closed_phases n) + mset (if is_phase n then [run_report n] else [])"
  by (cases n) (simp_all add: close_node_def closed_phases_Phase closed_phases_Group)

lemma mset_concat_update:
  assumes "k < length xs"
  shows "mset (concat (map f (xs[k := y]))) + mset (f (xs ! k)) = mset (concat (map f xs)) + mset (f y)"
proof -
  have "map f xs = map f (take k xs) @ f (xs ! k) # map f (drop (Suc k) xs)"
    using arg_cong [OF id_take_nth_drop [OF assms], of "map f"] by simp
  moreover have "map f (xs[k := y]) = map f (take k xs) @ f y # map f (drop (Suc k) xs)"
    using assms by (simp add: upd_conv_take_nth_drop)
  ultimately show ?thesis by simp
qed

lemma closed_phases_update:
  assumes "k < length children" and "mset (closed_phases c) = mset (closed_phases (children ! k)) + X"
  shows "mset (closed_phases (Group i s (children[k := c]))) = mset (closed_phases (Group i t children)) + X"
  using mset_concat_update [OF assms(1), of closed_phases c] assms(2) by (simp add: closed_phases_Group)

lemma node_event_phases:
  "node_event expired ext path act n = Some (n', finished) \<Longrightarrow> \<not> closed n \<Longrightarrow>
    mset (closed_phases n') = mset (closed_phases n) + mset finished \<and> \<not> closed n'"
proof (induction expired ext path act n arbitrary: n' finished rule: node_event.induct)
  case (1 expired ext path act i s steps)
  have "ns_closed s' = ns_closed s" if "phase_action expired ext act i s steps = Some (s', steps')" for s' steps'
    using that by (cases act) (auto split: if_splits)
  with 1 show ?case by (auto simp: closed_phases_Phase split: if_splits)
next
  case (2 expired ext act i s children)
  from 2(1) obtain s' children' where act: "group_action ext act i s children = Some ((s', children'), finished)"
      and n': "n' = Group i s' children'" by auto
  have flag: "ns_closed s' = ns_closed s" using act by (cases act) (auto simp: Let_def split: if_splits)
  show ?case
  proof (cases act)
    case (BeginItem k)
    with act have k: "k < length children" "children' = children[k := start_node (children ! k)]" "finished = []"
      by (auto split: if_splits)
    with flag 2(2) n' closed_phases_update [OF k(1), of "start_node (children ! k)" "{#}" i s' s] show ?thesis by simp
  next
    case (FinishItem k)
    with act have k: "k < length children" "\<not> closed (children ! k)" "children' = children[k := close_node (children ! k)]"
        "finished = (if is_phase (children ! k) then [run_report (children ! k)] else [])"
      by (auto simp: Let_def split: if_splits)
    with flag 2(2) n' closed_phases_update [OF k(1) closed_phases_close [OF k(2)], of i s' s] show ?thesis by simp
  qed (use act in simp_all)
next
  case (3 expired ext k path act i s children)
  from 3(2) obtain c where k: "k < length children" "started (children ! k)" "\<not> closed (children ! k)"
    and c: "node_event expired (ext \<or> ns_aborted s) path act (children ! k) = Some (c, finished)"
    and n': "n' = Group i s (children[k := c])" by (auto split: if_splits)
  have "mset (closed_phases c) = mset (closed_phases (children ! k)) + mset finished" using 3(1) [OF _ c] k by blast
  with closed_phases_update [OF k(1) this, of i s s] 3(3) n' show ?case by simp
qed

lemma reachable_phases:
  "build_reachable expired children b \<Longrightarrow> \<forall>c \<in> set children. pristine c \<Longrightarrow>
    mset (bd_completedPhases b) = mset (closed_phases (bd_root b)) \<and> \<not> closed (bd_root b)"
proof (induction rule: build_reachable.induct)
  case start
  then have "concat (map closed_phases children) = []" using pristine_closed_phases by auto
  then show ?case by (simp add: build_start_def closed_phases_Group Idle_def)
next
  case (step b event b')
  then show ?case using build_step_event [OF step.hyps(2)] node_event_phases by fastforce
qed

text \<open>The tree of a node that is over names the same phases.\<close>

lemma report_phases_closed:
  "node_inv ext n \<Longrightarrow> closed n \<Longrightarrow> report_phases (run_report n) = closed_phases n"
proof (induction n arbitrary: ext)
  case (Group i s children)
  have "(if closed c then report_phases (run_report c) else []) = closed_phases c" if c: "c \<in> set children" for c
  proof -
    have inv: "node_inv (ext \<or> ns_aborted s) c" using Group.prems(1) c by simp
    show ?thesis
    proof (cases "closed c")
      case True
      with Group.IH [OF c inv] show ?thesis by simp
    next
      case False
      have "\<not> started c" using Group.prems False c by (auto simp: list_all_iff)
      with unstarted_pristine [OF inv] pristine_closed_phases [of c] False show ?thesis by simp
    qed
  qed
  then have "concat (map (\<lambda>c. if closed c then report_phases (run_report c) else []) children) = concat (map closed_phases children)"
    by (intro arg_cong [where f = concat] map_cong refl)
  moreover have "concat (map (\<lambda>c. if closed c then report_phases (run_report c) else []) xs) =
      concat (map (report_phases \<circ> run_report) (filter closed xs))" for xs :: "'a build_node list"
    by (induction xs) auto
  ultimately show ?case by (simp add: closed_phases_Group)
qed (simp add: closed_phases_Phase)

section \<open>Getting on and ending\<close>

fun step_running :: "'e build_node \<Rightarrow> bool" where
  "step_running (Phase i s steps) \<longleftrightarrow> (\<exists>st \<in> set steps. st_state st = Running)"
| "step_running (Group i s children) \<longleftrightarrow> (\<exists>c \<in> set children. step_running c)"

fun engine_action :: "'e action \<Rightarrow> bool" where
  "engine_action (BeginItem k) = True"
| "engine_action (FinishItem k) = True"
| "engine_action _ = False"

lemma may_begin_first:
  assumes "filter id active = []" and "\<forall>j < k. over ! j" and "k < length over"
  shows "may_begin i k active over"
  using assms by (auto simp: may_begin_def list_all_length split: option.split)

lemma least_not_over:
  assumes "\<not> list_all over xs"
  obtains k where "k < length xs" "\<not> over (xs ! k)" "\<forall>j < k. over (xs ! j)"
proof -
  let ?k = "LEAST k. k < length xs \<and> \<not> over (xs ! k)"
  have "\<exists>k. k < length xs \<and> \<not> over (xs ! k)" using assms by (auto simp: list_all_length)
  then have k: "?k < length xs \<and> \<not> over (xs ! ?k)" by (rule LeastI_ex)
  moreover have "over (xs ! j)" if "j < ?k" for j using not_less_Least [OF that] that k by auto
  ultimately show thesis using that by blast
qed

lemma node_progress:
  "node_inv ext n \<Longrightarrow> \<not> node_over ext n \<Longrightarrow> \<not> step_running n \<Longrightarrow>
    \<exists>path act. engine_action act \<and> node_event expired ext path act n \<noteq> None"
proof (induction n arbitrary: ext)
  case (Phase i s steps)
  then obtain k where k: "k < length steps" "\<not> settled (steps ! k)" "\<forall>j < k. settled (steps ! j)"
    using least_not_over [of settled steps] by auto
  have "st_state (steps ! k) \<noteq> Running" using Phase.prems(3) k(1) by auto
  with k(2) have waiting: "st_state (steps ! k) = Waiting" by (cases "st_state (steps ! k)") (auto simp: settled_def)
  have "filter id (map (\<lambda>st. st_state st = Running) steps) = []" using Phase.prems(3) by (auto simp: filter_empty_conv)
  then have "may_begin i k (map (\<lambda>st. st_state st = Running) steps) (map settled steps)"
    using k by (intro may_begin_first) auto
  with k waiting have "node_event expired ext [] (BeginItem k) (Phase i s steps) \<noteq> None" by simp
  then show ?case using engine_action.simps(1) by blast
next
  case (Group i s children)
  show ?case
  proof (cases "\<exists>c \<in> set children. started c \<and> \<not> closed c")
    case True
    then obtain k where k: "k < length children" "started (children ! k)" "\<not> closed (children ! k)" by (auto simp: in_set_conv_nth)
    have c: "children ! k \<in> set children" using k(1) by simp
    show ?thesis
    proof (cases "node_over (ext \<or> ns_aborted s) (children ! k)")
      case True
      with k have "node_event expired ext [] (FinishItem k) (Group i s children) \<noteq> None" by (simp add: Let_def)
      then show ?thesis using engine_action.simps(2) by blast
    next
      case False
      have "\<exists>path act. engine_action act \<and> node_event expired (ext \<or> ns_aborted s) path act (children ! k) \<noteq> None"
        by (rule Group.IH [OF c]) (use Group.prems c False in auto)
      then obtain path act where a: "engine_action act" "node_event expired (ext \<or> ns_aborted s) path act (children ! k) \<noteq> None"
        by blast
      with k have "node_event expired ext (k # path) act (Group i s children) \<noteq> None" by simp
      with a(1) show ?thesis by blast
    qed
  next
    case False
    then have idle: "list_all (\<lambda>c. started c \<longrightarrow> closed c) children" by (auto simp: list_all_iff)
    with Group.prems(2) have open_case: "\<not> list_all closed children" "ni_parallel i \<or> \<not> (ext \<or> ns_aborted s)" by auto
    from least_not_over [OF open_case(1)] obtain k
      where k: "k < length children" "\<not> closed (children ! k)" "\<forall>j < k. closed (children ! j)" by blast
    have fresh: "\<not> started (children ! k)" using idle k by (auto simp: list_all_length)
    have "filter id (map (\<lambda>c. started c \<and> \<not> closed c) children) = []" using False by (auto simp: filter_empty_conv)
    then have "may_begin i k (map (\<lambda>c. started c \<and> \<not> closed c) children) (map closed children)"
      using k by (intro may_begin_first) auto
    with k(1) fresh open_case(2) have "node_event expired ext [] (BeginItem k) (Group i s children) \<noteq> None" by simp
    then show ?thesis using engine_action.simps(1) by blast
  qed
qed

text \<open>Every action moves a step or a node one stage on.\<close>

fun step_stages :: "'e step_state \<Rightarrow> nat" where
  "step_stages Waiting = 2"
| "step_stages Running = 1"
| "step_stages (Settled x) = 0"

definition own_stages :: "node_state \<Rightarrow> nat" where
  "own_stages s = (if ns_started s then 0 else 1) + (if ns_closed s then 0 else 1)"

fun stages :: "'e build_node \<Rightarrow> nat" where
  "stages (Phase i s steps) = own_stages s + sum_list (map (step_stages \<circ> st_state) steps)"
| "stages (Group i s children) = own_stages s + sum_list (map stages children)"

lemma sum_list_update:
  "k < length xs \<Longrightarrow> sum_list (map f (xs[k := y])) + f (xs ! k) = sum_list (map f xs) + (f y :: nat)"
proof -
  assume k: "k < length xs"
  have "map f xs = map f (take k xs) @ f (xs ! k) # map f (drop (Suc k) xs)"
    using arg_cong [OF id_take_nth_drop [OF k], of "map f"] by simp
  moreover have "map f (xs[k := y]) = map f (take k xs) @ f y # map f (drop (Suc k) xs)"
    using k by (simp add: upd_conv_take_nth_drop)
  ultimately show ?thesis by simp
qed

lemma phase_action_stages:
  assumes "phase_action expired ext act i s steps = Some (s', steps')"
  shows "stages (Phase i s' steps') < stages (Phase i s steps)"
proof -
  obtain k y where k: "k < length steps" "steps' = steps[k := y]" "step_stages (st_state y) < step_stages (st_state (steps ! k))"
    and s': "ns_started s' = ns_started s" "ns_closed s' = ns_closed s"
    using assms by (cases act) (auto simp: settle_step_def split: if_splits)
  from sum_list_update [OF k(1), of "step_stages \<circ> st_state" y] k(3) s' show ?thesis
    by (simp add: k(2) own_stages_def)
qed

lemma stages_start: "\<not> started n \<Longrightarrow> stages (start_node n) < stages n"
  by (cases n) (simp_all add: start_node_def own_stages_def)

lemma stages_close: "\<not> closed n \<Longrightarrow> stages (close_node n) < stages n"
  by (cases n) (simp_all add: close_node_def own_stages_def)

lemma stages_child:
  assumes "k < length children" and "stages c < stages (children ! k)" and "own_stages s' = own_stages s"
  shows "stages (Group i s' (children[k := c])) < stages (Group i s children)"
  using sum_list_update [OF assms(1), of stages c] assms(2,3) by simp

lemma node_event_stages:
  "node_event expired ext path act n = Some (n', finished) \<Longrightarrow> stages n' < stages n"
proof (induction expired ext path act n arbitrary: n' finished rule: node_event.induct)
  case (1 expired ext path act i s steps)
  then show ?case by (auto dest: phase_action_stages split: if_splits simp del: stages.simps)
next
  case (2 expired ext act i s children)
  then show ?case
    by (cases act) (auto simp: Let_def own_stages_def simp del: stages.simps
      intro!: stages_child stages_start stages_close split: if_splits)
next
  case (3 expired ext k path act i s children)
  from 3(2) obtain c where k: "k < length children" "started (children ! k)" "\<not> closed (children ! k)"
    and c: "node_event expired (ext \<or> ns_aborted s) path act (children ! k) = Some (c, finished)"
    and n': "n' = Group i s (children[k := c])" by (auto split: if_splits)
  have "stages c < stages (children ! k)" using 3(1) [OF _ c] k by blast
  then show ?case unfolding n' by (rule stages_child [OF k(1)]) simp
qed

lemma build_run_stages:
  "build_run expired events b = Some b' \<Longrightarrow> length events + stages (bd_root b') \<le> stages (bd_root b)"
proof (induction expired events b rule: build_run.induct)
  case (2 expired event events b)
  from 2(2) obtain b1 where b1: "build_step expired event b = Some b1" "build_run expired events b1 = Some b'"
    by (auto simp: bind_eq_Some_conv)
  have "stages (bd_root b1) < stages (bd_root b)" using build_step_event [OF b1(1)] by (auto dest: node_event_stages)
  with 2(1) [OF b1] show ?case by simp
qed simp

section \<open>Properties\<close>

lemma reachable_facts:
  assumes "build_reachable expired children b" and "\<forall>c \<in> set children. pristine c"
  shows "node_inv False (bd_root b)" "started (bd_root b)" "\<not> closed (bd_root b)"
    "erase (bd_root b) = Group RootInfo Idle children"
    "mset (bd_completedPhases b) = mset (closed_phases (bd_root b))"
  using reachable_inv [OF assms] reachable_erase [OF assms] reachable_phases [OF assms] by simp_all

text \<open>C1: A build that is over reports SUCCESS exactly when every step of the plan, those of phases that were skipped or
  omitted included, has run and returned.\<close>

theorem build_verdict:
  assumes "build_reachable expired children b" and "\<forall>c \<in> set children. pristine c" and "build_over b"
  shows "(report_verdict (build_report b) = SUCCESS \<longleftrightarrow> all_ok (bd_root b)) \<and>
    erase (bd_root b) = Group RootInfo Idle children"
proof -
  note facts = reachable_facts [OF assms(1,2)]
  obtain i s cs where root: "bd_root b = Group i s cs" using facts(4) by (cases "bd_root b") simp_all
  have "report_succeeded (build_report b) \<longleftrightarrow> succeeded (run_report (bd_root b))"
    by (simp add: root report_succeeded_def build_report_def)
  also have "\<dots> \<longleftrightarrow> all_ok (bd_root b)" by (rule verdict [OF facts(1)]) (use assms(3) in \<open>simp add: build_over_def\<close>)
  finally show ?thesis using facts(4) by (simp add: report_verdict_def build_report_def)
qed

definition plain :: "string \<Rightarrow> bool \<Rightarrow> node_info" where
  "plain name parallel = \<lparr>ni_name = name, ni_parallel = parallel, ni_concurrency = None, ni_timeoutMs = None\<rparr>"

definition plain_step :: "string \<Rightarrow> 'e build_step" where
  "plain_step name = \<lparr>st_name = name, st_timeoutMs = None, st_state = Waiting\<rparr>"

definition two_phases :: "string build_node list" where
  "two_phases = [Phase (plain ''a'' False) Idle [plain_step ''1'', plain_step ''2''], Phase (plain ''b'' False) Idle [plain_step ''3'']]"

definition failed_steps :: "string build_step list" where
  "failed_steps = [(plain_step ''1'')\<lparr>st_state := Settled (failed ''no'')\<rparr>, (plain_step ''2'')\<lparr>st_state := Settled skipped\<rparr>]"

definition failed_root :: "string build_node" where
  "failed_root = Group RootInfo \<lparr>ns_started = True, ns_aborted = True, ns_closed = False\<rparr>
     [Phase (plain ''a'' False) \<lparr>ns_started = True, ns_aborted = True, ns_closed = True\<rparr> failed_steps,
      Phase (plain ''b'' False) Idle [plain_step ''3'']]"

definition failing_run :: "(nat list \<times> string action) list" where
  "failing_run = [([], BeginItem 0), ([0], BeginItem 0), ([0], StepThrows 0 ''no''), ([0], BeginItem 1), ([], FinishItem 0)]"

lemma build_run_reachable:
  "build_run expired events b = Some b' \<Longrightarrow> build_reachable expired children b \<Longrightarrow> build_reachable expired children b'"
  by (induction expired events b rule: build_run.induct) (auto simp: bind_eq_Some_conv intro: build_reachable.step)

lemma failing_run_result:
  obtains b where "build_run ''timeout'' failing_run (build_start two_phases) = Some b" "build_over b"
    "report_verdict (build_report b) = FAILED" "build_reachable ''timeout'' two_phases b"
    "bd_root b = failed_root"
proof -
  let ?b = "\<lparr>bd_root = failed_root,
      bd_completedPhases = [ReportPhase ''a'' [(''1'', failed ''no''), (''2'', skipped)]]\<rparr> :: string build"
  have run: "build_run ''timeout'' failing_run (build_start two_phases) = Some ?b" by code_simp
  moreover have "build_over ?b" "report_verdict (build_report ?b) = FAILED" by code_simp+
  moreover have "build_reachable ''timeout'' two_phases ?b" by (rule build_run_reachable [OF run build_reachable.start])
  ultimately show thesis using that by simp
qed

lemma two_phases_pristine: "\<forall>c \<in> set two_phases. pristine c"
  by (simp add: two_phases_def plain_step_def)

lemma build_verdict_witness: "\<exists>b. build_reachable ''timeout'' two_phases b \<and> \<not> all_ok (bd_root b)"
proof -
  obtain b where b: "build_reachable ''timeout'' two_phases b" "build_over b" "report_verdict (build_report b) = FAILED"
    by (rule failing_run_result)
  from build_verdict [OF b(1) two_phases_pristine b(2)] b(3) have "\<not> all_ok (bd_root b)" by simp
  with b(1) show ?thesis by blast
qed

text \<open>First error stops a phase: while a build runs, the steps of a phase in series run one at a time in order, and
  after a failed one none runs; a parallel phase keeps to its concurrency; and no step anywhere is skipped unless one has
  failed.\<close>

theorem phase_discipline:
  assumes "build_reachable expired children b" and "\<forall>c \<in> set children. pristine c"
    and "Phase i s steps \<in> set (subnodes (bd_root b))"
  shows "(\<not> ni_parallel i \<longrightarrow> (\<forall>j k. j < k \<and> k < length steps \<longrightarrow>
      (st_state (steps ! k) \<noteq> Waiting \<longrightarrow> settled (steps ! j)) \<and>
      (step_failed (steps ! j) \<longrightarrow> st_state (steps ! k) \<in> {Waiting, Settled skipped}))) \<and>
    (\<forall>c. ni_parallel i \<and> ni_concurrency i = Some c \<and> 1 \<le> c \<longrightarrow> length (filter (\<lambda>st. st_state st = Running) steps) \<le> c) \<and>
    (\<forall>st \<in> set steps. st_state st = Settled skipped \<longrightarrow> has_failed (bd_root b))"
proof -
  have "st_state st = Settled skipped \<longrightarrow> has_failed (bd_root b)" if "st \<in> set steps" for st
    using skipped_needs_failure [OF reachable_facts(1) [OF assms(1,2)] _ assms(3) that] by blast
  then show ?thesis
    using node_inv_subnodes [OF reachable_facts(1) [OF assms(1,2)] assms(3)]
    by (auto simp: in_series_def first_error_def within_def)
qed

lemma phase_discipline_witness:
  "\<exists>steps :: string build_step list. step_failed (steps ! 0) \<and> st_state (steps ! 1) \<in> {Waiting, Settled skipped}"
proof -
  obtain b where b: "build_reachable ''timeout'' two_phases b"
    "bd_root b = failed_root"
    by (rule failing_run_result)
  have "Phase (plain ''a'' False) \<lparr>ns_started = True, ns_aborted = True, ns_closed = True\<rparr> failed_steps \<in> set (subnodes (bd_root b))"
    by (simp add: b(2) failed_root_def)
  from phase_discipline [OF b(1) two_phases_pristine this, THEN conjunct1] have
    "step_failed (failed_steps ! 0) \<longrightarrow> st_state (failed_steps ! 1) \<in> {Waiting, Settled skipped}"
    by (simp add: plain_def failed_steps_def)
  moreover have "step_failed (failed_steps ! 0)" by (simp add: step_failed_def failed_steps_def)
  ultimately show ?thesis by blast
qed

text \<open>C3: At every moment the flat list of completed phases, which an interrupted run reports, holds exactly the phases
  of the tree that have finished; when the build is over these are the phases of its report.\<close>

theorem narrative_complete:
  assumes "build_reachable expired children b" and "\<forall>c \<in> set children. pristine c"
  shows "mset (rp_nodes (interruptedReport b)) = mset (closed_phases (bd_root b)) \<and>
    (build_over b \<longrightarrow> mset (rp_nodes (interruptedReport b)) = mset (concat (map report_phases (rp_nodes (build_report b)))))"
proof -
  note facts = reachable_facts [OF assms]
  obtain i s cs where root: "bd_root b = Group i s cs" using facts(4) by (cases "bd_root b") simp_all
  have "concat (map report_phases (rp_nodes (build_report b))) = closed_phases (bd_root b)" if "build_over b"
  proof -
    have "node_inv False (close_node (bd_root b))"
      using facts(1,2) that by (simp add: root close_node_def build_over_def)
    then have "report_phases (run_report (close_node (bd_root b))) = closed_phases (close_node (bd_root b))"
      by (rule report_phases_closed) simp
    then show ?thesis by (simp add: root build_report_def close_node_def closed_phases_Group)
  qed
  then show ?thesis using facts(5) by (simp add: interruptedReport_def)
qed

lemma narrative_complete_witness:
  "\<exists>b. rp_nodes (interruptedReport b) = [ReportPhase ''a'' [(''1'', failed ''no''), (''2'', skipped)]]"
proof -
  obtain b where b: "build_reachable ''timeout'' two_phases b" "bd_root b = failed_root" by (rule failing_run_result)
  have "closed_phases failed_root = [ReportPhase ''a'' [(''1'', failed ''no''), (''2'', skipped)]]" by code_simp
  with narrative_complete [OF b(1) two_phases_pristine, THEN conjunct1] show ?thesis by (auto simp: b(2))
qed

text \<open>C2: A build never gets stuck and always ends, whatever its concurrency limits: while it is not over either a
  step's body is running or the engine can act, and no run is longer than the stages of its plan.\<close>

theorem build_ends:
  assumes "build_reachable expired children b" and "\<forall>c \<in> set children. pristine c"
  shows "(\<not> build_over b \<longrightarrow> step_running (bd_root b) \<or>
      (\<exists>path act. engine_action act \<and> build_step expired (path, act) b \<noteq> None)) \<and>
    (\<forall>events b'. build_run expired events b = Some b' \<longrightarrow> length events \<le> stages (bd_root b))"
proof -
  note facts = reachable_facts [OF assms]
  from node_progress [OF facts(1), of expired] have
    "\<not> build_over b \<longrightarrow> step_running (bd_root b) \<or> (\<exists>path act. engine_action act \<and> build_step expired (path, act) b \<noteq> None)"
    by (auto simp: build_over_def build_step_def)
  moreover have "length events \<le> stages (bd_root b)" if "build_run expired events b = Some b'" for events b'
    using build_run_stages [OF that] by simp
  ultimately show ?thesis by blast
qed

lemma build_ends_witness: "step_running (bd_root (build_start two_phases)) \<or>
    (\<exists>path act. engine_action act \<and> build_step ''timeout'' (path, act) (build_start two_phases) \<noteq> None)"
proof -
  have "\<not> build_over (build_start two_phases)" by code_simp
  then show ?thesis by (rule build_ends [OF build_reachable.start two_phases_pristine, THEN conjunct1, rule_format])
qed

text \<open>
  A group in series that is started when a sibling has already failed - here the second child of a parallel group with a
  concurrency of one - omits all its children and reports success: neither its own flag nor the report's problem flag says
  that none of its work has run.
\<close>

definition omitted_plan :: "string build_node list" where
  "omitted_plan = [Group ((plain ''all'' True)\<lparr>ni_concurrency := Some 1\<rparr>) Idle
     [Phase (plain ''a'' False) Idle [plain_step ''1''], Group (plain ''g'' False) Idle [Phase (plain ''b'' False) Idle [plain_step ''2'']]]]"

definition omitted_run :: "(nat list \<times> string action) list" where
  "omitted_run = [([], BeginItem 0), ([0], BeginItem 0), ([0, 0], BeginItem 0), ([0, 0], StepThrows 0 ''no''),
     ([0], FinishItem 0), ([0], BeginItem 1), ([0], FinishItem 1), ([], FinishItem 0)]"

lemma omitted_group_succeeds:
  "\<exists>b. build_run ''timeout'' omitted_run (build_start omitted_plan) = Some b \<and> build_over b \<and>
    rp_nodes (build_report b) = [ReportGroup ''all'' [ReportPhase ''a'' [(''1'', failed ''no'')], ReportGroup ''g'' []]] \<and>
    succeeded (ReportGroup ''g'' [] :: string report_node) \<and> \<not> hasProblem (ReportGroup ''g'' [] :: string report_node)"
proof -
  have "map_option (\<lambda>b. (build_over b, rp_nodes (build_report b))) (build_run ''timeout'' omitted_run (build_start omitted_plan)) =
      Some (True, [ReportGroup ''all'' [ReportPhase ''a'' [(''1'', failed ''no'')], ReportGroup ''g'' []]])"
    by code_simp
  then show ?thesis by (auto simp: hasProblem_def)
qed

definition hanging_plan :: "string build_node list" where
  "hanging_plan = [Phase (plain ''a'' True) Idle [plain_step ''1'', (plain_step ''2'')\<lparr>st_timeoutMs := Some 5\<rparr>]]"

definition hanging_run :: "(nat list \<times> string action) list" where
  "hanging_run = [([], BeginItem 0), ([0], BeginItem 0), ([0], BeginItem 1)]"

text \<open>The ceiling of a step does not hold once a sibling has failed: the abort disarms the timers of the steps that
  are running, so a body that ignores the signal and never settles keeps the build from ever being over.\<close>

theorem abort_disarms_timers:
  "\<exists>b b'. build_run ''timeout'' hanging_run (build_start hanging_plan) = Some b \<and>
    build_step ''timeout'' ([0], StepExpires 1) b \<noteq> None \<and>
    build_step ''timeout'' ([0], StepThrows 0 ''no'') b = Some b' \<and>
    step_running (bd_root b') \<and> build_step ''timeout'' ([0], StepExpires 1) b' = None \<and> \<not> build_over b'"
proof -
  have "map_option (\<lambda>b. (build_step ''timeout'' ([0], StepExpires 1) b = None,
      map_option (\<lambda>b'. (step_running (bd_root b'), build_step ''timeout'' ([0], StepExpires 1) b' = None, build_over b'))
        (build_step ''timeout'' ([0], StepThrows 0 ''no'') b)))
      (build_run ''timeout'' hanging_run (build_start hanging_plan)) = Some (False, Some (True, True, False))"
    by code_simp
  then show ?thesis by auto
qed

end
