(* ===== verification/Rpc_Transport.thy ===== *)
theory Rpc_Transport
  imports Paging
begin

text \<open>
  \<open>cluster-tool-shared/src/rpc/JsonRPCTransport.ts\<close> and \<open>JsonRPCTransportError.ts\<close>: one JSON-RPC call over HTTP,
  a pipeline of five stages each of which may fail. What \<open>fetch\<close> does with the body is an argument, and so are
  \<open>JSON.parse\<close> and the codecs; a throw of the request's serializer, a caller's bug, is \<^const>\<open>None\<close>.
\<close>

section \<open>Texts\<close>

definition is_white :: "nat \<Rightarrow> bool" where
  "is_white c \<longleftrightarrow> 9 \<le> c \<and> c \<le> 13 \<or> 0x2000 \<le> c \<and> c \<le> 0x200A \<or>
     c \<in> {32, 0xA0, 0x1680, 0x2028, 0x2029, 0x202F, 0x205F, 0x3000, 0xFEFF}"

definition js_trim :: "utf16 \<Rightarrow> utf16" where
  "js_trim t = rev (dropWhile is_white (rev (dropWhile is_white t)))"

definition show_int :: "int \<Rightarrow> utf16" where
  "show_int x = (if x < 0 then [Minus] else []) @ show_nat (nat \<bar>x\<bar>)"

section \<open>The call\<close>

datatype rpc_id = IdText utf16 | IdNumber int | IdNull

fun show_id :: "rpc_id \<Rightarrow> utf16" where
  "show_id (IdText t) = t"
| "show_id (IdNumber n) = show_int n"
| "show_id IdNull = lit ''null''"

datatype transport_stage = request_stage | status_stage | read_stage | decode_stage | id_stage

record 'j transport_error =
  te_stage :: transport_stage
  te_url :: utf16
  te_status :: "nat option"
  te_requestId :: rpc_id
  te_body :: "'j option"
  te_detail :: utf16

text \<open>What \<open>fetch\<close> and \<open>response.text\<close> do; a text that cannot be read is \<^const>\<open>None\<close>.\<close>

datatype http_exchange = FetchRejects | Response nat utf16 "utf16 option"

definition NoContentStatus :: nat where "NoContentStatus = 204"

definition response_ok :: "nat \<Rightarrow> bool" where
  "response_ok status \<longleftrightarrow> 200 \<le> status \<and> status \<le> 299"

text \<open>A response codec gives the envelope with its id, or the text of its issues.\<close>

record ('q, 'j, 'e) invocation =
  in_url :: utf16
  in_id :: rpc_id
  in_request :: 'q
  in_serialize :: "'q \<Rightarrow> utf16 option"
  in_validate :: "'j \<Rightarrow> utf16 + rpc_id \<times> 'e"

definition invoke ::
  "(utf16 \<Rightarrow> 'j option) \<Rightarrow> (utf16 \<Rightarrow> http_exchange) \<Rightarrow> ('q, 'j, 'e) invocation \<Rightarrow> ('j transport_error + 'e) option" where
  "invoke parse fetch call =
     Option.bind (in_serialize call (in_request call)) (\<lambda>body.
       let failure = (\<lambda>stage message status parsed. Some (Inl
             \<lparr>te_stage = stage, te_url = in_url call, te_status = status, te_requestId = in_id call, te_body = parsed,
              te_detail = message\<rparr>))
       in case fetch body of
            FetchRejects \<Rightarrow> failure request_stage (lit ''request to '' @ in_url call @ lit '' failed'') None None
          | Response status statusText text \<Rightarrow>
              if \<not> response_ok status \<or> status = NoContentStatus
              then failure status_stage (js_trim (lit ''HTTP '' @ show_nat status @ lit '' '' @ statusText)) (Some status) None
              else (case text of
                      None \<Rightarrow> failure read_stage (lit ''reading the response failed'') (Some status) None
                    | Some t \<Rightarrow>
                        (case parse t of
                           None \<Rightarrow> failure decode_stage (lit ''the response body is not JSON'') (Some status) None
                         | Some parsed \<Rightarrow>
                             (case in_validate call parsed of
                                Inl issues \<Rightarrow>
                                  failure decode_stage
                                    (lit ''invalid JSON-RPC response envelope '' @ [0x2014] @ lit '' '' @ issues)
                                    (Some status) (Some parsed)
                              | Inr (envelope_id, envelope) \<Rightarrow>
                                  if envelope_id \<noteq> in_id call
                                  then failure id_stage
                                         (lit ''JSON-RPC id mismatch: expected '' @ show_id (in_id call) @ lit '', got '' @
                                          show_id envelope_id) (Some status) None
                                  else Some (Inr envelope)))))"

section \<open>What an outcome tells\<close>

text \<open>The stages in order: what each one is given, and what it fails with.\<close>

lemma invoke_stages:
  obtains (serializer) "in_serialize call (in_request call) = None" "invoke parse fetch call = None"
  | (failure) e where "invoke parse fetch call = Some (Inl e)" "te_requestId e = in_id call" "te_url e = in_url call"
      "te_status e = None \<longleftrightarrow> te_stage e = request_stage" "te_body e \<noteq> None \<longrightarrow> te_stage e = decode_stage"
      "te_stage e \<noteq> request_stage \<and> te_stage e \<noteq> status_stage \<longrightarrow> (\<exists>n. te_status e = Some n \<and> response_ok n \<and> n \<noteq> NoContentStatus)"
  | (envelope) body status statusText t parsed envelope where "invoke parse fetch call = Some (Inr envelope)"
      "in_serialize call (in_request call) = Some body" "fetch body = Response status statusText (Some t)"
      "response_ok status" "status \<noteq> NoContentStatus" "parse t = Some parsed"
      "in_validate call parsed = Inr (in_id call, envelope)"
proof (cases "in_serialize call (in_request call)")
  case None
  then show ?thesis by (intro serializer) (simp_all add: invoke_def)
next
  case body: (Some body)
  show ?thesis
  proof (cases "fetch body")
    case FetchRejects
    with body show ?thesis by (intro failure) (auto simp: invoke_def)
  next
    case r: (Response status statusText content)
    show ?thesis
    proof (cases "response_ok status \<and> status \<noteq> NoContentStatus")
      case False
      with body r show ?thesis by (intro failure) (auto simp: invoke_def)
    next
      case fine: True
      show ?thesis
      proof (cases content)
        case None
        with body r fine show ?thesis by (intro failure) (auto simp: invoke_def)
      next
        case t: (Some t)
        show ?thesis
        proof (cases "parse t")
          case None
          with body r fine t show ?thesis by (intro failure) (auto simp: invoke_def)
        next
          case parsed: (Some parsed)
          show ?thesis
          proof (cases "in_validate call parsed")
            case (Inl issues)
            with body r fine t parsed show ?thesis by (intro failure) (auto simp: invoke_def)
          next
            case valid: (Inr pair)
            obtain eid env where pair: "pair = (eid, env)" by (cases pair)
            show ?thesis
            proof (cases "eid = in_id call")
              case True
              with body r fine t parsed valid pair show ?thesis
                by (intro envelope [of env body status statusText t parsed]) (simp_all add: invoke_def)
            next
              case False
              with body r fine t parsed valid pair show ?thesis by (intro failure) (auto simp: invoke_def)
            qed
          qed
        qed
      qed
    qed
  qed
qed

end
