(* ===== verification/Query_Client.thy ===== *)
theory Query_Client
  imports Rpc_Transport
begin

text \<open>
  \<open>ql-shared/src/client\<close>: the query engine client (\<open>QueryEngineClient.ts\<close>) with its retry policy
  (\<open>QueryRetryPolicy.ts\<close>), the failures it reports (\<open>QueryFailure.ts\<close>) and the request schema of
  \<open>ql-shared/src/protocol/QueryRequest.ts\<close>. An execution is a function of what each attempt meets:
  the HTTP exchange, and whether the caller's signal or the client's ceiling has fired by then. The result of the
  engine is of any type. Times are left out of the outcome; the backoffs an execution waited are listed.
\<close>

section \<open>Requests\<close>

definition MaxStringIdLength :: nat where "MaxStringIdLength = 128"

definition MaxIntegerId :: int where "MaxIntegerId = 4294967295"

definition MaxRequestInteger :: rat where "MaxRequestInteger = 2 ^ 53 - 1"

definition MinRequestTimeoutMs :: rat where "MinRequestTimeoutMs = 1"

record request_params =
  rq_query :: utf16
  rq_limit :: "rat option"
  rq_offset :: "rat option"
  rq_timeout_ms :: "rat option"

definition request_integer :: "rat \<Rightarrow> bool" where
  "request_integer x \<longleftrightarrow> isInteger x \<and> 0 \<le> x \<and> x \<le> MaxRequestInteger"

definition params_valid :: "request_params \<Rightarrow> bool" where
  "params_valid p \<longleftrightarrow>
     length (rq_query p) \<ge> 1 \<and> pred_option request_integer (rq_limit p) \<and> pred_option request_integer (rq_offset p) \<and>
     pred_option (\<lambda>t. request_integer t \<and> t \<ge> MinRequestTimeoutMs) (rq_timeout_ms p)"

fun isEngineId :: "rpc_id \<Rightarrow> bool" where
  "isEngineId (IdText t) = (length t \<le> MaxStringIdLength)"
| "isEngineId (IdNumber n) = (\<bar>n\<bar> \<le> MaxIntegerId)"
| "isEngineId IdNull = True"

section \<open>Errors and failures\<close>

datatype error_kind =
  PARSE_ERROR | INVALID_REQUEST | METHOD_NOT_FOUND | INVALID_PARAMS | QUERY_SYNTAX | QUERY_SEMANTICS | QUERY_LIMIT
| QUERY_TIMEOUT | QUERY_BUSY | SCHEMA_CHANGED | ROW_DECODE_ERROR | VALUE_ERROR | STATE_UNAVAILABLE | QUERY_CANCELLED
| INTERNAL_ERROR

record error_data =
  ed_kind :: error_kind
  ed_retryable :: bool
  ed_line :: "nat option"
  ed_column :: "nat option"
  ed_limit :: "utf16 option"

record engine_error =
  ee_code :: int
  ee_message :: utf16
  ee_data :: error_data

datatype failure_kind = engine_failure | transport_failure | cancelled_failure

record query_failure =
  qf_kind :: failure_kind
  qf_message :: utf16
  qf_code :: "int option"
  qf_data :: "error_data option"

definition engineFailure :: "engine_error \<Rightarrow> query_failure" where
  "engineFailure e = \<lparr>qf_kind = engine_failure, qf_message = ee_message e, qf_code = Some (ee_code e), qf_data = Some (ee_data e)\<rparr>"

definition transportFailure :: "utf16 \<Rightarrow> query_failure" where
  "transportFailure detail = \<lparr>qf_kind = transport_failure, qf_message = detail, qf_code = None, qf_data = None\<rparr>"

definition CancelledMessage :: utf16 where "CancelledMessage = lit ''query cancelled''"

definition cancelledFailure :: query_failure where
  "cancelledFailure = \<lparr>qf_kind = cancelled_failure, qf_message = CancelledMessage, qf_code = None, qf_data = None\<rparr>"

text \<open>\<open>QueryFailure.of\<close>: a thrown value, with the causes of a \<open>NestedError\<close> in order.\<close>

datatype thrown =
  FailureError query_failure
| EngineError engine_error
| TransportError utf16
| AbortError
| NestedError utf16 "thrown list"
| OtherError utf16

fun classified :: "thrown \<Rightarrow> query_failure option" where
  "classified (FailureError f) = Some f"
| "classified (EngineError e) = Some (engineFailure e)"
| "classified (TransportError detail) = Some (transportFailure detail)"
| "classified AbortError = Some cancelledFailure"
| "classified (NestedError message causes) =
     foldl (\<lambda>found c. case found of Some f \<Rightarrow> Some f | None \<Rightarrow> c) None (map classified causes)"
| "classified (OtherError message) = None"

fun thrown_message :: "thrown \<Rightarrow> utf16" where
  "thrown_message (NestedError message causes) = message"
| "thrown_message (OtherError message) = message"
| "thrown_message (FailureError f) = qf_message f"
| "thrown_message (EngineError e) = ee_message e"
| "thrown_message (TransportError detail) = detail"
| "thrown_message AbortError = []"

definition failure_of :: "thrown \<Rightarrow> query_failure" where
  "failure_of t = (case classified t of Some f \<Rightarrow> f | None \<Rightarrow> transportFailure (thrown_message t))"

section \<open>Retry policy\<close>

definition AutoRetryKinds :: "error_kind list" where
  "AutoRetryKinds = [QUERY_BUSY, SCHEMA_CHANGED, STATE_UNAVAILABLE]"

definition BackoffBaseMs :: nat where "BackoffBaseMs = 250"

definition BackoffMaxMs :: nat where "BackoffMaxMs = 2000"

definition shouldAutoRetry :: "error_data \<Rightarrow> bool" where
  "shouldAutoRetry d \<longleftrightarrow> ed_retryable d \<and> ed_kind d \<in> set AutoRetryKinds"

definition canRetry :: "error_data \<Rightarrow> bool" where
  "canRetry d = ed_retryable d"

definition backoffMs :: "nat \<Rightarrow> nat" where
  "backoffMs attempt = min (BackoffBaseMs * 2 ^ (attempt - 1)) BackoffMaxMs"

section \<open>The client\<close>

record profile =
  pf_transportTimeoutMs :: rat
  pf_queryTimeoutMs :: "rat option"
  pf_retries :: nat

text \<open>Options left undefined or null are \<^const>\<open>None\<close>; the code treats the two alike but for \<open>timeoutMs\<close>, whose
  default only fills an undefined one.\<close>

datatype timeout_option = TimeoutUnset | TimeoutNull | Timeout rat

record execute_options =
  xo_limit :: "rat option"
  xo_offset :: "rat option"
  xo_timeoutMs :: timeout_option

definition createRequestParams :: "utf16 \<Rightarrow> execute_options \<Rightarrow> profile \<Rightarrow> request_params" where
  "createRequestParams query options pf =
     \<lparr>rq_query = query, rq_limit = xo_limit options, rq_offset = xo_offset options,
      rq_timeout_ms = (case xo_timeoutMs options of TimeoutUnset \<Rightarrow> pf_queryTimeoutMs pf | TimeoutNull \<Rightarrow> None | Timeout t \<Rightarrow> Some t)\<rparr>"

definition TransportAllowanceMs :: rat where "TransportAllowanceMs = 5000"

definition transportCeilingMs :: "profile \<Rightarrow> rat option \<Rightarrow> rat" where
  "transportCeilingMs pf timeoutMs =
     (case timeoutMs of None \<Rightarrow> pf_transportTimeoutMs pf | Some t \<Rightarrow> max (pf_transportTimeoutMs pf) (t + TransportAllowanceMs))"

text \<open>The delays \<open>AbortSignal.timeout\<close> accepts in Node (\<open>validateUint32\<close>); it throws on any other.\<close>

definition timeout_accepts :: "rat \<Rightarrow> bool" where
  "timeout_accepts ms \<longleftrightarrow> isInteger ms \<and> 0 \<le> ms \<and> ms \<le> 4294967295"

definition SchemaVersion :: utf16 where "SchemaVersion = lit ''1.1''"

definition InvalidParamsMessage :: utf16 where "InvalidParamsMessage = lit ''Expected named query parameter''"

definition InvalidEnvelopeMessage :: utf16 where "InvalidEnvelopeMessage = lit ''invalid query.execute envelope''"

definition UpgradeHint :: utf16 where
  "UpgradeHint = lit ''this node's query engine predates HTTP paging (response schema '' @ SchemaVersion @
     lit ''); upgrade nodeop to a wire-sysio build containing query_engine_plugin paging''"

definition isPrePagingRefusal :: "engine_error \<Rightarrow> request_params \<Rightarrow> bool" where
  "isPrePagingRefusal body params \<longleftrightarrow>
     ed_kind (ee_data body) = INVALID_PARAMS \<and> ee_message body = InvalidParamsMessage \<and>
     (rq_limit params \<noteq> None \<or> rq_offset params \<noteq> None \<or> rq_timeout_ms params \<noteq> None)"

definition engineError :: "engine_error \<Rightarrow> request_params \<Rightarrow> engine_error" where
  "engineError body params =
     body\<lparr>ee_message := if isPrePagingRefusal body params then ee_message body @ lit '' '' @ [0x2014] @ lit '' '' @ UpgradeHint
                        else ee_message body\<rparr>"

text \<open>The message of a transport failure; \<open>version\<close> reads the schema version of a body, as text.\<close>

definition transportMessage :: "('j \<Rightarrow> utf16 option) \<Rightarrow> 'j transport_error \<Rightarrow> rat \<Rightarrow> bool \<Rightarrow> utf16" where
  "transportMessage version failed ceilingMs timedOut =
     (let timeout = lit ''transport timeout after '' @ show_number ceilingMs @ lit ''ms''
      in case te_stage failed of
           request_stage \<Rightarrow> if timedOut then timeout else te_detail failed
         | read_stage \<Rightarrow> if timedOut then timeout @ lit '' reading the response'' else te_detail failed
         | decode_stage \<Rightarrow>
             (case Option.bind (te_body failed) version of
                Some v \<Rightarrow> if v \<noteq> SchemaVersion
                          then lit ''unsupported query engine response schema_version '' @ v @ lit ''; this client requires '' @ SchemaVersion
                          else InvalidEnvelopeMessage
              | None \<Rightarrow> InvalidEnvelopeMessage)
         | _ \<Rightarrow> te_detail failed)"

section \<open>Executing\<close>

text \<open>What the client is given: the codecs of the engine's envelopes, \<open>fetch\<close> for each attempt, and when the signals
  have fired by the time an attempt's failure, or its backoff, is looked at.\<close>

record ('j, 'r) engine_codec =
  cd_serialize :: "rpc_id \<times> request_params \<Rightarrow> utf16"
  cd_parse :: "utf16 \<Rightarrow> 'j option"
  cd_validate :: "'j \<Rightarrow> utf16 + rpc_id \<times> (engine_error + 'r)"
  cd_version :: "'j \<Rightarrow> utf16 option"

record attempt_env =
  at_fetch :: "utf16 \<Rightarrow> http_exchange"
  at_aborted :: bool
  at_ceiling :: bool
  at_backoffAborted :: bool

datatype 'r sent = Received 'r | EngineRefused engine_error | TransportFailed utf16 | CallerBug

text \<open>
  The execute URL is \<^const>\<open>None\<close> when the endpoint is no URL and \<open>new URL\<close> throws; so does \<open>AbortSignal.timeout\<close> on a ceiling it does
  not accept. The request codec validates before it writes; its throw passes \<open>transportError\<close> unchanged.
\<close>

definition send_request ::
  "('j, 'r) engine_codec \<Rightarrow> utf16 option \<Rightarrow> profile \<Rightarrow> rpc_id \<Rightarrow> request_params \<Rightarrow> attempt_env \<Rightarrow> 'r sent" where
  "send_request C executeURL pf requestId params env =
     (case executeURL of
        None \<Rightarrow> CallerBug
      | Some url \<Rightarrow>
          let ceilingMs = transportCeilingMs pf (rq_timeout_ms params);
              call = \<lparr>in_url = url, in_id = requestId, in_request = (requestId, params),
                      in_serialize = (\<lambda>q. if isEngineId (fst q) \<and> params_valid (snd q) then Some (cd_serialize C q) else None),
                      in_validate = cd_validate C\<rparr>
          in if \<not> timeout_accepts ceilingMs then CallerBug
             else (case invoke (cd_parse C) (at_fetch env) call of
                     None \<Rightarrow> CallerBug
                   | Some (Inl failed) \<Rightarrow>
                       TransportFailed (transportMessage (cd_version C) failed ceilingMs (at_ceiling env \<and> \<not> at_aborted env))
                   | Some (Inr (Inr result)) \<Rightarrow> Received result
                   | Some (Inr (Inl body)) \<Rightarrow> EngineRefused (engineError body params)))"

record 'r execution =
  ex_requestId :: rpc_id
  ex_query :: utf16
  ex_attempts :: nat
  ex_outcome :: "query_failure + 'r"

text \<open>\<open>runAttempt\<close> and \<open>handleAttemptFailure\<close>: the outcome, \<^const>\<open>None\<close> for the throw, and the backoffs begun.\<close>

function run_attempt ::
  "(nat \<Rightarrow> attempt_env) \<Rightarrow> (attempt_env \<Rightarrow> 'r sent) \<Rightarrow> nat \<Rightarrow> rpc_id \<Rightarrow> utf16 \<Rightarrow> nat \<Rightarrow> 'r execution option \<times> nat list" where
  "run_attempt envs send retries requestId query attempt =
     (let outcome = (\<lambda>x. Some \<lparr>ex_requestId = requestId, ex_query = query, ex_attempts = attempt, ex_outcome = x\<rparr>);
          env = envs attempt
      in case send env of
           Received result \<Rightarrow> (outcome (Inr result), [])
         | failure \<Rightarrow>
             if at_aborted env then (outcome (Inl cancelledFailure), [])
             else (case failure of
                     EngineRefused e \<Rightarrow>
                       if shouldAutoRetry (ee_data e) \<and> attempt \<le> retries
                       then (if at_backoffAborted env then (outcome (Inl cancelledFailure), [backoffMs attempt])
                             else (let (x, waits) = run_attempt envs send retries requestId query (attempt + 1)
                                   in (x, backoffMs attempt # waits)))
                       else (outcome (Inl (engineFailure e)), [])
                   | TransportFailed detail \<Rightarrow> (outcome (Inl (transportFailure detail)), [])
                   | _ \<Rightarrow> (None, [])))"
  by pat_completeness auto
termination by (relation "measure (\<lambda>(envs, send, retries, requestId, query, attempt). Suc retries - attempt)") auto

declare run_attempt.simps [simp del]

definition execute ::
  "('j, 'r) engine_codec \<Rightarrow> utf16 option \<Rightarrow> profile \<Rightarrow> rpc_id \<Rightarrow> utf16 \<Rightarrow> execute_options \<Rightarrow> (nat \<Rightarrow> attempt_env) \<Rightarrow>
    'r execution option \<times> nat list" where
  "execute C url pf requestId query options envs =
     run_attempt envs (send_request C url pf requestId (createRequestParams query options pf)) (pf_retries pf) requestId query 1"

text \<open>\<open>PagedQuery.fetch\<close>: the pager's window replaces the caller's.\<close>

definition paged_fetch ::
  "('j, 'r) engine_codec \<Rightarrow> utf16 option \<Rightarrow> profile \<Rightarrow> rpc_id \<Rightarrow> utf16 \<Rightarrow> page_request \<Rightarrow> execute_options \<Rightarrow> (nat \<Rightarrow> attempt_env) \<Rightarrow>
    'r execution option \<times> nat list" where
  "paged_fetch C url pf requestId query pager options envs =
     (let w = pager_window pager
      in execute C url pf requestId query (options\<lparr>xo_limit := pw_limit w, xo_offset := Some (pw_offset w)\<rparr>) envs)"

text \<open>\<open>ping\<close>: nothing, or what it throws; a throw that is not a transport failure is passed on.\<close>

datatype ping_outcome = PingAnswered | PingEngineError engine_error | PingTransportError utf16 | PingCallerBug

definition ProbeExecutedMessage :: utf16 where
  "ProbeExecutedMessage = lit ''the endpoint answered query.probe with a result; it is not the query engine''"

definition ping :: "('j, 'r) engine_codec \<Rightarrow> utf16 option \<Rightarrow> profile \<Rightarrow> rpc_id \<Rightarrow> (rpc_id \<Rightarrow> utf16) \<Rightarrow> attempt_env \<Rightarrow> ping_outcome" where
  "ping C executeURL pf requestId serialize_probe env =
     (let ceilingMs = transportCeilingMs pf None
      in case executeURL of
           None \<Rightarrow> PingCallerBug
         | Some url \<Rightarrow>
             let call = \<lparr>in_url = url, in_id = requestId, in_request = requestId,
                         in_serialize = (\<lambda>q. if isEngineId q then Some (serialize_probe q) else None),
                         in_validate = cd_validate C\<rparr>
             in if \<not> timeout_accepts ceilingMs then PingCallerBug
                else (case invoke (cd_parse C) (at_fetch env) call of
                        None \<Rightarrow> PingCallerBug
                      | Some (Inl failed) \<Rightarrow>
                          PingTransportError (transportMessage (cd_version C) failed ceilingMs (at_ceiling env \<and> \<not> at_aborted env))
                      | Some (Inr (Inl body)) \<Rightarrow>
                          if ed_kind (ee_data body) = METHOD_NOT_FOUND then PingAnswered else PingEngineError body
                      | Some (Inr (Inr result)) \<Rightarrow> PingTransportError ProbeExecutedMessage))"

section \<open>Retries\<close>

text \<open>
  The attempts after which the client backs off, those that are followed by another, and what the last one comes to.
\<close>

definition backs_off :: "(nat \<Rightarrow> attempt_env) \<Rightarrow> (attempt_env \<Rightarrow> 'r sent) \<Rightarrow> nat \<Rightarrow> nat \<Rightarrow> bool" where
  "backs_off envs send retries n \<longleftrightarrow>
     n \<le> retries \<and> \<not> at_aborted (envs n) \<and> (case send (envs n) of EngineRefused e \<Rightarrow> shouldAutoRetry (ee_data e) | _ \<Rightarrow> False)"

definition retried :: "(nat \<Rightarrow> attempt_env) \<Rightarrow> (attempt_env \<Rightarrow> 'r sent) \<Rightarrow> nat \<Rightarrow> nat \<Rightarrow> bool" where
  "retried envs send retries n \<longleftrightarrow> backs_off envs send retries n \<and> \<not> at_backoffAborted (envs n)"

definition final_outcome :: "nat \<Rightarrow> attempt_env \<Rightarrow> 'r sent \<Rightarrow> nat \<Rightarrow> (query_failure + 'r) option" where
  "final_outcome retries env s n =
     (case s of
        Received result \<Rightarrow> Some (Inr result)
      | EngineRefused e \<Rightarrow>
          Some (Inl (if at_aborted env \<or> shouldAutoRetry (ee_data e) \<and> n \<le> retries then cancelledFailure else engineFailure e))
      | TransportFailed detail \<Rightarrow> Some (Inl (if at_aborted env then cancelledFailure else transportFailure detail))
      | CallerBug \<Rightarrow> if at_aborted env then Some (Inl cancelledFailure) else None)"

lemma run_attempt_retried:
  assumes "retried envs send retries n"
  shows "run_attempt envs send retries requestId query n =
    (fst (run_attempt envs send retries requestId query (Suc n)), backoffMs n # snd (run_attempt envs send retries requestId query (Suc n)))"
  using assms by (subst run_attempt.simps) (auto simp: retried_def backs_off_def Let_def split: sent.splits prod.split)

lemma run_attempt_final:
  assumes "\<not> retried envs send retries n"
  shows "fst (run_attempt envs send retries requestId query n) =
      map_option (\<lambda>x. \<lparr>ex_requestId = requestId, ex_query = query, ex_attempts = n, ex_outcome = x\<rparr>)
        (final_outcome retries (envs n) (send (envs n)) n) \<and>
    snd (run_attempt envs send retries requestId query n) = (if backs_off envs send retries n then [backoffMs n] else [])"
  using assms
  by (subst (1 2) run_attempt.simps) (auto simp: retried_def backs_off_def final_outcome_def Let_def split: sent.splits)

lemma retried_bound: "retried envs send retries n \<Longrightarrow> n \<le> retries"
  by (simp add: retried_def backs_off_def)

lemma run_attempt_last:
  assumes "n \<le> Suc retries"
  obtains m where "n \<le> m" "m \<le> Suc retries" "\<forall>k. n \<le> k \<and> k < m \<longrightarrow> retried envs send retries k"
    "\<not> retried envs send retries m"
    "fst (run_attempt envs send retries requestId query n) = fst (run_attempt envs send retries requestId query m)"
    "snd (run_attempt envs send retries requestId query n) =
       map backoffMs [n..<m] @ snd (run_attempt envs send retries requestId query m)"
  using assms
proof (induction "Suc retries - n" arbitrary: n thesis)
  case 0
  then have "\<not> retried envs send retries n" using retried_bound [of envs send retries n] by auto
  with 0 show ?case by (intro 0(2) [of n]) auto
next
  case (Suc d)
  show ?case
  proof (cases "retried envs send retries n")
    case False
    with Suc.prems show ?thesis by (intro Suc.prems(1) [of n]) auto
  next
    case True
    then have n: "n \<le> retries" by (rule retried_bound)
    obtain m where m: "Suc n \<le> m" "m \<le> Suc retries" "\<forall>k. Suc n \<le> k \<and> k < m \<longrightarrow> retried envs send retries k"
      "\<not> retried envs send retries m"
      "fst (run_attempt envs send retries requestId query (Suc n)) = fst (run_attempt envs send retries requestId query m)"
      "snd (run_attempt envs send retries requestId query (Suc n)) =
         map backoffMs [Suc n..<m] @ snd (run_attempt envs send retries requestId query m)"
      by (rule Suc.hyps(1) [of "Suc n"]) (use Suc.hyps(2) n in auto)
    have "\<forall>k. n \<le> k \<and> k < m \<longrightarrow> retried envs send retries k"
      using m(3) True by (metis Suc_leI le_neq_implies_less)
    moreover have "[n..<m] = n # [Suc n..<m]" using m(1) by (simp add: upt_conv_Cons)
    ultimately show ?thesis
      using m run_attempt_retried [OF True, of requestId query] by (intro Suc.prems(1) [of m]) auto
  qed
qed

lemma backoffMs_max: "backoffMs n \<le> BackoffMaxMs"
  by (simp add: backoffMs_def)

lemma execute_last:
  fixes C url pf requestId query options envs
  defines "send \<equiv> send_request C url pf requestId (createRequestParams query options pf)"
  obtains m where "1 \<le> m" "m \<le> Suc (pf_retries pf)" "\<forall>k. 1 \<le> k \<and> k < m \<longrightarrow> retried envs send (pf_retries pf) k"
    "\<not> retried envs send (pf_retries pf) m"
    "fst (execute C url pf requestId query options envs) =
      map_option (\<lambda>x. \<lparr>ex_requestId = requestId, ex_query = query, ex_attempts = m, ex_outcome = x\<rparr>)
        (final_outcome (pf_retries pf) (envs m) (send (envs m)) m)"
    "snd (execute C url pf requestId query options envs) =
      map backoffMs ([1..<m] @ (if backs_off envs send (pf_retries pf) m then [m] else []))"
proof -
  let ?run = "run_attempt envs send (pf_retries pf) requestId query"
  obtain m where m: "1 \<le> m" "m \<le> Suc (pf_retries pf)" "\<forall>k. 1 \<le> k \<and> k < m \<longrightarrow> retried envs send (pf_retries pf) k"
    "\<not> retried envs send (pf_retries pf) m" "fst (?run 1) = fst (?run m)" "snd (?run 1) = map backoffMs [1..<m] @ snd (?run m)"
    by (rule run_attempt_last [of 1 "pf_retries pf" envs send requestId query]) auto
  note final = run_attempt_final [OF m(4), of requestId query]
  have "snd (?run 1) = map backoffMs ([1..<m] @ (if backs_off envs send (pf_retries pf) m then [m] else []))"
    unfolding m(6) using final by simp
  moreover have "fst (?run 1) = map_option (\<lambda>x. \<lparr>ex_requestId = requestId, ex_query = query, ex_attempts = m, ex_outcome = x\<rparr>)
      (final_outcome (pf_retries pf) (envs m) (send (envs m)) m)"
    using m(5) final by simp
  ultimately show thesis using that m(1-4) by (simp add: execute_def send_def)
qed

section \<open>Properties\<close>

text \<open>
  C10: The client sends a request again exactly when it should. The execution reports attempt m, the first that is not
  retried; an attempt is retried when it is within the profile's retries, neither the caller's signal nor the backoff was
  aborted, and the engine refused it with a retryable error of an automatic kind. So m is at most one more than the
  retries and the outcome is what attempt m met: its result, its failure or the cancellation. The client waits for the
  backoff of each retried attempt, at most two seconds, and of m only if that backoff was aborted.
\<close>

theorem query_retries:
  "\<exists>m. 1 \<le> m \<and> m \<le> Suc (pf_retries pf) \<and>
    (\<forall>k. 1 \<le> k \<and> k < m \<longrightarrow> retried envs (send_request C url pf requestId (createRequestParams query options pf)) (pf_retries pf) k) \<and>
    \<not> retried envs (send_request C url pf requestId (createRequestParams query options pf)) (pf_retries pf) m \<and>
    fst (execute C url pf requestId query options envs) =
      map_option (\<lambda>x. \<lparr>ex_requestId = requestId, ex_query = query, ex_attempts = m, ex_outcome = x\<rparr>)
        (final_outcome (pf_retries pf) (envs m) (send_request C url pf requestId (createRequestParams query options pf) (envs m)) m) \<and>
    snd (execute C url pf requestId query options envs) = map backoffMs
      ([1..<m] @ (if backs_off envs (send_request C url pf requestId (createRequestParams query options pf)) (pf_retries pf) m
                  then [m] else [])) \<and>
    list_all (\<lambda>w. w \<le> 2000) (snd (execute C url pf requestId query options envs))"
proof -
  let ?send = "send_request C url pf requestId (createRequestParams query options pf)"
  obtain m where m: "1 \<le> m" "m \<le> Suc (pf_retries pf)" "\<forall>k. 1 \<le> k \<and> k < m \<longrightarrow> retried envs ?send (pf_retries pf) k"
    "\<not> retried envs ?send (pf_retries pf) m"
    "fst (execute C url pf requestId query options envs) =
      map_option (\<lambda>x. \<lparr>ex_requestId = requestId, ex_query = query, ex_attempts = m, ex_outcome = x\<rparr>)
        (final_outcome (pf_retries pf) (envs m) (?send (envs m)) m)"
    "snd (execute C url pf requestId query options envs) =
      map backoffMs ([1..<m] @ (if backs_off envs ?send (pf_retries pf) m then [m] else []))"
    by (rule execute_last)
  have "list_all (\<lambda>w. w \<le> 2000) (snd (execute C url pf requestId query options envs))"
    unfolding m(6) using backoffMs_max by (auto simp: list_all_iff BackoffMaxMs_def)
  with m show ?thesis by blast
qed

lemma send_received:
  assumes "send_request C url pf requestId params env = Received r"
  shows "isEngineId requestId \<and> params_valid params \<and>
    (\<exists>status statusText t parsed. at_fetch env (cd_serialize C (requestId, params)) = Response status statusText (Some t) \<and>
      response_ok status \<and> cd_parse C t = Some parsed \<and> cd_validate C parsed = Inr (requestId, Inr r))"
proof -
  obtain u where u: "url = Some u" using assms by (cases url) (simp_all add: send_request_def)
  define call where "call = \<lparr>in_url = u, in_id = requestId, in_request = (requestId, params),
      in_serialize = (\<lambda>q. if isEngineId (fst q) \<and> params_valid (snd q) then Some (cd_serialize C q) else None),
      in_validate = cd_validate C\<rparr>"
  have inv: "invoke (cd_parse C) (at_fetch env) call = Some (Inr (Inr r))"
    using assms by (auto simp: u send_request_def Let_def call_def [symmetric] split: option.splits sum.splits if_splits)
  show ?thesis
    by (rule invoke_stages [of call "cd_parse C" "at_fetch env"]) (use inv in \<open>auto simp: call_def split: if_splits\<close>)
qed

text \<open>A result is reported only if it is what the endpoint answered to this very request: a valid request under the
  execution's id was sent on the reported attempt and answered with a 2xx body whose envelope carries that id.\<close>

theorem query_result_is_the_answer:
  assumes "fst (execute C url pf requestId query options envs) = Some ex" and "ex_outcome ex = Inr r"
  shows "isEngineId requestId \<and> params_valid (createRequestParams query options pf) \<and>
    (\<exists>status statusText t parsed.
      at_fetch (envs (ex_attempts ex)) (cd_serialize C (requestId, createRequestParams query options pf)) =
        Response status statusText (Some t) \<and>
      response_ok status \<and> cd_parse C t = Some parsed \<and> cd_validate C parsed = Inr (ex_requestId ex, Inr r))"
proof -
  obtain m where m: "fst (execute C url pf requestId query options envs) =
      map_option (\<lambda>x. \<lparr>ex_requestId = requestId, ex_query = query, ex_attempts = m, ex_outcome = x\<rparr>)
        (final_outcome (pf_retries pf) (envs m) (send_request C url pf requestId (createRequestParams query options pf) (envs m)) m)"
    by (rule execute_last)
  let ?final = "final_outcome (pf_retries pf) (envs m) (send_request C url pf requestId (createRequestParams query options pf) (envs m)) m"
  have "map_option (\<lambda>x. \<lparr>ex_requestId = requestId, ex_query = query, ex_attempts = m, ex_outcome = x\<rparr>) ?final = Some ex"
    using m assms(1) by simp
  then obtain x where "?final = Some x" "ex = \<lparr>ex_requestId = requestId, ex_query = query, ex_attempts = m, ex_outcome = x\<rparr>"
    by (auto simp: map_option_eq_Some)
  then have ex: "ex = \<lparr>ex_requestId = requestId, ex_query = query, ex_attempts = m, ex_outcome = Inr r\<rparr>" and final: "?final = Some (Inr r)"
    using assms(2) by simp_all
  from final have "send_request C url pf requestId (createRequestParams query options pf) (envs m) = Received r"
    by (auto simp: final_outcome_def split: sent.splits if_splits)
  from send_received [OF this] show ?thesis by (simp add: ex)
qed

definition echo_codec :: "(utf16, nat) engine_codec" where
  "echo_codec = \<lparr>cd_serialize = (\<lambda>(requestId, params). rq_query params), cd_parse = Some,
     cd_validate = (\<lambda>t. if t = lit ''busy''
       then Inr (IdText (lit ''1''), Inl \<lparr>ee_code = -32014, ee_message = [], ee_data = \<lparr>ed_kind = QUERY_BUSY, ed_retryable = True, ed_line = None, ed_column = None, ed_limit = None\<rparr>\<rparr>)
       else Inr (IdText (lit ''1''), Inr (length t))),
     cd_version = (\<lambda>_. None)\<rparr>"

definition busy_once :: "nat \<Rightarrow> attempt_env" where
  "busy_once n = \<lparr>at_fetch = (\<lambda>body. Response 200 [] (Some (if n = 1 then lit ''busy'' else body))),
     at_aborted = False, at_ceiling = False, at_backoffAborted = False\<rparr>"

definition sample_profile :: profile where
  "sample_profile = \<lparr>pf_transportTimeoutMs = 1000, pf_queryTimeoutMs = None, pf_retries = 2\<rparr>"

definition no_options :: execute_options where
  "no_options = \<lparr>xo_limit = None, xo_offset = None, xo_timeoutMs = TimeoutUnset\<rparr>"

lemma busy_once_sent:
  "send_request echo_codec (Some []) sample_profile (IdText (lit ''1'')) (createRequestParams (lit ''q'') no_options sample_profile) (busy_once n) =
    (if n = 1 then EngineRefused \<lparr>ee_code = -32014, ee_message = [], ee_data = \<lparr>ed_kind = QUERY_BUSY, ed_retryable = True, ed_line = None, ed_column = None, ed_limit = None\<rparr>\<rparr>
     else Received 1)"
  by (simp add: send_request_def transportCeilingMs_def timeout_accepts_def isInteger_def invoke_def echo_codec_def busy_once_def createRequestParams_def no_options_def sample_profile_def
    params_valid_def MaxStringIdLength_def NoContentStatus_def response_ok_def lit_def engineError_def isPrePagingRefusal_def)

lemma busy_once_execution:
  "execute echo_codec (Some []) sample_profile (IdText (lit ''1'')) (lit ''q'') no_options busy_once =
    (Some \<lparr>ex_requestId = IdText (lit ''1''), ex_query = lit ''q'', ex_attempts = 2, ex_outcome = Inr 1\<rparr>, [250])"
proof -
  have env: "pf_retries sample_profile = 2" "\<not> at_aborted (busy_once n)" "\<not> at_backoffAborted (busy_once n)" for n
    by (simp_all add: sample_profile_def busy_once_def)
  show ?thesis
    unfolding execute_def
    by (subst run_attempt.simps, subst run_attempt.simps)
      (simp add: busy_once_sent env shouldAutoRetry_def AutoRetryKinds_def backoffMs_def BackoffBaseMs_def BackoffMaxMs_def)
qed

lemma query_retries_witness:
  "retried busy_once (send_request echo_codec (Some []) sample_profile (IdText (lit ''1''))
      (createRequestParams (lit ''q'') no_options sample_profile)) (pf_retries sample_profile) 1 \<and>
   \<not> retried busy_once (send_request echo_codec (Some []) sample_profile (IdText (lit ''1''))
      (createRequestParams (lit ''q'') no_options sample_profile)) (pf_retries sample_profile) 2"
proof -
  let ?send = "send_request echo_codec (Some []) sample_profile (IdText (lit ''1'')) (createRequestParams (lit ''q'') no_options sample_profile)"
  obtain m where early: "\<forall>k. 1 \<le> k \<and> k < m \<longrightarrow> retried busy_once ?send (pf_retries sample_profile) k"
    and last: "\<not> retried busy_once ?send (pf_retries sample_profile) m"
    and out: "fst (execute echo_codec (Some []) sample_profile (IdText (lit ''1'')) (lit ''q'') no_options busy_once) =
      map_option (\<lambda>x. \<lparr>ex_requestId = IdText (lit ''1''), ex_query = lit ''q'', ex_attempts = m, ex_outcome = x\<rparr>)
        (final_outcome (pf_retries sample_profile) (busy_once m) (?send (busy_once m)) m)"
    using query_retries [of sample_profile busy_once echo_codec "Some []" "IdText (lit ''1'')" "lit ''q''" no_options] by blast
  from out have "m = 2" by (auto simp: busy_once_execution map_option_case split: option.splits)
  with early last show ?thesis by simp
qed

lemma query_result_is_the_answer_witness:
  "isEngineId (IdText (lit ''1'')) \<and> params_valid (createRequestParams (lit ''q'') no_options sample_profile)"
proof -
  have "fst (execute echo_codec (Some []) sample_profile (IdText (lit ''1'')) (lit ''q'') no_options busy_once) =
      Some \<lparr>ex_requestId = IdText (lit ''1''), ex_query = lit ''q'', ex_attempts = 2, ex_outcome = Inr 1\<rparr>"
    by (simp add: busy_once_execution)
  from query_result_is_the_answer [OF this, of 1] show ?thesis by simp
qed

text \<open>Fetching a page of a pager the constructor accepted always gives an outcome and never throws, provided the
  page lies within the engine's integers.\<close>

theorem paged_fetch_total:
  assumes "pager_new mode asked first = Some p" and "(pr_page p) * (pr_pageSize p) \<le> MaxRequestInteger"
    and "query \<noteq> []" and "isEngineId requestId"
    and "pred_option (\<lambda>t. request_integer t \<and> t \<ge> MinRequestTimeoutMs) (rq_timeout_ms (createRequestParams query options pf))"
    and "timeout_accepts (transportCeilingMs pf (rq_timeout_ms (createRequestParams query options pf)))"
  shows "fst (paged_fetch C (Some url) pf requestId query p options envs) \<noteq> None"
proof -
  define opts where "opts = options\<lparr>xo_limit := pw_limit (pager_window p), xo_offset := Some (pw_offset (pager_window p))\<rparr>"
  obtain s n where p: "pr_pageSize p = of_nat s" "s > 0" "pr_page p = of_nat (Suc n)"
    using pager_ok_nat [OF pager_new_ok [OF assms(1)]] by metis
  have max: "of_nat (Suc n * s) \<le> MaxRequestInteger" using assms(2) p by (simp add: algebra_simps)
  have int: "request_integer (of_nat k)" if "k \<le> Suc n * s" for k
  proof -
    have "(of_nat k :: rat) \<le> of_nat (Suc n * s)" using that by (simp only: of_nat_le_iff)
    with max have "(of_nat k :: rat) \<le> MaxRequestInteger" by linarith
    then show ?thesis by (simp add: request_integer_def isInteger_def)
  qed
  have limit: "pred_option request_integer (pw_limit (pager_window p))"
    using int [of s] p by (simp add: pager_window_def)
  have "pw_offset (pager_window p) = of_nat (n * s) \<or> pw_offset (pager_window p) = of_nat 0"
    using p by (simp add: pager_window_def FirstPage_def)
  then have offset: "request_integer (pw_offset (pager_window p))" using int [of "n * s"] int [of 0] by auto
  have valid: "params_valid (createRequestParams query opts pf)"
    using limit offset assms(3,5) by (cases query) (simp_all add: params_valid_def createRequestParams_def opts_def)
  have ceiling: "timeout_accepts (transportCeilingMs pf (rq_timeout_ms (createRequestParams query opts pf)))"
    using assms(6) by (simp add: createRequestParams_def opts_def)
  have sent: "send_request C (Some url) pf requestId (createRequestParams query opts pf) env \<noteq> CallerBug" for env
  proof -
    define call where "call = \<lparr>in_url = url, in_id = requestId, in_request = (requestId, createRequestParams query opts pf),
        in_serialize = (\<lambda>q. if isEngineId (fst q) \<and> params_valid (snd q) then Some (cd_serialize C q) else None),
        in_validate = cd_validate C\<rparr>"
    have "invoke (cd_parse C) (at_fetch env) call \<noteq> None"
      by (rule invoke_stages [of call "cd_parse C" "at_fetch env"]) (use valid assms(4) in \<open>auto simp: call_def\<close>)
    then show ?thesis using ceiling by (auto simp: send_request_def Let_def call_def [symmetric] split: option.splits sum.splits)
  qed
  obtain m where "fst (execute C (Some url) pf requestId query opts envs) =
      map_option (\<lambda>x. \<lparr>ex_requestId = requestId, ex_query = query, ex_attempts = m, ex_outcome = x\<rparr>)
        (final_outcome (pf_retries pf) (envs m) (send_request C (Some url) pf requestId (createRequestParams query opts pf) (envs m)) m)"
    by (rule execute_last)
  moreover have "final_outcome (pf_retries pf) (envs m) (send_request C (Some url) pf requestId (createRequestParams query opts pf) (envs m)) m \<noteq> None"
    using sent [of "envs m"] by (auto simp: final_outcome_def split: sent.splits)
  ultimately show ?thesis unfolding paged_fetch_def Let_def opts_def [symmetric] by simp
qed

lemma paged_fetch_total_witness:
  "fst (paged_fetch echo_codec (Some []) sample_profile (IdText (lit ''1'')) (lit ''q'')
    \<lparr>pr_mode = paged, pr_pageSize = 3, pr_page = 3\<rparr> no_options busy_once) \<noteq> None"
proof (rule paged_fetch_total)
  show "pager_new (Some paged) (Some 3) (Some 3) = Some \<lparr>pr_mode = paged, pr_pageSize = 3, pr_page = 3\<rparr>"
    by (simp add: pager_new_def isInteger_def FirstPage_def)
qed (simp_all add: MaxRequestInteger_def lit_def MaxStringIdLength_def createRequestParams_def no_options_def sample_profile_def
    transportCeilingMs_def timeout_accepts_def isInteger_def)

end
