(* ===== verification/Results_Slice.thy ===== *)
theory Results_Slice
  imports Result_View Query_Client
begin

text \<open>
  \<open>ql-tool-cli/src/tui/store/results/ResultsSlice.ts\<close>: the state of the results panes, its derivations, its
  reducer and the selectors the views read. It joins the pager (\<open>Paging\<close>), the executions of the client
  (\<open>Query_Client\<close>) and the view over the loaded page (\<open>Result_View\<close>). The lines of the JSON tab, which are the
  renderer's, are left out.
\<close>

section \<open>The state\<close>

datatype run_status = idle | running | succeeded | failed

record results_view_state =
  rs_sorts :: "column_sort list"
  rs_filters :: "column_filter list"
  rs_hiddenColumns :: "utf16 list"

record results_state = results_view_state +
  rs_status :: run_status
  rs_query :: utf16
  rs_execution :: "(query_result \<times> query_page) execution option"
  rs_pageSize :: rat
  rs_page :: rat
  rs_mode :: page_size_mode
  rs_window :: "page_window option"
  rs_cursorRow :: int
  rs_cursorColumn :: int
  rs_findText :: utf16
  rs_jsonLine :: int

definition initialResultsState :: results_state where
  "initialResultsState = \<lparr>rs_sorts = [], rs_filters = [], rs_hiddenColumns = [], rs_status = idle, rs_query = [],
     rs_execution = None, rs_pageSize = DefaultPageSize, rs_page = FirstPage, rs_mode = paged, rs_window = None,
     rs_cursorRow = 0, rs_cursorColumn = 0, rs_findText = [], rs_jsonLine = 0\<rparr>"

section \<open>Derivations\<close>

definition state_pager :: "results_state \<Rightarrow> page_request option" where
  "state_pager s = pager_new (Some (rs_mode s)) (Some (rs_pageSize s)) (Some (rs_page s))"

definition requestWindow :: "results_state \<Rightarrow> page_window option" where
  "requestWindow s = (case rs_window s of Some w \<Rightarrow> Some w | None \<Rightarrow> map_option pager_window (state_pager s))"

definition success :: "results_state \<Rightarrow> (query_result \<times> query_page) option" where
  "success s = (case rs_execution s of Some e \<Rightarrow> (case ex_outcome e of Inr r \<Rightarrow> Some r | Inl _ \<Rightarrow> None) | None \<Rightarrow> None)"

definition failure :: "results_state \<Rightarrow> query_failure option" where
  "failure s = (case rs_execution s of Some e \<Rightarrow> (case ex_outcome e of Inl f \<Rightarrow> Some f | Inr _ \<Rightarrow> None) | None \<Rightarrow> None)"

text \<open>The data of an engine failure is read without a check.\<close>

fun isRetryable :: "query_failure \<Rightarrow> bool option" where
  "isRetryable f =
     (case qf_kind f of
        engine_failure \<Rightarrow> map_option canRetry (qf_data f)
      | transport_failure \<Rightarrow> Some True
      | cancelled_failure \<Rightarrow> Some False)"

definition state_canRetry :: "results_state \<Rightarrow> bool option" where
  "state_canRetry s =
     (if rs_status s = failed then (case failure s of None \<Rightarrow> Some False | Some f \<Rightarrow> isRetryable f) else Some False)"

definition visibleColumns :: "'a results_view_state_scheme \<Rightarrow> query_column list \<Rightarrow> utf16 list" where
  "visibleColumns s columns =
     (let names = map qc_name columns;
          visible = filter (\<lambda>name. name \<notin> set (rs_hiddenColumns s)) names
      in if length visible = 0 then names else visible)"

definition viewOptions :: "'a results_view_state_scheme \<Rightarrow> query_column list \<Rightarrow> view_options" where
  "viewOptions s columns =
     (let known = set (map qc_name columns)
      in \<lparr>vo_sorts = filter (\<lambda>x. cs_column x \<in> known) (rs_sorts s),
          vo_filters = filter (\<lambda>x. cf_column x \<in> known) (rs_filters s),
          vo_columns = Some (visibleColumns s columns)\<rparr>)"

definition state_pageCount :: "results_state \<Rightarrow> rat" where
  "state_pageCount s =
     (case success s of
        None \<Rightarrow> FirstPage
      | Some (result, page) \<Rightarrow>
          if rs_mode s = all_rows \<or> rs_window s \<noteq> None then FirstPage else pager_pageCount page (rs_pageSize s))"

definition PageSizeChoices :: "rat list" where
  "PageSizeChoices = [25, 50, 100, 500, 1000]"

text \<open>\<open>indexOf\<close> is -1 for a size that is not a choice; then the next is the first.\<close>

fun indexOf :: "'a \<Rightarrow> 'a list \<Rightarrow> int" where
  "indexOf x [] = -1"
| "indexOf x (y # ys) = (if y = x then 0 else let i = indexOf x ys in if i < 0 then -1 else i + 1)"

definition nextPageSize :: "results_state \<Rightarrow> page_size_mode \<times> rat" where
  "nextPageSize s =
     (let index = indexOf (rs_pageSize s) PageSizeChoices
      in if rs_mode s = all_rows then (paged, PageSizeChoices ! 0)
         else if index = int (length PageSizeChoices) - 1 then (all_rows, rs_pageSize s)
         else (paged, case js_at PageSizeChoices (index + 1) of Some c \<Rightarrow> c | None \<Rightarrow> PageSizeChoices ! 0))"

section \<open>The reducer\<close>

text \<open>lodash \<open>xor\<close>: what exactly one of the two lists holds, each once, in order.\<close>

definition xor_list :: "'a list \<Rightarrow> 'a list \<Rightarrow> 'a list" where
  "xor_list xs ys = uniq (filter (\<lambda>x. x \<notin> set ys) xs @ filter (\<lambda>y. y \<notin> set xs) ys)"

record grid_cursor_move =
  gm_rowDelta :: int
  gm_columnDelta :: int
  gm_rowCount :: int
  gm_columnCount :: int

record json_scroll =
  js_delta :: int
  js_lineCount :: int
  js_height :: int

definition runStarted :: "utf16 \<Rightarrow> results_state \<Rightarrow> results_state" where
  "runStarted query s = s\<lparr>rs_status := running, rs_query := query\<rparr>"

definition runFinished :: "(query_result \<times> query_page) execution \<Rightarrow> results_state \<Rightarrow> results_state" where
  "runFinished e s = s\<lparr>rs_execution := Some e,
     rs_status := (case ex_outcome e of Inr r \<Rightarrow> succeeded | Inl f \<Rightarrow> failed), rs_cursorRow := 0, rs_jsonLine := 0\<rparr>"

definition pageSelected :: "rat \<Rightarrow> results_state \<Rightarrow> results_state" where
  "pageSelected page s = s\<lparr>rs_page := max FirstPage page\<rparr>"

definition pageSizeCycled :: "results_state \<Rightarrow> results_state" where
  "pageSizeCycled s =
     (let (mode, pageSize) = nextPageSize s
      in s\<lparr>rs_mode := mode, rs_pageSize := pageSize, rs_page := FirstPage, rs_window := None\<rparr>)"

definition windowSet :: "page_window option \<Rightarrow> results_state \<Rightarrow> results_state" where
  "windowSet w s = s\<lparr>rs_window := w\<rparr>"

definition sortToggled :: "utf16 \<Rightarrow> results_state \<Rightarrow> results_state" where
  "sortToggled column s = s\<lparr>rs_sorts :=
     (case rs_sorts s of
        x # _ \<Rightarrow>
          if cs_column x = column \<and> cs_direction x = asc then [\<lparr>cs_column = column, cs_direction = desc\<rparr>]
          else if cs_column x = column then []
          else [\<lparr>cs_column = column, cs_direction = asc\<rparr>]
      | [] \<Rightarrow> [\<lparr>cs_column = column, cs_direction = asc\<rparr>])\<rparr>"

definition filterSet :: "column_filter \<Rightarrow> results_state \<Rightarrow> results_state" where
  "filterSet f s =
     (let others = filter (\<lambda>x. cf_column x \<noteq> cf_column f) (rs_filters s)
      in s\<lparr>rs_filters := (if length (cf_text f) = 0 then others else others @ [f]), rs_cursorRow := 0\<rparr>)"

definition filtersCleared :: "results_state \<Rightarrow> results_state" where
  "filtersCleared s = s\<lparr>rs_filters := []\<rparr>"

definition columnToggled :: "utf16 \<Rightarrow> results_state \<Rightarrow> results_state" where
  "columnToggled name s = s\<lparr>rs_hiddenColumns := xor_list (rs_hiddenColumns s) [name], rs_cursorColumn := 0\<rparr>"

definition columnsShown :: "results_state \<Rightarrow> results_state" where
  "columnsShown s = s\<lparr>rs_hiddenColumns := []\<rparr>"

definition cursorMoved :: "grid_cursor_move \<Rightarrow> results_state \<Rightarrow> results_state" where
  "cursorMoved m s = s\<lparr>rs_cursorRow := moveCursor (rs_cursorRow s) (gm_rowDelta m) (gm_rowCount m),
     rs_cursorColumn := moveCursor (rs_cursorColumn s) (gm_columnDelta m) (gm_columnCount m)\<rparr>"

definition cursorPlaced :: "int \<Rightarrow> results_state \<Rightarrow> results_state" where
  "cursorPlaced row s = s\<lparr>rs_cursorRow := max 0 row\<rparr>"

definition jsonScrolled :: "json_scroll \<Rightarrow> results_state \<Rightarrow> results_state" where
  "jsonScrolled j s = s\<lparr>rs_jsonLine := moveCursor (rs_jsonLine s) (js_delta j) (js_lineCount j - js_height j + 1)\<rparr>"

definition findTextSet :: "utf16 \<Rightarrow> results_state \<Rightarrow> results_state" where
  "findTextSet t s = s\<lparr>rs_findText := t\<rparr>"

datatype results_action =
  RunStarted utf16
| RunFinished "(query_result \<times> query_page) execution"
| PageSelected rat
| PageSizeCycled
| WindowSet "page_window option"
| SortToggled utf16
| FilterSet column_filter
| FiltersCleared
| ColumnToggled utf16
| ColumnsShown
| CursorMoved grid_cursor_move
| CursorPlaced int
| JsonScrolled json_scroll
| FindTextSet utf16

fun results_reducer :: "results_action \<Rightarrow> results_state \<Rightarrow> results_state" where
  "results_reducer (RunStarted query) = runStarted query"
| "results_reducer (RunFinished e) = runFinished e"
| "results_reducer (PageSelected page) = pageSelected page"
| "results_reducer PageSizeCycled = pageSizeCycled"
| "results_reducer (WindowSet w) = windowSet w"
| "results_reducer (SortToggled column) = sortToggled column"
| "results_reducer (FilterSet f) = filterSet f"
| "results_reducer FiltersCleared = filtersCleared"
| "results_reducer (ColumnToggled name) = columnToggled name"
| "results_reducer ColumnsShown = columnsShown"
| "results_reducer (CursorMoved m) = cursorMoved m"
| "results_reducer (CursorPlaced row) = cursorPlaced row"
| "results_reducer (JsonScrolled j) = jsonScrolled j"
| "results_reducer (FindTextSet t) = findTextSet t"

section \<open>The selectors\<close>

text \<open>The outer option is the throw of \<open>ResultView.create\<close>, the inner one \<open>undefined\<close>.\<close>

definition selectResultView :: "text_lib \<Rightarrow> results_state \<Rightarrow> result_view option option" where
  "selectResultView L s =
     (case success s of
        None \<Rightarrow> Some None
      | Some (result, page) \<Rightarrow> map_option Some (view_create L result (viewOptions s (qr_columns result))))"

definition selectCursorRow :: "text_lib \<Rightarrow> results_state \<Rightarrow> int option option" where
  "selectCursorRow L s =
     map_option (\<lambda>view. case view of
         None \<Rightarrow> None
       | Some v \<Rightarrow> if rowCount v = 0 then None else Some (clampIndex (rs_cursorRow s) (int (rowCount v))))
       (selectResultView L s)"

definition selectCursorColumn :: "text_lib \<Rightarrow> results_state \<Rightarrow> int option option" where
  "selectCursorColumn L s =
     map_option (\<lambda>view. case view of
         None \<Rightarrow> None
       | Some v \<Rightarrow> if length (rv_projected v) = 0 then None
                   else Some (clampIndex (rs_cursorColumn s) (int (length (rv_projected v)))))
       (selectResultView L s)"

section \<open>The invariant of the state\<close>

definition results_ok :: "results_state \<Rightarrow> bool" where
  "results_ok s \<longleftrightarrow>
     state_pager s \<noteq> None \<and> rs_pageSize s \<in> set PageSizeChoices \<and>
     length (rs_sorts s) \<le> 1 \<and>
     distinct (map cf_column (rs_filters s)) \<and> (\<forall>f \<in> set (rs_filters s). cf_text f \<noteq> []) \<and>
     distinct (rs_hiddenColumns s) \<and>
     0 \<le> rs_cursorRow s \<and> 0 \<le> rs_cursorColumn s \<and> 0 \<le> rs_jsonLine s \<and>
     (rs_status s = succeeded \<longrightarrow> success s \<noteq> None) \<and> (rs_status s = failed \<longrightarrow> failure s \<noteq> None)"

fun action_ok :: "results_action \<Rightarrow> bool" where
  "action_ok (PageSelected page) = isInteger page"
| "action_ok _ = True"

lemma state_pager_some: "state_pager s \<noteq> None \<longleftrightarrow>
    isInteger (rs_pageSize s) \<and> 0 < rs_pageSize s \<and> isInteger (rs_page s) \<and> FirstPage \<le> rs_page s"
  by (auto simp: state_pager_def pager_new_def Let_def not_le split: if_splits)

lemma PageSizeChoices_ok: "c \<in> set PageSizeChoices \<Longrightarrow> isInteger c \<and> 0 < c"
  by (auto simp: PageSizeChoices_def isInteger_def)

lemma nextPageSize_choice: "rs_pageSize s \<in> set PageSizeChoices \<Longrightarrow> snd (nextPageSize s) \<in> set PageSizeChoices"
  by (auto simp: nextPageSize_def PageSizeChoices_def Let_def js_at_def)

lemmas results_defs = runStarted_def runFinished_def pageSelected_def pageSizeCycled_def windowSet_def sortToggled_def
  filterSet_def filtersCleared_def columnToggled_def columnsShown_def cursorMoved_def cursorPlaced_def jsonScrolled_def
  findTextSet_def success_def failure_def

lemma isInteger_max: "isInteger page \<Longrightarrow> isInteger (max FirstPage page)"
  by (simp add: max_def FirstPage_def isInteger_def)

lemma distinct_filter_map: "distinct (map f xs) \<Longrightarrow> distinct (map f (filter P xs))"
  by (induction xs) auto

lemma results_ok_step: "results_ok s \<Longrightarrow> action_ok a \<Longrightarrow> results_ok (results_reducer a s)"
proof (cases a)
  case PageSizeCycled
  assume "results_ok s"
  then show ?thesis
    using nextPageSize_choice [of s] PageSizeChoices_ok [of "snd (nextPageSize s)"] PageSizeCycled
    by (auto simp del: not_None_eq simp: results_ok_def state_pager_some results_defs isInteger_def FirstPage_def split: prod.splits)
next
  case (FilterSet f)
  assume "results_ok s"
  with FilterSet show ?thesis
    by (auto simp del: not_None_eq simp: results_ok_def state_pager_some filterSet_def Let_def success_def failure_def distinct_filter_map)
next
  case (PageSelected page)
  assume "results_ok s" "action_ok a"
  with PageSelected show ?thesis
    by (auto simp del: not_None_eq simp: results_ok_def state_pager_some pageSelected_def success_def failure_def isInteger_max)
qed (auto simp del: not_None_eq simp: results_ok_def state_pager_some results_defs xor_list_def moveCursor_def split: list.splits sum.splits)

lemma results_ok_run: "results_ok s \<Longrightarrow> \<forall>a \<in> set actions. action_ok a \<Longrightarrow> results_ok (fold results_reducer actions s)"
  by (induction actions arbitrary: s) (auto intro: results_ok_step)

lemma results_ok_initial: "results_ok initialResultsState"
  by (simp del: not_None_eq add: results_ok_def state_pager_some initialResultsState_def DefaultPageSize_def FirstPage_def isInteger_def
    PageSizeChoices_def)

section \<open>Properties\<close>

text \<open>C37: Whatever the user and the engine do, the state stays well formed: a window can always be requested, the page size
  is one of the choices, there is at most one sort and one filter for each column, none empty, no column is hidden twice,
  no cursor is negative, and a finished run has the outcome its status tells.\<close>

theorem results_state_invariant:
  assumes "\<forall>a \<in> set actions. action_ok a"
  shows "results_ok (fold results_reducer actions initialResultsState) \<and>
    requestWindow (fold results_reducer actions initialResultsState) \<noteq> None"
  using results_ok_run [OF results_ok_initial assms(1)]
  by (auto simp: results_ok_def requestWindow_def split: option.splits)

lemma assertColumn_known:
  "name \<in> qc_name ` set columns \<Longrightarrow> \<exists>c \<in> set columns. assertColumn columns name = Some c"
  unfolding assertColumn_def by (cases "find (\<lambda>c. qc_name c = name) columns") (auto simp: find_None_iff find_Some_iff)

lemma every_opt_total: "\<forall>x \<in> set xs. p x \<noteq> None \<Longrightarrow> every_opt p xs \<noteq> None"
  by (induction xs) auto

lemma filter_opt_total: "\<forall>x \<in> set xs. p x \<noteq> None \<Longrightarrow> \<exists>ys. filter_opt p xs = Some ys"
  by (induction xs) auto

lemma resolve_known:
  assumes "\<forall>x \<in> set xs. name x \<in> qc_name ` set columns"
  shows "\<exists>ys. those (map (\<lambda>x. map_option (\<lambda>c. (c, value x)) (assertColumn columns (name x))) xs) = Some ys \<and>
    (\<forall>(c, v) \<in> set ys. c \<in> set columns \<and> v \<in> value ` set xs)"
proof -
  have one: "\<exists>c \<in> set columns. assertColumn columns (name x) = Some c" if "x \<in> set xs" for x
    using assms that by (blast intro: assertColumn_known)
  then obtain ys where ys: "those (map (\<lambda>x. map_option (\<lambda>c. (c, value x)) (assertColumn columns (name x))) xs) = Some ys"
    using those_total [of "map (\<lambda>x. map_option (\<lambda>c. (c, value x)) (assertColumn columns (name x))) xs"] by fastforce
  have "c \<in> set columns \<and> v \<in> value ` set xs" if cv: "(c, v) \<in> set ys" for c v
  proof -
    have "Some (c, v) \<in> set (map (\<lambda>x. map_option (\<lambda>c. (c, value x)) (assertColumn columns (name x))) xs)"
      using ys cv unfolding those_Some by simp
    then show ?thesis using one by fastforce
  qed
  with ys show ?thesis by blast
qed

definition cells_ok :: "text_lib \<Rightarrow> utf16 list \<Rightarrow> query_result \<Rightarrow> bool" where
  "cells_ok L texts result \<longleftrightarrow> (\<forall>row \<in> set (qr_rows result). \<forall>c \<in> set (qr_columns result).
     cell_key row c \<noteq> None \<and> (\<forall>t \<in> set texts. contains_cell L c row t \<noteq> None))"

lemma view_create_total:
  assumes "cells_ok L (map cf_text (rs_filters s)) result"
  shows "\<exists>v. view_create L result (viewOptions s (qr_columns result)) = Some v \<and>
    length (rv_projected v) = length (visibleColumns s (qr_columns result)) \<and> rv_result v = result \<and>
    (\<forall>i \<in> set (rv_order v). i < length (qr_rows result))"
proof -
  let ?o = "viewOptions s (qr_columns result)" and ?columns = "visibleColumns s (qr_columns result)"
  have "\<forall>x \<in> set (map (assertColumn (qr_columns result)) ?columns). x \<noteq> None"
    using assertColumn_known [of _ "qr_columns result"] by (fastforce simp: visibleColumns_def Let_def split: if_splits)
  then obtain projected where projected: "those (map (assertColumn (qr_columns result)) ?columns) = Some projected"
    using those_total by blast
  then have len: "length projected = length ?columns" unfolding those_Some by (metis length_map)
  obtain fc where fc: "resolve_filters result ?o = Some fc"
      "\<forall>(c, t) \<in> set fc. c \<in> set (qr_columns result) \<and> t \<in> cf_text ` set (vo_filters ?o)"
    using resolve_known [of "vo_filters ?o" cf_column "qr_columns result" cf_text]
    by (auto simp: resolve_filters_def viewOptions_def)
  obtain sc where sc: "resolve_sorts result ?o = Some sc" "\<forall>(c, d) \<in> set sc. c \<in> set (qr_columns result)"
    using resolve_known [of "vo_sorts ?o" cs_column "qr_columns result" cs_direction]
    by (fastforce simp: resolve_sorts_def viewOptions_def)
  have "contains_cell L c (qr_rows result ! i) t \<noteq> None" if i: "i < length (qr_rows result)" and ct: "(c, t) \<in> set fc" for i c t
  proof -
    have "c \<in> set (qr_columns result)" "t \<in> set (map cf_text (rs_filters s))"
      using fc(2) ct by (auto simp: viewOptions_def)
    then show ?thesis using assms nth_mem [OF i] unfolding cells_ok_def by blast
  qed
  then have "row_passes L fc (qr_rows result ! i) \<noteq> None" if "i < length (qr_rows result)" for i
    unfolding row_passes_def using that by (intro every_opt_total) auto
  then obtain kept where kept: "filter_opt (\<lambda>i. row_passes L fc (qr_rows result ! i)) [0..<length (qr_rows result)] = Some kept"
    using filter_opt_total [of "[0..<length (qr_rows result)]" "\<lambda>i. row_passes L fc (qr_rows result ! i)"] by auto
  then have sub: "set kept \<subseteq> {0..<length (qr_rows result)}" using filter_opt_Some by fastforce
  have "row_keys sc (qr_rows result ! i) \<noteq> None" if i: "i < length (qr_rows result)" for i
    using those_total [of "map (\<lambda>(c, _). cell_key (qr_rows result ! i) c) sc"] sc(2) assms nth_mem [OF i]
    by (fastforce simp: row_keys_def cells_ok_def)
  then obtain keylists where keylists: "those (map (\<lambda>i. row_keys sc (qr_rows result ! i)) kept) = Some keylists"
    using those_total [of "map (\<lambda>i. row_keys sc (qr_rows result ! i)) kept"] sub by fastforce
  have "vo_columns ?o = Some ?columns" by (simp add: viewOptions_def Let_def)
  with projected fc(1) sc(1) kept keylists len sub show ?thesis
    by (auto simp: view_create_def Let_def)
qed

text \<open>A loaded page is always shown: sorts, filters and hidden columns left over from another query never make the
  view fail or blank it, and the cursors the views act on lie inside it.\<close>

theorem loaded_page_is_shown:
  assumes "success s = Some (result, page)" and "qr_columns result \<noteq> []"
    and "cells_ok L (map cf_text (rs_filters s)) result"
  shows "\<exists>v. selectResultView L s = Some (Some v) \<and> rv_projected v \<noteq> [] \<and>
    (case selectCursorRow L s of Some (Some r) \<Rightarrow> 0 \<le> r \<and> view_row v (nat r) \<noteq> None | Some None \<Rightarrow> rowCount v = 0 | None \<Rightarrow> False) \<and>
    (\<exists>c. selectCursorColumn L s = Some (Some c) \<and> 0 \<le> c \<and> c < int (length (rv_projected v)))"
proof -
  obtain v where v: "view_create L result (viewOptions s (qr_columns result)) = Some v"
      "length (rv_projected v) = length (visibleColumns s (qr_columns result))"
    using view_create_total [OF assms(3)] by blast
  have "visibleColumns s (qr_columns result) \<noteq> []"
    using assms(2) by (auto simp: visibleColumns_def Let_def)
  with v(2) have ne: "rv_projected v \<noteq> []" by auto
  have sel: "selectResultView L s = Some (Some v)" using assms(1) v(1) by (simp add: selectResultView_def)
  show ?thesis
    by (intro exI [of _ v]) (use ne sel in \<open>auto simp: selectCursorRow_def selectCursorColumn_def view_row_def
      nat_less_iff clampIndex_less\<close>)
qed

definition leftover_state :: results_state where
  "leftover_state = fold results_reducer
     [SortToggled (lit ''gone''), FilterSet \<lparr>cf_column = lit ''gone'', cf_text = lit ''x''\<rparr>, ColumnToggled (lit ''n''), PageSelected 3,
      CursorPlaced 9, RunFinished \<lparr>ex_requestId = IdText (lit ''1''), ex_query = lit ''q'', ex_attempts = 1,
        ex_outcome = Inr (sample_result, seven_rows_page)\<rparr>, CursorPlaced 9]
     initialResultsState"

lemma results_state_invariant_witness: "results_ok leftover_state"
  using results_state_invariant [of "[SortToggled (lit ''gone''), FilterSet \<lparr>cf_column = lit ''gone'', cf_text = lit ''x''\<rparr>,
      ColumnToggled (lit ''n''), PageSelected 3, CursorPlaced 9,
      RunFinished \<lparr>ex_requestId = IdText (lit ''1''), ex_query = lit ''q'', ex_attempts = 1,
        ex_outcome = Inr (sample_result, seven_rows_page)\<rparr>, CursorPlaced 9]"]
  by (simp add: leftover_state_def isInteger_def)

lemma loaded_page_is_shown_witness: "selectCursorRow (id, \<lambda>_. []) leftover_state \<noteq> None"
proof -
  have "map_option fst (success leftover_state) = Some sample_result" by code_simp
  then obtain page where page: "success leftover_state = Some (sample_result, page)" by auto
  have "cells_ok (id, \<lambda>_. []) (map cf_text (rs_filters leftover_state)) sample_result" by code_simp
  from loaded_page_is_shown [OF page _ this] show ?thesis
    by (auto simp: sample_result_def split: option.splits)
qed

end
