(* ===== verification/Query_Launcher.thy ===== *)
theory Query_Launcher
  imports Prelude "HOL-Library.Multiset"
begin

text \<open>
  \<open>ql-tool-app/src/main/query/QueryHostLauncher.ts\<close>: the state machine in Electron's main process that owns the one
  query-host process and the message ports of the windows.

  A child process, a window and a port pair are numbers; a port pair stands for its two ends. What the launcher does to
  Electron is a list of effects. A fork that throws and the clock are arguments of the operations that meet them, the
  destroyed windows are part of the environment, and \<^const>\<open>None\<close> is a \<open>throw\<close>: of \<open>start\<close>, or of a message posted to
  no child.
\<close>

section \<open>The state\<close>

datatype host_state = HostIdle | HostSpawning | HostReady | HostBackoff | HostFailedState | HostDisposed

datatype host_control = Attach nat | Detach nat

fun control_window :: "host_control \<Rightarrow> nat" where
  "control_window (Attach w) = w"
| "control_window (Detach w) = w"

fun is_attach :: "host_control \<Rightarrow> bool" where
  "is_attach (Attach w) = True"
| "is_attach (Detach w) = False"

datatype effect =
  Forked nat
| Posted nat host_control "nat option"
| SentPort nat nat
| ClosedPort2 nat
| ClosedPort1 nat
| SentExited nat
| SentFailed nat
| Killed nat

record launcher =
  lh_state :: host_state
  lh_child :: "nat option"
  lh_backoffTimer :: "int option"
  lh_queue :: "(host_control \<times> nat option) list"
  lh_attached :: "nat list"
  lh_windows :: "nat list"
  lh_waiting :: "nat list"
  lh_exits :: "int list"
  lh_nextChild :: nat
  lh_nextPort :: nat
  lh_destroyed :: "nat list"
  lh_effects :: "effect list"

definition launcher_new :: launcher where
  "launcher_new = \<lparr>lh_state = HostIdle, lh_child = None, lh_backoffTimer = None, lh_queue = [], lh_attached = [],
     lh_windows = [], lh_waiting = [], lh_exits = [], lh_nextChild = 0, lh_nextPort = 0, lh_destroyed = [], lh_effects = []\<rparr>"

text \<open>\<open>Set.add\<close> and \<open>Set.delete\<close>; a set iterates in insertion order.\<close>

definition set_add :: "'a \<Rightarrow> 'a list \<Rightarrow> 'a list" where
  "set_add x xs = (if x \<in> set xs then xs else xs @ [x])"

definition set_delete :: "'a \<Rightarrow> 'a list \<Rightarrow> 'a list" where
  "set_delete x xs = filter (\<lambda>y. y \<noteq> x) xs"

definition effect :: "effect list \<Rightarrow> launcher \<Rightarrow> launcher" where
  "effect es l = l\<lparr>lh_effects := lh_effects l @ es\<rparr>"

section \<open>Helpers\<close>

definition BackoffBaseMs :: int where "BackoffBaseMs = 500"

definition BackoffMaxMs :: int where "BackoffMaxMs = 8000"

definition MaxRestarts :: nat where "MaxRestarts = 5"

definition RestartIntervalMs :: int where "RestartIntervalMs = 60000"

definition backoffDelayMs :: "nat \<Rightarrow> int" where
  "backoffDelayMs exitCount = min (BackoffBaseMs * 2 ^ (exitCount - 1)) BackoffMaxMs"

definition sendPort :: "nat \<Rightarrow> nat \<Rightarrow> launcher \<Rightarrow> launcher" where
  "sendPort w p l = effect [if w \<in> set (lh_destroyed l) then ClosedPort2 p else SentPort w p] l"

definition sendToWindow :: "nat \<Rightarrow> (nat \<Rightarrow> effect) \<Rightarrow> launcher \<Rightarrow> launcher" where
  "sendToWindow w channel l = (if w \<notin> set (lh_destroyed l) then effect [channel w] l else l)"

definition postControl :: "host_control \<Rightarrow> nat option \<Rightarrow> launcher \<Rightarrow> launcher option" where
  "postControl message port l =
     (case lh_child l of None \<Rightarrow> None | Some child \<Rightarrow> Some (effect [Posted child message port] l))"

definition close_queued :: "(host_control \<times> nat option) list \<Rightarrow> effect list" where
  "close_queued q = concat (map (\<lambda>(message, port). case port of None \<Rightarrow> [] | Some p \<Rightarrow> [ClosedPort1 p]) q)"

definition clearQueue :: "launcher \<Rightarrow> launcher" where
  "clearQueue l = (effect (close_queued (lh_queue l)) l)\<lparr>lh_queue := []\<rparr>"

fun split_attach :: "nat \<Rightarrow> (host_control \<times> nat option) list \<Rightarrow>
    (host_control \<times> nat option) option \<times> (host_control \<times> nat option) list" where
  "split_attach w [] = (None, [])"
| "split_attach w (x # q) =
     (if is_attach (fst x) \<and> control_window (fst x) = w then (Some x, q)
      else let (dropped, rest) = split_attach w q in (dropped, x # rest))"

definition dropQueuedAttach :: "nat \<Rightarrow> launcher \<Rightarrow> launcher" where
  "dropQueuedAttach w l =
     (case split_attach w (lh_queue l) of
        (None, rest) \<Rightarrow> l
      | (Some dropped, rest) \<Rightarrow> (effect (close_queued [dropped]) l)\<lparr>lh_queue := rest\<rparr>)"

definition enqueueAttach :: "nat \<Rightarrow> nat \<Rightarrow> launcher \<Rightarrow> launcher" where
  "enqueueAttach w p l =
     (let l' = dropQueuedAttach w l in l'\<lparr>lh_queue := lh_queue l' @ [(Attach w, Some p)]\<rparr>)"

definition liveWindows :: "launcher \<Rightarrow> nat list" where
  "liveWindows l = filter (\<lambda>w. w \<notin> set (lh_destroyed l)) (lh_windows l)"

section \<open>Operations\<close>

definition exited :: "int \<Rightarrow> launcher \<Rightarrow> launcher" where
  "exited now l =
     (let exits = filter (\<lambda>at. now - at < RestartIntervalMs) (lh_exits l) @ [now];
          crashes = length exits;
          live = liveWindows l;
          cleared = (clearQueue (l\<lparr>lh_exits := exits\<rparr>))\<lparr>lh_attached := []\<rparr>
      in if crashes > MaxRestarts
         then fold (\<lambda>w l. sendToWindow w SentFailed (l\<lparr>lh_waiting := set_add w (lh_waiting l)\<rparr>)) live
                (cleared\<lparr>lh_state := HostFailedState\<rparr>)
         else (fold (\<lambda>w. sendToWindow w SentExited) live (cleared\<lparr>lh_state := HostBackoff\<rparr>))
                \<lparr>lh_backoffTimer := Some (backoffDelayMs crashes)\<rparr>)"

definition fork :: "bool \<Rightarrow> int \<Rightarrow> launcher \<Rightarrow> launcher" where
  "fork forks now l =
     (if forks
      then (effect [Forked (lh_nextChild l)] l)
             \<lparr>lh_state := HostSpawning, lh_child := Some (lh_nextChild l), lh_nextChild := Suc (lh_nextChild l)\<rparr>
      else exited now (l\<lparr>lh_state := HostSpawning, lh_child := None\<rparr>))"

definition launcher_start :: "bool \<Rightarrow> int \<Rightarrow> launcher \<Rightarrow> launcher option" where
  "launcher_start forks now l = (if lh_state l \<noteq> HostIdle then None else Some (fork forks now l))"

definition portRequested :: "nat \<Rightarrow> launcher \<Rightarrow> launcher option" where
  "portRequested w l =
     (case lh_state l of
        HostDisposed \<Rightarrow> Some l
      | HostFailedState \<Rightarrow>
          Some (sendToWindow w SentFailed (l\<lparr>lh_windows := set_add w (lh_windows l), lh_waiting := set_add w (lh_waiting l)\<rparr>))
      | HostReady \<Rightarrow>
          (let p = lh_nextPort l; l1 = l\<lparr>lh_windows := set_add w (lh_windows l), lh_nextPort := Suc p\<rparr>
           in do { l2 \<leftarrow> (if w \<in> set (lh_attached l1) then postControl (Detach w) None l1 else Some l1);
                   l3 \<leftarrow> postControl (Attach w) (Some p) l2;
                   Some (sendPort w p (l3\<lparr>lh_attached := set_add w (lh_attached l3)\<rparr>)) })
      | _ \<Rightarrow>
          (let p = lh_nextPort l; l1 = l\<lparr>lh_windows := set_add w (lh_windows l), lh_nextPort := Suc p\<rparr>
           in Some (sendPort w p (enqueueAttach w p l1))))"

definition windowClosed :: "nat \<Rightarrow> launcher \<Rightarrow> launcher option" where
  "windowClosed w l =
     map_option (\<lambda>l'. l'\<lparr>lh_attached := set_delete w (lh_attached l'), lh_windows := set_delete w (lh_windows l'),
                        lh_waiting := set_delete w (lh_waiting l')\<rparr>)
       (case lh_state l of
          HostDisposed \<Rightarrow> Some l
        | HostFailedState \<Rightarrow> Some l
        | HostReady \<Rightarrow> if w \<in> set (lh_attached l) then postControl (Detach w) None l else Some l
        | _ \<Rightarrow> Some (dropQueuedAttach w l))"

fun each_opt :: "('a \<Rightarrow> 's \<Rightarrow> 's option) \<Rightarrow> 'a list \<Rightarrow> 's \<Rightarrow> 's option" where
  "each_opt f [] s = Some s"
| "each_opt f (x # xs) s = Option.bind (f x s) (each_opt f xs)"

definition restartRequested :: "bool \<Rightarrow> int \<Rightarrow> launcher \<Rightarrow> launcher option" where
  "restartRequested forks now l =
     (if lh_state l \<noteq> HostFailedState then Some l
      else (let waiting = lh_waiting l;
                l1 = fork forks now (l\<lparr>lh_exits := [], lh_waiting := []\<rparr>)
            in each_opt portRequested
                 (filter (\<lambda>w. w \<in> set (lh_windows l1) \<and> w \<notin> set (lh_destroyed l1)) waiting) l1))"

definition launcher_dispose :: "launcher \<Rightarrow> launcher" where
  "launcher_dispose l =
     (if lh_state l = HostDisposed then l
      else (let l1 = clearQueue (l\<lparr>lh_state := HostDisposed, lh_backoffTimer := None\<rparr>)
            in effect (case lh_child l1 of None \<Rightarrow> [] | Some child \<Rightarrow> [Killed child]) (l1\<lparr>lh_child := None\<rparr>)))"

definition onSpawned :: "nat \<Rightarrow> launcher \<Rightarrow> launcher option" where
  "onSpawned child l =
     (if lh_child l \<noteq> Some child \<or> lh_state l \<noteq> HostSpawning then Some l
      else each_opt (\<lambda>(message, port) l. map_option
               (\<lambda>l'. if is_attach message then l'\<lparr>lh_attached := set_add (control_window message) (lh_attached l')\<rparr> else l')
               (postControl message port l))
             (lh_queue l) (l\<lparr>lh_state := HostReady, lh_queue := []\<rparr>))"

definition onExited :: "nat \<Rightarrow> int \<Rightarrow> launcher \<Rightarrow> launcher" where
  "onExited child now l =
     (if lh_child l \<noteq> Some child \<or> lh_state l = HostDisposed then l else exited now (l\<lparr>lh_child := None\<rparr>))"

definition onBackoffElapsed :: "bool \<Rightarrow> int \<Rightarrow> launcher \<Rightarrow> launcher" where
  "onBackoffElapsed forks now l =
     (let l1 = l\<lparr>lh_backoffTimer := None\<rparr> in if lh_state l1 \<noteq> HostBackoff then l1 else fork forks now l1)"

section \<open>Runs\<close>

datatype launcher_input =
  StartRequested bool int
| Spawned nat
| Exited nat int
| BackoffElapsed bool int
| PortRequested nat
| WindowClosed nat
| RestartRequested bool int
| BeforeQuit
| WindowDestroyed nat

text \<open>A timer that is not armed does not fire, and \<open>start\<close> is called once, on the new launcher.\<close>

fun input_enabled :: "launcher_input \<Rightarrow> launcher \<Rightarrow> bool" where
  "input_enabled (BackoffElapsed forks now) l \<longleftrightarrow> lh_backoffTimer l \<noteq> None"
| "input_enabled (StartRequested forks now) l \<longleftrightarrow> lh_state l = HostIdle"
| "input_enabled _ l \<longleftrightarrow> True"

fun launcher_step :: "launcher_input \<Rightarrow> launcher \<Rightarrow> launcher option" where
  "launcher_step (StartRequested forks now) l = launcher_start forks now l"
| "launcher_step (Spawned child) l = onSpawned child l"
| "launcher_step (Exited child now) l = Some (onExited child now l)"
| "launcher_step (BackoffElapsed forks now) l = Some (onBackoffElapsed forks now l)"
| "launcher_step (PortRequested w) l = portRequested w l"
| "launcher_step (WindowClosed w) l = windowClosed w l"
| "launcher_step (RestartRequested forks now) l = restartRequested forks now l"
| "launcher_step BeforeQuit l = Some (launcher_dispose l)"
| "launcher_step (WindowDestroyed w) l = Some (l\<lparr>lh_destroyed := set_add w (lh_destroyed l)\<rparr>)"

inductive launcher_reachable :: "launcher \<Rightarrow> bool" where
  new: "launcher_reachable launcher_new"
| step: "launcher_reachable l \<Longrightarrow> input_enabled i l \<Longrightarrow> launcher_step i l = Some l' \<Longrightarrow> launcher_reachable l'"

inductive_cases launcher_reachableE: "launcher_reachable l"

section \<open>Ports and control messages\<close>

text \<open>What has become of each end of a port pair, and the messages each child has been posted.\<close>

definition ports1 :: "effect list \<Rightarrow> nat list" where
  "ports1 es = concat (map (\<lambda>e. case e of ClosedPort1 p \<Rightarrow> [p] | Posted c m (Some p) \<Rightarrow> [p] | _ \<Rightarrow> []) es)"

definition ports2 :: "effect list \<Rightarrow> nat list" where
  "ports2 es = concat (map (\<lambda>e. case e of ClosedPort2 p \<Rightarrow> [p] | SentPort w p \<Rightarrow> [p] | _ \<Rightarrow> []) es)"

definition controls :: "nat \<Rightarrow> effect list \<Rightarrow> host_control list" where
  "controls child es = concat (map (\<lambda>e. case e of Posted c m p \<Rightarrow> if c = child then [m] else [] | _ \<Rightarrow> []) es)"

definition queue_ports :: "(host_control \<times> nat option) list \<Rightarrow> nat list" where
  "queue_ports q = concat (map (\<lambda>(m, port). case port of None \<Rightarrow> [] | Some p \<Rightarrow> [p]) q)"

text \<open>The windows a host has attached after a stream in which no window is attached twice and only an attached one is
  detached.\<close>

fun serve :: "nat set \<Rightarrow> host_control list \<Rightarrow> nat set option" where
  "serve A [] = Some A"
| "serve A (Attach w # cs) = (if w \<in> A then None else serve (insert w A) cs)"
| "serve A (Detach w # cs) = (if w \<in> A then serve (A - {w}) cs else None)"

lemma serve_append [simp]: "serve A (cs @ ds) = Option.bind (serve A cs) (\<lambda>B. serve B ds)"
  by (induction A cs rule: serve.induct) auto

lemma serve_attaches:
  "distinct ws \<Longrightarrow> A \<inter> set ws = {} \<Longrightarrow> serve A (map Attach ws) = Some (A \<union> set ws)"
  by (induction ws arbitrary: A) auto

lemma effects_append [simp]:
  "ports1 (xs @ ys) = ports1 xs @ ports1 ys" "ports2 (xs @ ys) = ports2 xs @ ports2 ys"
  "controls c (xs @ ys) = controls c xs @ controls c ys" "queue_ports (q @ r) = queue_ports q @ queue_ports r"
  by (simp_all add: ports1_def ports2_def controls_def queue_ports_def)

lemma effects_simps [simp]:
  "ports1 [] = []" "ports2 [] = []" "controls c [] = []" "queue_ports [] = []"
  "ports1 (ClosedPort1 p # es) = p # ports1 es" "ports1 (Posted c m (Some p) # es) = p # ports1 es"
  "ports1 (Posted c m None # es) = ports1 es" "ports1 (Forked c # es) = ports1 es" "ports1 (SentPort w p # es) = ports1 es"
  "ports1 (ClosedPort2 p # es) = ports1 es" "ports1 (SentExited w # es) = ports1 es" "ports1 (SentFailed w # es) = ports1 es"
  "ports1 (Killed c # es) = ports1 es"
  "ports2 (ClosedPort2 p # es) = p # ports2 es" "ports2 (SentPort w p # es) = p # ports2 es"
  "ports2 (Posted c m port # es) = ports2 es" "ports2 (Forked c # es) = ports2 es" "ports2 (ClosedPort1 p # es) = ports2 es"
  "ports2 (SentExited w # es) = ports2 es" "ports2 (SentFailed w # es) = ports2 es" "ports2 (Killed c # es) = ports2 es"
  "controls d (Posted c m port # es) = (if c = d then [m] else []) @ controls d es"
  "controls d (ClosedPort1 p # es) = controls d es" "controls d (ClosedPort2 p # es) = controls d es"
  "controls d (SentPort w p # es) = controls d es" "controls d (Forked c # es) = controls d es"
  "controls d (SentExited w # es) = controls d es" "controls d (SentFailed w # es) = controls d es"
  "controls d (Killed c # es) = controls d es"
  "queue_ports ((m, Some p) # q) = p # queue_ports q" "queue_ports ((m, None) # q) = queue_ports q"
  by (simp_all add: ports1_def ports2_def controls_def queue_ports_def)

lemma effects_map [simp]:
  "ports1 (map SentExited ws) = []" "ports1 (map SentFailed ws) = []"
  "ports2 (map SentExited ws) = []" "ports2 (map SentFailed ws) = []"
  "controls c (map SentExited ws) = []" "controls c (map SentFailed ws) = []"
  by (induction ws) auto

lemma close_queued_Cons [simp]:
  "close_queued [] = []" "close_queued ((m, Some p) # q) = ClosedPort1 p # close_queued q"
  "close_queued ((m, None) # q) = close_queued q"
  by (simp_all add: close_queued_def)

lemma close_queued_effects [simp]:
  "ports1 (close_queued q) = queue_ports q" "ports2 (close_queued q) = []" "controls c (close_queued q) = []"
proof -
  have "ports1 (close_queued q) = queue_ports q \<and> ports2 (close_queued q) = [] \<and> controls c (close_queued q) = []"
  proof (induction q)
    case (Cons x q)
    then show ?case by (cases x; cases "snd x") auto
  qed simp
  then show "ports1 (close_queued q) = queue_ports q" "ports2 (close_queued q) = []" "controls c (close_queued q) = []"
    by simp_all
qed

section \<open>The invariant\<close>

lemma set_add_set [simp]: "set (set_add x xs) = insert x (set xs)"
  by (auto simp: set_add_def)

lemma set_add_distinct [simp]: "distinct (set_add x xs) = distinct xs"
  by (auto simp: set_add_def)

lemma set_delete_set [simp]: "set (set_delete x xs) = set xs - {x}"
  by (auto simp: set_delete_def)

lemma set_delete_distinct [simp]: "distinct xs \<Longrightarrow> distinct (set_delete x xs)"
  by (simp add: set_delete_def)

definition queue_windows :: "launcher \<Rightarrow> nat list" where
  "queue_windows l = map (control_window \<circ> fst) (lh_queue l)"

definition state_ok :: "launcher \<Rightarrow> bool" where
  "state_ok l \<longleftrightarrow>
     (lh_child l \<noteq> None \<longleftrightarrow> lh_state l = HostSpawning \<or> lh_state l = HostReady) \<and>
     (lh_backoffTimer l \<noteq> None \<longleftrightarrow> lh_state l = HostBackoff) \<and>
     (lh_attached l \<noteq> [] \<longrightarrow> lh_state l = HostReady \<or> lh_state l = HostDisposed) \<and>
     (lh_queue l \<noteq> [] \<longrightarrow> lh_state l \<in> {HostIdle, HostSpawning, HostBackoff}) \<and>
     (lh_waiting l \<noteq> [] \<longrightarrow> lh_state l = HostFailedState \<or> lh_state l = HostDisposed) \<and>
     (lh_state l \<in> {HostIdle, HostSpawning, HostReady, HostBackoff} \<longrightarrow> length (lh_exits l) \<le> MaxRestarts)"

definition windows_ok :: "launcher \<Rightarrow> bool" where
  "windows_ok l \<longleftrightarrow>
     (\<forall>x \<in> set (lh_queue l). is_attach (fst x) \<and> snd x \<noteq> None) \<and> distinct (queue_windows l) \<and>
     distinct (lh_attached l) \<and> distinct (lh_windows l) \<and> distinct (lh_waiting l) \<and>
     set (lh_attached l) \<union> set (lh_waiting l) \<union> set (queue_windows l) \<subseteq> set (lh_windows l)"

text \<open>A port goes with an attach and only with it.\<close>

fun post_ok :: "effect \<Rightarrow> bool" where
  "post_ok (Posted c m port) \<longleftrightarrow> (is_attach m \<longleftrightarrow> port \<noteq> None)"
| "post_ok _ = True"

lemma post_ok_close_queued [simp]: "e \<in> set (close_queued q) \<Longrightarrow> post_ok e"
  by (auto simp: close_queued_def split: option.splits)

definition ports_ok :: "launcher \<Rightarrow> bool" where
  "ports_ok l \<longleftrightarrow> (\<forall>e \<in> set (lh_effects l). post_ok e) \<and>
     mset (ports1 (lh_effects l)) + mset (queue_ports (lh_queue l)) = mset [0..<lh_nextPort l] \<and>
     mset (ports2 (lh_effects l)) = mset [0..<lh_nextPort l]"

definition streams_ok :: "launcher \<Rightarrow> bool" where
  "streams_ok l \<longleftrightarrow>
     (\<forall>c. serve {} (controls c (lh_effects l)) \<noteq> None) \<and>
     (\<forall>c \<ge> lh_nextChild l. controls c (lh_effects l) = []) \<and>
     (case lh_child l of
        None \<Rightarrow> True
      | Some c \<Rightarrow> c < lh_nextChild l \<and>
          (if lh_state l = HostReady then serve {} (controls c (lh_effects l)) = Some (set (lh_attached l))
           else controls c (lh_effects l) = []))"

definition launcher_inv :: "launcher \<Rightarrow> bool" where
  "launcher_inv l \<longleftrightarrow> state_ok l \<and> windows_ok l \<and> ports_ok l \<and> streams_ok l"

lemmas launcher_parts = state_ok_def windows_ok_def ports_ok_def streams_ok_def queue_windows_def

lemma send_exited_all:
  "\<forall>w \<in> set ws. w \<notin> set (lh_destroyed l) \<Longrightarrow> fold (\<lambda>w. sendToWindow w SentExited) ws l = effect (map SentExited ws) l"
  by (induction ws arbitrary: l) (auto simp: sendToWindow_def effect_def)

lemma send_failed_all:
  "\<forall>w \<in> set ws. w \<notin> set (lh_destroyed l) \<Longrightarrow>
   fold (\<lambda>w l. sendToWindow w SentFailed (l\<lparr>lh_waiting := set_add w (lh_waiting l)\<rparr>)) ws l =
     (effect (map SentFailed ws) l)\<lparr>lh_waiting := fold set_add ws (lh_waiting l)\<rparr>"
  by (induction ws arbitrary: l) (auto simp: sendToWindow_def effect_def)

lemma fold_set_add [simp]:
  "set (fold set_add ws xs) = set ws \<union> set xs" "distinct (fold set_add ws xs) = distinct xs"
  by (induction ws arbitrary: xs) auto

definition recent_exits :: "int \<Rightarrow> launcher \<Rightarrow> int list" where
  "recent_exits now l = filter (\<lambda>at. now - at < RestartIntervalMs) (lh_exits l) @ [now]"

lemma exited_eq:
  "exited now l =
     (if length (recent_exits now l) > MaxRestarts
      then (effect (close_queued (lh_queue l) @ map SentFailed (liveWindows l)) l)
             \<lparr>lh_exits := recent_exits now l, lh_queue := [], lh_attached := [], lh_state := HostFailedState,
              lh_waiting := fold set_add (liveWindows l) (lh_waiting l)\<rparr>
      else (effect (close_queued (lh_queue l) @ map SentExited (liveWindows l)) l)
             \<lparr>lh_exits := recent_exits now l, lh_queue := [], lh_attached := [], lh_state := HostBackoff,
              lh_backoffTimer := Some (backoffDelayMs (length (recent_exits now l)))\<rparr>)"
  unfolding exited_def Let_def recent_exits_def [symmetric]
  by (simp add: send_exited_all send_failed_all liveWindows_def clearQueue_def effect_def)

lemma exited_state_ok:
  "lh_child l = None \<Longrightarrow> lh_backoffTimer l = None \<Longrightarrow> lh_waiting l = [] \<Longrightarrow> state_ok (exited now l)"
  by (simp add: exited_eq state_ok_def effect_def)

lemma exited_windows_ok: "windows_ok l \<Longrightarrow> windows_ok (exited now l)"
  by (auto simp: exited_eq windows_ok_def effect_def queue_windows_def liveWindows_def)

lemma exited_ports_ok: "ports_ok l \<Longrightarrow> ports_ok (exited now l)"
  by (auto simp: exited_eq ports_ok_def effect_def)

lemma exited_streams_ok: "streams_ok l \<Longrightarrow> lh_child l = None \<Longrightarrow> streams_ok (exited now l)"
  by (simp add: exited_eq streams_ok_def effect_def)

lemma exited_inv:
  assumes "windows_ok l" "ports_ok l" "streams_ok l" and "lh_child l = None" "lh_backoffTimer l = None" "lh_waiting l = []"
  shows "launcher_inv (exited now l)"
  using assms by (simp add: launcher_inv_def exited_state_ok exited_windows_ok exited_ports_ok exited_streams_ok)

lemma fork_inv:
  assumes "windows_ok l" "ports_ok l" "streams_ok l" and "lh_child l = None" "lh_backoffTimer l = None" "lh_waiting l = []"
    and "lh_attached l = []" and "length (lh_exits l) \<le> MaxRestarts"
  shows "launcher_inv (fork forks now l)"
proof (cases forks)
  case True
  with assms show ?thesis
    by (simp add: fork_def launcher_inv_def launcher_parts effect_def)
next
  case False
  have "launcher_inv (exited now (l\<lparr>lh_state := HostSpawning, lh_child := None\<rparr>))"
    using assms by (intro exited_inv) (simp_all add: windows_ok_def ports_ok_def streams_ok_def queue_windows_def)
  with False show ?thesis by (simp add: fork_def)
qed

lemma post_control_some: "lh_child l = Some c \<Longrightarrow> postControl m port l = Some (effect [Posted c m port] l)"
  by (simp add: postControl_def)

lemma port2_effects [simp]:
  "ports1 ((if b then ClosedPort2 p else SentPort w p) # es) = ports1 es"
  "ports2 ((if b then ClosedPort2 p else SentPort w p) # es) = p # ports2 es"
  "controls c ((if b then ClosedPort2 p else SentPort w p) # es) = controls c es"
  by simp_all

lemma split_attach_parts:
  "split_attach w q = (d, rest) \<Longrightarrow>
     (\<exists>xs ys. rest = xs @ ys \<and> q = xs @ (case d of None \<Rightarrow> [] | Some x \<Rightarrow> [x]) @ ys) \<and>
     (case d of None \<Rightarrow> \<forall>x \<in> set q. \<not> (is_attach (fst x) \<and> control_window (fst x) = w)
      | Some x \<Rightarrow> is_attach (fst x) \<and> control_window (fst x) = w)"
proof (induction q arbitrary: d rest)
  case (Cons x q)
  show ?case
  proof (cases "is_attach (fst x) \<and> control_window (fst x) = w")
    case True
    with Cons.prems show ?thesis by (auto intro: exI [of _ "[]"])
  next
    case False
    with Cons.prems obtain rest' where r: "split_attach w q = (d, rest')" "rest = x # rest'"
      by (auto split: prod.splits)
    from Cons.IH [OF r(1)] obtain xs ys where "rest' = xs @ ys" "q = xs @ (case d of None \<Rightarrow> [] | Some x \<Rightarrow> [x]) @ ys"
      by blast
    with r(2) have "\<exists>xs ys. rest = xs @ ys \<and> x # q = xs @ (case d of None \<Rightarrow> [] | Some x \<Rightarrow> [x]) @ ys"
      by (intro exI [of _ "x # xs"] exI [of _ ys]) simp
    with Cons.IH [OF r(1)] r(2) False show ?thesis by (auto split: option.splits)
  qed
qed simp

lemma dropQueuedAttach_eq:
  assumes "windows_ok l"
  obtains rest dropped where "dropQueuedAttach w l = (effect (close_queued dropped) l)\<lparr>lh_queue := rest\<rparr>"
    "mset (queue_ports rest) + mset (queue_ports dropped) = mset (queue_ports (lh_queue l))"
    "set rest \<subseteq> set (lh_queue l)" "distinct (map (control_window \<circ> fst) rest)"
    "w \<notin> set (map (control_window \<circ> fst) rest)"
proof -
  obtain d rest where d: "split_attach w (lh_queue l) = (d, rest)" by fastforce
  from split_attach_parts [OF this] obtain xs ys where parts: "rest = xs @ ys"
      "lh_queue l = xs @ (case d of None \<Rightarrow> [] | Some x \<Rightarrow> [x]) @ ys"
      "case d of None \<Rightarrow> \<forall>x \<in> set (lh_queue l). \<not> (is_attach (fst x) \<and> control_window (fst x) = w)
       | Some x \<Rightarrow> is_attach (fst x) \<and> control_window (fst x) = w" by blast
  have attaches: "\<forall>x \<in> set (lh_queue l). is_attach (fst x)" and dist: "distinct (map (control_window \<circ> fst) (lh_queue l))"
    using assms by (simp_all add: windows_ok_def queue_windows_def)
  show thesis
  proof (cases d)
    case None
    with d parts attaches dist show thesis
      by (intro that [of rest "[]"]) (auto simp: dropQueuedAttach_def effect_def)
  next
    case (Some x)
    with parts obtain xs ys where split: "rest = xs @ ys" "lh_queue l = xs @ x # ys" "control_window (fst x) = w" by auto
    have "queue_ports (x # ys) = queue_ports [x] @ queue_ports ys" by (simp add: queue_ports_def)
    with d split dist Some show thesis
      by (intro that [of rest "[x]"]) (auto simp: dropQueuedAttach_def)
  qed
qed

lemma queued_window_known:
  assumes "windows_ok l" and "set q \<subseteq> set (lh_queue l)"
  shows "\<forall>x \<in> set q. control_window (fst x) \<in> set (lh_windows l)"
proof
  fix x assume "x \<in> set q"
  with assms(2) have "(control_window \<circ> fst) x \<in> set (queue_windows l)" unfolding queue_windows_def by (metis image_eqI list.set_map subsetD)
  with assms(1) show "control_window (fst x) \<in> set (lh_windows l)" by (auto simp: windows_ok_def)
qed

lemma dropQueuedAttach_inv:
  assumes "launcher_inv l" shows "launcher_inv (dropQueuedAttach w l)"
proof -
  have "windows_ok l" using assms by (simp add: launcher_inv_def)
  from dropQueuedAttach_eq [OF this, of w] obtain rest dropped where
    eq: "dropQueuedAttach w l = (effect (close_queued dropped) l)\<lparr>lh_queue := rest\<rparr>"
    and ports: "mset (queue_ports rest) + mset (queue_ports dropped) = mset (queue_ports (lh_queue l))"
    and sub: "set rest \<subseteq> set (lh_queue l)" and dist: "distinct (map (control_window \<circ> fst) rest)" .
  have "state_ok (dropQueuedAttach w l)" using assms sub by (auto simp: eq launcher_inv_def state_ok_def effect_def)
  moreover have "windows_ok (dropQueuedAttach w l)"
    using assms sub dist queued_window_known [OF \<open>windows_ok l\<close> sub] by (auto simp: eq launcher_inv_def windows_ok_def effect_def queue_windows_def)
  moreover have "ports_ok (dropQueuedAttach w l)"
    using assms ports [symmetric] by (auto simp: eq launcher_inv_def ports_ok_def effect_def ac_simps)
  moreover have "streams_ok (dropQueuedAttach w l)"
    using assms by (simp add: eq launcher_inv_def streams_ok_def effect_def split: option.splits)
  ultimately show ?thesis by (simp add: launcher_inv_def)
qed

lemma dropped_window:
  assumes "launcher_inv l"
  shows "w \<notin> set (queue_windows (dropQueuedAttach w l))" "lh_state (dropQueuedAttach w l) = lh_state l"
proof -
  have "windows_ok l" using assms by (simp add: launcher_inv_def)
  from dropQueuedAttach_eq [OF this, of w] obtain rest dropped where
    "dropQueuedAttach w l = (effect (close_queued dropped) l)\<lparr>lh_queue := rest\<rparr>" "w \<notin> set (map (control_window \<circ> fst) rest)" .
  then show "w \<notin> set (queue_windows (dropQueuedAttach w l))" "lh_state (dropQueuedAttach w l) = lh_state l"
    by (auto simp: queue_windows_def effect_def)
qed

lemma enqueueAttach_inv:
  assumes "launcher_inv l" and "lh_state l \<in> {HostIdle, HostSpawning, HostBackoff}"
  shows "launcher_inv (sendPort w (lh_nextPort l) (enqueueAttach w (lh_nextPort l)
    (l\<lparr>lh_windows := set_add w (lh_windows l), lh_nextPort := Suc (lh_nextPort l)\<rparr>)))" (is "launcher_inv ?l'")
proof -
  let ?l = "l\<lparr>lh_windows := set_add w (lh_windows l), lh_nextPort := Suc (lh_nextPort l)\<rparr>"
  have "windows_ok ?l" using assms by (auto simp: launcher_inv_def windows_ok_def queue_windows_def)
  from dropQueuedAttach_eq [OF this, of w] obtain rest dropped where
    eq: "dropQueuedAttach w ?l = (effect (close_queued dropped) ?l)\<lparr>lh_queue := rest\<rparr>"
    and ports: "mset (queue_ports rest) + mset (queue_ports dropped) = mset (queue_ports (lh_queue l))"
    and sub: "set rest \<subseteq> set (lh_queue l)" and dist: "distinct (map (control_window \<circ> fst) rest)"
    and fresh: "w \<notin> set (map (control_window \<circ> fst) rest)" by auto
  have known: "\<forall>x \<in> set rest. control_window (fst x) \<in> set (lh_windows l)"
    using assms sub by (intro queued_window_known) (auto simp: launcher_inv_def)
  have "state_ok ?l'" using assms by (auto simp: enqueueAttach_def eq sendPort_def launcher_inv_def state_ok_def effect_def)
  moreover have "windows_ok ?l'"
    using assms sub dist fresh known
    by (auto simp: enqueueAttach_def eq sendPort_def launcher_inv_def windows_ok_def effect_def queue_windows_def)
  moreover have "ports_ok ?l'"
    using assms ports [symmetric]
    by (auto simp: enqueueAttach_def eq sendPort_def launcher_inv_def ports_ok_def effect_def ac_simps)
  moreover have "streams_ok ?l'"
    using assms by (auto simp: enqueueAttach_def eq sendPort_def launcher_inv_def streams_ok_def effect_def split: option.splits)
  ultimately show ?thesis by (simp add: launcher_inv_def)
qed

lemma portRequested_inv:
  assumes "launcher_inv l"
  shows "\<exists>l'. portRequested w l = Some l' \<and> launcher_inv l'"
proof (cases "lh_state l")
  case HostReady
  with assms obtain c where c: "lh_child l = Some c" by (auto simp: launcher_inv_def state_ok_def)
  let ?e = "(if w \<in> set (lh_attached l) then [Posted c (Detach w) None] else []) @ [Posted c (Attach w) (Some (lh_nextPort l))] @
     [if w \<in> set (lh_destroyed l) then ClosedPort2 (lh_nextPort l) else SentPort w (lh_nextPort l)]"
  let ?l = "(effect ?e l)\<lparr>lh_windows := set_add w (lh_windows l), lh_nextPort := Suc (lh_nextPort l),
     lh_attached := set_add w (lh_attached l)\<rparr>"
  have "portRequested w l = Some ?l"
    using HostReady c by (simp add: portRequested_def postControl_def effect_def sendPort_def Let_def)
  moreover have "state_ok ?l" using assms HostReady by (simp add: launcher_inv_def state_ok_def effect_def)
  moreover have "windows_ok ?l"
    using assms by (auto simp: launcher_inv_def windows_ok_def effect_def queue_windows_def)
  moreover have "ports_ok ?l" using assms by (simp add: launcher_inv_def ports_ok_def effect_def)
  moreover have "streams_ok ?l"
    using assms HostReady c by (auto simp: launcher_inv_def streams_ok_def effect_def insert_absorb)
  ultimately show ?thesis by (auto simp: launcher_inv_def)
next
  case HostFailedState
  with assms have "launcher_inv (sendToWindow w SentFailed (l\<lparr>lh_windows := set_add w (lh_windows l), lh_waiting := set_add w (lh_waiting l)\<rparr>))"
    by (auto simp: launcher_inv_def launcher_parts sendToWindow_def effect_def split: option.splits)
  with HostFailedState show ?thesis by (simp add: portRequested_def)
qed (use assms enqueueAttach_inv [OF assms, of w] in \<open>simp_all add: portRequested_def Let_def\<close>)

lemma windowClosed_inv:
  assumes "launcher_inv l"
  shows "\<exists>l'. windowClosed w l = Some l' \<and> launcher_inv l'"
proof -
  let ?forget = "\<lambda>l'. l'\<lparr>lh_attached := set_delete w (lh_attached l'), lh_windows := set_delete w (lh_windows l'),
                        lh_waiting := set_delete w (lh_waiting l')\<rparr>"
  have forget: "launcher_inv (?forget l')"
    if "launcher_inv l'" "w \<notin> set (queue_windows l')" "lh_state l' = HostReady \<Longrightarrow> w \<notin> set (lh_attached l')" for l'
  proof -
    have "set_delete w (lh_attached l') = lh_attached l'" if "lh_state l' = HostReady"
      using that \<open>lh_state l' = HostReady \<Longrightarrow> w \<notin> set (lh_attached l')\<close> by (auto simp: set_delete_def filter_id_conv)
    moreover have "state_ok (?forget l')"
      using that(1) by (auto simp: launcher_inv_def state_ok_def set_delete_def)
    ultimately show ?thesis
      using that(1,2) by (auto simp: launcher_inv_def windows_ok_def ports_ok_def streams_ok_def queue_windows_def split: option.splits)
  qed
  show ?thesis
  proof (cases "lh_state l")
    case HostReady
    with assms obtain c where c: "lh_child l = Some c" by (auto simp: launcher_inv_def state_ok_def)
    have empty: "queue_windows l = []" using HostReady assms by (auto simp: launcher_inv_def state_ok_def queue_windows_def)
    show ?thesis
    proof (cases "w \<in> set (lh_attached l)")
      case True
      let ?l = "effect [Posted c (Detach w) None] (l\<lparr>lh_attached := set_delete w (lh_attached l)\<rparr>)"
      have "launcher_inv ?l"
        using assms HostReady c True by (auto simp: launcher_inv_def launcher_parts effect_def)
      from forget [OF this] empty have "launcher_inv (?forget ?l)" by (simp add: queue_windows_def effect_def)
      moreover have "windowClosed w l = Some (?forget ?l)"
        using HostReady True c by (simp add: windowClosed_def postControl_def effect_def set_delete_def)
      ultimately show ?thesis by blast
    qed (use HostReady forget [OF assms] empty in \<open>simp add: windowClosed_def\<close>)
  next
    case HostFailedState
    then have "queue_windows l = []" using assms by (auto simp: launcher_inv_def state_ok_def queue_windows_def)
    with HostFailedState forget [OF assms] show ?thesis by (simp add: windowClosed_def)
  next
    case HostDisposed
    then have "queue_windows l = []" using assms by (auto simp: launcher_inv_def state_ok_def queue_windows_def)
    with HostDisposed forget [OF assms] show ?thesis by (simp add: windowClosed_def)
  qed (use forget [OF dropQueuedAttach_inv [OF assms, of w]] dropped_window [OF assms, of w] in
      \<open>simp_all add: windowClosed_def\<close>)
qed

lemma each_opt_inv:
  "(\<And>x s. P s \<Longrightarrow> \<exists>s'. f x s = Some s' \<and> P s') \<Longrightarrow> P s \<Longrightarrow> \<exists>s'. each_opt f xs s = Some s' \<and> P s'"
proof (induction xs arbitrary: s)
  case (Cons x xs)
  then obtain s1 where "f x s = Some s1" "P s1" by blast
  with Cons.IH [OF Cons.prems(1)] show ?case by simp
qed simp

lemma fork_from_inv:
  assumes "launcher_inv l" and "lh_state l \<in> {HostIdle, HostBackoff, HostFailedState}"
  shows "launcher_inv (fork forks now (l\<lparr>lh_backoffTimer := None, lh_exits := (if lh_state l = HostFailedState then [] else lh_exits l),
    lh_waiting := []\<rparr>))"
proof (rule fork_inv)
  let ?l = "l\<lparr>lh_backoffTimer := None, lh_exits := (if lh_state l = HostFailedState then [] else lh_exits l), lh_waiting := []\<rparr>"
  have ok: "state_ok l" using assms(1) by (simp add: launcher_inv_def)
  consider "lh_state l = HostIdle" | "lh_state l = HostBackoff" | "lh_state l = HostFailedState" using assms(2) by blast
  then have none: "lh_child l = None \<and> lh_attached l = [] \<and> (lh_state l \<noteq> HostFailedState \<longrightarrow> length (lh_exits l) \<le> MaxRestarts)"
    by cases (use ok in \<open>simp_all add: state_ok_def\<close>)
  show "windows_ok ?l" using assms by (simp add: launcher_inv_def windows_ok_def queue_windows_def)
  show "ports_ok ?l" using assms by (simp add: launcher_inv_def ports_ok_def)
  show "streams_ok ?l" using assms none by (simp add: launcher_inv_def streams_ok_def)
  show "lh_child ?l = None" "lh_backoffTimer ?l = None" "lh_waiting ?l = []" "lh_attached ?l = []" using none by simp_all
  show "length (lh_exits ?l) \<le> MaxRestarts" using none by simp
qed

lemma restartRequested_inv:
  assumes "launcher_inv l"
  shows "\<exists>l'. restartRequested forks now l = Some l' \<and> launcher_inv l'"
proof (cases "lh_state l = HostFailedState")
  case True
  then have "lh_backoffTimer l = None" using assms by (auto simp: launcher_inv_def state_ok_def)
  then have "l\<lparr>lh_backoffTimer := None, lh_exits := [], lh_waiting := []\<rparr> = l\<lparr>lh_exits := [], lh_waiting := []\<rparr>" by simp
  with fork_from_inv [OF assms, of forks now] True
  have "launcher_inv (fork forks now (l\<lparr>lh_exits := [], lh_waiting := []\<rparr>))" by simp
  with True show ?thesis
    unfolding restartRequested_def Let_def by (simp add: each_opt_inv [where P = launcher_inv, OF portRequested_inv])
qed (use assms in \<open>simp add: restartRequested_def\<close>)

lemma flush_queue:
  assumes "lh_child l = Some c" and "\<forall>x \<in> set q. is_attach (fst x)" and "distinct (lh_attached l @ map (control_window \<circ> fst) q)"
  shows "each_opt (\<lambda>(message, port) l. map_option
      (\<lambda>l'. if is_attach message then l'\<lparr>lh_attached := set_add (control_window message) (lh_attached l')\<rparr> else l')
      (postControl message port l)) q l =
    Some ((effect (map (\<lambda>(message, port). Posted c message port) q) l)
      \<lparr>lh_attached := lh_attached l @ map (control_window \<circ> fst) q\<rparr>)"
  using assms
proof (induction q arbitrary: l)
  case (Cons x q)
  let ?l = "(effect [Posted c (fst x) (snd x)] l)\<lparr>lh_attached := lh_attached l @ [control_window (fst x)]\<rparr>"
  have "lh_child ?l = Some c" "distinct (lh_attached ?l @ map (control_window \<circ> fst) q)"
    using Cons.prems by (auto simp: effect_def comp_def)
  with Cons.IH [of ?l] Cons.prems show ?case
    by (simp add: postControl_def case_prod_beta set_add_def effect_def)
qed (simp add: effect_def)

lemma posted_effects:
  assumes "\<forall>x \<in> set q. is_attach (fst x)"
  shows "ports1 (map (\<lambda>(message, port). Posted c message port) q) = queue_ports q"
    "ports2 (map (\<lambda>(message, port). Posted c message port) q) = []"
    "controls d (map (\<lambda>(message, port). Posted c message port) q) =
      (if d = c then map Attach (map (control_window \<circ> fst) q) else [])"
proof -
  have "ports1 (map (\<lambda>(message, port). Posted c message port) q) = queue_ports q \<and>
    ports2 (map (\<lambda>(message, port). Posted c message port) q) = [] \<and>
    controls d (map (\<lambda>(message, port). Posted c message port) q) =
      (if d = c then map Attach (map (control_window \<circ> fst) q) else [])"
    using assms
  proof (induction q)
    case (Cons x q)
    then show ?case by (cases x; cases "fst x"; cases "snd x") auto
  qed simp
  then show "ports1 (map (\<lambda>(message, port). Posted c message port) q) = queue_ports q"
    "ports2 (map (\<lambda>(message, port). Posted c message port) q) = []"
    "controls d (map (\<lambda>(message, port). Posted c message port) q) =
      (if d = c then map Attach (map (control_window \<circ> fst) q) else [])" by simp_all
qed

lemma onSpawned_inv:
  assumes "launcher_inv l"
  shows "\<exists>l'. onSpawned child l = Some l' \<and> launcher_inv l'"
proof (cases "lh_child l = Some child \<and> lh_state l = HostSpawning")
  case True
  have q: "\<forall>x \<in> set (lh_queue l). is_attach (fst x)" "distinct (queue_windows l)" "lh_attached l = []"
    using assms True by (auto simp: launcher_inv_def state_ok_def windows_ok_def)
  let ?l = "(effect (map (\<lambda>(message, port). Posted child message port) (lh_queue l)) l)
      \<lparr>lh_state := HostReady, lh_queue := [], lh_attached := queue_windows l\<rparr>"
  have "onSpawned child l = Some ?l"
    unfolding onSpawned_def
    using True q by (subst flush_queue [of _ child]) (simp_all add: queue_windows_def effect_def)
  moreover have "state_ok ?l" using assms True by (simp add: launcher_inv_def state_ok_def effect_def)
  moreover have "windows_ok ?l"
    using assms by (auto simp: launcher_inv_def windows_ok_def effect_def queue_windows_def)
  moreover have "ports_ok ?l"
    using assms by (auto simp: launcher_inv_def ports_ok_def windows_ok_def effect_def posted_effects [OF q(1)])
  moreover have "streams_ok ?l"
    using assms True q(2) serve_attaches [of "queue_windows l" "{}"]
    by (simp add: launcher_inv_def streams_ok_def effect_def posted_effects [OF q(1)] queue_windows_def)
  ultimately show ?thesis by (auto simp: launcher_inv_def)
qed (use assms in \<open>auto simp: onSpawned_def\<close>)

lemma onExited_inv:
  assumes "launcher_inv l"
  shows "launcher_inv (onExited child now l)"
proof (cases "lh_child l = Some child \<and> lh_state l \<noteq> HostDisposed")
  case True
  with assms have "launcher_inv (exited now (l\<lparr>lh_child := None\<rparr>))"
    by (intro exited_inv) (auto simp: launcher_inv_def launcher_parts)
  with True show ?thesis by (simp add: onExited_def)
qed (use assms in \<open>auto simp: onExited_def\<close>)

lemma onBackoffElapsed_inv:
  assumes "launcher_inv l" and "lh_backoffTimer l \<noteq> None"
  shows "launcher_inv (onBackoffElapsed forks now l)"
proof -
  have s: "lh_state l = HostBackoff" "lh_waiting l = []" using assms by (auto simp: launcher_inv_def state_ok_def)
  then have "l\<lparr>lh_backoffTimer := None, lh_waiting := []\<rparr> = l\<lparr>lh_backoffTimer := None\<rparr>" by (cases l) simp
  with s fork_from_inv [OF assms(1), of forks now] show ?thesis by (simp add: onBackoffElapsed_def)
qed

lemma launcher_start_inv:
  assumes "launcher_inv l" and "lh_state l = HostIdle"
  shows "launcher_inv (fork forks now l)"
proof -
  have s: "lh_backoffTimer l = None" "lh_waiting l = []" using assms by (auto simp: launcher_inv_def state_ok_def)
  then have "l\<lparr>lh_backoffTimer := None, lh_waiting := []\<rparr> = l" by (cases l) simp
  with fork_from_inv [OF assms(1), of forks now] assms(2) show ?thesis by simp
qed

lemma launcher_dispose_eq:
  "lh_state l \<noteq> HostDisposed \<Longrightarrow> launcher_dispose l =
     (effect (close_queued (lh_queue l) @ (case lh_child l of None \<Rightarrow> [] | Some child \<Rightarrow> [Killed child])) l)
       \<lparr>lh_state := HostDisposed, lh_backoffTimer := None, lh_queue := [], lh_child := None\<rparr>"
  by (simp add: launcher_dispose_def Let_def clearQueue_def effect_def split: option.split)

lemma launcher_dispose_inv:
  assumes "launcher_inv l"
  shows "launcher_inv (launcher_dispose l)"
proof (cases "lh_state l = HostDisposed")
  case False
  note eq = launcher_dispose_eq [OF False]
  have "state_ok (launcher_dispose l)" by (simp add: eq state_ok_def)
  moreover have "windows_ok (launcher_dispose l)"
    using assms by (simp add: eq effect_def launcher_inv_def windows_ok_def queue_windows_def)
  moreover have "ports_ok (launcher_dispose l)"
    using assms by (auto simp: eq effect_def launcher_inv_def ports_ok_def split: option.split)
  moreover have "streams_ok (launcher_dispose l)"
    using assms by (simp add: eq effect_def launcher_inv_def streams_ok_def split: option.split)
  ultimately show ?thesis by (simp add: launcher_inv_def)
qed (use assms in \<open>simp add: launcher_dispose_def\<close>)

lemma launcher_step_inv:
  assumes "launcher_inv l" and "input_enabled i l"
  shows "\<exists>l'. launcher_step i l = Some l' \<and> launcher_inv l'"
proof (cases i)
  case (WindowDestroyed w)
  have "launcher_inv (l\<lparr>lh_destroyed := set_add w (lh_destroyed l)\<rparr>)"
    using assms by (simp add: launcher_inv_def launcher_parts split: option.splits)
  with WindowDestroyed show ?thesis by simp
qed (use assms portRequested_inv windowClosed_inv restartRequested_inv onSpawned_inv onExited_inv onBackoffElapsed_inv
    launcher_start_inv launcher_dispose_inv in \<open>auto simp: launcher_start_def\<close>)

lemma launcher_new_inv: "launcher_inv launcher_new"
  by (simp add: launcher_inv_def launcher_parts launcher_new_def)

lemma launcher_reachable_inv: "launcher_reachable l \<Longrightarrow> launcher_inv l"
proof (induction rule: launcher_reachable.induct)
  case (step l i l')
  then show ?case using launcher_step_inv [of l i] by auto
qed (rule launcher_new_inv)

section \<open>Properties\<close>

fun launcher_run :: "launcher_input list \<Rightarrow> launcher \<Rightarrow> launcher option" where
  "launcher_run [] l = Some l"
| "launcher_run (i # is) l =
     (if input_enabled i l then Option.bind (launcher_step i l) (launcher_run is) else None)"

lemma launcher_run_reachable: "launcher_run is l = Some l' \<Longrightarrow> launcher_reachable l \<Longrightarrow> launcher_reachable l'"
  by (induction "is" l rule: launcher_run.induct) (auto simp: bind_eq_Some_conv split: if_splits intro: launcher_reachable.step)

text \<open>C12: Whatever happens in whatever order, the launcher never posts to a missing host, and it accounts for both ends of
  every port pair: the host's end is waiting in the queue, was transferred with one attach or was closed, exactly one of
  these and once; the window's end was sent or closed, once.\<close>

theorem launcher_accounts_for_ports:
  assumes "launcher_reachable l" and "input_enabled i l"
  shows "launcher_step i l \<noteq> None \<and>
    mset (ports1 (lh_effects l)) + mset (queue_ports (lh_queue l)) = mset [0..<lh_nextPort l] \<and>
    mset (ports2 (lh_effects l)) = mset [0..<lh_nextPort l]"
  using launcher_reachable_inv [OF assms(1)] launcher_step_inv [of l i] assms(2)
  unfolding launcher_inv_def ports_ok_def by auto

definition busy_morning :: "launcher_input list" where
  "busy_morning = [PortRequested 7, StartRequested True 0, PortRequested 8, PortRequested 7, Spawned 0, PortRequested 8,
     WindowDestroyed 8, PortRequested 8, Exited 0 1000, PortRequested 7, BackoffElapsed False 1500]"

lemma busy_morning_result:
  obtains l where "launcher_reachable l" "lh_state l = HostBackoff" "lh_nextPort l = 6" "lh_backoffTimer l = Some 1000"
proof -
  have "map_option (\<lambda>l. (lh_state l, lh_nextPort l, lh_backoffTimer l)) (launcher_run busy_morning launcher_new) =
      Some (HostBackoff, 6, Some 1000)"
    by code_simp
  then show thesis using launcher_run_reachable [OF _ launcher_reachable.new, of busy_morning] that by auto
qed

lemma launcher_accounts_for_ports_witness: "\<exists>l :: launcher. lh_nextPort l = 6 \<and> mset (ports2 (lh_effects l)) = mset [0..<6]"
proof -
  obtain l where l: "launcher_reachable l" "lh_nextPort l = 6" by (rule busy_morning_result)
  have "input_enabled BeforeQuit l" by simp
  from launcher_accounts_for_ports [OF l(1) this] l(2) show ?thesis by metis
qed

lemma each_opt_requests:
  assumes "launcher_inv l" and "lh_state l = HostSpawning" and "distinct (queue_windows l @ ws)"
    and "set ws \<subseteq> set (lh_windows l)"
  shows "\<exists>l'. each_opt portRequested ws l = Some l' \<and> launcher_inv l' \<and> lh_state l' = HostSpawning \<and>
    lh_child l' = lh_child l \<and> set (queue_windows l') = set (queue_windows l) \<union> set ws"
  using assms
proof (induction ws arbitrary: l)
  case (Cons w ws)
  obtain l1 where l1: "portRequested w l = Some l1" "launcher_inv l1" using portRequested_inv [OF Cons.prems(1)] by blast
  let ?l = "l\<lparr>lh_windows := set_add w (lh_windows l), lh_nextPort := Suc (lh_nextPort l)\<rparr>"
  have "split_attach w (lh_queue l) = (None, lh_queue l)"
  proof -
    obtain d rest where d: "split_attach w (lh_queue l) = (d, rest)" by fastforce
    from split_attach_parts [OF this] Cons.prems(3) have "d = None"
      by (cases d) (auto simp: queue_windows_def)
    with split_attach_parts [OF d] d show ?thesis by auto
  qed
  then have "l1 = sendPort w (lh_nextPort l) (?l\<lparr>lh_queue := lh_queue l @ [(Attach w, Some (lh_nextPort l))]\<rparr>)"
    using l1(1) Cons.prems(2) by (simp add: portRequested_def Let_def enqueueAttach_def dropQueuedAttach_def)
  then have "lh_state l1 = HostSpawning" "queue_windows l1 = queue_windows l @ [w]" "lh_child l1 = lh_child l"
    "set (lh_windows l1) = insert w (set (lh_windows l))"
    using Cons.prems(2) by (simp_all add: sendPort_def effect_def queue_windows_def)
  with Cons.IH [OF l1(2)] Cons.prems l1(1) show ?case by auto
qed simp

text \<open>C13: Only Restart leaves the failed state, and it serves everyone: no other input but quitting changes the state, and
  after a Restart whose fork works exactly the open windows that were waiting are attached when the new host has spawned.\<close>

theorem restart_serves_the_waiting:
  assumes "launcher_reachable l" and "lh_state l = HostFailedState"
  shows "(\<forall>i l'. input_enabled i l \<and> launcher_step i l = Some l' \<and> lh_state l' \<noteq> HostFailedState \<longrightarrow>
      i = BeforeQuit \<or> (\<exists>forks now. i = RestartRequested forks now)) \<and>
    (\<exists>l' l''. restartRequested True now l = Some l' \<and> onSpawned (lh_nextChild l) l' = Some l'' \<and> lh_state l'' = HostReady \<and>
      set (lh_attached l'') = set (lh_waiting l) - set (lh_destroyed l))"
proof -
  note inv = launcher_reachable_inv [OF assms(1)]
  then have idle: "lh_child l = None" "lh_backoffTimer l = None" "lh_queue l = []" "lh_attached l = []"
    and waiting: "distinct (lh_waiting l)" "set (lh_waiting l) \<subseteq> set (lh_windows l)"
    using assms(2) by (auto simp: launcher_inv_def state_ok_def windows_ok_def)
  have "i = BeforeQuit \<or> (\<exists>forks now. i = RestartRequested forks now)"
    if "input_enabled i l" "launcher_step i l = Some l'" "lh_state l' \<noteq> HostFailedState" for i l'
    using that assms(2) idle
    by (cases i) (auto simp: onSpawned_def onExited_def portRequested_def windowClosed_def sendToWindow_def effect_def split: if_splits)
  moreover
  let ?ws = "filter (\<lambda>w. w \<in> set (lh_windows l) \<and> w \<notin> set (lh_destroyed l)) (lh_waiting l)"
  let ?f = "fork True now (l\<lparr>lh_exits := [], lh_waiting := []\<rparr>)"
  have f: "lh_state ?f = HostSpawning" "lh_child ?f = Some (lh_nextChild l)" "queue_windows ?f = []"
    "lh_windows ?f = lh_windows l" "lh_destroyed ?f = lh_destroyed l"
    using idle by (simp_all add: fork_def effect_def queue_windows_def)
  have "launcher_inv ?f"
  proof -
    have "l\<lparr>lh_backoffTimer := None, lh_exits := [], lh_waiting := []\<rparr> = l\<lparr>lh_exits := [], lh_waiting := []\<rparr>"
      using idle by (cases l) simp
    with fork_from_inv [OF inv, of True now] assms(2) show ?thesis by simp
  qed
  from each_opt_requests [OF this f(1), of ?ws] f waiting obtain l' where
    l': "each_opt portRequested ?ws ?f = Some l'" "launcher_inv l'" "lh_state l' = HostSpawning"
      "lh_child l' = Some (lh_nextChild l)" "set (queue_windows l') = set ?ws"
    by auto
  have "restartRequested True now l = Some l'"
    using l'(1) assms(2) f by (simp add: restartRequested_def Let_def)
  moreover
  have q: "\<forall>x \<in> set (lh_queue l'). is_attach (fst x)" "distinct (queue_windows l')" "lh_attached l' = []"
    using l'(2,3) by (auto simp: launcher_inv_def state_ok_def windows_ok_def)
  have "onSpawned (lh_nextChild l) l' =
      Some ((effect (map (\<lambda>(message, port). Posted (lh_nextChild l) message port) (lh_queue l')) l')
        \<lparr>lh_state := HostReady, lh_queue := [], lh_attached := queue_windows l'\<rparr>)"
    unfolding onSpawned_def
    using l'(3,4) q by (subst flush_queue [of _ "lh_nextChild l"]) (simp_all add: queue_windows_def effect_def)
  moreover have "set (queue_windows l') = set (lh_waiting l) - set (lh_destroyed l)" using l'(5) waiting by auto
  ultimately show ?thesis by auto
qed

definition crash_loop :: "launcher_input list" where
  "crash_loop = [PortRequested 7, StartRequested False 0, BackoffElapsed False 1, BackoffElapsed False 2, BackoffElapsed False 3,
     BackoffElapsed False 4, BackoffElapsed False 5, PortRequested 8]"

lemma restart_serves_the_waiting_witness: "\<exists>l :: launcher. set (lh_attached l) = {7, 8}"
proof -
  have "map_option (\<lambda>l. (lh_state l, lh_waiting l, lh_destroyed l)) (launcher_run crash_loop launcher_new) =
      Some (HostFailedState, [7, 8], [])"
    by code_simp
  then obtain l where run: "launcher_run crash_loop launcher_new = Some l" and l: "lh_state l = HostFailedState"
      "lh_waiting l = [7, 8]" "lh_destroyed l = []"
    by auto
  from restart_serves_the_waiting [OF launcher_run_reachable [OF run launcher_reachable.new] l(1), where now = 0] l(2,3)
  show ?thesis by auto
qed

end
