(* ===== verification/Query_Host.thy ===== *)
theory Query_Host
  imports Query_Client Query_Launcher "HOL-Library.AList"
begin

text \<open>
  \<open>ql-tool-app/src/query-host/QueryHost.ts\<close> and the messages of \<open>ql-tool-app/src/common/QueryHostProtocol.ts\<close>: the
  process that serves the query ports of the windows. What the engine client and the catalog answer is not decided
  here, so a request that has begun is a task which settles with any outcome, at any time, once; the executions are of
  any result type, a profile is its name and settings of any type, and a snapshot of the catalog is of any type.

  The launcher is this process' client: it relies on a host to have attached exactly the windows it was told. That
  contract is the locale \<open>control_server\<close>.
\<close>

section \<open>Messages\<close>

type_synonym 'p connection = "utf16 \<times> 'p"

datatype 'p host_request =
  ExecuteRequest utf16 "'p connection" utf16 page_window page_size_mode
| CancelRequest utf16
| DescribeRequest utf16 "'p connection" utf16 utf16
| LoadOwnerRequest utf16 "'p connection" utf16
| TestRequest utf16 "'p connection"

fun request_id :: "'p host_request \<Rightarrow> utf16" where
  "request_id (ExecuteRequest i c query w m) = i"
| "request_id (CancelRequest i) = i"
| "request_id (DescribeRequest i c owner table) = i"
| "request_id (LoadOwnerRequest i c owner) = i"
| "request_id (TestRequest i c) = i"

datatype ('r, 's) host_response =
  Executed utf16 "'r execution"
| Described utf16 's
| CatalogLoaded utf16 's
| ConnectionTested utf16 utf16 nat
| FailedResponse utf16 query_failure

fun response_id :: "('r, 's) host_response \<Rightarrow> utf16" where
  "response_id (Executed i e) = i"
| "response_id (Described i s) = i"
| "response_id (CatalogLoaded i s) = i"
| "response_id (ConnectionTested i chain head) = i"
| "response_id (FailedResponse i f) = i"

section \<open>The state\<close>

record 'p host_services =
  sv_profile :: "'p connection"
  sv_client :: nat

record attached_port =
  ap_port :: nat
  ap_controllers :: "(utf16 \<times> nat) list"

record 'p host_task =
  tk_attached :: nat
  tk_request :: "'p host_request"
  tk_controller :: nat
  tk_client :: nat
  tk_options :: "execute_options option"

record ('p, 'r, 's) host =
  hs_services :: "(utf16 \<times> 'p host_services) list"
  hs_clients :: nat
  hs_invalidated :: "nat list"
  hs_attachments :: "attached_port list"
  hs_ports :: "(nat \<times> nat) list"
  hs_controllers :: nat
  hs_aborted :: "nat list"
  hs_closed :: "nat list"
  hs_tasks :: "'p host_task list"
  hs_posted :: "(nat \<times> ('r, 's) host_response) list"

definition host_new :: "('p, 'r, 's) host" where
  "host_new = \<lparr>hs_services = [], hs_clients = 0, hs_invalidated = [], hs_attachments = [], hs_ports = [], hs_controllers = 0,
     hs_aborted = [], hs_closed = [], hs_tasks = [], hs_posted = []\<rparr>"

section \<open>Control messages\<close>

text \<open>An attached port and its requests is an object: it is reached by its place among the attachments.\<close>

definition host_attach :: "nat \<Rightarrow> nat \<Rightarrow> ('p, 'r, 's) host \<Rightarrow> ('p, 'r, 's) host" where
  "host_attach w port h =
     h\<lparr>hs_attachments := hs_attachments h @ [\<lparr>ap_port = port, ap_controllers = []\<rparr>],
       hs_ports := AList.update w (length (hs_attachments h)) (hs_ports h)\<rparr>"

definition host_detach :: "nat \<Rightarrow> ('p, 'r, 's) host \<Rightarrow> ('p, 'r, 's) host" where
  "host_detach w h =
     (case map_of (hs_ports h) w of
        None \<Rightarrow> h
      | Some a \<Rightarrow>
          h\<lparr>hs_aborted := hs_aborted h @ map snd (ap_controllers (hs_attachments h ! a)),
            hs_closed := hs_closed h @ [ap_port (hs_attachments h ! a)],
            hs_ports := AList.delete w (hs_ports h)\<rparr>)"

text \<open>An \<open>attach\<close> without a port would throw.\<close>

fun onControl :: "host_control \<times> nat option \<Rightarrow> ('p, 'r, 's) host \<Rightarrow> ('p, 'r, 's) host option" where
  "onControl (Attach w, Some port) h = Some (host_attach w port h)"
| "onControl (Attach w, None) h = None"
| "onControl (Detach w, _) h = Some (host_detach w h)"

definition attachedWindowIds :: "('p, 'r, 's) host \<Rightarrow> nat set" where
  "attachedWindowIds h = fst ` set (hs_ports h)"

section \<open>Requests\<close>

definition servicesFor :: "'p connection \<Rightarrow> ('p, 'r, 's) host \<Rightarrow> nat \<times> ('p, 'r, 's) host" where
  "servicesFor profile h =
     (let create = (hs_clients h, h\<lparr>hs_services := AList.update (fst profile)
              \<lparr>sv_profile = profile, sv_client = hs_clients h\<rparr> (hs_services h), hs_clients := Suc (hs_clients h)\<rparr>)
      in case map_of (hs_services h) (fst profile) of
           Some cached \<Rightarrow> if sv_profile cached = profile then (sv_client cached, h) else create
         | None \<Rightarrow> create)"

definition set_controllers :: "nat \<Rightarrow> ((utf16 \<times> nat) list \<Rightarrow> (utf16 \<times> nat) list) \<Rightarrow> ('p, 'r, 's) host \<Rightarrow> ('p, 'r, 's) host" where
  "set_controllers a f h =
     h\<lparr>hs_attachments := (hs_attachments h)[a := (hs_attachments h ! a)\<lparr>ap_controllers := f (ap_controllers (hs_attachments h ! a))\<rparr>]\<rparr>"

text \<open>What an execute passes to the client.\<close>

fun request_options :: "'p host_request \<Rightarrow> execute_options option" where
  "request_options (ExecuteRequest i c query w m) =
     Some (if m = all_rows then \<lparr>xo_limit = None, xo_offset = None, xo_timeoutMs = TimeoutUnset\<rparr>
           else \<lparr>xo_limit = pw_limit w, xo_offset = Some (pw_offset w), xo_timeoutMs = TimeoutUnset\<rparr>)"
| "request_options _ = None"

text \<open>\<open>withController\<close> up to its operation; the operation is a task.\<close>

definition begin_task :: "nat \<Rightarrow> 'p host_request \<Rightarrow> 'p connection \<Rightarrow> ('p, 'r, 's) host \<Rightarrow> ('p, 'r, 's) host" where
  "begin_task a request profile h =
     (let (client, h1) = servicesFor profile h;
          controller = hs_controllers h1;
          h2 = set_controllers a (AList.update (request_id request) controller) (h1\<lparr>hs_controllers := Suc controller\<rparr>)
      in h2\<lparr>hs_tasks := hs_tasks h2 @
              [\<lparr>tk_attached = a, tk_request = request, tk_controller = controller, tk_client = client,
                tk_options = request_options request\<rparr>]\<rparr>)"

definition runCancel :: "nat \<Rightarrow> utf16 \<Rightarrow> ('p, 'r, 's) host \<Rightarrow> ('p, 'r, 's) host" where
  "runCancel a i h =
     (case map_of (ap_controllers (hs_attachments h ! a)) i of
        None \<Rightarrow> h
      | Some controller \<Rightarrow> h\<lparr>hs_aborted := hs_aborted h @ [controller]\<rparr>)"

fun onRequest :: "nat \<Rightarrow> 'p host_request \<Rightarrow> ('p, 'r, 's) host \<Rightarrow> ('p, 'r, 's) host" where
  "onRequest a (ExecuteRequest i c query w m) h = begin_task a (ExecuteRequest i c query w m) c h"
| "onRequest a (CancelRequest i) h = runCancel a i h"
| "onRequest a (DescribeRequest i c owner table) h = begin_task a (DescribeRequest i c owner table) c h"
| "onRequest a (LoadOwnerRequest i c owner) h = begin_task a (LoadOwnerRequest i c owner) c h"
| "onRequest a (TestRequest i c) h = begin_task a (TestRequest i c) c h"

section \<open>Outcomes\<close>

datatype ('r, 's) task_outcome =
  ExecutionOf "'r execution"
| SnapshotOf 's
| TestedOf utf16 nat
| Threw thrown

definition schema_changed :: "'r execution \<Rightarrow> bool" where
  "schema_changed e =
     (case ex_outcome e of
        Inl f \<Rightarrow> (case qf_data f of Some d \<Rightarrow> ed_kind d = SCHEMA_CHANGED | None \<Rightarrow> False)
      | Inr r \<Rightarrow> False)"

text \<open>The answer to a task that settles; \<^const>\<open>None\<close> for an outcome its operation cannot have. What an execution throws
  is caught on the port.\<close>

fun answer :: "'p host_request \<Rightarrow> ('r, 's) task_outcome \<Rightarrow> ('r, 's) host_response option" where
  "answer (ExecuteRequest i c query w m) (ExecutionOf e) = Some (Executed i e)"
| "answer (DescribeRequest i c owner table) (SnapshotOf s) = Some (Described i s)"
| "answer (LoadOwnerRequest i c owner) (SnapshotOf s) = Some (CatalogLoaded i s)"
| "answer (TestRequest i c) (TestedOf chain head) = Some (ConnectionTested i chain head)"
| "answer (CancelRequest i) outcome = None"
| "answer request (Threw t) = Some (FailedResponse (request_id request) (failure_of t))"
| "answer request outcome = None"

definition drops_catalog :: "'p host_request \<Rightarrow> ('r, 's) task_outcome \<Rightarrow> bool" where
  "drops_catalog request outcome = (case outcome of ExecutionOf e \<Rightarrow> schema_changed e | _ \<Rightarrow> False)"

definition settle_task :: "nat \<Rightarrow> ('r, 's) task_outcome \<Rightarrow> ('p, 'r, 's) host \<Rightarrow> ('p, 'r, 's) host option" where
  "settle_task k outcome h =
     (if k < length (hs_tasks h)
      then (let task = hs_tasks h ! k in map_option
             (\<lambda>response.
                let h1 = set_controllers (tk_attached task) (AList.delete (request_id (tk_request task)))
                           (h\<lparr>hs_tasks := take k (hs_tasks h) @ drop (Suc k) (hs_tasks h)\<rparr>);
                    h2 = (if drops_catalog (tk_request task) outcome
                          then h1\<lparr>hs_invalidated := hs_invalidated h1 @ [tk_client task]\<rparr> else h1)
                in h2\<lparr>hs_posted := hs_posted h2 @ [(ap_port (hs_attachments h ! tk_attached task), response)]\<rparr>)
             (answer (tk_request task) outcome))
      else None)"

section \<open>Runs\<close>

datatype ('p, 'r, 's) host_input =
  Control "host_control \<times> nat option"
| Request nat "'p host_request"
| Settle nat "('r, 's) task_outcome"

text \<open>Requests arrive on a port that is open: the port of an attachment, which was not closed.\<close>

fun host_step :: "('p, 'r, 's) host_input \<Rightarrow> ('p, 'r, 's) host \<Rightarrow> ('p, 'r, 's) host option" where
  "host_step (Control c) h = onControl c h"
| "host_step (Request a request) h =
     (if a < length (hs_attachments h) \<and> ap_port (hs_attachments h ! a) \<notin> set (hs_closed h)
      then Some (onRequest a request h) else None)"
| "host_step (Settle k outcome) h = settle_task k outcome h"

definition host_run :: "('p, 'r, 's) host_input list \<Rightarrow> ('p, 'r, 's) host \<Rightarrow> ('p, 'r, 's) host option" where
  "host_run = each_opt host_step"

fun control_of :: "('p, 'r, 's) host_input \<Rightarrow> (host_control \<times> nat option) list" where
  "control_of (Control c) = [c]"
| "control_of _ = []"

definition host_controls :: "('p, 'r, 's) host_input list \<Rightarrow> (host_control \<times> nat option) list" where
  "host_controls inputs = concat (map control_of inputs)"

section \<open>The contract of a control stream\<close>

locale control_server =
  fixes attached :: "'h \<Rightarrow> nat set" and step :: "'i \<Rightarrow> 'h \<Rightarrow> 'h option" and control :: "'i \<Rightarrow> host_control list"
  assumes serves: "step i h = Some h' \<Longrightarrow> serve (attached h) (control i) = Some A \<Longrightarrow> attached h' = A"
begin

lemma run_attached:
  "each_opt step inputs h = Some h' \<Longrightarrow> serve (attached h) (concat (map control inputs)) = Some A \<Longrightarrow> attached h' = A"
proof (induction inputs arbitrary: h)
  case (Cons i inputs)
  then obtain h1 B where "step i h = Some h1" "each_opt step inputs h1 = Some h'" "serve (attached h) (control i) = Some B"
      "serve B (concat (map control inputs)) = Some A"
    by (auto simp: bind_eq_Some_conv)
  with serves [of i h h1 B] Cons.IH [of h1] show ?case by simp
qed simp

end

lemma ports_unchanged [simp]:
  "hs_ports (set_controllers a f h) = hs_ports h" "hs_ports (snd (servicesFor c h)) = hs_ports h"
  "hs_ports (begin_task a r c h) = hs_ports h" "hs_ports (runCancel a i h) = hs_ports h" "hs_ports (onRequest a r h) = hs_ports h"
proof -
  show 1: "hs_ports (set_controllers a f h) = hs_ports h" for a f and h :: "('p, 'r, 's) host" by (simp add: set_controllers_def)
  show 2: "hs_ports (snd (servicesFor c h)) = hs_ports h" for c and h :: "('p, 'r, 's) host"
    by (simp add: servicesFor_def Let_def split: option.split)
  show 3: "hs_ports (begin_task a r c h) = hs_ports h" for a r c and h :: "('p, 'r, 's) host"
    using 2 [of c h] by (simp add: begin_task_def Let_def set_controllers_def case_prod_beta)
  show 4: "hs_ports (runCancel a i h) = hs_ports h" for a i and h :: "('p, 'r, 's) host"
    by (simp add: runCancel_def split: option.split)
  show "hs_ports (onRequest a r h) = hs_ports h" by (cases r) (simp_all add: 3 4)
qed

lemma settle_ports: "settle_task k outcome h = Some h' \<Longrightarrow> hs_ports h' = hs_ports h"
  by (auto simp: settle_task_def Let_def set_controllers_def split: if_splits)

lemma attached_update [simp]: "fst ` set (AList.update w a ps) = insert w (fst ` set ps)"
  by (simp add: dom_map_of_conv_image_fst [symmetric] update_conv')

lemma attached_delete [simp]: "fst ` set (AList.delete w ps) = fst ` set ps - {w}"
  by (auto simp: AList.delete_eq)

lemma attachedWindowIds_attach [simp]: "attachedWindowIds (host_attach w port h) = insert w (attachedWindowIds h)"
  by (simp add: attachedWindowIds_def host_attach_def)

lemma attachedWindowIds_detach [simp]: "attachedWindowIds (host_detach w h) = attachedWindowIds h - {w}"
proof (cases "map_of (hs_ports h) w")
  case None
  then have "w \<notin> fst ` set (hs_ports h)" by (simp only: map_of_eq_None_iff not_False_eq_True)
  with None show ?thesis by (simp add: attachedWindowIds_def host_detach_def)
qed (simp add: attachedWindowIds_def host_detach_def)

lemma attachedWindowIds_request [simp]: "attachedWindowIds (onRequest a r h) = attachedWindowIds h"
  by (simp add: attachedWindowIds_def)

interpretation query_host: control_server attachedWindowIds host_step "\<lambda>i. map fst (control_of i)"
proof
  fix i and h h' :: "('p, 'r, 's) host" and A
  assume step: "host_step i h = Some h'" and A: "serve (attachedWindowIds h) (map fst (control_of i)) = Some A"
  show "attachedWindowIds h' = A"
  proof (cases i)
    case (Control c)
    with step A show ?thesis
      by (cases "(c, h)" rule: onControl.cases) (auto simp del: not_None_eq split: if_splits)
  next
    case (Request a r)
    with step have "h' = onRequest a r h" by (auto split: if_splits)
    with Request A show ?thesis by simp
  next
    case (Settle k outcome)
    with step A settle_ports [of k outcome h h'] show ?thesis by (simp add: attachedWindowIds_def)
  qed
qed

section \<open>The invariant of the host\<close>

definition host_ids :: "nat \<Rightarrow> ('p, 'r, 's) host \<Rightarrow> (utf16 \<times> nat) list" where
  "host_ids a h = map (\<lambda>t. (request_id (tk_request t), tk_controller t)) (filter (\<lambda>t. tk_attached t = a) (hs_tasks h))"

definition host_ids_of :: "nat \<Rightarrow> 'p host_task list \<Rightarrow> (utf16 \<times> nat) list" where
  "host_ids_of a ts = map (\<lambda>t. (request_id (tk_request t), tk_controller t)) (filter (\<lambda>t. tk_attached t = a) ts)"

definition ports_inv :: "('p, 'r, 's) host \<Rightarrow> bool" where
  "ports_inv h \<longleftrightarrow>
     distinct (map fst (hs_ports h)) \<and> distinct (map ap_port (hs_attachments h)) \<and>
     (\<forall>(w, a) \<in> set (hs_ports h). a < length (hs_attachments h)) \<and>
     (\<forall>a < length (hs_attachments h).
        ap_port (hs_attachments h ! a) \<in> set (hs_closed h) \<longleftrightarrow> a \<notin> snd ` set (hs_ports h)) \<and>
     distinct (map snd (hs_ports h))"

definition tasks_inv :: "('p, 'r, 's) host \<Rightarrow> bool" where
  "tasks_inv h \<longleftrightarrow>
     (\<forall>t \<in> set (hs_tasks h). tk_attached t < length (hs_attachments h)) \<and>
     (\<forall>a < length (hs_attachments h). distinct (map fst (host_ids a h)) \<and>
        distinct (map fst (ap_controllers (hs_attachments h ! a))) \<and>
        set (ap_controllers (hs_attachments h ! a)) = set (host_ids a h)) \<and>
     (\<forall>t \<in> set (hs_tasks h). ap_port (hs_attachments h ! tk_attached t) \<in> set (hs_closed h) \<longrightarrow>
        tk_controller t \<in> set (hs_aborted h))"

text \<open>What the windows and the launcher keep to: a request id is not in flight on its port, and a port is new.\<close>

fun input_fresh :: "('p, 'r, 's) host_input \<Rightarrow> ('p, 'r, 's) host \<Rightarrow> bool" where
  "input_fresh (Request a (CancelRequest i)) h = True"
| "input_fresh (Request a r) h = (request_id r \<notin> fst ` set (host_ids a h))"
| "input_fresh i h = True"

fun inputs_fresh :: "('p, 'r, 's) host_input list \<Rightarrow> ('p, 'r, 's) host \<Rightarrow> bool" where
  "inputs_fresh [] h = True"
| "inputs_fresh (i # is) h \<longleftrightarrow> input_fresh i h \<and> (case host_step i h of None \<Rightarrow> True | Some h' \<Rightarrow> inputs_fresh is h')"

lemma update_new: "w \<notin> fst ` set ps \<Longrightarrow> AList.update w n ps = ps @ [(w, n)]"
  by (induction ps) auto

lemma attach_inv:
  assumes "ports_inv h" "tasks_inv h" and "w \<notin> attachedWindowIds h" and "port \<notin> set (map ap_port (hs_attachments h))"
    and "port \<notin> set (hs_closed h)"
  shows "ports_inv (host_attach w port h)" "tasks_inv (host_attach w port h)"
proof -
  have new: "AList.update w n (hs_ports h) = hs_ports h @ [(w, n)]" for n
    using assms(3) by (simp add: attachedWindowIds_def update_new)
  show "ports_inv (host_attach w port h)"
    using assms by (auto simp: ports_inv_def host_attach_def new attachedWindowIds_def nth_append less_Suc_eq)
  have "host_ids a (host_attach w port h) = host_ids a h" for a by (simp add: host_ids_def host_attach_def)
  moreover have "host_ids (length (hs_attachments h)) h = []"
    using assms(2) by (auto simp: tasks_inv_def host_ids_def filter_empty_conv)
  ultimately show "tasks_inv (host_attach w port h)"
    using assms(2) by (auto simp: tasks_inv_def host_attach_def nth_append less_Suc_eq)
qed

lemma distinct_snd: "distinct (map snd ps) \<Longrightarrow> (v, b) \<in> set ps \<Longrightarrow> (w, b) \<in> set ps \<Longrightarrow> v = w"
  by (induction ps) force+

lemma detach_inv:
  assumes "ports_inv h" "tasks_inv h"
  shows "ports_inv (host_detach w h)" "tasks_inv (host_detach w h)"
proof -
  have "ports_inv (host_detach w h) \<and> tasks_inv (host_detach w h)"
  proof (cases "map_of (hs_ports h) w")
    case (Some a)
    let ?as = "hs_attachments h"
    have wa: "(w, a) \<in> set (hs_ports h)" using Some by (rule map_of_SomeD)
    then have a: "a < length ?as" using assms(1) by (auto simp: ports_inv_def)
    have same: "ap_port (?as ! b) = ap_port (?as ! a) \<longleftrightarrow> b = a" if "b < length ?as" for b
      using assms(1) that a by (auto simp: ports_inv_def distinct_conv_nth)
    have rest: "b \<in> snd ` set (AList.delete w (hs_ports h)) \<longleftrightarrow> b \<in> snd ` set (hs_ports h) \<and> b \<noteq> a" for b
    proof -
      have "(v, b) \<in> set (hs_ports h) \<Longrightarrow> v = w \<longleftrightarrow> b = a" for v
        using assms(1) wa distinct_snd eq_key_imp_eq_value unfolding ports_inv_def by metis
      then show ?thesis by (force simp: AList.delete_eq)
    qed
    have eq: "host_detach w h = h\<lparr>hs_aborted := hs_aborted h @ map snd (ap_controllers (?as ! a)),
        hs_closed := hs_closed h @ [ap_port (?as ! a)], hs_ports := AList.delete w (hs_ports h)\<rparr>"
      using Some by (simp add: host_detach_def)
    have "distinct (map snd (AList.delete w (hs_ports h)))"
      using assms(1) by (simp add: ports_inv_def AList.delete_eq distinct_map_filter)
    moreover have "\<forall>(v, b) \<in> set (AList.delete w (hs_ports h)). b < length ?as"
      using assms(1) unfolding ports_inv_def AList.delete_eq by auto
    moreover have "ap_port (?as ! b) \<in> insert (ap_port (?as ! a)) (set (hs_closed h)) \<longleftrightarrow>
        b \<notin> snd ` set (AList.delete w (hs_ports h))" if b: "b < length ?as" for b
    proof -
      have "ap_port (?as ! b) \<in> set (hs_closed h) \<longleftrightarrow> b \<notin> snd ` set (hs_ports h)"
        using assms(1) b unfolding ports_inv_def by blast
      then show ?thesis unfolding rest using same [OF b] by auto
    qed
    ultimately have ports: "ports_inv (host_detach w h)"
      using assms(1) unfolding eq ports_inv_def by (simp add: distinct_delete)
    have ids: "host_ids b (host_detach w h) = host_ids b h" for b by (simp add: eq host_ids_def)
    have "tk_controller t \<in> set (hs_aborted h) \<union> snd ` set (ap_controllers (?as ! a))"
      if t: "t \<in> set (hs_tasks h)" "ap_port (?as ! tk_attached t) \<in> insert (ap_port (?as ! a)) (set (hs_closed h))" for t
    proof (cases "ap_port (?as ! tk_attached t) \<in> set (hs_closed h)")
      case False
      have "tk_attached t < length ?as" using assms(2) t(1) by (simp add: tasks_inv_def)
      with same t(2) False have "tk_attached t = a" by simp
      with t(1) have "(request_id (tk_request t), tk_controller t) \<in> set (host_ids a h)"
        by (auto simp: host_ids_def)
      then have "(request_id (tk_request t), tk_controller t) \<in> set (ap_controllers (?as ! a))"
        using assms(2) a by (simp add: tasks_inv_def)
      then show ?thesis by force
    qed (use assms(2) t(1) in \<open>simp add: tasks_inv_def\<close>)
    then have "tasks_inv (host_detach w h)"
      using assms(2) unfolding tasks_inv_def ids by (simp add: eq)
    with ports show ?thesis ..
  qed (use assms in \<open>simp add: host_detach_def\<close>)
  then show "ports_inv (host_detach w h)" "tasks_inv (host_detach w h)" by simp_all
qed

lemma servicesFor_fields:
  "\<exists>services clients. snd (servicesFor c h) = h\<lparr>hs_services := services, hs_clients := clients\<rparr>"
proof -
  have "h = h\<lparr>hs_services := hs_services h, hs_clients := hs_clients h\<rparr>" by simp
  then have same: "\<exists>services clients. h = h\<lparr>hs_services := services, hs_clients := clients\<rparr>" by blast
  show ?thesis
  proof (cases "map_of (hs_services h) (fst c)")
    case (Some cached)
    with same show ?thesis by (cases "sv_profile cached = c") (auto simp: servicesFor_def)
  qed (auto simp: servicesFor_def)
qed

lemma begin_task_eq:
  obtains services clients client where "begin_task a r c h =
    h\<lparr>hs_services := services, hs_clients := clients, hs_controllers := Suc (hs_controllers h),
      hs_attachments := (hs_attachments h)[a := (hs_attachments h ! a)
        \<lparr>ap_controllers := AList.update (request_id r) (hs_controllers h) (ap_controllers (hs_attachments h ! a))\<rparr>],
      hs_tasks := hs_tasks h @ [\<lparr>tk_attached = a, tk_request = r, tk_controller = hs_controllers h, tk_client = client, tk_options = request_options r\<rparr>]\<rparr>"
proof -
  obtain services clients where "snd (servicesFor c h) = h\<lparr>hs_services := services, hs_clients := clients\<rparr>"
    using servicesFor_fields by blast
  then show thesis
    by (intro that [where services = services and clients = clients and client = "fst (servicesFor c h)"]) (simp add: begin_task_def Let_def case_prod_beta set_controllers_def)
qed

lemma map_ap_port_update [simp]:
  "a < length as \<Longrightarrow> map ap_port (as[a := (as ! a)\<lparr>ap_controllers := cs\<rparr>]) = map ap_port as"
  by (rule nth_equalityI) (auto simp: nth_list_update)

lemma ap_port_update [simp]:
  "a < length as \<Longrightarrow> ap_port (as[a := (as ! a)\<lparr>ap_controllers := cs\<rparr>] ! b) = ap_port (as ! b)"
  by (simp add: nth_list_update)

lemma begin_task_inv:
  assumes "ports_inv h" "tasks_inv h" and "a < length (hs_attachments h)" "ap_port (hs_attachments h ! a) \<notin> set (hs_closed h)"
    and "request_id r \<notin> fst ` set (host_ids a h)"
  shows "ports_inv (begin_task a r c h)" "tasks_inv (begin_task a r c h)"
proof -
  obtain services clients client where eq: "begin_task a r c h =
    h\<lparr>hs_services := services, hs_clients := clients, hs_controllers := Suc (hs_controllers h),
      hs_attachments := (hs_attachments h)[a := (hs_attachments h ! a)
        \<lparr>ap_controllers := AList.update (request_id r) (hs_controllers h) (ap_controllers (hs_attachments h ! a))\<rparr>],
      hs_tasks := hs_tasks h @ [\<lparr>tk_attached = a, tk_request = r, tk_controller = hs_controllers h, tk_client = client, tk_options = request_options r\<rparr>]\<rparr>"
    by (rule begin_task_eq)
  show "ports_inv (begin_task a r c h)" using assms(1,3) unfolding eq ports_inv_def by simp
  have ids: "host_ids b (begin_task a r c h) = host_ids b h @ (if b = a then [(request_id r, hs_controllers h)] else [])" for b
    by (simp add: eq host_ids_def)
  have set: "set (ap_controllers (hs_attachments h ! a)) = set (host_ids a h)" using assms(2,3) by (simp add: tasks_inv_def)
  then have upd: "AList.update (request_id r) (hs_controllers h) (ap_controllers (hs_attachments h ! a)) =
      ap_controllers (hs_attachments h ! a) @ [(request_id r, hs_controllers h)]"
    using assms(5) by (intro update_new) simp
  show "tasks_inv (begin_task a r c h)"
    using assms(2-5) set unfolding tasks_inv_def ids
    by (auto simp: eq upd nth_list_update)
qed

lemma cancel_inv:
  assumes "ports_inv h" "tasks_inv h"
  shows "ports_inv (runCancel a i h)" "tasks_inv (runCancel a i h)"
  using assms by (auto simp: runCancel_def ports_inv_def tasks_inv_def host_ids_def split: option.splits)

lemma delete_entry:
  assumes "set cs = insert (i, c) R" and "i \<notin> fst ` R"
  shows "set (AList.delete i cs) = R"
proof -
  have "set (AList.delete i cs) = {p \<in> set cs. fst p \<noteq> i}" by (auto simp: AList.delete_eq)
  also have "\<dots> = R" using assms by force
  finally show ?thesis .
qed

lemma settle_inv:
  assumes "ports_inv h" "tasks_inv h" and "settle_task k outcome h = Some h'"
  shows "ports_inv h'" "tasks_inv h'"
proof -
  obtain response where k: "k < length (hs_tasks h)" and response: "answer (tk_request (hs_tasks h ! k)) outcome = Some response"
    using assms(3) by (auto simp: settle_task_def Let_def split: if_splits)
  define t where "t = hs_tasks h ! k"
  define xs where "xs = take k (hs_tasks h)"
  define ys where "ys = drop (Suc k) (hs_tasks h)"
  have tasks: "hs_tasks h = xs @ t # ys" using k by (simp add: t_def xs_def ys_def id_take_nth_drop [symmetric])
  let ?a = "tk_attached t" and ?i = "request_id (tk_request t)"
  have a: "?a < length (hs_attachments h)" using assms(2) by (simp add: tasks_inv_def tasks)
  have eq: "h' = h\<lparr>hs_tasks := xs @ ys, hs_attachments := (hs_attachments h)[?a :=
      (hs_attachments h ! ?a)\<lparr>ap_controllers := AList.delete ?i (ap_controllers (hs_attachments h ! ?a))\<rparr>],
      hs_invalidated := hs_invalidated h @ (if drops_catalog (tk_request t) outcome then [tk_client t] else []),
      hs_posted := hs_posted h @ [(ap_port (hs_attachments h ! ?a), response)]\<rparr>"
    using assms(3) k response by (auto simp: settle_task_def Let_def set_controllers_def t_def xs_def ys_def)
  show "ports_inv h'" using assms(1) a unfolding eq ports_inv_def by simp
  have atts: "hs_attachments h' = (hs_attachments h)[?a := (hs_attachments h ! ?a)
      \<lparr>ap_controllers := AList.delete ?i (ap_controllers (hs_attachments h ! ?a))\<rparr>]" by (simp add: eq)
  have ids: "host_ids b h = host_ids_of b xs @ (if b = ?a then [(?i, tk_controller t)] else []) @ host_ids_of b ys"
    "host_ids b h' = host_ids_of b xs @ host_ids_of b ys" for b
    by (simp_all add: host_ids_def host_ids_of_def tasks eq)
  have old: "distinct (map fst (host_ids ?a h))" "set (ap_controllers (hs_attachments h ! ?a)) = set (host_ids ?a h)"
    "distinct (map fst (ap_controllers (hs_attachments h ! ?a)))"
    using assms(2) a by (simp_all add: tasks_inv_def)
  have "set (AList.delete ?i (ap_controllers (hs_attachments h ! ?a))) = set (host_ids_of ?a xs @ host_ids_of ?a ys)"
    by (rule delete_entry [where c = "tk_controller t"]) (use old(1,2) in \<open>auto simp: ids\<close>)
  then have cs: "set (ap_controllers (hs_attachments h' ! ?a)) = set (host_ids ?a h')"
    "distinct (map fst (ap_controllers (hs_attachments h' ! ?a)))"
    unfolding ids atts using a old(3) by (simp_all add: distinct_delete)
  have each: "distinct (map fst (host_ids b h')) \<and> distinct (map fst (ap_controllers (hs_attachments h' ! b))) \<and>
      set (ap_controllers (hs_attachments h' ! b)) = set (host_ids b h')" if b: "b < length (hs_attachments h)" for b
  proof (cases "b = ?a")
    case True
    moreover have "distinct (map fst (host_ids ?a h'))" using old(1) unfolding ids by auto
    ultimately show ?thesis using cs by simp
  next
    case False
    then have "hs_attachments h' ! b = hs_attachments h ! b" "host_ids b h' = host_ids b h" by (simp_all add: atts ids)
    with assms(2) b show ?thesis by (simp add: tasks_inv_def)
  qed
  have "set (hs_tasks h') \<subseteq> set (hs_tasks h)" "length (hs_attachments h') = length (hs_attachments h)"
    "hs_closed h' = hs_closed h" "hs_aborted h' = hs_aborted h" by (auto simp: eq tasks)
  moreover have "ap_port (hs_attachments h' ! b) = ap_port (hs_attachments h ! b)" for b using a by (simp add: eq)
  ultimately show "tasks_inv h'"
    using assms(2) each unfolding tasks_inv_def by (simp add: subset_eq)
qed

lemma onRequest_inv:
  assumes "ports_inv h" "tasks_inv h" and "host_step (Request a r) h = Some h'" and "input_fresh (Request a r) h"
  shows "ports_inv h'" "tasks_inv h'"
proof -
  have "a < length (hs_attachments h)" "ap_port (hs_attachments h ! a) \<notin> set (hs_closed h)" "h' = onRequest a r h"
    using assms(3) by (auto split: if_splits)
  then show "ports_inv h'" "tasks_inv h'"
    using assms(4) by (cases r; simp add: begin_task_inv [OF assms(1,2)] cancel_inv [OF assms(1,2)])+
qed

definition host_inv :: "(host_control \<times> nat option) list \<Rightarrow> ('p, 'r, 's) host \<Rightarrow> bool" where
  "host_inv cs h \<longleftrightarrow> ports_inv h \<and> tasks_inv h \<and>
     set (map ap_port (hs_attachments h)) = set (queue_ports cs) \<and> set (hs_closed h) \<subseteq> set (queue_ports cs)"

lemma step_attachments:
  assumes "host_step i h = Some h'" and "control_of i = []" and "tasks_inv h"
  shows "map ap_port (hs_attachments h') = map ap_port (hs_attachments h) \<and> hs_closed h' = hs_closed h"
proof (cases i)
  case (Request a r)
  with assms(1) have h': "a < length (hs_attachments h)" "h' = onRequest a r h" by (auto split: if_splits)
  have "map ap_port (hs_attachments (begin_task a r c h)) = map ap_port (hs_attachments h) \<and>
      hs_closed (begin_task a r c h) = hs_closed h" for r c
    by (rule begin_task_eq [of a r c h]) (simp add: h'(1))
  with h'(2) show ?thesis by (cases r) (simp_all add: runCancel_def split: option.split)
next
  case (Settle k outcome)
  with assms(1,3) have "tk_attached (hs_tasks h ! k) < length (hs_attachments h)"
    by (auto simp: tasks_inv_def settle_task_def split: if_splits)
  with assms(1) Settle show ?thesis by (auto simp: settle_task_def Let_def set_controllers_def split: if_splits)
qed (use assms(2) in simp)

lemma detach_closed:
  assumes "ports_inv h"
  shows "set (hs_closed (host_detach w h)) \<subseteq> set (hs_closed h) \<union> set (map ap_port (hs_attachments h))"
proof (cases "map_of (hs_ports h) w")
  case (Some a)
  then have "(w, a) \<in> set (hs_ports h)" by (rule map_of_SomeD)
  then have "a < length (hs_attachments h)" using assms by (auto simp: ports_inv_def)
  with Some show ?thesis by (simp add: host_detach_def subset_insertI)
qed (simp add: host_detach_def)

lemma host_step_inv:
  assumes "host_inv cs h" and "host_step i h = Some h'" and "input_fresh i h"
    and "serve (attachedWindowIds h) (map fst (control_of i)) \<noteq> None"
    and "distinct (queue_ports (cs @ control_of i))"
    and "\<forall>c \<in> set (control_of i). is_attach (fst c) \<or> snd c = None"
  shows "host_inv (cs @ control_of i) h'"
proof (cases i)
  case (Control c)
  show ?thesis
  proof (cases "(c, h)" rule: onControl.cases)
    case (1 w port h)
    have new: "w \<notin> attachedWindowIds h" "port \<notin> set (map ap_port (hs_attachments h))" "port \<notin> set (hs_closed h)"
      using 1 assms(1,4,5) Control by (auto simp: host_inv_def split: if_splits)
    moreover have "h' = host_attach w port h" "control_of i = [(Attach w, Some port)]" using 1 Control assms(2) by simp_all
    moreover have "map ap_port (hs_attachments (host_attach w port h)) = map ap_port (hs_attachments h) @ [port]"
      "hs_closed (host_attach w port h) = hs_closed h" by (simp_all add: host_attach_def)
    moreover have inv: "ports_inv h" "tasks_inv h" "set (map ap_port (hs_attachments h)) = set (queue_ports cs)"
      "set (hs_closed h) \<subseteq> set (queue_ports cs)" using 1 assms(1) by (simp_all add: host_inv_def)
    moreover note attach_inv [OF inv(1,2) new]
    ultimately show ?thesis unfolding host_inv_def by (simp add: subset_insertI2)
  next
    case (2 w h)
    with Control assms(2) show ?thesis by simp
  next
    case (3 w port h)
    have "port = None" using 3 Control assms(6) by simp
    moreover have "set (hs_closed (host_detach w h)) \<subseteq> set (hs_closed h) \<union> set (map ap_port (hs_attachments h))"
      using detach_closed [of h w] assms(1) 3 by (simp add: host_inv_def)
    moreover have "hs_attachments (host_detach w h) = hs_attachments h" by (simp add: host_detach_def split: option.split)
    moreover have inv: "ports_inv h" "tasks_inv h" "set (map ap_port (hs_attachments h)) = set (queue_ports cs)"
      "set (hs_closed h) \<subseteq> set (queue_ports cs)" "h' = host_detach w h" "control_of i = [(Detach w, port)]"
      using 3 Control assms(1,2) by (simp_all add: host_inv_def)
    moreover note detach_inv [OF inv(1,2), of w]
    ultimately show ?thesis unfolding host_inv_def by auto
  qed
next
  case (Request a r)
  then have "control_of i = []" by simp
  with step_attachments [OF assms(2) this] onRequest_inv [of h a r h'] Request assms(1-3) show ?thesis
    by (simp add: host_inv_def)
next
  case (Settle k outcome)
  then have "control_of i = []" by simp
  with step_attachments [OF assms(2) this] settle_inv [of h k outcome h'] Settle assms(1,2) show ?thesis
    by (simp add: host_inv_def)
qed

lemma host_run_inv:
  assumes "host_inv cs h" and "host_run inputs h = Some h'" and "inputs_fresh inputs h"
    and "serve (attachedWindowIds h) (map fst (host_controls inputs)) \<noteq> None"
    and "distinct (queue_ports (cs @ host_controls inputs))"
    and "\<forall>c \<in> set (host_controls inputs). is_attach (fst c) \<or> snd c = None"
  shows "host_inv (cs @ host_controls inputs) h'"
  using assms
proof (induction inputs arbitrary: cs h)
  case (Cons i inputs)
  then obtain h1 where h1: "host_step i h = Some h1" "host_run inputs h1 = Some h'"
    by (auto simp: host_run_def bind_eq_Some_conv)
  obtain A where A: "serve (attachedWindowIds h) (map fst (control_of i)) = Some A"
      "serve A (map fst (host_controls inputs)) \<noteq> None"
    using Cons.prems(4) by (auto simp: host_controls_def bind_eq_None_conv split: bind_splits)
  have "host_inv (cs @ control_of i) h1"
    using Cons.prems h1 A by (intro host_step_inv) (auto simp: host_controls_def)
  moreover have "attachedWindowIds h1 = A" by (rule query_host.serves [OF h1(1) A(1)])
  ultimately have "host_inv ((cs @ control_of i) @ host_controls inputs) h'"
    using Cons.prems h1 A(2) by (intro Cons.IH) (auto simp: host_controls_def)
  then show ?case by (simp add: host_controls_def)
qed (simp add: host_run_def host_controls_def)

section \<open>Properties\<close>

text \<open>What the launcher has posted to a child, with the ports transferred.\<close>

definition posted_to :: "nat \<Rightarrow> effect list \<Rightarrow> (host_control \<times> nat option) list" where
  "posted_to child es = concat (map (\<lambda>e. case e of Posted c m port \<Rightarrow> if c = child then [(m, port)] else [] | _ \<Rightarrow> []) es)"

lemma posted_to_Cons [simp]:
  "posted_to child [] = []"
  "posted_to child (e # es) = (case e of Posted c m port \<Rightarrow> if c = child then [(m, port)] else [] | _ \<Rightarrow> []) @ posted_to child es"
  by (simp_all add: posted_to_def)

lemma posted_to_controls: "map fst (posted_to child es) = controls child es"
proof (induction es)
  case (Cons e es)
  then show ?case by (cases e) simp_all
qed simp

lemma posted_to_ports: "mset (queue_ports (posted_to child es)) \<subseteq># mset (ports1 es)"
proof (induction es)
  case (Cons e es)
  show ?case
  proof (cases e)
    case (Posted c m port)
    with Cons.IH show ?thesis by (cases port) (auto intro: subset_mset.order_trans)
  qed (use Cons.IH in \<open>auto intro: subset_mset.order_trans\<close>)
qed simp

lemma posted_to_ok: "\<forall>e \<in> set es. post_ok e \<Longrightarrow> \<forall>c \<in> set (posted_to child es). is_attach (fst c) \<or> snd c = None"
proof (induction es)
  case (Cons e es)
  then show ?case by (cases e) auto
qed simp

lemma distinct_sub_mset:
  assumes "mset xs \<subseteq># mset ys" and "distinct ys"
  shows "distinct xs"
proof -
  have "count (mset xs) a = (if a \<in> set xs then 1 else 0)" for a
  proof (cases "a \<in> set xs")
    case True
    then have "count (mset xs) a \<ge> 1" by (metis Suc_leI count_greater_zero_iff set_mset_mset One_nat_def)
    moreover have "count (mset xs) a \<le> count (mset ys) a" using assms(1) by (rule mset_subset_eq_count)
    moreover have "count (mset ys) a \<le> 1" using assms(2) by (simp add: distinct_count_atmost_1)
    ultimately have "count (mset xs) a = 1" by linarith
    with True show ?thesis by simp
  qed (simp add: count_mset_0_iff)
  then show ?thesis by (simp add: distinct_count_atmost_1)
qed

text \<open>C11: The host the launcher drives loses no port and no request: a port it was handed is closed exactly when its window
  has no attachment to it any more, every request in flight on a closed port has been aborted, cancelling reaches the
  controller of the very request, and a host that has taken all its messages has attached the windows the launcher
  believes it has.\<close>

theorem host_serves_the_launcher:
  assumes "launcher_reachable l" and "posted_to c (lh_effects l) = host_controls inputs @ rest"
    and "host_run inputs host_new = Some h" and "inputs_fresh inputs host_new"
  shows "(\<forall>a < length (hs_attachments h).
      ap_port (hs_attachments h ! a) \<in> set (hs_closed h) \<longleftrightarrow> a \<notin> snd ` set (hs_ports h)) \<and>
    (\<forall>t \<in> set (hs_tasks h).
      (ap_port (hs_attachments h ! tk_attached t) \<in> set (hs_closed h) \<longrightarrow> tk_controller t \<in> set (hs_aborted h)) \<and>
      runCancel (tk_attached t) (request_id (tk_request t)) h = h\<lparr>hs_aborted := hs_aborted h @ [tk_controller t]\<rparr>) \<and>
    (lh_state l = HostReady \<and> lh_child l = Some c \<and> rest = [] \<longrightarrow> attachedWindowIds h = set (lh_attached l))"
proof -
  have launcher: "ports_ok l" "streams_ok l" using launcher_reachable_inv [OF assms(1)] by (simp_all add: launcher_inv_def)
  have stream: "map fst (host_controls inputs) @ map fst rest = controls c (lh_effects l)"
    using posted_to_controls [of c "lh_effects l"] assms(2) by simp
  then have served: "serve {} (map fst (host_controls inputs)) \<noteq> None"
    using launcher(2) serve_append [of "{}" "map fst (host_controls inputs)" "map fst rest"] unfolding streams_ok_def
    by (metis bind.bind_lzero)
  have "mset (queue_ports (posted_to c (lh_effects l))) \<subseteq># mset [0..<lh_nextPort l]"
    using posted_to_ports [of c "lh_effects l"] launcher(1) unfolding ports_ok_def
    by (metis mset_subset_eq_add_left subset_mset.order_trans)
  then have "distinct (queue_ports (host_controls inputs) @ queue_ports rest)"
    by (metis assms(2) distinct_upt effects_append(4) distinct_sub_mset)
  then have "distinct (queue_ports ([] @ host_controls inputs))" by simp
  moreover have "\<forall>x \<in> set (host_controls inputs). is_attach (fst x) \<or> snd x = None"
    using posted_to_ok [of "lh_effects l" c] launcher(1) assms(2) by (auto simp: ports_ok_def)
  moreover have "attachedWindowIds (host_new :: ('a, 'b, 'c) host) = {}" by (simp add: attachedWindowIds_def host_new_def)
  moreover have "host_inv [] (host_new :: ('a, 'b, 'c) host)" by (simp add: host_inv_def ports_inv_def tasks_inv_def host_new_def)
  ultimately have inv: "ports_inv h" "tasks_inv h"
    using host_run_inv [of "[]" host_new inputs h] assms(3,4) served by (simp_all add: host_inv_def)
  have cancel: "runCancel (tk_attached t) (request_id (tk_request t)) h = h\<lparr>hs_aborted := hs_aborted h @ [tk_controller t]\<rparr>"
    if t: "t \<in> set (hs_tasks h)" for t
  proof -
    have "tk_attached t < length (hs_attachments h)" using inv(2) t by (simp add: tasks_inv_def)
    then have "distinct (map fst (ap_controllers (hs_attachments h ! tk_attached t)))"
      "(request_id (tk_request t), tk_controller t) \<in> set (ap_controllers (hs_attachments h ! tk_attached t))"
      using inv(2) t by (auto simp: tasks_inv_def host_ids_def)
    then show ?thesis by (simp add: runCancel_def)
  qed
  have "attachedWindowIds h = set (lh_attached l)" if "lh_state l = HostReady" "lh_child l = Some c" "rest = []"
  proof (rule query_host.run_attached)
    show "each_opt host_step inputs host_new = Some h" using assms(3) by (simp add: host_run_def)
    show "serve (attachedWindowIds (host_new :: ('a, 'b, 'c) host)) (concat (map (\<lambda>i. map fst (control_of i)) inputs)) =
        Some (set (lh_attached l))"
      using launcher(2) stream that
      by (simp add: streams_ok_def attachedWindowIds_def host_new_def host_controls_def map_concat comp_def)
  qed
  with inv cancel show ?thesis unfolding ports_inv_def tasks_inv_def by blast
qed

definition reload_run :: "launcher_input list" where
  "reload_run = [StartRequested True 0, PortRequested 7, Spawned 0, PortRequested 8, PortRequested 7]"

definition reload_inputs :: "(nat, nat, nat) host_input list" where
  "reload_inputs = [Control (Attach 7, Some 0), Request 0 (DescribeRequest [1] ([2], 3) [4] [5]), Control (Attach 8, Some 1),
     Request 1 (ExecuteRequest [1] ([2], 3) [6] \<lparr>pw_limit = Some 5, pw_offset = 0\<rparr> paged), Control (Detach 7, None), Control (Attach 7, Some 2)]"

lemma host_serves_the_launcher_witness:
  "\<exists>h :: (nat, nat, nat) host. hs_aborted h = [0] \<and> hs_closed h = [0] \<and> attachedWindowIds h = {7, 8}"
proof -
  have "map_option (\<lambda>l. (posted_to 0 (lh_effects l), lh_state l, lh_child l, lh_attached l)) (launcher_run reload_run launcher_new) =
      Some (host_controls reload_inputs, HostReady, Some 0, [7, 8])"
    by code_simp
  then obtain l where l: "launcher_run reload_run launcher_new = Some l" "posted_to 0 (lh_effects l) = host_controls reload_inputs @ []"
      "lh_state l = HostReady" "lh_child l = Some 0" "lh_attached l = [7, 8]"
    by auto
  have "map_option (\<lambda>h. (hs_aborted h, hs_closed h)) (host_run reload_inputs host_new) = Some ([0], [0])" by code_simp
  then obtain h where h: "host_run reload_inputs host_new = Some h" "hs_aborted h = [0]" "hs_closed h = [0]" by auto
  have "inputs_fresh reload_inputs host_new" by code_simp
  from host_serves_the_launcher [OF launcher_run_reachable [OF l(1) launcher_reachable.new] l(2) h(1) this] l(3-5) h
  show ?thesis by auto
qed

end
