(* ===== verification/Query_Port.thy ===== *)
theory Query_Port
  imports Query_Host
begin

text \<open>
  \<open>ql-tool-app/src/renderer/query/QueryPortClient.ts\<close> and \<open>QueryPortError.ts\<close>: the window's side of the query port.
  Calls wait in a table under their request id; a promise is a number, and what settled it is recorded once for each
  \<open>resolve\<close> or \<open>reject\<close>. A port is a number; the messages posted to it name the call they are for.
\<close>

section \<open>The state\<close>

datatype port_status = Connecting | Connected | PortFailed

record 'p pending_call =
  pc_request :: "'p host_request"
  pc_deferred :: nat
  pc_sent :: bool

datatype ('r, 's) settlement = Resolved "('r, 's) host_response" | Rejected query_failure

datatype 'p port_message = CallMessage nat "'p host_request" | CancelMessage utf16

record ('p, 'r, 's) port_client =
  pt_port :: "nat option"
  pt_status :: port_status
  pt_pending :: "(utf16 \<times> 'p pending_call) list"
  pt_listening :: bool
  pt_notified :: "port_status list"
  pt_deferreds :: nat
  pt_settled :: "(nat \<times> ('r, 's) settlement) list"
  pt_posted :: "(nat \<times> 'p port_message) list"
  pt_closed :: "nat list"
  pt_portRequests :: nat
  pt_restarts :: nat

definition port_new :: "('p, 'r, 's) port_client" where
  "port_new = \<lparr>pt_port = None, pt_status = Connecting, pt_pending = [], pt_listening = False, pt_notified = [], pt_deferreds = 0,
     pt_settled = [], pt_posted = [], pt_closed = [], pt_portRequests = 0, pt_restarts = 0\<rparr>"

definition HostRestarted :: utf16 where "HostRestarted = lit ''query host restarted''"

definition HostExited :: utf16 where "HostExited = lit ''query host exited''"

definition HostFailed :: utf16 where "HostFailed = lit ''query host failed''"

definition lost :: "utf16 \<Rightarrow> query_failure" where
  "lost message = transportFailure message"

section \<open>Helpers\<close>

definition setStatus :: "port_status \<Rightarrow> ('p, 'r, 's) port_client \<Rightarrow> ('p, 'r, 's) port_client" where
  "setStatus status c =
     (if pt_status c = status then c else c\<lparr>pt_status := status, pt_notified := pt_notified c @ [status]\<rparr>)"

definition rejectWhere :: "('p pending_call \<Rightarrow> bool) \<Rightarrow> utf16 \<Rightarrow> ('p, 'r, 's) port_client \<Rightarrow> ('p, 'r, 's) port_client" where
  "rejectWhere predicate message c =
     c\<lparr>pt_pending := filter (\<lambda>(i, call). \<not> predicate call) (pt_pending c),
       pt_settled := pt_settled c @ map (\<lambda>(i, call). (pc_deferred call, Rejected (lost message)))
                                      (filter (\<lambda>(i, call). predicate call) (pt_pending c))\<rparr>"

definition dropPort :: "('p, 'r, 's) port_client \<Rightarrow> ('p, 'r, 's) port_client" where
  "dropPort c = (case pt_port c of None \<Rightarrow> c | Some p \<Rightarrow> c\<lparr>pt_port := None, pt_closed := pt_closed c @ [p]\<rparr>)"

text \<open>\<open>send\<close> marks the call before it posts; posting on no port throws, and the mark stays.\<close>

definition send_call :: "utf16 \<Rightarrow> 'p pending_call \<Rightarrow> ('p, 'r, 's) port_client \<Rightarrow> ('p, 'r, 's) port_client \<times> bool" where
  "send_call i call c =
     (if pc_sent call then (c, True)
      else (let c' = c\<lparr>pt_pending := AList.update i (call\<lparr>pc_sent := True\<rparr>) (pt_pending c)\<rparr>
            in case pt_port c' of
                 None \<Rightarrow> (c', False)
               | Some p \<Rightarrow> (c'\<lparr>pt_posted := pt_posted c' @ [(p, CallMessage (pc_deferred call) (pc_request call))]\<rparr>, True)))"

section \<open>Operations\<close>

definition port_start :: "('p, 'r, 's) port_client \<Rightarrow> ('p, 'r, 's) port_client" where
  "port_start c = c\<lparr>pt_listening := True, pt_portRequests := pt_portRequests c + 1\<rparr>"

datatype call_result = CallRejected query_failure | CallPending nat | CallThrew

definition port_call :: "'p host_request \<Rightarrow> ('p, 'r, 's) port_client \<Rightarrow> ('p, 'r, 's) port_client \<times> call_result" where
  "port_call request c =
     (if pt_status c = PortFailed then (c, CallRejected (lost HostFailed))
      else (let d = pt_deferreds c;
                call = \<lparr>pc_request = request, pc_deferred = d, pc_sent = False\<rparr>;
                c1 = c\<lparr>pt_deferreds := Suc d, pt_pending := AList.update (request_id request) call (pt_pending c)\<rparr>
            in if pt_status c = Connected
               then (let (c2, posted) = send_call (request_id request) call c1
                     in (c2, if posted then CallPending d else CallThrew))
               else (c1, CallPending d)))"

definition receive :: "('r, 's) host_response \<Rightarrow> ('p, 'r, 's) port_client \<Rightarrow> ('p, 'r, 's) port_client" where
  "receive response c =
     (case map_of (pt_pending c) (response_id response) of
        None \<Rightarrow> c
      | Some call \<Rightarrow>
          c\<lparr>pt_pending := AList.delete (response_id response) (pt_pending c),
            pt_settled := pt_settled c @
              [(pc_deferred call, case response of FailedResponse i f \<Rightarrow> Rejected f | _ \<Rightarrow> Resolved response)]\<rparr>)"

definition cancel :: "utf16 \<Rightarrow> ('p, 'r, 's) port_client \<Rightarrow> ('p, 'r, 's) port_client" where
  "cancel i c =
     (case map_of (pt_pending c) i of
        None \<Rightarrow> c
      | Some call \<Rightarrow>
          if \<not> pc_sent call
          then c\<lparr>pt_pending := AList.delete i (pt_pending c),
                 pt_settled := pt_settled c @ [(pc_deferred call, Rejected cancelledFailure)]\<rparr>
          else (case pt_port c of
                  None \<Rightarrow> c
                | Some p \<Rightarrow> if pt_status c = Connected
                            then c\<lparr>pt_posted := pt_posted c @ [(p, CancelMessage i)]\<rparr> else c))"

definition replacePort :: "nat \<Rightarrow> ('p, 'r, 's) port_client \<Rightarrow> ('p, 'r, 's) port_client" where
  "replacePort p c =
     (let c1 = dropPort (rejectWhere pc_sent HostRestarted c);
          c2 = setStatus Connected (c1\<lparr>pt_port := Some p\<rparr>)
      in fold (\<lambda>(i, call) c. fst (send_call i call c)) (pt_pending c2) c2)"

definition hostExited :: "('p, 'r, 's) port_client \<Rightarrow> ('p, 'r, 's) port_client" where
  "hostExited c =
     (let c1 = setStatus Connecting (dropPort (rejectWhere (\<lambda>_. True) HostExited c))
      in c1\<lparr>pt_portRequests := pt_portRequests c1 + 1\<rparr>)"

definition hostFailed :: "('p, 'r, 's) port_client \<Rightarrow> ('p, 'r, 's) port_client" where
  "hostFailed c = setStatus PortFailed (dropPort (rejectWhere (\<lambda>_. True) HostFailed c))"

definition port_restart :: "('p, 'r, 's) port_client \<Rightarrow> ('p, 'r, 's) port_client" where
  "port_restart c =
     (let c1 = setStatus Connecting (c\<lparr>pt_restarts := pt_restarts c + 1\<rparr>)
      in c1\<lparr>pt_portRequests := pt_portRequests c1 + 1\<rparr>)"

definition port_dispose :: "('p, 'r, 's) port_client \<Rightarrow> ('p, 'r, 's) port_client" where
  "port_dispose c = dropPort (rejectWhere (\<lambda>_. True) HostExited (c\<lparr>pt_listening := False\<rparr>))"

section \<open>What the callers get\<close>

text \<open>\<^const>\<open>None\<close> is the error of a response of the wrong kind.\<close>

fun executed_of :: "('r, 's) host_response \<Rightarrow> 'r execution option" where
  "executed_of (Executed i e) = Some e"
| "executed_of _ = None"

fun snapshotOf :: "('r, 's) host_response \<Rightarrow> 's option" where
  "snapshotOf (Described i s) = Some s"
| "snapshotOf (CatalogLoaded i s) = Some s"
| "snapshotOf _ = None"

fun tested_of :: "('r, 's) host_response \<Rightarrow> (utf16 \<times> nat) option" where
  "tested_of (ConnectionTested i chain head) = Some (chain, head)"
| "tested_of _ = None"

section \<open>Runs\<close>

datatype ('p, 'r, 's) port_input =
  PortStart
| Call "'p host_request"
| Receive nat "('r, 's) host_response"
| Cancel utf16
| PortArrived nat
| HostExitedEvent
| HostFailedEvent
| PortRestart
| PortDispose

text \<open>Responses arrive on the port that is bound, and the events of the bridge while it is listened to.\<close>

fun port_step :: "('p, 'r, 's) port_input \<Rightarrow> ('p, 'r, 's) port_client \<Rightarrow> ('p, 'r, 's) port_client option" where
  "port_step PortStart c = Some (port_start c)"
| "port_step (Call request) c = Some (fst (port_call request c))"
| "port_step (Receive p response) c = (if pt_port c = Some p then Some (receive response c) else None)"
| "port_step (Cancel i) c = Some (cancel i c)"
| "port_step (PortArrived p) c = (if pt_listening c then Some (replacePort p c) else None)"
| "port_step HostExitedEvent c = (if pt_listening c then Some (hostExited c) else None)"
| "port_step HostFailedEvent c = (if pt_listening c then Some (hostFailed c) else None)"
| "port_step PortRestart c = Some (port_restart c)"
| "port_step PortDispose c = Some (port_dispose c)"

text \<open>The windows use a new id for each call.\<close>

fun call_fresh :: "('p, 'r, 's) port_input \<Rightarrow> ('p, 'r, 's) port_client \<Rightarrow> bool" where
  "call_fresh (Call request) c \<longleftrightarrow> request_id request \<notin> fst ` set (pt_pending c)"
| "call_fresh _ c \<longleftrightarrow> True"

inductive port_reachable :: "('p, 'r, 's) port_client \<Rightarrow> bool" where
  new: "port_reachable port_new"
| step: "port_reachable c \<Longrightarrow> call_fresh i c \<Longrightarrow> port_step i c = Some c' \<Longrightarrow> port_reachable c'"

fun port_run :: "('p, 'r, 's) port_input list \<Rightarrow> ('p, 'r, 's) port_client \<Rightarrow> ('p, 'r, 's) port_client option" where
  "port_run [] c = Some c"
| "port_run (i # is) c = (if call_fresh i c then Option.bind (port_step i c) (port_run is) else None)"

section \<open>The invariant\<close>

definition posted_calls :: "(nat \<times> 'p port_message) list \<Rightarrow> nat list" where
  "posted_calls ms = concat (map (\<lambda>(p, m). case m of CallMessage d r \<Rightarrow> [d] | CancelMessage i \<Rightarrow> []) ms)"

lemma posted_calls_simps [simp]:
  "posted_calls [] = []" "posted_calls (ms @ ns) = posted_calls ms @ posted_calls ns"
  "posted_calls ((p, CallMessage d r) # ms) = d # posted_calls ms" "posted_calls ((p, CancelMessage i) # ms) = posted_calls ms"
  by (simp_all add: posted_calls_def)

abbreviation deferreds :: "(utf16 \<times> 'p pending_call) list \<Rightarrow> nat list" where
  "deferreds ps \<equiv> map (pc_deferred \<circ> snd) ps"

definition pending_ok :: "('p, 'r, 's) port_client \<Rightarrow> bool" where
  "pending_ok c \<longleftrightarrow>
     distinct (map fst (pt_pending c)) \<and> (\<forall>(i, call) \<in> set (pt_pending c). request_id (pc_request call) = i) \<and>
     (pt_status c = Connected \<longrightarrow> (\<forall>(i, call) \<in> set (pt_pending c). pc_sent call)) \<and>
     (pt_status c = PortFailed \<longrightarrow> pt_pending c = [] \<and> pt_port c = None)"

definition settled_ok :: "('p, 'r, 's) port_client \<Rightarrow> bool" where
  "settled_ok c \<longleftrightarrow> mset (map fst (pt_settled c)) + mset (deferreds (pt_pending c)) = mset [0..<pt_deferreds c]"

definition posted_ok :: "('p, 'r, 's) port_client \<Rightarrow> bool" where
  "posted_ok c \<longleftrightarrow> distinct (posted_calls (pt_posted c)) \<and> set (posted_calls (pt_posted c)) \<subseteq> {..<pt_deferreds c} \<and>
     (\<forall>(i, call) \<in> set (pt_pending c). \<not> pc_sent call \<longrightarrow> pc_deferred call \<notin> set (posted_calls (pt_posted c)))"

definition port_inv :: "('p, 'r, 's) port_client \<Rightarrow> bool" where
  "port_inv c \<longleftrightarrow> pending_ok c \<and> settled_ok c \<and> posted_ok c"

lemmas port_parts = pending_ok_def settled_ok_def posted_ok_def

lemma distinct_deferreds:
  assumes "settled_ok c"
  shows "distinct (deferreds (pt_pending c))" "set (deferreds (pt_pending c)) \<subseteq> {..<pt_deferreds c}"
    "set (map fst (pt_settled c)) \<inter> set (deferreds (pt_pending c)) = {}"
proof -
  have eq: "mset (map fst (pt_settled c) @ deferreds (pt_pending c)) = mset [0..<pt_deferreds c]"
    using assms by (simp add: settled_ok_def)
  then have "distinct (map fst (pt_settled c) @ deferreds (pt_pending c))"
    by (metis distinct_upt mset_eq_imp_distinct_iff)
  then show "distinct (deferreds (pt_pending c))" "set (map fst (pt_settled c)) \<inter> set (deferreds (pt_pending c)) = {}"
    by simp_all
  from eq have "set (map fst (pt_settled c) @ deferreds (pt_pending c)) = {0..<pt_deferreds c}"
    by (metis mset_eq_setD set_upt)
  then have "set (deferreds (pt_pending c)) \<subseteq> {0..<pt_deferreds c}" unfolding set_append by blast
  then show "set (deferreds (pt_pending c)) \<subseteq> {..<pt_deferreds c}" by (simp only: lessThan_atLeast0)
qed

lemma mset_partition: "mset (map f (filter P xs)) + mset (map f (filter (\<lambda>x. \<not> P x) xs)) = mset (map f xs)"
  by (induction xs) auto

lemma rejectWhere_inv:
  assumes "port_inv c"
  shows "port_inv (rejectWhere P message c)"
proof -
  let ?rest = "filter (\<lambda>(i, call). \<not> P call) (pt_pending c)" and ?gone = "filter (\<lambda>(i, call). P call) (pt_pending c)"
  have "mset (deferreds ?gone) + mset (deferreds ?rest) = mset (deferreds (pt_pending c))"
    using mset_partition [of "pc_deferred \<circ> snd" "\<lambda>(i, call). P call" "pt_pending c"] by (simp add: case_prod_beta)
  moreover have "map fst (map (\<lambda>(i, call). (pc_deferred call, Rejected (lost message) :: ('b, 'c) settlement)) ?gone) = deferreds ?gone"
    by (simp add: comp_def case_prod_beta)
  ultimately have "settled_ok (rejectWhere P message c)"
    using assms by (simp add: port_inv_def settled_ok_def rejectWhere_def comp_def case_prod_beta add.assoc)
  moreover have "pending_ok (rejectWhere P message c)"
    using assms by (auto simp: port_inv_def pending_ok_def rejectWhere_def distinct_map_filter)
  moreover have "posted_ok (rejectWhere P message c)"
    using assms by (auto simp: port_inv_def posted_ok_def rejectWhere_def)
  ultimately show ?thesis by (simp add: port_inv_def)
qed

lemma reject_all: "pt_pending (rejectWhere (\<lambda>_. True) message c) = []"
  by (simp add: rejectWhere_def)

lemma port_status_inv:
  assumes "port_inv c" and "pt_pending c = []"
  shows "port_inv (setStatus status (dropPort c))" "port_inv (dropPort c)"
  using assms by (auto simp: port_inv_def port_parts setStatus_def dropPort_def split: option.splits)

lemma delete_mset:
  assumes "distinct (map fst ps)" and "map_of ps i = Some call"
  shows "mset ps = add_mset (i, call) (mset (AList.delete i ps))"
  using assms
proof (induction ps)
  case (Cons x ps)
  show ?case
  proof (cases "fst x = i")
    case True
    then have "i \<notin> fst ` set ps" using Cons.prems(1) by simp
    then have "AList.delete i ps = ps" by (rule delete_id)
    with True Cons.prems(2) show ?thesis by (cases x) auto
  next
    case False
    with Cons show ?thesis by (cases x) (auto simp: AList.delete_eq)
  qed
qed simp

lemma settle_call_inv:
  assumes "port_inv c" and "map_of (pt_pending c) i = Some call"
  shows "port_inv (c\<lparr>pt_pending := AList.delete i (pt_pending c), pt_settled := pt_settled c @ [(pc_deferred call, outcome)]\<rparr>)"
proof -
  have "distinct (map fst (pt_pending c))" using assms(1) by (simp add: port_inv_def pending_ok_def)
  from delete_mset [OF this assms(2)] have "mset (deferreds (pt_pending c)) =
      add_mset (pc_deferred call) (mset (deferreds (AList.delete i (pt_pending c))))"
    by (metis (no_types, lifting) comp_apply image_mset_add_mset mset_map snd_conv)
  moreover have "set (AList.delete i (pt_pending c)) \<subseteq> set (pt_pending c)" by (auto simp: AList.delete_eq)
  ultimately show ?thesis
    using assms by (auto simp: port_inv_def port_parts distinct_delete simp del: mset_map)
qed

lemma send_call_some:
  "pt_port c = Some p \<Longrightarrow> \<not> pc_sent call \<Longrightarrow> send_call i call c =
     (c\<lparr>pt_pending := AList.update i (call\<lparr>pc_sent := True\<rparr>) (pt_pending c),
        pt_posted := pt_posted c @ [(p, CallMessage (pc_deferred call) (pc_request call))]\<rparr>, True)"
  by (simp add: send_call_def)

lemma update_middle: "i \<notin> fst ` set pre \<Longrightarrow> AList.update i y (pre @ (i, x) # ps) = pre @ (i, y) # ps"
  by (induction pre) auto

lemma flush_calls:
  assumes "pt_port c = Some p" and "pt_pending c = pre @ ps" and "distinct (map fst (pre @ ps))" and "\<forall>(i, call) \<in> set ps. \<not> pc_sent call"
  shows "fold (\<lambda>(i, call) c. fst (send_call i call c)) ps c =
    c\<lparr>pt_pending := pre @ map (\<lambda>(i, call). (i, call\<lparr>pc_sent := True\<rparr>)) ps,
      pt_posted := pt_posted c @ map (\<lambda>(i, call). (p, CallMessage (pc_deferred call) (pc_request call))) ps\<rparr>"
  using assms
proof (induction ps arbitrary: c pre)
  case (Cons x ps)
  obtain i call where x: "x = (i, call)" by fastforce
  let ?c = "c\<lparr>pt_pending := (pre @ [(i, call\<lparr>pc_sent := True\<rparr>)]) @ ps,
      pt_posted := pt_posted c @ [(p, CallMessage (pc_deferred call) (pc_request call))]\<rparr>"
  have "fst (send_call i call c) = ?c"
    using Cons.prems x by (simp add: send_call_some update_middle)
  moreover have "fold (\<lambda>(i, call) c. fst (send_call i call c)) ps ?c =
    ?c\<lparr>pt_pending := (pre @ [(i, call\<lparr>pc_sent := True\<rparr>)]) @ map (\<lambda>(i, call). (i, call\<lparr>pc_sent := True\<rparr>)) ps,
      pt_posted := pt_posted ?c @ map (\<lambda>(i, call). (p, CallMessage (pc_deferred call) (pc_request call))) ps\<rparr>"
    by (rule Cons.IH) (use Cons.prems x in auto)
  ultimately show ?case by (simp add: x)
qed simp

lemma replacePort_eq:
  assumes "port_inv c"
  defines "unsent \<equiv> filter (\<lambda>(i, call). \<not> pc_sent call) (pt_pending c)"
  shows "pt_pending (replacePort p c) = map (\<lambda>(i, call). (i, call\<lparr>pc_sent := True\<rparr>)) unsent"
    "pt_posted (replacePort p c) = pt_posted c @ map (\<lambda>(i, call). (p, CallMessage (pc_deferred call) (pc_request call))) unsent"
    "pt_port (replacePort p c) = Some p" "pt_status (replacePort p c) = Connected"
    "pt_settled (replacePort p c) = pt_settled c @ map (\<lambda>(i, call). (pc_deferred call, Rejected (lost HostRestarted)))
       (filter (\<lambda>(i, call). pc_sent call) (pt_pending c))"
    "pt_deferreds (replacePort p c) = pt_deferreds c"
proof -
  define c2 where "c2 = setStatus Connected ((dropPort (rejectWhere pc_sent HostRestarted c))\<lparr>pt_port := Some p\<rparr>)"
  have c2: "pt_pending c2 = unsent" "pt_port c2 = Some p" "pt_status c2 = Connected" "pt_posted c2 = pt_posted c"
    "pt_settled c2 = pt_settled c @ map (\<lambda>(i, call). (pc_deferred call, Rejected (lost HostRestarted)))
       (filter (\<lambda>(i, call). pc_sent call) (pt_pending c))" "pt_deferreds c2 = pt_deferreds c"
    by (auto simp: c2_def setStatus_def dropPort_def rejectWhere_def unsent_def split: option.split)
  have "distinct (map fst unsent)" using assms(1) by (simp add: port_inv_def pending_ok_def unsent_def distinct_map_filter)
  then have "replacePort p c = c2\<lparr>pt_pending := [] @ map (\<lambda>(i, call). (i, call\<lparr>pc_sent := True\<rparr>)) unsent,
      pt_posted := pt_posted c2 @ map (\<lambda>(i, call). (p, CallMessage (pc_deferred call) (pc_request call))) unsent\<rparr>"
    unfolding replacePort_def Let_def c2_def [symmetric] c2(1)
    by (intro flush_calls) (use c2 in \<open>auto simp: unsent_def\<close>)
  with c2 show "pt_pending (replacePort p c) = map (\<lambda>(i, call). (i, call\<lparr>pc_sent := True\<rparr>)) unsent"
    "pt_posted (replacePort p c) = pt_posted c @ map (\<lambda>(i, call). (p, CallMessage (pc_deferred call) (pc_request call))) unsent"
    "pt_port (replacePort p c) = Some p" "pt_status (replacePort p c) = Connected"
    "pt_settled (replacePort p c) = pt_settled c @ map (\<lambda>(i, call). (pc_deferred call, Rejected (lost HostRestarted)))
       (filter (\<lambda>(i, call). pc_sent call) (pt_pending c))"
    "pt_deferreds (replacePort p c) = pt_deferreds c"
    by simp_all
qed

lemma posted_calls_map: "posted_calls (map (\<lambda>(i, call). (p, CallMessage (pc_deferred call) (pc_request call))) ps) = deferreds ps"
  by (induction ps) auto

lemma replacePort_inv:
  assumes "port_inv c"
  shows "port_inv (replacePort p c)"
proof -
  note eqs = replacePort_eq [OF assms]
  let ?unsent = "filter (\<lambda>(i, call). \<not> pc_sent call) (pt_pending c)" and ?sent = "filter (\<lambda>(i, call). pc_sent call) (pt_pending c)"
  have parts: "pending_ok c" "settled_ok c" "posted_ok c" using assms by (simp_all add: port_inv_def)
  note ds = distinct_deferreds [OF parts(2)]
  have "mset (deferreds ?sent) + mset (deferreds ?unsent) = mset (deferreds (pt_pending c))"
    using mset_partition [of "pc_deferred \<circ> snd" "\<lambda>(i, call). pc_sent call" "pt_pending c"] by (simp add: case_prod_beta)
  then have "settled_ok (replacePort p c)"
    using parts(2) by (simp add: settled_ok_def eqs comp_def case_prod_beta add.assoc)
  moreover have "pending_ok (replacePort p c)"
    using parts(1) by (auto simp: pending_ok_def eqs comp_def case_prod_beta distinct_map_filter)
  moreover have "posted_ok (replacePort p c)"
    unfolding posted_ok_def eqs posted_calls_simps posted_calls_map
    using parts(3) ds(1,2) by (auto simp: posted_ok_def distinct_map_filter)
  ultimately show ?thesis by (simp add: port_inv_def)
qed

lemma port_call_inv:
  assumes "port_inv c" and "request_id request \<notin> fst ` set (pt_pending c)"
  shows "port_inv (fst (port_call request c))"
proof (cases "pt_status c = PortFailed")
  case False
  let ?d = "pt_deferreds c"
  have parts: "pending_ok c" "settled_ok c" "posted_ok c" using assms by (simp_all add: port_inv_def)
  have eq: "fst (port_call request c) =
      c\<lparr>pt_deferreds := Suc ?d,
        pt_pending := pt_pending c @ [(request_id request, \<lparr>pc_request = request, pc_deferred = ?d, pc_sent = (pt_status c = Connected)\<rparr>)],
        pt_posted := pt_posted c @ (case pt_port c of Some p \<Rightarrow> if pt_status c = Connected then [(p, CallMessage ?d request)] else [] | None \<Rightarrow> [])\<rparr>"
    using False assms(2) by (auto simp: port_call_def Let_def send_call_def update_new update_middle case_prod_beta split: option.split)
  have fresh: "?d \<notin> set (posted_calls (pt_posted c))" using parts(3) by (auto simp: posted_ok_def)
  have "pending_ok (fst (port_call request c))"
    using parts(1) assms(2) False by (auto simp: eq pending_ok_def)
  moreover have "settled_ok (fst (port_call request c))" using parts(2) by (simp add: eq settled_ok_def)
  moreover have "posted_ok (fst (port_call request c))"
    using parts(3) fresh distinct_deferreds(2) [OF parts(2)] by (auto simp: eq posted_ok_def split: option.splits)
  ultimately show ?thesis by (simp add: port_inv_def)
qed (use assms in \<open>simp add: port_call_def\<close>)

lemma port_step_inv:
  assumes "port_inv c" and "call_fresh i c" and "port_step i c = Some c'"
  shows "port_inv c'"
proof (cases i)
  case (Receive p response)
  with assms(3) have "c' = receive response c" by (simp split: if_splits)
  then show ?thesis
    using assms(1) settle_call_inv [OF assms(1)] by (simp add: receive_def split: option.split)
next
  case (Cancel i)
  with assms(3) have "c' = cancel i c" by simp
  moreover have "port_inv (c\<lparr>pt_posted := pt_posted c @ [(p, CancelMessage i)]\<rparr>)" for p
    using assms(1) by (simp add: port_inv_def port_parts)
  ultimately show ?thesis
    using assms(1) settle_call_inv [OF assms(1)] by (simp add: cancel_def split: option.split)
next
  case HostExitedEvent
  with assms(3) have "c' = hostExited c" by (simp split: if_splits)
  then show ?thesis
    using port_status_inv(1) [OF rejectWhere_inv [OF assms(1)] reject_all, of Connecting]
    by (simp add: hostExited_def Let_def port_inv_def port_parts)
next
  case HostFailedEvent
  with assms(3) have "c' = hostFailed c" by (simp split: if_splits)
  then show ?thesis
    using port_status_inv(1) [OF rejectWhere_inv [OF assms(1)] reject_all] by (simp add: hostFailed_def)
next
  case PortDispose
  with assms(3) have "c' = port_dispose c" by simp
  moreover have "port_inv (c\<lparr>pt_listening := False\<rparr>)" using assms(1) by (simp add: port_inv_def port_parts)
  ultimately show ?thesis
    using port_status_inv(2) [OF rejectWhere_inv reject_all] by (simp add: port_dispose_def)
next
  case PortStart
  with assms(3) have "c' = port_start c" by simp
  with assms(1) show ?thesis by (simp add: port_start_def port_inv_def port_parts)
next
  case PortRestart
  with assms(3) have "c' = port_restart c" by simp
  with assms(1) show ?thesis by (simp add: port_restart_def Let_def setStatus_def port_inv_def port_parts)
next
  case (PortArrived p)
  with assms(3) have "c' = replacePort p c" by (simp split: if_splits)
  with replacePort_inv [OF assms(1)] show ?thesis by simp
next
  case (Call request)
  with assms(2,3) have "c' = fst (port_call request c)" "request_id request \<notin> fst ` set (pt_pending c)" by simp_all
  with port_call_inv [OF assms(1)] show ?thesis by simp
qed

lemma port_new_inv: "port_inv port_new"
  by (simp add: port_inv_def port_parts port_new_def)

lemma port_reachable_inv: "port_reachable c \<Longrightarrow> port_inv c"
  by (induction rule: port_reachable.induct) (auto intro: port_new_inv port_step_inv)

section \<open>Properties\<close>

lemma port_run_reachable: "port_run is c = Some c' \<Longrightarrow> port_reachable c \<Longrightarrow> port_reachable c'"
  by (induction "is" c rule: port_run.induct) (auto simp: bind_eq_Some_conv split: if_splits intro: port_reachable.step)

text \<open>C14: No call is lost and none is answered twice, through every loss, crash and replacement of the port: each promise is
  either waiting in the table or was settled exactly once, no call is posted twice, and when a new port arrives the calls
  sent on the old one are rejected and the queued ones go out on it in order.\<close>

theorem port_calls_settle_once:
  assumes "port_reachable c"
  shows "mset (map fst (pt_settled c)) + mset (map (pc_deferred \<circ> snd) (pt_pending c)) = mset [0..<pt_deferreds c] \<and>
    distinct (posted_calls (pt_posted c)) \<and>
    pt_posted (replacePort p c) = pt_posted c @ map (\<lambda>(i, call). (p, CallMessage (pc_deferred call) (pc_request call)))
      (filter (\<lambda>(i, call). \<not> pc_sent call) (pt_pending c)) \<and>
    pt_settled (replacePort p c) = pt_settled c @ map (\<lambda>(i, call). (pc_deferred call, Rejected (lost HostRestarted)))
      (filter (\<lambda>(i, call). pc_sent call) (pt_pending c))"
  using port_reachable_inv [OF assms] replacePort_eq(2,5) [OF port_reachable_inv [OF assms]]
  by (simp add: port_inv_def settled_ok_def posted_ok_def)

definition busy_window :: "(nat, nat, nat) port_input list" where
  "busy_window = [PortStart, Call (LoadOwnerRequest [1] ([9], 0) [5]), PortArrived 4, Call (ExecuteRequest [2] ([9], 0) [6] \<lparr>pw_limit = Some 5, pw_offset = 0\<rparr> paged),
     Receive 4 (CatalogLoaded [1] 8), PortRestart, Call (ExecuteRequest [3] ([9], 0) [6] \<lparr>pw_limit = Some 5, pw_offset = 0\<rparr> paged)]"

lemma port_calls_settle_once_witness:
  "\<exists>c :: (nat, nat, nat) port_client. pt_pending c \<noteq> [] \<and> distinct (posted_calls (pt_posted c)) \<and>
    pt_posted (replacePort 5 c) = [(4, CallMessage 0 (LoadOwnerRequest [1] ([9], 0) [5])), (4, CallMessage 1 (ExecuteRequest [2] ([9], 0) [6] \<lparr>pw_limit = Some 5, pw_offset = 0\<rparr> paged)),
      (5, CallMessage 2 (ExecuteRequest [3] ([9], 0) [6] \<lparr>pw_limit = Some 5, pw_offset = 0\<rparr> paged))]"
proof -
  have "map_option (\<lambda>c. (pt_pending c \<noteq> [], pt_posted c, filter (\<lambda>(i, call). \<not> pc_sent call) (pt_pending c)))
      (port_run busy_window port_new) =
    Some (True, [(4, CallMessage 0 (LoadOwnerRequest [1] ([9], 0) [5])), (4, CallMessage 1 (ExecuteRequest [2] ([9], 0) [6] \<lparr>pw_limit = Some 5, pw_offset = 0\<rparr> paged))],
      [([3], \<lparr>pc_request = ExecuteRequest [3] ([9], 0) [6] \<lparr>pw_limit = Some 5, pw_offset = 0\<rparr> paged, pc_deferred = 2, pc_sent = False\<rparr>)])"
    by code_simp
  then obtain c where run: "port_run busy_window port_new = Some c"
    and c: "pt_pending c \<noteq> []" "pt_posted c = [(4, CallMessage 0 (LoadOwnerRequest [1] ([9], 0) [5])), (4, CallMessage 1 (ExecuteRequest [2] ([9], 0) [6] \<lparr>pw_limit = Some 5, pw_offset = 0\<rparr> paged))]"
      "filter (\<lambda>(i, call). \<not> pc_sent call) (pt_pending c) =
        [([3], \<lparr>pc_request = ExecuteRequest [3] ([9], 0) [6] \<lparr>pw_limit = Some 5, pw_offset = 0\<rparr> paged, pc_deferred = 2, pc_sent = False\<rparr>)]"
    by auto
  from port_calls_settle_once [OF port_run_reachable [OF run port_reachable.new], of 5] c
  show ?thesis by (intro exI [of _ c]) simp
qed

lemma settled_unposted_step:
  assumes "port_inv c" and "port_step i c = Some c'" and "(d, outcome) \<in> set (pt_settled c)" "d \<notin> set (posted_calls (pt_posted c))"
    and "call_fresh i c"
  shows "(d, outcome) \<in> set (pt_settled c') \<and> d \<notin> set (posted_calls (pt_posted c'))"
proof -
  have parts: "settled_ok c" using assms(1) by (simp add: port_inv_def)
  have d: "d \<in> set (map fst (pt_settled c))" using assms(3) by force
  have "mset (map fst (pt_settled c) @ deferreds (pt_pending c)) = mset [0..<pt_deferreds c]"
    using parts by (simp add: settled_ok_def)
  then have "set (map fst (pt_settled c) @ deferreds (pt_pending c)) = {0..<pt_deferreds c}"
    by (metis mset_eq_setD set_upt)
  with d have less: "d < pt_deferreds c" unfolding set_append by (metis Un_iff atLeastLessThan_iff)
  have waiting: "d \<notin> set (deferreds (pt_pending c))" using distinct_deferreds(3) [OF parts] d by blast
  show ?thesis
  proof (cases i)
    case (PortArrived p)
    with assms(2) have c': "c' = replacePort p c" by (simp split: if_splits)
    have "d \<notin> set (deferreds (filter (\<lambda>(i, call). \<not> pc_sent call) (pt_pending c)))" using waiting by auto
    with assms(3,4) show ?thesis
      unfolding c' replacePort_eq(2,5) [OF assms(1)] posted_calls_simps posted_calls_map by simp
  next
    case (Call request)
    with assms(2) have c': "c' = fst (port_call request c)" by simp
    have "pt_settled c' = pt_settled c"
      "set (posted_calls (pt_posted c')) \<subseteq> insert (pt_deferreds c) (set (posted_calls (pt_posted c)))"
      unfolding c' by (auto simp: port_call_def Let_def send_call_def case_prod_beta split: option.split)
    with assms(3,4) less show ?thesis by auto
  next
    case (Cancel i)
    with assms(2) have "c' = cancel i c" by simp
    with assms(3,4) show ?thesis by (simp add: cancel_def split: option.split)
  next
    case (Receive p response)
    with assms(2) have "c' = receive response c" by (simp split: if_splits)
    with assms(3,4) show ?thesis by (simp add: receive_def split: option.split)
  qed (use assms(2-4) in \<open>auto simp: port_start_def hostExited_def hostFailed_def port_restart_def port_dispose_def Let_def
      setStatus_def dropPort_def rejectWhere_def split: if_splits option.splits\<close>)
qed

lemma settled_unposted_run:
  assumes "port_inv c" and "port_run inputs c = Some c'" and "(d, outcome) \<in> set (pt_settled c)" "d \<notin> set (posted_calls (pt_posted c))"
  shows "(d, outcome) \<in> set (pt_settled c') \<and> d \<notin> set (posted_calls (pt_posted c'))"
  using assms
proof (induction inputs arbitrary: c)
  case (Cons i inputs)
  then obtain c1 where c1: "call_fresh i c" "port_step i c = Some c1" "port_run inputs c1 = Some c'"
    by (auto simp: bind_eq_Some_conv split: if_splits)
  note step = settled_unposted_step [OF Cons.prems(1) c1(2) Cons.prems(3,4) c1(1)]
  show ?case by (rule Cons.IH [OF port_step_inv [OF Cons.prems(1) c1(1,2)] c1(3)]) (use step in simp_all)
qed simp

text \<open>Stopping a call that still waits for a port ends it at once with a cancelled failure, and it never goes out, whatever
  ports arrive later.\<close>

theorem cancelled_call_never_sent:
  assumes "port_reachable c" and "map_of (pt_pending c) i = Some call" and "\<not> pc_sent call"
    and "port_run inputs (cancel i c) = Some c'"
  shows "(pc_deferred call, Rejected cancelledFailure) \<in> set (pt_settled c') \<and>
    pc_deferred call \<notin> set (posted_calls (pt_posted c'))"
proof (rule settled_unposted_run [OF _ assms(4)])
  have inv: "port_inv c" by (rule port_reachable_inv [OF assms(1)])
  then show "port_inv (cancel i c)" by (rule port_step_inv [of c "Cancel i"]) simp_all
  show "(pc_deferred call, Rejected cancelledFailure) \<in> set (pt_settled (cancel i c))" using assms(2,3) by (simp add: cancel_def)
  show "pc_deferred call \<notin> set (posted_calls (pt_posted (cancel i c)))"
    using inv assms(2,3) by (auto simp: cancel_def port_inv_def posted_ok_def dest: map_of_SomeD)
qed

lemma cancelled_call_never_sent_witness:
  "\<exists>c' :: (nat, nat, nat) port_client. (0, Rejected cancelledFailure) \<in> set (pt_settled c') \<and> pt_port c' = Some 4"
proof -
  let ?call = "\<lparr>pc_request = ExecuteRequest [1] ([9], 0) [6] \<lparr>pw_limit = Some 5, pw_offset = 0\<rparr> paged, pc_deferred = 0, pc_sent = False\<rparr> :: nat pending_call"
  have "map_option (\<lambda>c. (map_of (pt_pending c) [1], map_option pt_port (port_run [PortArrived 4] (cancel [1] c))))
      (port_run [PortStart, Call (ExecuteRequest [1] ([9], 0) [6] \<lparr>pw_limit = Some 5, pw_offset = 0\<rparr> paged)] (port_new :: (nat, nat, nat) port_client)) =
    Some (Some ?call, Some (Some 4))"
    by code_simp
  then obtain c c' :: "(nat, nat, nat) port_client" where
    c: "port_run [PortStart, Call (ExecuteRequest [1] ([9], 0) [6] \<lparr>pw_limit = Some 5, pw_offset = 0\<rparr> paged)] port_new = Some c" "map_of (pt_pending c) [1] = Some ?call"
      "port_run [PortArrived 4] (cancel [1] c) = Some c'" "pt_port c' = Some 4"
    by (auto simp del: port_run.simps)
  from cancelled_call_never_sent [OF port_run_reachable [OF c(1) port_reachable.new] c(2) _ c(3)] c(4)
  show ?thesis by (intro exI [of _ c']) simp
qed

text \<open>Disposing a connected client leaves its status: a later call is taken for a connected one, throws while it posts on no
  port, and leaves an entry in the table that nothing will ever settle.\<close>

theorem call_after_dispose_throws:
  "\<exists>c :: ('p, 'r, 's) port_client. port_run [PortStart, PortArrived 4, PortDispose] port_new = Some c \<and> pt_status c = Connected \<and>
    snd (port_call request c) = CallThrew \<and>
    pt_pending (fst (port_call request c)) = [(request_id request, \<lparr>pc_request = request, pc_deferred = 0, pc_sent = True\<rparr>)]"
  by (simp add: port_new_def port_start_def replacePort_def rejectWhere_def dropPort_def setStatus_def port_dispose_def
    port_call_def send_call_def Let_def)

end
