(* ===== verification/Port_Allocation.thy ===== *)
theory Port_Allocation
  imports Prelude "HOL-Library.Monad_Syntax"
begin

text \<open>
  \<open>cluster-tool/src/config/BindConfigProvider.ts\<close>, the choice of ports: the pickers and \<open>resolve\<close>'s body, over the
  shapes of \<open>cluster-tool-shared/src/config/BindConfig.ts\<close>. The package \<open>get-port\<close>, the IPv6 and UDP probes and the
  random offset are arguments that read and change a state of the host; \<^const>\<open>None\<close> is a \<open>throw\<close>. The registry of
  the other processes enters as the set of ports it excludes.
\<close>

section \<open>The configuration\<close>

definition MinimumPort :: int where "MinimumPort = 1"

definition MaximumPort :: int where "MaximumPort = 65535"

datatype port_protocol = tcp | udp

record port_range =
  rg_first :: int
  rg_last :: int

record node_ports =
  np_http :: int
  np_p2p :: int
  np_advertiseAddress :: "string option"

record nodeop_cluster_ports =
  cp_bios :: node_ports
  cp_producers :: "node_ports list"
  cp_batch :: "node_ports list"
  cp_underwriters :: "node_ports list"
  cp_api :: "node_ports list"
  cp_adHoc :: "node_ports list"

record bind_daemon =
  bd_address :: string
  bd_port :: int

record bind_nodeop =
  bn_address :: string
  bn_ports :: nodeop_cluster_ports

record solana_ports =
  sp_http :: int
  sp_faucet :: int
  sp_gossip :: int
  sp_dynamicRange :: port_range

record bind_solana =
  bs_address :: string
  bs_ports :: solana_ports

record bind_config =
  bc_kiod :: bind_daemon
  bc_nodeop :: bind_nodeop
  bc_anvil :: bind_daemon
  bc_solana :: bind_solana
  bc_debuggingServer :: bind_daemon

text \<open>What a caller may pin; a missing record is one with nothing set.\<close>

record daemon_options =
  do_address :: "string option"
  do_port :: "int option"

record node_options =
  no_http :: "int option"
  no_p2p :: "int option"
  no_advertiseAddress :: "string option"

record bind_options =
  bo_kiod :: daemon_options
  bo_nodeopAddress :: "string option"
  bo_bios :: node_options
  bo_producers :: "node_options list"
  bo_batch :: "node_options list"
  bo_underwriters :: "node_options list"
  bo_api :: "node_options list"
  bo_adHoc :: "node_options list"
  bo_anvil :: daemon_options
  bo_solanaAddress :: "string option"
  bo_solanaHttp :: "int option"
  bo_solanaFaucet :: "int option"
  bo_solanaGossip :: "int option"
  bo_solanaDynamicRange :: "port_range option"
  bo_debuggingServer :: daemon_options

record cluster_topology =
  ct_producerCount :: "nat option"
  ct_batchOperatorCount :: "nat option"
  ct_underwriterCount :: "nat option"
  ct_apiCount :: "nat option"
  ct_adHocCount :: "nat option"
  ct_bindAll :: bool

section \<open>Constants and defaults\<close>

definition ReservedAgavePortBand :: port_range where "ReservedAgavePortBand = \<lparr>rg_first = 8000, rg_last = 10000\<rparr>"

definition DefaultKiod :: int where "DefaultKiod = 10890"
definition DefaultBiosHttp :: int where "DefaultBiosHttp = 10788"
definition DefaultBiosP2p :: int where "DefaultBiosP2p = 10776"
definition DefaultAnvil :: int where "DefaultAnvil = 10545"
definition DefaultSolanaRpc :: int where "DefaultSolanaRpc = 10899"
definition DefaultSolanaFaucet :: int where "DefaultSolanaFaucet = 10990"
definition SolanaWsPortOffset :: int where "SolanaWsPortOffset = 1"
definition DefaultSolanaGossip :: int where "DefaultSolanaGossip = 11000"
definition UdpPickAttempts :: nat where "UdpPickAttempts = 16"
definition ServicePortFirst :: int where "ServicePortFirst = rg_last ReservedAgavePortBand + 1"
definition DefaultSolanaDynamicPortFirst :: int where "DefaultSolanaDynamicPortFirst = 12000"
definition SolanaDynamicPortRangeSize :: int where "SolanaDynamicPortRangeSize = 64"
definition SolanaDynamicPortRangeSearchLimit :: nat where "SolanaDynamicPortRangeSearchLimit = 32"
definition DefaultDebuggingServer :: int where "DefaultDebuggingServer = 10991"
definition DefaultProducerCount :: nat where "DefaultProducerCount = 1"
definition DefaultAdHocCount :: nat where "DefaultAdHocCount = 0"
definition DefaultBatchCount :: nat where "DefaultBatchCount = 3"
definition DefaultUnderwriterCount :: nat where "DefaultUnderwriterCount = 0"
definition DefaultApiCount :: nat where "DefaultApiCount = 0"
definition SolanaRpcPickAttempts :: nat where "SolanaRpcPickAttempts = 16"
definition Localhost :: string where "Localhost = ''127.0.0.1''"
definition ListenAllAddress :: string where "ListenAllAddress = ''0.0.0.0''"

section \<open>Probing the host\<close>

text \<open>\<open>hp_getPort\<close> is given the candidates and the excluded ports; \<open>hp_ranges\<close> is the reading of the automatic port
  ranges, \<^const>\<open>None\<close> when it fails.\<close>

record 'e host_probe =
  hp_getPort :: "int list \<Rightarrow> int set \<Rightarrow> 'e \<Rightarrow> int \<times> 'e"
  hp_isIpv6PortFree :: "int \<Rightarrow> 'e \<Rightarrow> bool \<times> 'e"
  hp_isUdpPortFree :: "int \<Rightarrow> 'e \<Rightarrow> bool \<times> 'e"
  hp_randomInt :: "nat \<Rightarrow> 'e \<Rightarrow> nat \<times> 'e"
  hp_clearLockedPorts :: "'e \<Rightarrow> 'e"
  hp_ranges :: "port_range list option"

definition in_range :: "int \<Rightarrow> port_range \<Rightarrow> bool" where
  "in_range p r \<longleftrightarrow> p \<ge> rg_first r \<and> p \<le> rg_last r"

definition isAutomaticPort :: "int \<Rightarrow> port_range list \<Rightarrow> bool" where
  "isAutomaticPort p ranges \<longleftrightarrow> list_ex (in_range p) ranges"

definition isReservedPort :: "int \<Rightarrow> bool" where
  "isReservedPort p \<longleftrightarrow> in_range p ReservedAgavePortBand"

definition servicePortCandidates :: "'e host_probe \<Rightarrow> int option \<Rightarrow> int set \<Rightarrow> port_range list \<Rightarrow> 'e \<Rightarrow> int list \<times> 'e" where
  "servicePortCandidates H preferred claimed ranges e =
     (let available = (\<lambda>p. p \<notin> claimed \<and> \<not> isReservedPort p \<and> \<not> isAutomaticPort p ranges);
          first = (case preferred of Some p \<Rightarrow> if available p then [p] else [] | None \<Rightarrow> []);
          candidates = filter (\<lambda>p. preferred \<noteq> Some p \<and> available p) [ServicePortFirst..MaximumPort];
          (offset, e') = (if length candidates > 0 then hp_randomInt H (length candidates) e else (0, e))
      in (first @ drop offset candidates @ take offset candidates, e'))"

text \<open>The probes after \<open>get-port\<close>, in order, stopping at the first that fails.\<close>

definition still_free :: "'e host_probe \<Rightarrow> port_protocol \<Rightarrow> int \<Rightarrow> 'e \<Rightarrow> bool \<times> 'e" where
  "still_free H protocol p e =
     (let (v6, e1) = hp_isIpv6PortFree H p e
      in if \<not> v6 then (False, e1) else if protocol = tcp then (True, e1) else hp_isUdpPortFree H p e1)"

fun pick_attempts ::
  "'e host_probe \<Rightarrow> nat \<Rightarrow> int option \<Rightarrow> int set \<Rightarrow> port_protocol \<Rightarrow> port_range list \<Rightarrow> 'e \<Rightarrow> (int \<times> 'e) option" where
  "pick_attempts H 0 preferred claimed protocol ranges e = None"
| "pick_attempts H (Suc n) preferred claimed protocol ranges e =
     (let (candidates, e1) = servicePortCandidates H preferred claimed ranges e;
          (candidate, e2) = hp_getPort H candidates claimed e1
      in if isAutomaticPort candidate ranges then None
         else let (free, e3) = (if candidate \<in> claimed \<or> isReservedPort candidate then (False, e2)
                                else still_free H protocol candidate e2)
              in if free then Some (candidate, e3) else pick_attempts H n None claimed protocol ranges e3)"

definition pickPort ::
  "'e host_probe \<Rightarrow> int option \<Rightarrow> int option \<Rightarrow> int set \<Rightarrow> port_protocol \<Rightarrow> port_range list \<Rightarrow> 'e \<Rightarrow> (int \<times> 'e) option" where
  "pickPort H callerPin fallbackDefault claimed protocol ranges e =
     (case callerPin of
        Some pin \<Rightarrow>
          if isReservedPort pin then None
          else (let (resolved, e1) = hp_getPort H [pin] claimed e
                in if resolved \<noteq> pin then None
                   else let (free, e2) = still_free H protocol pin e1 in if free then Some (pin, e2) else None)
      | None \<Rightarrow> pick_attempts H UdpPickAttempts fallbackDefault claimed protocol ranges e)"

definition websocket_free :: "'e host_probe \<Rightarrow> bool \<Rightarrow> int \<Rightarrow> int set \<Rightarrow> port_range list \<Rightarrow> 'e \<Rightarrow> bool \<times> 'e" where
  "websocket_free H pinned websocket claimed ranges e =
     (if websocket \<le> MaximumPort \<and> (pinned \<or> \<not> isAutomaticPort websocket ranges) \<and> \<not> isReservedPort websocket \<and>
         websocket \<notin> claimed
      then (let (got, e1) = hp_getPort H [websocket] claimed e
            in if got \<noteq> websocket then (False, e1) else hp_isIpv6PortFree H websocket e1)
      else (False, e))"

fun solana_attempts ::
  "'e host_probe \<Rightarrow> nat \<Rightarrow> int option \<Rightarrow> int option \<Rightarrow> int set \<Rightarrow> port_range list \<Rightarrow> 'e \<Rightarrow> (int \<times> 'e) option" where
  "solana_attempts H 0 callerPin preferred claimed ranges e = None"
| "solana_attempts H (Suc n) callerPin preferred claimed ranges e =
     (case pickPort H callerPin preferred claimed tcp ranges e of
        None \<Rightarrow> None
      | Some (http, e1) \<Rightarrow>
          (let (available, e2) = websocket_free H (callerPin \<noteq> None) (http + SolanaWsPortOffset) claimed ranges e1
           in if callerPin \<noteq> None \<and> \<not> available then None
              else if available then Some (http, e2) else solana_attempts H n callerPin None claimed ranges e2))"

definition pickSolanaRpc ::
  "'e host_probe \<Rightarrow> int option \<Rightarrow> int option \<Rightarrow> int set \<Rightarrow> port_range list \<Rightarrow> 'e \<Rightarrow> (int \<times> 'e) option" where
  "pickSolanaRpc H callerPin fallbackDefault claimed ranges e =
     (case callerPin of
        Some pin \<Rightarrow>
          if pin \<ge> MinimumPort \<and> pin + SolanaWsPortOffset \<le> MaximumPort
          then solana_attempts H 1 callerPin fallbackDefault claimed ranges e else None
      | None \<Rightarrow> solana_attempts H SolanaRpcPickAttempts None fallbackDefault claimed ranges e)"

fun probe_all :: "'e host_probe \<Rightarrow> int list \<Rightarrow> 'e \<Rightarrow> bool \<times> 'e" where
  "probe_all H [] e = (True, e)"
| "probe_all H (p # ps) e =
     (let (got, e1) = hp_getPort H [p] {} e
      in if got \<noteq> p then (False, e1)
         else let (free, e2) = still_free H udp p e1 in if free then probe_all H ps e2 else (False, e2))"

definition isRangeFree :: "'e host_probe \<Rightarrow> int \<Rightarrow> int \<Rightarrow> int set \<Rightarrow> 'e \<Rightarrow> bool \<times> 'e" where
  "isRangeFree H first final exclusions e =
     (let ports = [first..final]
      in if list_ex (\<lambda>p. p \<in> exclusions) ports then (False, e) else probe_all H ports e)"

fun first_free_window :: "'e host_probe \<Rightarrow> int list \<Rightarrow> int set \<Rightarrow> 'e \<Rightarrow> (int \<times> 'e) option" where
  "first_free_window H [] exclusions e = None"
| "first_free_window H (start # starts) exclusions e =
     (let (free, e1) = isRangeFree H start (start + SolanaDynamicPortRangeSize - 1) exclusions e
      in if free then Some (start, e1) else first_free_window H starts exclusions e1)"

text \<open>\<open>range(first, last + 1, step)\<close> for a positive step.\<close>

definition steps_from :: "int \<Rightarrow> int \<Rightarrow> int \<Rightarrow> int list" where
  "steps_from first final step = map (\<lambda>i. first + step * int i) [0..<nat ((final - first) div step + 1)]"

definition window_starts :: "port_range list \<Rightarrow> int list" where
  "window_starts ranges =
     take SolanaDynamicPortRangeSearchLimit
       (filter (\<lambda>start. \<not> list_ex (\<lambda>r. start \<le> rg_last r \<and> rg_first r < start + SolanaDynamicPortRangeSize) ranges)
         (steps_from DefaultSolanaDynamicPortFirst (MaximumPort - SolanaDynamicPortRangeSize + 1) SolanaDynamicPortRangeSize))"

definition pickPortRange ::
  "'e host_probe \<Rightarrow> port_range option \<Rightarrow> int set \<Rightarrow> port_range list \<Rightarrow> 'e \<Rightarrow> (port_range \<times> 'e) option" where
  "pickPortRange H callerPin exclusions ranges e =
     (case callerPin of
        Some pin \<Rightarrow>
          if rg_first pin \<ge> MinimumPort \<and> rg_last pin \<le> MaximumPort \<and> rg_first pin \<le> rg_last pin \<and>
             (rg_first pin > rg_last ReservedAgavePortBand \<or> rg_last pin < rg_first ReservedAgavePortBand)
          then (let (free, e1) = isRangeFree H (rg_first pin) (rg_last pin) exclusions e
                in if free then Some (pin, e1) else None)
          else None
      | None \<Rightarrow>
          map_option (\<lambda>(first, e1). (\<lparr>rg_first = first, rg_last = first + SolanaDynamicPortRangeSize - 1\<rparr>, e1))
            (first_free_window H (window_starts ranges) exclusions e))"

section \<open>Resolving a binding\<close>

text \<open>\<open>claim\<close>, \<open>pair\<close> and \<open>pairs\<close> thread the claimed ports and the host; \<open>pinned\<close> are the ports the caller pinned for
  Solana, which no automatic pick may take.\<close>

type_synonym 'e claims = "int set \<times> 'e"

definition claim ::
  "'e host_probe \<Rightarrow> int list \<Rightarrow> int option \<Rightarrow> int option \<Rightarrow> port_protocol \<Rightarrow> 'e claims \<Rightarrow> (int \<times> 'e claims) option" where
  "claim H pinned callerPin fallbackDefault protocol st =
     (let claimed = fst st
      in map_option (\<lambda>(p, e). (p, insert p claimed, e))
           (case callerPin of
              Some pin \<Rightarrow> pickPort H callerPin fallbackDefault claimed protocol [] (snd st)
            | None \<Rightarrow> (case hp_ranges H of
                         None \<Rightarrow> None
                       | Some ranges \<Rightarrow> pickPort H None fallbackDefault (claimed \<union> set pinned) protocol ranges (snd st))))"

definition node_pair ::
  "'e host_probe \<Rightarrow> int list \<Rightarrow> int option \<Rightarrow> int option \<Rightarrow> node_options \<Rightarrow> 'e claims \<Rightarrow> (node_ports \<times> 'e claims) option" where
  "node_pair H pinned httpDefault p2pDefault base st =
     do { (http, st1) \<leftarrow> claim H pinned (no_http base) httpDefault tcp st;
          (p2p, st2) \<leftarrow> claim H pinned (no_p2p base) p2pDefault tcp st1;
          Some (\<lparr>np_http = http, np_p2p = p2p, np_advertiseAddress = no_advertiseAddress base\<rparr>, st2) }"

definition NoOptions :: node_options where
  "NoOptions = \<lparr>no_http = None, no_p2p = None, no_advertiseAddress = None\<rparr>"

fun node_pairs ::
  "'e host_probe \<Rightarrow> int list \<Rightarrow> node_options list \<Rightarrow> nat \<Rightarrow> 'e claims \<Rightarrow> (node_ports list \<times> 'e claims) option" where
  "node_pairs H pinned bases 0 st = Some ([], st)"
| "node_pairs H pinned bases (Suc n) st =
     do { (node, st1) \<leftarrow> node_pair H pinned None None (case bases of [] \<Rightarrow> NoOptions | b # _ \<Rightarrow> b) st;
          (nodes, st2) \<leftarrow> node_pairs H pinned (tl bases) n st1;
          Some (node # nodes, st2) }"

definition claimSolanaHttp :: "'e host_probe \<Rightarrow> int option \<Rightarrow> 'e claims \<Rightarrow> (int \<times> 'e claims) option" where
  "claimSolanaHttp H callerPin st =
     map_option (\<lambda>(http, e). (http, insert (http + SolanaWsPortOffset) (insert http (fst st)), e))
       (case callerPin of
          Some pin \<Rightarrow> pickSolanaRpc H callerPin (Some DefaultSolanaRpc) (fst st) [] (snd st)
        | None \<Rightarrow> (case hp_ranges H of
                     None \<Rightarrow> None
                   | Some ranges \<Rightarrow> pickSolanaRpc H None (Some DefaultSolanaRpc) (fst st) ranges (snd st)))"

definition claimSolanaDynamicRange :: "'e host_probe \<Rightarrow> port_range option \<Rightarrow> 'e claims \<Rightarrow> (port_range \<times> 'e claims) option" where
  "claimSolanaDynamicRange H callerPin st =
     map_option (\<lambda>(r, e). (r, fst st \<union> set [rg_first r..rg_last r], e))
       (case callerPin of
          Some pin \<Rightarrow> pickPortRange H callerPin (fst st) [] (snd st)
        | None \<Rightarrow> (case hp_ranges H of
                     None \<Rightarrow> None
                   | Some ranges \<Rightarrow> pickPortRange H None (fst st) ranges (snd st)))"

definition or_default :: "'a option \<Rightarrow> 'a \<Rightarrow> 'a" where
  "or_default x d = (case x of Some y \<Rightarrow> y | None \<Rightarrow> d)"

definition resolve_nodeop ::
  "'e host_probe \<Rightarrow> int list \<Rightarrow> bind_options \<Rightarrow> cluster_topology \<Rightarrow> 'e claims \<Rightarrow> (nodeop_cluster_ports \<times> 'e claims) option" where
  "resolve_nodeop H pinned options topology st =
     do { (bios, st) \<leftarrow> node_pair H pinned (Some DefaultBiosHttp) (Some DefaultBiosP2p) (bo_bios options) st;
          (producers, st) \<leftarrow> node_pairs H pinned (bo_producers options) (or_default (ct_producerCount topology) DefaultProducerCount) st;
          (batch, st) \<leftarrow> node_pairs H pinned (bo_batch options) (or_default (ct_batchOperatorCount topology) DefaultBatchCount) st;
          (underwriters, st) \<leftarrow> node_pairs H pinned (bo_underwriters options)
             (or_default (ct_underwriterCount topology) DefaultUnderwriterCount) st;
          (api, st) \<leftarrow> node_pairs H pinned (bo_api options) (or_default (ct_apiCount topology) DefaultApiCount) st;
          (adHoc, st) \<leftarrow> node_pairs H pinned (bo_adHoc options) (or_default (ct_adHocCount topology) DefaultAdHocCount) st;
          Some (\<lparr>cp_bios = bios, cp_producers = producers, cp_batch = batch, cp_underwriters = underwriters,
                 cp_api = api, cp_adHoc = adHoc\<rparr>, st) }"

definition resolve_solana ::
  "'e host_probe \<Rightarrow> int list \<Rightarrow> bind_options \<Rightarrow> 'e claims \<Rightarrow> (solana_ports \<times> 'e claims) option" where
  "resolve_solana H pinned options st =
     do { (http, st) \<leftarrow> claimSolanaHttp H (bo_solanaHttp options) st;
          (faucet, st) \<leftarrow> claim H pinned (bo_solanaFaucet options) (Some DefaultSolanaFaucet) tcp st;
          (gossip, st) \<leftarrow> claim H pinned (bo_solanaGossip options) (Some DefaultSolanaGossip) udp st;
          (dynamicRange, st) \<leftarrow> claimSolanaDynamicRange H (bo_solanaDynamicRange options) st;
          Some (\<lparr>sp_http = http, sp_faucet = faucet, sp_gossip = gossip, sp_dynamicRange = dynamicRange\<rparr>, st) }"

definition pinnedSolanaPorts :: "bind_options \<Rightarrow> int list" where
  "pinnedSolanaPorts options = (case bo_solanaHttp options of None \<Rightarrow> [] | Some pin \<Rightarrow> [pin, pin + SolanaWsPortOffset])"

definition resolveLocked ::
  "'e host_probe \<Rightarrow> int set \<Rightarrow> bind_options \<Rightarrow> cluster_topology \<Rightarrow> 'e \<Rightarrow> (bind_config \<times> 'e claims) option" where
  "resolveLocked H exclusions options topology e =
     (let host = (if ct_bindAll topology then ListenAllAddress else Localhost);
          pinned = pinnedSolanaPorts options
      in do { (kiod, st) \<leftarrow> claim H pinned (do_port (bo_kiod options)) (Some DefaultKiod) tcp (exclusions, e);
              (nodeop, st) \<leftarrow> resolve_nodeop H pinned options topology st;
              (anvil, st) \<leftarrow> claim H pinned (do_port (bo_anvil options)) (Some DefaultAnvil) tcp st;
              (solana, st) \<leftarrow> resolve_solana H pinned options st;
              (debuggingServer, st) \<leftarrow> claim H pinned (do_port (bo_debuggingServer options)) (Some DefaultDebuggingServer) tcp st;
              Some (\<lparr>bc_kiod = \<lparr>bd_address = or_default (do_address (bo_kiod options)) host, bd_port = kiod\<rparr>,
                     bc_nodeop = \<lparr>bn_address = or_default (bo_nodeopAddress options) host, bn_ports = nodeop\<rparr>,
                     bc_anvil = \<lparr>bd_address = or_default (do_address (bo_anvil options)) host, bd_port = anvil\<rparr>,
                     bc_solana = \<lparr>bs_address = or_default (bo_solanaAddress options) host, bs_ports = solana\<rparr>,
                     bc_debuggingServer = \<lparr>bd_address = or_default (do_address (bo_debuggingServer options)) host,
                       bd_port = debuggingServer\<rparr>\<rparr>, st) })"

section \<open>The ports of a binding\<close>

definition node_flat :: "node_ports list \<Rightarrow> int list" where
  "node_flat nodes = concat (map (\<lambda>n. [np_http n, np_p2p n]) nodes)"

definition nodeop_ports :: "nodeop_cluster_ports \<Rightarrow> int list" where
  "nodeop_ports np = [np_http (cp_bios np), np_p2p (cp_bios np)] @ node_flat (cp_producers np) @ node_flat (cp_batch np) @
     node_flat (cp_underwriters np) @ node_flat (cp_api np) @ node_flat (cp_adHoc np)"

definition solana_port_list :: "solana_ports \<Rightarrow> int list" where
  "solana_port_list sp = [sp_http sp, sp_http sp + SolanaWsPortOffset, sp_faucet sp, sp_gossip sp] @
     [rg_first (sp_dynamicRange sp)..rg_last (sp_dynamicRange sp)]"

definition addressedPorts :: "bind_config \<Rightarrow> (string \<times> int list) list" where
  "addressedPorts c =
     [(bd_address (bc_kiod c), [bd_port (bc_kiod c)]),
      (bn_address (bc_nodeop c), nodeop_ports (bn_ports (bc_nodeop c))),
      (bd_address (bc_anvil c), [bd_port (bc_anvil c)]),
      (bs_address (bc_solana c), solana_port_list (bs_ports (bc_solana c))),
      (bd_address (bc_debuggingServer c), [bd_port (bc_debuggingServer c)])]"

definition allPorts :: "bind_config \<Rightarrow> int list" where
  "allPorts c = concat (map snd (addressedPorts c))"

definition locallyBoundPorts :: "(string \<Rightarrow> bool) \<Rightarrow> bind_config \<Rightarrow> int list" where
  "locallyBoundPorts isLocalAddress c =
     uniq (concat (map snd (filter (\<lambda>(address, ports). isLocalAddress address) (addressedPorts c))))"

section \<open>What a claim takes\<close>

definition takes :: "int list \<Rightarrow> int set \<Rightarrow> int set \<Rightarrow> bool" where
  "takes ports C C' \<longleftrightarrow> distinct ports \<and> set ports \<inter> C = {} \<and> C' = C \<union> set ports"

lemma takes_Nil: "takes [] C C"
  by (simp add: takes_def)

lemma takes_append: "takes xs C C1 \<Longrightarrow> takes ys C1 C2 \<Longrightarrow> takes (xs @ ys) C C2"
  by (auto simp: takes_def)

lemma takes_one: "p \<notin> C \<Longrightarrow> takes [p] C (insert p C)"
  by (simp add: takes_def)

text \<open>
  Every pin of the options is the port, the range or the address that the binding has; entries of a role's list beyond the
  planned number of its nodes are not used.
\<close>

definition honours :: "'a option \<Rightarrow> 'a \<Rightarrow> bool" where
  "honours pin x = (case pin of None \<Rightarrow> True | Some v \<Rightarrow> x = v)"

definition node_honours :: "node_options \<Rightarrow> node_ports \<Rightarrow> bool" where
  "node_honours base node \<longleftrightarrow> honours (no_http base) (np_http node) \<and> honours (no_p2p base) (np_p2p node) \<and>
     np_advertiseAddress node = no_advertiseAddress base"

definition nodes_honour :: "node_options list \<Rightarrow> node_ports list \<Rightarrow> bool" where
  "nodes_honour bases nodes = list_all (\<lambda>(base, node). node_honours base node) (zip bases nodes)"

definition nodeop_honours :: "bind_options \<Rightarrow> nodeop_cluster_ports \<Rightarrow> bool" where
  "nodeop_honours options np \<longleftrightarrow>
     node_honours (bo_bios options) (cp_bios np) \<and> nodes_honour (bo_producers options) (cp_producers np) \<and>
     nodes_honour (bo_batch options) (cp_batch np) \<and> nodes_honour (bo_underwriters options) (cp_underwriters np) \<and>
     nodes_honour (bo_api options) (cp_api np) \<and> nodes_honour (bo_adHoc options) (cp_adHoc np)"

definition solana_honours :: "bind_options \<Rightarrow> solana_ports \<Rightarrow> bool" where
  "solana_honours options sp \<longleftrightarrow>
     honours (bo_solanaHttp options) (sp_http sp) \<and> honours (bo_solanaFaucet options) (sp_faucet sp) \<and>
     honours (bo_solanaGossip options) (sp_gossip sp) \<and> honours (bo_solanaDynamicRange options) (sp_dynamicRange sp)"

definition pins_honoured :: "bind_options \<Rightarrow> bind_config \<Rightarrow> bool" where
  "pins_honoured options c \<longleftrightarrow>
     honours (do_port (bo_kiod options)) (bd_port (bc_kiod c)) \<and> nodeop_honours options (bn_ports (bc_nodeop c)) \<and>
     honours (do_port (bo_anvil options)) (bd_port (bc_anvil c)) \<and> solana_honours options (bs_ports (bc_solana c)) \<and>
     honours (do_port (bo_debuggingServer options)) (bd_port (bc_debuggingServer c))"

lemma honours_iff: "honours pin x \<longleftrightarrow> (\<forall>v. pin = Some v \<longrightarrow> x = v)"
  by (simp add: honours_def split: option.split)

text \<open>The documented promise of \<open>get-port\<close>'s \<open>exclude\<close>, for one candidate: an excluded port is not returned for
  it. Its fallback to port 0 may return any other port.\<close>

definition excludes :: "'e host_probe \<Rightarrow> bool" where
  "excludes H \<longleftrightarrow> (\<forall>p excluded e. p \<in> excluded \<longrightarrow> fst (hp_getPort H [p] excluded e) \<noteq> p)"

lemma pick_attempts_free:
  "pick_attempts H n preferred claimed protocol ranges e = Some (p, e') \<Longrightarrow>
     p \<notin> claimed \<and> \<not> isReservedPort p \<and> \<not> isAutomaticPort p ranges"
proof (induction H n preferred claimed protocol ranges e rule: pick_attempts.induct)
  case (2 H n preferred claimed protocol ranges e)
  obtain candidates e1 candidate e2 where c: "servicePortCandidates H preferred claimed ranges e = (candidates, e1)"
      "hp_getPort H candidates claimed e1 = (candidate, e2)"
    by fastforce
  obtain free e3 where f: "(if candidate \<in> claimed \<or> isReservedPort candidate then (False, e2) else still_free H protocol candidate e2) = (free, e3)"
    by fastforce
  from 2(2) c f have auto: "\<not> isAutomaticPort candidate ranges" by (auto split: if_splits)
  show ?case
  proof (cases free)
    case True
    with 2(2) c f auto have "p = candidate" by simp
    with True f auto show ?thesis by (auto split: if_splits)
  next
    case False
    with 2(2) c f auto have "pick_attempts H n None claimed protocol ranges e3 = Some (p, e')" by simp
    with 2(1) [OF c(1) [symmetric] refl c(2) [symmetric] refl auto] f False show ?thesis by auto
  qed
qed simp

lemma pickPort_free:
  assumes "excludes H" and "pickPort H callerPin fallbackDefault claimed protocol ranges e = Some (p, e')"
  shows "p \<notin> claimed \<and> \<not> isReservedPort p \<and> (case callerPin of Some pin \<Rightarrow> p = pin | None \<Rightarrow> \<not> isAutomaticPort p ranges)"
proof (cases callerPin)
  case None
  then have "pick_attempts H UdpPickAttempts fallbackDefault claimed protocol ranges e = Some (p, e')"
    using assms(2) by (simp add: pickPort_def)
  from pick_attempts_free [OF this] None show ?thesis by simp
next
  case (Some pin)
  have "pin \<in> claimed \<Longrightarrow> fst (hp_getPort H [pin] claimed e) \<noteq> pin" using assms(1) by (simp add: excludes_def)
  with assms(2) Some show ?thesis by (auto simp: pickPort_def Let_def case_prod_beta split: if_splits)
qed

lemma claim_takes:
  assumes "excludes H" and "claim H pinned callerPin fallbackDefault protocol st = Some (p, st')"
  shows "takes [p] (fst st) (fst st') \<and> honours callerPin p"
proof (cases callerPin)
  case None
  with assms(2) obtain ranges e' where "pickPort H None fallbackDefault (fst st \<union> set pinned) protocol ranges (snd st) = Some (p, e')"
      "st' = (insert p (fst st), e')"
    by (auto simp: claim_def Let_def split: option.splits)
  with pickPort_free [OF assms(1) this(1)] None show ?thesis by (simp add: takes_one honours_def)
next
  case (Some pin)
  with assms(2) obtain e' where "pickPort H (Some pin) fallbackDefault (fst st) protocol [] (snd st) = Some (p, e')"
      "st' = (insert p (fst st), e')"
    by (auto simp: claim_def Let_def)
  note picked = this
  from pickPort_free [OF assms(1) picked(1)] have "p \<notin> fst st \<and> p = pin" by auto
  then have "p = pin" and free: "p \<notin> fst st" by blast+
  show ?thesis
  proof (intro conjI)
    show "takes [p] (fst st) (fst st')" using takes_one [OF free] picked(2) by simp
    show "honours callerPin p" using Some \<open>p = pin\<close> by (simp add: honours_def)
  qed
qed

lemma node_pair_takes:
  assumes "excludes H" and "node_pair H pinned httpDefault p2pDefault base st = Some (node, st')"
  shows "takes [np_http node, np_p2p node] (fst st) (fst st') \<and> node_honours base node"
proof -
  obtain http p2p st1 where http: "claim H pinned (no_http base) httpDefault tcp st = Some (http, st1)"
      and p2p: "claim H pinned (no_p2p base) p2pDefault tcp st1 = Some (p2p, st')"
      and node: "node = \<lparr>np_http = http, np_p2p = p2p, np_advertiseAddress = no_advertiseAddress base\<rparr>"
    using assms(2) by (auto simp: node_pair_def bind_eq_Some_conv)
  note t = claim_takes [OF assms(1) http] claim_takes [OF assms(1) p2p]
  show ?thesis
    using takes_append [OF conjunct1 [OF t(1)] conjunct1 [OF t(2)]] t by (simp add: node node_honours_def)
qed

lemma node_flat_Cons [simp]: "node_flat [] = []" "node_flat (n # ns) = [np_http n, np_p2p n] @ node_flat ns"
  by (simp_all add: node_flat_def)

lemma node_pairs_takes:
  assumes "node_pairs H pinned bases n st = Some (nodes, st')" and "excludes H"
  shows "takes (node_flat nodes) (fst st) (fst st') \<and> length nodes = n \<and> nodes_honour bases nodes"
  using assms
proof (induction H pinned bases n st arbitrary: nodes rule: node_pairs.induct)
  case (2 H pinned bases n st)
  obtain node st1 rest where step: "node_pair H pinned None None (case bases of [] \<Rightarrow> NoOptions | b # _ \<Rightarrow> b) st = Some (node, st1)"
      "node_pairs H pinned (tl bases) n st1 = Some (rest, st')" "nodes = node # rest"
    using 2(2) by (auto simp: bind_eq_Some_conv)
  note node = node_pair_takes [OF 2(3) step(1)] and rest = 2(1) [OF step(1) refl step(2) 2(3)]
  from takes_append [OF conjunct1 [OF node]] node rest step(3)
  show ?case by (cases bases) (simp_all add: nodes_honour_def)
qed (simp add: takes_Nil nodes_honour_def)

definition node_counts :: "nodeop_cluster_ports \<Rightarrow> nat list" where
  "node_counts np = map length [cp_producers np, cp_batch np, cp_underwriters np, cp_api np, cp_adHoc np]"

definition planned_counts :: "cluster_topology \<Rightarrow> nat list" where
  "planned_counts t =
     [or_default (ct_producerCount t) DefaultProducerCount, or_default (ct_batchOperatorCount t) DefaultBatchCount,
      or_default (ct_underwriterCount t) DefaultUnderwriterCount, or_default (ct_apiCount t) DefaultApiCount,
      or_default (ct_adHocCount t) DefaultAdHocCount]"

lemma resolve_nodeop_takes:
  assumes "excludes H" and "resolve_nodeop H pinned options topology st = Some (ports, st')"
  shows "takes (nodeop_ports ports) (fst st) (fst st') \<and> node_counts ports = planned_counts topology \<and> nodeop_honours options ports"
proof -
  obtain bios st1 producers st2 batch st3 underwriters st4 api st5 adHoc where
    "node_pair H pinned (Some DefaultBiosHttp) (Some DefaultBiosP2p) (bo_bios options) st = Some (bios, st1)"
    "node_pairs H pinned (bo_producers options) (or_default (ct_producerCount topology) DefaultProducerCount) st1 = Some (producers, st2)"
    "node_pairs H pinned (bo_batch options) (or_default (ct_batchOperatorCount topology) DefaultBatchCount) st2 = Some (batch, st3)"
    "node_pairs H pinned (bo_underwriters options) (or_default (ct_underwriterCount topology) DefaultUnderwriterCount) st3 = Some (underwriters, st4)"
    "node_pairs H pinned (bo_api options) (or_default (ct_apiCount topology) DefaultApiCount) st4 = Some (api, st5)"
    "node_pairs H pinned (bo_adHoc options) (or_default (ct_adHocCount topology) DefaultAdHocCount) st5 = Some (adHoc, st')"
    and ports: "ports = \<lparr>cp_bios = bios, cp_producers = producers, cp_batch = batch, cp_underwriters = underwriters,
                 cp_api = api, cp_adHoc = adHoc\<rparr>"
    using assms(2) by (auto simp: resolve_nodeop_def bind_eq_Some_conv)
  note steps = this(1-6)
  note t = node_pair_takes [OF assms(1) steps(1)] node_pairs_takes [OF steps(2) assms(1)] node_pairs_takes [OF steps(3) assms(1)]
    node_pairs_takes [OF steps(4) assms(1)] node_pairs_takes [OF steps(5) assms(1)] node_pairs_takes [OF steps(6) assms(1)]
  have "takes (nodeop_ports ports) (fst st) (fst st')"
    unfolding nodeop_ports_def ports nodeop_cluster_ports.simps
    by (intro takes_append [OF conjunct1 [OF t(1)]] takes_append [OF conjunct1 [OF t(2)]] takes_append [OF conjunct1 [OF t(3)]]
      takes_append [OF conjunct1 [OF t(4)]] takes_append [OF conjunct1 [OF t(5)]] conjunct1 [OF t(6)])
  with t show ?thesis by (simp add: ports node_counts_def planned_counts_def nodeop_honours_def)
qed

lemma websocket_free_True:
  "websocket_free H pinned websocket claimed ranges e = (True, e') \<Longrightarrow>
     websocket \<notin> claimed \<and> \<not> isReservedPort websocket \<and> websocket \<le> MaximumPort"
  by (auto simp: websocket_free_def split: if_splits)

lemma solana_attempts_free:
  assumes "solana_attempts H n callerPin preferred claimed ranges e = Some (http, e')" and "excludes H"
  shows "http \<notin> claimed \<and> http + SolanaWsPortOffset \<notin> claimed \<and> (\<forall>pin. callerPin = Some pin \<longrightarrow> http = pin)"
  using assms
proof (induction H n callerPin preferred claimed ranges e rule: solana_attempts.induct)
  case (2 H n callerPin preferred claimed ranges e)
  obtain p e1 where p: "pickPort H callerPin preferred claimed tcp ranges e = Some (p, e1)"
    using 2(2) by (auto split: option.splits)
  obtain available e2 where ws: "websocket_free H (callerPin \<noteq> None) (p + SolanaWsPortOffset) claimed ranges e1 = (available, e2)"
    by fastforce
  note free = pickPort_free [OF 2(3) p]
  show ?case
  proof (cases available)
    case True
    then have "http = p" using 2(2) p ws by simp
    with free websocket_free_True [of H _ _ claimed ranges e1 e2] ws True show ?thesis by (auto split: option.splits)
  next
    case False
    with 2(2) p ws have c: "\<not> (callerPin \<noteq> None \<and> \<not> available)" and
      rec: "solana_attempts H n callerPin None claimed ranges e2 = Some (http, e')" by (auto split: if_splits)
    from 2(1) [OF p refl ws [symmetric] refl c False rec 2(3)] show ?thesis .
  qed
qed simp

lemma claimSolanaHttp_takes:
  assumes "excludes H" and "claimSolanaHttp H callerPin st = Some (http, st')"
  shows "takes [http, http + SolanaWsPortOffset] (fst st) (fst st') \<and> honours callerPin http"
proof -
  obtain n ranges e' where "solana_attempts H n callerPin (Some DefaultSolanaRpc) (fst st) ranges (snd st) = Some (http, e')"
      "fst st' = insert (http + SolanaWsPortOffset) (insert http (fst st))"
    using assms(2)
    by (auto simp: claimSolanaHttp_def pickSolanaRpc_def simp del: solana_attempts.simps split: option.splits if_splits)
  with solana_attempts_free [OF this(1) assms(1)] show ?thesis by (auto simp: takes_def SolanaWsPortOffset_def honours_iff)
qed

lemma isRangeFree_True: "isRangeFree H first final exclusions e = (True, e') \<Longrightarrow> set [first..final] \<inter> exclusions = {}"
  by (auto simp: isRangeFree_def Let_def list_ex_iff split: if_splits)

lemma first_free_window_free:
  "first_free_window H starts exclusions e = Some (start, e') \<Longrightarrow>
     start \<in> set starts \<and> set [start..start + SolanaDynamicPortRangeSize - 1] \<inter> exclusions = {}"
proof (induction H starts exclusions e rule: first_free_window.induct)
  case (2 H s starts exclusions e)
  obtain free e1 where f: "isRangeFree H s (s + SolanaDynamicPortRangeSize - 1) exclusions e = (free, e1)" by fastforce
  show ?case
  proof (cases free)
    case True
    with 2(2) f isRangeFree_True [of H s _ exclusions e e1] show ?thesis by simp
  next
    case False
    with 2 f show ?thesis by auto
  qed
qed simp

lemma pickPortRange_free:
  assumes "pickPortRange H callerPin exclusions ranges e = Some (r, e')"
  shows "set [rg_first r..rg_last r] \<inter> exclusions = {} \<and> (\<forall>pin. callerPin = Some pin \<longrightarrow> r = pin) \<and>
    (callerPin = None \<longrightarrow> rg_first r \<in> set (window_starts ranges) \<and> rg_last r = rg_first r + SolanaDynamicPortRangeSize - 1)"
proof (cases callerPin)
  case None
  with assms first_free_window_free show ?thesis by (fastforce simp: pickPortRange_def)
next
  case (Some pin)
  obtain free e1 where probe: "isRangeFree H (rg_first pin) (rg_last pin) exclusions e = (free, e1)" by fastforce
  with assms Some have "free" "r = pin" by (auto simp: pickPortRange_def split: if_splits)
  with isRangeFree_True [of H _ _ exclusions e e1] probe Some show ?thesis by simp
qed

lemma claimSolanaDynamicRange_takes:
  assumes "claimSolanaDynamicRange H callerPin st = Some (r, st')"
  shows "takes [rg_first r..rg_last r] (fst st) (fst st') \<and> honours callerPin r"
proof -
  obtain ranges e' where "pickPortRange H callerPin (fst st) ranges (snd st) = Some (r, e')"
      "fst st' = fst st \<union> set [rg_first r..rg_last r]"
    using assms by (auto simp: claimSolanaDynamicRange_def split: option.splits)
  with pickPortRange_free [OF this(1)] show ?thesis by (simp add: takes_def honours_iff)
qed

lemma resolve_solana_takes:
  assumes "excludes H" and "resolve_solana H pinned options st = Some (ports, st')"
  shows "takes (solana_port_list ports) (fst st) (fst st') \<and> solana_honours options ports"
proof -
  obtain http st1 faucet st2 gossip st3 r where
    "claimSolanaHttp H (bo_solanaHttp options) st = Some (http, st1)"
    "claim H pinned (bo_solanaFaucet options) (Some DefaultSolanaFaucet) tcp st1 = Some (faucet, st2)"
    "claim H pinned (bo_solanaGossip options) (Some DefaultSolanaGossip) udp st2 = Some (gossip, st3)"
    "claimSolanaDynamicRange H (bo_solanaDynamicRange options) st3 = Some (r, st')"
    and ports: "ports = \<lparr>sp_http = http, sp_faucet = faucet, sp_gossip = gossip, sp_dynamicRange = r\<rparr>"
    using assms(2) by (auto simp: resolve_solana_def bind_eq_Some_conv)
  note steps = this(1-4)
  note t = claimSolanaHttp_takes [OF assms(1) steps(1)] claim_takes [OF assms(1) steps(2)] claim_takes [OF assms(1) steps(3)]
    claimSolanaDynamicRange_takes [OF steps(4)]
  have "takes ([http, http + SolanaWsPortOffset] @ [faucet] @ [gossip] @ [rg_first r..rg_last r]) (fst st) (fst st')"
    by (intro takes_append [OF conjunct1 [OF t(1)]] takes_append [OF conjunct1 [OF t(2)]] takes_append [OF conjunct1 [OF t(3)]]
      conjunct1 [OF t(4)])
  then show ?thesis using t by (simp add: solana_port_list_def ports solana_honours_def)
qed

lemma resolve_takes:
  assumes "excludes H" and "resolveLocked H exclusions options topology e = Some (config, st')"
  shows "takes (allPorts config) exclusions (fst st') \<and>
    node_counts (bn_ports (bc_nodeop config)) = planned_counts topology \<and>
    pins_honoured options config"
proof -
  obtain kiod st1 nodeop st2 anvil st3 solana st4 debuggingServer where
    "claim H (pinnedSolanaPorts options) (do_port (bo_kiod options)) (Some DefaultKiod) tcp (exclusions, e) = Some (kiod, st1)"
    "resolve_nodeop H (pinnedSolanaPorts options) options topology st1 = Some (nodeop, st2)"
    "claim H (pinnedSolanaPorts options) (do_port (bo_anvil options)) (Some DefaultAnvil) tcp st2 = Some (anvil, st3)"
    "resolve_solana H (pinnedSolanaPorts options) options st3 = Some (solana, st4)"
    "claim H (pinnedSolanaPorts options) (do_port (bo_debuggingServer options)) (Some DefaultDebuggingServer) tcp st4 =
      Some (debuggingServer, st')"
    and config: "bd_port (bc_kiod config) = kiod" "bn_ports (bc_nodeop config) = nodeop" "bd_port (bc_anvil config) = anvil"
      "bs_ports (bc_solana config) = solana" "bd_port (bc_debuggingServer config) = debuggingServer"
    using assms(2) by (auto simp: resolveLocked_def Let_def bind_eq_Some_conv)
  note steps = this(1-5)
  note kiod = claim_takes [OF assms(1) steps(1)] and anvil = claim_takes [OF assms(1) steps(3)] and
    debugging = claim_takes [OF assms(1) steps(5)] and nodeops = resolve_nodeop_takes [OF assms(1) steps(2)]
    and solanas = resolve_solana_takes [OF assms(1) steps(4)]
  have "takes ([kiod] @ nodeop_ports nodeop @ [anvil] @ solana_port_list solana @ [debuggingServer]) (fst (exclusions, e)) (fst st')"
    by (intro takes_append [OF conjunct1 [OF kiod]] takes_append [OF conjunct1 [OF nodeops]]
      takes_append [OF conjunct1 [OF anvil]] takes_append [OF conjunct1 [OF solanas]] conjunct1 [OF debugging])
  then have taken: "takes (allPorts config) exclusions (fst st')" by (simp add: allPorts_def addressedPorts_def config)
  show ?thesis
    using taken kiod anvil debugging nodeops solanas by (simp add: pins_honoured_def config)
qed

section \<open>A host where every port is free\<close>

text \<open>\<open>get-port\<close> on a host where nothing listens: the first candidate that is not excluded, or else a port that
  is not the first candidate.\<close>

definition free_host :: "unit host_probe" where
  "free_host = \<lparr>hp_getPort = (\<lambda>candidates excluded e.
       (case find (\<lambda>p. p \<notin> excluded) candidates of Some p \<Rightarrow> p | None \<Rightarrow> (case candidates of [] \<Rightarrow> 0 | p # _ \<Rightarrow> p + 1), e)),
     hp_isIpv6PortFree = (\<lambda>p e. (True, e)), hp_isUdpPortFree = (\<lambda>p e. (True, e)), hp_randomInt = (\<lambda>n e. (0, e)),
     hp_clearLockedPorts = (\<lambda>e. e), hp_ranges = Some []\<rparr>"

lemma still_free_free_host [simp]: "still_free free_host protocol p e = (True, e)"
  by (simp add: still_free_def free_host_def)

lemma free_host_excludes [simp]: "excludes free_host"
  by (simp add: excludes_def free_host_def)

lemma getPort_free_host: "p \<notin> excluded \<Longrightarrow> hp_getPort free_host (p # ps) excluded e = (p, e)"
  by (simp add: free_host_def)

lemma free_host_sel [simp]:
  "hp_ranges free_host = Some []" "hp_isIpv6PortFree free_host p e = (True, e)" "hp_randomInt free_host n e = (0, e)"
  by (simp_all add: free_host_def)

lemma preferred_candidate:
  assumes "p \<notin> claimed" and "\<not> isReservedPort p"
  shows "\<exists>rest. servicePortCandidates free_host (Some p) claimed [] e = (p # rest, e)"
  using assms
  by (cases "filter (\<lambda>q. Some p \<noteq> Some q \<and> q \<notin> claimed \<and> \<not> isReservedPort q \<and> \<not> isAutomaticPort q []) [ServicePortFirst..MaximumPort]")
    (simp_all add: servicePortCandidates_def isAutomaticPort_def Let_def)

lemma preferred_is_picked:
  assumes "p \<notin> claimed" and "\<not> isReservedPort p"
  shows "pickPort free_host None (Some p) claimed protocol [] e = Some (p, e)"
proof -
  obtain rest where "servicePortCandidates free_host (Some p) claimed [] e = (p # rest, e)"
    using preferred_candidate [OF assms] by blast
  then have "pick_attempts free_host (Suc n) (Some p) claimed protocol [] e = Some (p, e)" for n
    using assms by (simp add: getPort_free_host isAutomaticPort_def)
  from this [of 15] show ?thesis by (simp add: pickPort_def UdpPickAttempts_def)
qed

lemma preferred_is_claimed:
  "\<lbrakk>p \<notin> fst st; p \<notin> set pinned; \<not> isReservedPort p\<rbrakk> \<Longrightarrow>
     claim free_host pinned None (Some p) protocol st = Some (p, insert p (fst st), snd st)"
  using preferred_is_picked [of p "fst st \<union> set pinned" protocol "snd st"]
  by (simp add: claim_def)

lemma pair_is_picked:
  assumes "DefaultSolanaRpc \<notin> fst st" and "DefaultSolanaRpc + 1 \<notin> fst st"
  shows "claimSolanaHttp free_host None st =
    Some (DefaultSolanaRpc, insert (DefaultSolanaRpc + 1) (insert DefaultSolanaRpc (fst st)), snd st)"
proof -
  have bounds: "\<not> isReservedPort DefaultSolanaRpc" "\<not> isReservedPort (DefaultSolanaRpc + 1)" "DefaultSolanaRpc + 1 \<le> MaximumPort"
    by (simp_all add: isReservedPort_def in_range_def DefaultSolanaRpc_def ReservedAgavePortBand_def MaximumPort_def)
  have "websocket_free free_host False (DefaultSolanaRpc + SolanaWsPortOffset) (fst st) [] (snd st) = (True, snd st)"
    using assms bounds by (simp add: websocket_free_def isAutomaticPort_def getPort_free_host SolanaWsPortOffset_def)
  with preferred_is_picked [OF assms(1) bounds(1), of tcp "snd st"]
  have "solana_attempts free_host (Suc n) None (Some DefaultSolanaRpc) (fst st) [] (snd st) = Some (DefaultSolanaRpc, snd st)" for n
    by simp
  from this [of 15] show ?thesis by (simp add: claimSolanaHttp_def pickSolanaRpc_def SolanaWsPortOffset_def SolanaRpcPickAttempts_def)
qed

lemma probe_all_free_host: "probe_all free_host ps e = (True, e)"
  by (induction ps) (simp_all add: getPort_free_host)

lemma steps_from_first:
  assumes "first \<le> final" and "0 < step"
  shows "\<exists>rest. steps_from first final step = first # rest"
proof -
  have "0 \<le> (final - first) div step" using assms by (simp add: pos_imp_zdiv_nonneg_iff)
  then have "0 < nat ((final - first) div step + 1)" by simp
  from upt_conv_Cons [OF this] show ?thesis by (simp add: steps_from_def)
qed

lemma window_starts_first: "\<exists>rest. window_starts [] = 12000 # rest"
proof -
  obtain rest where "steps_from 12000 (MaximumPort - SolanaDynamicPortRangeSize + 1) SolanaDynamicPortRangeSize = 12000 # rest"
    using steps_from_first [of 12000 "MaximumPort - SolanaDynamicPortRangeSize + 1" SolanaDynamicPortRangeSize]
    by (auto simp: MaximumPort_def SolanaDynamicPortRangeSize_def)
  then show ?thesis
    by (simp add: window_starts_def DefaultSolanaDynamicPortFirst_def SolanaDynamicPortRangeSearchLimit_def)
qed

lemma first_window_is_picked:
  assumes "set [12000..12063] \<inter> fst st = {}"
  shows "claimSolanaDynamicRange free_host None st =
    Some (\<lparr>rg_first = 12000, rg_last = 12063\<rparr>, fst st \<union> set [12000..12063], snd st)"
proof -
  have "isRangeFree free_host 12000 12063 (fst st) (snd st) = (True, snd st)"
    using assms by (auto simp: isRangeFree_def list_ex_iff probe_all_free_host Let_def simp del: upto_rec_numeral)
  moreover obtain rest where "window_starts [] = 12000 # rest" using window_starts_first by blast
  ultimately show ?thesis
    by (simp add: claimSolanaDynamicRange_def pickPortRange_def SolanaDynamicPortRangeSize_def del: upto_rec_numeral)
qed

definition unpinned_daemon :: daemon_options where
  "unpinned_daemon = \<lparr>do_address = None, do_port = None\<rparr>"

definition unpinned :: bind_options where
  "unpinned = \<lparr>bo_kiod = unpinned_daemon, bo_nodeopAddress = None, bo_bios = NoOptions, bo_producers = [], bo_batch = [],
     bo_underwriters = [], bo_api = [], bo_adHoc = [], bo_anvil = unpinned_daemon, bo_solanaAddress = None, bo_solanaHttp = None,
     bo_solanaFaucet = None, bo_solanaGossip = None, bo_solanaDynamicRange = None, bo_debuggingServer = unpinned_daemon\<rparr>"

definition bios_only :: cluster_topology where
  "bios_only = \<lparr>ct_producerCount = Some 0, ct_batchOperatorCount = Some 0, ct_underwriterCount = Some 0, ct_apiCount = Some 0,
     ct_adHocCount = Some 0, ct_bindAll = False\<rparr>"

definition default_ports :: bind_config where
  "default_ports =
     \<lparr>bc_kiod = \<lparr>bd_address = Localhost, bd_port = 10890\<rparr>,
      bc_nodeop = \<lparr>bn_address = Localhost, bn_ports = \<lparr>cp_bios = \<lparr>np_http = 10788, np_p2p = 10776, np_advertiseAddress = None\<rparr>,
        cp_producers = [], cp_batch = [], cp_underwriters = [], cp_api = [], cp_adHoc = []\<rparr>\<rparr>,
      bc_anvil = \<lparr>bd_address = Localhost, bd_port = 10545\<rparr>,
      bc_solana = \<lparr>bs_address = Localhost, bs_ports = \<lparr>sp_http = 10899, sp_faucet = 10990, sp_gossip = 11000,
        sp_dynamicRange = \<lparr>rg_first = 12000, rg_last = 12063\<rparr>\<rparr>\<rparr>,
      bc_debuggingServer = \<lparr>bd_address = Localhost, bd_port = 10991\<rparr>\<rparr>"

lemmas default_port_defs = DefaultKiod_def DefaultBiosHttp_def DefaultBiosP2p_def DefaultAnvil_def DefaultSolanaRpc_def
  DefaultSolanaFaucet_def DefaultSolanaGossip_def DefaultDebuggingServer_def isReservedPort_def in_range_def ReservedAgavePortBand_def

lemma free_host_defaults:
  assumes "\<And>p. 10000 < p \<Longrightarrow> p \<notin> exclusions"
  shows "map_option fst (resolveLocked free_host exclusions unpinned bios_only ()) = Some default_ports"
  unfolding resolveLocked_def resolve_nodeop_def resolve_solana_def node_pair_def unpinned_def unpinned_daemon_def bios_only_def
    NoOptions_def pinnedSolanaPorts_def or_default_def default_ports_def
  by (simp add: assms Let_def preferred_is_claimed pair_is_picked first_window_is_picked default_port_defs)

text \<open>
  C27: A resolved binding hands no port to two daemons: all its ports, each node's pair, Solana's implicit websocket and its
  whole dynamic range included, are distinct and outside the excluded ones (the reserved band, other live processes'). The
  planned number of nodes of each role is there. Every pin is honoured: of the key, EVM and debugging daemons, of each
  planned node's pair (and advertised address; further pins are ignored), of Solana's RPC, faucet, gossip and range. It
  rests on get-port returning no excluded port for a candidate it is asked for.
\<close>

theorem resolved_ports_are_disjoint:
  assumes "excludes H" and "resolveLocked H exclusions options topology e = Some (config, st')"
  shows "distinct (allPorts config) \<and> set (allPorts config) \<inter> exclusions = {} \<and>
    node_counts (bn_ports (bc_nodeop config)) = planned_counts topology \<and>
    pins_honoured options config"
  using resolve_takes [OF assms] by (simp add: takes_def)

lemma resolved_ports_are_disjoint_witness:
  "distinct (allPorts default_ports) \<and> set (allPorts default_ports) \<inter> {} = {} \<and>
    node_counts (bn_ports (bc_nodeop default_ports)) = planned_counts bios_only"
proof -
  obtain st' where "resolveLocked free_host {} unpinned bios_only () = Some (default_ports, st')"
    using free_host_defaults [of "{}"] by auto
  from resolved_ports_are_disjoint [OF free_host_excludes this] show ?thesis by simp
qed

text \<open>Only Solana's pins are kept from the automatic picks: a free port pinned for a daemon that is resolved later can be
  taken by the default of an earlier one, and then the pin fails. Pinning the debugging server to 10890 does so always,
  since the key daemon, resolved first, prefers it.\<close>

lemma later_pin_is_taken:
  assumes "excludes H" and "do_port (bo_kiod options) = None" and "do_port (bo_debuggingServer options) = Some pin"
    and "claim H (pinnedSolanaPorts options) None (Some DefaultKiod) tcp (exclusions, e) = Some (pin, st)"
  shows "resolveLocked H exclusions options topology e = None"
proof (rule ccontr)
  assume "resolveLocked H exclusions options topology e \<noteq> None"
  then obtain config st' where r: "resolveLocked H exclusions options topology e = Some (config, st')" by auto
  then have "bd_port (bc_kiod config) = pin"
    using assms(2,4) by (auto simp: resolveLocked_def Let_def bind_eq_Some_conv)
  with resolve_takes [OF assms(1) r] assms(3) show False
    by (auto simp: pins_honoured_def honours_def takes_def allPorts_def addressedPorts_def)
qed

lemma debugging_pin_on_kiod_default:
  assumes "do_port (bo_kiod options) = None" and "do_port (bo_debuggingServer options) = Some DefaultKiod"
    and "bo_solanaHttp options = None"
  shows "resolveLocked free_host {} options topology () = None"
proof (rule later_pin_is_taken [OF free_host_excludes assms(1,2)])
  show "claim free_host (pinnedSolanaPorts options) None (Some DefaultKiod) tcp ({}, ()) = Some (DefaultKiod, {DefaultKiod}, ())"
    using preferred_is_claimed [of DefaultKiod "({}, ())" "[]" tcp] assms(3) by (simp add: pinnedSolanaPorts_def default_port_defs)
qed

end
