(* ===== verification/Bind_Registry.thy ===== *)
theory Bind_Registry
  imports Port_Allocation
begin

text \<open>
  The cross-process port registry of \<open>cluster-tool/src/config/BindConfigProvider.ts\<close> and the registration schema of
  \<open>cluster-tool-shared/src/config/BindRegistration.ts\<close>. A registry directory maps file names to contents. The critical
  sections under the port lock are functions of that directory; a step relation runs them for the processes of a host,
  between starts, exits, kills and files that no process of the protocol wrote. The lock itself is \<open>proper-lockfile\<close>:
  a section is one step. \<open>process.kill(pid, 0)\<close> and \<open>/proc\<close> are read through \<open>alive\<close> and \<open>observed\<close>.
\<close>

section \<open>Registrations and their files\<close>

record registration =
  br_executable :: string
  br_ports :: "int list"

definition valid_registration :: "registration \<Rightarrow> bool" where
  "valid_registration r \<longleftrightarrow> distinct (br_ports r) \<and> list_all (\<lambda>p. MinimumPort \<le> p \<and> p \<le> MaximumPort) (br_ports r)"

datatype file_content = Document registration | Garbage

type_synonym directory = "string \<rightharpoonup> file_content"

fun deserialize_registration :: "file_content \<Rightarrow> registration option" where
  "deserialize_registration (Document r) = (if valid_registration r then Some r else None)"
| "deserialize_registration Garbage = None"

definition RegistryFileSuffix :: string where "RegistryFileSuffix = ''.bind-config.json''"
definition RegistryTemporaryFileSuffix :: string where "RegistryTemporaryFileSuffix = ''.tmp''"
definition MaximumPid :: int where "MaximumPid = 2147483647"

definition registryFile :: "nat \<Rightarrow> string" where
  "registryFile pid = decimal pid @ RegistryFileSuffix"

definition pid_stem :: "string \<Rightarrow> bool" where
  "pid_stem s \<longleftrightarrow> s \<noteq> [] \<and> list_all isDigit s \<and> hd s \<noteq> CHR ''0''"

definition registrationPid :: "string \<Rightarrow> string \<Rightarrow> nat option" where
  "registrationPid fileName suffix =
     (let stem = take (length fileName - length suffix) fileName
      in if pid_stem stem \<and> digits_value stem \<le> MaximumPid then Some (nat (digits_value stem)) else None)"

section \<open>Reading the registry\<close>

definition reapRegistration :: "string \<Rightarrow> directory \<Rightarrow> directory" where
  "reapRegistration fileName dir = dir(fileName := None)"

definition temporarySuffix :: string where
  "temporarySuffix = RegistryFileSuffix @ RegistryTemporaryFileSuffix"

definition stale_temporary :: "(nat \<Rightarrow> bool) \<Rightarrow> string \<Rightarrow> bool" where
  "stale_temporary alive fileName \<longleftrightarrow>
     (case registrationPid fileName temporarySuffix of None \<Rightarrow> True | Some pid \<Rightarrow> \<not> alive pid)"

definition reap_temporaries :: "(nat \<Rightarrow> bool) \<Rightarrow> string list \<Rightarrow> directory \<Rightarrow> directory" where
  "reap_temporaries alive fileNames dir =
     fold reapRegistration (filter (stale_temporary alive) (filter (\<lambda>n. ends_with n temporarySuffix) fileNames)) dir"

text \<open>The process that reads, what it sees of the others, and whether it has written its own file.\<close>

record reader =
  rd_pid :: nat
  rd_written :: bool
  rd_alive :: "nat \<Rightarrow> bool"
  rd_observed :: "nat \<Rightarrow> string"

definition recycled :: "reader \<Rightarrow> nat \<Rightarrow> registration \<Rightarrow> bool" where
  "recycled R pid r \<longleftrightarrow>
     pid \<noteq> rd_pid R \<and> rd_observed R pid \<noteq> [] \<and> br_executable r \<noteq> [] \<and> rd_observed R pid \<noteq> br_executable r"

text \<open>\<open>None\<close> for the exclusions is the throw on a live process's file that cannot be read; what was deleted before it
  stays deleted. A name that is no longer in the directory is the file its owner deleted after the listing.\<close>

fun read_registrations :: "reader \<Rightarrow> string list \<Rightarrow> directory \<Rightarrow> int set \<Rightarrow> directory \<times> int set option" where
  "read_registrations R [] dir exclusions = (dir, Some exclusions)"
| "read_registrations R (fileName # fileNames) dir exclusions =
     (case registrationPid fileName RegistryFileSuffix of
        None \<Rightarrow> read_registrations R fileNames (reapRegistration fileName dir) exclusions
      | Some pid \<Rightarrow>
          if \<not> rd_alive R pid then read_registrations R fileNames (reapRegistration fileName dir) exclusions
          else if pid = rd_pid R \<and> \<not> rd_written R then read_registrations R fileNames dir exclusions
          else (case dir fileName of
                  None \<Rightarrow> read_registrations R fileNames dir exclusions
                | Some content \<Rightarrow>
                    (case deserialize_registration content of
                       None \<Rightarrow> (dir, None)
                     | Some r \<Rightarrow>
                         if recycled R pid r then read_registrations R fileNames (reapRegistration fileName dir) exclusions
                         else read_registrations R fileNames dir (exclusions \<union> set (br_ports r)))))"

definition reserved_ports :: "int set" where
  "reserved_ports = set [rg_first ReservedAgavePortBand..rg_last ReservedAgavePortBand]"

definition readRegistryPortExclusions :: "reader \<Rightarrow> string list \<Rightarrow> directory \<Rightarrow> directory \<times> int set option" where
  "readRegistryPortExclusions R fileNames dir =
     read_registrations R (filter (\<lambda>n. ends_with n RegistryFileSuffix) fileNames)
       (reap_temporaries (rd_alive R) fileNames dir) reserved_ports"

definition readOwnRegisteredPorts :: "reader \<Rightarrow> directory \<Rightarrow> int list" where
  "readOwnRegisteredPorts R dir =
     (if rd_written R
      then (case Option.bind (dir (registryFile (rd_pid R))) deserialize_registration of Some r \<Rightarrow> br_ports r | None \<Rightarrow> [])
      else [])"

section \<open>Writing it\<close>

text \<open>The temporary file and its renaming; \<open>None\<close> when the schema refuses the registration, before anything is written.\<close>

definition writeRegistration :: "nat \<Rightarrow> registration \<Rightarrow> directory \<Rightarrow> directory option" where
  "writeRegistration pid r dir =
     (if valid_registration r
      then Some (dir(registryFile pid @ RegistryTemporaryFileSuffix := None, registryFile pid \<mapsto> Document r)) else None)"

definition registerResolved :: "(string \<Rightarrow> bool) \<Rightarrow> reader \<Rightarrow> bind_config \<Rightarrow> directory \<Rightarrow> directory option" where
  "registerResolved isLocalAddress R config dir =
     writeRegistration (rd_pid R)
       \<lparr>br_executable = rd_observed R (rd_pid R),
        br_ports = uniq (readOwnRegisteredPorts R dir @ locallyBoundPorts isLocalAddress config)\<rparr> dir"

text \<open>\<open>resolve\<close> under the lock: the directory it leaves, and the binding when it did not throw.\<close>

definition resolve_binding ::
  "'e host_probe \<Rightarrow> (string \<Rightarrow> bool) \<Rightarrow> reader \<Rightarrow> string list \<Rightarrow> bind_options \<Rightarrow> cluster_topology \<Rightarrow> 'e \<Rightarrow> directory \<Rightarrow>
   directory \<times> bind_config option" where
  "resolve_binding H isLocalAddress R fileNames options topology e dir =
     (case readRegistryPortExclusions R fileNames dir of
        (dir1, None) \<Rightarrow> (dir1, None)
      | (dir1, Some exclusions) \<Rightarrow>
          (case resolveLocked H exclusions options topology e of
             None \<Rightarrow> (dir1, None)
           | Some (config, st) \<Rightarrow>
               (case registerResolved isLocalAddress R config dir1 of
                  None \<Rightarrow> (dir1, None)
                | Some dir2 \<Rightarrow> (dir2, Some config))))"

definition isPortBindable :: "'e host_probe \<Rightarrow> int \<Rightarrow> 'e \<Rightarrow> bool \<times> 'e" where
  "isPortBindable H p e =
     (let (got, e1) = hp_getPort H [p] {} e in if got = p then hp_isIpv6PortFree H p e1 else (False, e1))"

fun unbindable_ports :: "'e host_probe \<Rightarrow> int list \<Rightarrow> 'e \<Rightarrow> int list \<times> 'e" where
  "unbindable_ports H [] e = ([], e)"
| "unbindable_ports H (p # ps) e =
     (let (ok, e1) = isPortBindable H p e; (rest, e2) = unbindable_ports H ps e1
      in (if ok then rest else p # rest, e2))"

datatype refusal = InsideReservedBand "int list" | HeldElsewhere "int list" | NoLongerBind "int list"

datatype claim_outcome = Claimed | Refused refusal | Threw

definition claimResolved ::
  "'e host_probe \<Rightarrow> (string \<Rightarrow> bool) \<Rightarrow> reader \<Rightarrow> string list \<Rightarrow> bind_config \<Rightarrow> 'e \<Rightarrow> directory \<Rightarrow> directory \<times> claim_outcome" where
  "claimResolved H isLocalAddress R fileNames config e dir =
     (let e1 = hp_clearLockedPorts H e; ownPorts = readOwnRegisteredPorts R dir
      in case readRegistryPortExclusions R fileNames dir of
           (dir1, None) \<Rightarrow> (dir1, Threw)
         | (dir1, Some exclusions) \<Rightarrow>
             (let ports = locallyBoundPorts isLocalAddress config;
                  reserved = filter isReservedPort ports;
                  heldElsewhere = filter (\<lambda>p. \<not> isReservedPort p \<and> p \<in> exclusions \<and> p \<notin> set ownPorts) ports
              in if reserved \<noteq> [] then (dir1, Refused (InsideReservedBand reserved))
                 else if heldElsewhere \<noteq> [] then (dir1, Refused (HeldElsewhere heldElsewhere))
                 else (let (unbindable, e2) = unbindable_ports H ports e1
                       in if unbindable \<noteq> [] then (dir1, Refused (NoLongerBind unbindable))
                          else (case registerResolved isLocalAddress R config dir1 of
                                  None \<Rightarrow> (dir1, Threw)
                                | Some dir2 \<Rightarrow> (dir2, Claimed)))))"

text \<open>The pickers outside a resolve: they read the registry and write nothing.\<close>

definition findAvailable ::
  "'e host_probe \<Rightarrow> reader \<Rightarrow> string list \<Rightarrow> int \<Rightarrow> port_protocol \<Rightarrow> 'e \<Rightarrow> directory \<Rightarrow> directory \<times> int option" where
  "findAvailable H R fileNames preferred protocol e dir =
     (case readRegistryPortExclusions R fileNames dir of
        (dir1, None) \<Rightarrow> (dir1, None)
      | (dir1, Some exclusions) \<Rightarrow>
          (dir1, case hp_ranges H of None \<Rightarrow> None
                 | Some ranges \<Rightarrow> map_option fst (pickPort H None (Some preferred) exclusions protocol ranges e)))"

definition findAvailableSolanaRpc ::
  "'e host_probe \<Rightarrow> reader \<Rightarrow> string list \<Rightarrow> int \<Rightarrow> 'e \<Rightarrow> directory \<Rightarrow> directory \<times> int option" where
  "findAvailableSolanaRpc H R fileNames preferred e dir =
     (case readRegistryPortExclusions R fileNames dir of
        (dir1, None) \<Rightarrow> (dir1, None)
      | (dir1, Some exclusions) \<Rightarrow>
          (dir1, case hp_ranges H of None \<Rightarrow> None
                 | Some ranges \<Rightarrow> map_option fst (pickSolanaRpc H None (Some preferred) exclusions ranges e)))"

definition findAvailableRange ::
  "'e host_probe \<Rightarrow> reader \<Rightarrow> string list \<Rightarrow> 'e \<Rightarrow> directory \<Rightarrow> directory \<times> port_range option" where
  "findAvailableRange H R fileNames e dir =
     (case readRegistryPortExclusions R fileNames dir of
        (dir1, None) \<Rightarrow> (dir1, None)
      | (dir1, Some exclusions) \<Rightarrow>
          (dir1, case hp_ranges H of None \<Rightarrow> None
                 | Some ranges \<Rightarrow> map_option fst (pickPortRange H None exclusions ranges e)))"

text \<open>The ad-hoc reservations of a binding: the labels that asked, each with its slot.\<close>

definition claimAdHocPorts :: "node_ports list \<Rightarrow> (string \<times> nat) list \<Rightarrow> string \<Rightarrow> (node_ports \<times> (string \<times> nat) list) option" where
  "claimAdHocPorts pool claims label =
     (case map_of claims label of
        Some index \<Rightarrow> Some (pool ! index, claims)
      | None \<Rightarrow> if length claims < length pool
                then Some (pool ! length claims, claims @ [(label, length claims)]) else None)"

section \<open>Names\<close>

lemma registrationPid_decimal:
  assumes "0 < pid" and "int pid \<le> MaximumPid"
  shows "registrationPid (decimal pid @ suffix) suffix = Some pid"
  using assms decimal_digits [of pid] decimal_no_leading_zero [of pid]
  by (simp add: registrationPid_def pid_stem_def)

lemma registrationPid_registryFile [simp]:
  "\<lbrakk>0 < pid; int pid \<le> MaximumPid\<rbrakk> \<Longrightarrow> registrationPid (registryFile pid) RegistryFileSuffix = Some pid"
  by (simp add: registryFile_def registrationPid_decimal)

lemma registryFile_inject [simp]: "registryFile pid = registryFile pid' \<longleftrightarrow> pid = pid'"
  by (simp add: registryFile_def)

lemma registryFile_suffix [simp]: "ends_with (registryFile pid) RegistryFileSuffix"
  by (simp add: registryFile_def)

lemma ends_with_last: "\<lbrakk>ends_with s e; e \<noteq> []\<rbrakk> \<Longrightarrow> last s = last e"
  by (metis ends_with_split last_appendR)

lemma registryFile_last: "last (registryFile pid) = CHR ''n''"
  by (simp add: registryFile_def RegistryFileSuffix_def)

lemma temporary_not_registry [simp]: "\<not> ends_with (registryFile pid) temporarySuffix"
  using ends_with_last [of "registryFile pid" temporarySuffix] registryFile_last [of pid]
  by (auto simp: temporarySuffix_def RegistryFileSuffix_def RegistryTemporaryFileSuffix_def)

lemma registryFile_not_temporary [simp]:
  "registryFile pid \<noteq> registryFile pid' @ RegistryTemporaryFileSuffix" "registryFile pid' @ RegistryTemporaryFileSuffix \<noteq> registryFile pid"
proof -
  have "last (registryFile pid' @ RegistryTemporaryFileSuffix) = CHR ''p''" by (simp add: RegistryTemporaryFileSuffix_def)
  then show "registryFile pid \<noteq> registryFile pid' @ RegistryTemporaryFileSuffix" using registryFile_last [of pid] by auto
  then show "registryFile pid' @ RegistryTemporaryFileSuffix \<noteq> registryFile pid" by metis
qed

section \<open>A read keeps and counts what is live\<close>

text \<open>A file the reader may not delete: a live process wrote it, and it is not taken for a recycled one.\<close>

definition live_file :: "reader \<Rightarrow> directory \<Rightarrow> nat \<Rightarrow> registration \<Rightarrow> bool" where
  "live_file R dir pid r \<longleftrightarrow>
     0 < pid \<and> int pid \<le> MaximumPid \<and> rd_alive R pid \<and> (pid = rd_pid R \<longrightarrow> rd_written R) \<and>
     dir (registryFile pid) = Some (Document r) \<and> valid_registration r \<and> \<not> recycled R pid r"

lemma fold_reap: "fold reapRegistration names dir n = (if n \<in> set names then None else dir n)"
  by (induction names arbitrary: dir) (auto simp: reapRegistration_def)

lemma reap_temporaries_registryFile [simp]:
  "reap_temporaries alive fileNames dir (registryFile pid) = dir (registryFile pid)"
  by (simp add: reap_temporaries_def fold_reap)

lemma live_file_cong: "dir (registryFile pid) = dir' (registryFile pid) \<Longrightarrow> live_file R dir pid r = live_file R dir' pid r"
  by (simp add: live_file_def)

lemma read_registrations_live:
  assumes "read_registrations R names dir exclusions = (dir', result)" and "live_file R dir pid r"
  shows "live_file R dir' pid r \<and>
    (\<forall>all. result = Some all \<longrightarrow> exclusions \<subseteq> all \<and> (registryFile pid \<in> set names \<longrightarrow> set (br_ports r) \<subseteq> all))"
  using assms
proof (induction R names dir exclusions rule: read_registrations.induct)
  case (2 R fileName fileNames dir exclusions)
  show ?case
  proof (cases "fileName = registryFile pid")
    case True
    with 2(8) have step: "registrationPid fileName RegistryFileSuffix = Some pid" "rd_alive R pid"
        "\<not> (pid = rd_pid R \<and> \<not> rd_written R)" "dir fileName = Some (Document r)"
        "deserialize_registration (Document r) = Some r" "\<not> recycled R pid r"
      by (auto simp: live_file_def)
    then have "read_registrations R fileNames dir (exclusions \<union> set (br_ports r)) = (dir', result)"
      using 2(7) by auto
    from 2(6) [OF step(1) _ step(3,4,5,6) this 2(8)] step(2) show ?thesis by auto
  next
    case False
    then have keep: "live_file R (reapRegistration fileName dir) pid r"
      using 2(8) live_file_cong [of dir pid "reapRegistration fileName dir"] by (simp add: reapRegistration_def)
    from 2 False keep show ?thesis
      by (auto split: option.splits if_splits)
  qed
qed auto

lemma readRegistryPortExclusions_live:
  assumes "readRegistryPortExclusions R names dir = (dir', result)" and "live_file R dir pid r" and "registryFile pid \<in> set names"
  shows "live_file R dir' pid r \<and> (\<forall>all. result = Some all \<longrightarrow> set (br_ports r) \<subseteq> all)"
proof -
  have "live_file R (reap_temporaries (rd_alive R) names dir) pid r"
    using assms(2) live_file_cong [of dir pid "reap_temporaries (rd_alive R) names dir"] by simp
  from read_registrations_live [OF _ this] assms(1,3) show ?thesis by (simp add: readRegistryPortExclusions_def)
qed

lemma read_registrations_grows:
  "read_registrations R names dir exclusions = (dir', Some all) \<Longrightarrow> exclusions \<subseteq> all"
  by (induction R names dir exclusions rule: read_registrations.induct) (auto split: option.splits if_splits)

lemma readRegistryPortExclusions_reserved:
  "readRegistryPortExclusions R names dir = (dir', Some all) \<Longrightarrow> reserved_ports \<subseteq> all"
  by (simp add: readRegistryPortExclusions_def read_registrations_grows)

text \<open>After a read that did not throw, every listed registration still there belongs to a live process; and a live
  process's file that cannot be read is never deleted: the read throws.\<close>

lemma read_registrations_other:
  "\<lbrakk>read_registrations R names dir exclusions = (dir', result); dir n = None\<rbrakk> \<Longrightarrow> dir' n = None"
  by (induction R names dir exclusions rule: read_registrations.induct)
    (auto simp: reapRegistration_def split: option.splits if_splits)

lemma reaped_stays_reaped:
  "read_registrations R names (reapRegistration n dir) exclusions = (dir', result) \<Longrightarrow> dir' n = None"
  by (erule read_registrations_other) (simp add: reapRegistration_def)

lemma read_registrations_reaps:
  "\<lbrakk>read_registrations R names dir exclusions = (dir', Some all); n \<in> set names; dir' n \<noteq> None\<rbrakk> \<Longrightarrow>
     \<exists>pid. registrationPid n RegistryFileSuffix = Some pid \<and> rd_alive R pid"
  by (induction R names dir exclusions rule: read_registrations.induct)
    (auto dest: reaped_stays_reaped split: option.splits if_splits)

lemma read_registrations_bad:
  assumes "read_registrations R names dir exclusions = (dir', result)" and "registryFile pid \<in> set names"
    and "0 < pid" "int pid \<le> MaximumPid" "rd_alive R pid" "pid \<noteq> rd_pid R"
    and "dir (registryFile pid) = Some content" "deserialize_registration content = None"
  shows "result = None \<and> dir' (registryFile pid) = Some content"
  using assms
proof (induction R names dir exclusions rule: read_registrations.induct)
  case (2 R fileName fileNames dir exclusions)
  show ?case
  proof (cases "fileName = registryFile pid")
    case True
    with 2(7,9-14) show ?thesis by simp
  next
    case False
    then have rest: "registryFile pid \<in> set fileNames" "reapRegistration fileName dir (registryFile pid) = Some content"
      using 2(8,13) by (auto simp: reapRegistration_def)
    show ?thesis
    proof (cases "registrationPid fileName RegistryFileSuffix")
      case None
      with 2(7) 2(1) [OF None _ rest(1) 2(9-12) rest(2) 2(14)] show ?thesis by simp
    next
      case (Some owner)
      then show ?thesis
        using 2(7) 2(2) [OF Some _ _ rest(1) 2(9-12) rest(2) 2(14)] 2(3) [OF Some _ _ _ rest(1) 2(9-14)]
          2(4) [OF Some _ _ _ _ rest(1) 2(9-14)] 2(5) [OF Some _ _ _ _ _ _ rest(1) 2(9-12) rest(2) 2(14)]
          2(6) [OF Some _ _ _ _ _ _ rest(1) 2(9-14)] 2(13)
        by (auto split: option.splits if_splits)
    qed
  qed
qed auto

section \<open>Claims under the lock\<close>

lemma in_reserved [simp]: "p \<in> reserved_ports \<longleftrightarrow> isReservedPort p"
  by (simp add: reserved_ports_def isReservedPort_def in_range_def del: upto_rec_numeral)

lemma set_locallyBoundPorts: "set (locallyBoundPorts isLocal c) \<subseteq> set (allPorts c)"
  by (auto simp: locallyBoundPorts_def allPorts_def)

lemma registerResolved_Some:
  assumes "registerResolved isLocal R config dir = Some dir'"
  shows "\<exists>r. valid_registration r \<and> br_executable r = rd_observed R (rd_pid R) \<and>
    set (br_ports r) = set (readOwnRegisteredPorts R dir) \<union> set (locallyBoundPorts isLocal config) \<and>
    dir' = dir(registryFile (rd_pid R) @ RegistryTemporaryFileSuffix := None, registryFile (rd_pid R) \<mapsto> Document r)"
  using assms by (auto simp: registerResolved_def writeRegistration_def Let_def split: if_splits)

lemma resolve_binding_Some:
  assumes "excludes H" and "resolve_binding H isLocal R names options topology e dir = (dir', Some config)"
  shows "\<exists>dir1 all. readRegistryPortExclusions R names dir = (dir1, Some all) \<and>
    registerResolved isLocal R config dir1 = Some dir' \<and> distinct (allPorts config) \<and> set (allPorts config) \<inter> all = {}"
proof -
  obtain dir1 all st where "readRegistryPortExclusions R names dir = (dir1, Some all)"
      "resolveLocked H all options topology e = Some (config, st)" "registerResolved isLocal R config dir1 = Some dir'"
    using assms(2) by (auto simp: resolve_binding_def split: prod.splits option.splits)
  with resolve_takes [OF assms(1) this(2)] show ?thesis by (auto simp: takes_def)
qed

lemma resolve_binding_None:
  "resolve_binding H isLocal R names options topology e dir = (dir', None) \<Longrightarrow>
     fst (readRegistryPortExclusions R names dir) = dir'"
  by (auto simp: resolve_binding_def split: prod.splits option.splits)

lemma claimResolved_Claimed:
  assumes "claimResolved H isLocal R names config e dir = (dir', Claimed)"
  shows "\<exists>dir1 all. readRegistryPortExclusions R names dir = (dir1, Some all) \<and>
    registerResolved isLocal R config dir1 = Some dir' \<and>
    (\<forall>p \<in> set (locallyBoundPorts isLocal config). \<not> isReservedPort p \<and> (p \<in> all \<longrightarrow> p \<in> set (readOwnRegisteredPorts R dir)))"
  using assms
  by (auto simp: claimResolved_def Let_def filter_empty_conv split: prod.splits option.splits if_splits)

lemma claimResolved_other:
  "\<lbrakk>claimResolved H isLocal R names config e dir = (dir', outcome); outcome \<noteq> Claimed\<rbrakk> \<Longrightarrow>
     fst (readRegistryPortExclusions R names dir) = dir'"
  by (auto simp: claimResolved_def Let_def split: prod.splits option.splits if_splits)

section \<open>The processes of a host\<close>

text \<open>\<open>pr_written\<close> is \<open>ownRegistrationWritten\<close>; \<open>pr_held\<close> collects the local ports of the bindings the process was
  given. \<open>pr_executable\<close> is what \<open>/proc\<close> shows of it to a reader that may look.\<close>

record process =
  pr_executable :: string
  pr_written :: bool
  pr_held :: "int set"

record 'e registry_host =
  ho_processes :: "nat \<rightharpoonup> process"
  ho_files :: directory
  ho_env :: 'e

definition reads :: "'e registry_host \<Rightarrow> nat \<Rightarrow> reader \<Rightarrow> string list \<Rightarrow> bool" where
  "reads h pid R names \<longleftrightarrow>
     rd_pid R = pid \<and> (\<exists>p. ho_processes h pid = Some p \<and> rd_written R = pr_written p) \<and>
     (\<forall>q. rd_alive R q \<longleftrightarrow> ho_processes h q \<noteq> None) \<and>
     (\<forall>q p. ho_processes h q = Some p \<longrightarrow> rd_observed R q \<in> {pr_executable p, []}) \<and>
     dom (ho_files h) \<subseteq> set names"

definition hold :: "nat \<Rightarrow> int set \<Rightarrow> 'e registry_host \<Rightarrow> 'e registry_host" where
  "hold pid ports h = h\<lparr>ho_processes := (ho_processes h)(pid :=
     map_option (\<lambda>p. p\<lparr>pr_written := True, pr_held := pr_held p \<union> ports\<rparr>) (ho_processes h pid))\<rparr>"

definition published :: "'e registry_host \<Rightarrow> string \<Rightarrow> bool" where
  "published h n \<longleftrightarrow> (\<exists>pid p. n = registryFile pid \<and> ho_processes h pid = Some p \<and> pr_written p)"

inductive registry_step :: "'e host_probe \<Rightarrow> (string \<Rightarrow> bool) \<Rightarrow> 'e registry_host \<Rightarrow> 'e registry_host \<Rightarrow> bool"
  for H isLocal where
  spawn: "\<lbrakk>0 < pid; int pid \<le> MaximumPid; ho_processes h pid = None\<rbrakk> \<Longrightarrow>
    registry_step H isLocal h
      (h\<lparr>ho_processes := (ho_processes h)(pid \<mapsto> \<lparr>pr_executable = exe, pr_written = False, pr_held = {}\<rparr>)\<rparr>)"
| resolves: "\<lbrakk>reads h pid R names;
    resolve_binding H isLocal R names options topology (ho_env h) (ho_files h) = (files, Some config)\<rbrakk> \<Longrightarrow>
    registry_step H isLocal h (hold pid (set (locallyBoundPorts isLocal config)) (h\<lparr>ho_files := files\<rparr>))"
| resolve_throws: "\<lbrakk>reads h pid R names;
    resolve_binding H isLocal R names options topology (ho_env h) (ho_files h) = (files, None)\<rbrakk> \<Longrightarrow>
    registry_step H isLocal h (h\<lparr>ho_files := files\<rparr>)"
| reclaims: "\<lbrakk>reads h pid R names; claimResolved H isLocal R names config (ho_env h) (ho_files h) = (files, Claimed)\<rbrakk> \<Longrightarrow>
    registry_step H isLocal h (hold pid (set (locallyBoundPorts isLocal config)) (h\<lparr>ho_files := files\<rparr>))"
| reclaim_fails: "\<lbrakk>reads h pid R names; claimResolved H isLocal R names config (ho_env h) (ho_files h) = (files, outcome);
    outcome \<noteq> Claimed\<rbrakk> \<Longrightarrow>
    registry_step H isLocal h (h\<lparr>ho_files := files\<rparr>)"
| looks: "\<lbrakk>reads h pid R names; readRegistryPortExclusions R names (ho_files h) = (files, result)\<rbrakk> \<Longrightarrow>
    registry_step H isLocal h (h\<lparr>ho_files := files\<rparr>)"
| exits: "ho_processes h pid = Some p \<Longrightarrow>
    registry_step H isLocal h
      (h\<lparr>ho_processes := (ho_processes h)(pid := None),
         ho_files := (if pr_written p then (ho_files h)(registryFile pid := None) else ho_files h)\<rparr>)"
| killed: "registry_step H isLocal h (h\<lparr>ho_processes := (ho_processes h)(pid := None)\<rparr>)"
| leaves: "\<not> published h n \<Longrightarrow> registry_step H isLocal h (h\<lparr>ho_files := (ho_files h)(n \<mapsto> content)\<rparr>)"
| elsewhere: "registry_step H isLocal h (h\<lparr>ho_env := env\<rparr>)"

inductive registry_reachable :: "'e host_probe \<Rightarrow> (string \<Rightarrow> bool) \<Rightarrow> 'e registry_host \<Rightarrow> bool" for H isLocal where
  booted: "ho_processes h = Map.empty \<Longrightarrow> registry_reachable H isLocal h"
| stepped: "\<lbrakk>registry_reachable H isLocal h; registry_step H isLocal h h'\<rbrakk> \<Longrightarrow> registry_reachable H isLocal h'"

section \<open>No port is held twice\<close>

definition registered :: "directory \<Rightarrow> nat \<Rightarrow> process \<Rightarrow> bool" where
  "registered dir pid p \<longleftrightarrow>
     0 < pid \<and> int pid \<le> MaximumPid \<and>
     (if pr_written p
      then \<exists>r. dir (registryFile pid) = Some (Document r) \<and> valid_registration r \<and> set (br_ports r) = pr_held p \<and>
        br_executable r \<in> {pr_executable p, []}
      else pr_held p = {})"

definition registry_inv :: "'e registry_host \<Rightarrow> bool" where
  "registry_inv h \<longleftrightarrow>
     (\<forall>pid p. ho_processes h pid = Some p \<longrightarrow> registered (ho_files h) pid p) \<and>
     (\<forall>pid q p p'. ho_processes h pid = Some p \<longrightarrow> ho_processes h q = Some p' \<longrightarrow> pid \<noteq> q \<longrightarrow> pr_held p \<inter> pr_held p' = {})"

lemma registered_cong: "dir (registryFile pid) = dir' (registryFile pid) \<Longrightarrow> registered dir pid p = registered dir' pid p"
  by (simp add: registered_def)

lemma registered_live_file:
  assumes "reads h pid R names" and "ho_processes h q = Some p" and "registered (ho_files h) q p" and "pr_written p"
  shows "\<exists>r. live_file R (ho_files h) q r \<and> set (br_ports r) = pr_held p \<and> br_executable r \<in> {pr_executable p, []} \<and>
    registryFile q \<in> set names"
proof -
  obtain r where r: "ho_files h (registryFile q) = Some (Document r)" "valid_registration r" "set (br_ports r) = pr_held p"
      "br_executable r \<in> {pr_executable p, []}" "0 < q" "int q \<le> MaximumPid"
    using assms(3,4) by (auto simp: registered_def)
  have seen: "rd_observed R q \<in> {pr_executable p, []}" "rd_alive R q" "q = rd_pid R \<longrightarrow> rd_written R" "registryFile q \<in> set names"
    using assms r(1) by (auto simp: reads_def)
  with r have "live_file R (ho_files h) q r" by (auto simp: live_file_def recycled_def)
  with r seen show ?thesis by blast
qed

lemma read_registered:
  assumes "reads h pid R names" and "readRegistryPortExclusions R names (ho_files h) = (files, result)"
    and "ho_processes h q = Some p" and "registered (ho_files h) q p"
  shows "registered files q p \<and> (\<forall>all. result = Some all \<longrightarrow> pr_held p \<subseteq> all)"
proof (cases "pr_written p")
  case True
  from registered_live_file [OF assms(1,3,4) True] obtain r where r: "live_file R (ho_files h) q r" "set (br_ports r) = pr_held p"
      "br_executable r \<in> {pr_executable p, []}" "registryFile q \<in> set names"
    by blast
  from readRegistryPortExclusions_live [OF assms(2) r(1,4)] r(2,3) True show ?thesis
    by (auto simp: registered_def live_file_def)
next
  case False
  with assms(4) show ?thesis by (simp add: registered_def)
qed

lemma own_ports:
  assumes "reads h pid R names" and "ho_processes h pid = Some p" and "registered dir pid p"
  shows "set (readOwnRegisteredPorts R dir) = pr_held p"
proof -
  have R: "rd_pid R = pid" "rd_written R = pr_written p" using assms(1,2) by (auto simp: reads_def)
  show ?thesis
  proof (cases "pr_written p")
    case True
    then obtain r where "dir (registryFile pid) = Some (Document r)" "valid_registration r" "set (br_ports r) = pr_held p"
      using assms(3) by (auto simp: registered_def)
    with R True show ?thesis by (simp add: readOwnRegisteredPorts_def)
  next
    case False
    with R assms(3) show ?thesis by (simp add: readOwnRegisteredPorts_def registered_def)
  qed
qed

lemma registry_invD:
  assumes "registry_inv h"
  shows "ho_processes h pid = Some p \<Longrightarrow> registered (ho_files h) pid p"
    and "\<lbrakk>ho_processes h pid = Some p; ho_processes h q = Some p'; pid \<noteq> q\<rbrakk> \<Longrightarrow> pr_held p \<inter> pr_held p' = {}"
  using assms by (simp_all add: registry_inv_def)

lemma registry_invI:
  assumes "\<And>q p. ho_processes h q = Some p \<Longrightarrow> registered (ho_files h) q p"
    and "\<And>q q' p p'. \<lbrakk>ho_processes h q = Some p; ho_processes h q' = Some p'; q \<noteq> q'\<rbrakk> \<Longrightarrow> pr_held p \<inter> pr_held p' = {}"
  shows "registry_inv h"
  unfolding registry_inv_def using assms by simp

lemma files_inv:
  assumes "registry_inv h" and "\<And>q p. ho_processes h q = Some p \<Longrightarrow> registered (ho_files h) q p \<Longrightarrow> registered files q p"
  shows "registry_inv (h\<lparr>ho_files := files\<rparr>)"
  using assms unfolding registry_inv_def by simp

lemma register_inv:
  assumes inv: "registry_inv h" and R: "reads h pid R names"
    and read: "readRegistryPortExclusions R names (ho_files h) = (dir1, Some all)"
    and reg: "registerResolved isLocal R config dir1 = Some files"
    and p: "ho_processes h pid = Some p"
    and free: "\<forall>port \<in> set (locallyBoundPorts isLocal config). port \<in> all \<longrightarrow> port \<in> pr_held p"
  shows "registry_inv (hold pid (set (locallyBoundPorts isLocal config)) (h\<lparr>ho_files := files\<rparr>))"
proof -
  note kept = read_registered [OF R read]
  obtain r where r: "valid_registration r" "br_executable r = rd_observed R (rd_pid R)"
      "set (br_ports r) = set (readOwnRegisteredPorts R dir1) \<union> set (locallyBoundPorts isLocal config)"
      "files = dir1(registryFile (rd_pid R) @ RegistryTemporaryFileSuffix := None, registryFile (rd_pid R) \<mapsto> Document r)"
    using registerResolved_Some [OF reg] by blast
  have pid: "rd_pid R = pid" and seen: "rd_observed R pid \<in> {pr_executable p, []}" using R p by (auto simp: reads_def)
  have own: "set (br_ports r) = pr_held p \<union> set (locallyBoundPorts isLocal config)"
    using r(3) own_ports [OF R p] kept [OF p registry_invD(1) [OF inv p]] by simp
  have mine: "registered files pid (p\<lparr>pr_written := True, pr_held := pr_held p \<union> set (locallyBoundPorts isLocal config)\<rparr>)"
    using registry_invD(1) [OF inv p] r(1,2,4) own seen pid by (simp add: registered_def)
  have others: "registered files q p'" "set (locallyBoundPorts isLocal config) \<inter> pr_held p' = {}"
    if "ho_processes h q = Some p'" "q \<noteq> pid" for q p'
  proof -
    have "files (registryFile q) = dir1 (registryFile q)" using r(4) pid that(2) by simp
    with kept [OF that(1) registry_invD(1) [OF inv that(1)]] registered_cong [of files q dir1]
    show "registered files q p'" by simp
    have "pr_held p' \<subseteq> all" using kept [OF that(1) registry_invD(1) [OF inv that(1)]] by simp
    with free registry_invD(2) [OF inv p that(1)] that(2)
    show "set (locallyBoundPorts isLocal config) \<inter> pr_held p' = {}" by blast
  qed
  show ?thesis
    unfolding registry_inv_def
  proof (intro conjI allI impI)
    fix q p' assume "ho_processes (hold pid (set (locallyBoundPorts isLocal config)) (h\<lparr>ho_files := files\<rparr>)) q = Some p'"
    then show "registered (ho_files (hold pid (set (locallyBoundPorts isLocal config)) (h\<lparr>ho_files := files\<rparr>))) q p'"
      using p mine others(1) by (auto simp: hold_def split: if_splits)
  next
    fix q q' a b
    assume a: "ho_processes (hold pid (set (locallyBoundPorts isLocal config)) (h\<lparr>ho_files := files\<rparr>)) q = Some a"
      and b: "ho_processes (hold pid (set (locallyBoundPorts isLocal config)) (h\<lparr>ho_files := files\<rparr>)) q' = Some b" and "q \<noteq> q'"
    consider "q = pid" | "q' = pid" | "q \<noteq> pid" "q' \<noteq> pid" by blast
    then show "pr_held a \<inter> pr_held b = {}"
    proof cases
      case 1
      with b \<open>q \<noteq> q'\<close> have "ho_processes h q' = Some b" by (simp add: hold_def)
      with others(2) [OF this] registry_invD(2) [OF inv p this] 1 a p \<open>q \<noteq> q'\<close> show ?thesis by (auto simp: hold_def)
    next
      case 2
      with a \<open>q \<noteq> q'\<close> have "ho_processes h q = Some a" by (simp add: hold_def)
      with others(2) [OF this] registry_invD(2) [OF inv p this] 2 b p \<open>q \<noteq> q'\<close> show ?thesis by (auto simp: hold_def)
    next
      case 3
      with a b registry_invD(2) [OF inv _ _ \<open>q \<noteq> q'\<close>] show ?thesis by (simp add: hold_def)
    qed
  qed
qed

lemma registry_step_inv:
  assumes "registry_step H isLocal h h'" and "excludes H" and "registry_inv h"
  shows "registry_inv h'"
  using assms
proof (induction rule: registry_step.induct)
  case (spawn pid h exe)
  have fresh: "registered (ho_files h) pid \<lparr>pr_executable = exe, pr_written = False, pr_held = {}\<rparr>"
    using spawn(1,2) by (simp add: registered_def)
  show ?case
    by (rule registry_invI) (use fresh registry_invD [OF spawn(5)] in \<open>auto split: if_splits\<close>)
next
  case (resolves h pid R names options topology files config)
  from resolve_binding_Some [OF resolves(3) resolves(2)] obtain dir1 all where
    r: "readRegistryPortExclusions R names (ho_files h) = (dir1, Some all)" "registerResolved isLocal R config dir1 = Some files"
      "set (allPorts config) \<inter> all = {}" by blast
  obtain p where p: "ho_processes h pid = Some p" using resolves(1) by (auto simp: reads_def)
  from register_inv [OF resolves(4,1) r(1,2) p] r(3) set_locallyBoundPorts [of isLocal config] show ?case by blast
next
  case (resolve_throws h pid R names options topology files)
  then show ?case
    using files_inv [OF resolve_throws(4)] read_registered [OF resolve_throws(1)] resolve_binding_None [OF resolve_throws(2)]
    by (metis prod.collapse)
next
  case (reclaims h pid R names config files)
  from claimResolved_Claimed [OF reclaims(2)] obtain dir1 all where
    r: "readRegistryPortExclusions R names (ho_files h) = (dir1, Some all)" "registerResolved isLocal R config dir1 = Some files"
      "\<forall>p \<in> set (locallyBoundPorts isLocal config). \<not> isReservedPort p \<and>
         (p \<in> all \<longrightarrow> p \<in> set (readOwnRegisteredPorts R (ho_files h)))" by blast
  obtain p where p: "ho_processes h pid = Some p" using reclaims(1) by (auto simp: reads_def)
  from register_inv [OF reclaims(4,1) r(1,2) p] r(3) own_ports [OF reclaims(1) p registry_invD(1) [OF reclaims(4) p]]
  show ?case by blast
next
  case (reclaim_fails h pid R names config files outcome)
  then show ?case
    using files_inv [OF reclaim_fails(5)] read_registered [OF reclaim_fails(1)] claimResolved_other [OF reclaim_fails(2,3)]
    by (metis prod.collapse)
next
  case (looks h pid R names files result)
  from files_inv [OF looks(4)] read_registered [OF looks(1,2)] show ?case by blast
next
  case (exits h pid p)
  have "registered (if pr_written p then (ho_files h)(registryFile pid := None) else ho_files h) q p'"
    if "registered (ho_files h) q p'" "q \<noteq> pid" for q p'
    using that registered_cong [of "ho_files h" q "(ho_files h)(registryFile pid := None)"] by simp
  then show ?case
    by (intro registry_invI) (use registry_invD [OF exits(3)] in \<open>auto split: if_splits\<close>)
next
  case (killed h pid)
  show ?case
    by (rule registry_invI) (use registry_invD [OF killed(2)] in \<open>auto split: if_splits\<close>)
next
  case (leaves h n content)
  show ?case
  proof (rule files_inv [OF leaves(3)])
    fix q p assume q: "ho_processes h q = Some p" and r: "registered (ho_files h) q p"
    show "registered ((ho_files h)(n \<mapsto> content)) q p"
    proof (cases "pr_written p")
      case True
      with leaves(1) q have "n \<noteq> registryFile q" by (auto simp: published_def)
      with r registered_cong [of "ho_files h" q "(ho_files h)(n \<mapsto> content)"] show ?thesis by simp
    qed (use r in \<open>simp add: registered_def\<close>)
  qed
next
  case (elsewhere h env)
  then show ?case by (simp add: registry_inv_def)
qed

lemma registry_reachable_inv: "\<lbrakk>registry_reachable H isLocal h; excludes H\<rbrakk> \<Longrightarrow> registry_inv h"
proof (induction rule: registry_reachable.induct)
  case (booted h)
  then show ?case by (simp add: registry_inv_def)
qed (blast intro: registry_step_inv)

text \<open>C26: However processes start, resolve, relaunch, exit or are killed, recycled pids and left-over files included, no two
  live processes of a host ever hold a common port, and the registry file of a live process lists exactly the ports it
  holds: no reader deletes it and no other process overwrites it.\<close>

theorem live_ports_never_overlap:
  assumes "registry_reachable H isLocal h" and "excludes H"
    and "ho_processes h pid = Some p" and "ho_processes h q = Some p'" and "pid \<noteq> q"
  shows "pr_held p \<inter> pr_held p' = {} \<and>
    (pr_written p \<longrightarrow> (\<exists>r. ho_files h (registryFile pid) = Some (Document r) \<and> set (br_ports r) = pr_held p))"
  using registry_invD [OF registry_reachable_inv [OF assms(1,2)]] assms(3-5) unfolding registered_def by meson

definition two_runs :: "unit registry_host" where
  "two_runs = \<lparr>ho_processes = [1 \<mapsto> \<lparr>pr_executable = ''node'', pr_written = False, pr_held = {}\<rparr>,
     2 \<mapsto> \<lparr>pr_executable = ''node'', pr_written = False, pr_held = {}\<rparr>], ho_files = Map.empty, ho_env = ()\<rparr>"

definition first_reader :: reader where
  "first_reader = \<lparr>rd_pid = 1, rd_written = False, rd_alive = (\<lambda>q. q = 1 \<or> q = 2), rd_observed = (\<lambda>q. ''node'')\<rparr>"

lemma two_runs_reachable: "registry_reachable free_host isLocal two_runs"
proof -
  let ?none = "\<lparr>ho_processes = Map.empty, ho_files = Map.empty, ho_env = ()\<rparr>"
  have "registry_reachable free_host isLocal ?none" by (rule registry_reachable.booted) simp
  from registry_reachable.stepped [OF this registry_step.spawn [of 1 _ _ _ "''node''"]]
  have "registry_reachable free_host isLocal
      (?none\<lparr>ho_processes := [1 \<mapsto> \<lparr>pr_executable = ''node'', pr_written = False, pr_held = {}\<rparr>]\<rparr>)"
    by (simp add: MaximumPid_def)
  from registry_reachable.stepped [OF this registry_step.spawn [of 2 _ _ _ "''node''"]]
  show ?thesis by (simp add: two_runs_def MaximumPid_def)
qed

lemma first_run_resolves:
  "\<exists>files. registry_reachable free_host (\<lambda>_. True)
     (hold 1 (set (locallyBoundPorts (\<lambda>_. True) default_ports)) (two_runs\<lparr>ho_files := files\<rparr>))"
proof -
  have R: "reads two_runs 1 first_reader []" by (auto simp: reads_def two_runs_def first_reader_def)
  have read: "readRegistryPortExclusions first_reader [] Map.empty = (Map.empty, Some reserved_ports)"
    by (simp add: readRegistryPortExclusions_def reap_temporaries_def)
  obtain st where solved: "resolveLocked free_host reserved_ports unpinned bios_only () = Some (default_ports, st)"
    using free_host_defaults [of reserved_ports] by (auto simp: isReservedPort_def in_range_def ReservedAgavePortBand_def)
  have "valid_registration \<lparr>br_executable = ''node'', br_ports = uniq (locallyBoundPorts (\<lambda>_. True) default_ports)\<rparr>"
    by (simp add: valid_registration_def locallyBoundPorts_def addressedPorts_def default_ports_def nodeop_ports_def
      node_flat_def solana_port_list_def SolanaWsPortOffset_def MinimumPort_def MaximumPort_def list_all_iff)
  then obtain files where "resolve_binding free_host (\<lambda>_. True) first_reader [] unpinned bios_only () Map.empty = (files, Some default_ports)"
    using read solved
    by (simp add: resolve_binding_def registerResolved_def writeRegistration_def readOwnRegisteredPorts_def first_reader_def)
  with registry_step.resolves [OF R, of free_host "\<lambda>_. True" unpinned bios_only files default_ports]
  have "registry_step free_host (\<lambda>_. True) two_runs
      (hold 1 (set (locallyBoundPorts (\<lambda>_. True) default_ports)) (two_runs\<lparr>ho_files := files\<rparr>))"
    by (simp add: two_runs_def)
  with registry_reachable.stepped [OF two_runs_reachable] show ?thesis by blast
qed

lemma live_ports_never_overlap_witness:
  "\<exists>files. set (locallyBoundPorts (\<lambda>_. True) default_ports) \<inter> {} = {} \<and>
     (\<exists>r. files (registryFile 1) = Some (Document r) \<and> set (br_ports r) = set (locallyBoundPorts (\<lambda>_. True) default_ports))"
proof -
  obtain files where reach: "registry_reachable free_host (\<lambda>_. True)
     (hold 1 (set (locallyBoundPorts (\<lambda>_. True) default_ports)) (two_runs\<lparr>ho_files := files\<rparr>))"
    using first_run_resolves by blast
  from live_ports_never_overlap [OF reach free_host_excludes, of 1
      "\<lparr>pr_executable = ''node'', pr_written = True, pr_held = set (locallyBoundPorts (\<lambda>_. True) default_ports)\<rparr>" 2
      "\<lparr>pr_executable = ''node'', pr_written = False, pr_held = {}\<rparr>"]
  show ?thesis by (auto simp: hold_def two_runs_def)
qed

section \<open>The ad-hoc pool\<close>

text \<open>Slots are given in the order labels first ask.\<close>

definition adHoc_wf :: "node_ports list \<Rightarrow> (string \<times> nat) list \<Rightarrow> bool" where
  "adHoc_wf pool claims \<longleftrightarrow> map snd claims = [0..<length claims] \<and> distinct (map fst claims) \<and> length claims \<le> length pool"

lemma adHoc_slot_less:
  assumes "adHoc_wf pool claims" and "map_of claims label = Some i"
  shows "i < length claims"
proof -
  have "i \<in> set (map snd claims)" using map_of_SomeD [OF assms(2)] by force
  moreover have "map snd claims = [0..<length claims]" using assms(1) by (simp add: adHoc_wf_def)
  ultimately show ?thesis by (metis atLeastLessThan_iff set_upt)
qed

lemma adHoc_slots_distinct:
  assumes "adHoc_wf pool claims" and "map_of claims a = Some i" and "map_of claims b = Some i"
  shows "a = b"
proof -
  have "distinct (map snd claims)" using assms(1) by (simp add: adHoc_wf_def)
  with map_of_SomeD [OF assms(2)] map_of_SomeD [OF assms(3)] show ?thesis
    by (metis (no_types, lifting) distinct_map inj_on_def prod.inject snd_conv)
qed

text \<open>A label keeps its pair, another label never gets it, and the only refusal is a new label for a full pool.\<close>

lemma claimAdHocPorts_grants:
  assumes "adHoc_wf pool claims" and "claimAdHocPorts pool claims label = Some (pair, claims')"
  shows "adHoc_wf pool claims' \<and> (\<forall>l i. map_of claims l = Some i \<longrightarrow> map_of claims' l = Some i) \<and>
    (\<exists>i < length pool. map_of claims' label = Some i \<and> pair = pool ! i)"
proof (cases "map_of claims label")
  case None
  then have new: "label \<notin> fst ` set claims" by (simp add: map_of_eq_None_iff)
  from None assms(2) have room: "length claims < length pool" "pair = pool ! length claims" "claims' = claims @ [(label, length claims)]"
    by (auto simp: claimAdHocPorts_def split: if_splits)
  with assms(1) new None show ?thesis by (auto simp: adHoc_wf_def map_add_def)
next
  case (Some i)
  with assms adHoc_slot_less [OF assms(1) Some] show ?thesis by (auto simp: claimAdHocPorts_def adHoc_wf_def)
qed

lemma claimAdHocPorts_refuses:
  assumes "adHoc_wf pool claims" and "claimAdHocPorts pool claims label = None"
  shows "label \<notin> fst ` set claims \<and> length claims = length pool"
  using assms by (auto simp: claimAdHocPorts_def adHoc_wf_def map_of_eq_None_iff split: option.splits if_splits)

end
