(* ===== verification/Process_Manager.thy ===== *)
theory Process_Manager
  imports Storage_Key
begin

text \<open>
  \<open>cluster-tool/src/cluster/processes\<close>: \<open>ManagedProcess.ts\<close> (spawn, output capture, the readiness loop, stop and kill)
  and \<open>ProcessManager.ts\<close> (the registry, the raw logs, the sweep and the exit clean-up). Processes are objects: a
  \<^typ>\<open>nat\<close> is the place of one among all ever constructed, so an event of a process that was removed still reaches it.
  What the operating system and Node do next is an event; the record of the spawn in the step's report and the
  structured logger are left out.
\<close>

section \<open>Lines of output\<close>

definition LineFeed :: char where "LineFeed = char_of (10 :: nat)"
definition CarriageReturn :: char where "CarriageReturn = char_of (13 :: nat)"
definition RecentOutputCap :: nat where "RecentOutputCap = 200"

definition trimEnd_returns :: "string \<Rightarrow> string" where
  "trimEnd_returns s = rev (dropWhile (\<lambda>c. c = CarriageReturn) (rev s))"

text \<open>The lines a chunk completes, and what is kept for the next one.\<close>

definition split_chunk :: "string \<Rightarrow> string \<Rightarrow> string list \<times> string" where
  "split_chunk partialLine chunk =
     (let lines = js_split LineFeed (partialLine @ chunk) in (butlast lines, last lines))"

definition push_recent :: "string list \<Rightarrow> string \<Rightarrow> string list" where
  "push_recent recent line =
     (let recent' = recent @ [line] in if length recent' > RecentOutputCap then tl recent' else recent')"

section \<open>A managed process\<close>

datatype start_error = NoPid | ExitedEarly int | VerifyTimeout

text \<open>\<open>awaitReady\<close> is about to look again, waits for \<open>verifyReady\<close>, or has ended.\<close>

datatype start_state = NotStarted | Looking | Asking | StartedReady | StartFailed start_error

text \<open>The ghosts: \<open>mp_text\<close> is all a pipe delivered (the error pipe is \<^const>\<open>True\<close>), \<open>mp_ended\<close> that it ended, \<open>mp_lines\<close>
  what was captured of both, and \<open>pm_captured\<close> what was captured of all processes.\<close>

record managed =
  mp_label :: string
  mp_child :: bool
  mp_pid :: int
  mp_exited :: "int option"
  mp_sawExit :: bool
  mp_start :: start_state
  mp_partial :: "bool \<Rightarrow> string"
  mp_recent :: "string list"
  mp_text :: "bool \<Rightarrow> string"
  mp_ended :: "bool \<Rightarrow> bool"
  mp_lines :: "(bool \<times> string) list"

definition new_process :: "string \<Rightarrow> managed" where
  "new_process label = \<lparr>mp_label = label, mp_child = False, mp_pid = 0, mp_exited = None, mp_sawExit = False, mp_start = NotStarted,
     mp_partial = (\<lambda>_. []), mp_recent = [], mp_text = (\<lambda>_. []), mp_ended = (\<lambda>_. False), mp_lines = []\<rparr>"

definition isRunning :: "managed \<Rightarrow> bool" where
  "isRunning p \<longleftrightarrow> mp_child p \<and> mp_exited p = None"

text \<open>\<open>exited\<close> is resolved at most once.\<close>

definition settle_exited :: "int \<Rightarrow> managed \<Rightarrow> managed" where
  "settle_exited code p = (case mp_exited p of None \<Rightarrow> p\<lparr>mp_exited := Some code\<rparr> | Some _ \<Rightarrow> p)"

section \<open>The manager\<close>

text \<open>A raw log file; the owner of the aggregate one is \<^const>\<open>None\<close>.\<close>

record raw_log =
  lg_owner :: "string option"
  lg_lines :: "string list"
  lg_ended :: bool

text \<open>One call of \<open>stop\<close> or \<open>kill\<close>: returned at once since nothing runs, in the graceful wait, in the wait after SIGKILL,
  or settled. A \<open>stopAll\<close> in flight is the list of the calls it awaits.\<close>

datatype call_state = NothingToStop | GracefulWait | KillWait | CallDone

datatype signal_name = SIGINT | SIGKILL

record process_manager =
  pm_objects :: "managed list"
  pm_processes :: "(string \<times> nat) list"
  pm_clusterLog :: "nat option"
  pm_streams :: "(string \<times> nat) list"
  pm_logs :: "raw_log list"
  pm_pidFiles :: "string \<rightharpoonup> int"
  pm_calls :: "(nat \<times> call_state) list"
  pm_stopAlls :: "nat list list"
  pm_signals :: "(nat \<times> signal_name) list"
  pm_captured :: "(nat \<times> bool \<times> string) list"

text \<open>
  The pid files there are when the manager starts: the sweep deletes those that name no managed process that lives, and leaves
  the file of an orphan it terminates.
\<close>

definition no_processes :: "(string \<rightharpoonup> int) \<Rightarrow> process_manager" where
  "no_processes files = \<lparr>pm_objects = [], pm_processes = [], pm_clusterLog = None, pm_streams = [], pm_logs = [],
     pm_pidFiles = files, pm_calls = [], pm_stopAlls = [], pm_signals = [], pm_captured = []\<rparr>"

definition object :: "process_manager \<Rightarrow> nat \<Rightarrow> managed" where
  "object m i = pm_objects m ! i"

definition update_object :: "nat \<Rightarrow> (managed \<Rightarrow> managed) \<Rightarrow> process_manager \<Rightarrow> process_manager" where
  "update_object i f m = m\<lparr>pm_objects := (pm_objects m)[i := f (pm_objects m ! i)]\<rparr>"

text \<open>\<open>push\<close>, from the constructor: \<^const>\<open>None\<close> is its assertion.\<close>

definition construct :: "string \<Rightarrow> process_manager \<Rightarrow> process_manager option" where
  "construct label m =
     (if map_of (pm_processes m) label \<noteq> None then None
      else Some (m\<lparr>pm_objects := pm_objects m @ [new_process label],
                  pm_processes := pm_processes m @ [(label, length (pm_objects m))]\<rparr>))"

definition remove :: "string \<Rightarrow> process_manager \<Rightarrow> process_manager option" where
  "remove label m =
     (case map_of (pm_processes m) label of
        None \<Rightarrow> None
      | Some i \<Rightarrow> if isRunning (object m i) then None
                  else Some (m\<lparr>pm_processes := AList.delete label (pm_processes m)\<rparr>))"

definition get_process :: "string \<Rightarrow> process_manager \<Rightarrow> nat option" where
  "get_process label m = map_of (pm_processes m) label"

section \<open>Raw logs\<close>

definition open_log :: "string option \<Rightarrow> process_manager \<Rightarrow> process_manager" where
  "open_log owner m = m\<lparr>pm_logs := pm_logs m @ [\<lparr>lg_owner = owner, lg_lines = [], lg_ended = False\<rparr>]\<rparr>"

definition ensureLogStreams :: "string \<Rightarrow> process_manager \<Rightarrow> process_manager" where
  "ensureLogStreams label m =
     (let m1 = (case pm_clusterLog m of
                  Some _ \<Rightarrow> m
                | None \<Rightarrow> (open_log None m)\<lparr>pm_clusterLog := Some (length (pm_logs m))\<rparr>)
      in if map_of (pm_streams m1) label \<noteq> None then m1
         else (open_log (Some label) m1)\<lparr>pm_streams := pm_streams m1 @ [(label, length (pm_logs m1))]\<rparr>)"

definition append_log :: "nat \<Rightarrow> string \<Rightarrow> process_manager \<Rightarrow> process_manager" where
  "append_log k line m = m\<lparr>pm_logs := (pm_logs m)[k := (pm_logs m ! k)\<lparr>lg_lines := lg_lines (pm_logs m ! k) @ [line]\<rparr>]\<rparr>"

definition end_log :: "nat \<Rightarrow> process_manager \<Rightarrow> process_manager" where
  "end_log k m = m\<lparr>pm_logs := (pm_logs m)[k := (pm_logs m ! k)\<lparr>lg_ended := True\<rparr>]\<rparr>"

definition append_to :: "nat option \<Rightarrow> string \<Rightarrow> process_manager \<Rightarrow> process_manager" where
  "append_to k line m = (case k of None \<Rightarrow> m | Some k \<Rightarrow> append_log k line m)"

definition writeRaw :: "string \<Rightarrow> string \<Rightarrow> process_manager \<Rightarrow> process_manager" where
  "writeRaw label line m =
     (let m1 = ensureLogStreams label m
      in append_to (map_of (pm_streams m1) label) line (append_to (pm_clusterLog m1) line m1))"

definition closeProcessLogStream :: "string \<Rightarrow> process_manager \<Rightarrow> process_manager" where
  "closeProcessLogStream label m =
     (case map_of (pm_streams m) label of
        None \<Rightarrow> m
      | Some k \<Rightarrow> (end_log k m)\<lparr>pm_streams := AList.delete label (pm_streams m)\<rparr>)"

definition closeAllLogStreams :: "process_manager \<Rightarrow> process_manager" where
  "closeAllLogStreams m =
     (let m1 = (case pm_clusterLog m of None \<Rightarrow> m | Some k \<Rightarrow> end_log k m)
      in (fold end_log (map snd (pm_streams m)) m1)\<lparr>pm_clusterLog := None, pm_streams := []\<rparr>)"

section \<open>Capture\<close>

definition captureLine :: "nat \<Rightarrow> bool \<Rightarrow> string \<Rightarrow> process_manager \<Rightarrow> process_manager" where
  "captureLine i isErr terminatedLine m =
     (let line = trimEnd_returns terminatedLine
      in if line = [] then m
         else (let label = mp_label (object m i);
                   m1 = update_object i (\<lambda>p. p\<lparr>mp_recent := push_recent (mp_recent p) line,
                          mp_lines := mp_lines p @ [(isErr, line)]\<rparr>) m
               in writeRaw label line (m1\<lparr>pm_captured := pm_captured m1 @ [(i, isErr, line)]\<rparr>)))"

definition capture_data :: "nat \<Rightarrow> bool \<Rightarrow> string \<Rightarrow> process_manager \<Rightarrow> process_manager" where
  "capture_data i isErr chunk m =
     (let (lines, rest) = split_chunk (mp_partial (object m i) isErr) chunk;
          m1 = update_object i (\<lambda>p. p\<lparr>mp_partial := (mp_partial p)(isErr := rest),
                  mp_text := (mp_text p)(isErr := mp_text p isErr @ chunk)\<rparr>) m
      in fold (captureLine i isErr) lines m1)"

definition capture_end :: "nat \<Rightarrow> bool \<Rightarrow> process_manager \<Rightarrow> process_manager" where
  "capture_end i isErr m =
     captureLine i isErr (mp_partial (object m i) isErr) (update_object i (\<lambda>p. p\<lparr>mp_ended := (mp_ended p)(isErr := True)\<rparr>) m)"

section \<open>Start, stop and kill\<close>

text \<open>\<open>start\<close> up to the readiness loop, for the pid \<open>spawn\<close> gives; \<^const>\<open>None\<close> is the assertion on a started process.\<close>

definition start_process :: "nat \<Rightarrow> int option \<Rightarrow> process_manager \<Rightarrow> process_manager option" where
  "start_process i pid m =
     (if mp_child (object m i) then None
      else (let p = (case pid of Some n \<Rightarrow> n | None \<Rightarrow> 0)
            in Some (if p > 0
                     then (update_object i (\<lambda>x. x\<lparr>mp_child := True, mp_pid := p, mp_start := Looking\<rparr>) m)
                            \<lparr>pm_pidFiles := (pm_pidFiles m)(mp_label (object m i) \<mapsto> p)\<rparr>
                     else update_object i (\<lambda>x. x\<lparr>mp_child := True, mp_pid := p, mp_start := StartFailed NoPid\<rparr>) m)))"

definition look :: "bool \<Rightarrow> managed \<Rightarrow> managed" where
  "look expired p =
     (if mp_start p \<noteq> Looking then p
      else if expired then p\<lparr>mp_start := StartFailed VerifyTimeout\<rparr>
      else (case mp_exited p of
              Some code \<Rightarrow> p\<lparr>mp_start := StartFailed (ExitedEarly code)\<rparr>
            | None \<Rightarrow> p\<lparr>mp_start := Asking\<rparr>))"

text \<open>\<open>None\<close> is a \<open>verifyReady\<close> that throws; then the loop sleeps.\<close>

definition answer :: "bool option \<Rightarrow> managed \<Rightarrow> managed" where
  "answer ready p =
     (if mp_start p \<noteq> Asking then p else p\<lparr>mp_start := (if ready = Some True then StartedReady else Looking)\<rparr>)"

definition signalTree :: "nat \<Rightarrow> signal_name \<Rightarrow> process_manager \<Rightarrow> process_manager" where
  "signalTree i s m = m\<lparr>pm_signals := pm_signals m @ [(i, s)]\<rparr>"

definition add_call :: "nat \<Rightarrow> call_state \<Rightarrow> process_manager \<Rightarrow> process_manager" where
  "add_call i c m = m\<lparr>pm_calls := pm_calls m @ [(i, c)]\<rparr>"

definition stop_call :: "nat \<Rightarrow> process_manager \<Rightarrow> process_manager" where
  "stop_call i m =
     (if \<not> isRunning (object m i) then add_call i NothingToStop m else add_call i GracefulWait (signalTree i SIGINT m))"

definition kill_call :: "nat \<Rightarrow> process_manager \<Rightarrow> process_manager" where
  "kill_call i m =
     (if \<not> isRunning (object m i) then add_call i NothingToStop m else add_call i KillWait (signalTree i SIGKILL m))"

text \<open>The race of call \<open>k\<close> is decided: by the exit when there is one, else by the timer or the abort.\<close>

definition graceful_over :: "nat \<Rightarrow> process_manager \<Rightarrow> process_manager" where
  "graceful_over k m =
     (case pm_calls m ! k of
        (i, GracefulWait) \<Rightarrow>
          if mp_exited (object m i) \<noteq> None then m\<lparr>pm_calls := (pm_calls m)[k := (i, CallDone)]\<rparr>
          else (signalTree i SIGKILL m)\<lparr>pm_calls := (pm_calls m)[k := (i, KillWait)]\<rparr>
      | _ \<Rightarrow> m)"

definition kill_over :: "nat \<Rightarrow> process_manager \<Rightarrow> process_manager" where
  "kill_over k m =
     (case pm_calls m ! k of
        (i, KillWait) \<Rightarrow> if mp_exited (object m i) \<noteq> None then m\<lparr>pm_calls := (pm_calls m)[k := (i, CallDone)]\<rparr> else m
      | _ \<Rightarrow> m)"

text \<open>\<open>stopAll\<close> up to its await, over the processes registered then, and the rest of it once their calls settled.\<close>

definition stopAll_begin :: "bool \<Rightarrow> process_manager \<Rightarrow> process_manager" where
  "stopAll_begin forceKill m =
     (let all = map snd (pm_processes m); first = length (pm_calls m)
      in if all = [] then m
         else (fold (if forceKill then kill_call else stop_call) all m)
                \<lparr>pm_stopAlls := pm_stopAlls m @ [[first..<first + length all]]\<rparr>)"

definition call_over :: "process_manager \<Rightarrow> nat \<Rightarrow> bool" where
  "call_over m k \<longleftrightarrow> snd (pm_calls m ! k) \<in> {NothingToStop, CallDone}"

definition stopAll_end :: "nat \<Rightarrow> process_manager \<Rightarrow> process_manager" where
  "stopAll_end j m = closeAllLogStreams (m\<lparr>pm_processes := [], pm_stopAlls := (pm_stopAlls m)[j := []]\<rparr>)"

section \<open>Events\<close>

datatype pm_event =
  Construct string
| Remove string
| Start nat "int option"
| Data nat bool string
| Ended nat bool
| ChildError nat
| ChildExit nat
| ChildClose nat int
| Look nat bool
| Answer nat "bool option"
| Stop nat
| Kill nat
| GracefulOver nat
| KillOver nat
| StopAll bool
| StopAllOver nat

text \<open>What Node promises of a child's events: data and end of a pipe before its end, \<open>error\<close> only for a failed spawn, one
  \<open>exit\<close>, and \<open>close\<close> after the exit and the end of both pipes.\<close>

fun enabled :: "process_manager \<Rightarrow> pm_event \<Rightarrow> bool" where
  "enabled m (Construct label) = True"
| "enabled m (Remove label) = True"
| "enabled m (Start i pid) = (i < length (pm_objects m))"
| "enabled m (Data i e chunk) = (i < length (pm_objects m) \<and> mp_pid (object m i) > 0 \<and> \<not> mp_ended (object m i) e)"
| "enabled m (Ended i e) = (i < length (pm_objects m) \<and> mp_pid (object m i) > 0 \<and> \<not> mp_ended (object m i) e)"
| "enabled m (ChildError i) = (i < length (pm_objects m) \<and> mp_child (object m i) \<and> mp_pid (object m i) = 0)"
| "enabled m (ChildExit i) = (i < length (pm_objects m) \<and> mp_pid (object m i) > 0 \<and> \<not> mp_sawExit (object m i))"
| "enabled m (ChildClose i code) =
     (i < length (pm_objects m) \<and> mp_pid (object m i) > 0 \<and> mp_sawExit (object m i) \<and>
      mp_ended (object m i) False \<and> mp_ended (object m i) True)"
| "enabled m (Look i expired) = (i < length (pm_objects m))"
| "enabled m (Answer i ready) = (i < length (pm_objects m))"
| "enabled m (Stop i) = (i < length (pm_objects m))"
| "enabled m (Kill i) = (i < length (pm_objects m))"
| "enabled m (GracefulOver k) = (k < length (pm_calls m))"
| "enabled m (KillOver k) = (k < length (pm_calls m))"
| "enabled m (StopAll force) = True"
| "enabled m (StopAllOver j) =
     (j < length (pm_stopAlls m) \<and> pm_stopAlls m ! j \<noteq> [] \<and> list_all (call_over m) (pm_stopAlls m ! j))"

definition otherwise :: "'a \<Rightarrow> 'a option \<Rightarrow> 'a" where
  "otherwise d x = (case x of Some y \<Rightarrow> y | None \<Rightarrow> d)"

fun perform :: "pm_event \<Rightarrow> process_manager \<Rightarrow> process_manager" where
  "perform (Construct label) m = otherwise m (construct label m)"
| "perform (Remove label) m = otherwise m (remove label m)"
| "perform (Start i pid) m = otherwise m (start_process i pid m)"
| "perform (Data i e chunk) m = capture_data i e chunk m"
| "perform (Ended i e) m = capture_end i e m"
| "perform (ChildError i) m = update_object i (settle_exited 1) m"
| "perform (ChildExit i) m =
     closeProcessLogStream (mp_label (object m i))
       ((update_object i (\<lambda>p. p\<lparr>mp_sawExit := True\<rparr>) m)\<lparr>pm_pidFiles := (pm_pidFiles m)(mp_label (object m i) := None)\<rparr>)"
| "perform (ChildClose i code) m = update_object i (settle_exited code) m"
| "perform (Look i expired) m = update_object i (look expired) m"
| "perform (Answer i ready) m = update_object i (answer ready) m"
| "perform (Stop i) m = stop_call i m"
| "perform (Kill i) m = kill_call i m"
| "perform (GracefulOver k) m = graceful_over k m"
| "perform (KillOver k) m = kill_over k m"
| "perform (StopAll force) m = stopAll_begin force m"
| "perform (StopAllOver j) m = stopAll_end j m"

definition pm_step :: "process_manager \<Rightarrow> pm_event \<Rightarrow> process_manager" where
  "pm_step m ev = (if enabled m ev then perform ev m else m)"

definition pm_run :: "(string \<rightharpoonup> int) \<Rightarrow> pm_event list \<Rightarrow> process_manager" where
  "pm_run files evs = foldl pm_step (no_processes files) evs"

section \<open>The sweep\<close>

definition ManagedProcessNames :: "string list" where
  "ManagedProcessNames = [''nodeop'', ''kiod'', ''anvil'', ''solana-test-validator'']"

definition isManagedPid :: "(int \<Rightarrow> string) \<Rightarrow> int \<Rightarrow> bool" where
  "isManagedPid processCommandBasename pid \<longleftrightarrow> processCommandBasename pid \<in> set ManagedProcessNames"

text \<open>The directories under \<open>data\<close>, each with its files; the pids to sweep and the files that are deleted.\<close>

definition orphan_of :: "(int \<Rightarrow> bool) \<Rightarrow> string option \<Rightarrow> int option" where
  "orphan_of managedPid content =
     (case Option.bind content parse_int of Some pid \<Rightarrow> if pid > 0 \<and> managedPid pid then Some pid else None | None \<Rightarrow> None)"

definition readOrphanPids ::
  "(int \<Rightarrow> bool) \<Rightarrow> (string \<times> (string \<times> string option) list) list \<Rightarrow> int list \<times> (string \<times> string) list" where
  "readOrphanPids managedPid dataDirectories =
     (let pidFiles = concat (map (\<lambda>(dir, files). map (\<lambda>(name, content). ((dir, name), content))
                        (filter (\<lambda>(name, content). ends_with name ''.pid'') files)) dataDirectories)
      in (List.map_filter (\<lambda>(path, content). orphan_of managedPid content) pidFiles,
          map fst (filter (\<lambda>(path, content). orphan_of managedPid content = None) pidFiles)))"

text \<open>\<open>terminatePidsSync\<close>: \<open>isAlive\<close> is asked in rounds and the clock is read before each sleep.\<close>

definition SweepPollIntervalMs :: int where "SweepPollIntervalMs = 500"
definition SweepGraceMs :: int where "SweepGraceMs = 30000"

partial_function (option) poll_exits ::
  "(nat \<Rightarrow> int \<Rightarrow> bool) \<Rightarrow> (nat \<Rightarrow> int) \<Rightarrow> int \<Rightarrow> nat \<Rightarrow> int list \<Rightarrow> int list option" where
  "poll_exits isAlive now deadline round remaining =
     (if remaining \<noteq> [] \<and> now round < deadline
      then poll_exits isAlive now deadline (Suc round) (filter (isAlive (Suc round)) remaining)
      else Some remaining)"

definition terminatePidsSync ::
  "(nat \<Rightarrow> int \<Rightarrow> bool) \<Rightarrow> (nat \<Rightarrow> int) \<Rightarrow> int list \<Rightarrow> int \<Rightarrow> ((int \<times> signal_name) list \<times> int list) option" where
  "terminatePidsSync isAlive now pids graceMs =
     (let remaining = filter (isAlive 0) pids
      in if remaining = [] then Some ([], [])
         else map_option (\<lambda>left. (map (\<lambda>p. (p, SIGINT)) remaining @ map (\<lambda>p. (p, SIGKILL)) left, left))
                (poll_exits isAlive now (now 0 + graceMs) 1 (filter (isAlive 1) remaining)))"

text \<open>The handler of \<open>exit\<close>, SIGINT and SIGTERM.\<close>

definition cleanup :: "(nat \<Rightarrow> int \<Rightarrow> bool) \<Rightarrow> (nat \<Rightarrow> int) \<Rightarrow> process_manager \<Rightarrow> ((int \<times> signal_name) list \<times> process_manager) option" where
  "cleanup isAlive now m =
     map_option (\<lambda>(signals, left). (signals,
         closeAllLogStreams (m\<lparr>pm_pidFiles := (\<lambda>l. if l \<in> fst ` set (pm_processes m) then None else pm_pidFiles m l)\<rparr>)))
       (terminatePidsSync isAlive now (map (\<lambda>(label, i). mp_pid (object m i)) (pm_processes m)) SweepGraceMs)"

section \<open>Framing does not depend on the chunks\<close>

definition output_lines :: "string list \<Rightarrow> string list" where
  "output_lines ls = filter (\<lambda>l. l \<noteq> []) (map trimEnd_returns ls)"

lemma output_lines_simps [simp]:
  "output_lines [] = []" "output_lines (xs @ ys) = output_lines xs @ output_lines ys"
  "output_lines (l # ls) = (if trimEnd_returns l = [] then output_lines ls else trimEnd_returns l # output_lines ls)"
  by (simp_all add: output_lines_def)

definition text_lines :: "bool \<Rightarrow> string \<Rightarrow> string list" where
  "text_lines ended text = output_lines (if ended then js_split LineFeed text else butlast (js_split LineFeed text))"

lemma js_split_grow:
  "js_split sep (xs @ ys) = butlast (js_split sep xs) @ js_split sep (last (js_split sep xs) @ ys)"
proof -
  have "sep \<notin> set (last (js_split sep xs))" using js_split_parts_no_sep [of _ sep xs] by simp
  then have "js_split sep (last (js_split sep xs) @ ys) = (last (js_split sep xs) @ hd (js_split sep ys)) # tl (js_split sep ys)"
    by (simp add: js_split_append js_split_no_sep)
  then show ?thesis by (simp add: js_split_append)
qed

lemma split_chunk_lines:
  assumes "split_chunk (last (js_split LineFeed text)) chunk = (ls, rest)"
  shows "butlast (js_split LineFeed (text @ chunk)) = butlast (js_split LineFeed text) @ ls \<and> last (js_split LineFeed (text @ chunk)) = rest"
  using assms by (auto simp: split_chunk_def Let_def js_split_grow [of LineFeed "text"] butlast_append)

definition newest :: "'a list \<Rightarrow> 'a list" where
  "newest xs = drop (length xs - RecentOutputCap) xs"

lemma push_recent_newest: "push_recent (newest xs) x = newest (xs @ [x])"
proof (cases "length xs < RecentOutputCap")
  case True
  then show ?thesis by (simp add: push_recent_def newest_def)
next
  case False
  have cap: "0 < RecentOutputCap" by (simp add: RecentOutputCap_def)
  let ?n = "length xs - RecentOutputCap"
  have n: "?n < length xs" "length xs + 1 - RecentOutputCap = Suc ?n" "length (newest xs) = RecentOutputCap"
    using False cap by (auto simp: newest_def)
  have "tl (drop ?n xs @ [x]) = drop (Suc ?n) xs @ [x]" using n(1) by (simp add: drop_Suc tl_drop)
  then show ?thesis using n by (simp add: push_recent_def newest_def Let_def)
qed

section \<open>Log files\<close>

definition owned_lines :: "string option \<Rightarrow> raw_log list \<Rightarrow> string list" where
  "owned_lines ow logs = concat (map lg_lines (filter (\<lambda>lg. lg_owner lg = ow) logs))"

definition newest_log :: "raw_log list \<Rightarrow> string option \<Rightarrow> nat \<Rightarrow> bool" where
  "newest_log logs ow k \<longleftrightarrow> k < length logs \<and> map lg_owner logs ! k = ow \<and> ow \<notin> set (drop (Suc k) (map lg_owner logs))"

definition streams_wf :: "process_manager \<Rightarrow> bool" where
  "streams_wf m \<longleftrightarrow>
     (\<forall>k. pm_clusterLog m = Some k \<longrightarrow> newest_log (pm_logs m) None k) \<and>
     (\<forall>(l, k) \<in> set (pm_streams m). newest_log (pm_logs m) (Some l) k)"

lemma newest_log_opened:
  "newest_log logs ow k \<Longrightarrow> ow \<noteq> ow' \<Longrightarrow> newest_log (logs @ [\<lparr>lg_owner = ow', lg_lines = [], lg_ended = e\<rparr>]) ow k"
  by (auto simp: newest_log_def nth_append)

lemma newest_log_new: "newest_log (logs @ [\<lparr>lg_owner = ow, lg_lines = [], lg_ended = e\<rparr>]) ow (length logs)"
  by (simp add: newest_log_def nth_append)

lemma newest_log_update:
  assumes "newest_log logs ow k" and "lg_owner x = lg_owner (logs ! j)"
  shows "newest_log (logs[j := x]) ow k"
proof -
  have "map lg_owner (logs[j := x]) = map lg_owner logs"
  proof (cases "j < length logs")
    case True
    then have "lg_owner x = map lg_owner logs ! j" using assms(2) by simp
    then show ?thesis by (metis list_update_id map_update)
  next
    case False
    then show ?thesis by (simp add: list_update_beyond)
  qed
  with assms(1) show ?thesis by (simp only: newest_log_def length_list_update simp_thms)
qed

lemma owned_lines_append:
  assumes "newest_log logs ow k"
  shows "owned_lines ow' (logs[k := (logs ! k)\<lparr>lg_lines := lg_lines (logs ! k) @ [x]\<rparr>]) =
    owned_lines ow' logs @ (if ow' = ow then [x] else [])"
proof -
  have k: "k < length logs" "lg_owner (logs ! k) = ow" "\<forall>lg \<in> set (drop (Suc k) logs). lg_owner lg \<noteq> ow"
    using assms by (auto simp: newest_log_def drop_map image_iff)
  have "filter (\<lambda>lg. lg_owner lg = ow) (drop (Suc k) logs) = []" using k(3) by (simp add: filter_empty_conv)
  moreover have "logs = take k logs @ logs ! k # drop (Suc k) logs" using k(1) by (rule id_take_nth_drop)
  then have "owned_lines ow' logs = owned_lines ow' (take k logs @ logs ! k # drop (Suc k) logs)" by simp
  ultimately show ?thesis
    using k(1,2) by (auto simp: upd_conv_take_nth_drop owned_lines_def)
qed

lemma owned_lines_end: "k < length logs \<Longrightarrow> owned_lines ow (logs[k := (logs ! k)\<lparr>lg_ended := e\<rparr>]) = owned_lines ow logs"
proof -
  assume k: "k < length logs"
  then have "owned_lines ow logs = owned_lines ow (take k logs @ logs ! k # drop (Suc k) logs)" using id_take_nth_drop [OF k] by simp
  then show ?thesis using k by (simp add: upd_conv_take_nth_drop owned_lines_def)
qed

lemma owned_lines_open: "owned_lines ow (logs @ [\<lparr>lg_owner = ow', lg_lines = [], lg_ended = e\<rparr>]) = owned_lines ow logs"
  by (simp add: owned_lines_def)

text \<open>The files of each owner hold the lines \<open>C\<close> says, and a stream that is open is the newest file of its owner.\<close>

definition logs_hold :: "process_manager \<Rightarrow> (string option \<Rightarrow> string list) \<Rightarrow> bool" where
  "logs_hold m C \<longleftrightarrow> streams_wf m \<and> (\<forall>ow. owned_lines ow (pm_logs m) = C ow)"

text \<open>What capturing and logging leave alone.\<close>

definition same_registry :: "process_manager \<Rightarrow> process_manager \<Rightarrow> bool" where
  "same_registry m m' \<longleftrightarrow> pm_objects m' = pm_objects m \<and> pm_processes m' = pm_processes m \<and> pm_pidFiles m' = pm_pidFiles m \<and>
     pm_calls m' = pm_calls m \<and> pm_stopAlls m' = pm_stopAlls m \<and> pm_captured m' = pm_captured m"

lemma stream_opened:
  assumes "logs_hold m C" and "map_of (pm_streams m) label = None"
  shows "logs_hold ((open_log (Some label) m)\<lparr>pm_streams := pm_streams m @ [(label, length (pm_logs m))]\<rparr>) C"
proof -
  have "newest_log (pm_logs m @ [\<lparr>lg_owner = Some label, lg_lines = [], lg_ended = False\<rparr>]) (Some l) k"
    if "(l, k) \<in> set (pm_streams m)" for l k
  proof (rule newest_log_opened)
    show "newest_log (pm_logs m) (Some l) k" using assms(1) that by (auto simp: logs_hold_def streams_wf_def)
    have "l \<in> fst ` set (pm_streams m)" using that by force
    then show "Some l \<noteq> Some label" using assms(2) by (auto simp: map_of_eq_None_iff)
  qed
  moreover have "newest_log (pm_logs m @ [\<lparr>lg_owner = Some label, lg_lines = [], lg_ended = False\<rparr>]) None k"
    if "pm_clusterLog m = Some k" for k
    using assms(1) that by (intro newest_log_opened) (auto simp: logs_hold_def streams_wf_def)
  ultimately show ?thesis
    using assms(1) by (simp add: logs_hold_def streams_wf_def open_log_def owned_lines_open newest_log_new split_beta)
qed

lemma ensureLogStreams_holds:
  assumes "logs_hold m C"
  shows "logs_hold (ensureLogStreams label m) C \<and> pm_clusterLog (ensureLogStreams label m) \<noteq> None \<and>
    map_of (pm_streams (ensureLogStreams label m)) label \<noteq> None \<and> same_registry m (ensureLogStreams label m)"
proof -
  define m1 where "m1 = (case pm_clusterLog m of Some _ \<Rightarrow> m | None \<Rightarrow> (open_log None m)\<lparr>pm_clusterLog := Some (length (pm_logs m))\<rparr>)"
  have m1: "logs_hold m1 C" "pm_clusterLog m1 \<noteq> None" "same_registry m m1"
    using assms
    by (auto simp: m1_def logs_hold_def streams_wf_def open_log_def same_registry_def owned_lines_open newest_log_new
      intro: newest_log_opened split: option.splits)
  show ?thesis
  proof (cases "map_of (pm_streams m1) label")
    case None
    then have "ensureLogStreams label m = (open_log (Some label) m1)\<lparr>pm_streams := pm_streams m1 @ [(label, length (pm_logs m1))]\<rparr>"
      by (simp add: ensureLogStreams_def m1_def [symmetric])
    with m1 None stream_opened [OF m1(1) None] show ?thesis by (auto simp: same_registry_def open_log_def)
  next
    case (Some k)
    then have "ensureLogStreams label m = m1" by (simp add: ensureLogStreams_def m1_def [symmetric])
    with m1 Some show ?thesis by simp
  qed
qed

lemma append_log_holds:
  assumes "logs_hold m C" and "newest_log (pm_logs m) ow k"
  shows "logs_hold (append_log k line m) (C(ow := C ow @ [line])) \<and> same_registry m (append_log k line m) \<and>
    pm_streams (append_log k line m) = pm_streams m \<and> pm_clusterLog (append_log k line m) = pm_clusterLog m"
  using assms owned_lines_append [OF assms(2)] newest_log_update
  by (auto simp: logs_hold_def streams_wf_def append_log_def same_registry_def)

lemma writeRaw_holds:
  assumes "logs_hold m C"
  shows "logs_hold (writeRaw label line m) (\<lambda>ow. C ow @ (if ow = None \<or> ow = Some label then [line] else [])) \<and>
    same_registry m (writeRaw label line m)"
proof -
  define m1 where "m1 = ensureLogStreams label m"
  note e = ensureLogStreams_holds [OF assms, of label, folded m1_def]
  obtain c k where ck: "pm_clusterLog m1 = Some c" "map_of (pm_streams m1) label = Some k" using e by auto
  have c: "newest_log (pm_logs m1) None c" using e ck(1) by (simp add: logs_hold_def streams_wf_def)
  define m2 where "m2 = append_log c line m1"
  note a = append_log_holds [OF conjunct1 [OF e] c, of line, folded m2_def]
  have k: "newest_log (pm_logs m2) (Some label) k" using a map_of_SomeD [OF ck(2)] by (auto simp: logs_hold_def streams_wf_def)
  note b = append_log_holds [OF conjunct1 [OF a] k, of line]
  have w: "writeRaw label line m = append_log k line m2"
    using ck a by (simp add: writeRaw_def m1_def [symmetric] append_to_def m2_def [symmetric] Let_def)
  have "(C(None := C None @ [line]))(Some label := (C(None := C None @ [line])) (Some label) @ [line]) =
      (\<lambda>ow. C ow @ (if ow = None \<or> ow = Some label then [line] else []))"
    by auto
  with b w e a show ?thesis by (auto simp: same_registry_def)
qed

lemma end_log_holds: "logs_hold m C \<Longrightarrow> k < length (pm_logs m) \<Longrightarrow> logs_hold (end_log k m) C"
  by (auto simp: logs_hold_def streams_wf_def end_log_def owned_lines_end intro: newest_log_update)

lemma end_log_same [simp]: "same_registry m (end_log k m)" "length (pm_logs (end_log k m)) = length (pm_logs m)"
  "pm_streams (end_log k m) = pm_streams m" "pm_clusterLog (end_log k m) = pm_clusterLog m"
  by (simp_all add: same_registry_def end_log_def)

lemma same_registry_trans: "same_registry a b \<Longrightarrow> same_registry b c \<Longrightarrow> same_registry a c"
  by (simp add: same_registry_def)

lemma closeProcessLogStream_holds:
  assumes "logs_hold m C"
  shows "logs_hold (closeProcessLogStream label m) C \<and> same_registry m (closeProcessLogStream label m)"
proof (cases "map_of (pm_streams m) label")
  case None
  with assms show ?thesis by (simp add: closeProcessLogStream_def same_registry_def)
next
  case (Some k)
  have "k < length (pm_logs m)" using assms map_of_SomeD [OF Some] by (auto simp: logs_hold_def streams_wf_def newest_log_def)
  from end_log_holds [OF assms this] Some show ?thesis
    by (auto simp: closeProcessLogStream_def logs_hold_def streams_wf_def same_registry_def end_log_def AList.delete_eq)
qed

lemma closeProcessLogStream_same: "same_registry m (closeProcessLogStream label m)"
  by (auto simp: closeProcessLogStream_def end_log_def same_registry_def split: option.split)

lemma fold_end_log_holds:
  "logs_hold m C \<Longrightarrow> \<forall>k \<in> set ks. k < length (pm_logs m) \<Longrightarrow>
     logs_hold (fold end_log ks m) C \<and> same_registry m (fold end_log ks m)"
proof (induction ks arbitrary: m)
  case (Cons k ks)
  then have "logs_hold (end_log k m) C" by (simp add: end_log_holds)
  from Cons.IH [OF this] Cons.prems(2) same_registry_trans [OF end_log_same(1) [of m k]] show ?case by auto
qed (simp add: same_registry_def)

lemma closeAllLogStreams_same: "same_registry m (closeAllLogStreams m)"
proof -
  have "same_registry m (fold end_log ks m)" for ks m
    by (induction ks arbitrary: m) (auto simp: same_registry_def end_log_def)
  from this [of _ "map snd (pm_streams m)"] show ?thesis
    by (auto simp: closeAllLogStreams_def same_registry_def end_log_def split: option.split)
qed

lemma closeAllLogStreams_holds:
  assumes "logs_hold m C"
  shows "logs_hold (closeAllLogStreams m) C \<and> same_registry m (closeAllLogStreams m)"
proof -
  define m1 where "m1 = (case pm_clusterLog m of None \<Rightarrow> m | Some k \<Rightarrow> end_log k m)"
  have m1: "logs_hold m1 C" "same_registry m m1" "length (pm_logs m1) = length (pm_logs m)"
    using assms end_log_holds [OF assms] end_log_same(1) [of m]
    by (auto simp: m1_def logs_hold_def streams_wf_def newest_log_def same_registry_def split: option.splits)
  have "\<forall>k \<in> set (map snd (pm_streams m)). k < length (pm_logs m1)"
    using assms m1(3) by (auto simp: logs_hold_def streams_wf_def newest_log_def)
  from fold_end_log_holds [OF m1(1) this] same_registry_trans [OF m1(2)]
  show ?thesis
    by (auto simp: closeAllLogStreams_def m1_def [symmetric] logs_hold_def streams_wf_def same_registry_def)
qed

section \<open>What a capture does\<close>

definition with_lines :: "bool \<Rightarrow> string list \<Rightarrow> managed \<Rightarrow> managed" where
  "with_lines e ls p = p\<lparr>mp_recent := foldl push_recent (mp_recent p) ls, mp_lines := mp_lines p @ map (Pair e) ls\<rparr>"

definition captures :: "process_manager \<Rightarrow> nat \<Rightarrow> bool \<Rightarrow> string list \<Rightarrow> process_manager \<Rightarrow> bool" where
  "captures m i e ls m' \<longleftrightarrow>
     pm_objects m' = (pm_objects m)[i := with_lines e ls (object m i)] \<and>
     pm_captured m' = pm_captured m @ map (\<lambda>l. (i, e, l)) ls \<and>
     pm_processes m' = pm_processes m \<and> pm_pidFiles m' = pm_pidFiles m \<and> pm_calls m' = pm_calls m \<and>
     pm_stopAlls m' = pm_stopAlls m \<and>
     (\<forall>C. logs_hold m C \<longrightarrow>
        logs_hold m' (\<lambda>ow. C ow @ (if ow = None \<or> ow = Some (mp_label (object m i)) then ls else [])))"

lemma with_lines_append: "with_lines e ys (with_lines e xs p) = with_lines e (xs @ ys) p"
  by (simp add: with_lines_def)

lemma with_lines_Nil [simp]: "with_lines e [] p = p"
  by (simp add: with_lines_def)

lemma with_lines_label [simp]: "mp_label (with_lines e ls p) = mp_label p"
  by (simp add: with_lines_def)

lemma captures_nothing: "captures m i e [] m"
  by (simp add: captures_def object_def)

lemma captures_trans:
  assumes "captures m i e xs m1" and "captures m1 i e ys m2" and "i < length (pm_objects m)"
  shows "captures m i e (xs @ ys) m2"
proof -
  have o1: "object m1 i = with_lines e xs (object m i)" using assms(1,3) by (simp add: captures_def object_def)
  have "logs_hold m2 (\<lambda>ow. C ow @ (if ow = None \<or> ow = Some (mp_label (object m i)) then xs @ ys else []))" if "logs_hold m C" for C
  proof -
    have "logs_hold m1 (\<lambda>ow. C ow @ (if ow = None \<or> ow = Some (mp_label (object m i)) then xs else []))"
      using assms(1) that by (simp add: captures_def)
    then have "logs_hold m2 (\<lambda>ow. (C ow @ (if ow = None \<or> ow = Some (mp_label (object m i)) then xs else [])) @
        (if ow = None \<or> ow = Some (mp_label (object m1 i)) then ys else []))"
      using assms(2) unfolding captures_def by blast
    moreover have "(\<lambda>ow. (C ow @ (if ow = None \<or> ow = Some (mp_label (object m i)) then xs else [])) @
        (if ow = None \<or> ow = Some (mp_label (object m1 i)) then ys else [])) =
      (\<lambda>ow. C ow @ (if ow = None \<or> ow = Some (mp_label (object m i)) then xs @ ys else []))"
      using o1 by auto
    ultimately show ?thesis by simp
  qed
  with assms(1,2) o1 show ?thesis by (simp add: captures_def with_lines_append)
qed

lemma logs_hold_cong:
  "\<lbrakk>pm_logs m' = pm_logs m; pm_streams m' = pm_streams m; pm_clusterLog m' = pm_clusterLog m\<rbrakk> \<Longrightarrow> logs_hold m' C = logs_hold m C"
  by (simp add: logs_hold_def streams_wf_def)

lemma writeRaw_same: "same_registry m (writeRaw label line m)"
  by (auto simp: writeRaw_def ensureLogStreams_def open_log_def append_to_def append_log_def same_registry_def Let_def
    split: option.splits)

lemma captureLine_captures:
  assumes "i < length (pm_objects m)"
  shows "captures m i e (output_lines [t]) (captureLine i e t m)"
proof (cases "trimEnd_returns t = []")
  case True
  then show ?thesis by (simp add: captureLine_def captures_nothing)
next
  case False
  define line where "line = trimEnd_returns t"
  define m1 where "m1 = (update_object i (\<lambda>p. p\<lparr>mp_recent := push_recent (mp_recent p) line, mp_lines := mp_lines p @ [(e, line)]\<rparr>) m)
    \<lparr>pm_captured := pm_captured m @ [(i, e, line)]\<rparr>"
  have w: "captureLine i e t m = writeRaw (mp_label (object m i)) line m1"
    using False by (simp add: captureLine_def line_def m1_def update_object_def Let_def)
  have "logs_hold m1 C" if "logs_hold m C" for C
    using that logs_hold_cong [of m1 m] by (simp add: m1_def update_object_def)
  note held = writeRaw_holds [OF this, of _ "mp_label (object m i)" line]
  have out: "output_lines [t] = [line]" using False by (simp add: line_def)
  from held writeRaw_same [of m1 "mp_label (object m i)" line] w show ?thesis
    unfolding out by (auto simp: captures_def same_registry_def m1_def update_object_def with_lines_def object_def)
qed

lemma captureLines_captures:
  "i < length (pm_objects m) \<Longrightarrow> captures m i e (output_lines ts) (fold (captureLine i e) ts m)"
proof (induction ts arbitrary: m)
  case Nil
  then show ?case by (simp add: captures_nothing)
next
  case (Cons t ts)
  note first = captureLine_captures [OF Cons.prems, of e t]
  then have "i < length (pm_objects (captureLine i e t m))" using Cons.prems by (simp add: captures_def)
  from captures_trans [OF first Cons.IH [OF this] Cons.prems] show ?case by (cases "trimEnd_returns t = []") simp_all
qed

section \<open>The record of the output\<close>

definition captured_ok :: "managed \<Rightarrow> bool" where
  "captured_ok p \<longleftrightarrow>
     (\<forall>e. mp_partial p e = last (js_split LineFeed (mp_text p e)) \<and>
          map snd (filter (\<lambda>c. fst c = e) (mp_lines p)) = text_lines (mp_ended p e) (mp_text p e)) \<and>
     mp_recent p = newest (map snd (mp_lines p))"

definition captured_for :: "process_manager \<Rightarrow> string option \<Rightarrow> string list" where
  "captured_for m ow =
     map (snd \<circ> snd) (filter (\<lambda>c. ow = None \<or> ow = Some (mp_label (object m (fst c)))) (pm_captured m))"

definition output_inv :: "process_manager \<Rightarrow> bool" where
  "output_inv m \<longleftrightarrow>
     (\<forall>p \<in> set (pm_objects m). captured_ok p) \<and>
     (\<forall>i < length (pm_objects m). mp_lines (object m i) = map snd (filter (\<lambda>c. fst c = i) (pm_captured m))) \<and>
     (\<forall>c \<in> set (pm_captured m). fst c < length (pm_objects m)) \<and>
     logs_hold m (captured_for m)"

lemma recent_with_lines:
  "mp_recent p = newest (map snd (mp_lines p)) \<Longrightarrow> mp_recent (with_lines e ls p) = newest (map snd (mp_lines (with_lines e ls p)))"
proof -
  assume r: "mp_recent p = newest (map snd (mp_lines p))"
  have "foldl push_recent (newest xs) ls = newest (xs @ ls)" for xs
    by (induction ls arbitrary: xs) (simp_all add: push_recent_newest)
  then show ?thesis using r by (simp add: with_lines_def comp_def)
qed

lemma filter_pairs: "map snd (filter (\<lambda>c. fst c = e) (map (Pair e') ls)) = (if e' = e then ls else [])"
  by (induction ls) auto

text \<open>An object changes in fields that no capture reads, and one delivers text.\<close>

lemma object_update [simp]:
  "object (update_object i f m) j = (if i = j \<and> i < length (pm_objects m) then f (object m i) else object m j)"
  by (cases "i < length (pm_objects m)") (auto simp: object_def update_object_def nth_list_update list_update_beyond)

lemma update_object_sel [simp]:
  "length (pm_objects (update_object i f m)) = length (pm_objects m)" "pm_captured (update_object i f m) = pm_captured m"
  "pm_processes (update_object i f m) = pm_processes m" "pm_pidFiles (update_object i f m) = pm_pidFiles m"
  "pm_calls (update_object i f m) = pm_calls m" "pm_stopAlls (update_object i f m) = pm_stopAlls m"
  "pm_logs (update_object i f m) = pm_logs m" "pm_streams (update_object i f m) = pm_streams m"
  "pm_clusterLog (update_object i f m) = pm_clusterLog m"
  by (simp_all add: update_object_def)

lemma delivery_inv:
  assumes inv: "output_inv m" and i: "i < length (pm_objects m)" and f: "m1 = update_object i f m"
    and p: "p = object m i" and keeps: "mp_label (f p) = mp_label p" "mp_lines (f p) = mp_lines p" "mp_recent (f p) = mp_recent p"
    and ls: "captures m1 i e ls m'"
    and other: "\<And>e'. e' \<noteq> e \<Longrightarrow> mp_partial (f p) e' = mp_partial p e' \<and> mp_text (f p) e' = mp_text p e' \<and> mp_ended (f p) e' = mp_ended p e'"
    and this_end: "mp_partial (f p) e = last (js_split LineFeed (mp_text (f p) e))"
      "text_lines (mp_ended (f p) e) (mp_text (f p) e) = text_lines (mp_ended p e) (mp_text p e) @ ls"
  shows "output_inv m'"
proof -
  have objs: "pm_objects m' = (pm_objects m)[i := with_lines e ls (f p)]" and cap: "pm_captured m' = pm_captured m @ map (\<lambda>l. (i, e, l)) ls"
    using ls i by (simp_all add: captures_def f p update_object_def object_def)
  have ok: "captured_ok p" using inv i p by (simp add: output_inv_def object_def)
  have new: "captured_ok (with_lines e ls (f p))"
    unfolding captured_ok_def
  proof (intro conjI allI)
    show "mp_recent (with_lines e ls (f p)) = newest (map snd (mp_lines (with_lines e ls (f p))))"
      using recent_with_lines [of "f p"] keeps ok by (simp add: captured_ok_def)
    fix e'
    show "mp_partial (with_lines e ls (f p)) e' = last (js_split LineFeed (mp_text (with_lines e ls (f p)) e'))"
      using this_end(1) other [of e'] ok by (cases "e' = e") (simp_all add: with_lines_def captured_ok_def)
    show "map snd (filter (\<lambda>c. fst c = e') (mp_lines (with_lines e ls (f p)))) =
        text_lines (mp_ended (with_lines e ls (f p)) e') (mp_text (with_lines e ls (f p)) e')"
      using this_end(2) other [of e'] ok keeps(2)
      by (cases "e' = e") (simp_all add: with_lines_def captured_ok_def filter_pairs comp_def)
  qed
  have label: "mp_label (object m' j) = mp_label (object m j)" if "j < length (pm_objects m)" for j
    using that keeps(1) by (cases "j = i") (simp_all add: objs object_def p)
  have "captured_for m' = (\<lambda>ow. captured_for m ow @ (if ow = None \<or> ow = Some (mp_label (object m i)) then ls else []))"
  proof
    fix ow
    have "filter (\<lambda>c. ow = None \<or> ow = Some (mp_label (object m' (fst c)))) (pm_captured m) =
        filter (\<lambda>c. ow = None \<or> ow = Some (mp_label (object m (fst c)))) (pm_captured m)"
      using inv label by (intro filter_cong) (auto simp: output_inv_def)
    then show "captured_for m' ow = captured_for m ow @ (if ow = None \<or> ow = Some (mp_label (object m i)) then ls else [])"
      using label [OF i] by (simp add: captured_for_def cap filter_map comp_def)
  qed
  moreover have "logs_hold m1 (captured_for m)" using inv logs_hold_cong [of m1 m] f by (simp add: output_inv_def)
  moreover have "mp_label (object m1 i) = mp_label (object m i)" using f i keeps(1) p by simp
  ultimately have held: "logs_hold m' (captured_for m')" using ls by (simp add: captures_def)
  have lines: "mp_lines (object m' j) = map snd (filter (\<lambda>c. fst c = j) (pm_captured m'))" if "j < length (pm_objects m)" for j
    using inv that keeps(2) i
    by (cases "j = i") (simp_all add: output_inv_def objs object_def p cap with_lines_def filter_map comp_def)
  have "\<forall>q \<in> set (pm_objects m'). captured_ok q"
    using inv new set_update_subset_insert [of "pm_objects m" i] unfolding objs output_inv_def by blast
  with held lines inv i show ?thesis by (auto simp: output_inv_def objs cap)
qed

lemma text_lines_open: "text_lines False t = output_lines (butlast (js_split LineFeed t))"
  by (simp add: text_lines_def)

lemma text_lines_end: "text_lines True t = text_lines False t @ output_lines [last (js_split LineFeed t)]"
proof -
  have "js_split LineFeed t = butlast (js_split LineFeed t) @ [last (js_split LineFeed t)]" by simp
  then have "output_lines (js_split LineFeed t) = output_lines (butlast (js_split LineFeed t)) @ output_lines [last (js_split LineFeed t)]"
    by (metis output_lines_simps(2))
  then show ?thesis by (simp only: text_lines_def if_True if_False)
qed

lemma capture_data_inv:
  assumes "output_inv m" and "i < length (pm_objects m)" and "\<not> mp_ended (object m i) e"
  shows "output_inv (capture_data i e chunk m)"
proof -
  obtain ls rest where split: "split_chunk (mp_partial (object m i) e) chunk = (ls, rest)" by fastforce
  define f where "f = (\<lambda>p :: managed. p\<lparr>mp_partial := (mp_partial p)(e := rest), mp_text := (mp_text p)(e := mp_text p e @ chunk)\<rparr>)"
  have "captured_ok (object m i)" using assms(1,2) by (simp add: output_inv_def object_def)
  then have partial: "mp_partial (object m i) e = last (js_split LineFeed (mp_text (object m i) e))" by (simp add: captured_ok_def)
  note framed = split_chunk_lines [OF split [unfolded partial]]
  show ?thesis
  proof (rule delivery_inv [OF assms(1,2) refl refl, of f e "output_lines ls"])
    show "captures (update_object i f m) i e (output_lines ls) (capture_data i e chunk m)"
      using captureLines_captures [of i "update_object i f m" e ls] assms(2) split by (simp add: capture_data_def f_def)
    show "text_lines (mp_ended (f (object m i)) e) (mp_text (f (object m i)) e) =
        text_lines (mp_ended (object m i) e) (mp_text (object m i) e) @ output_lines ls"
      using assms(3) framed by (simp add: f_def text_lines_open)
  qed (use framed in \<open>simp_all add: f_def\<close>)
qed

lemma capture_end_inv:
  assumes "output_inv m" and "i < length (pm_objects m)" and "\<not> mp_ended (object m i) e"
  shows "output_inv (capture_end i e m)"
proof -
  define f where "f = (\<lambda>p :: managed. p\<lparr>mp_ended := (mp_ended p)(e := True)\<rparr>)"
  have "captured_ok (object m i)" using assms(1,2) by (simp add: output_inv_def object_def)
  then have partial: "mp_partial (object m i) e = last (js_split LineFeed (mp_text (object m i) e))" by (simp add: captured_ok_def)
  let ?ls = "output_lines [mp_partial (object m i) e]"
  show ?thesis
  proof (rule delivery_inv [OF assms(1,2) refl refl, of f e ?ls])
    show "captures (update_object i f m) i e ?ls (capture_end i e m)"
      using captureLine_captures [of i "update_object i f m" e "mp_partial (object m i) e"] assms(2)
      by (simp add: capture_end_def f_def del: output_lines_simps)
    show "text_lines (mp_ended (f (object m i)) e) (mp_text (f (object m i)) e) =
        text_lines (mp_ended (object m i) e) (mp_text (object m i) e) @ ?ls"
      using assms(3) partial text_lines_end [of "mp_text (object m i) e"] by (simp add: f_def del: output_lines_simps)
  qed (use partial in \<open>simp_all add: f_def\<close>)
qed

lemma quiet_inv:
  assumes "output_inv m" and "\<And>p. mp_label (f p) = mp_label p \<and> mp_lines (f p) = mp_lines p \<and> mp_recent (f p) = mp_recent p \<and>
    mp_partial (f p) = mp_partial p \<and> mp_text (f p) = mp_text p \<and> mp_ended (f p) = mp_ended p"
  shows "output_inv (update_object i f m)"
proof (cases "i < length (pm_objects m)")
  case True
  show ?thesis
    by (rule delivery_inv [OF assms(1) True refl refl, of f True "[]"])
      (use assms True in \<open>simp_all add: captures_nothing output_inv_def captured_ok_def object_def\<close>)
next
  case False
  then have "update_object i f m = m" by (simp add: update_object_def list_update_beyond)
  with assms(1) show ?thesis by simp
qed

lemma output_inv_cong:
  assumes "output_inv m" and "pm_objects m' = pm_objects m" and "pm_captured m' = pm_captured m"
    and "\<And>C. logs_hold m C \<Longrightarrow> logs_hold m' C"
  shows "output_inv m'"
proof -
  have "captured_for m' = captured_for m" using assms(2,3) by (simp add: captured_for_def object_def fun_eq_iff)
  with assms show ?thesis by (simp add: output_inv_def object_def)
qed

lemma captured_ok_new: "captured_ok (new_process label)"
  by (simp add: captured_ok_def new_process_def text_lines_open newest_def)

lemma construct_inv:
  assumes "output_inv m" and "construct label m = Some m'"
  shows "output_inv m'"
proof -
  have m': "m' = m\<lparr>pm_objects := pm_objects m @ [new_process label], pm_processes := pm_processes m @ [(label, length (pm_objects m))]\<rparr>"
    using assms(2) by (simp add: construct_def split: if_splits)
  have same: "object m' j = object m j" if "j < length (pm_objects m)" for j using that by (simp add: m' object_def nth_append)
  have bound: "\<forall>c \<in> set (pm_captured m). fst c < length (pm_objects m)" using assms(1) by (simp add: output_inv_def)
  have "filter (\<lambda>c. ow = None \<or> ow = Some (mp_label (object m' (fst c)))) (pm_captured m) =
      filter (\<lambda>c. ow = None \<or> ow = Some (mp_label (object m (fst c)))) (pm_captured m)" for ow
    using bound same by (intro filter_cong) auto
  then have "captured_for m' = captured_for m" by (simp add: captured_for_def m' fun_eq_iff)
  moreover have "logs_hold m' (captured_for m)" using assms(1) logs_hold_cong [of m' m] by (simp add: output_inv_def m')
  moreover have "mp_lines (object m' j) = map snd (filter (\<lambda>c. fst c = j) (pm_captured m))" if "j < Suc (length (pm_objects m))" for j
  proof (cases "j = length (pm_objects m)")
    case True
    then have "filter (\<lambda>c. fst c = j) (pm_captured m) = []" using bound by (auto simp: filter_empty_conv)
    with True show ?thesis by (simp add: m' object_def new_process_def)
  next
    case False
    with that same assms(1) show ?thesis by (simp add: output_inv_def)
  qed
  ultimately show ?thesis
    using assms(1) bound captured_ok_new by (auto simp: output_inv_def m' less_Suc_eq)
qed

lemma calls_output_inv:
  "output_inv m \<Longrightarrow> output_inv (stop_call i m)" "output_inv m \<Longrightarrow> output_inv (kill_call i m)"
  by (auto simp: stop_call_def kill_call_def add_call_def signalTree_def logs_hold_def streams_wf_def intro: output_inv_cong)

lemma fold_calls_output_inv: "output_inv m \<Longrightarrow> output_inv (fold (if b then kill_call else stop_call) is m)"
  by (induction "is" arbitrary: m) (auto simp: calls_output_inv)

lemma perform_output_inv:
  assumes "output_inv m" and "enabled m ev"
  shows "output_inv (perform ev m)"
proof (cases ev)
  case (Construct label)
  with assms(1) construct_inv show ?thesis by (auto simp: otherwise_def split: option.split)
next
  case (Remove label)
  have "output_inv m'" if "remove label m = Some m'" for m'
    using that
    by (auto simp: remove_def logs_hold_def streams_wf_def intro!: output_inv_cong [OF assms(1)] split: option.splits if_splits)
  with Remove assms(1) show ?thesis by (auto simp: otherwise_def split: option.split)
next
  case (Start i pid)
  have "output_inv m'" if s: "start_process i pid m = Some m'" for m'
  proof -
    have q: "output_inv (update_object i (\<lambda>x. x\<lparr>mp_child := True, mp_pid := n, mp_start := st\<rparr>) m)" for n st
      by (rule quiet_inv [OF assms(1)]) simp
    have "output_inv ((update_object i (\<lambda>x. x\<lparr>mp_child := True, mp_pid := n, mp_start := st\<rparr>) m)\<lparr>pm_pidFiles := files\<rparr>)" for n st files
      by (rule output_inv_cong [OF q [where n = n and st = st]]) (simp_all add: logs_hold_def streams_wf_def)
    with q s show ?thesis by (auto simp: start_process_def Let_def split: if_splits)
  qed
  with Start assms(1) show ?thesis by (auto simp: otherwise_def split: option.split)
next
  case (Data i e chunk)
  with assms capture_data_inv show ?thesis by simp
next
  case (Ended i e)
  with assms capture_end_inv show ?thesis by simp
next
  case (ChildError i)
  then show ?thesis by (simp, intro quiet_inv [OF assms(1)]) (simp add: settle_exited_def split: option.split)
next
  case (ChildExit i)
  define m1 where "m1 = (update_object i (\<lambda>p. p\<lparr>mp_sawExit := True\<rparr>) m)\<lparr>pm_pidFiles := (pm_pidFiles m)(mp_label (object m i) := None)\<rparr>"
  have "output_inv (update_object i (\<lambda>p. p\<lparr>mp_sawExit := True\<rparr>) m)" by (rule quiet_inv [OF assms(1)]) simp
  then have "output_inv m1" by (rule output_inv_cong) (simp_all add: m1_def logs_hold_def streams_wf_def)
  then have "output_inv (closeProcessLogStream (mp_label (object m i)) m1)"
    by (rule output_inv_cong)
      (use closeProcessLogStream_same [of m1] in \<open>auto simp: same_registry_def closeProcessLogStream_holds\<close>)
  with ChildExit show ?thesis by (simp add: m1_def)
next
  case (ChildClose i code)
  then show ?thesis by (simp, intro quiet_inv [OF assms(1)]) (simp add: settle_exited_def split: option.split)
next
  case (Look i expired)
  then show ?thesis by (simp, intro quiet_inv [OF assms(1)]) (simp add: look_def split: option.split)
next
  case (Answer i ready)
  then show ?thesis by (simp, intro quiet_inv [OF assms(1)]) (simp add: answer_def)
next
  case (Stop i)
  with assms(1) calls_output_inv show ?thesis by simp
next
  case (Kill i)
  with assms(1) calls_output_inv show ?thesis by simp
next
  case (GracefulOver k)
  then show ?thesis using assms(1)
    by (auto simp: graceful_over_def signalTree_def logs_hold_def streams_wf_def intro: output_inv_cong split: prod.split call_state.split)
next
  case (KillOver k)
  then show ?thesis using assms(1)
    by (auto simp: kill_over_def logs_hold_def streams_wf_def intro: output_inv_cong split: prod.split call_state.split)
next
  case (StopAll force)
  have "output_inv (fold (if force then kill_call else stop_call) (map snd (pm_processes m)) m)"
    by (rule fold_calls_output_inv [OF assms(1)])
  then have "output_inv ((fold (if force then kill_call else stop_call) (map snd (pm_processes m)) m)\<lparr>pm_stopAlls := x\<rparr>)" for x
    by (rule output_inv_cong) (simp_all add: logs_hold_def streams_wf_def)
  with StopAll assms(1) show ?thesis by (simp add: stopAll_begin_def Let_def)
next
  case (StopAllOver j)
  define m1 where "m1 = m\<lparr>pm_processes := [], pm_stopAlls := (pm_stopAlls m)[j := []]\<rparr>"
  have m1: "output_inv m1" by (rule output_inv_cong [OF assms(1)]) (simp_all add: m1_def logs_hold_def streams_wf_def)
  then have "logs_hold m1 (captured_for m1)" by (simp add: output_inv_def)
  from closeAllLogStreams_holds [OF this] have same: "same_registry m1 (closeAllLogStreams m1)" by simp
  have "output_inv (closeAllLogStreams m1)"
    by (rule output_inv_cong [OF m1]) (use same closeAllLogStreams_holds [of m1] in \<open>auto simp: same_registry_def\<close>)
  with StopAllOver show ?thesis by (simp add: stopAll_end_def m1_def)
qed

lemma output_inv_init: "output_inv (no_processes files)"
  by (simp add: output_inv_def no_processes_def logs_hold_def streams_wf_def owned_lines_def captured_for_def)

lemma pm_step_output_inv: "output_inv m \<Longrightarrow> output_inv (pm_step m ev)"
  by (simp add: pm_step_def perform_output_inv)

lemma pm_run_output_inv: "output_inv (pm_run files evs)"
  unfolding pm_run_def by (induction evs rule: rev_induct) (simp_all add: output_inv_init pm_step_output_inv)

text \<open>C28: Whatever the chunks a child writes in and however the pipes of several children interleave, the lines captured of
  each pipe are its non-empty lines with the carriage returns trimmed (the last one once the pipe ended), the recent output
  is the newest 200 of a process's lines, and the raw logs lose and reorder nothing: the files of a label hold in order the
  lines of the processes with that label, and the aggregate files hold the lines of all.\<close>

theorem output_is_recorded:
  assumes "i < length (pm_objects (pm_run files evs))"
  shows "map snd (filter (\<lambda>c. fst c = e) (mp_lines (object (pm_run files evs) i))) =
      text_lines (mp_ended (object (pm_run files evs) i) e) (mp_text (object (pm_run files evs) i) e) \<and>
    mp_lines (object (pm_run files evs) i) = map snd (filter (\<lambda>c. fst c = i) (pm_captured (pm_run files evs))) \<and>
    mp_recent (object (pm_run files evs) i) = newest (map snd (mp_lines (object (pm_run files evs) i))) \<and>
    owned_lines None (pm_logs (pm_run files evs)) = map (snd \<circ> snd) (pm_captured (pm_run files evs)) \<and>
    owned_lines (Some label) (pm_logs (pm_run files evs)) =
      map (snd \<circ> snd) (filter (\<lambda>c. mp_label (object (pm_run files evs) (fst c)) = label) (pm_captured (pm_run files evs)))"
proof -
  have "(\<lambda>c. Some label = None \<or> Some label = Some (mp_label (object (pm_run files evs) (fst c)))) =
      (\<lambda>c :: nat \<times> bool \<times> string. mp_label (object (pm_run files evs) (fst c)) = label)"
    by auto
  moreover have "logs_hold (pm_run files evs) (captured_for (pm_run files evs))" using pm_run_output_inv [of files evs] by (simp add: output_inv_def)
  ultimately have files: "owned_lines None (pm_logs (pm_run files evs)) = map (snd \<circ> snd) (pm_captured (pm_run files evs))"
      "owned_lines (Some label) (pm_logs (pm_run files evs)) =
        map (snd \<circ> snd) (filter (\<lambda>c. mp_label (object (pm_run files evs) (fst c)) = label) (pm_captured (pm_run files evs)))"
    unfolding logs_hold_def captured_for_def by simp_all
  have "captured_ok (object (pm_run files evs) i)" using pm_run_output_inv [of files evs] assms by (simp add: output_inv_def object_def)
  moreover have "mp_lines (object (pm_run files evs) i) = map snd (filter (\<lambda>c. fst c = i) (pm_captured (pm_run files evs)))"
    using pm_run_output_inv [of files evs] assms by (simp add: output_inv_def)
  ultimately show ?thesis using files unfolding captured_ok_def by metis
qed

definition short_run :: "pm_event list" where
  "short_run = [Construct ''anvil'', Start 0 (Some 7), Data 0 False [CHR ''a''], Data 0 False [LineFeed, CHR ''b''], Ended 0 False]"

lemma output_is_recorded_witness:
  "mp_recent (object (pm_run Map.empty short_run) 0) = [''a'', ''b''] \<and>
   owned_lines (Some ''anvil'') (pm_logs (pm_run Map.empty short_run)) = [''a'', ''b'']"
proof -
  have "0 < length (pm_objects (pm_run Map.empty short_run))" "pm_captured (pm_run Map.empty short_run) = [(0, False, ''a''), (0, False, ''b'')]"
      "mp_label (object (pm_run Map.empty short_run) 0) = ''anvil''"
    by code_simp+
  with output_is_recorded [of 0 Map.empty short_run False "''anvil''"] show ?thesis
    by (simp add: newest_def RecentOutputCap_def)
qed

section \<open>Lifetimes\<close>

definition managed_ok :: "managed \<Rightarrow> bool" where
  "managed_ok p \<longleftrightarrow>
     (\<not> mp_child p \<longrightarrow> mp_pid p = 0 \<and> mp_exited p = None \<and> \<not> mp_sawExit p) \<and>
     (mp_exited p \<noteq> None \<and> mp_pid p > 0 \<longrightarrow> mp_sawExit p \<and> mp_ended p False \<and> mp_ended p True)"

text \<open>A pid file either names a child that was started and has not exited, or no process of its label was started yet.\<close>

definition names_live :: "process_manager \<Rightarrow> string \<Rightarrow> int \<Rightarrow> bool" where
  "names_live m label pid \<longleftrightarrow> (\<exists>i < length (pm_objects m). mp_label (object m i) = label \<and> mp_pid (object m i) = pid \<and> pid > 0 \<and>
     \<not> mp_sawExit (object m i))"

definition never_spawned :: "process_manager \<Rightarrow> string \<Rightarrow> bool" where
  "never_spawned m label \<longleftrightarrow> (\<forall>i < length (pm_objects m). mp_label (object m i) = label \<longrightarrow> mp_pid (object m i) \<le> 0)"

lemma lives_cong:
  "pm_objects m' = pm_objects m \<Longrightarrow> names_live m' = names_live m \<and> never_spawned m' = never_spawned m"
  by (simp add: names_live_def never_spawned_def object_def fun_eq_iff)

definition life_inv :: "(string \<rightharpoonup> int) \<Rightarrow> process_manager \<Rightarrow> bool" where
  "life_inv files m \<longleftrightarrow>
     (\<forall>p \<in> set (pm_objects m). managed_ok p) \<and>
     (\<forall>i c. (i, c) \<in> set (pm_calls m) \<longrightarrow> i < length (pm_objects m) \<and> (c = CallDone \<longrightarrow> mp_exited (object m i) \<noteq> None)) \<and>
     distinct (map fst (pm_processes m)) \<and>
     (\<forall>l i. (l, i) \<in> set (pm_processes m) \<longrightarrow> i < length (pm_objects m) \<and> mp_label (object m i) = l) \<and>
     (\<forall>l pid. pm_pidFiles m l = Some pid \<longrightarrow> names_live m l pid \<or> files l = Some pid \<and> never_spawned m l)"

lemma managed_ok_object: "life_inv files m \<Longrightarrow> i < length (pm_objects m) \<Longrightarrow> managed_ok (object m i)"
  by (simp add: life_inv_def object_def)

text \<open>One object changes: what an observer may rely on is kept.\<close>

definition keeps_life :: "process_manager \<Rightarrow> managed \<Rightarrow> managed \<Rightarrow> bool" where
  "keeps_life m p q \<longleftrightarrow> mp_label q = mp_label p \<and> managed_ok q \<and> (mp_exited p \<noteq> None \<longrightarrow> mp_exited q \<noteq> None) \<and>
     (pm_pidFiles m (mp_label p) = None \<or> (mp_pid p \<le> 0 \<and> mp_pid q \<le> 0) \<or>
      (mp_pid q = mp_pid p \<and> (mp_sawExit q \<longrightarrow> mp_sawExit p)))"

lemma life_update:
  assumes "life_inv files m" and "i < length (pm_objects m)" and "keeps_life m (object m i) q"
    and m': "pm_objects m' = (pm_objects m)[i := q]" "pm_calls m' = pm_calls m" "pm_processes m' = pm_processes m"
      "pm_pidFiles m' = pm_pidFiles m"
  shows "life_inv files m'"
proof -
  have obj: "object m' j = (if j = i then q else object m j)" for j using assms(2) by (simp add: object_def m'(1) nth_list_update)
  have "\<forall>p \<in> set (pm_objects m'). managed_ok p"
    using assms(1,3) set_update_subset_insert [of "pm_objects m" i q] unfolding life_inv_def m'(1) keeps_life_def by blast
  moreover have "\<forall>j c. (j, c) \<in> set (pm_calls m') \<longrightarrow> j < length (pm_objects m') \<and> (c = CallDone \<longrightarrow> mp_exited (object m' j) \<noteq> None)"
    using assms(1,3) by (auto simp: life_inv_def m' obj keeps_life_def)
  moreover have "\<forall>l j. (l, j) \<in> set (pm_processes m') \<longrightarrow> j < length (pm_objects m') \<and> mp_label (object m' j) = l"
    using assms(1,3) by (auto simp: life_inv_def m' obj keeps_life_def)
  moreover have "names_live m' l pid \<or> files l = Some pid \<and> never_spawned m' l" if pf: "pm_pidFiles m' l = Some pid" for l pid
  proof -
    have "names_live m l pid \<or> files l = Some pid \<and> never_spawned m l"
      using assms(1) pf unfolding life_inv_def m'(4) by blast
    then show ?thesis
    proof
      assume "names_live m l pid"
      then obtain j where "j < length (pm_objects m)" "mp_label (object m j) = l" "mp_pid (object m j) = pid" "pid > 0" "\<not> mp_sawExit (object m j)"
        by (auto simp: names_live_def)
      then have "names_live m' l pid"
        using assms(3) pf unfolding names_live_def by (intro exI [of _ j]) (auto simp: obj m' keeps_life_def)
      then show ?thesis by blast
    next
      assume f: "files l = Some pid \<and> never_spawned m l"
      then have "never_spawned m' l" using assms(2,3) pf by (auto simp: never_spawned_def obj m' keeps_life_def)
      then show ?thesis using f by blast
    qed
  qed
  ultimately show ?thesis using assms(1) by (simp add: life_inv_def m')
qed

lemma life_calls:
  assumes "life_inv files m" and m': "pm_objects m' = pm_objects m" "pm_processes m' = pm_processes m" "pm_pidFiles m' = pm_pidFiles m"
    and "\<And>i c. (i, c) \<in> set (pm_calls m') \<Longrightarrow> (i, c) \<notin> set (pm_calls m) \<Longrightarrow>
      i < length (pm_objects m) \<and> (c = CallDone \<longrightarrow> mp_exited (object m i) \<noteq> None)"
  shows "life_inv files m'"
  using assms lives_cong [OF m'(1)] unfolding life_inv_def object_def by metis

lemma calls_life:
  assumes "life_inv files m" and "i < length (pm_objects m)"
  shows "life_inv files (stop_call i m)" "life_inv files (kill_call i m)"
  by (rule life_calls [OF assms(1)]; use assms(2) in \<open>auto simp: stop_call_def kill_call_def add_call_def signalTree_def split: if_splits\<close>)+

lemma calls_objects [simp]: "pm_objects (stop_call i m) = pm_objects m" "pm_objects (kill_call i m) = pm_objects m"
  by (simp_all add: stop_call_def kill_call_def add_call_def signalTree_def)

lemma fold_calls_life:
  "\<lbrakk>life_inv files m; \<forall>i \<in> set is. i < length (pm_objects m)\<rbrakk> \<Longrightarrow> life_inv files (fold (if b then kill_call else stop_call) is m)"
proof (induction "is" arbitrary: m)
  case (Cons i "is")
  then show ?case using calls_life [of files m i] by (cases b) simp_all
qed simp

lemma life_cong:
  "\<lbrakk>life_inv files m; pm_objects m' = pm_objects m; pm_calls m' = pm_calls m; pm_processes m' = pm_processes m; pm_pidFiles m' = pm_pidFiles m\<rbrakk> \<Longrightarrow>
     life_inv files m'"
  using lives_cong [of m' m] by (simp add: life_inv_def object_def)

lemma captures_life:
  assumes "life_inv files m" and "i < length (pm_objects m)" and "captures (update_object i f m) i e ls m'"
    and "keeps_life m (object m i) (f (object m i))"
  shows "life_inv files m'"
proof (rule life_update [OF assms(1,2)])
  show "pm_objects m' = (pm_objects m)[i := with_lines e ls (f (object m i))]"
    using assms(2,3) by (simp add: captures_def) (simp add: update_object_def object_def)
  show "keeps_life m (object m i) (with_lines e ls (f (object m i)))"
    using assms(4) by (simp add: keeps_life_def managed_ok_def with_lines_def)
qed (use assms(3) in \<open>simp_all add: captures_def\<close>)

lemma update_life:
  assumes "life_inv files m" and "i < length (pm_objects m)" and "keeps_life m (object m i) (f (object m i))"
  shows "life_inv files (update_object i f m)"
  by (rule life_update [OF assms]) (simp_all add: update_object_def object_def)

lemma construct_life:
  assumes "life_inv files m" and "construct label m = Some m'"
  shows "life_inv files m'"
proof -
  have m': "m' = m\<lparr>pm_objects := pm_objects m @ [new_process label], pm_processes := pm_processes m @ [(label, length (pm_objects m))]\<rparr>"
    and new: "label \<notin> fst ` set (pm_processes m)"
    using assms(2) by (auto simp: construct_def map_of_eq_None_iff split: if_splits)
  have old: "object m' j = object m j" if "j < length (pm_objects m)" for j using that by (simp add: m' object_def nth_append)
  have len: "length (pm_objects m') = Suc (length (pm_objects m))" by (simp add: m')
  have ok: "managed_ok (new_process label)" by (simp add: managed_ok_def new_process_def)
  have last: "object m' (length (pm_objects m)) = new_process label" by (simp add: m' object_def)
  have keep: "names_live m' l pid" if "names_live m l pid" for l pid
    using that old len unfolding names_live_def by (metis less_Suc_eq)
  have "never_spawned m' l" if "never_spawned m l" for l
    using that old len last by (auto simp: never_spawned_def less_Suc_eq new_process_def)
  then have "names_live m' l pid \<or> files l = Some pid \<and> never_spawned m' l" if "pm_pidFiles m l = Some pid" for l pid
    using that keep assms(1) unfolding life_inv_def by blast
  moreover have "pm_calls m' = pm_calls m" "pm_pidFiles m' = pm_pidFiles m"
    "pm_processes m' = pm_processes m @ [(label, length (pm_objects m))]" "pm_objects m' = pm_objects m @ [new_process label]"
    by (simp_all add: m')
  ultimately show ?thesis using assms(1) new old len ok last by (auto simp: life_inv_def new_process_def less_Suc_eq)
qed

lemma start_life:
  assumes "life_inv files m" and i: "i < length (pm_objects m)" and "start_process i pid m = Some m'"
  shows "life_inv files m'"
proof -
  define n where "n = (case pid of Some n \<Rightarrow> n | None \<Rightarrow> 0)"
  have fresh: "\<not> mp_child (object m i)" using assms(3) by (simp add: start_process_def split: if_splits)
  then have p0: "mp_pid (object m i) = 0" "mp_exited (object m i) = None" "\<not> mp_sawExit (object m i)"
    using managed_ok_object [OF assms(1) i] by (simp_all add: managed_ok_def)
  show ?thesis
  proof (cases "n > 0")
    case False
    have "life_inv files (update_object i (\<lambda>x. x\<lparr>mp_child := True, mp_pid := n, mp_start := StartFailed NoPid\<rparr>) m)"
      using managed_ok_object [OF assms(1) i] p0 False
      by (intro update_life [OF assms(1) i]) (simp add: keeps_life_def managed_ok_def)
    with False assms(3) fresh show ?thesis by (simp add: start_process_def n_def [symmetric])
  next
    case True
    define m0 where "m0 = m\<lparr>pm_pidFiles := (pm_pidFiles m)(mp_label (object m i) := None)\<rparr>"
    define m1 where "m1 = update_object i (\<lambda>x. x\<lparr>mp_child := True, mp_pid := n, mp_start := Looking\<rparr>) m0"
    have "life_inv files m0" using assms(1) lives_cong [of m0 m] by (simp add: life_inv_def m0_def object_def)
    moreover have o0: "object m0 i = object m i" "pm_objects m0 = pm_objects m" by (simp_all add: m0_def object_def)
    ultimately have m1: "life_inv files m1"
      unfolding m1_def using managed_ok_object [OF assms(1) i] p0 i
      by (intro update_life) (simp_all add: keeps_life_def managed_ok_def m0_def object_def)
    have m': "m' = m1\<lparr>pm_pidFiles := (pm_pidFiles m)(mp_label (object m i) \<mapsto> n)\<rparr>"
      using assms(3) fresh True by (simp add: start_process_def n_def [symmetric] m1_def m0_def Let_def update_object_def)
    have files: "pm_pidFiles m1 = (pm_pidFiles m)(mp_label (object m i) := None)" by (simp add: m1_def m0_def)
    have mine: "names_live m1 (mp_label (object m i)) n"
      unfolding names_live_def using i p0(3) True o0 by (intro exI [of _ i]) (simp add: m1_def)
    show ?thesis
      using m1 mine lives_cong [of m' m1] by (auto simp: life_inv_def m' files object_def split: if_splits)
  qed
qed

lemma capture_life:
  assumes "life_inv files m" and "i < length (pm_objects m)"
  shows "life_inv files (capture_data i e chunk m)" and "life_inv files (capture_end i e m)"
proof -
  note ok = managed_ok_object [OF assms]
  obtain ls rest where split: "split_chunk (mp_partial (object m i) e) chunk = (ls, rest)" by fastforce
  define f where "f = (\<lambda>p :: managed. p\<lparr>mp_partial := (mp_partial p)(e := rest), mp_text := (mp_text p)(e := mp_text p e @ chunk)\<rparr>)"
  have "captures (update_object i f m) i e (output_lines ls) (capture_data i e chunk m)"
    using captureLines_captures [of i "update_object i f m" e ls] assms(2) split by (simp add: capture_data_def f_def)
  then show "life_inv files (capture_data i e chunk m)"
    by (rule captures_life [OF assms]) (use ok in \<open>simp add: keeps_life_def managed_ok_def f_def\<close>)
  define g where "g = (\<lambda>p :: managed. p\<lparr>mp_ended := (mp_ended p)(e := True)\<rparr>)"
  have "captures (update_object i g m) i e (output_lines [mp_partial (object m i) e]) (capture_end i e m)"
    using captureLine_captures [of i "update_object i g m" e "mp_partial (object m i) e"] assms(2)
    by (simp add: capture_end_def g_def del: output_lines_simps)
  then show "life_inv files (capture_end i e m)"
    by (rule captures_life [OF assms]) (use ok in \<open>simp add: keeps_life_def managed_ok_def g_def\<close>)
qed

lemma over_life:
  assumes "life_inv files m" and "k < length (pm_calls m)"
  shows "life_inv files (graceful_over k m)" and "life_inv files (kill_over k m)"
proof -
  obtain i c where k: "pm_calls m ! k = (i, c)" by fastforce
  then have i: "i < length (pm_objects m)" using assms nth_mem [OF assms(2)] by (auto simp: life_inv_def)
  note new = subsetD [OF set_update_subset_insert]
  show "life_inv files (graceful_over k m)"
    by (rule life_calls [OF assms(1)])
      (use k i in \<open>auto simp: graceful_over_def signalTree_def dest!: new split: call_state.splits if_splits\<close>)
  show "life_inv files (kill_over k m)"
    by (rule life_calls [OF assms(1)])
      (use k i in \<open>auto simp: kill_over_def dest!: new split: call_state.splits if_splits\<close>)
qed

lemma stopAll_life:
  assumes "life_inv files m"
  shows "life_inv files (stopAll_begin force m)" and "life_inv files (stopAll_end j m)"
proof -
  have "\<forall>i \<in> set (map snd (pm_processes m)). i < length (pm_objects m)" using assms by (auto simp: life_inv_def)
  note calls = fold_calls_life [OF assms this, of force]
  show "life_inv files (stopAll_begin force m)"
    using assms life_cong [OF calls] by (simp add: stopAll_begin_def Let_def)
  have "life_inv files (m\<lparr>pm_processes := [], pm_stopAlls := (pm_stopAlls m)[j := []]\<rparr>)"
    using assms lives_cong [of "m\<lparr>pm_processes := [], pm_stopAlls := (pm_stopAlls m)[j := []]\<rparr>" m] by (simp add: life_inv_def object_def)
  then show "life_inv files (stopAll_end j m)"
    unfolding stopAll_end_def
    by (rule life_cong)
      (use closeAllLogStreams_same [of "m\<lparr>pm_processes := [], pm_stopAlls := (pm_stopAlls m)[j := []]\<rparr>"] in \<open>simp_all add: same_registry_def\<close>)
qed

lemma remove_life:
  assumes "life_inv files m" and "remove label m = Some m'"
  shows "life_inv files m'"
proof -
  have m': "m' = m\<lparr>pm_processes := AList.delete label (pm_processes m)\<rparr>"
    using assms(2) by (auto simp: remove_def split: option.splits if_splits)
  have "names_live m' = names_live m \<and> never_spawned m' = never_spawned m" by (rule lives_cong) (simp add: m')
  with assms(1) show ?thesis
    by (auto simp: m' life_inv_def object_def AList.delete_eq distinct_map_filter)
qed

lemma exit_life:
  assumes "life_inv files m" and i: "i < length (pm_objects m)" and "mp_pid (object m i) > 0"
  shows "life_inv files (perform (ChildExit i) m)"
proof -
  define m0 where "m0 = m\<lparr>pm_pidFiles := (pm_pidFiles m)(mp_label (object m i) := None)\<rparr>"
  have m0: "life_inv files m0" using assms(1) lives_cong [of m0 m] by (simp add: life_inv_def m0_def object_def)
  have "mp_child (object m i)" using managed_ok_object [OF assms(1) i] assms(3) by (auto simp: managed_ok_def)
  then have "keeps_life m0 (object m0 i) ((object m0 i)\<lparr>mp_sawExit := True\<rparr>)"
    using managed_ok_object [OF assms(1) i] by (simp add: keeps_life_def managed_ok_def m0_def object_def)
  with update_life [OF m0, of i "\<lambda>p. p\<lparr>mp_sawExit := True\<rparr>"] i
  have "life_inv files (update_object i (\<lambda>p. p\<lparr>mp_sawExit := True\<rparr>) m0)" by (simp add: m0_def)
  moreover have "update_object i (\<lambda>p. p\<lparr>mp_sawExit := True\<rparr>) m0 =
      (update_object i (\<lambda>p. p\<lparr>mp_sawExit := True\<rparr>) m)\<lparr>pm_pidFiles := (pm_pidFiles m)(mp_label (object m i) := None)\<rparr>"
    by (simp add: m0_def update_object_def)
  ultimately show ?thesis
    using life_cong closeProcessLogStream_same by (simp add: same_registry_def)
qed

lemma perform_life:
  assumes "life_inv files m" and "enabled m ev"
  shows "life_inv files (perform ev m)"
proof (cases ev)
  case (Construct label)
  with assms(1) construct_life show ?thesis by (auto simp: otherwise_def split: option.split)
next
  case (Remove label)
  with assms(1) remove_life show ?thesis by (auto simp: otherwise_def split: option.split)
next
  case (Start i pid)
  with assms start_life show ?thesis by (auto simp: otherwise_def split: option.split)
next
  case (ChildError i)
  with assms have "keeps_life m (object m i) (settle_exited 1 (object m i))"
    using managed_ok_object [of files m i] by (simp add: keeps_life_def managed_ok_def settle_exited_def split: option.split)
  with ChildError assms update_life show ?thesis by simp
next
  case (ChildClose i code)
  with assms have "keeps_life m (object m i) (settle_exited code (object m i))"
    using managed_ok_object [of files m i] by (auto simp: keeps_life_def managed_ok_def settle_exited_def split: option.split)
  with ChildClose assms update_life show ?thesis by simp
next
  case (Look i expired)
  with assms have "keeps_life m (object m i) (look expired (object m i))"
    using managed_ok_object [of files m i] by (auto simp: keeps_life_def managed_ok_def look_def split: option.split)
  with Look assms update_life show ?thesis by simp
next
  case (Answer i ready)
  with assms have "keeps_life m (object m i) (answer ready (object m i))"
    using managed_ok_object [of files m i] by (auto simp: keeps_life_def managed_ok_def answer_def)
  with Answer assms update_life show ?thesis by simp
qed (use assms capture_life exit_life calls_life over_life stopAll_life in simp_all)

lemma pm_run_life: "life_inv files (pm_run files evs)"
proof -
  have "life_inv files (no_processes files)" by (simp add: life_inv_def no_processes_def never_spawned_def)
  then show ?thesis
    unfolding pm_run_def by (induction evs rule: rev_induct) (simp_all add: pm_step_def perform_life)
qed

text \<open>
  C29: When a call of stop or kill that had something to stop has returned, the child is gone: its exit was seen, both its
  pipes ended and its exit code is known. The registry has each label once, and the process found under a label has that
  label. Whatever pid files there were at the start, a pid file names a child of its label that was started and has not
  exited, or it is the one of the start and no process of its label was spawned.
\<close>

theorem stopped_means_gone:
  assumes "(i, CallDone) \<in> set (pm_calls (pm_run files evs))"
  shows "\<not> isRunning (object (pm_run files evs) i) \<and> mp_exited (object (pm_run files evs) i) \<noteq> None \<and>
    (mp_pid (object (pm_run files evs) i) > 0 \<longrightarrow>
      mp_sawExit (object (pm_run files evs) i) \<and> mp_ended (object (pm_run files evs) i) False \<and> mp_ended (object (pm_run files evs) i) True) \<and>
    distinct (map fst (pm_processes (pm_run files evs))) \<and>
    (\<forall>label j. get_process label (pm_run files evs) = Some j \<longrightarrow>
      j < length (pm_objects (pm_run files evs)) \<and> mp_label (object (pm_run files evs) j) = label) \<and>
    (\<forall>label pid. pm_pidFiles (pm_run files evs) label = Some pid \<longrightarrow>
      (\<exists>j < length (pm_objects (pm_run files evs)). mp_label (object (pm_run files evs) j) = label \<and>
        mp_pid (object (pm_run files evs) j) = pid \<and> pid > 0 \<and> \<not> mp_sawExit (object (pm_run files evs) j)) \<or>
      (files label = Some pid \<and> (\<forall>j < length (pm_objects (pm_run files evs)).
        mp_label (object (pm_run files evs) j) = label \<longrightarrow> mp_pid (object (pm_run files evs) j) \<le> 0)))"
proof -
  note inv = pm_run_life [of files evs]
  let ?m = "pm_run files evs"
  have i: "i < length (pm_objects ?m)" "mp_exited (object ?m i) \<noteq> None"
    using inv assms unfolding life_inv_def by auto
  have "\<forall>label pid. pm_pidFiles ?m label = Some pid \<longrightarrow> names_live ?m label pid \<or> files label = Some pid \<and> never_spawned ?m label"
    using inv by (simp add: life_inv_def)
  moreover have "distinct (map fst (pm_processes ?m))" using inv by (simp add: life_inv_def)
  moreover have "\<forall>label j. get_process label ?m = Some j \<longrightarrow> j < length (pm_objects ?m) \<and> mp_label (object ?m j) = label"
    using inv by (auto simp: life_inv_def get_process_def dest: map_of_SomeD)
  ultimately show ?thesis using i managed_ok_object [OF inv i(1)]
    unfolding names_live_def never_spawned_def by (simp add: isRunning_def managed_ok_def)
qed

definition stopping_run :: "pm_event list" where
  "stopping_run = [Construct ''anvil'', Start 0 (Some 7), StopAll False, Construct ''kiod'', Start 1 (Some 8), ChildExit 0,
     Ended 0 False, Ended 0 True, ChildClose 0 0, GracefulOver 0]"

lemma stopped_means_gone_witness:
  "\<not> isRunning (object (pm_run [''anvil-1'' \<mapsto> 99] stopping_run) 0) \<and> mp_sawExit (object (pm_run [''anvil-1'' \<mapsto> 99] stopping_run) 0)"
proof -
  have "(0, CallDone) \<in> set (pm_calls (pm_run [''anvil-1'' \<mapsto> 99] stopping_run))"
      "mp_pid (object (pm_run [''anvil-1'' \<mapsto> 99] stopping_run) 0) > 0" by code_simp+
  with stopped_means_gone [of 0 "[''anvil-1'' \<mapsto> 99]" stopping_run] show ?thesis by simp
qed

text \<open>A process that registers while \<open>stopAll\<close> waits for the others is dropped from the registry without being stopped.\<close>

lemma stopAll_forgets_a_newcomer:
  "pm_processes (pm_run Map.empty (stopping_run @ [StopAllOver 0])) = [] \<and> isRunning (object (pm_run Map.empty (stopping_run @ [StopAllOver 0])) 1)"
  by code_simp

text \<open>Output read after the exit event opens a second log file, and the stream of it stays open after the child is gone.\<close>

definition late_output :: "pm_event list" where
  "late_output = [Construct ''anvil'', Start 0 (Some 7), Data 0 False [CHR ''a'', LineFeed], ChildExit 0,
     Data 0 False [CHR ''b'', LineFeed], Ended 0 False, Ended 0 True, ChildClose 0 0]"

lemma late_output_reopens_the_log:
  "\<not> isRunning (object (pm_run Map.empty late_output) 0) \<and>
   map lg_lines (filter (\<lambda>lg. lg_owner lg = Some ''anvil'') (pm_logs (pm_run Map.empty late_output))) = [[''a''], [''b'']] \<and>
   pm_streams (pm_run Map.empty late_output) \<noteq> []"
  by code_simp

section \<open>The sweep ends and spares the innocent\<close>

lemma poll_exits_ends:
  assumes clock: "\<And>k. now k + SweepPollIntervalMs \<le> now (Suc k)"
  shows "\<exists>left k. poll_exits isAlive now deadline round remaining = Some left \<and> round \<le> k \<and> (left \<noteq> [] \<longrightarrow> deadline \<le> now k) \<and>
    left = filter (\<lambda>p. \<forall>j. round < j \<and> j \<le> k \<longrightarrow> isAlive j p) remaining"
proof (induction "nat (deadline - now round)" arbitrary: round remaining rule: less_induct)
  case less
  show ?case
  proof (cases "remaining \<noteq> [] \<and> now round < deadline")
    case True
    have "now round < now (Suc round)" using clock [of round] by (simp add: SweepPollIntervalMs_def)
    with True have "nat (deadline - now (Suc round)) < nat (deadline - now round)" by linarith
    from less.hyps [OF this, of "filter (isAlive (Suc round)) remaining"] obtain left k where
      r: "poll_exits isAlive now deadline (Suc round) (filter (isAlive (Suc round)) remaining) = Some left" "Suc round \<le> k"
        "left \<noteq> [] \<longrightarrow> deadline \<le> now k"
        "left = filter (\<lambda>p. \<forall>j. Suc round < j \<and> j \<le> k \<longrightarrow> isAlive j p) (filter (isAlive (Suc round)) remaining)"
      by blast
    have "(\<lambda>p. isAlive (Suc round) p \<and> (\<forall>j. Suc round < j \<and> j \<le> k \<longrightarrow> isAlive j p)) =
        (\<lambda>p. \<forall>j. round < j \<and> j \<le> k \<longrightarrow> isAlive j p)"
      using r(2) by (auto simp: fun_eq_iff) (metis Suc_lessI)
    with r True show ?thesis by (subst poll_exits.simps) (auto simp: conj_commute intro!: exI [of _ k])
  next
    case False
    then have "poll_exits isAlive now deadline round remaining = Some remaining" by (subst poll_exits.simps) auto
    moreover have "filter (\<lambda>p. \<forall>j. round < j \<and> j \<le> round \<longrightarrow> isAlive j p) remaining = remaining" by (intro filter_True) auto
    ultimately show ?thesis using False by (intro exI [of _ remaining] exI [of _ round]) auto
  qed
qed

text \<open>The sweep of left-over processes returns when each poll advances the clock, asks only pids it found alive and
  managed to stop, and force-kills exactly those that it still saw alive in every round up to one after the grace period.\<close>

theorem sweep_terminates:
  assumes "\<And>k. now k + SweepPollIntervalMs \<le> now (Suc k)"
  shows "\<exists>signals left k. terminatePidsSync isAlive now pids graceMs = Some (signals, left) \<and>
    signals = map (\<lambda>p. (p, SIGINT)) (filter (isAlive 0) pids) @ map (\<lambda>p. (p, SIGKILL)) left \<and>
    left = filter (\<lambda>p. \<forall>j \<le> k. isAlive j p) pids \<and> (left \<noteq> [] \<longrightarrow> now 0 + graceMs \<le> now k)"
proof (cases "filter (isAlive 0) pids = []")
  case True
  then have "filter (\<lambda>p. \<forall>j \<le> (0::nat). isAlive j p) pids = []" by (simp add: filter_empty_conv)
  with True show ?thesis by (intro exI [of _ "[]"] exI [of _ 0]) (simp add: terminatePidsSync_def)
next
  case False
  obtain left k where r: "poll_exits isAlive now (now 0 + graceMs) 1 (filter (isAlive 1) (filter (isAlive 0) pids)) = Some left" "1 \<le> k"
      "left \<noteq> [] \<longrightarrow> now 0 + graceMs \<le> now k"
      "left = filter (\<lambda>p. \<forall>j. 1 < j \<and> j \<le> k \<longrightarrow> isAlive j p) (filter (isAlive 1) (filter (isAlive 0) pids))"
    using poll_exits_ends [where now = now and deadline = "now 0 + graceMs" and isAlive = isAlive and round = 1
        and remaining = "filter (isAlive 1) (filter (isAlive 0) pids)", OF assms] by blast
  have "(isAlive 0 p \<and> isAlive 1 p \<and> (\<forall>j. 1 < j \<and> j \<le> k \<longrightarrow> isAlive j p)) = (\<forall>j \<le> k. isAlive j p)" for p
  proof
    assume a: "isAlive 0 p \<and> isAlive 1 p \<and> (\<forall>j. 1 < j \<and> j \<le> k \<longrightarrow> isAlive j p)"
    show "\<forall>j \<le> k. isAlive j p"
    proof (intro allI impI)
      fix j assume "j \<le> k"
      consider "j = 0" | "j = 1" | "1 < j" by linarith
      then show "isAlive j p" using a \<open>j \<le> k\<close> by cases auto
    qed
  qed (use r(2) in auto)
  then have "left = filter (\<lambda>p. \<forall>j \<le> k. isAlive j p) pids" using r(4) by (auto intro!: filter_cong simp: conj_commute)
  with False r show ?thesis by (intro exI [of _ k] exI) (auto simp: terminatePidsSync_def)
qed

lemma sweep_terminates_witness:
  "\<exists>signals left k. terminatePidsSync (\<lambda>round p. p = 5 \<or> round = 0) (\<lambda>k. 500 * int k) [4, 5] 1000 = Some (signals, left) \<and>
    signals = map (\<lambda>p. (p, SIGINT)) [4, 5] @ map (\<lambda>p. (p, SIGKILL)) left \<and> (left \<noteq> [] \<longrightarrow> 1000 \<le> 500 * int k)"
  using sweep_terminates [of "\<lambda>k. 500 * int k" "\<lambda>round p. p = 5 \<or> round = 0" "[4, 5]" 1000]
  by (force simp: SweepPollIntervalMs_def)

end
