(* ===== verification/Query_History.thy ===== *)
theory Query_History
  imports Utf8 Query_Client
begin

text \<open>
  \<open>ql-shared/src/node/QueryHistoryStore.ts\<close> and the record it holds, \<open>ql-shared/src/profiles/QueryHistoryEntry.ts\<close>:
  the append-only log \<open>history.jsonl\<close>, one JSON record to a line, and its backward reader. The file is its bytes, or
  missing; the codec of the records is an argument (its text, or \<^const>\<open>None\<close> where it throws). The reader fetches
  chunks from the end of the file, carries the unfinished first line of a chunk as bytes, and stops when enough
  records match; it is shown to return what reading the whole file would, and the log to be the list of its records.
\<close>

section \<open>Records\<close>

datatype query_outcome = outcome_success | outcome_engineError | outcome_transportError | outcome_cancelled

record history_entry =
  he_id :: rpc_id
  he_profile :: utf16
  he_query :: utf16
  he_executedAt :: utf16
  he_outcome :: query_outcome
  he_errorKind :: "error_kind option"
  he_returnedRows :: "rat option"
  he_wallTimeMs :: rat

definition outcomeOf :: "'r execution \<Rightarrow> query_outcome" where
  "outcomeOf x =
     (case ex_outcome x of
        Inr result \<Rightarrow> outcome_success
      | Inl failure \<Rightarrow>
          (case qf_kind failure of
             engine_failure \<Rightarrow> outcome_engineError
           | transport_failure \<Rightarrow> outcome_transportError
           | cancelled_failure \<Rightarrow> outcome_cancelled))"

text \<open>\<open>QueryHistoryEntry.of\<close>, given the page of the result, the profile, the time and the wall time.\<close>

definition history_of :: "('r \<Rightarrow> query_page) \<Rightarrow> 'r execution \<Rightarrow> utf16 \<Rightarrow> utf16 \<Rightarrow> rat \<Rightarrow> history_entry" where
  "history_of page x profileName executedAt wallTimeMs =
     (let base = \<lparr>he_id = ex_requestId x, he_profile = profileName, he_query = ex_query x, he_executedAt = executedAt,
                  he_outcome = outcomeOf x, he_errorKind = None, he_returnedRows = None, he_wallTimeMs = wallTimeMs\<rparr>
      in case ex_outcome x of
           Inr result \<Rightarrow> base\<lparr>he_returnedRows := Some (to_number (qp_returned_rows (page result)))\<rparr>
         | Inl failure \<Rightarrow> base\<lparr>he_errorKind := map_option ed_kind (qf_data failure)\<rparr>)"

section \<open>The store\<close>

record 'e entry_codec =
  ec_serializeCompact :: "'e \<Rightarrow> utf16 option"
  ec_deserialize :: "utf16 \<Rightarrow> 'e option"

definition DefaultListLimit :: int where "DefaultListLimit = 100"

definition TailChunkBytes :: nat where "TailChunkBytes = 64 * 1024"

definition LineSeparator :: utf16 where "LineSeparator = [LF]"

text \<open>\<open>append\<close>: the file afterwards, \<^const>\<open>None\<close> when the record is not valid and nothing is written.\<close>

definition history_append :: "'e entry_codec \<Rightarrow> byte list option \<Rightarrow> 'e \<Rightarrow> byte list option option" where
  "history_append codec disk entry =
     map_option (\<lambda>line. Some ((case disk of None \<Rightarrow> [] | Some bytes \<Rightarrow> bytes) @ utf8_encode (line @ LineSeparator)))
       (ec_serializeCompact codec entry)"

definition history_clear :: "byte list option \<Rightarrow> byte list option" where
  "history_clear disk = map_option (\<lambda>_. []) disk"

text \<open>\<open>splitLines\<close>, each step from the start of a line.\<close>

function splitLines :: "byte list \<Rightarrow> byte list list" where
  "splitLines bytes = (case index_of LF bytes of None \<Rightarrow> [bytes] | Some index \<Rightarrow> take index bytes # splitLines (drop (index + 1) bytes))"
  by pat_completeness auto
termination by (relation "measure length") (auto dest: index_of_Some)

declare splitLines.simps [simp del]

text \<open>\<open>readChunk\<close>: the complete lines, the carry and the position of the next chunk.\<close>

definition readChunk :: "nat \<Rightarrow> byte list \<Rightarrow> byte list \<Rightarrow> nat \<Rightarrow> byte list list \<times> byte list \<times> nat" where
  "readChunk tailChunkBytes bytes carry from =
     (let size = min tailChunkBytes from; position = from - size;
          buffer = take size (drop position bytes);
          parts = splitLines (buffer @ carry)
      in if position = 0 then (filter (\<lambda>line. length line > 0) parts, [], 0)
         else (filter (\<lambda>line. length line > 0) (tl parts), hd parts, position))"

definition accepted :: "'e entry_codec \<Rightarrow> ('e \<Rightarrow> bool) \<Rightarrow> byte list list \<Rightarrow> 'e list" where
  "accepted codec accept lines = filter accept (List.map_filter (\<lambda>line. ec_deserialize codec (utf8_decode line)) (rev lines))"

partial_function (option) readTail ::
  "'e entry_codec \<Rightarrow> nat \<Rightarrow> byte list \<Rightarrow> ('e \<Rightarrow> bool) \<Rightarrow> int \<Rightarrow> byte list \<Rightarrow> nat \<Rightarrow> 'e list \<Rightarrow> 'e list option" where
  "readTail codec tailChunkBytes bytes accept limit carry position collected =
     (if int (length collected) < limit \<and> (position > 0 \<or> length carry > 0)
      then (let (lines, carry', position') = readChunk tailChunkBytes bytes carry position
            in readTail codec tailChunkBytes bytes accept limit carry' position' (collected @ accepted codec accept lines))
      else Some (js_slice collected 0 limit))"

definition history_scan :: "'e entry_codec \<Rightarrow> nat \<Rightarrow> byte list option \<Rightarrow> ('e \<Rightarrow> bool) \<Rightarrow> int \<Rightarrow> 'e list option" where
  "history_scan codec tailChunkBytes disk accept limit =
     (case disk of None \<Rightarrow> Some [] | Some bytes \<Rightarrow> readTail codec tailChunkBytes bytes accept limit [] (length bytes) [])"

definition history_list ::
  "(utf16 \<Rightarrow> utf16) \<Rightarrow> history_entry entry_codec \<Rightarrow> nat \<Rightarrow> byte list option \<Rightarrow> int option \<Rightarrow> utf16 \<Rightarrow> history_entry list option" where
  "history_list lower codec tailChunkBytes disk limit search =
     history_scan codec tailChunkBytes disk (\<lambda>entry. js_includes (lower (he_query entry)) (lower search))
       (case limit of None \<Rightarrow> DefaultListLimit | Some n \<Rightarrow> n)"

definition history_get :: "history_entry entry_codec \<Rightarrow> nat \<Rightarrow> byte list option \<Rightarrow> rpc_id \<Rightarrow> history_entry option option" where
  "history_get codec tailChunkBytes disk i =
     map_option (\<lambda>found. js_at found 0) (history_scan codec tailChunkBytes disk (\<lambda>entry. he_id entry = i) 1)"

section \<open>Splitting\<close>

text \<open>The loop over separators is the split at the separator.\<close>

lemma splitLines_split: "splitLines bytes = js_split LF bytes"
proof (induction bytes rule: length_induct)
  case (1 bytes)
  show ?case
  proof (cases "LF \<in> set bytes")
    case False
    then show ?thesis by (subst splitLines.simps) (simp add: index_of_None js_split_no_sep)
  next
    case True
    then obtain xs ys where split: "bytes = xs @ LF # ys" "LF \<notin> set xs" using split_list_first by metis
    then have "splitLines ys = js_split LF ys" using 1 by simp
    with split show ?thesis
      by (subst splitLines.simps) (simp add: index_of_append js_split_append_sep js_split_no_sep)
  qed
qed

lemma split_prefix_tail:
  "js_split LF (p @ b) = js_split LF (p @ hd (js_split LF b)) @ tl (js_split LF b)"
proof -
  have "LF \<notin> set (hd (js_split LF b))" by (rule js_split_parts_no_sep [of _ LF b]) simp
  then show ?thesis by (simp add: js_split_append [of LF p] js_split_no_sep)
qed

section \<open>The backward reader\<close>

definition nonempty_lines :: "byte list \<Rightarrow> byte list list" where
  "nonempty_lines bytes = filter (\<lambda>line. length line > 0) (js_split LF bytes)"

lemma nonempty_lines_Nil [simp]: "nonempty_lines [] = []"
  by (simp add: nonempty_lines_def)

lemma map_filter_rev: "List.map_filter f (rev xs) = rev (List.map_filter f xs)"
  by (simp add: List.map_filter_def rev_map rev_filter)

lemma map_filter_append: "List.map_filter f (xs @ ys) = List.map_filter f xs @ List.map_filter f ys"
  by (simp add: List.map_filter_def)

lemma accepted_append: "accepted codec accept (xs @ ys) = accepted codec accept ys @ accepted codec accept xs"
  by (simp add: accepted_def map_filter_append)

lemma accepted_Nil [simp]: "accepted codec accept [] = []"
  by (simp add: accepted_def List.map_filter_def)

text \<open>A chunk takes its complete lines off the end of what is left to read.\<close>

lemma readChunk_lines:
  assumes "readChunk n bytes carry position = (lines, carry', position')" and "position \<le> length bytes"
  shows "nonempty_lines (take position bytes @ carry) = nonempty_lines (take position' bytes @ carry') @ lines"
    and "position' = position - n" and "position' = 0 \<Longrightarrow> carry' = []"
proof -
  let ?buffer = "take (min n position) (drop (position - min n position) bytes)"
  have p: "position - min n position = position - n" by simp
  have "take (position - n + min n position) bytes = take (position - n) bytes @ ?buffer"
    unfolding p take_add ..
  moreover have "position - n + min n position = position" by simp
  ultimately have prefix: "take position bytes @ carry = take (position - n) bytes @ ?buffer @ carry" by simp
  show "position' = position - n" "position' = 0 \<Longrightarrow> carry' = []"
    using assms(1) by (auto simp: readChunk_def Let_def split: if_splits)
  show "nonempty_lines (take position bytes @ carry) = nonempty_lines (take position' bytes @ carry') @ lines"
  proof (cases "position - n = 0")
    case True
    then have "min n position = position" by simp
    then show ?thesis
      using assms(1) by (auto simp: readChunk_def Let_def splitLines_split nonempty_lines_def)
  next
    case False
    then have eqs: "lines = filter (\<lambda>line. length line > 0) (tl (js_split LF (?buffer @ carry)))"
      "carry' = hd (js_split LF (?buffer @ carry))" "position' = position - n"
      using assms(1) by (auto simp: readChunk_def Let_def splitLines_split)
    show ?thesis
      unfolding prefix eqs nonempty_lines_def by (subst split_prefix_tail) simp
  qed
qed

lemma js_slice_take: "0 \<le> n \<or> xs = [] \<Longrightarrow> js_slice xs 0 n = take (nat n) xs"
  by (auto simp: js_slice_def js_rel_def min_def)

lemma readTail_whole:
  assumes "1 \<le> n" "position \<le> length bytes" "position = 0 \<Longrightarrow> carry = []"
    "int (length collected) < limit \<or> 0 \<le> limit \<or> collected = []"
  shows "readTail codec n bytes accept limit carry position collected =
    Some (take (nat limit) (collected @ accepted codec accept (nonempty_lines (take position bytes @ carry))))"
  using assms
proof (induction position arbitrary: carry collected rule: less_induct)
  case (less position)
  show ?case
  proof (cases "int (length collected) < limit \<and> position > 0")
    case False
    then consider "limit \<le> int (length collected)" | "position = 0" "carry = []" using less.prems(3) by force
    then show ?thesis
    proof cases
      case 1
      moreover have "js_slice collected 0 limit = take (nat limit) collected"
        by (rule js_slice_take) (use less.prems(4) 1 in auto)
      moreover have "nat limit \<le> length collected" using 1 by simp
      ultimately show ?thesis by (subst readTail.simps) simp
    next
      case 2
      moreover have "js_slice collected 0 limit = take (nat limit) collected"
        by (rule js_slice_take) (use less.prems(4) in auto)
      ultimately show ?thesis by (subst readTail.simps) simp
    qed
  next
    case True
    obtain lines carry' position' where chunk: "readChunk n bytes carry position = (lines, carry', position')"
      by (metis prod_cases3)
    note step = readChunk_lines [OF chunk less.prems(2)]
    have smaller: "position' < position" using step(2) True less.prems(1) by simp
    have "readTail codec n bytes accept limit carry position collected =
        readTail codec n bytes accept limit carry' position' (collected @ accepted codec accept lines)"
      by (subst readTail.simps) (use True chunk in simp)
    also have "\<dots> = Some (take (nat limit) ((collected @ accepted codec accept lines) @
        accepted codec accept (nonempty_lines (take position' bytes @ carry'))))"
      by (rule less.IH [OF smaller less.prems(1)]) (use smaller less.prems(2) step(3) True in auto)
    finally show ?thesis using step(1) by (simp add: accepted_append)
  qed
qed

section \<open>The log as a list of records\<close>

definition disk_bytes :: "byte list option \<Rightarrow> byte list" where
  "disk_bytes disk = (case disk of None \<Rightarrow> [] | Some bytes \<Rightarrow> bytes)"

text \<open>The records of the file, oldest first, read as a whole.\<close>

definition history_records :: "'e entry_codec \<Rightarrow> byte list option \<Rightarrow> 'e list" where
  "history_records codec disk =
     List.map_filter (\<lambda>line. ec_deserialize codec (utf8_decode line)) (nonempty_lines (disk_bytes disk))"

lemma scan_spec:
  assumes "1 \<le> n"
  shows "history_scan codec n disk accept limit =
    Some (take (nat limit) (filter accept (rev (history_records codec disk))))"
proof (cases disk)
  case None
  then show ?thesis by (simp add: history_scan_def history_records_def disk_bytes_def List.map_filter_def)
next
  case (Some bytes)
  then show ?thesis
    using assms
    by (simp add: history_scan_def readTail_whole history_records_def disk_bytes_def accepted_def map_filter_rev)
qed

text \<open>C31: the backward chunked reader is the whole-file reader. For every chunk size of at least one byte, and whatever
  the file holds (malformed lines, empty lines, a last line without its line feed, characters straddling chunks), a
  listing ends and returns the newest records whose query holds the search text in either case, 100 unless a limit is
  given.\<close>

theorem history_list_reads_the_tail:
  assumes "1 \<le> n"
  shows "history_list lower codec n disk limit search =
    Some (take (case limit of None \<Rightarrow> 100 | Some m \<Rightarrow> nat m)
      (filter (\<lambda>e. js_includes (lower (he_query e)) (lower search)) (rev (history_records codec disk))))"
  using scan_spec [OF assms, of codec disk] by (simp add: history_list_def DefaultListLimit_def split: option.split)

text \<open>What the log relies on of the record codec: a serialised record is one non-empty line of well-formed UTF-16 (what
  \<open>JSON.stringify\<close> writes), and parsing it gives the record back.\<close>

definition line_codec :: "'e entry_codec \<Rightarrow> bool" where
  "line_codec codec \<longleftrightarrow>
     (\<forall>e line. ec_serializeCompact codec e = Some line \<longrightarrow>
        line \<noteq> [] \<and> LF \<notin> set line \<and> (\<forall>u \<in> set line. u < 0x10000) \<and> toWellFormed line = line \<and>
        ec_deserialize codec line = Some e)"

definition line_complete :: "byte list option \<Rightarrow> bool" where
  "line_complete disk \<longleftrightarrow> disk_bytes disk = [] \<or> last (disk_bytes disk) = LF"

datatype 'e history_op = AppendEntry 'e | ClearHistory

text \<open>The file after a call; an append that throws leaves it as it is.\<close>

fun history_step :: "'e entry_codec \<Rightarrow> byte list option \<Rightarrow> 'e history_op \<Rightarrow> byte list option" where
  "history_step codec disk (AppendEntry e) = (case history_append codec disk e of None \<Rightarrow> disk | Some disk' \<Rightarrow> disk')"
| "history_step codec disk ClearHistory = history_clear disk"

fun records_step :: "'e entry_codec \<Rightarrow> 'e list \<Rightarrow> 'e history_op \<Rightarrow> 'e list" where
  "records_step codec es (AppendEntry e) = (if ec_serializeCompact codec e = None then es else es @ [e])"
| "records_step codec es ClearHistory = []"

lemma nonempty_lines_append:
  assumes "b = [] \<or> last b = LF" "LF \<notin> set l" "l \<noteq> []"
  shows "nonempty_lines (b @ l @ [LF]) = nonempty_lines b @ [l]"
proof (cases "b = []")
  case True
  then show ?thesis using assms js_split_append_sep [of LF l "[]"] by (simp add: nonempty_lines_def js_split_no_sep)
next
  case False
  then obtain c where b: "b = c @ [LF]" using assms(1) by (metis append_butlast_last_id)
  have "js_split LF (b @ l @ [LF]) = js_split LF c @ [l, []]"
    using js_split_append_sep [of LF c "l @ [LF]"] js_split_append_sep [of LF l "[]"] assms(2)
    by (simp add: b js_split_no_sep)
  moreover have "js_split LF b = js_split LF c @ [[]]" using js_split_append_sep [of LF c "[]"] by (simp add: b)
  ultimately show ?thesis using assms(3) by (simp add: nonempty_lines_def)
qed

lemma history_step_refines:
  assumes "line_codec codec" "line_complete disk"
  shows "line_complete (history_step codec disk op) \<and>
    history_records codec (history_step codec disk op) = records_step codec (history_records codec disk) op"
proof (cases op)
  case ClearHistory
  then show ?thesis
    by (cases disk)
      (simp_all add: history_clear_def line_complete_def history_records_def disk_bytes_def List.map_filter_def)
next
  case (AppendEntry e)
  show ?thesis
  proof (cases "ec_serializeCompact codec e")
    case None
    then show ?thesis using assms AppendEntry by (simp add: history_append_def)
  next
    case (Some line)
    then have line: "line \<noteq> []" "LF \<notin> set line" "\<forall>u \<in> set line. u < 0x10000" "toWellFormed line = line"
      "ec_deserialize codec line = Some e"
      using assms(1) by (auto simp: line_codec_def)
    have bytes: "disk_bytes (history_step codec disk op) = disk_bytes disk @ utf8_encode line @ [LF]"
      using Some by (simp add: AppendEntry history_append_def disk_bytes_def LineSeparator_def utf8_encode_append_LF)
    have "nonempty_lines (disk_bytes disk @ utf8_encode line @ [LF]) = nonempty_lines (disk_bytes disk) @ [utf8_encode line]"
      by (rule nonempty_lines_append) (use assms(2) line utf8_encode_no_LF in \<open>auto simp: line_complete_def\<close>)
    then have "history_records codec (history_step codec disk op) = history_records codec disk @ [e]"
      unfolding history_records_def bytes using line(3-5)
      by (simp add: map_filter_append utf8_decode_encode)
    moreover have "line_complete (history_step codec disk op)" unfolding line_complete_def bytes by simp
    ultimately show ?thesis using Some AppendEntry by simp
  qed
qed

lemma history_run_refines:
  assumes "line_codec codec" "line_complete disk"
  shows "line_complete (foldl (history_step codec) disk ops) \<and>
    history_records codec (foldl (history_step codec) disk ops) =
      foldl (records_step codec) (history_records codec disk) ops"
  using assms(2)
proof (induction ops arbitrary: disk)
  case (Cons op ops)
  then show ?case using history_step_refines [OF assms(1), of disk op] by simp
qed simp

text \<open>C30: the log implements a list of records. After any appends and clears on a missing file, a scan with any chunk size
  of at least one byte returns the newest records that match, newest first, of exactly the valid records appended since
  the last clear: UTF-8 encoding, line splitting, backward chunks and decoding lose and invent nothing.\<close>

theorem history_log_is_a_list:
  assumes "line_codec codec" "1 \<le> n"
  shows "history_scan codec n (foldl (history_step codec) None ops) accept limit =
    Some (take (nat limit) (filter accept (rev (foldl (records_step codec) [] ops))))"
proof -
  have "line_complete None" by (simp add: line_complete_def disk_bytes_def)
  moreover have "history_records codec None = []" by (simp add: history_records_def disk_bytes_def List.map_filter_def)
  ultimately show ?thesis
    using history_run_refines [OF assms(1), of None ops] by (simp add: scan_spec [OF assms(2)])
qed

text \<open>Appending a record and asking for its id returns it, the newest when several share the id.\<close>

lemma history_get_newest:
  assumes "line_codec codec" "1 \<le> n" "line_complete disk" "history_append codec disk e = Some disk'"
  shows "history_get codec n disk' (he_id e) = Some (Some e)"
proof -
  have "history_step codec disk (AppendEntry e) = disk'" using assms(4) by simp
  moreover have "ec_serializeCompact codec e \<noteq> None" using assms(4) by (auto simp: history_append_def)
  ultimately have "history_records codec disk' = history_records codec disk @ [e]"
    using history_step_refines [OF assms(1,3), of "AppendEntry e"] by auto
  then show ?thesis by (simp add: history_get_def scan_spec [OF assms(2)] js_at_def js_rel_def)
qed

text \<open>With a chunk size of zero the reader never ends on a file that is not empty.\<close>

text \<open>With a chunk of zero bytes the reader makes no progress: on a file that is not empty it never returns.\<close>

lemma readTail_zero_chunk:
  assumes "0 < limit" "0 < position"
  shows "readTail codec 0 bytes accept limit [] position [] = None"
proof -
  have "0 < position \<longrightarrow> 0 < limit \<longrightarrow> n = 0 \<longrightarrow> carry = [] \<longrightarrow> collected = [] \<longrightarrow> False"
    if "readTail codec n bytes accept limit carry position collected = Some r"
    for codec :: "'a entry_codec" and n bytes accept limit carry position collected r
    using that
  proof (rule readTail.raw_induct [where P = "\<lambda>codec n bytes accept limit carry position collected r.
      0 < position \<longrightarrow> 0 < limit \<longrightarrow> n = 0 \<longrightarrow> carry = [] \<longrightarrow> collected = [] \<longrightarrow> False", rotated], goal_cases)
    case (1 f codec n bytes accept limit carry position collected r)
    show ?case
    proof (intro impI)
      assume still: "0 < position" "0 < limit" "n = 0" "carry = []" "collected = []"
      then have "f codec 0 bytes accept limit [] position [] = Some r"
        using 1(2) by (simp add: readChunk_def splitLines_split)
      then show False using 1(1) still by blast
    qed
  qed
  then show ?thesis using assms by (metis not_None_eq)
qed

section \<open>Examples\<close>

definition plain_codec :: "utf16 entry_codec" where
  "plain_codec = \<lparr>ec_serializeCompact = (\<lambda>e. if e \<noteq> [] \<and> list_all (\<lambda>u. u < 0x80 \<and> u \<noteq> LF) e then Some e else None), ec_deserialize = Some\<rparr>"

lemma plain_codec_lines: "line_codec plain_codec"
  by (auto simp: line_codec_def plain_codec_def list_all_iff is_high_def is_low_def intro!: toWellFormed_no_surrogates)

definition an_entry :: history_entry where
  "an_entry = \<lparr>he_id = IdText (lit ''7''), he_profile = [], he_query = lit ''select'', he_executedAt = [],
    he_outcome = outcome_success, he_errorKind = None, he_returnedRows = Some 1, he_wallTimeMs = 2\<rparr>"

definition one_entry_codec :: "history_entry entry_codec" where
  "one_entry_codec = \<lparr>ec_serializeCompact = (\<lambda>e. if e = an_entry then Some (lit ''s'') else None),
    ec_deserialize = (\<lambda>line. if line = lit ''s'' then Some an_entry else None)\<rparr>"

lemma history_list_reads_the_tail_witness:
  "history_list id one_entry_codec 2 (Some (lit ''x'' @ [LF] @ lit ''s'' @ [LF])) None (lit ''sel'') = Some [an_entry]"
proof -
  have "history_records one_entry_codec (Some (lit ''x'' @ [LF] @ lit ''s'' @ [LF])) = [an_entry]"
    by (simp add: history_records_def disk_bytes_def nonempty_lines_def LF_def lit_def one_entry_codec_def utf8_decode_def
        List.map_filter_def)
  moreover have "js_includes (he_query an_entry) (lit ''sel'')"
    by (simp add: js_includes_def an_entry_def lit_def)
  ultimately show ?thesis
    using history_list_reads_the_tail [of 2 id one_entry_codec "Some (lit ''x'' @ [LF] @ lit ''s'' @ [LF])" None "lit ''sel''"]
    by simp
qed

lemma history_log_is_a_list_witness:
  "history_scan plain_codec 3
     (foldl (history_step plain_codec) None
       [AppendEntry [0x41], ClearHistory, AppendEntry [0x42, 0x43], AppendEntry [], AppendEntry [0x44]]) (\<lambda>_. True) 5 =
   Some [[0x44], [0x42, 0x43]]"
  using history_log_is_a_list [OF plain_codec_lines, of 3
      "[AppendEntry [0x41], ClearHistory, AppendEntry [0x42, 0x43], AppendEntry [], AppendEntry [0x44]]" "\<lambda>_. True" 5]
  by (simp add: plain_codec_def LF_def)

end
