(* ===== verification/Document_Store.thy ===== *)
theory Document_Store
  imports Utf8 Cell_Values
begin

text \<open>
  \<open>ql-shared/src/node/JsonDocumentStore.ts\<close>: one JSON document on disk, with validated reads, atomic writes (a temporary
  file, then a rename), read-transform-write updates and a watch that re-reads the document after a change. The disk is a
  map from paths to bytes; the codec of the document is an argument, \<^const>\<open>None\<close> where it throws. The locale
  \<open>document_store\<close> is what the stores of \<open>Profile_Stores\<close> rely on; it is interpreted on the operations of this theory.
\<close>

section \<open>The disk\<close>

type_synonym disk = "utf16 \<Rightarrow> byte list option"

datatype disk_op = WriteFile utf16 "byte list" | RenameFile utf16 utf16

fun disk_apply :: "disk \<Rightarrow> disk_op \<Rightarrow> disk" where
  "disk_apply d (WriteFile path bytes) = d(path \<mapsto> bytes)"
| "disk_apply d (RenameFile source target) = (d(target := d source))(source := if source = target then d source else None)"

section \<open>The store\<close>

record 'd document_codec =
  dc_serialize :: "'d \<Rightarrow> utf16 option"
  dc_deserialize :: "utf16 \<Rightarrow> 'd option"

record 'd json_store =
  st_file :: utf16
  st_codec :: "'d document_codec"
  st_createEmpty :: 'd
  st_disk :: disk

text \<open>\<open>new TextDecoder().decode\<close>: UTF-8 without a leading byte order mark.\<close>

definition text_decode :: "byte list \<Rightarrow> utf16" where
  "text_decode bytes = (case utf8_decode bytes of [] \<Rightarrow> [] | u # us \<Rightarrow> if u = 0xFEFF then us else u # us)"

definition TemporarySuffix :: utf16 where "TemporarySuffix = lit ''.tmp''"

text \<open>\<open>tag\<close> is the process id, a dot and a random UUID.\<close>

definition temporary_file :: "'d json_store \<Rightarrow> utf16 \<Rightarrow> utf16" where
  "temporary_file S tag = st_file S @ lit ''.'' @ tag @ TemporarySuffix"

definition store_read :: "'d json_store \<Rightarrow> 'd option" where
  "store_read S =
     (case st_disk S (st_file S) of
        None \<Rightarrow> Some (st_createEmpty S)
      | Some bytes \<Rightarrow> dc_deserialize (st_codec S) (text_decode bytes))"

definition readOrEmpty :: "'d json_store \<Rightarrow> 'd" where
  "readOrEmpty S = (case store_read S of None \<Rightarrow> st_createEmpty S | Some document \<Rightarrow> document)"

definition write_ops :: "'d json_store \<Rightarrow> utf16 \<Rightarrow> 'd \<Rightarrow> disk_op list option" where
  "write_ops S tag document =
     map_option (\<lambda>serialized. [WriteFile (temporary_file S tag) (utf8_encode (serialized @ [LF])),
                         RenameFile (temporary_file S tag) (st_file S)])
       (dc_serialize (st_codec S) document)"

definition store_write :: "utf16 \<Rightarrow> 'd json_store \<Rightarrow> 'd \<Rightarrow> 'd json_store option" where
  "store_write tag S document = map_option (\<lambda>ops. S\<lparr>st_disk := foldl disk_apply (st_disk S) ops\<rparr>) (write_ops S tag document)"

definition store_update :: "utf16 \<Rightarrow> ('d \<Rightarrow> 'd) \<Rightarrow> 'd json_store \<Rightarrow> ('d json_store \<times> 'd) option" where
  "store_update tag transform S =
     (case store_read S of
        None \<Rightarrow> None
      | Some document \<Rightarrow> map_option (\<lambda>S'. (S', transform document)) (store_write tag S (transform document)))"

text \<open>What is relied on of the codec: the text of a document is well-formed UTF-16, begins with no byte order mark, and
  parses back to the document with the line feed that follows it in the file.\<close>

definition document_law :: "'d document_codec \<Rightarrow> bool" where
  "document_law codec \<longleftrightarrow>
     (\<forall>d t. dc_serialize codec d = Some t \<longrightarrow>
        t \<noteq> [] \<and> hd t \<noteq> 0xFEFF \<and> (\<forall>u \<in> set t. u < 0x10000) \<and> toWellFormed (t @ [LF]) = t @ [LF] \<and>
        dc_deserialize codec (t @ [LF]) = Some d)"

definition store_ok :: "'d json_store \<Rightarrow> bool" where
  "store_ok S \<longleftrightarrow> document_law (st_codec S)"

definition storable :: "'d json_store \<Rightarrow> 'd \<Rightarrow> bool" where
  "storable S d \<longleftrightarrow> dc_serialize (st_codec S) d \<noteq> None"

lemma temporary_file_fresh [simp]: "temporary_file S tag \<noteq> st_file S" "st_file S \<noteq> temporary_file S tag"
proof -
  have "length (temporary_file S tag) \<noteq> length (st_file S)" by (simp add: temporary_file_def lit_def)
  then show "temporary_file S tag \<noteq> st_file S" by auto
  then show "st_file S \<noteq> temporary_file S tag" by simp
qed

lemma text_decode_encoded:
  assumes "document_law codec" "dc_serialize codec d = Some t"
  shows "dc_deserialize codec (text_decode (utf8_encode (t @ [LF]))) = Some d"
proof -
  have t: "t \<noteq> []" "hd t \<noteq> 0xFEFF" "\<forall>u \<in> set (t @ [LF]). u < 0x10000" "toWellFormed (t @ [LF]) = t @ [LF]"
    "dc_deserialize codec (t @ [LF]) = Some d"
    using assms by (auto simp: document_law_def LF_def)
  have "utf8_decode (utf8_encode (t @ [LF])) = t @ [LF]" using utf8_decode_encode [OF t(3)] t(4) by simp
  then have "text_decode (utf8_encode (t @ [LF])) = t @ [LF]"
    using t(1,2) by (cases t) (simp_all add: text_decode_def)
  then show ?thesis using t(5) by simp
qed

lemma store_write_read:
  assumes "store_ok S" "store_write tag S d = Some S'"
  shows "store_read S' = Some d \<and> store_ok S' \<and> storable S' = storable S \<and> st_file S' = st_file S"
proof -
  obtain t where t: "dc_serialize (st_codec S) d = Some t" using assms(2) by (auto simp: store_write_def write_ops_def)
  then have S': "S' = S\<lparr>st_disk := (st_disk S)(st_file S \<mapsto> utf8_encode (t @ [LF]), temporary_file S tag := None)\<rparr>"
    using assms(2) by (auto simp: store_write_def write_ops_def fun_upd_def fun_eq_iff)
  then show ?thesis
    using text_decode_encoded [OF _ t] assms(1) by (simp add: store_read_def store_ok_def storable_def fun_eq_iff)
qed

section \<open>The interface\<close>

text \<open>What a client relies on: an update that returns has applied its transform to the document read, what it returns is
  what is read next, and it fails only when the document cannot be read or the new one cannot be stored.\<close>

locale document_store =
  fixes ok :: "'w \<Rightarrow> bool"
    and read :: "'w \<Rightarrow> 'd option"
    and update :: "'t \<Rightarrow> ('d \<Rightarrow> 'd) \<Rightarrow> 'w \<Rightarrow> ('w \<times> 'd) option"
    and fits :: "'w \<Rightarrow> 'd \<Rightarrow> bool"
  assumes update_ok: "ok w \<Longrightarrow> update t f w = Some (w', d') \<Longrightarrow> ok w' \<and> fits w' = fits w"
    and update_reads: "ok w \<Longrightarrow> update t f w = Some (w', d') \<Longrightarrow> read w' = Some d'"
    and update_applies: "ok w \<Longrightarrow> update t f w = Some (w', d') \<Longrightarrow> \<exists>d. read w = Some d \<and> d' = f d"
    and update_returns: "ok w \<Longrightarrow> read w = Some d \<Longrightarrow> fits w (f d) \<Longrightarrow> \<exists>w'. update t f w = Some (w', f d)"
begin

lemma update_spec:
  assumes "ok w" "read w = Some d" "update t f w = Some (w', r)"
  shows "ok w' \<and> read w' = Some (f d) \<and> r = f d \<and> fits w' = fits w"
  using update_ok [OF assms(1,3)] update_reads [OF assms(1,3)] update_applies [OF assms(1,3)] assms(2) by auto

text \<open>A property of the document kept by a transform is kept by the update; one that throws leaves the store as it is.\<close>

definition holds :: "('d \<Rightarrow> bool) \<Rightarrow> 'w \<Rightarrow> bool" where
  "holds P w \<longleftrightarrow> ok w \<and> (\<exists>d. read w = Some d \<and> P d)"

lemma holds_update:
  assumes "holds P w" "update t f w = Some (w', r)" "\<And>d. read w = Some d \<Longrightarrow> P d \<Longrightarrow> P (f d)"
  shows "holds P w'"
  using assms update_spec [OF _ _ assms(2)] by (auto simp: holds_def)

lemma holds_run: "holds P w \<Longrightarrow> (\<And>w c. holds P w \<Longrightarrow> holds P (step w c)) \<Longrightarrow> holds P (foldl step w cs)"
  by (induction cs arbitrary: w) auto

end

interpretation json: document_store store_ok store_read store_update storable
proof (unfold_locales, goal_cases)
  case (1 w t f w' d')
  then show ?case using store_write_read by (fastforce simp: store_update_def split: option.splits)
next
  case (2 w t f w' d')
  then show ?case using store_write_read by (fastforce simp: store_update_def split: option.splits)
next
  case (3 w t f w' d')
  then show ?case by (auto simp: store_update_def split: option.splits)
next
  case (4 w d f t)
  then show ?case by (auto simp: store_update_def store_write_def write_ops_def storable_def)
qed

section \<open>Atomic replacement\<close>

text \<open>whatever another process reads while a document is being replaced is the old document or the new one, never a
  part of it: after any number of the system calls of a write, the file holds what it held or the whole new text, and once
  they are all made, the new text.\<close>

theorem write_is_atomic:
  assumes "write_ops S tag d = Some ops"
  shows "foldl disk_apply (st_disk S) (take n ops) (st_file S) =
    (if n < 2 then st_disk S (st_file S) else map_option (\<lambda>t. utf8_encode (t @ [LF])) (dc_serialize (st_codec S) d))"
proof -
  obtain t where t: "dc_serialize (st_codec S) d = Some t"
    "ops = [WriteFile (temporary_file S tag) (utf8_encode (t @ [LF])), RenameFile (temporary_file S tag) (st_file S)]"
    using assms by (auto simp: write_ops_def)
  consider "n = 0" | "n = 1" | m where "n = Suc (Suc m)" by (metis One_nat_def old.nat.exhaust)
  then show ?thesis by cases (simp_all add: t)
qed

section \<open>Watching\<close>

text \<open>A watch as a run: any process changes files of the directory, each change is an event the watcher is later told
  of, the debounce timer is set by an event that names the file and fires at some time, and the watch is closed. What
  \<open>deliver\<close> reads is recorded, \<^const>\<open>None\<close> for a read that throws and is logged.\<close>

record 'd watch_state =
  wa_store :: "'d json_store"
  wa_events :: "utf16 list"
  wa_pending :: bool
  wa_open :: bool
  wa_delivered :: "'d option list"

definition watch_begin :: "'d json_store \<Rightarrow> 'd watch_state" where
  "watch_begin S = \<lparr>wa_store = S, wa_events = [], wa_pending = False, wa_open = True, wa_delivered = []\<rparr>"

definition disk_change :: "utf16 \<Rightarrow> byte list option \<Rightarrow> 'd watch_state \<Rightarrow> 'd watch_state" where
  "disk_change path content w =
     w\<lparr>wa_store := (wa_store w)\<lparr>st_disk := (st_disk (wa_store w))(path := content)\<rparr>, wa_events := wa_events w @ [path]\<rparr>"

definition watch_event :: "'d watch_state \<Rightarrow> 'd watch_state" where
  "watch_event w =
     (case wa_events w of
        [] \<Rightarrow> w
      | changed # events \<Rightarrow>
          (if \<not> wa_open w \<or> changed \<noteq> st_file (wa_store w) then w\<lparr>wa_events := events\<rparr>
           else w\<lparr>wa_events := events, wa_pending := True\<rparr>))"

definition watch_deliver :: "'d watch_state \<Rightarrow> 'd watch_state" where
  "watch_deliver w =
     (if wa_pending w then w\<lparr>wa_pending := False, wa_delivered := wa_delivered w @ [store_read (wa_store w)]\<rparr> else w)"

definition unwatch :: "'d watch_state \<Rightarrow> 'd watch_state" where
  "unwatch w = w\<lparr>wa_pending := False, wa_open := False\<rparr>"

datatype watch_action = DiskChange utf16 "byte list option" | EventTold | TimerFires | Unwatch

fun watch_step :: "'d watch_state \<Rightarrow> watch_action \<Rightarrow> 'd watch_state" where
  "watch_step w (DiskChange path content) = disk_change path content w"
| "watch_step w EventTold = watch_event w"
| "watch_step w TimerFires = watch_deliver w"
| "watch_step w Unwatch = unwatch w"

lemmas watch_defs = disk_change_def watch_event_def watch_deliver_def unwatch_def

text \<open>What the listener knows is behind the file only while a change is on its way to it.\<close>

definition watch_inv :: "'d option \<Rightarrow> 'd watch_state \<Rightarrow> bool" where
  "watch_inv start w \<longleftrightarrow>
     (wa_open w \<longrightarrow> wa_pending w \<or> st_file (wa_store w) \<in> set (wa_events w) \<or>
        store_read (wa_store w) = (if wa_delivered w = [] then start else last (wa_delivered w))) \<and>
     (\<not> wa_open w \<longrightarrow> \<not> wa_pending w)"

lemma store_read_other:
  "path \<noteq> st_file S \<Longrightarrow> store_read (S\<lparr>st_disk := (st_disk S)(path := content)\<rparr>) = store_read S"
  by (cases "st_disk S (st_file S)") (simp_all add: store_read_def)

lemma watch_step_inv: "watch_inv start w \<Longrightarrow> watch_inv start (watch_step w a)"
proof (cases a)
  case (DiskChange path content)
  assume "watch_inv start w"
  then show ?thesis
    by (cases "path = st_file (wa_store w)") (auto simp: DiskChange watch_inv_def watch_defs store_read_other)
qed (auto simp: watch_inv_def watch_defs split: list.splits)

lemma watch_run_inv: "watch_inv start w \<Longrightarrow> watch_inv start (foldl watch_step w as)"
  by (induction as arbitrary: w) (simp_all add: watch_step_inv)

text \<open>C33: a watch catches up. Once the events have been told and the timer has fired, the last document the listener of an
  open watch was given is the document of the file, whatever processes changed the file, in whatever order events and
  timers came; with no delivery at all, the document is the one from before the watch. A closed watch delivers nothing.\<close>

theorem watch_catches_up:
  fixes S :: "'d json_store"
  defines "w \<equiv> \<lambda>as. foldl watch_step (watch_begin S) as"
  shows "(wa_open (w as) \<and> wa_events (w as) = [] \<and> \<not> wa_pending (w as) \<longrightarrow>
      store_read (wa_store (w as)) = (if wa_delivered (w as) = [] then store_read S else last (wa_delivered (w as)))) \<and>
    (\<not> wa_open (w as) \<longrightarrow> wa_delivered (watch_step (w as) a) = wa_delivered (w as))"
proof -
  have "watch_inv (store_read S) (w as)"
    unfolding w_def by (rule watch_run_inv) (simp add: watch_inv_def watch_begin_def)
  then show ?thesis by (cases a) (auto simp: watch_inv_def watch_defs split: list.splits)
qed

section \<open>Examples\<close>

definition digit_store :: "nat json_store" where
  "digit_store = \<lparr>st_file = lit ''f'',
     st_codec = \<lparr>dc_serialize = (\<lambda>n. if n < 10 then Some [48 + n] else None),
       dc_deserialize = (\<lambda>t. case t of u # us \<Rightarrow> Some (u - 48) | [] \<Rightarrow> None)\<rparr>,
     st_createEmpty = 0, st_disk = Map.empty\<rparr>"

lemma write_is_atomic_witness:
  "foldl disk_apply (st_disk digit_store)
     (take 2 [WriteFile (lit ''f.t.tmp'') [55, 10], RenameFile (lit ''f.t.tmp'') (lit ''f'')]) (lit ''f'') = Some [55, 10]"
proof -
  have "write_ops digit_store (lit ''t'') 7 = Some [WriteFile (lit ''f.t.tmp'') [55, 10], RenameFile (lit ''f.t.tmp'') (lit ''f'')]"
    by (simp add: write_ops_def digit_store_def temporary_file_def TemporarySuffix_def lit_def LF_def utf8_encode_def utf8_bytes_def
        is_high_def is_low_def)
  from write_is_atomic [OF this, of 2] show ?thesis
    by (simp add: digit_store_def LF_def utf8_encode_def utf8_bytes_def is_high_def is_low_def)
qed

lemma watch_catches_up_witness:
  "store_read (wa_store (foldl watch_step (watch_begin digit_store)
     [DiskChange (lit ''f'') (Some [51]), EventTold, DiskChange (lit ''f'') (Some [52]), TimerFires, EventTold, TimerFires])) = Some 4"
  using watch_catches_up [of digit_store
      "[DiskChange (lit ''f'') (Some [51]), EventTold, DiskChange (lit ''f'') (Some [52]), TimerFires, EventTold, TimerFires]" EventTold]
  by (simp add: watch_defs watch_begin_def digit_store_def store_read_def text_decode_def utf8_decode_def lit_def)

end
