(* ===== verification/Profile_Stores.thy ===== *)
theory Profile_Stores
  imports Document_Store Query_Client
begin

text \<open>
  \<open>ql-shared/src/node/SavedQueryStore.ts\<close> and \<open>ConnectionProfileStore.ts\<close> over \<open>ql-shared/src/profiles\<close>: the saved
  queries and the connection profiles of the query tool. Both keep one document in a \<open>JsonDocumentStore\<close> and change it
  only by its \<open>update\<close>; what is proved of them rests on the interpretation \<open>json\<close> of \<open>Document_Store\<close>. Names are shown
  to stay unique, the default profile to be one of the profiles, and the saved queries to be a map from names to texts.
\<close>

section \<open>Saved queries\<close>

record saved_query =
  sq_id :: utf16
  sq_name :: utf16
  sq_query :: utf16
  sq_createdAt :: utf16
  sq_updatedAt :: utf16

record saved_document =
  sd_queries :: "saved_query list"

definition SavedQueriesDocument_empty :: saved_document where
  "SavedQueriesDocument_empty = \<lparr>sd_queries = []\<rparr>"

definition saved_list :: "saved_document json_store \<Rightarrow> saved_query list option" where
  "saved_list S = map_option sd_queries (store_read S)"

definition getById :: "saved_document json_store \<Rightarrow> utf16 \<Rightarrow> saved_query option option" where
  "getById S i = map_option (List.find (\<lambda>saved. sq_id saved = i)) (saved_list S)"

definition getByName :: "saved_document json_store \<Rightarrow> utf16 \<Rightarrow> saved_query option option" where
  "getByName S name = map_option (List.find (\<lambda>saved. sq_name saved = name)) (saved_list S)"

text \<open>\<open>assertSavedQuery\<close>: \<^const>\<open>None\<close> when it throws, for an unreadable document or an unknown id or name.\<close>

definition assertSavedQuery :: "saved_document json_store \<Rightarrow> utf16 \<Rightarrow> saved_query option" where
  "assertSavedQuery S idOrName =
     (case getById S idOrName of
        None \<Rightarrow> None
      | Some (Some found) \<Rightarrow> Some found
      | Some None \<Rightarrow> Option.bind (getByName S idOrName) (\<lambda>found. found))"

text \<open>\<open>save\<close>: the entry of the document, with the transform that stores it; \<open>newId\<close> is the random UUID, \<open>now\<close> the time.\<close>

definition saved_entry :: "utf16 \<Rightarrow> utf16 \<Rightarrow> utf16 \<Rightarrow> utf16 \<Rightarrow> saved_document \<Rightarrow> saved_query" where
  "saved_entry newId now name query document =
     (case List.find (\<lambda>entry. sq_name entry = name) (sd_queries document) of
        None \<Rightarrow> \<lparr>sq_id = newId, sq_name = name, sq_query = query, sq_createdAt = now, sq_updatedAt = now\<rparr>
      | Some existing \<Rightarrow> existing\<lparr>sq_query := query, sq_updatedAt := now\<rparr>)"

definition save_document :: "utf16 \<Rightarrow> utf16 \<Rightarrow> utf16 \<Rightarrow> utf16 \<Rightarrow> saved_document \<Rightarrow> saved_document" where
  "save_document newId now name query document =
     (let saved = saved_entry newId now name query document
      in \<lparr>sd_queries =
            (case List.find (\<lambda>entry. sq_name entry = name) (sd_queries document) of
               None \<Rightarrow> sd_queries document @ [saved]
             | Some existing \<Rightarrow> map (\<lambda>entry. if sq_id entry = sq_id saved then saved else entry) (sd_queries document))\<rparr>)"

definition save_query ::
  "utf16 \<Rightarrow> utf16 \<Rightarrow> utf16 \<Rightarrow> utf16 \<Rightarrow> utf16 \<Rightarrow> saved_document json_store \<Rightarrow> (saved_document json_store \<times> saved_query) option" where
  "save_query tag newId now name query S =
     (case store_read S of
        None \<Rightarrow> None
      | Some document \<Rightarrow>
          map_option (\<lambda>(S', d). (S', saved_entry newId now name query document))
            (store_update tag (save_document newId now name query) S))"

definition remove_document :: "utf16 \<Rightarrow> saved_document \<Rightarrow> saved_document" where
  "remove_document i document = \<lparr>sd_queries = filter (\<lambda>entry. sq_id entry \<noteq> i) (sd_queries document)\<rparr>"

definition remove_query :: "utf16 \<Rightarrow> utf16 \<Rightarrow> saved_document json_store \<Rightarrow> saved_document json_store option" where
  "remove_query tag idOrName S =
     (case assertSavedQuery S idOrName of
        None \<Rightarrow> None
      | Some target \<Rightarrow> map_option fst (store_update tag (remove_document (sq_id target)) S))"

text \<open>Ids and names are unique; the text saved under a name.\<close>

definition saved_inv :: "saved_document \<Rightarrow> bool" where
  "saved_inv d \<longleftrightarrow> distinct (map sq_id (sd_queries d)) \<and> distinct (map sq_name (sd_queries d))"

definition texts :: "saved_document \<Rightarrow> utf16 \<Rightarrow> utf16 option" where
  "texts d = map_of (map (\<lambda>q. (sq_name q, sq_query q)) (sd_queries d))"

lemma map_of_updated:
  assumes "distinct (map f xs)" "distinct (map h xs)" "x \<in> set xs" "f y = f x" "h y = h x"
  shows "map_of (map (\<lambda>q. (f q, g q)) (map (\<lambda>e. if h e = h y then y else e) xs)) =
    (map_of (map (\<lambda>q. (f q, g q)) xs))(f x \<mapsto> g y)"
  using assms
proof (induction xs)
  case (Cons e xs)
  show ?case
  proof (cases "h e = h x")
    case True
    then have e: "e = x" using distinct_key_eq [OF Cons.prems(2), of e x] Cons.prems(3) by simp
    then have "map (\<lambda>e. if h e = h y then y else e) xs = xs"
      using Cons.prems(2,5) by (intro map_idI) (auto simp: image_iff)
    with e Cons.prems(4,5) show ?thesis by (simp add: fun_eq_iff)
  next
    case False
    then have x: "x \<in> set xs" "f e \<noteq> f x" using Cons.prems(1,3) by (auto simp: image_iff)
    then have "map_of (map (\<lambda>q. (f q, g q)) (map (\<lambda>e. if h e = h y then y else e) xs)) =
        (map_of (map (\<lambda>q. (f q, g q)) xs))(f x \<mapsto> g y)"
      by (intro Cons.IH) (use Cons.prems x in simp_all)
    with x(2) False Cons.prems(5) show ?thesis by (simp add: fun_eq_iff)
  qed
qed simp

lemma map_updated_keys:
  assumes "distinct (map h xs)" "x \<in> set xs" "h y = h x" "f y = f x"
  shows "map f (map (\<lambda>e. if h e = h y then y else e) xs) = map f xs"
proof -
  have "f (if h e = h y then y else e) = f e" if "e \<in> set xs" for e
  proof (cases "h e = h y")
    case True
    then have "e = x" by (intro distinct_key_eq [OF assms(1) that assms(2)]) (simp add: assms(3))
    with True assms(4) show ?thesis by simp
  qed simp
  then show ?thesis by simp
qed

lemma map_of_snoc: "k \<notin> fst ` set xs \<Longrightarrow> map_of (xs @ [(k, v)]) = (map_of xs)(k \<mapsto> v)"
  by (induction xs) (auto simp: fun_eq_iff)

lemma saved_entry_name [simp]: "sq_name (saved_entry newId now name query d) = name"
  using find_found by (fastforce simp: saved_entry_def split: option.splits)

lemma saved_entry_query [simp]: "sq_query (saved_entry newId now name query d) = query"
  by (simp add: saved_entry_def split: option.splits)

lemma save_document_spec:
  assumes "saved_inv d" "newId \<notin> sq_id ` set (sd_queries d)"
  shows "saved_inv (save_document newId now name query d) \<and>
    texts (save_document newId now name query d) = (texts d)(name \<mapsto> query) \<and>
    saved_entry newId now name query d \<in> set (sd_queries (save_document newId now name query d))"
proof (cases "List.find (\<lambda>entry. sq_name entry = name) (sd_queries d)")
  case None
  then have new: "name \<notin> sq_name ` set (sd_queries d)" by (auto simp: find_None_iff)
  have "sq_id (saved_entry newId now name query d) = newId" using None by (simp add: saved_entry_def)
  moreover have "texts (save_document newId now name query d) = (texts d)(name \<mapsto> query)"
    using new by (simp add: texts_def save_document_def None map_of_snoc image_image del: map_of_append)
  ultimately show ?thesis
    using assms new by (auto simp: save_document_def saved_inv_def None)
next
  case (Some e)
  note e = find_found [OF Some]
  define y where "y = saved_entry newId now name query d"
  have y: "sq_id y = sq_id e" "sq_name y = sq_name e" "sq_query y = query"
    using Some e by (simp_all add: y_def saved_entry_def)
  have d': "sd_queries (save_document newId now name query d) =
      map (\<lambda>entry. if sq_id entry = sq_id y then y else entry) (sd_queries d)"
    using Some by (simp add: save_document_def y_def Let_def)
  have inv: "distinct (map sq_id (sd_queries d))" "distinct (map sq_name (sd_queries d))"
    using assms(1) by (simp_all add: saved_inv_def)
  have keys: "map sq_id (sd_queries (save_document newId now name query d)) = map sq_id (sd_queries d)"
    "map sq_name (sd_queries (save_document newId now name query d)) = map sq_name (sd_queries d)"
    unfolding d' using map_updated_keys [OF inv(1) conjunct1 [OF e], of y] y by blast+
  have "texts (save_document newId now name query d) = (texts d)(sq_name e \<mapsto> sq_query y)"
    unfolding texts_def d' by (rule map_of_updated) (use inv e y in auto)
  moreover have "y \<in> set (sd_queries (save_document newId now name query d))"
    unfolding d' using e y by force
  ultimately show ?thesis using keys e y inv by (simp add: saved_inv_def y_def)
qed

lemma remove_document_spec:
  assumes "saved_inv d" "target \<in> set (sd_queries d)"
  shows "saved_inv (remove_document (sq_id target) d) \<and> texts (remove_document (sq_id target) d) = (texts d)(sq_name target := None)"
proof -
  have inv: "distinct (map sq_id (sd_queries d))" "distinct (map sq_name (sd_queries d))"
    using assms(1) by (simp_all add: saved_inv_def)
  have same: "\<forall>e \<in> set (sd_queries d). sq_id e \<noteq> sq_id target \<longleftrightarrow> sq_name e \<noteq> sq_name target"
    using distinct_key_eq [OF inv(1) _ assms(2)] distinct_key_eq [OF inv(2) _ assms(2)] by blast
  then have "filter (\<lambda>e. sq_id e \<noteq> sq_id target) (sd_queries d) = filter (\<lambda>e. sq_name e \<noteq> sq_name target) (sd_queries d)"
    by (intro filter_cong) auto
  moreover have "map_of (map (\<lambda>q. (sq_name q, sq_query q)) (filter (\<lambda>e. sq_name e \<noteq> n) qs)) =
      (map_of (map (\<lambda>q. (sq_name q, sq_query q)) qs))(n := None)" for n qs
    by (induction qs) (auto simp: fun_eq_iff)
  ultimately show ?thesis
    using inv by (simp add: saved_inv_def remove_document_def texts_def distinct_map_filter)
qed

text \<open>What a read of the store shows.\<close>

lemma saved_lookup:
  assumes "store_read S = Some d" "saved_inv d" "q \<in> set (sd_queries d)"
  shows "assertSavedQuery S (sq_id q) = Some q" "getByName S (sq_name q) = Some (Some q)"
  using assms find_key [of sq_id "sd_queries d" q] find_key [of sq_name "sd_queries d" q]
  by (simp_all add: assertSavedQuery_def getById_def getByName_def saved_list_def saved_inv_def)

lemma assertSavedQuery_found:
  "assertSavedQuery S i = Some q \<Longrightarrow> \<exists>d. store_read S = Some d \<and> q \<in> set (sd_queries d) \<and> (sq_id q = i \<or> sq_name q = i)"
  by (auto simp: assertSavedQuery_def getById_def getByName_def saved_list_def split: option.splits bind_splits dest!: find_found)

text \<open>C32: the saved queries are a map from names to texts. Saving returns whenever the new document can be stored; it maps
  the name to the text, changes no other name, and the entry it returns is found again under its id. Removing by id or
  name removes the entry that \<open>assertSavedQuery\<close> resolves and no other. Both keep ids and names unique.\<close>

theorem saved_queries_are_a_map:
  assumes "store_ok S" "store_read S = Some d" "saved_inv d"
  shows "(newId \<notin> sq_id ` set (sd_queries d) \<and> storable S (save_document newId now name query d) \<longrightarrow>
      (\<exists>S' d' q. save_query tag newId now name query S = Some (S', q) \<and> store_ok S' \<and> store_read S' = Some d' \<and> saved_inv d' \<and>
        texts d' = (texts d)(name \<mapsto> query) \<and> assertSavedQuery S' (sq_id q) = Some q \<and> sq_name q = name \<and> sq_query q = query)) \<and>
    (\<forall>S'. remove_query tag i S = Some S' \<longrightarrow>
      (\<exists>d' target. assertSavedQuery S i = Some target \<and> store_ok S' \<and> store_read S' = Some d' \<and> saved_inv d' \<and>
        texts d' = (texts d)(sq_name target := None)))"
proof (intro conjI impI allI)
  assume new: "newId \<notin> sq_id ` set (sd_queries d) \<and> storable S (save_document newId now name query d)"
  then obtain S' where up: "store_update tag (save_document newId now name query) S = Some (S', save_document newId now name query d)"
    using json.update_returns [where f = "save_document newId now name query", OF assms(1,2)] by blast
  note r = json.update_spec [OF assms(1,2) up]
  note spec = save_document_spec [OF assms(3) conjunct1 [OF new], of now name query]
  have "save_query tag newId now name query S = Some (S', saved_entry newId now name query d)"
    using assms(2) up by (simp add: save_query_def)
  then show "\<exists>S' d' q. save_query tag newId now name query S = Some (S', q) \<and> store_ok S' \<and> store_read S' = Some d' \<and> saved_inv d' \<and>
      texts d' = (texts d)(name \<mapsto> query) \<and> assertSavedQuery S' (sq_id q) = Some q \<and> sq_name q = name \<and> sq_query q = query"
    using r spec saved_lookup(1) [of S' "save_document newId now name query d" "saved_entry newId now name query d"] by auto
next
  fix S'
  assume removed: "remove_query tag i S = Some S'"
  then obtain target d' where t: "assertSavedQuery S i = Some target"
    "store_update tag (remove_document (sq_id target)) S = Some (S', d')"
    by (auto simp: remove_query_def split: option.splits)
  moreover have "target \<in> set (sd_queries d)" using assertSavedQuery_found [OF t(1)] assms(2) by auto
  ultimately show "\<exists>d' target. assertSavedQuery S i = Some target \<and> store_ok S' \<and> store_read S' = Some d' \<and> saved_inv d' \<and>
      texts d' = (texts d)(sq_name target := None)"
    using json.update_spec [OF assms(1,2) t(2)] remove_document_spec [OF assms(3)] by auto
qed

section \<open>Connection profiles\<close>

definition TransportTimeoutMs :: rat where "TransportTimeoutMs = 10000"

definition DefaultRetries :: nat where "DefaultRetries = 2"

record connection_profile = profile +
  cp_name :: utf16
  cp_endpoint :: utf16
  cp_owners :: "utf16 list option"

record profile_input =
  pi_name :: utf16
  pi_endpoint :: utf16
  pi_transportTimeoutMs :: "rat option"
  pi_queryTimeoutMs :: "rat option"
  pi_retries :: "rat option"
  pi_owners :: "utf16 list option"

definition positive_integer :: "rat \<Rightarrow> bool" where
  "positive_integer x \<longleftrightarrow> request_integer x \<and> 0 < x"

text \<open>\<open>ConnectionProfile.create\<close>: the schema with its defaults; \<open>validUrl\<close> is zod's check of an http(s) URL.\<close>

definition create_profile :: "(utf16 \<Rightarrow> bool) \<Rightarrow> profile_input \<Rightarrow> connection_profile option" where
  "create_profile validUrl input =
     (if length (pi_name input) \<ge> 1 \<and> validUrl (pi_endpoint input) \<and> pred_option positive_integer (pi_transportTimeoutMs input) \<and>
         pred_option positive_integer (pi_queryTimeoutMs input) \<and> pred_option request_integer (pi_retries input)
      then Some \<lparr>pf_transportTimeoutMs = (case pi_transportTimeoutMs input of None \<Rightarrow> TransportTimeoutMs | Some t \<Rightarrow> t),
                 pf_queryTimeoutMs = pi_queryTimeoutMs input,
                 pf_retries = (case pi_retries input of None \<Rightarrow> DefaultRetries | Some n \<Rightarrow> nat \<lfloor>n\<rfloor>),
                 cp_name = pi_name input, cp_endpoint = pi_endpoint input, cp_owners = pi_owners input\<rparr>
      else None)"

text \<open>\<open>resolveOwners\<close>, given the accounts of the system contracts.\<close>

definition resolveOwners :: "utf16 list \<Rightarrow> connection_profile \<Rightarrow> utf16 list" where
  "resolveOwners accounts p = (case cp_owners p of None \<Rightarrow> uniq accounts | Some owners \<Rightarrow> owners)"

record profiles_document =
  pd_defaultProfile :: "utf16 option"
  pd_profiles :: "connection_profile list"

definition ConnectionProfilesDocument_empty :: profiles_document where
  "ConnectionProfilesDocument_empty = \<lparr>pd_defaultProfile = None, pd_profiles = []\<rparr>"

definition profiles_list :: "profiles_document json_store \<Rightarrow> connection_profile list option" where
  "profiles_list S = map_option pd_profiles (store_read S)"

definition profile_get :: "profiles_document json_store \<Rightarrow> utf16 \<Rightarrow> connection_profile option option" where
  "profile_get S name = map_option (List.find (\<lambda>p. cp_name p = name)) (profiles_list S)"

definition assertProfile :: "profiles_document json_store \<Rightarrow> utf16 \<Rightarrow> connection_profile option" where
  "assertProfile S name = Option.bind (profile_get S name) (\<lambda>found. found)"

definition defaultProfile :: "profiles_document json_store \<Rightarrow> connection_profile option option" where
  "defaultProfile S =
     (case store_read S of
        None \<Rightarrow> None
      | Some d \<Rightarrow> (case pd_defaultProfile d of None \<Rightarrow> Some None | Some name \<Rightarrow> profile_get S name))"

definition upsert_document :: "connection_profile \<Rightarrow> profiles_document \<Rightarrow> profiles_document" where
  "upsert_document p d =
     d\<lparr>pd_profiles :=
         if list_ex (\<lambda>existing. cp_name existing = cp_name p) (pd_profiles d)
         then map (\<lambda>existing. if cp_name existing = cp_name p then p else existing) (pd_profiles d)
         else pd_profiles d @ [p]\<rparr>"

definition upsert ::
  "(utf16 \<Rightarrow> bool) \<Rightarrow> utf16 \<Rightarrow> profile_input \<Rightarrow> profiles_document json_store \<Rightarrow> (profiles_document json_store \<times> connection_profile) option" where
  "upsert validUrl tag input S =
     (case create_profile validUrl input of
        None \<Rightarrow> None
      | Some p \<Rightarrow> map_option (\<lambda>(S', d). (S', p)) (store_update tag (upsert_document p) S))"

definition remove_profile_document :: "utf16 \<Rightarrow> profiles_document \<Rightarrow> profiles_document" where
  "remove_profile_document name d =
     \<lparr>pd_defaultProfile = (if pd_defaultProfile d = Some name then None else pd_defaultProfile d),
      pd_profiles = filter (\<lambda>p. cp_name p \<noteq> name) (pd_profiles d)\<rparr>"

definition remove_profile :: "utf16 \<Rightarrow> utf16 \<Rightarrow> profiles_document json_store \<Rightarrow> profiles_document json_store option" where
  "remove_profile tag name S =
     (case assertProfile S name of
        None \<Rightarrow> None
      | Some p \<Rightarrow> map_option fst (store_update tag (remove_profile_document name) S))"

definition setDefault :: "utf16 \<Rightarrow> utf16 option \<Rightarrow> profiles_document json_store \<Rightarrow> profiles_document json_store option" where
  "setDefault tag name S =
     (if name \<noteq> None \<and> assertProfile S (the name) = None then None
      else map_option fst (store_update tag (\<lambda>d. d\<lparr>pd_defaultProfile := name\<rparr>) S))"

datatype profile_op = Upsert utf16 profile_input | RemoveProfile utf16 utf16 | SetDefault utf16 "utf16 option"

text \<open>The store after a call; one that throws changes nothing.\<close>

fun profile_step :: "(utf16 \<Rightarrow> bool) \<Rightarrow> profiles_document json_store \<Rightarrow> profile_op \<Rightarrow> profiles_document json_store" where
  "profile_step validUrl S (Upsert tag input) = (case upsert validUrl tag input S of None \<Rightarrow> S | Some (S', p) \<Rightarrow> S')"
| "profile_step validUrl S (RemoveProfile tag name) = (case remove_profile tag name S of None \<Rightarrow> S | Some S' \<Rightarrow> S')"
| "profile_step validUrl S (SetDefault tag name) = (case setDefault tag name S of None \<Rightarrow> S | Some S' \<Rightarrow> S')"

definition profiles_inv :: "profiles_document \<Rightarrow> bool" where
  "profiles_inv d \<longleftrightarrow>
     distinct (map cp_name (pd_profiles d)) \<and> (\<forall>name. pd_defaultProfile d = Some name \<longrightarrow> name \<in> cp_name ` set (pd_profiles d))"

lemma upsert_document_names:
  "map cp_name (pd_profiles (upsert_document p d)) =
    (if cp_name p \<in> cp_name ` set (pd_profiles d) then map cp_name (pd_profiles d) else map cp_name (pd_profiles d) @ [cp_name p])"
  by (auto simp: upsert_document_def list_ex_key)

lemma upsert_document_inv: "profiles_inv d \<Longrightarrow> profiles_inv (upsert_document p d)"
proof -
  assume d: "profiles_inv d"
  let ?names = "map cp_name (pd_profiles (upsert_document p d))"
  have "distinct ?names" "set (map cp_name (pd_profiles d)) \<subseteq> set ?names"
    using d unfolding upsert_document_names by (auto simp: profiles_inv_def)
  moreover have "pd_defaultProfile (upsert_document p d) = pd_defaultProfile d" by (simp add: upsert_document_def)
  ultimately show ?thesis using d unfolding profiles_inv_def by auto
qed

lemma remove_profile_document_inv: "profiles_inv d \<Longrightarrow> profiles_inv (remove_profile_document name d)"
  by (auto simp: profiles_inv_def remove_profile_document_def distinct_map_filter)

lemma assertProfile_found:
  "assertProfile S name = Some p \<Longrightarrow> store_read S = Some d \<Longrightarrow> p \<in> set (pd_profiles d) \<and> cp_name p = name"
  by (auto simp: assertProfile_def profile_get_def profiles_list_def dest!: find_found split: bind_splits)

lemma set_default_inv:
  assumes "profiles_inv d" "store_read S = Some d" "\<not> (name \<noteq> None \<and> assertProfile S (the name) = None)"
  shows "profiles_inv (d\<lparr>pd_defaultProfile := name\<rparr>)"
proof (cases name)
  case None
  then show ?thesis using assms(1) by (simp add: profiles_inv_def)
next
  case (Some n)
  then obtain p where "assertProfile S n = Some p" using assms(3) by auto
  then have "n \<in> cp_name ` set (pd_profiles d)" using assertProfile_found [OF _ assms(2)] by blast
  then show ?thesis using assms(1) Some by (simp add: profiles_inv_def)
qed

lemma profile_step_inv:
  assumes "json.holds profiles_inv S"
  shows "json.holds profiles_inv (profile_step validUrl S op)"
proof (cases op)
  case (Upsert tag input)
  have "json.holds profiles_inv S'" if up: "upsert validUrl tag input S = Some (S', p)" for S' p
  proof -
    obtain d' where "store_update tag (upsert_document p) S = Some (S', d')"
      using up by (auto simp: upsert_def split: option.splits)
    then show ?thesis by (rule json.holds_update [OF assms]) (rule upsert_document_inv)
  qed
  then show ?thesis using assms by (simp add: Upsert split: option.split)
next
  case (RemoveProfile tag name)
  have "json.holds profiles_inv S'" if up: "remove_profile tag name S = Some S'" for S'
  proof -
    obtain d' where "store_update tag (remove_profile_document name) S = Some (S', d')"
      using up by (auto simp: remove_profile_def split: option.splits)
    then show ?thesis by (rule json.holds_update [OF assms]) (rule remove_profile_document_inv)
  qed
  then show ?thesis using assms by (simp add: RemoveProfile split: option.split)
next
  case (SetDefault tag name)
  have "json.holds profiles_inv S'" if up: "setDefault tag name S = Some S'" for S'
  proof -
    obtain d' where "store_update tag (\<lambda>d. d\<lparr>pd_defaultProfile := name\<rparr>) S = Some (S', d')"
      and known: "\<not> (name \<noteq> None \<and> assertProfile S (the name) = None)"
      using up by (auto simp: setDefault_def split: if_splits)
    from this(1) show ?thesis by (rule json.holds_update [OF assms]) (rule set_default_inv [OF _ _ known])
  qed
  then show ?thesis using assms by (simp add: SetDefault split: option.split)
qed

text \<open>whatever is called on the profile store, from a missing file on, the document stays readable, no two profiles
  share a name, and the default, where one is set, is a saved profile: \<open>defaultProfile\<close> never dangles.\<close>

theorem default_profile_is_saved:
  assumes "store_ok S" "st_disk S (st_file S) = None" "st_createEmpty S = ConnectionProfilesDocument_empty"
  shows "\<exists>d. store_read (foldl (profile_step validUrl) S ops) = Some d \<and> distinct (map cp_name (pd_profiles d)) \<and>
    (case pd_defaultProfile d of
       None \<Rightarrow> defaultProfile (foldl (profile_step validUrl) S ops) = Some None
     | Some name \<Rightarrow> \<exists>p \<in> set (pd_profiles d). cp_name p = name \<and> defaultProfile (foldl (profile_step validUrl) S ops) = Some (Some p))"
proof -
  have "profiles_inv ConnectionProfilesDocument_empty"
    by (simp add: profiles_inv_def ConnectionProfilesDocument_empty_def)
  then have "json.holds profiles_inv S" using assms by (simp add: json.holds_def store_read_def)
  then have "json.holds profiles_inv (foldl (profile_step validUrl) S ops)" by (rule json.holds_run) (rule profile_step_inv)
  then obtain d where d: "store_read (foldl (profile_step validUrl) S ops) = Some d" "profiles_inv d"
    by (auto simp: json.holds_def)
  moreover have "\<exists>p \<in> set (pd_profiles d). cp_name p = name \<and> defaultProfile (foldl (profile_step validUrl) S ops) = Some (Some p)"
    if name: "pd_defaultProfile d = Some name" for name
  proof -
    obtain p where p: "p \<in> set (pd_profiles d)" "cp_name p = name"
      using d(2) name by (auto simp: profiles_inv_def)
    then show ?thesis
      using d name find_key [of cp_name "pd_profiles d" p]
      by (intro bexI [of _ p]) (auto simp: defaultProfile_def profile_get_def profiles_list_def profiles_inv_def)
  qed
  ultimately show ?thesis
    by (auto simp: profiles_inv_def defaultProfile_def split: option.split)
qed

section \<open>Examples\<close>

text \<open>Stores whose codecs write a few documents.\<close>

definition table_codec :: "('d \<times> utf16) list \<Rightarrow> 'd document_codec" where
  "table_codec ts = \<lparr>dc_serialize = map_of ts, dc_deserialize = (\<lambda>t. map_option fst (List.find (\<lambda>r. snd r @ [LF] = t) ts))\<rparr>"

lemma table_codec_law:
  assumes "distinct (map snd ts)" "\<forall>(d, t) \<in> set ts. t \<noteq> [] \<and> hd t \<noteq> 0xFEFF \<and> list_all (\<lambda>u. u < 0x80) t"
  shows "document_law (table_codec ts)"
proof -
  have "t \<noteq> [] \<and> hd t \<noteq> 0xFEFF \<and> (\<forall>u \<in> set t. u < 0x10000) \<and> toWellFormed (t @ [LF]) = t @ [LF] \<and>
      dc_deserialize (table_codec ts) (t @ [LF]) = Some d" if "map_of ts d = Some t" for d t
  proof -
    have dt: "(d, t) \<in> set ts" using that by (rule map_of_SomeD)
    with assms(2) have t: "t \<noteq> []" "hd t \<noteq> 0xFEFF" "\<forall>u \<in> set t. u < 0x80" by (auto simp: list_all_iff)
    have "toWellFormed (t @ [LF]) = t @ [LF]"
      by (rule toWellFormed_no_surrogates) (use t(3) in \<open>fastforce simp: is_high_def is_low_def LF_def\<close>)
    moreover have "List.find (\<lambda>r. snd r = snd (d, t)) ts = Some (d, t)" by (rule find_key [OF assms(1) dt])
    ultimately show ?thesis using t by (force simp: table_codec_def)
  qed
  then show ?thesis unfolding document_law_def by (simp add: table_codec_def)
qed

definition a_query :: saved_query where
  "a_query = \<lparr>sq_id = lit ''i'', sq_name = lit ''n'', sq_query = lit ''q'', sq_createdAt = [], sq_updatedAt = []\<rparr>"

definition a_saved_store :: "saved_document json_store" where
  "a_saved_store = \<lparr>st_file = lit ''f'',
     st_codec = table_codec [(\<lparr>sd_queries = [a_query\<lparr>sq_query := lit ''r''\<rparr>]\<rparr>, lit ''1''), (\<lparr>sd_queries = [a_query]\<rparr>, lit ''2'')],
     st_createEmpty = SavedQueriesDocument_empty, st_disk = [lit ''f'' \<mapsto> lit ''2'' @ [LF]]\<rparr>"

lemma a_saved_store_ok: "store_ok a_saved_store"
  unfolding store_ok_def a_saved_store_def by (simp, rule table_codec_law) (simp_all add: lit_def)

lemma a_saved_store_read: "store_read a_saved_store = Some \<lparr>sd_queries = [a_query]\<rparr>"
  by (simp add: store_read_def a_saved_store_def text_decode_def utf8_decode_def table_codec_def lit_def LF_def)

lemma saved_queries_are_a_map_witness:
  "\<exists>S' d' q. save_query (lit ''t'') (lit ''j'') [] (lit ''n'') (lit ''r'') a_saved_store = Some (S', q) \<and> store_read S' = Some d' \<and>
     texts d' (lit ''n'') = Some (lit ''r'')"
proof -
  have inv: "saved_inv \<lparr>sd_queries = [a_query]\<rparr>" by (simp add: saved_inv_def)
  have "storable a_saved_store (save_document (lit ''j'') [] (lit ''n'') (lit ''r'') \<lparr>sd_queries = [a_query]\<rparr>)"
    by (simp add: storable_def a_saved_store_def save_document_def saved_entry_def table_codec_def a_query_def)
  moreover have "lit ''j'' \<notin> sq_id ` set (sd_queries \<lparr>sd_queries = [a_query]\<rparr>)" by (simp add: a_query_def lit_def)
  ultimately have "\<exists>S' d' q. save_query (lit ''t'') (lit ''j'') [] (lit ''n'') (lit ''r'') a_saved_store = Some (S', q) \<and>
      store_ok S' \<and> store_read S' = Some d' \<and> saved_inv d' \<and> texts d' = (texts \<lparr>sd_queries = [a_query]\<rparr>)(lit ''n'' \<mapsto> lit ''r'') \<and>
      assertSavedQuery S' (sq_id q) = Some q \<and> sq_name q = lit ''n'' \<and> sq_query q = lit ''r''"
    using saved_queries_are_a_map [OF a_saved_store_ok a_saved_store_read inv] by blast
  then show ?thesis by auto
qed

definition a_profile_store :: "profiles_document json_store" where
  "a_profile_store = \<lparr>st_file = lit ''f'', st_codec = table_codec [(ConnectionProfilesDocument_empty, lit ''1'')],
     st_createEmpty = ConnectionProfilesDocument_empty, st_disk = Map.empty\<rparr>"

lemma default_profile_is_saved_witness:
  "\<exists>d. store_read (foldl (profile_step (\<lambda>_. True)) a_profile_store [SetDefault [] None, RemoveProfile [] [1]]) = Some d \<and>
     distinct (map cp_name (pd_profiles d))"
proof -
  have "store_ok a_profile_store"
    unfolding store_ok_def a_profile_store_def by (simp, rule table_codec_law) (simp_all add: lit_def)
  then show ?thesis
    using default_profile_is_saved [of a_profile_store "\<lambda>_. True" "[SetDefault [] None, RemoveProfile [] [1]]"]
    by (auto simp: a_profile_store_def)
qed

end
