(* ===== verification/Schema_Catalog.thy ===== *)
theory Schema_Catalog
  imports Cell_Values
begin

text \<open>
  \<open>ql-shared/src/catalog\<close>: the tables and fields a query tool offers (\<open>SchemaCatalog.ts\<close>, \<open>CatalogSnapshot.ts\<close>). An ABI
  is what the chain answers; its tables are derived from it, and the snapshot is changed by the answers of \<open>get_abi\<close>, by
  the columns of a describe and by invalidations, which overlap in any order because the calls wait for the network.
  \<open>structFields\<close> recurses through base structs without a bound, so it is a partial function: its value is \<^const>\<open>None\<close>
  where the recursion does not end (in the program, the stack overflows and the load rejects).
\<close>

section \<open>ABI definitions\<close>

record abi_field =
  af_name :: utf16
  af_type :: utf16

record abi_struct =
  as_name :: utf16
  as_base :: utf16
  as_fields :: "abi_field list"

record abi_table =
  at_name :: utf16
  at_type :: utf16
  at_key_names :: "utf16 list"
  at_key_types :: "utf16 list"

record abi_def =
  ab_types :: "(utf16 \<times> utf16) list"
  ab_structs :: "abi_struct list"
  ab_tables :: "abi_table list"

section \<open>Snapshots\<close>

datatype field_role = key_role | value_role

record catalog_field =
  cf_path :: utf16
  cf_role :: field_role
  cf_abiType :: "utf16 option"
  cf_logicalType :: "logical_type option"

record catalog_table =
  ct_name :: utf16
  ct_rowType :: utf16
  ct_fields :: "catalog_field list"
  ct_described :: bool

record catalog_owner =
  co_account :: utf16
  co_tables :: "catalog_table list"
  co_loaded :: bool

record catalog_snapshot =
  cs_endpoint :: utf16
  cs_owners :: "catalog_owner list"
  cs_capturedAt :: utf16

definition snapshot_empty :: "utf16 \<Rightarrow> utf16 \<Rightarrow> utf16 list \<Rightarrow> catalog_snapshot" where
  "snapshot_empty now endpoint owners =
     \<lparr>cs_endpoint = endpoint, cs_owners = map (\<lambda>a. \<lparr>co_account = a, co_tables = [], co_loaded = False\<rparr>) owners, cs_capturedAt = now\<rparr>"

text \<open>\<open>findOwner\<close> and \<open>findTable\<close> throw where the value is \<^const>\<open>None\<close>.\<close>

definition findOwner :: "catalog_snapshot \<Rightarrow> utf16 \<Rightarrow> catalog_owner option" where
  "findOwner snapshot owner = List.find (\<lambda>o'. co_account o' = owner) (cs_owners snapshot)"

definition lookupTable :: "catalog_snapshot \<Rightarrow> utf16 \<Rightarrow> utf16 \<Rightarrow> catalog_table option" where
  "lookupTable snapshot owner table =
     (case List.find (\<lambda>o'. co_account o' = owner) (cs_owners snapshot) of
        None \<Rightarrow> None
      | Some o' \<Rightarrow> List.find (\<lambda>t. ct_name t = table) (co_tables o'))"

definition findTable :: "catalog_snapshot \<Rightarrow> utf16 \<Rightarrow> utf16 \<Rightarrow> catalog_table option" where
  "findTable snapshot owner table = lookupTable snapshot owner table"

section \<open>From an ABI to tables\<close>

definition KeyPathPrefix :: utf16 where "KeyPathPrefix = lit ''key.''"

definition resolve_type :: "abi_def \<Rightarrow> utf16 \<Rightarrow> utf16" where
  "resolve_type abi typeName = (case List.find (\<lambda>d. fst d = typeName) (ab_types abi) of None \<Rightarrow> typeName | Some d \<Rightarrow> snd d)"

definition find_struct :: "abi_def \<Rightarrow> utf16 \<Rightarrow> abi_struct option" where
  "find_struct abi typeName = List.find (\<lambda>s. as_name s = resolve_type abi typeName) (ab_structs abi)"

partial_function (option) structFields :: "abi_def \<Rightarrow> utf16 \<Rightarrow> abi_field list option" where
  "structFields abi typeName =
     (case find_struct abi typeName of
        None \<Rightarrow> Some []
      | Some s \<Rightarrow>
          if as_base s \<noteq> [] then Option.bind (structFields abi (as_base s)) (\<lambda>inherited. Some (inherited @ as_fields s))
          else Some (as_fields s))"

definition key_fields :: "abi_table \<Rightarrow> catalog_field list" where
  "key_fields t =
     map (\<lambda>i. \<lparr>cf_path = KeyPathPrefix @ at_key_names t ! i, cf_role = key_role,
               cf_abiType = (if i < length (at_key_types t) then Some (at_key_types t ! i) else None), cf_logicalType = None\<rparr>)
       [0..<length (at_key_names t)]"

definition value_field :: "abi_field \<Rightarrow> catalog_field" where
  "value_field f = \<lparr>cf_path = af_name f, cf_role = value_role, cf_abiType = Some (af_type f), cf_logicalType = None\<rparr>"

definition table_of :: "abi_def \<Rightarrow> abi_table \<Rightarrow> catalog_table option" where
  "table_of abi t =
     map_option (\<lambda>fields. \<lparr>ct_name = at_name t, ct_rowType = at_type t, ct_fields = key_fields t @ map value_field fields, ct_described = False\<rparr>)
       (structFields abi (at_type t))"

definition tablesOf :: "abi_def \<Rightarrow> catalog_table list option" where
  "tablesOf abi = those (map (table_of abi) (ab_tables abi))"

section \<open>The catalog\<close>

definition replaceOwner :: "utf16 \<Rightarrow> catalog_owner \<Rightarrow> catalog_snapshot \<Rightarrow> catalog_snapshot" where
  "replaceOwner now entry current =
     current\<lparr>cs_owners :=
         if list_ex (\<lambda>c. co_account c = co_account entry) (cs_owners current)
         then map (\<lambda>c. if co_account c = co_account entry then entry else c) (cs_owners current)
         else cs_owners current @ [entry],
       cs_capturedAt := now\<rparr>"

definition invalidate :: "utf16 \<Rightarrow> utf16 option \<Rightarrow> catalog_snapshot \<Rightarrow> catalog_snapshot" where
  "invalidate now owner current =
     current\<lparr>cs_owners :=
         map (\<lambda>c. if owner = None \<or> Some (co_account c) = owner
                  then \<lparr>co_account = co_account c, co_tables = [], co_loaded = False\<rparr> else c) (cs_owners current),
       cs_capturedAt := now\<rparr>"

text \<open>\<open>untilAborted\<close>: the first of the call's own end and the abort; \<open>signal\<close> says whether one is given and whether it is
  already aborted. \<open>None\<close> is a call that never ends.\<close>

datatype 'r race_event = WorkSettles 'r | SignalAborts

datatype 'r race_outcome = Settled 'r | AbortReason

fun first_settled :: "'r race_event list \<Rightarrow> 'r race_outcome option" where
  "first_settled [] = None"
| "first_settled (WorkSettles r # es) = Some (Settled r)"
| "first_settled (SignalAborts # es) = first_settled es"

fun first_event :: "'r race_event list \<Rightarrow> 'r race_outcome option" where
  "first_event [] = None"
| "first_event (WorkSettles r # es) = Some (Settled r)"
| "first_event (SignalAborts # es) = Some AbortReason"

definition untilAborted :: "bool option \<Rightarrow> 'r race_event list \<Rightarrow> 'r race_outcome option" where
  "untilAborted signal events =
     (case signal of
        None \<Rightarrow> first_settled events
      | Some aborted \<Rightarrow> if aborted then Some AbortReason else first_event events)"

text \<open>\<open>loadOwner\<close>: what \<open>get_abi\<close> came to (the ABI of the answer, or its failure), and whether the signal is aborted when
  a failure is caught. A failure is passed on as it is when the caller cancelled, and wrapped otherwise.\<close>

datatype get_abi = AbiAnswer "abi_def option" | AbiFailure

datatype load_outcome = LoadedSnapshot catalog_snapshot | LoadError | LoadCancelled | LoadOverflow

definition answered_tables :: "abi_def option \<Rightarrow> catalog_table list option" where
  "answered_tables answer = (case answer of None \<Rightarrow> Some [] | Some abi \<Rightarrow> tablesOf abi)"

definition loadOwner :: "utf16 \<Rightarrow> utf16 \<Rightarrow> get_abi race_outcome \<Rightarrow> bool \<Rightarrow> catalog_snapshot \<Rightarrow> load_outcome" where
  "loadOwner now owner outcome aborted current =
     (case outcome of
        Settled (AbiAnswer answer) \<Rightarrow>
          (case answered_tables answer of
             None \<Rightarrow> LoadOverflow
           | Some tables \<Rightarrow> LoadedSnapshot (replaceOwner now \<lparr>co_account = owner, co_tables = tables, co_loaded = True\<rparr> current))
      | _ \<Rightarrow> if aborted then LoadCancelled else LoadError)"

text \<open>\<open>describe\<close>: whether it loads the owner first, and what it does with the columns once they are there; it throws when
  the table is not, or no longer, in the catalog.\<close>

definition describe_loads :: "catalog_snapshot \<Rightarrow> utf16 \<Rightarrow> bool" where
  "describe_loads current owner =
     (case List.find (\<lambda>c. co_account c = owner) (cs_owners current) of None \<Rightarrow> True | Some loaded \<Rightarrow> \<not> co_loaded loaded)"

definition column_types :: "query_column list \<Rightarrow> utf16 \<Rightarrow> logical_type option" where
  "column_types columns = map_of (rev (map (\<lambda>c. (qc_name c, qc_logical_type c)) columns))"

definition describe_field :: "query_column list \<Rightarrow> catalog_field \<Rightarrow> catalog_field" where
  "describe_field columns field =
     (if cf_role field = value_role \<and> column_types columns (cf_path field) \<noteq> None
      then field\<lparr>cf_logicalType := column_types columns (cf_path field)\<rparr> else field)"

definition describe_columns :: "utf16 \<Rightarrow> utf16 \<Rightarrow> utf16 \<Rightarrow> query_column list \<Rightarrow> catalog_snapshot \<Rightarrow> catalog_snapshot option" where
  "describe_columns now owner table columns current =
     (case (List.find (\<lambda>c. co_account c = owner) (cs_owners current), findTable current owner table) of
        (Some ownerEntry, Some existing) \<Rightarrow>
          (let described = existing\<lparr>ct_described := True, ct_fields := map (describe_field columns) (ct_fields existing)\<rparr>
           in Some (replaceOwner now
                (ownerEntry\<lparr>co_tables := map (\<lambda>c. if ct_name c = table then described else c) (co_tables ownerEntry)\<rparr>) current))
      | _ \<Rightarrow> None)"

section \<open>Base structs\<close>

text \<open>The recursion through base structs ends within \<open>k\<close> calls.\<close>

fun bases_end :: "abi_def \<Rightarrow> nat \<Rightarrow> utf16 \<Rightarrow> bool" where
  "bases_end abi 0 n = False"
| "bases_end abi (Suc k) n =
     (case find_struct abi n of None \<Rightarrow> True | Some s \<Rightarrow> as_base s = [] \<or> bases_end abi k (as_base s))"

lemma bases_end_structFields: "bases_end abi k n \<Longrightarrow> \<exists>fs. structFields abi n = Some fs"
proof (induction abi k n rule: bases_end.induct)
  case (2 abi k n)
  then show ?case by (subst structFields.simps) (auto split: option.splits)
qed simp

lemma structFields_bases_end: "structFields abi n = Some fs \<Longrightarrow> \<exists>k. bases_end abi k n"
proof (rule structFields.raw_induct [where P = "\<lambda>abi n fs. \<exists>k. bases_end abi k n", rotated], assumption, goal_cases)
  case (1 f abi n fs)
  show ?case
  proof (cases "find_struct abi n")
    case None
    then show ?thesis by (intro exI [of _ 1]) simp
  next
    case (Some s)
    show ?thesis
    proof (cases "as_base s = []")
      case True
      with Some show ?thesis by (intro exI [of _ 1]) simp
    next
      case False
      then obtain inherited where "f abi (as_base s) = Some inherited" using 1(3) Some by (auto split: bind_splits)
      then obtain k where "bases_end abi k (as_base s)" using 1(2) by blast
      with Some show ?thesis by (intro exI [of _ "Suc k"]) simp
    qed
  qed
qed

lemma structFields_returns: "(\<exists>fs. structFields abi n = Some fs) \<longleftrightarrow> (\<exists>k. bases_end abi k n)"
  using bases_end_structFields structFields_bases_end by blast

text \<open>The structs of a chain of bases are distinct: each ends within fewer calls than the one before.\<close>

definition struct_ends :: "abi_def \<Rightarrow> nat \<Rightarrow> abi_struct \<Rightarrow> bool" where
  "struct_ends abi k s \<longleftrightarrow> as_base s = [] \<or> bases_end abi k (as_base s)"

lemma bases_end_mono: "bases_end abi k n \<Longrightarrow> k \<le> m \<Longrightarrow> bases_end abi m n"
proof (induction abi k n arbitrary: m rule: bases_end.induct)
  case (2 abi k n)
  then obtain m' where "m = Suc m'" "k \<le> m'" by (metis Suc_le_D Suc_le_mono)
  with 2 show ?case by (auto split: option.splits)
qed simp

lemma chain_of_structs:
  assumes "bases_end abi (Suc k) n" "\<not> bases_end abi k n"
  shows "\<exists>ss. length ss = k \<and> distinct ss \<and> set ss \<subseteq> set (ab_structs abi) \<and> (\<forall>s \<in> set ss. struct_ends abi k s)"
  using assms
proof (induction k arbitrary: n)
  case (Suc k)
  obtain s where s: "find_struct abi n = Some s" "as_base s \<noteq> []" "bases_end abi (Suc k) (as_base s)"
    "\<not> bases_end abi k (as_base s)"
    using Suc.prems by (auto split: option.splits)
  then obtain ss where ss: "length ss = k" "distinct ss" "set ss \<subseteq> set (ab_structs abi)" "\<forall>s \<in> set ss. struct_ends abi k s"
    using Suc.IH by blast
  have "s \<notin> set ss" using ss(4) s(2,4) by (auto simp: struct_ends_def)
  moreover have "s \<in> set (ab_structs abi)" using s(1) find_found by (fastforce simp: find_struct_def)
  moreover have "struct_ends abi (Suc k) s" using s(3) by (simp add: struct_ends_def)
  moreover have "\<forall>s \<in> set ss. struct_ends abi (Suc k) s"
    using ss(4) bases_end_mono [of abi k _ "Suc k"] by (auto simp: struct_ends_def simp del: bases_end.simps)
  ultimately show ?case using ss(1-3) by (intro exI [of _ "s # ss"]) auto
qed simp

text \<open>C35: when the fields of a table can be derived. The recursion through base structs returns if and only if it ends
  within one call more than the ABI has structs; with a cycle of bases it never does.\<close>

theorem structFields_decided:
  "(\<exists>fs. structFields abi n = Some fs) = bases_end abi (Suc (length (ab_structs abi))) n"
proof
  assume "\<exists>fs. structFields abi n = Some fs"
  then have ends: "\<exists>k. bases_end abi k n" using structFields_returns by blast
  define k where "k = (LEAST k. bases_end abi k n)"
  have k: "bases_end abi k n" unfolding k_def by (rule LeastI_ex [OF ends])
  obtain j where j: "k = Suc j" using k by (cases k) auto
  have "\<not> bases_end abi j n" using not_less_Least [of j "\<lambda>k. bases_end abi k n"] j k_def by auto
  then obtain ss where "length ss = j" "distinct ss" "set ss \<subseteq> set (ab_structs abi)" using chain_of_structs k j by blast
  then have "j \<le> card (set (ab_structs abi))" by (metis List.finite_set card_mono distinct_card)
  also have "\<dots> \<le> length (ab_structs abi)" by (rule card_length)
  finally show "bases_end abi (Suc (length (ab_structs abi))) n" using bases_end_mono [OF k, of "Suc (length (ab_structs abi))"] j
    by (simp del: bases_end.simps)
qed (rule bases_end_structFields)

text \<open>A struct that is its own base, at any distance, makes the derivation of its table overflow.\<close>

lemma self_base_overflows:
  assumes "find_struct abi n = Some s" "as_base s = n" "n \<noteq> []"
  shows "structFields abi n = None"
proof -
  have "\<not> bases_end abi k n" for k by (induction k) (use assms in auto)
  then show ?thesis using structFields_returns by (metis not_None_eq)
qed

section \<open>The snapshot over a run\<close>

text \<open>The changes of the snapshot, in the order the answers come.\<close>

datatype catalog_change =
  OwnerAnswered utf16 utf16 "abi_def option"
| TableDescribed utf16 utf16 utf16 "query_column list"
| Invalidated utf16 "utf16 option"

fun catalog_step :: "catalog_snapshot \<Rightarrow> catalog_change \<Rightarrow> catalog_snapshot" where
  "catalog_step current (OwnerAnswered now owner answer) =
     (case loadOwner now owner (Settled (AbiAnswer answer)) False current of LoadedSnapshot next \<Rightarrow> next | _ \<Rightarrow> current)"
| "catalog_step current (TableDescribed now owner table columns) =
     (case describe_columns now owner table columns current of None \<Rightarrow> current | Some next \<Rightarrow> next)"
| "catalog_step current (Invalidated now owner) = invalidate now owner current"

text \<open>A table as the ABI gives it, without what a describe adds.\<close>

definition undescribed :: "catalog_table \<Rightarrow> catalog_table" where
  "undescribed t = t\<lparr>ct_described := False, ct_fields := map (\<lambda>f. f\<lparr>cf_logicalType := None\<rparr>) (ct_fields t)\<rparr>"

definition keys_untyped :: "catalog_table \<Rightarrow> bool" where
  "keys_untyped t \<longleftrightarrow> (\<forall>f \<in> set (ct_fields t). cf_role f = key_role \<longrightarrow> cf_logicalType f = None)"

definition answers :: "catalog_change list \<Rightarrow> utf16 \<Rightarrow> abi_def option set" where
  "answers changes owner = {answer. \<exists>now. OwnerAnswered now owner answer \<in> set changes}"

definition owner_inv :: "(utf16 \<Rightarrow> abi_def option set) \<Rightarrow> catalog_owner \<Rightarrow> bool" where
  "owner_inv answered c \<longleftrightarrow>
     (if co_loaded c
      then (\<exists>answer \<in> answered (co_account c). answered_tables answer = Some (map undescribed (co_tables c))) \<and>
           list_all keys_untyped (co_tables c) \<and> distinct (map ct_name (co_tables c))
      else co_tables c = [])"

definition distinct_tables :: "abi_def option \<Rightarrow> bool" where
  "distinct_tables answer = (case answer of None \<Rightarrow> True | Some abi \<Rightarrow> distinct (map at_name (ab_tables abi)))"

lemma tablesOf_undescribed:
  assumes "tablesOf abi = Some ts"
  shows "map undescribed ts = ts" "list_all keys_untyped ts" "map ct_name ts = map at_name (ab_tables abi)"
proof -
  have ts: "map (table_of abi) (ab_tables abi) = map Some ts" using assms by (simp add: tablesOf_def those_Some)
  have t: "undescribed t = t \<and> keys_untyped t \<and> ct_name t = at_name a" if "table_of abi a = Some t" for a t
    using that by (auto simp: table_of_def undescribed_def keys_untyped_def key_fields_def value_field_def)
  have "\<exists>a. table_of abi a = Some t" if "t \<in> set ts" for t
    using that ts by (metis (no_types, lifting) ex_map_conv list.set_map imageE image_eqI)
  then show "map undescribed ts = ts" "list_all keys_untyped ts" using t by (auto simp: list_all_iff intro!: map_idI)
  show "map ct_name ts = map at_name (ab_tables abi)"
  proof (rule nth_equalityI)
    show len: "length (map ct_name ts) = length (map at_name (ab_tables abi))" using ts by (metis length_map)
    fix i
    assume i: "i < length (map ct_name ts)"
    then have "table_of abi (ab_tables abi ! i) = Some (ts ! i)" using ts len by (metis length_map nth_map)
    then show "map ct_name ts ! i = map at_name (ab_tables abi) ! i" using t i len by simp
  qed
qed

lemma describe_field_undescribed:
  "(describe_field columns f)\<lparr>cf_logicalType := None\<rparr> = f\<lparr>cf_logicalType := None\<rparr>"
  "cf_role (describe_field columns f) = cf_role f"
  "cf_role f = key_role \<Longrightarrow> cf_logicalType (describe_field columns f) = cf_logicalType f"
  by (simp_all add: describe_field_def)

lemma in_replaced: "c \<in> set (cs_owners (replaceOwner now entry current)) \<Longrightarrow> c = entry \<or> c \<in> set (cs_owners current)"
  by (auto simp: replaceOwner_def split: if_splits)

lemma described_owner_inv:
  assumes "owner_inv answered entry" "List.find (\<lambda>t. ct_name t = table) (co_tables entry) = Some existing"
  shows "owner_inv answered (entry\<lparr>co_tables :=
     map (\<lambda>c. if ct_name c = table
             then existing\<lparr>ct_described := True, ct_fields := map (describe_field columns) (ct_fields existing)\<rparr> else c) (co_tables entry)\<rparr>)"
proof -
  let ?described = "existing\<lparr>ct_described := True, ct_fields := map (describe_field columns) (ct_fields existing)\<rparr>"
  define tables where "tables = map (\<lambda>c. if ct_name c = table then ?described else c) (co_tables entry)"
  note e = find_found [OF assms(2)]
  then have loaded: "co_loaded entry" using assms(1) by (auto simp: owner_inv_def split: if_splits)
  then obtain answer where a: "answer \<in> answered (co_account entry)"
      "answered_tables answer = Some (map undescribed (co_tables entry))"
    and keys: "list_all keys_untyped (co_tables entry)" and names: "distinct (map ct_name (co_tables entry))"
    using assms(1) by (auto simp: owner_inv_def)
  have same: "c = existing" if "c \<in> set (co_tables entry)" "ct_name c = table" for c
    using that e names by (metis distinct_map inj_onD)
  have "undescribed ?described = undescribed existing"
    by (simp add: undescribed_def describe_field_undescribed)
  then have "map undescribed tables = map undescribed (co_tables entry)" unfolding tables_def using same by auto
  moreover have "map ct_name tables = map ct_name (co_tables entry)" unfolding tables_def using e by auto
  moreover have "list_all keys_untyped tables"
    unfolding tables_def using keys e by (auto simp: list_all_iff keys_untyped_def describe_field_undescribed)
  ultimately show ?thesis
    unfolding tables_def [symmetric] using a names loaded by (simp add: owner_inv_def) (metis a)
qed

definition catalog_inv :: "(utf16 \<Rightarrow> abi_def option set) \<Rightarrow> utf16 list \<Rightarrow> catalog_snapshot \<Rightarrow> bool" where
  "catalog_inv answered configured s \<longleftrightarrow>
     list_all (owner_inv answered) (cs_owners s) \<and>
     (\<exists>new. map co_account (cs_owners s) = configured @ new \<and> distinct new \<and> set new \<inter> set configured = {})"

lemma replaceOwner_accounts:
  "map co_account (cs_owners (replaceOwner now entry s)) =
    (if co_account entry \<in> set (map co_account (cs_owners s)) then map co_account (cs_owners s)
     else map co_account (cs_owners s) @ [co_account entry])"
  by (auto simp: replaceOwner_def list_ex_key)

lemma replaceOwner_inv:
  assumes "catalog_inv answered configured s" "owner_inv answered entry"
  shows "catalog_inv answered configured (replaceOwner now entry s)"
proof -
  obtain new where new: "map co_account (cs_owners s) = configured @ new" "distinct new" "set new \<inter> set configured = {}"
    using assms(1) by (auto simp: catalog_inv_def)
  have "\<exists>new'. map co_account (cs_owners (replaceOwner now entry s)) = configured @ new' \<and> distinct new' \<and> set new' \<inter> set configured = {}"
  proof (cases "co_account entry \<in> set (map co_account (cs_owners s))")
    case True
    then show ?thesis unfolding replaceOwner_accounts using new by auto
  next
    case False
    then show ?thesis
      unfolding replaceOwner_accounts new(1) using new(2,3)
      by (intro exI [of _ "new @ [co_account entry]"]) auto
  qed
  moreover have "list_all (owner_inv answered) (cs_owners (replaceOwner now entry s))"
    using assms in_replaced [of _ now entry s] by (auto simp: catalog_inv_def list_all_iff)
  ultimately show ?thesis by (simp add: catalog_inv_def)
qed

lemma invalidate_inv: "catalog_inv answered configured s \<Longrightarrow> catalog_inv answered configured (invalidate now owner s)"
proof -
  assume inv: "catalog_inv answered configured s"
  have "map co_account (cs_owners (invalidate now owner s)) = map co_account (cs_owners s)"
    by (simp add: invalidate_def)
  moreover have "list_all (owner_inv answered) (cs_owners (invalidate now owner s))"
    using inv by (auto simp: catalog_inv_def list_all_iff invalidate_def owner_inv_def)
  ultimately show ?thesis using inv by (simp add: catalog_inv_def)
qed

lemma catalog_step_inv:
  assumes "catalog_inv answered configured s"
    "\<And>now owner answer. ch = OwnerAnswered now owner answer \<Longrightarrow> answer \<in> answered owner \<and> distinct_tables answer"
  shows "catalog_inv answered configured (catalog_step s ch)"
proof (cases ch)
  case (Invalidated now owner)
  then show ?thesis using invalidate_inv [OF assms(1)] by simp
next
  case (OwnerAnswered now owner answer)
  show ?thesis
  proof (cases "answered_tables answer")
    case None
    then show ?thesis using assms(1) OwnerAnswered by (simp add: loadOwner_def)
  next
    case (Some ts)
    have "map undescribed ts = ts \<and> list_all keys_untyped ts \<and> distinct (map ct_name ts)"
      using Some assms(2) [OF OwnerAnswered] tablesOf_undescribed
      by (cases answer) (auto simp: answered_tables_def distinct_tables_def)
    then have "owner_inv answered \<lparr>co_account = owner, co_tables = ts, co_loaded = True\<rparr>"
      using Some assms(2) [OF OwnerAnswered] by (auto simp: owner_inv_def)
    then show ?thesis using replaceOwner_inv [OF assms(1)] Some OwnerAnswered by (simp add: loadOwner_def)
  qed
next
  case (TableDescribed now owner table columns)
  show ?thesis
  proof (cases "describe_columns now owner table columns s")
    case None
    then show ?thesis using assms(1) TableDescribed by simp
  next
    case (Some s')
    then obtain entry existing where e: "List.find (\<lambda>c. co_account c = owner) (cs_owners s) = Some entry"
      "List.find (\<lambda>t. ct_name t = table) (co_tables entry) = Some existing"
      and s': "s' = replaceOwner now (entry\<lparr>co_tables :=
        map (\<lambda>c. if ct_name c = table
             then existing\<lparr>ct_described := True, ct_fields := map (describe_field columns) (ct_fields existing)\<rparr> else c) (co_tables entry)\<rparr>) s"
      by (auto simp: describe_columns_def findTable_def lookupTable_def Let_def split: option.splits)
    have "owner_inv answered entry" using assms(1) find_found [OF e(1)] by (auto simp: catalog_inv_def list_all_iff)
    from described_owner_inv [OF this e(2)] show ?thesis
      using replaceOwner_inv [OF assms(1)] Some s' TableDescribed by simp
  qed
qed

text \<open>C34: the catalog shows what the chain answered. However loads, describes and invalidations overlap, the owners are the
  configured ones in their order followed by each other owner loaded, once; an owner that is not loaded has no tables; a
  loaded one has the tables of an ABI the chain answered for it, a describe having added logical types to value fields
  only. The ABIs are taken to name each of their tables once.\<close>

theorem catalog_shows_the_answers:
  assumes "\<forall>now owner answer. OwnerAnswered now owner answer \<in> set changes \<longrightarrow> distinct_tables answer"
  shows "\<exists>s new. s = foldl catalog_step (snapshot_empty t endpoint configured) changes \<and>
    map co_account (cs_owners s) = configured @ new \<and> distinct new \<and> set new \<inter> set configured = {} \<and>
    (\<forall>c \<in> set (cs_owners s).
       if co_loaded c
       then (\<exists>answer \<in> answers changes (co_account c). answered_tables answer = Some (map undescribed (co_tables c))) \<and>
            list_all keys_untyped (co_tables c)
       else co_tables c = [])"
proof -
  have run: "catalog_inv (answers changes) configured (foldl catalog_step s chs)"
    if "catalog_inv (answers changes) configured s" "set chs \<subseteq> set changes" for s chs
    using that
  proof (induction chs arbitrary: s)
    case (Cons ch chs)
    have "catalog_inv (answers changes) configured (catalog_step s ch)"
      by (rule catalog_step_inv [OF Cons.prems(1)]) (use Cons.prems(2) assms in \<open>auto simp: answers_def\<close>)
    with Cons show ?case by simp
  qed simp
  have "catalog_inv (answers changes) configured (snapshot_empty t endpoint configured)"
    by (simp add: catalog_inv_def snapshot_empty_def list_all_iff owner_inv_def comp_def)
  from run [OF this subset_refl] show ?thesis
    by (fastforce simp: catalog_inv_def owner_inv_def list_all_iff)
qed

text \<open>A describe that is waiting for its columns throws when its owner is invalidated meanwhile.\<close>

lemma describe_after_invalidate:
  assumes "owner' = None \<or> owner' = Some owner"
  shows "describe_columns now owner table columns (invalidate now' owner' s) = None"
proof -
  have "co_tables c = []" if "c \<in> set (cs_owners (invalidate now' owner' s))" "co_account c = owner" for c
    using that assms by (auto simp: invalidate_def)
  then show ?thesis
    by (auto simp: describe_columns_def findTable_def lookupTable_def split: option.splits dest: find_found)
qed

text \<open>An answer that was asked for before an invalidation and comes after it is kept: the owner counts as loaded again,
  with the tables the invalidation was to drop.\<close>

lemma late_answer_undoes_invalidate:
  assumes "answered_tables answer = Some ts" "owner \<in> co_account ` set (cs_owners s)"
  shows "\<exists>c \<in> set (cs_owners (foldl catalog_step s [Invalidated now (Some owner), OwnerAnswered now' owner answer])).
    co_account c = owner \<and> co_loaded c \<and> co_tables c = ts"
proof -
  let ?s = "invalidate now (Some owner) s"
  have "map co_account (cs_owners ?s) = map co_account (cs_owners s)" by (simp add: invalidate_def)
  then have "owner \<in> co_account ` set (cs_owners ?s)" using assms(2) by (metis list.set_map)
  then have "\<lparr>co_account = owner, co_tables = ts, co_loaded = True\<rparr>
      \<in> set (cs_owners (replaceOwner now' \<lparr>co_account = owner, co_tables = ts, co_loaded = True\<rparr> ?s))"
    by (auto simp: replaceOwner_def list_ex_key image_iff)
  with assms(1) show ?thesis by (intro bexI) (auto simp: loadOwner_def)
qed

section \<open>Examples\<close>

definition an_abi :: abi_def where
  "an_abi = \<lparr>ab_types = [(lit ''r'', lit ''row'')],
     ab_structs = [\<lparr>as_name = lit ''base'', as_base = [], as_fields = [\<lparr>af_name = lit ''a'', af_type = lit ''u'' \<rparr>]\<rparr>,
                   \<lparr>as_name = lit ''row'', as_base = lit ''base'', as_fields = [\<lparr>af_name = lit ''b'', af_type = lit ''v'' \<rparr>]\<rparr>],
     ab_tables = [\<lparr>at_name = lit ''t'', at_type = lit ''r'', at_key_names = [lit ''id''], at_key_types = [lit ''u'']\<rparr>]\<rparr>"

lemma catalog_shows_the_answers_witness:
  "\<exists>new. map co_account (cs_owners (foldl catalog_step (snapshot_empty [] [] [lit ''o''])
       [OwnerAnswered [] (lit ''p'') (Some an_abi), Invalidated [] None, OwnerAnswered [] (lit ''o'') None])) = lit ''o'' # new \<and> distinct new"
proof -
  have "\<forall>now owner answer. OwnerAnswered now owner answer
      \<in> set [OwnerAnswered [] (lit ''p'') (Some an_abi), Invalidated [] None, OwnerAnswered [] (lit ''o'') None] \<longrightarrow> distinct_tables answer"
    by (auto simp: distinct_tables_def an_abi_def)
  from catalog_shows_the_answers [OF this, of "[]" "[]" "[lit ''o'']"] show ?thesis by auto
qed

end
