(* ===== verification/Query_Text.thy ===== *)
theory Query_Text
  imports Utf8 Schema_Catalog Delimited_Text Query_Client
begin

text \<open>
  \<open>ql-shared/src/grammar\<close>, above the generated lexer and parser: token classes (\<open>WireQueryTokens.ts\<close>), quoting
  (\<open>QueryText.ts\<close>), highlighting (\<open>SyntaxHighlighter.ts\<close>), formatting (\<open>QueryFormatter.ts\<close>), diagnostics
  (\<open>QueryDiagnostics.ts\<close>) and completion (\<open>CompletionProvider.ts\<close>). The lexer, and what the formatter reads of the parse
  tree, are arguments. Shown: quoting is undone by unquoting and cannot be broken out of, formatting keeps the tokens and
  is idempotent, and completions name what is in the catalog.
\<close>

section \<open>Tokens\<close>

datatype token_type =
  T_SELECT | T_FROM | T_OWNER | T_WHERE | T_GROUP | T_BY | T_HAVING | T_ORDER | T_LIMIT | T_AS | T_ASC | T_DESC
| T_COUNT | T_SUM | T_AVG | T_MIN | T_MAX | T_NOT | T_AND | T_OR | T_IS | T_NULL | T_TRUE | T_FALSE
| T_LPAREN | T_RPAREN | T_DOT | T_COMMA | T_SEMICOLON | T_STAR | T_EQ | T_NE | T_LE | T_LT | T_GE | T_GT | T_PLUS | T_MINUS
| T_DECIMAL | T_INTEGER | T_STRING | T_QUOTED_IDENTIFIER | T_IDENTIFIER | T_WHITESPACE

record token =
  tk_type :: token_type
  tk_text :: utf16
  tk_start :: nat
  tk_stop :: nat
  tk_line :: nat
  tk_column :: nat
  tk_index :: nat

record lexer_error =
  le_start :: nat
  le_stop :: nat
  le_line :: nat
  le_column :: nat

type_synonym lexer = "utf16 \<Rightarrow> token list \<times> lexer_error list"

definition ClauseKeywords :: "token_type list" where
  "ClauseKeywords = [T_SELECT, T_FROM, T_OWNER, T_WHERE, T_GROUP, T_HAVING, T_ORDER, T_LIMIT]"

definition Keywords :: "token_type list" where
  "Keywords = ClauseKeywords @ [T_BY, T_AS, T_ASC, T_DESC, T_NOT, T_AND, T_OR, T_IS]"

definition Aggregates :: "token_type list" where
  "Aggregates = [T_COUNT, T_SUM, T_AVG, T_MIN, T_MAX]"

definition Literals :: "token_type list" where
  "Literals = [T_NULL, T_TRUE, T_FALSE]"

definition Operators :: "token_type list" where
  "Operators = [T_EQ, T_NE, T_LE, T_LT, T_GE, T_GT, T_PLUS, T_MINUS, T_STAR]"

definition Punctuation :: "token_type list" where
  "Punctuation = [T_LPAREN, T_RPAREN, T_DOT, T_COMMA, T_SEMICOLON]"

definition WordTokens :: "token_type list" where
  "WordTokens = Keywords @ Aggregates @ Literals"

text \<open>\<open>wordOf\<close>: the literal names of the word tokens, without their quotes; other tokens are not asked for.\<close>

fun wordOf :: "token_type \<Rightarrow> utf16" where
  "wordOf T_SELECT = lit ''SELECT''" | "wordOf T_FROM = lit ''FROM''" | "wordOf T_OWNER = lit ''OWNER''"
| "wordOf T_WHERE = lit ''WHERE''" | "wordOf T_GROUP = lit ''GROUP''" | "wordOf T_BY = lit ''BY''"
| "wordOf T_HAVING = lit ''HAVING''" | "wordOf T_ORDER = lit ''ORDER''" | "wordOf T_LIMIT = lit ''LIMIT''"
| "wordOf T_AS = lit ''AS''" | "wordOf T_ASC = lit ''ASC''" | "wordOf T_DESC = lit ''DESC''"
| "wordOf T_COUNT = lit ''COUNT''" | "wordOf T_SUM = lit ''SUM''" | "wordOf T_AVG = lit ''AVG''"
| "wordOf T_MIN = lit ''MIN''" | "wordOf T_MAX = lit ''MAX''" | "wordOf T_NOT = lit ''NOT''"
| "wordOf T_AND = lit ''AND''" | "wordOf T_OR = lit ''OR''" | "wordOf T_IS = lit ''IS''"
| "wordOf T_NULL = lit ''NULL''" | "wordOf T_TRUE = lit ''TRUE''" | "wordOf T_FALSE = lit ''FALSE''"
| "wordOf _ = []"

definition keywordWords :: "utf16 list" where
  "keywordWords = map wordOf WordTokens"

lemmas token_classes =
  ClauseKeywords_def Keywords_def Aggregates_def Literals_def Operators_def Punctuation_def WordTokens_def

section \<open>Quoting\<close>

definition IdentifierQuote :: nat where "IdentifierQuote = 34"

definition StringQuote :: nat where "StringQuote = 39"

definition isPlainIdentifier :: "lexer \<Rightarrow> utf16 \<Rightarrow> bool" where
  "isPlainIdentifier tokenize name \<longleftrightarrow>
     (case tokenize name of
        ([t], []) \<Rightarrow> tk_type t = T_IDENTIFIER \<and> tk_text t = name
      | _ \<Rightarrow> False)"

definition quote_with :: "nat \<Rightarrow> utf16 \<Rightarrow> utf16" where
  "quote_with q s = [q] @ replaceAll q [q, q] s @ [q]"

definition quoteIdentifier :: "lexer \<Rightarrow> utf16 \<Rightarrow> utf16" where
  "quoteIdentifier tokenize name = (if isPlainIdentifier tokenize name then name else quote_with IdentifierQuote name)"

definition quoteString :: "utf16 \<Rightarrow> utf16" where
  "quoteString v = quote_with StringQuote v"

text \<open>\<open>replaceAll(quote + quote, quote)\<close>, from the left.\<close>

fun undouble :: "nat \<Rightarrow> utf16 \<Rightarrow> utf16" where
  "undouble q (a # b # s) = (if a = q \<and> b = q then q # undouble q s else a # undouble q (b # s))"
| "undouble q s = s"

definition unquote :: "nat \<Rightarrow> utf16 \<Rightarrow> utf16" where
  "unquote q s = undouble q (js_slice s 1 (-1))"

definition unquoteIdentifier :: "utf16 \<Rightarrow> utf16" where
  "unquoteIdentifier s = unquote IdentifierQuote s"

definition unquoteString :: "utf16 \<Rightarrow> utf16" where
  "unquoteString s = unquote StringQuote s"

definition nameOf :: "token \<Rightarrow> utf16" where
  "nameOf t =
     (if tk_type t = T_QUOTED_IDENTIFIER then unquoteIdentifier (tk_text t)
      else if tk_type t = T_STRING then unquoteString (tk_text t) else tk_text t)"

definition qualifyTable :: "lexer \<Rightarrow> utf16 \<Rightarrow> utf16 \<Rightarrow> utf16" where
  "qualifyTable tokenize owner table = quoteIdentifier tokenize owner @ lit ''.'' @ quoteIdentifier tokenize table"

definition selectAllQuery :: "lexer \<Rightarrow> utf16 \<Rightarrow> utf16 \<Rightarrow> utf16" where
  "selectAllQuery tokenize owner table = lit ''SELECT * FROM '' @ qualifyTable tokenize owner table"

lemma undouble_replaceAll:
  "rest = [] \<or> hd rest \<noteq> q \<Longrightarrow> undouble q (replaceAll q [q, q] s @ rest) = s @ undouble q rest"
proof (induction s)
  case Nil
  then show ?case by (simp add: replaceAll_Nil)
next
  case (Cons c s)
  show ?case
  proof (cases "c = q")
    case True
    then show ?thesis using Cons by (simp add: replaceAll_Cons)
  next
    case False
    have "undouble q (c # r) = c # undouble q r" for r using False by (cases r) simp_all
    then show ?thesis using Cons False by (simp add: replaceAll_Cons)
  qed
qed

text \<open>Reading a quoted text as SQL does: up to the first quote that is not doubled.\<close>

fun read_quoted :: "nat \<Rightarrow> utf16 \<Rightarrow> (utf16 \<times> utf16) option" where
  "read_quoted q [] = None"
| "read_quoted q (c # s) =
     (if c \<noteq> q then map_option (\<lambda>(body, rest). (c # body, rest)) (read_quoted q s)
      else (case s of
              d # s' \<Rightarrow> if d = q then map_option (\<lambda>(body, rest). (q # body, rest)) (read_quoted q s') else Some ([], s)
            | [] \<Rightarrow> Some ([], [])))"

lemma read_quoted_quoted:
  "rest = [] \<or> hd rest \<noteq> q \<Longrightarrow> read_quoted q (replaceAll q [q, q] s @ q # rest) = Some (s, rest)"
proof (induction s)
  case Nil
  then show ?case by (cases rest) (simp_all add: replaceAll_Nil)
next
  case (Cons c s)
  then show ?case by (cases "c = q") (simp_all add: replaceAll_Cons)
qed

text \<open>C36: quoting cannot be broken out of. What the quoted name or string is read back as is the name itself, whatever
  characters it has, and SQL's reading of it ends at the closing quote that was added, so that what follows it in the
  query stays what it was.\<close>

theorem quoting_is_safe:
  "unquoteIdentifier (quote_with IdentifierQuote name) = name \<and> unquoteString (quoteString v) = v \<and>
   read_quoted IdentifierQuote (tl (quote_with IdentifierQuote name)) = Some (name, []) \<and>
   (rest = [] \<or> hd rest \<noteq> StringQuote \<longrightarrow> read_quoted StringQuote (tl (quoteString v @ rest)) = Some (v, rest))"
proof -
  have "js_slice ([q] @ s @ [q]) 1 (-1) = s" for q :: nat and s by (simp add: js_slice_def js_rel_def)
  then have "unquote q (quote_with q s) = s" for q s
    using undouble_replaceAll [of "[]" q s] by (simp add: unquote_def quote_with_def)
  then show ?thesis
    using read_quoted_quoted [of "[]" IdentifierQuote name] read_quoted_quoted [of rest StringQuote v]
    by (simp add: unquoteIdentifier_def unquoteString_def quoteString_def) (auto simp: quote_with_def)
qed

section \<open>Highlighting\<close>

datatype highlight_kind =
  hk_keyword | hk_aggregate | hk_identifier | hk_quotedIdentifier | hk_string | hk_number | hk_literal | hk_operator
| hk_punctuation | hk_error

record highlight_token =
  ht_kind :: highlight_kind
  ht_start :: nat
  ht_stop :: nat
  ht_line :: nat
  ht_column :: nat

definition kindOf :: "token \<Rightarrow> highlight_kind" where
  "kindOf t =
     (if tk_type t \<in> set Aggregates then hk_aggregate
      else if tk_type t \<in> set Literals then hk_literal
      else if tk_type t \<in> set Keywords then hk_keyword
      else if tk_type t \<in> set Operators then hk_operator
      else if tk_type t \<in> set Punctuation then hk_punctuation
      else if tk_type t = T_STRING then hk_string
      else if tk_type t \<in> {T_DECIMAL, T_INTEGER} then hk_number
      else if tk_type t = T_QUOTED_IDENTIFIER then hk_quotedIdentifier
      else if tk_type t = T_IDENTIFIER then hk_identifier
      else hk_error)"

definition classify :: "lexer \<Rightarrow> utf16 \<Rightarrow> highlight_token list" where
  "classify tokenize query =
     (let (tokens, errors) = tokenize query;
          classified = map (\<lambda>t. \<lparr>ht_kind = kindOf t, ht_start = tk_start t, ht_stop = tk_stop t, ht_line = tk_line t,
                                 ht_column = tk_column t + 1\<rparr>) tokens;
          errorTokens = map (\<lambda>e. \<lparr>ht_kind = hk_error, ht_start = le_start e, ht_stop = le_stop e, ht_line = le_line e,
                                  ht_column = le_column e\<rparr>) errors
      in sort_key ht_start (classified @ errorTokens))"

text \<open>Every token the lexer passes on has a class of its own: only white space, which it skips, has none.\<close>

lemma kindOf_error: "kindOf t = hk_error \<longleftrightarrow> tk_type t = T_WHITESPACE"
  by (cases "tk_type t") (simp_all add: kindOf_def token_classes)

lemma classify_sorted: "sorted (map ht_start (classify tokenize query))"
  by (simp add: classify_def Let_def case_prod_beta)

section \<open>Diagnostics\<close>

record diagnostic =
  dg_message :: utf16
  dg_line :: nat
  dg_column :: nat
  dg_length :: int

definition DefaultPosition :: nat where "DefaultPosition = 1"

definition fromEngineError :: "lexer \<Rightarrow> query_failure \<Rightarrow> utf16 \<Rightarrow> diagnostic" where
  "fromEngineError tokenize failure query =
     (let line = (case Option.bind (qf_data failure) ed_line of None \<Rightarrow> DefaultPosition | Some l \<Rightarrow> l);
          column = (case Option.bind (qf_data failure) ed_column of None \<Rightarrow> DefaultPosition | Some c \<Rightarrow> c);
          token = List.find (\<lambda>t. tk_line t = line \<and> tk_column t + 1 = column) (fst (tokenize query))
      in \<lparr>dg_message = qf_message failure, dg_line = line, dg_column = column,
          dg_length = (case token of None \<Rightarrow> 1 | Some t \<Rightarrow> int (tk_stop t) - int (tk_start t) + 1)\<rparr>)"

section \<open>Formatting\<close>

datatype keyword_case = upper_case | lower_case | preserve_case

record format_config =
  fc_keywordCase :: keyword_case
  fc_indent :: nat

definition NoSpaceBefore :: "token_type list" where
  "NoSpaceBefore = [T_COMMA, T_RPAREN, T_DOT, T_SEMICOLON]"

definition NoSpaceAfter :: "token_type list" where
  "NoSpaceAfter = [T_LPAREN, T_DOT, T_PLUS, T_MINUS]"

definition Connectives :: "token_type list" where
  "Connectives = [T_AND, T_OR]"

record format_state =
  fs_text :: utf16
  fs_depth :: int
  fs_previous :: "token option"

definition needsSpace :: "token \<Rightarrow> token \<Rightarrow> bool" where
  "needsSpace previous t \<longleftrightarrow>
     \<not> (tk_type t \<in> set NoSpaceBefore \<or> tk_type previous \<in> set NoSpaceAfter \<or>
        (tk_type t = T_LPAREN \<and> tk_type previous \<in> set Aggregates))"

text \<open>\<open>upper\<close> and \<open>lower\<close> are the case maps of strings; \<open>starts\<close> the indexes of the clause keywords among the terminals of
  the root of the parse tree.\<close>

definition tokenText :: "(utf16 \<Rightarrow> utf16) \<Rightarrow> (utf16 \<Rightarrow> utf16) \<Rightarrow> keyword_case \<Rightarrow> nat set \<Rightarrow> token \<Rightarrow> utf16" where
  "tokenText upper lower keywordCase starts t =
     (let ownerIdentifier = (tk_type t = T_OWNER \<and> tk_index t \<notin> starts)
      in if tk_type t \<in> set WordTokens \<and> \<not> ownerIdentifier
         then (case keywordCase of upper_case \<Rightarrow> upper (tk_text t) | lower_case \<Rightarrow> lower (tk_text t) | preserve_case \<Rightarrow> tk_text t)
         else tk_text t)"

definition separator :: "nat set \<Rightarrow> format_config \<Rightarrow> int \<Rightarrow> token option \<Rightarrow> token \<Rightarrow> utf16" where
  "separator starts config depth previous t =
     (case previous of
        None \<Rightarrow> []
      | Some p \<Rightarrow>
          if tk_index t \<in> starts then [LF]
          else if tk_type t \<in> set Connectives \<and> depth = 0 then [LF] @ replicate (fc_indent config) 0x20
          else if needsSpace p t then [0x20] else [])"

definition appendToken ::
  "(utf16 \<Rightarrow> utf16) \<Rightarrow> (utf16 \<Rightarrow> utf16) \<Rightarrow> nat set \<Rightarrow> format_config \<Rightarrow> format_state \<Rightarrow> token \<Rightarrow> format_state" where
  "appendToken upper lower starts config state t =
     \<lparr>fs_text = fs_text state @ separator starts config (fs_depth state) (fs_previous state) t @
        tokenText upper lower (fc_keywordCase config) starts t,
      fs_depth = fs_depth state + (if tk_type t = T_LPAREN then 1 else 0) - (if tk_type t = T_RPAREN then 1 else 0),
      fs_previous = Some t\<rparr>"

definition clauseStarts :: "token list \<Rightarrow> nat set" where
  "clauseStarts terminals = tk_index ` set (filter (\<lambda>t. tk_type t \<in> set ClauseKeywords) terminals)"

definition format_query ::
  "(utf16 \<Rightarrow> utf16) \<Rightarrow> (utf16 \<Rightarrow> utf16) \<Rightarrow> format_config \<Rightarrow> token list \<Rightarrow> token list \<Rightarrow> utf16" where
  "format_query upper lower config terminals tokens =
     fs_text (foldl (appendToken upper lower (clauseStarts terminals) config) \<lparr>fs_text = [], fs_depth = 0, fs_previous = None\<rparr> tokens)"

text \<open>\<open>format\<close>: \<open>parse\<close> gives the number of diagnostics, the terminals of the root and the tokens; it throws on any diagnostic.\<close>

definition format_text ::
  "(utf16 \<Rightarrow> utf16) \<Rightarrow> (utf16 \<Rightarrow> utf16) \<Rightarrow> (utf16 \<Rightarrow> nat \<times> token list \<times> token list) \<Rightarrow> format_config \<Rightarrow> utf16 \<Rightarrow> utf16 option" where
  "format_text upper lower parse config query =
     (case parse query of
        (diagnostics, terminals, tokens) \<Rightarrow> if diagnostics > 0 then None else Some (format_query upper lower config terminals tokens))"

text \<open>The pieces a formatted text is made of: for each token, its separator and its text.\<close>

definition piece_ok :: "nat set \<Rightarrow> token option \<Rightarrow> token \<Rightarrow> utf16 \<Rightarrow> bool" where
  "piece_ok starts previous t gap \<longleftrightarrow>
     set gap \<subseteq> {LF, 0x20} \<and> (gap = [] \<longrightarrow> (case previous of None \<Rightarrow> True | Some p \<Rightarrow> \<not> needsSpace p t)) \<and>
     (tk_index t \<in> starts \<and> previous \<noteq> None \<longrightarrow> gap = [LF])"

fun pieces_ok :: "nat set \<Rightarrow> token option \<Rightarrow> token list \<Rightarrow> utf16 list \<Rightarrow> bool" where
  "pieces_ok starts previous [] gaps = (gaps = [])"
| "pieces_ok starts previous (t # ts) gaps =
     (case gaps of [] \<Rightarrow> False | g # gs \<Rightarrow> piece_ok starts previous t g \<and> pieces_ok starts (Some t) ts gs)"

lemma separator_ok: "piece_ok starts previous t (separator starts config depth previous t)"
  by (auto simp: piece_ok_def separator_def split: option.splits)

lemma format_pieces:
  "\<exists>gaps. pieces_ok starts (fs_previous state) ts gaps \<and>
     fs_text (foldl (appendToken upper lower starts config) state ts) =
     fs_text state @ concat (map2 (@) gaps (map (tokenText upper lower (fc_keywordCase config) starts) ts))"
proof (induction ts arbitrary: state)
  case (Cons t ts)
  let ?next = "appendToken upper lower starts config state t"
  have step: "fs_text ?next = fs_text state @ separator starts config (fs_depth state) (fs_previous state) t @
      tokenText upper lower (fc_keywordCase config) starts t" "fs_previous ?next = Some t"
    by (simp_all add: appendToken_def)
  obtain gaps where "pieces_ok starts (fs_previous ?next) ts gaps"
    "fs_text (foldl (appendToken upper lower starts config) ?next ts) =
     fs_text ?next @ concat (map2 (@) gaps (map (tokenText upper lower (fc_keywordCase config) starts) ts))"
    using Cons.IH [of ?next] by blast
  then show ?case
    using separator_ok step
    by (intro exI [of _ "separator starts config (fs_depth state) (fs_previous state) t # gaps"]) simp
qed simp

text \<open>Formatting reads of a token its type, its index and its text in the configured case.\<close>

definition same_token :: "(utf16 \<Rightarrow> utf16) \<Rightarrow> (utf16 \<Rightarrow> utf16) \<Rightarrow> keyword_case \<Rightarrow> nat set \<Rightarrow> token \<Rightarrow> token \<Rightarrow> bool" where
  "same_token upper lower kc starts t u \<longleftrightarrow>
     tk_type t = tk_type u \<and> tk_index t = tk_index u \<and> tokenText upper lower kc starts t = tokenText upper lower kc starts u"

lemma foldl_same_tokens:
  assumes "list_all2 (same_token upper lower (fc_keywordCase config) starts) ts us"
    "fs_text s = fs_text s'" "fs_depth s = fs_depth s'" "map_option tk_type (fs_previous s) = map_option tk_type (fs_previous s')"
  shows "fs_text (foldl (appendToken upper lower starts config) s ts) = fs_text (foldl (appendToken upper lower starts config) s' us)"
  using assms
proof (induction ts us arbitrary: s s' rule: list_all2_induct)
  case (Cons t ts u us)
  have "separator starts config (fs_depth s) (fs_previous s) t = separator starts config (fs_depth s') (fs_previous s') u"
    using Cons.hyps(1) Cons.prems
    by (cases "fs_previous s"; cases "fs_previous s'") (auto simp: separator_def same_token_def needsSpace_def)
  then have "fs_text (appendToken upper lower starts config s t) = fs_text (appendToken upper lower starts config s' u)"
    "fs_depth (appendToken upper lower starts config s t) = fs_depth (appendToken upper lower starts config s' u)"
    "map_option tk_type (fs_previous (appendToken upper lower starts config s t)) =
     map_option tk_type (fs_previous (appendToken upper lower starts config s' u))"
    using Cons.hyps(1) Cons.prems by (simp_all add: appendToken_def same_token_def)
  from Cons.IH [OF this] show ?case by simp
qed simp

text \<open>formatting is lossless. The formatted text is the tokens in their order with only spaces and line feeds put between
  them; keywords are changed in case at most, every other token not at all; each clause keyword of the query starts a
  line; and nothing separates two tokens only where the grammar needs no space.\<close>

theorem formatting_keeps_the_tokens:
  "\<exists>gaps texts. format_query upper lower config terminals tokens = concat (map2 (@) gaps texts) \<and>
     pieces_ok (clauseStarts terminals) None tokens gaps \<and>
     list_all2 (\<lambda>t s. s = tk_text t \<or> (tk_type t \<in> set WordTokens \<and> s \<in> {upper (tk_text t), lower (tk_text t)})) tokens texts"
proof -
  let ?texts = "map (tokenText upper lower (fc_keywordCase config) (clauseStarts terminals)) tokens"
  obtain gaps where gaps: "pieces_ok (clauseStarts terminals) None tokens gaps"
    "format_query upper lower config terminals tokens = concat (map2 (@) gaps ?texts)"
    using format_pieces [of "clauseStarts terminals" "\<lparr>fs_text = [], fs_depth = 0, fs_previous = None\<rparr>" tokens upper lower config]
    by (auto simp: format_query_def)
  have "list_all2 (\<lambda>t s. s = tk_text t \<or> (tk_type t \<in> set WordTokens \<and> s \<in> {upper (tk_text t), lower (tk_text t)})) tokens ?texts"
    by (auto simp: list_all2_conv_all_nth tokenText_def Let_def split: keyword_case.split)
  with gaps show ?thesis by blast
qed

text \<open>What idempotence needs of the grammar, which skips white space: the formatted text lexes to the same tokens, each with
  the text it was written with, and parses with the same clauses.\<close>

definition reparses ::
  "(utf16 \<Rightarrow> utf16) \<Rightarrow> (utf16 \<Rightarrow> utf16) \<Rightarrow> (utf16 \<Rightarrow> nat \<times> token list \<times> token list) \<Rightarrow> format_config \<Rightarrow> utf16 \<Rightarrow> bool" where
  "reparses upper lower parse config query \<longleftrightarrow>
     (case parse query of
        (diagnostics, terminals, tokens) \<Rightarrow>
          (case parse (format_query upper lower config terminals tokens) of
             (diagnostics', terminals', tokens') \<Rightarrow>
               diagnostics' = 0 \<and> clauseStarts terminals' = clauseStarts terminals \<and>
               list_all2 (\<lambda>t t'. tk_type t' = tk_type t \<and> tk_index t' = tk_index t \<and>
                 tk_text t' = tokenText upper lower (fc_keywordCase config) (clauseStarts terminals) t) tokens tokens'))"

text \<open>formatting is idempotent: a text that formats, formats to a text that formats to itself.\<close>

theorem formatting_is_idempotent:
  assumes "format_text upper lower parse config query = Some formatted" "reparses upper lower parse config query"
    "\<And>s. upper (upper s) = upper s" "\<And>s. lower (lower s) = lower s"
  shows "format_text upper lower parse config formatted = Some formatted"
proof -
  obtain d terminals tokens where p: "parse query = (d, terminals, tokens)" by (metis prod_cases3)
  then have f: "formatted = format_query upper lower config terminals tokens"
    using assms(1) by (auto simp: format_text_def split: if_splits)
  obtain d' terminals' tokens' where p': "parse formatted = (d', terminals', tokens')" by (metis prod_cases3)
  let ?starts = "clauseStarts terminals"
  have r: "d' = 0" "clauseStarts terminals' = ?starts"
    "list_all2 (\<lambda>t t'. tk_type t' = tk_type t \<and> tk_index t' = tk_index t \<and>
       tk_text t' = tokenText upper lower (fc_keywordCase config) ?starts t) tokens tokens'"
    using assms(2) p p' f by (auto simp: reparses_def)
  have "list_all2 (same_token upper lower (fc_keywordCase config) ?starts) tokens tokens'"
    using r(3) by (rule list_all2_mono)
      (auto simp: same_token_def tokenText_def Let_def assms(3,4) split: keyword_case.splits if_splits)
  then have "format_query upper lower config terminals' tokens' = format_query upper lower config terminals tokens"
    unfolding format_query_def r(2) by (rule foldl_same_tokens [symmetric]) simp_all
  then show ?thesis using p' r(1) f by (simp add: format_text_def)
qed

section \<open>Completion\<close>

datatype completion_kind = ck_keyword | ck_aggregate | ck_owner | ck_table | ck_field

record candidate =
  cc_kind :: completion_kind
  cc_label :: utf16
  cc_insertText :: utf16
  cc_detail :: utf16

datatype completion_context = owner_context | ownerList_context | table_context | expression_context | keyword_context

record table_reference =
  tr_owners :: "utf16 list"
  tr_table :: utf16

definition OwnerNameTokens :: "token_type list" where
  "OwnerNameTokens = [T_IDENTIFIER, T_QUOTED_IDENTIFIER, T_STRING]"

definition contextOf :: "token list \<Rightarrow> completion_context" where
  "contextOf tokens =
     (let previous = map_option tk_type (js_at tokens (-1));
          clause = map_option tk_type (List.find (\<lambda>t. tk_type t \<in> set ClauseKeywords) (rev tokens))
      in if previous = Some T_FROM then owner_context
         else if previous = Some T_DOT \<and> clause = Some T_FROM then table_context
         else if (previous = Some T_OWNER \<or> previous = Some T_COMMA) \<and> clause = Some T_OWNER then ownerList_context
         else if clause \<in> {Some T_SELECT, Some T_WHERE, Some T_GROUP, Some T_HAVING, Some T_ORDER} then expression_context
         else keyword_context)"

definition ownerCandidates :: "catalog_snapshot \<Rightarrow> (utf16 \<Rightarrow> utf16) \<Rightarrow> candidate list" where
  "ownerCandidates snapshot quote =
     map (\<lambda>c. \<lparr>cc_kind = ck_owner, cc_label = co_account c, cc_insertText = quote (co_account c),
               cc_detail = lit (decimal (length (co_tables c))) @ lit '' tables''\<rparr>) (cs_owners snapshot)"

definition qualifiedTableCandidates :: "lexer \<Rightarrow> catalog_snapshot \<Rightarrow> candidate list" where
  "qualifiedTableCandidates tokenize snapshot =
     concat (map (\<lambda>c. map (\<lambda>t. \<lparr>cc_kind = ck_table, cc_label = co_account c @ lit ''.'' @ ct_name t,
         cc_insertText = qualifyTable tokenize (co_account c) (ct_name t), cc_detail = ct_rowType t\<rparr>) (co_tables c)) (cs_owners snapshot))"

definition tableCandidates :: "lexer \<Rightarrow> catalog_snapshot \<Rightarrow> utf16 option \<Rightarrow> candidate list" where
  "tableCandidates tokenize snapshot owner =
     map (\<lambda>t. \<lparr>cc_kind = ck_table, cc_label = ct_name t, cc_insertText = quoteIdentifier tokenize (ct_name t), cc_detail = ct_rowType t\<rparr>)
       (case List.find (\<lambda>c. Some (co_account c) = owner) (cs_owners snapshot) of None \<Rightarrow> [] | Some c \<Rightarrow> co_tables c)"

fun logical_type_text :: "logical_type \<Rightarrow> utf16" where
  "logical_type_text integer_type = lit ''integer''"
| "logical_type_text decimal_type = lit ''decimal''"
| "logical_type_text boolean_type = lit ''boolean''"
| "logical_type_text text_type = lit ''text''"
| "logical_type_text time_type = lit ''time''"
| "logical_type_text asset_type = lit ''asset''"
| "logical_type_text extended_asset_type = lit ''extended_asset''"
| "logical_type_text json_type = lit ''json''"
| "logical_type_text ieee_hex_type = lit ''ieee_hex''"
| "logical_type_text enumeration_type = lit ''enumeration''"

definition referencedTable :: "catalog_snapshot \<Rightarrow> table_reference option \<Rightarrow> catalog_table option" where
  "referencedTable snapshot reference =
     (case reference of
        None \<Rightarrow> None
      | Some r \<Rightarrow>
          (case List.find (\<lambda>c. c \<noteq> None) (map (\<lambda>owner. lookupTable snapshot owner (tr_table r)) (tr_owners r)) of
             None \<Rightarrow> None | Some found \<Rightarrow> found))"

definition fieldCandidates :: "catalog_snapshot \<Rightarrow> table_reference option \<Rightarrow> candidate list" where
  "fieldCandidates snapshot reference =
     map (\<lambda>f. \<lparr>cc_kind = ck_field, cc_label = cf_path f, cc_insertText = cf_path f,
               cc_detail = (case cf_logicalType f of Some l \<Rightarrow> logical_type_text l
                            | None \<Rightarrow> (case cf_abiType f of Some a \<Rightarrow> a | None \<Rightarrow> []))\<rparr>)
       (case referencedTable snapshot reference of None \<Rightarrow> [] | Some t \<Rightarrow> ct_fields t)"

definition aggregateCandidates :: "candidate list" where
  "aggregateCandidates =
     map (\<lambda>t. \<lparr>cc_kind = ck_aggregate, cc_label = wordOf t, cc_insertText = wordOf t @ lit ''('', cc_detail = lit ''aggregate''\<rparr>) Aggregates"

definition keywordCandidates :: "candidate list" where
  "keywordCandidates =
     (let aggregates = map cc_label aggregateCandidates
      in map (\<lambda>word. \<lparr>cc_kind = ck_keyword, cc_label = word, cc_insertText = word, cc_detail = lit ''keyword''\<rparr>)
           (filter (\<lambda>word. word \<notin> set aggregates) keywordWords))"

definition ownerBeforeDot :: "token list \<Rightarrow> utf16 option" where
  "ownerBeforeDot tokens = map_option nameOf (js_at tokens (-2))"

definition candidatesFor ::
  "lexer \<Rightarrow> completion_context \<Rightarrow> token list \<Rightarrow> table_reference option \<Rightarrow> catalog_snapshot \<Rightarrow> candidate list" where
  "candidatesFor tokenize ctx tokens reference snapshot =
     (case ctx of
        owner_context \<Rightarrow> ownerCandidates snapshot (quoteIdentifier tokenize) @ qualifiedTableCandidates tokenize snapshot
      | table_context \<Rightarrow> tableCandidates tokenize snapshot (ownerBeforeDot tokens)
      | ownerList_context \<Rightarrow> ownerCandidates snapshot quoteString
      | expression_context \<Rightarrow> fieldCandidates snapshot reference @ aggregateCandidates @ keywordCandidates
      | keyword_context \<Rightarrow> keywordCandidates)"

text \<open>The names of the first \<open>OWNER\<close> clause after the table, up to the next clause keyword.\<close>

definition ownerNames :: "token list \<Rightarrow> utf16 list" where
  "ownerNames rest =
     map nameOf (filter (\<lambda>t. tk_type t \<in> set OwnerNameTokens)
       (takeWhile (\<lambda>t. tk_type t \<notin> set ClauseKeywords) (tl (dropWhile (\<lambda>t. tk_type t \<noteq> T_OWNER) rest))))"

definition tableReference :: "token list \<Rightarrow> table_reference option" where
  "tableReference tokens =
     (case dropWhile (\<lambda>t. tk_type t \<noteq> T_FROM) tokens of
        [] \<Rightarrow> None
      | from # after \<Rightarrow>
          (case after of
             [] \<Rightarrow> None
           | first # rest \<Rightarrow>
               (case rest of
                  dot # second # _ \<Rightarrow>
                    if tk_type dot = T_DOT then Some \<lparr>tr_owners = [nameOf first], tr_table = nameOf second\<rparr>
                    else Some \<lparr>tr_owners = ownerNames rest, tr_table = nameOf first\<rparr>
                | _ \<Rightarrow> Some \<lparr>tr_owners = ownerNames rest, tr_table = nameOf first\<rparr>)))"

definition candidates :: "(utf16 \<Rightarrow> utf16) \<Rightarrow> lexer \<Rightarrow> utf16 \<Rightarrow> nat \<Rightarrow> catalog_snapshot \<Rightarrow> candidate list" where
  "candidates lower tokenize query offset snapshot =
     (let before = fst (tokenize (take offset query));
          latest = js_at before (-1);
          typing = (case latest of
                      None \<Rightarrow> False
                    | Some t \<Rightarrow> int (tk_stop t) = int offset - 1 \<and> (tk_type t = T_IDENTIFIER \<or> tk_type t \<in> set WordTokens));
          prefix = (if typing then lower (tk_text (the latest)) else []);
          ctx = (if typing then butlast before else before);
          reference = tableReference (fst (tokenize query))
      in filter (\<lambda>c. take (length prefix) (lower (cc_label c)) = prefix)
           (candidatesFor tokenize (contextOf ctx) ctx reference snapshot))"

lemma lookupTable_in: "lookupTable snapshot owner table = Some t \<Longrightarrow> \<exists>o' \<in> set (cs_owners snapshot). t \<in> set (co_tables o')"
  by (auto simp: lookupTable_def split: option.splits dest!: find_found)

lemma referencedTable_in:
  "referencedTable snapshot reference = Some t \<Longrightarrow> \<exists>o' \<in> set (cs_owners snapshot). t \<in> set (co_tables o')"
  unfolding referencedTable_def
  by (auto split: option.splits dest!: find_found intro: lookupTable_in [of snapshot _ _ t, OF sym])

text \<open>completions name what is in the catalog. Each owner offered is an owner of the snapshot, each table a table of an
  owner of the snapshot, spelt so that it is read back as that name, and each field a field of such a table; each begins
  with what was typed.\<close>

theorem completions_are_in_the_catalog:
  assumes "c \<in> set (candidates lower tokenize query offset snapshot)"
  shows "case cc_kind c of
      ck_owner \<Rightarrow> \<exists>o' \<in> set (cs_owners snapshot). cc_label c = co_account o' \<and>
        cc_insertText c \<in> {quoteIdentifier tokenize (co_account o'), quoteString (co_account o')}
    | ck_table \<Rightarrow> \<exists>o' \<in> set (cs_owners snapshot). \<exists>t \<in> set (co_tables o').
        cc_insertText c = qualifyTable tokenize (co_account o') (ct_name t) \<or> cc_insertText c = quoteIdentifier tokenize (ct_name t)
    | ck_field \<Rightarrow> \<exists>o' \<in> set (cs_owners snapshot). \<exists>t \<in> set (co_tables o'). \<exists>f \<in> set (ct_fields t). cc_insertText c = cf_path f
    | _ \<Rightarrow> cc_label c \<in> set keywordWords"
proof -
  obtain ctx tokens where "c \<in> set (candidatesFor tokenize ctx tokens (tableReference (fst (tokenize query))) snapshot)"
    using assms by (auto simp: candidates_def Let_def)
  then consider quote where "c \<in> set (ownerCandidates snapshot quote)" "quote \<in> {quoteIdentifier tokenize, quoteString}"
    | "c \<in> set (qualifiedTableCandidates tokenize snapshot)"
    | owner where "c \<in> set (tableCandidates tokenize snapshot owner)"
    | reference where "c \<in> set (fieldCandidates snapshot reference)"
    | "c \<in> set aggregateCandidates" | "c \<in> set keywordCandidates"
    by (cases ctx) (auto simp: candidatesFor_def)
  then show ?thesis
  proof cases
    case 1
    then show ?thesis by (auto simp: ownerCandidates_def)
  next
    case 2
    then show ?thesis by (auto simp: qualifiedTableCandidates_def intro!: bexI)
  next
    case (3 owner)
    show ?thesis
    proof (cases "List.find (\<lambda>c. Some (co_account c) = owner) (cs_owners snapshot)")
      case None
      with 3 show ?thesis by (simp add: tableCandidates_def)
    next
      case (Some o')
      then have "o' \<in> set (cs_owners snapshot)" using find_found by fast
      with 3 Some show ?thesis by (auto simp: tableCandidates_def intro!: bexI)
    qed
  next
    case (4 reference)
    show ?thesis
    proof (cases "referencedTable snapshot reference")
      case None
      with 4 show ?thesis by (simp add: fieldCandidates_def)
    next
      case (Some t)
      with 4 have "cc_kind c = ck_field" "\<exists>f \<in> set (ct_fields t). cc_insertText c = cf_path f"
        by (auto simp: fieldCandidates_def)
      with referencedTable_in [OF Some] show ?thesis by auto
    qed
  next
    case 5
    then show ?thesis by (auto simp: aggregateCandidates_def keywordWords_def WordTokens_def)
  next
    case 6
    then show ?thesis by (auto simp: keywordCandidates_def Let_def)
  qed
qed

section \<open>Examples\<close>

definition select_token :: token where
  "select_token = \<lparr>tk_type = T_SELECT, tk_text = lit ''select'', tk_start = 0, tk_stop = 5, tk_line = 1, tk_column = 0, tk_index = 0\<rparr>"

definition name_token :: token where
  "name_token = \<lparr>tk_type = T_IDENTIFIER, tk_text = lit ''a'', tk_start = 7, tk_stop = 7, tk_line = 1, tk_column = 7, tk_index = 1\<rparr>"

definition small_parse :: "utf16 \<Rightarrow> nat \<times> token list \<times> token list" where
  "small_parse query =
     (if query = lit ''select a'' then (0, [select_token], [select_token, name_token])
      else (0, [select_token], [select_token\<lparr>tk_text := lit ''SELECT''\<rparr>, name_token]))"

definition small_upper :: "utf16 \<Rightarrow> utf16" where
  "small_upper s = (if s = lit ''select'' then lit ''SELECT'' else s)"

definition upper_config :: format_config where
  "upper_config = \<lparr>fc_keywordCase = upper_case, fc_indent = 2\<rparr>"

lemma small_starts: "clauseStarts [select_token] = {0}"
proof -
  have "filter (\<lambda>t. tk_type t \<in> set ClauseKeywords) [select_token] = [select_token]"
    by (simp add: select_token_def ClauseKeywords_def)
  then show ?thesis unfolding clauseStarts_def by (simp add: select_token_def)
qed

lemma small_format:
  "format_query small_upper id upper_config [select_token] [select_token, name_token] = lit ''SELECT a''"
  unfolding format_query_def small_starts
  by (simp add: appendToken_def separator_def tokenText_def select_token_def name_token_def
      token_classes small_upper_def upper_config_def needsSpace_def NoSpaceBefore_def NoSpaceAfter_def Connectives_def lit_def)

lemma formatting_is_idempotent_witness:
  "format_text small_upper id small_parse upper_config (lit ''SELECT a'') = Some (lit ''SELECT a'')"
proof -
  have "format_text small_upper id small_parse upper_config (lit ''select a'') = Some (lit ''SELECT a'')"
    by (simp add: format_text_def small_parse_def small_format)
  moreover have "reparses small_upper id small_parse upper_config (lit ''select a'')"
    by (simp add: reparses_def small_parse_def small_format)
      (simp add: tokenText_def select_token_def name_token_def small_starts upper_config_def small_upper_def token_classes lit_def)
  moreover have "small_upper (small_upper s) = small_upper s" for s by (simp add: small_upper_def lit_def)
  ultimately show ?thesis by (rule formatting_is_idempotent) simp
qed

lemma formatting_keeps_the_tokens_witness:
  "\<exists>gaps texts. format_query small_upper id upper_config [select_token] [select_token, name_token] = concat (map2 (@) gaps texts) \<and>
     pieces_ok (clauseStarts [select_token]) None [select_token, name_token] gaps"
  using formatting_keeps_the_tokens [of small_upper id upper_config "[select_token]" "[select_token, name_token]"] by blast

lemma quoting_is_safe_witness:
  "read_quoted StringQuote (tl (quoteString (lit ''a'' @ [StringQuote]) @ lit '';'')) = Some (lit ''a'' @ [StringQuote], lit '';'')"
  using quoting_is_safe [of "[]" "lit ''a'' @ [StringQuote]" "lit '';''"] by (simp add: lit_def StringQuote_def)

lemma completions_are_in_the_catalog_witness:
  "\<exists>c \<in> set (candidates id (\<lambda>_. ([select_token\<lparr>tk_type := T_FROM\<rparr>], [])) (lit ''from'') 2 (snapshot_empty [] [] [lit ''o''])).
     \<exists>o' \<in> set (cs_owners (snapshot_empty [] [] [lit ''o''])). cc_label c = co_account o'"
proof -
  let ?snapshot = "snapshot_empty [] [] [lit ''o'']" and ?tokenize = "\<lambda>_. ([select_token\<lparr>tk_type := T_FROM\<rparr>], [])"
  define offered where "offered = hd (ownerCandidates ?snapshot (quoteIdentifier ?tokenize))"
  have ctx: "contextOf [select_token\<lparr>tk_type := T_FROM\<rparr>] = owner_context"
    by (simp add: contextOf_def Let_def js_at_def js_rel_def)
  have "\<not> int (tk_stop (select_token\<lparr>tk_type := T_FROM\<rparr>)) = int 2 - 1" by (simp add: select_token_def)
  then have "candidates id ?tokenize (lit ''from'') 2 ?snapshot =
      candidatesFor ?tokenize owner_context [select_token\<lparr>tk_type := T_FROM\<rparr>]
        (tableReference [select_token\<lparr>tk_type := T_FROM\<rparr>]) ?snapshot"
    by (simp add: candidates_def Let_def js_at_def js_rel_def ctx)
  then have offered: "offered \<in> set (candidates id ?tokenize (lit ''from'') 2 ?snapshot)"
    unfolding offered_def by (simp add: candidatesFor_def ownerCandidates_def snapshot_empty_def)
  have kind: "cc_kind offered = ck_owner" by (simp add: offered_def ownerCandidates_def snapshot_empty_def)
  have "\<exists>o' \<in> set (cs_owners ?snapshot). cc_label offered = co_account o'"
    using completions_are_in_the_catalog [OF offered] unfolding kind completion_kind.case by blast
  with offered show ?thesis by blast
qed

end
