(* ===== verification/Key_Store.thy ===== *)
theory Key_Store
  imports Prelude Cell_Values "HOL-Library.AList"
begin

text \<open>
  The keys of a cluster: \<open>cluster-tool/src/types/KeyPair.ts\<close>, \<open>orchestration/outputs/OperatorAccount.ts\<close> and
  \<open>orchestration/outputs/ClusterKeyStore.ts\<close>. The operators are a JavaScript \<open>Map\<close>: an association list in the order
  of first insertion, where a second \<open>set\<close> of a label replaces in place. \<open>localeCompare\<close> is an argument.
\<close>

section \<open>Key pairs\<close>

datatype key_type = K1 | R1 | WA | EM | ED | BLS

fun key_type_name :: "key_type \<Rightarrow> string" where
  "key_type_name K1 = ''K1''"
| "key_type_name R1 = ''R1''"
| "key_type_name WA = ''WA''"
| "key_type_name EM = ''EM''"
| "key_type_name ED = ''ED''"
| "key_type_name BLS = ''BLS''"

lemma key_type_name_inject [simp]: "key_type_name a = key_type_name b \<longleftrightarrow> a = b"
  by (cases a; cases b) simp_all

text \<open>\<open>proofOfPossession\<close> is set for BLS and \<open>address\<close> for EM; the secret is held, referenced, or absent.\<close>

record key_pair =
  kp_type :: key_type
  kp_publicKey :: string
  kp_privateKey :: "string option"
  kp_awsSecretId :: "string option"
  kp_proofOfPossession :: "string option"
  kp_address :: "string option"

text \<open>\<open>OperatorType\<close> is generated code: its members the repository names, and the others by number.\<close>

datatype operator_type = UNKNOWN | PRODUCER | BATCH | UNDERWRITER | OtherOperator nat

record operator_account =
  oa_label :: string
  oa_publicationLabel :: string
  oa_account :: "string option"
  oa_type :: operator_type
  oa_wire :: key_pair
  oa_wireFinalizer :: "key_pair option"
  oa_ethereum :: "key_pair option"
  oa_solana :: "key_pair option"

section \<open>The store\<close>

record producer_key_set =
  pk_wire :: key_pair
  pk_wireFinalizer :: key_pair

record node_keys =
  nk_index :: int
  nk_keys :: producer_key_set

record cluster_key_store =
  ks_nodeList :: "node_keys list"
  ks_operatorMap :: "(string \<times> operator_account) list"

definition emptyKeyStore :: cluster_key_store where
  "emptyKeyStore = \<lparr>ks_nodeList = [], ks_operatorMap = []\<rparr>"

definition operators :: "cluster_key_store \<Rightarrow> operator_account list" where
  "operators s = map snd (ks_operatorMap s)"

definition pushNodes :: "node_keys list \<Rightarrow> cluster_key_store \<Rightarrow> cluster_key_store" where
  "pushNodes nodes s = s\<lparr>ks_nodeList := ks_nodeList s @ nodes\<rparr>"

definition node_of :: "cluster_key_store \<Rightarrow> int \<Rightarrow> node_keys option" where
  "node_of s i = List.find (\<lambda>candidate. nk_index candidate = i) (ks_nodeList s)"

definition setOperator :: "operator_account \<Rightarrow> cluster_key_store \<Rightarrow> cluster_key_store" where
  "setOperator a s = s\<lparr>ks_operatorMap := AList.update (oa_label a) a (ks_operatorMap s)\<rparr>"

definition operator_of :: "cluster_key_store \<Rightarrow> string \<Rightarrow> operator_account option" where
  "operator_of s label = map_of (ks_operatorMap s) label"

definition operatorsByType :: "(string \<Rightarrow> string \<Rightarrow> int) \<Rightarrow> cluster_key_store \<Rightarrow> operator_type \<Rightarrow> operator_account list" where
  "operatorsByType localeCompare s t =
     js_sort (\<lambda>a b. localeCompare (oa_label a) (oa_label b)) (filter (\<lambda>a. oa_type a = t) (operators s))"

section \<open>What the store keeps\<close>

text \<open>Every operator is filed under its own label, once.\<close>

definition store_ok :: "cluster_key_store \<Rightarrow> bool" where
  "store_ok s \<longleftrightarrow> distinct (map fst (ks_operatorMap s)) \<and> list_all (\<lambda>(l, a). oa_label a = l) (ks_operatorMap s)"

lemma store_ok_empty [simp]: "store_ok emptyKeyStore"
  by (simp add: store_ok_def emptyKeyStore_def)

lemma update_list_all:
  "list_all P (AList.update k v xs)" if "list_all P xs" "P (k, v)"
  using that by (induction xs) auto

lemma store_ok_setOperator [simp]: "store_ok s \<Longrightarrow> store_ok (setOperator a s)"
  by (auto simp: store_ok_def setOperator_def distinct_update intro!: update_list_all)

lemma store_ok_pushNodes [simp]: "store_ok s \<Longrightarrow> store_ok (pushNodes ns s)"
  by (simp add: store_ok_def pushNodes_def)

lemma operator_of_setOperator:
  "operator_of (setOperator a s) l = (if l = oa_label a then Some a else operator_of s l)"
  by (simp add: operator_of_def setOperator_def update_conv')

lemma operator_of_pushNodes [simp]: "operator_of (pushNodes ns s) = operator_of s"
  by (simp add: operator_of_def pushNodes_def fun_eq_iff)

lemma nodeList_setOperator [simp]: "ks_nodeList (setOperator a s) = ks_nodeList s"
  by (simp add: setOperator_def)

lemma labels_operators: "store_ok s \<Longrightarrow> map oa_label (operators s) = map fst (ks_operatorMap s)"
  by (auto simp: store_ok_def operators_def list_all_iff intro!: map_cong)

lemma distinct_labels: "store_ok s \<Longrightarrow> distinct (map oa_label (operators s))"
  by (simp add: labels_operators) (simp add: store_ok_def)

lemma in_operators: "store_ok s \<Longrightarrow> a \<in> set (operators s) \<longleftrightarrow> operator_of s (oa_label a) = Some a"
  by (force simp: store_ok_def operators_def operator_of_def list_all_iff map_of_eq_Some_iff)

text \<open>Setting operators of other labels one after another appends them.\<close>

lemma update_fresh: "k \<notin> fst ` set xs \<Longrightarrow> AList.update k v xs = xs @ [(k, v)]"
  by (induction xs) auto

lemma fold_setOperator:
  assumes "distinct (map oa_label as)" "oa_label ` set as \<inter> fst ` set (ks_operatorMap s) = {}"
  shows "fold setOperator as s = s\<lparr>ks_operatorMap := ks_operatorMap s @ map (\<lambda>a. (oa_label a, a)) as\<rparr>"
  using assms
proof (induction as arbitrary: s)
  case (Cons a as)
  have "fold setOperator (a # as) s = fold setOperator as (setOperator a s)" by simp
  also have "\<dots> = (setOperator a s)\<lparr>ks_operatorMap := ks_operatorMap (setOperator a s) @ map (\<lambda>a. (oa_label a, a)) as\<rparr>"
    using Cons.prems by (intro Cons.IH) (auto simp: setOperator_def update_fresh)
  also have "\<dots> = s\<lparr>ks_operatorMap := ks_operatorMap s @ map (\<lambda>a. (oa_label a, a)) (a # as)\<rparr>"
    using Cons.prems by (simp add: setOperator_def update_fresh)
  finally show ?case .
qed simp

text \<open>\<open>operatorsByType\<close> does not depend on the order in which the operators were provisioned, when \<open>localeCompare\<close> is a
  total order on the labels.\<close>

lemma sorted_wrt_unique:
  assumes "sorted_wrt R xs" "sorted_wrt R ys" "set xs = set ys" "distinct xs" "distinct ys"
    and "\<And>x y. x \<in> set xs \<Longrightarrow> y \<in> set xs \<Longrightarrow> R x y \<Longrightarrow> R y x \<Longrightarrow> x = y"
  shows "xs = ys"
  using assms
proof (induction xs arbitrary: ys)
  case (Cons x xs)
  then obtain y ys' where ys: "ys = y # ys'" by (cases ys) auto
  have "x = y"
  proof (rule ccontr)
    assume "x \<noteq> y"
    then have "x \<in> set ys'" "y \<in> set xs" using Cons.prems(3) ys by auto
    then show False using Cons.prems ys \<open>x \<noteq> y\<close> by auto
  qed
  moreover have "xs = ys'"
  proof (rule Cons.IH)
    have "insert x (set xs) = insert x (set ys')" using Cons.prems(3) ys \<open>x = y\<close> by simp
    moreover have "x \<notin> set xs" "x \<notin> set ys'" using Cons.prems(4,5) ys \<open>x = y\<close> by auto
    ultimately show "set xs = set ys'" by (rule insert_ident [THEN iffD1, rotated -1])
    show "a = b" if "a \<in> set xs" "b \<in> set xs" "R a b" "R b a" for a b
      using that Cons.prems(6) [of a b] by simp
  qed (use Cons.prems ys in auto)
  ultimately show ?case using ys by simp
qed simp

lemma operatorsByType_order:
  assumes cmp: "comparator localeCompare (\<lambda>_. True)"
    and eq: "\<And>l m. localeCompare l m = 0 \<Longrightarrow> l = m"
    and ok: "store_ok s" "store_ok t" and same: "operator_of s = operator_of t"
  shows "operatorsByType localeCompare s ty = operatorsByType localeCompare t ty"
proof -
  let ?c = "\<lambda>a b. localeCompare (oa_label a) (oa_label b)"
  let ?xs = "\<lambda>s. filter (\<lambda>a. oa_type a = ty) (operators s)"
  have c: "comparator ?c (\<lambda>_. True)"
    by (rule comparator_via [OF cmp]) simp
  have sorted: "sorted_wrt (\<lambda>a b. ?c a b \<le> 0) (js_sort ?c xs)" for xs
    by (rule comparator.sort_sorted [OF c]) (simp add: list_all_iff)
  have set_eq: "set (operators s) = set (operators t)" using in_operators ok same by auto
  have dist: "distinct (?xs s)" "distinct (?xs t)" using distinct_labels [OF ok(1)] distinct_labels [OF ok(2)] by (auto simp: distinct_map)
  show ?thesis unfolding operatorsByType_def
  proof (rule sorted_wrt_unique [OF sorted sorted])
    fix a b assume "a \<in> set (js_sort ?c (?xs s))" "b \<in> set (js_sort ?c (?xs s))"
      and le: "?c a b \<le> 0" "?c b a \<le> 0"
    then have "a \<in> set (operators s)" "b \<in> set (operators s)" by auto
    moreover have "?c a b = 0" using le comparator.cmp_sym [OF c, of a b] by auto
    then have "oa_label a = oa_label b" by (rule eq)
    ultimately show "a = b" using distinct_key_eq [OF distinct_labels [OF ok(1)]] by blast
  qed (use set_eq dist in auto)
qed

end
