(* ===== verification/Node_Plan.thy ===== *)
theory Node_Plan
  imports Port_Allocation Key_Store "HOL-Library.Multiset"
begin

text \<open>
  The topology of a cluster: \<open>cluster-tool/src/config/NodeConfig.ts\<close>, with the labels of \<open>Constants.ts\<close> and the
  addresses of \<open>utils/netUtils.ts\<close>. The configuration is the part of \<open>ClusterConfig.ts\<close> that the plan, the
  publication of keys and the persisted state read; counts are natural numbers.
\<close>

section \<open>The configuration\<close>

datatype deployment_kind = local_deployment | external_deployment

datatype signature_provider_type = KEY | SSM | KIOD

record ssm_options =
  so_awsRegions :: "string list option"
  so_awsSecretIdPattern :: string
  so_version :: "string option"

record signature_provider_config =
  sg_type :: signature_provider_type
  sg_ssm :: "ssm_options option"

record aws_cluster_node_config =
  aw_account :: string
  aw_regions :: "string list"

record cluster_config =
  cc_clusterPath :: string
  cc_dataPath :: string
  cc_walletPath :: string
  cc_producerCount :: nat
  cc_nodeCount :: nat
  cc_batchOperatorCount :: nat
  cc_underwriterCount :: nat
  cc_apiCount :: nat
  cc_bind :: bind_config
  cc_signatureProvider :: signature_provider_config
  cc_awsClusterNodeConfig :: "aws_cluster_node_config option"
  cc_externalOutposts :: bool
  cc_deploymentKind :: deployment_kind

abbreviation cluster_ports :: "cluster_config \<Rightarrow> nodeop_cluster_ports" where
  "cluster_ports c \<equiv> bn_ports (bc_nodeop (cc_bind c))"

section \<open>Names\<close>

definition padStart :: "nat \<Rightarrow> char \<Rightarrow> string \<Rightarrow> string" where
  "padStart n c s = replicate (n - length s) c @ s"

definition AsciiLower :: string where "AsciiLower = ''abcdefghijklmnopqrstuvwxyz''"

definition NodeNamePrefix :: string where "NodeNamePrefix = ''node_''"

definition NodeNamePadWidth :: nat where "NodeNamePadWidth = 2"

definition nodeName :: "nat \<Rightarrow> string" where
  "nodeName index = NodeNamePrefix @ padStart NodeNamePadWidth (CHR ''0'') (decimal index)"

text \<open>The one base it is called with is \<^const>\<open>AsciiLower\<close>, of length 26.\<close>

fun alphaStrBase :: "nat \<Rightarrow> string" where
  "alphaStrBase num =
     (let quotient = num div 26; remainder = num mod 26
      in if quotient > 0 then alphaStrBase quotient @ [AsciiLower ! remainder] else [AsciiLower ! remainder])"

declare alphaStrBase.simps [simp del]

definition producerNameIn :: "bool \<Rightarrow> nat \<Rightarrow> string" where
  "producerNameIn shared index =
     (let prefix = (if shared then ''shr'' else ''def'')
      in if index > length AsciiLower - 1
         then prefix @ ''pr'' @ padStart 7 (CHR ''a'') (alphaStrBase (index - length AsciiLower + 1))
         else prefix @ ''producer'' @ [AsciiLower ! index])"

abbreviation producerName :: "nat \<Rightarrow> string" where
  "producerName \<equiv> producerNameIn False"

definition batchOperatorLabel :: "nat \<Rightarrow> string" where
  "batchOperatorLabel index = ''batchop.'' @ [AsciiLower ! (index mod length AsciiLower)]"

definition batchOperatorLabels :: "nat \<Rightarrow> string list" where
  "batchOperatorLabels n = map batchOperatorLabel [0..<n]"

definition underwriterLabel :: "nat \<Rightarrow> string" where
  "underwriterLabel index = ''uwrit.'' @ [AsciiLower ! (index mod length AsciiLower)]"

section \<open>Addresses\<close>

definition ListenAllAddressV6 :: string where "ListenAllAddressV6 = ''::''"

definition toDialAddress :: "string \<Rightarrow> string" where
  "toDialAddress address =
     (if address = ListenAllAddress \<or> address = ListenAllAddressV6 \<or> length address = 0 then Localhost else address)"

definition port_text :: "int \<Rightarrow> string" where
  "port_text p = decimal (nat p)"

definition toAddress :: "int \<Rightarrow> string \<Rightarrow> string" where
  "toAddress port address =
     (let host = (if CHR '':'' \<in> set address \<and> take 1 address \<noteq> ''['' then ''['' @ address @ '']'' else address)
      in host @ '':'' @ port_text port)"

definition toURL :: "int \<Rightarrow> string \<Rightarrow> string" where
  "toURL port address = ''http://'' @ toAddress port address"

definition advertiseAddressFor :: "cluster_config \<Rightarrow> node_ports \<Rightarrow> string" where
  "advertiseAddressFor c ports =
     (case np_advertiseAddress ports of Some a \<Rightarrow> a | None \<Rightarrow> toDialAddress (bn_address (bc_nodeop (cc_bind c))))"

definition peerEndpointFor :: "cluster_config \<Rightarrow> node_ports \<Rightarrow> string" where
  "peerEndpointFor c ports = advertiseAddressFor c ports @ '':'' @ port_text (np_p2p ports)"

definition producerPeerEndpoints :: "cluster_config \<Rightarrow> string list" where
  "producerPeerEndpoints c = map (peerEndpointFor c) (cp_producers (cluster_ports c))"

section \<open>Roles\<close>

datatype node_role = bios_role | producer_role | batch_operator_role | underwriter_role | api_role

definition OperatorRoles :: "node_role list" where
  "OperatorRoles = [batch_operator_role, underwriter_role]"

definition isOperatorRole :: "node_role \<Rightarrow> bool" where
  "isOperatorRole role \<longleftrightarrow> role \<in> set OperatorRoles"

lemma isOperatorRole_simps [simp]:
  "isOperatorRole batch_operator_role" "isOperatorRole underwriter_role"
  "\<not> isOperatorRole bios_role" "\<not> isOperatorRole producer_role" "\<not> isOperatorRole api_role"
  by (simp_all add: isOperatorRole_def OperatorRoles_def)

section \<open>The plan\<close>

record node_descriptor =
  nd_role :: node_role
  nd_index :: int
  nd_name :: string
  nd_ports :: node_ports
  nd_producers :: "string list"
  nd_batchOperatorLabel :: "string option"
  nd_underwriterLabel :: "string option"

record node_config =
  nc_role :: node_role
  nc_index :: int
  nc_name :: string
  nc_ports :: node_ports
  nc_producers :: "string list"
  nc_peerEndpoints :: "string list"
  nc_batchOperatorLabel :: "string option"
  nc_underwriterLabel :: "string option"

definition BiosIndex :: int where "BiosIndex = -100"
definition BiosName :: string where "BiosName = NodeNamePrefix @ ''bios''"
definition BiosProducer :: string where "BiosProducer = ''sysio''"
definition AdHocIndex :: int where "AdHocIndex = -1"
definition BiosNodeCount :: nat where "BiosNodeCount = 1"
definition AdHocDaemonPeerHeadroom :: nat where "AdHocDaemonPeerHeadroom = 3"

definition hosted_producers :: "nat \<Rightarrow> nat \<Rightarrow> nat \<Rightarrow> string list" where
  "hosted_producers producerNodeCount n k =
     map producerName (filter (\<lambda>i. producerNodeCount > 0 \<and> i mod producerNodeCount = k) [0..<n])"

definition producer_descriptor :: "cluster_config \<Rightarrow> nat \<times> node_ports \<Rightarrow> node_descriptor" where
  "producer_descriptor c = (\<lambda>(k, ports).
     \<lparr>nd_role = producer_role, nd_index = int k, nd_name = nodeName k, nd_ports = ports,
      nd_producers = hosted_producers (length (cp_producers (cluster_ports c))) (cc_producerCount c) k,
      nd_batchOperatorLabel = None, nd_underwriterLabel = None\<rparr>)"

text \<open>\<open>opIndex\<close> counts on over the operators and the API nodes; \<open>start\<close> is its value at a list's first node.\<close>

definition batch_descriptor :: "nat \<Rightarrow> nat \<times> node_ports \<Rightarrow> node_descriptor" where
  "batch_descriptor start = (\<lambda>(k, ports).
     \<lparr>nd_role = batch_operator_role, nd_index = int (start + k), nd_name = nodeName (start + k), nd_ports = ports,
      nd_producers = [], nd_batchOperatorLabel = Some (batchOperatorLabel k), nd_underwriterLabel = None\<rparr>)"

definition underwriter_descriptor :: "nat \<Rightarrow> nat \<times> node_ports \<Rightarrow> node_descriptor" where
  "underwriter_descriptor start = (\<lambda>(k, ports).
     \<lparr>nd_role = underwriter_role, nd_index = int (start + k), nd_name = nodeName (start + k), nd_ports = ports,
      nd_producers = [], nd_batchOperatorLabel = None, nd_underwriterLabel = Some (underwriterLabel k)\<rparr>)"

definition api_descriptor :: "nat \<Rightarrow> nat \<times> node_ports \<Rightarrow> node_descriptor" where
  "api_descriptor start = (\<lambda>(k, ports).
     \<lparr>nd_role = api_role, nd_index = int (start + k), nd_name = nodeName (start + k), nd_ports = ports,
      nd_producers = [], nd_batchOperatorLabel = None, nd_underwriterLabel = None\<rparr>)"

definition bios_descriptor :: "cluster_config \<Rightarrow> node_descriptor" where
  "bios_descriptor c =
     \<lparr>nd_role = bios_role, nd_index = BiosIndex, nd_name = BiosName, nd_ports = cp_bios (cluster_ports c),
      nd_producers = [BiosProducer], nd_batchOperatorLabel = None, nd_underwriterLabel = None\<rparr>"

definition descriptors :: "cluster_config \<Rightarrow> node_descriptor list" where
  "descriptors c =
     (let ports = cluster_ports c;
          n = length (cp_producers ports);
          b = n + length (cp_batch ports);
          u = b + length (cp_underwriters ports)
      in bios_descriptor c # map (producer_descriptor c) (enumerate 0 (cp_producers ports))
         @ map (batch_descriptor n) (enumerate 0 (cp_batch ports))
         @ map (underwriter_descriptor b) (enumerate 0 (cp_underwriters ports))
         @ map (api_descriptor u) (enumerate 0 (cp_api ports)))"

definition meshDescriptors :: "node_descriptor list \<Rightarrow> node_descriptor list" where
  "meshDescriptors ds = filter (\<lambda>d. \<not> isOperatorRole (nd_role d)) ds"

definition operatorUplink :: "node_descriptor list \<Rightarrow> node_descriptor option" where
  "operatorUplink ds =
     (case List.find (\<lambda>d. nd_role d = producer_role) ds of
        Some d \<Rightarrow> Some d
      | None \<Rightarrow> (case meshDescriptors ds of [] \<Rightarrow> None | d # _ \<Rightarrow> Some d))"

definition peersFor :: "node_descriptor \<Rightarrow> node_descriptor list \<Rightarrow> node_descriptor option \<Rightarrow> node_descriptor list" where
  "peersFor d mesh uplink =
     (if isOperatorRole (nd_role d)
      then (case uplink of Some u \<Rightarrow> [u] | None \<Rightarrow> [])
      else filter (\<lambda>other. nd_name other \<noteq> nd_name d) mesh)"

definition peers_of :: "node_descriptor list \<Rightarrow> node_descriptor \<Rightarrow> node_descriptor list" where
  "peers_of ds d = peersFor d (meshDescriptors ds) (operatorUplink ds)"

definition to_node_config :: "string list \<Rightarrow> node_descriptor \<Rightarrow> node_config" where
  "to_node_config endpoints d =
     \<lparr>nc_role = nd_role d, nc_index = nd_index d, nc_name = nd_name d, nc_ports = nd_ports d, nc_producers = nd_producers d,
      nc_peerEndpoints = endpoints, nc_batchOperatorLabel = nd_batchOperatorLabel d,
      nc_underwriterLabel = nd_underwriterLabel d\<rparr>"

definition plan :: "cluster_config \<Rightarrow> node_config list" where
  "plan c =
     (let ds = descriptors c
      in map (\<lambda>d. to_node_config (map (\<lambda>other. peerEndpointFor c (nd_ports other)) (peers_of ds d)) d) ds)"

section \<open>What a node runs\<close>

definition nodePath :: "cluster_config \<Rightarrow> node_config \<Rightarrow> string" where
  "nodePath c n = cc_dataPath c @ ''/'' @ nc_name n"

definition runsTraceApiPlugin :: "cluster_config \<Rightarrow> node_config \<Rightarrow> bool" where
  "runsTraceApiPlugin c n \<longleftrightarrow>
     isOperatorRole (nc_role n) \<or> nc_role n = api_role \<or> cc_deploymentKind c \<noteq> external_deployment"

definition runsQueryEnginePlugin :: "node_config \<Rightarrow> bool" where
  "runsQueryEnginePlugin n \<longleftrightarrow> nc_role n = api_role"

definition runsProducerApiPlugin :: "node_config \<Rightarrow> bool" where
  "runsProducerApiPlugin n \<longleftrightarrow> nc_role n \<noteq> api_role"

definition peerCapacity :: "cluster_config \<Rightarrow> nat" where
  "peerCapacity c = cc_nodeCount c + cc_batchOperatorCount c + cc_underwriterCount c + cc_apiCount c
     + BiosNodeCount + AdHocDaemonPeerHeadroom"

text \<open>\<^const>\<open>None\<close> is a failed assertion.\<close>

definition producerPublicationLabel :: "node_config \<Rightarrow> string \<Rightarrow> string option" where
  "producerPublicationLabel n producer =
     (if \<not> (nc_role n = producer_role \<and> nc_index n \<noteq> AdHocIndex) then None
      else if producer \<notin> set (nc_producers n) then None
      else Some (if length (nc_producers n) = 1 then nc_name n else producer))"

definition adHocNodeName :: "string \<Rightarrow> string" where
  "adHocNodeName label = NodeNamePrefix @ label"

definition createAdHoc :: "cluster_config \<Rightarrow> operator_account \<Rightarrow> node_ports \<Rightarrow> node_config option" where
  "createAdHoc c operator ports =
     (let shared = \<lparr>nd_role = producer_role, nd_index = AdHocIndex, nd_name = adHocNodeName (oa_label operator), nd_ports = ports,
                    nd_producers = [], nd_batchOperatorLabel = None, nd_underwriterLabel = None\<rparr>
      in map_option (to_node_config (producerPeerEndpoints c))
           (case oa_type operator of
              PRODUCER \<Rightarrow>
                (if oa_account operator = None then None
                 else Some (shared\<lparr>nd_role := producer_role, nd_producers := [oa_label operator]\<rparr>))
            | BATCH \<Rightarrow> Some (shared\<lparr>nd_role := batch_operator_role, nd_batchOperatorLabel := Some (oa_label operator)\<rparr>)
            | UNDERWRITER \<Rightarrow> Some (shared\<lparr>nd_role := underwriter_role, nd_underwriterLabel := Some (oa_label operator)\<rparr>)
            | _ \<Rightarrow> None))"

text \<open>A configuration for the examples.\<close>

definition example_config :: "nat \<Rightarrow> nat \<Rightarrow> signature_provider_config \<Rightarrow> cluster_config" where
  "example_config nodes accounts provider =
     (let p = \<lparr>np_http = 1, np_p2p = 2, np_advertiseAddress = None\<rparr>;
          d = \<lparr>bd_address = Localhost, bd_port = 3\<rparr>
      in \<lparr>cc_clusterPath = ''/c'', cc_dataPath = ''/c/data'', cc_walletPath = ''/c/wallet'', cc_producerCount = accounts,
          cc_nodeCount = nodes, cc_batchOperatorCount = 1, cc_underwriterCount = 0, cc_apiCount = 0,
          cc_bind = \<lparr>bc_kiod = d, bc_nodeop = \<lparr>bn_address = Localhost, bn_ports =
              \<lparr>cp_bios = p, cp_producers = replicate nodes p, cp_batch = [p], cp_underwriters = [], cp_api = [], cp_adHoc = []\<rparr>\<rparr>,
            bc_anvil = d, bc_solana = \<lparr>bs_address = Localhost, bs_ports =
              \<lparr>sp_http = 4, sp_faucet = 5, sp_gossip = 6, sp_dynamicRange = \<lparr>rg_first = 7, rg_last = 8\<rparr>\<rparr>\<rparr>,
            bc_debuggingServer = d\<rparr>,
          cc_signatureProvider = provider,
          cc_awsClusterNodeConfig = Some \<lparr>aw_account = ''test'', aw_regions = [''us'', ''eu'']\<rparr>,
          cc_externalOutposts = False, cc_deploymentKind = local_deployment\<rparr>)"

section \<open>Names are distinct\<close>

lemma digits_value_pad [simp]: "digits_value (padStart n (CHR ''0'') s) = digits_value s"
proof -
  have "digits_value (replicate m (CHR ''0'') @ s) = digits_value s" for m
    by (induction m) (simp_all add: digits_value_def digit_value_def)
  then show ?thesis by (simp add: padStart_def)
qed

lemma digits_pad: "list_all isDigit s \<Longrightarrow> list_all isDigit (padStart n (CHR ''0'') s)"
  by (auto simp: padStart_def list_all_iff isDigit_def Let_def)

lemma nodeName_inject [simp]: "nodeName i = nodeName j \<longleftrightarrow> i = j"
proof
  assume "nodeName i = nodeName j"
  then have "padStart NodeNamePadWidth (CHR ''0'') (decimal i) = padStart NodeNamePadWidth (CHR ''0'') (decimal j)"
    by (simp add: nodeName_def)
  then have "digits_value (decimal i) = digits_value (decimal j)" by (metis digits_value_pad)
  then show "i = j" by (simp add: decimal_digits)
qed simp

lemma nodeName_not_bios [simp]: "nodeName i \<noteq> BiosName" "BiosName \<noteq> nodeName i"
proof -
  have "list_all isDigit (padStart NodeNamePadWidth (CHR ''0'') (decimal i))" by (simp add: digits_pad decimal_digits)
  then show "nodeName i \<noteq> BiosName" by (auto simp: nodeName_def BiosName_def list_all_iff isDigit_def)
  then show "BiosName \<noteq> nodeName i" by metis
qed

definition alpha_value :: "string \<Rightarrow> nat" where
  "alpha_value s = foldl (\<lambda>v c. 26 * v + the (index_of c AsciiLower)) 0 s"

lemma alpha_digit: "d < 26 \<Longrightarrow> index_of (AsciiLower ! d) AsciiLower = Some d"
proof -
  have "list_all (\<lambda>d. index_of (AsciiLower ! d) AsciiLower = Some d) [0..<26]" by code_simp
  then show "d < 26 \<Longrightarrow> ?thesis" by (simp add: list_all_iff)
qed

lemma length_AsciiLower [simp]: "length AsciiLower = 26"
  by (simp add: AsciiLower_def)

lemma AsciiLower_inject: "i < 26 \<Longrightarrow> j < 26 \<Longrightarrow> AsciiLower ! i = AsciiLower ! j \<longleftrightarrow> i = j"
  by (metis alpha_digit option.inject)

lemma alpha_value_alphaStrBase [simp]: "alpha_value (alphaStrBase n) = n"
proof (induction n rule: alphaStrBase.induct)
  case (1 num)
  then show ?case
    by (subst alphaStrBase.simps) (auto simp: Let_def alpha_value_def alpha_digit div_mult_mod_eq)
qed

lemma alpha_value_pad [simp]: "alpha_value (padStart n (CHR ''a'') s) = alpha_value s"
proof -
  have "alpha_value (replicate m (CHR ''a'') @ s) = alpha_value s" for m
    by (induction m) (simp_all add: alpha_value_def AsciiLower_def)
  then show ?thesis by (simp add: padStart_def)
qed

lemma length_alphaStrBase: "n < 26 ^ k \<Longrightarrow> 0 < k \<Longrightarrow> length (alphaStrBase n) \<le> k"
proof (induction n arbitrary: k rule: alphaStrBase.induct)
  case (1 num)
  show ?case
  proof (cases "num div 26 > 0")
    case True
    then obtain j where k: "k = Suc j" "0 < j" using 1(2,3) by (cases k; cases "k - 1") auto
    have "num div 26 < 26 ^ j" using 1(2) k by (simp add: less_mult_imp_div_less mult.commute)
    then have "length (alphaStrBase (num div 26)) \<le> j" using 1(1) True k by simp
    then show ?thesis using True k by (subst alphaStrBase.simps) simp
  next
    case False
    then show ?thesis using 1(3) by (subst alphaStrBase.simps) simp
  qed
qed

lemma padStart_head: "length s < n \<Longrightarrow> hd (padStart n c s) = c \<and> padStart n c s \<noteq> []"
  by (simp add: padStart_def)

text \<open>Past index \<open>26 ^ 6 + 24\<close> the suffix fills its seven letters, and one of them is \<open>oducera\<close>.\<close>

lemma producerName_inject:
  assumes "i < 26 ^ 6 + 25" "j < 26 ^ 6 + 25" "producerName i = producerName j"
  shows "i = j"
proof -
  define suffix where "suffix k = padStart 7 (CHR ''a'') (alphaStrBase (k - 25))" for k
  have hd: "hd (suffix k) = CHR ''a'' \<and> suffix k \<noteq> []" if "k < 26 ^ 6 + 25" for k
  proof -
    have "k - 25 < 26 ^ 6" using that by simp
    then have "length (alphaStrBase (k - 25)) \<le> 6" by (rule length_alphaStrBase) simp
    then show ?thesis unfolding suffix_def by (intro padStart_head) simp
  qed
  have long: "producerName k = ''defpr'' @ suffix k" if "k > 25" for k
  proof -
    have eq: "k - 26 + 1 = k - 25" using that by linarith
    have "length AsciiLower - 1 < k" using that by simp
    then show ?thesis unfolding producerNameIn_def suffix_def Let_def by (simp only: if_True if_False length_AsciiLower eq append.simps)
  qed
  have short: "producerName k = ''defpr'' @ ''oducer'' @ [AsciiLower ! k]" if "k \<le> 25" for k
    using that by (simp add: producerNameIn_def Let_def)
  have mixed: "producerName a \<noteq> producerName b" if "a \<le> 25" "b > 25" "b < 26 ^ 6 + 25" for a b
    using short [OF that(1)] long [OF that(2)] hd [OF that(3)] by (cases "suffix b") auto
  consider "i \<le> 25" "j \<le> 25" | "i > 25" "j > 25" | "i \<le> 25" "j > 25" | "i > 25" "j \<le> 25" by linarith
  then show ?thesis
  proof cases
    case 1
    then have "AsciiLower ! i = AsciiLower ! j" using assms(3) short by simp
    moreover have "i < 26" "j < 26" using 1 by simp_all
    ultimately show ?thesis by (simp only: AsciiLower_inject)
  next
    case 2
    then have "suffix i = suffix j" using assms(3) long by simp
    then have "i - 25 = j - 25" unfolding suffix_def by (metis alpha_value_pad alpha_value_alphaStrBase)
    with 2 show ?thesis by simp
  next
    case 3
    then show ?thesis using mixed [OF 3 assms(2)] assms(3) by simp
  next
    case 4
    then show ?thesis using mixed [OF 4(2,1) assms(1)] assms(3) by simp
  qed
qed

lemma operator_labels_inject:
  "i < 26 \<Longrightarrow> j < 26 \<Longrightarrow> batchOperatorLabel i = batchOperatorLabel j \<longleftrightarrow> i = j"
  "i < 26 \<Longrightarrow> j < 26 \<Longrightarrow> underwriterLabel i = underwriterLabel j \<longleftrightarrow> i = j"
  by (simp_all add: batchOperatorLabel_def underwriterLabel_def AsciiLower_inject)

section \<open>The plan's nodes\<close>

definition producerNodes :: "cluster_config \<Rightarrow> node_config list" where
  "producerNodes c = filter (\<lambda>n. nc_role n = producer_role) (plan c)"

lemmas descriptor_defs = bios_descriptor_def producer_descriptor_def batch_descriptor_def underwriter_descriptor_def
  api_descriptor_def

definition config_of :: "cluster_config \<Rightarrow> node_descriptor \<Rightarrow> node_config" where
  "config_of c d = to_node_config (map (\<lambda>other. peerEndpointFor c (nd_ports other)) (peers_of (descriptors c) d)) d"

lemma plan_config_of: "plan c = map (config_of c) (descriptors c)"
  by (simp add: plan_def config_of_def Let_def)

lemma config_of_simps [simp]:
  "nc_role (config_of c d) = nd_role d" "nc_index (config_of c d) = nd_index d" "nc_name (config_of c d) = nd_name d"
  "nc_ports (config_of c d) = nd_ports d" "nc_producers (config_of c d) = nd_producers d"
  "nc_batchOperatorLabel (config_of c d) = nd_batchOperatorLabel d" "nc_underwriterLabel (config_of c d) = nd_underwriterLabel d"
  by (simp_all add: config_of_def to_node_config_def)

lemma map_enumerate_shift: "map (\<lambda>x. f (n + fst x)) (enumerate 0 xs) = map f [n..<n + length xs]"
  by (rule nth_equalityI) (simp_all add: nth_enumerate_eq)

lemma descriptor_names:
  "map nd_name (descriptors c) =
     BiosName # map nodeName [0..<length (cp_producers (cluster_ports c)) + length (cp_batch (cluster_ports c))
       + length (cp_underwriters (cluster_ports c)) + length (cp_api (cluster_ports c))]"
proof -
  have names: "map (nd_name \<circ> producer_descriptor c) (enumerate 0 xs) = map nodeName [0..<length xs]"
    "map (nd_name \<circ> batch_descriptor n) (enumerate 0 xs) = map nodeName [n..<n + length xs]"
    "map (nd_name \<circ> underwriter_descriptor n) (enumerate 0 xs) = map nodeName [n..<n + length xs]"
    "map (nd_name \<circ> api_descriptor n) (enumerate 0 xs) = map nodeName [n..<n + length xs]" for n and xs :: "node_ports list"
    using map_enumerate_shift [of nodeName 0 xs] map_enumerate_shift [of nodeName n xs]
    by (simp_all add: descriptor_defs comp_def case_prod_unfold)
  have join: "map nodeName [0..<a + b] = map nodeName [0..<a] @ map nodeName [a..<a + b]" for a b
    using upt_add_eq_append [of 0 a b] by simp
  show ?thesis unfolding join by (simp add: descriptors_def Let_def names) (simp add: bios_descriptor_def)
qed

lemma distinct_descriptor_names: "distinct (map nd_name (descriptors c))"
  by (auto simp: descriptor_names distinct_map inj_on_def)

lemma distinct_descriptors: "distinct (descriptors c)"
  using distinct_descriptor_names by (auto simp: distinct_map)

lemma descriptor_name_eq:
  "d \<in> set (descriptors c) \<Longrightarrow> e \<in> set (descriptors c) \<Longrightarrow> nd_name d = nd_name e \<longleftrightarrow> d = e"
  using distinct_key_eq [OF distinct_descriptor_names] by blast

lemma producer_descriptors:
  "filter (\<lambda>d. nd_role d = producer_role) (descriptors c) =
     map (producer_descriptor c) (enumerate 0 (cp_producers (cluster_ports c)))"
proof -
  have "filter (\<lambda>d. nd_role d = producer_role) (map (batch_descriptor n) xs) = []"
    "filter (\<lambda>d. nd_role d = producer_role) (map (underwriter_descriptor n) xs) = []"
    "filter (\<lambda>d. nd_role d = producer_role) (map (api_descriptor n) xs) = []"
    "filter (\<lambda>d. nd_role d = producer_role) (map (producer_descriptor c) xs) = map (producer_descriptor c) xs" for n xs
    by (induction xs) (simp_all add: descriptor_defs case_prod_unfold)
  then show ?thesis by (simp add: descriptors_def Let_def bios_descriptor_def)
qed

lemma producerNodes_eq:
  "producerNodes c = map (config_of c) (map (producer_descriptor c) (enumerate 0 (cp_producers (cluster_ports c))))"
  unfolding producerNodes_def plan_config_of producer_descriptors [symmetric]
  by (simp add: filter_map comp_def)

section \<open>The producers are dealt out\<close>

lemma count_residue: "k < n \<Longrightarrow> length (filter (\<lambda>i. i mod n = k) [0..<m]) = m div n + (if k < m mod n then 1 else 0)"
proof (induction m)
  case (Suc m)
  then show ?case by (auto simp: mod_Suc div_Suc)
qed simp

lemma mset_residues:
  assumes "0 < n"
  shows "(\<Sum>k\<leftarrow>[0..<n]. mset (filter (\<lambda>i. i mod n = k) xs)) = mset (xs :: nat list)"
proof (induction xs)
  case (Cons x xs)
  have "(\<Sum>k\<leftarrow>[0..<n]. if x mod n = k then {#x#} else {#}) = {#x#}"
    using assms by (simp add: sum_list_distinct_conv_sum_set)
  moreover have "mset (filter (\<lambda>i. i mod n = k) (x # xs)) =
    (if x mod n = k then {#x#} else {#}) + mset (filter (\<lambda>i. i mod n = k) xs)" for k by simp
  ultimately show ?case using Cons by (simp only: sum_list_addf) simp
qed (simp add: sum_list_0)

lemma image_mset_sum_list: "image_mset f (\<Sum>k\<leftarrow>ks. g k) = (\<Sum>k\<leftarrow>ks. image_mset f (g k))"
  by (induction ks) simp_all

lemma hosted_mset:
  assumes "0 < n"
  shows "mset (concat (map (hosted_producers n m) [0..<n])) = mset (map producerName [0..<m])"
proof -
  have "mset (concat (map (hosted_producers n m) [0..<n])) =
    (\<Sum>k\<leftarrow>[0..<n]. image_mset producerName (mset (filter (\<lambda>i. i mod n = k) [0..<m])))"
    using assms by (simp add: hosted_producers_def mset_concat comp_def)
  also have "\<dots> = image_mset producerName (\<Sum>k\<leftarrow>[0..<n]. mset (filter (\<lambda>i. i mod n = k) [0..<m]))"
    by (rule image_mset_sum_list [symmetric])
  finally show ?thesis by (simp only: mset_residues [OF assms] mset_map)
qed

lemma producer_lists:
  "map nc_producers (producerNodes c) = map (hosted_producers (length (cp_producers (cluster_ports c))) (cc_producerCount c))
     [0..<length (cp_producers (cluster_ports c))]"
  using map_enumerate_shift [of "hosted_producers (length (cp_producers (cluster_ports c))) (cc_producerCount c)" 0
      "cp_producers (cluster_ports c)"]
  by (simp add: producerNodes_eq producer_descriptor_def comp_def case_prod_unfold)

lemma hosted_accounts_mset:
  "cp_producers (cluster_ports c) \<noteq> [] \<Longrightarrow>
     mset (concat (map nc_producers (producerNodes c))) = mset (map producerName [0..<cc_producerCount c])"
  unfolding producer_lists by (rule hosted_mset) simp

text \<open>With at least one producer node, the planned producer nodes host every producer account exactly once, and no node
  hosts two more than another.\<close>

theorem producers_round_robin:
  assumes "cp_producers (cluster_ports c) \<noteq> []"
  shows "mset (concat (map nc_producers (producerNodes c))) = mset (map producerName [0..<cc_producerCount c]) \<and>
    (\<forall>a \<in> set (producerNodes c). \<forall>b \<in> set (producerNodes c). length (nc_producers a) \<le> length (nc_producers b) + 1)"
proof -
  let ?n = "length (cp_producers (cluster_ports c))"
  have n: "0 < ?n" using assms by simp
  note lists = producer_lists [of c]
  have hosts: "\<exists>k < ?n. nc_producers a = hosted_producers ?n (cc_producerCount c) k" if "a \<in> set (producerNodes c)" for a
  proof -
    have "nc_producers a \<in> set (map (hosted_producers ?n (cc_producerCount c)) [0..<?n])"
      using that by (simp flip: lists)
    then show ?thesis by auto
  qed
  have len: "length (hosted_producers ?n m k) = m div ?n + (if k < m mod ?n then 1 else 0)" if "k < ?n" for k m
    using count_residue [OF that] n by (simp add: hosted_producers_def)
  show ?thesis
    using hosted_accounts_mset [OF assms] by (auto dest!: hosts simp: len)
qed

lemma producers_round_robin_witness:
  "mset (concat (map nc_producers (producerNodes (example_config 2 3 provider)))) =
     mset [''defproducera'', ''defproducerb'', ''defproducerc'']"
proof -
  have "map producerName [0..<3] = [''defproducera'', ''defproducerb'', ''defproducerc'']" by code_simp
  then show ?thesis
    using producers_round_robin [of "example_config 2 3 provider"] by (simp add: example_config_def Let_def numeral_2_eq_2)
qed

section \<open>The mesh\<close>

lemma peers_mesh: "\<not> isOperatorRole (nd_role d) \<Longrightarrow>
    set (peers_of ds d) = {e \<in> set ds. \<not> isOperatorRole (nd_role e) \<and> nd_name e \<noteq> nd_name d}"
  by (auto simp: peers_of_def peersFor_def meshDescriptors_def)

lemma uplink_eq:
  "operatorUplink (descriptors c) = Some (case cp_producers (cluster_ports c) of [] \<Rightarrow> bios_descriptor c
     | p # _ \<Rightarrow> producer_descriptor c (0, p))"
proof -
  have found: "List.find P ds = (case filter P ds of [] \<Rightarrow> None | d # _ \<Rightarrow> Some d)" for P and ds :: "node_descriptor list"
    by (induction ds) auto
  have "meshDescriptors (descriptors c) = bios_descriptor c # tl (meshDescriptors (descriptors c))"
    by (simp add: meshDescriptors_def descriptors_def Let_def bios_descriptor_def)
  then obtain r where "meshDescriptors (descriptors c) = bios_descriptor c # r" by blast
  then show ?thesis unfolding operatorUplink_def found producer_descriptors
    by (simp split: list.splits)
qed

lemma bios_planned: "bios_descriptor c \<in> set (descriptors c)" "\<not> isOperatorRole (nd_role (bios_descriptor c))"
  by (simp_all add: descriptors_def Let_def bios_descriptor_def)

lemma uplink_planned:
  assumes "operatorUplink (descriptors c) = Some u"
  shows "u \<in> set (descriptors c) \<and> \<not> isOperatorRole (nd_role u)"
proof (cases "cp_producers (cluster_ports c)")
  case Nil
  then show ?thesis using assms bios_planned [of c] by (simp add: uplink_eq)
next
  case (Cons p ps)
  then have "u = producer_descriptor c (0, p)" using assms by (simp add: uplink_eq)
  then have "u \<in> set (filter (\<lambda>d. nd_role d = producer_role) (descriptors c))"
    unfolding producer_descriptors using Cons by simp
  then show ?thesis by auto
qed

definition dials :: "cluster_config \<Rightarrow> node_config \<Rightarrow> node_config \<Rightarrow> bool" where
  "dials c n m \<longleftrightarrow> peerEndpointFor c (nc_ports m) \<in> set (nc_peerEndpoints n)"

text \<open>C15: Every two bios, producer and API nodes dial each other, and an operator node dials one peer: the first producer node,
  or the bios node when there is none.\<close>

theorem mesh_topology:
  "(\<forall>n \<in> set (plan c). \<forall>m \<in> set (plan c). nc_name n \<noteq> nc_name m \<longrightarrow>
      nc_role n \<in> {bios_role, producer_role, api_role} \<longrightarrow> nc_role m \<in> {bios_role, producer_role, api_role} \<longrightarrow>
      dials c n m \<and> dials c m n) \<and>
   (\<forall>n \<in> set (plan c). nc_role n \<in> {batch_operator_role, underwriter_role} \<longrightarrow>
      (\<exists>u \<in> set (plan c). nc_peerEndpoints n = [peerEndpointFor c (nc_ports u)] \<and>
        u = (case producerNodes c of [] \<Rightarrow> hd (plan c) | p # _ \<Rightarrow> p)))"
proof (intro conjI ballI impI)
  fix n m assume "n \<in> set (plan c)" "m \<in> set (plan c)" "nc_name n \<noteq> nc_name m"
    "nc_role n \<in> {bios_role, producer_role, api_role}" "nc_role m \<in> {bios_role, producer_role, api_role}"
  then obtain d e where "d \<in> set (descriptors c)" "n = config_of c d" "e \<in> set (descriptors c)" "m = config_of c e"
    "\<not> isOperatorRole (nd_role d)" "\<not> isOperatorRole (nd_role e)" "nd_name d \<noteq> nd_name e"
    by (auto simp: plan_config_of isOperatorRole_def OperatorRoles_def)
  then show "dials c n m" "dials c m n"
    by (force simp: dials_def config_of_def to_node_config_def peers_mesh)+
next
  fix n assume "n \<in> set (plan c)" "nc_role n \<in> {batch_operator_role, underwriter_role}"
  then obtain d where d: "d \<in> set (descriptors c)" "n = config_of c d" "isOperatorRole (nd_role d)"
    by (auto simp: plan_config_of isOperatorRole_def OperatorRoles_def)
  obtain u where u: "operatorUplink (descriptors c) = Some u" by (simp add: uplink_eq)
  have "nc_peerEndpoints n = [peerEndpointFor c (nc_ports (config_of c u))]"
    using d u by (simp add: config_of_def to_node_config_def peers_of_def peersFor_def)
  moreover have "config_of c u = (case producerNodes c of [] \<Rightarrow> hd (plan c) | p # _ \<Rightarrow> p)"
  proof (cases "cp_producers (cluster_ports c)")
    case Nil
    then have "u = bios_descriptor c" "producerNodes c = []" using u by (simp_all add: uplink_eq producerNodes_eq)
    then show ?thesis by (simp add: plan_config_of descriptors_def Let_def)
  next
    case (Cons p ps)
    then show ?thesis using u by (simp add: uplink_eq producerNodes_eq)
  qed
  ultimately show "\<exists>u \<in> set (plan c). nc_peerEndpoints n = [peerEndpointFor c (nc_ports u)] \<and>
      u = (case producerNodes c of [] \<Rightarrow> hd (plan c) | p # _ \<Rightarrow> p)"
    using imageI [OF uplink_planned [OF u, THEN conjunct1], of "config_of c"]
    by (intro bexI [of _ "config_of c u"]) (simp_all add: plan_config_of)
qed

lemma mesh_topology_witness:
  "let c = example_config 2 3 \<lparr>sg_type = KEY, sg_ssm = None\<rparr> in
     dials c (plan c ! 0) (plan c ! 2) \<and> nc_peerEndpoints (plan c ! 3) = [''127.0.0.1:2'']"
proof -
  let ?c = "example_config 2 3 \<lparr>sg_type = KEY, sg_ssm = None\<rparr>"
  have nodes: "map nc_role (plan ?c) = [bios_role, producer_role, producer_role, batch_operator_role]"
    "map nc_name (plan ?c) = [''node_bios'', ''node_00'', ''node_01'', ''node_02'']" by code_simp+
  have "length (map nc_role (plan ?c)) = 4" unfolding nodes(1) by simp
  then have len: "length (plan ?c) = 4" by simp
  have planned: "plan ?c ! i \<in> set (plan ?c)" "nc_role (plan ?c ! i) = [bios_role, producer_role, producer_role, batch_operator_role] ! i"
    "nc_name (plan ?c ! i) = [''node_bios'', ''node_00'', ''node_01'', ''node_02''] ! i" if "i < 4" for i
    using that len by (simp_all flip: nodes)
  note topology = mesh_topology [of ?c]
  have "dials ?c (plan ?c ! 0) (plan ?c ! 2)"
    using topology [THEN conjunct1] planned [of 0] planned [of 2] by simp
  moreover have "list_all (\<lambda>n. peerEndpointFor ?c (nc_ports n) = ''127.0.0.1:2'') (plan ?c)" by code_simp
  then have "nc_peerEndpoints (plan ?c ! 3) = [''127.0.0.1:2'']"
    using topology [THEN conjunct2, THEN bspec [OF _ planned(1) [of 3]]] planned [of 3] by (auto simp: list_all_iff)
  ultimately show ?thesis by (simp add: Let_def)
qed

text \<open>Every node's links stay below the capacity with the room for the ad-hoc daemons left free.\<close>

lemma links_below_capacity:
  assumes "cc_nodeCount c = length (cp_producers (cluster_ports c))" "cc_batchOperatorCount c = length (cp_batch (cluster_ports c))"
    "cc_underwriterCount c = length (cp_underwriters (cluster_ports c))" "cc_apiCount c = length (cp_api (cluster_ports c))"
    and d: "d \<in> set (descriptors c)"
  shows "length (filter (\<lambda>e. e \<in> set (peers_of (descriptors c) d) \<or> d \<in> set (peers_of (descriptors c) e)) (descriptors c))
    + AdHocDaemonPeerHeadroom < peerCapacity c"
proof -
  let ?linked = "\<lambda>e. e \<in> set (peers_of (descriptors c) d) \<or> d \<in> set (peers_of (descriptors c) e)"
  have "d \<notin> set (peers_of (descriptors c) d)"
    using uplink_planned [of c] d
    by (cases "isOperatorRole (nd_role d)") (auto simp: peers_mesh, auto simp: peers_of_def peersFor_def split: option.splits)
  then have "length (filter ?linked (descriptors c)) < length (descriptors c)"
    using d by (intro length_filter_less) auto
  moreover have "length (descriptors c) + AdHocDaemonPeerHeadroom = peerCapacity c"
    using assms by (simp add: descriptors_def Let_def peerCapacity_def BiosNodeCount_def)
  ultimately show ?thesis by linarith
qed

section \<open>An address that is not bracketed\<close>

text \<open>\<open>peerEndpointFor\<close> does not go through \<open>toAddress\<close>, so an IPv6 address it is given to advertise is written without brackets.\<close>

lemma advertised_v6_is_not_bracketed:
  "np_advertiseAddress ports = Some ''fd00::1'' \<Longrightarrow> np_p2p ports = 7 \<Longrightarrow>
     peerEndpointFor c ports = ''fd00::1:7'' \<and> toAddress (np_p2p ports) ''fd00::1'' = ''[fd00::1]:7''"
proof -
  have "port_text 7 = ''7''" by code_simp
  then show "np_advertiseAddress ports = Some ''fd00::1'' \<Longrightarrow> np_p2p ports = 7 \<Longrightarrow> ?thesis"
    by (simp add: peerEndpointFor_def advertiseAddressFor_def toAddress_def)
qed

end
