(* ===== verification/Key_Publication.thy ===== *)
theory Key_Publication
  imports Node_Plan Storage_Key "HOL-Library.Monad_Syntax"
begin

text \<open>
  How the keys of a cluster get into AWS SSM and are found there again: \<open>toSecretId\<close> and \<open>signatureProviderSource\<close> of
  \<open>cluster-tool/src/config/ClusterConfigProvider.ts\<close>, \<open>config/SSMClientProvider.ts\<close>, the key steps of
  \<open>orchestration/steps/KeySteps.ts\<close>, the seeding of \<open>orchestration/ClusterBuild.ts\<close> and the materialisation of identities
  in \<open>tools/wire/WireOperatorProvisioningTool.ts\<close>. SSM, the key generators and the key codecs are the record
  \<open>key_services\<close> of functions over a state of the outside; \<^const>\<open>None\<close> is a \<open>throw\<close>. Logs, the wallet and the
  recorder of steps are left out. Keys that the code asks for together (\<open>Promise.all\<close>) are asked for one after another.
\<close>

section \<open>Secret ids\<close>

definition isWordChar :: "char \<Rightarrow> bool" where
  "isWordChar ch \<longleftrightarrow> isDigit ch \<or> ch \<in> set AsciiLower \<or> ch \<in> set ''ABCDEFGHIJKLMNOPQRSTUVWXYZ'' \<or> ch = CHR ''_''"

text \<open>\<open>replace\<close> over \<open>\{(\w+)\}\<close>.\<close>

function expand :: "(string \<Rightarrow> string option) \<Rightarrow> string \<Rightarrow> string option" where
  "expand value [] = Some []"
| "expand value (ch # cs) =
     (let w = takeWhile isWordChar cs; rest = dropWhile isWordChar cs
      in if ch = CHR ''{'' \<and> w \<noteq> [] \<and> take 1 rest = ''}''
         then (case value w of None \<Rightarrow> None | Some v \<Rightarrow> map_option ((@) v) (expand value (tl rest)))
         else map_option (Cons ch) (expand value cs))"
  by pat_completeness auto

termination
  by (relation "measure (length \<circ> snd)")
    (auto simp: less_Suc_eq_le intro: order_trans [OF diff_le_self length_dropWhile_le])

text \<open>What the members an object inherits read as in a string.\<close>

definition prototype_text :: "string \<Rightarrow> string option" where
  "prototype_text key =
     (if key = ''constructor'' then Some ''function Object() { [native code] }''
      else if key = ''__proto__'' then Some ''[object Object]''
      else if key \<in> set [''__defineGetter__'', ''__defineSetter__'', ''hasOwnProperty'', ''__lookupGetter__'',
        ''__lookupSetter__'', ''isPrototypeOf'', ''propertyIsEnumerable'', ''toString'', ''valueOf'', ''toLocaleString'']
      then Some (''function '' @ key @ ''() { [native code] }'')
      else None)"

record secret_id_substitutions =
  su_cluster :: string
  su_account :: string
  su_keyType :: string
  su_version :: "string option"

definition substitution :: "secret_id_substitutions \<Rightarrow> string \<Rightarrow> string option" where
  "substitution s key =
     (if key = ''cluster'' then Some (su_cluster s)
      else if key = ''account'' then Some (su_account s)
      else if key = ''keyType'' then Some (su_keyType s)
      else if key = ''version'' then su_version s
      else prototype_text key)"

definition toSecretId :: "string \<Rightarrow> secret_id_substitutions \<Rightarrow> string option" where
  "toSecretId p s = expand (substitution s) p"

section \<open>Where a key comes from\<close>

record signature_provider_source =
  ss_type :: signature_provider_type
  ss_awsSecretId :: "string option"
  ss_kiodUrl :: "string option"

definition DefaultKeySource :: signature_provider_source where
  "DefaultKeySource = \<lparr>ss_type = KEY, ss_awsSecretId = None, ss_kiodUrl = None\<rparr>"

definition keySource :: "signature_provider_config \<Rightarrow> string \<Rightarrow> string \<Rightarrow> signature_provider_source option" where
  "keySource provider secretId kiodUrl =
     (case sg_type provider of
        KEY \<Rightarrow> Some DefaultKeySource
      | SSM \<Rightarrow> (if sg_ssm provider = None then None
                else Some \<lparr>ss_type = SSM, ss_awsSecretId = Some secretId, ss_kiodUrl = None\<rparr>)
      | KIOD \<Rightarrow> Some \<lparr>ss_type = KIOD, ss_awsSecretId = None, ss_kiodUrl = Some kiodUrl\<rparr>)"

definition assertAWSAccountName :: "cluster_config \<Rightarrow> string option" where
  "assertAWSAccountName c = map_option aw_account (cc_awsClusterNodeConfig c)"

definition signatureProviderSource :: "cluster_config \<Rightarrow> string \<Rightarrow> key_type \<Rightarrow> signature_provider_source option" where
  "signatureProviderSource c account keyType =
     (let provider = cc_signatureProvider c;
          kiodUrl = toURL (bd_port (bc_kiod (cc_bind c))) (toDialAddress (bd_address (bc_kiod (cc_bind c))))
      in do {
        secretId \<leftarrow> (if sg_type provider = SSM
          then do {
            ssm \<leftarrow> sg_ssm provider;
            cluster \<leftarrow> assertAWSAccountName c;
            toSecretId (so_awsSecretIdPattern ssm)
              \<lparr>su_cluster = cluster, su_account = account, su_keyType = key_type_name keyType, su_version = so_version ssm\<rparr>
          }
          else Some []);
        keySource provider secretId kiodUrl
      })"

text \<open>The inner \<^const>\<open>None\<close> is \<open>null\<close>.\<close>

definition signatureProviderSecretId :: "cluster_config \<Rightarrow> string \<Rightarrow> key_type \<Rightarrow> string option option" where
  "signatureProviderSecretId c account keyType =
     (if sg_type (cc_signatureProvider c) \<noteq> SSM then Some None
      else map_option ss_awsSecretId (signatureProviderSource c account keyType))"

definition replicationRegions :: "cluster_config \<Rightarrow> string list option" where
  "replicationRegions c = do {
     ssm \<leftarrow> sg_ssm (cc_signatureProvider c);
     aws \<leftarrow> cc_awsClusterNodeConfig c;
     Some (case so_awsRegions ssm of Some awsRegions \<Rightarrow> awsRegions | None \<Rightarrow> aw_regions aws)
   }"

section \<open>The publications\<close>

datatype publish_phase = beforeNodes | afterOperators

record key_identity =
  ki_label :: string
  ki_publicationLabel :: string
  ki_publishPhase :: publish_phase
  ki_keyTypes :: "key_type list"

record key_publication =
  pb_publishPhase :: publish_phase
  pb_label :: string
  pb_publicationLabel :: string
  pb_keyType :: key_type
  pb_awsRegions :: "string list"
  pb_secretId :: string
  pb_version :: "string option"

definition publicationRenderer :: "cluster_config \<Rightarrow> key_identity \<Rightarrow> key_type \<Rightarrow> key_publication option" where
  "publicationRenderer c identity keyType = do {
     awsRegions \<leftarrow> replicationRegions c;
     aws \<leftarrow> cc_awsClusterNodeConfig c;
     ssm \<leftarrow> sg_ssm (cc_signatureProvider c);
     secretId \<leftarrow> toSecretId (so_awsSecretIdPattern ssm)
       \<lparr>su_cluster = aw_account aws, su_account = ki_publicationLabel identity, su_keyType = key_type_name keyType,
        su_version = so_version ssm\<rparr>;
     Some \<lparr>pb_publishPhase = ki_publishPhase identity, pb_label = ki_label identity,
           pb_publicationLabel = ki_publicationLabel identity, pb_keyType = keyType, pb_awsRegions = awsRegions,
           pb_secretId = secretId, pb_version = so_version ssm\<rparr>
   }"

definition OperatorKeyTypes :: "key_type list" where "OperatorKeyTypes = [K1, EM, ED]"

definition ProducerOperatorKeyTypes :: "key_type list" where "ProducerOperatorKeyTypes = OperatorKeyTypes @ [BLS]"

definition operatorKeyTypes :: "operator_type \<Rightarrow> key_type list" where
  "operatorKeyTypes t = (if t = PRODUCER then ProducerOperatorKeyTypes else OperatorKeyTypes)"

definition operatorKeyIdentity :: "string \<Rightarrow> operator_type \<Rightarrow> key_identity" where
  "operatorKeyIdentity label t =
     \<lparr>ki_label = label, ki_publicationLabel = label, ki_publishPhase = afterOperators, ki_keyTypes = operatorKeyTypes t\<rparr>"

definition operatorKeyPublications :: "cluster_config \<Rightarrow> string \<Rightarrow> operator_type \<Rightarrow> key_publication list option" where
  "operatorKeyPublications c label t =
     (let identity = operatorKeyIdentity label t
      in those (map (publicationRenderer c identity) (ki_keyTypes identity)))"

definition BOOTSTRAP_NODE_OWNER :: string where "BOOTSTRAP_NODE_OWNER = ''wireno''"

definition producer_identity :: "node_config \<Rightarrow> string \<Rightarrow> key_identity option" where
  "producer_identity n label = do {
     publicationLabel \<leftarrow> producerPublicationLabel n label;
     Some \<lparr>ki_label = label, ki_publicationLabel = publicationLabel, ki_publishPhase = beforeNodes, ki_keyTypes = [K1, BLS]\<rparr>
   }"

definition key_identities :: "cluster_config \<Rightarrow> key_identity list option" where
  "key_identities c = do {
     producers \<leftarrow> those (concat (map (\<lambda>n. map (producer_identity n) (nc_producers n)) (producerNodes c)));
     Some ([\<lparr>ki_label = BiosName, ki_publicationLabel = BiosName, ki_publishPhase = beforeNodes, ki_keyTypes = [K1, BLS]\<rparr>,
            \<lparr>ki_label = BOOTSTRAP_NODE_OWNER, ki_publicationLabel = BOOTSTRAP_NODE_OWNER, ki_publishPhase = beforeNodes,
             ki_keyTypes = [K1]\<rparr>]
       @ producers
       @ map (\<lambda>i. operatorKeyIdentity (batchOperatorLabel i) BATCH) [0..<cc_batchOperatorCount c]
       @ map (\<lambda>i. operatorKeyIdentity (underwriterLabel i) UNDERWRITER) [0..<cc_underwriterCount c])
   }"

definition signatureProviderKeyPublications :: "cluster_config \<Rightarrow> key_publication list option" where
  "signatureProviderKeyPublications c = do {
     identities \<leftarrow> key_identities c;
     publications \<leftarrow> those (concat (map (\<lambda>i. map (publicationRenderer c i) (ki_keyTypes i)) identities));
     if distinct (map pb_secretId publications) then Some publications else None
   }"

definition isPublishedAtBootstrap :: "cluster_config \<Rightarrow> string \<Rightarrow> bool option" where
  "isPublishedAtBootstrap c label =
     map_option (\<lambda>ps. list_ex (\<lambda>p. pb_label p = label) ps) (signatureProviderKeyPublications c)"

section \<open>The parameter store\<close>

text \<open>\<open>GetParameter\<close> answers with a parameter, without one, with \<open>ParameterNotFound\<close>, or with any other error.\<close>

datatype ssm_answer = Parameter "string option" "string option" | NoParameter | ParameterNotFound | OtherFailure

record 'w key_services =
  kv_get :: "string \<Rightarrow> string \<Rightarrow> 'w \<Rightarrow> ssm_answer"
  kv_put :: "string \<Rightarrow> string \<Rightarrow> string \<Rightarrow> 'w \<Rightarrow> 'w option"
  kv_create :: "key_type \<Rightarrow> 'w \<Rightarrow> (key_pair \<times> 'w) option"
  kv_pairFromPrivate :: "key_type \<Rightarrow> string \<Rightarrow> key_pair option"
  kv_toNative :: "string \<Rightarrow> string option"
  kv_fromNative :: "key_type \<Rightarrow> string \<Rightarrow> string option"

datatype 'a lookup = Got 'a | Missing | Broken

definition text_trim :: "string \<Rightarrow> string" where
  "text_trim t = rev (dropWhile isSpace (rev (dropWhile isSpace t)))"

text \<open>The \<open>ParameterNotFound\<close> that \<open>tryGetParameter\<close> tells by its name is \<^const>\<open>Missing\<close>.\<close>

definition getParameter :: "'w key_services \<Rightarrow> string \<Rightarrow> string \<Rightarrow> 'w \<Rightarrow> string lookup" where
  "getParameter sv region secretId w =
     (case kv_get sv region secretId w of
        ParameterNotFound \<Rightarrow> Missing
      | OtherFailure \<Rightarrow> Broken
      | NoParameter \<Rightarrow> Broken
      | Parameter type value \<Rightarrow>
          (if \<not> (type = None \<or> type = Some ''SecureString'') then Broken
           else let v = text_trim (case value of Some t \<Rightarrow> t | None \<Rightarrow> [])
                in if length v > 0 then Got v else Broken))"

text \<open>\<^const>\<open>None\<close> is a \<open>throw\<close>, the inner one \<open>null\<close>.\<close>

definition tryGetParameter :: "'w key_services \<Rightarrow> string \<Rightarrow> string \<Rightarrow> 'w \<Rightarrow> string option option" where
  "tryGetParameter sv region secretId w =
     (case getParameter sv region secretId w of Got v \<Rightarrow> Some (Some v) | Missing \<Rightarrow> Some None | Broken \<Rightarrow> None)"

fun present_parameters :: "'w key_services \<Rightarrow> string list \<Rightarrow> string \<Rightarrow> 'w \<Rightarrow> (string \<times> string) list option" where
  "present_parameters sv [] secretId w = Some []"
| "present_parameters sv (region # regions) secretId w = do {
     value \<leftarrow> tryGetParameter sv region secretId w;
     rest \<leftarrow> present_parameters sv regions secretId w;
     Some (case value of Some v \<Rightarrow> (region, v) # rest | None \<Rightarrow> rest)
   }"

definition getParameterAcrossRegions :: "'w key_services \<Rightarrow> string list \<Rightarrow> string \<Rightarrow> 'w \<Rightarrow> string option option" where
  "getParameterAcrossRegions sv regions secretId w = do {
     present \<leftarrow> present_parameters sv regions secretId w;
     case present of
       [] \<Rightarrow> Some None
     | first # rest \<Rightarrow> (if list_all (\<lambda>entry. snd entry = snd first) rest then Some (Some (snd first)) else None)
   }"

section \<open>Obtaining keys\<close>

definition adoptOrCreateKey :: "'w key_services \<Rightarrow> cluster_config \<Rightarrow> key_type \<Rightarrow> string \<Rightarrow> 'w \<Rightarrow> (key_pair \<times> 'w) option" where
  "adoptOrCreateKey sv c keyType account w = do {
     secretId \<leftarrow> signatureProviderSecretId c account keyType;
     adopted \<leftarrow> (case secretId of
         Some i \<Rightarrow> do { regions \<leftarrow> replicationRegions c; getParameterAcrossRegions sv regions i w }
       | None \<Rightarrow> Some None);
     case adopted of
       Some v \<Rightarrow> map_option (\<lambda>pair. (pair, w)) (kv_pairFromPrivate sv keyType v)
     | None \<Rightarrow> kv_create sv keyType w
   }"

definition adoptOrCreateProducerKeySet :: "'w key_services \<Rightarrow> cluster_config \<Rightarrow> string \<Rightarrow> 'w \<Rightarrow> (producer_key_set \<times> 'w) option" where
  "adoptOrCreateProducerKeySet sv c nameOfNode w = do {
     (wire, w) \<leftarrow> adoptOrCreateKey sv c K1 nameOfNode w;
     (wireFinalizer, w) \<leftarrow> adoptOrCreateKey sv c BLS nameOfNode w;
     Some (\<lparr>pk_wire = wire, pk_wireFinalizer = wireFinalizer\<rparr>, w)
   }"

fun generate_nodes :: "'w key_services \<Rightarrow> cluster_config \<Rightarrow> node_config list \<Rightarrow> 'w \<Rightarrow> (node_keys list \<times> 'w) option" where
  "generate_nodes sv c [] w = Some ([], w)"
| "generate_nodes sv c (n # ns) w = do {
     (keys, w) \<leftarrow> adoptOrCreateProducerKeySet sv c (nc_name n) w;
     (rest, w) \<leftarrow> generate_nodes sv c ns w;
     Some (\<lparr>nk_index = nc_index n, nk_keys = keys\<rparr> # rest, w)
   }"

text \<open>The state of a build: its key store and the outside.\<close>

type_synonym 'w keys_state = "cluster_key_store \<times> 'w"

definition runGenerateNodeKeys :: "'w key_services \<Rightarrow> cluster_config \<Rightarrow> 'w keys_state \<Rightarrow> 'w keys_state option" where
  "runGenerateNodeKeys sv c = (\<lambda>(ks, w). do {
     (nodes, w) \<leftarrow> generate_nodes sv c (producerNodes c) w;
     Some (pushNodes nodes ks, w)
   })"

definition assertPlannedProducerNode :: "cluster_config \<Rightarrow> int \<Rightarrow> node_config option" where
  "assertPlannedProducerNode c index = List.find (\<lambda>planned. nc_role planned = producer_role \<and> nc_index planned = index) (plan c)"

definition runProducerMaterialization ::
    "'w key_services \<Rightarrow> cluster_config \<Rightarrow> string \<Rightarrow> int \<Rightarrow> string \<Rightarrow> 'w keys_state \<Rightarrow> 'w keys_state option" where
  "runProducerMaterialization sv c label producerNodeIndex publicationLabel = (\<lambda>(ks, w). do {
     n \<leftarrow> assertPlannedProducerNode c producerNodeIndex;
     recorded \<leftarrow> producerPublicationLabel n label;
     if recorded \<noteq> publicationLabel then None
     else do {
       nodeKeys \<leftarrow> node_of ks producerNodeIndex;
       (wireFinalizer, w) \<leftarrow> (if publicationLabel = nc_name n then Some (pk_wireFinalizer (nk_keys nodeKeys), w)
         else adoptOrCreateKey sv c BLS label w);
       Some (setOperator \<lparr>oa_label = label, oa_publicationLabel = publicationLabel, oa_account = Some label, oa_type = PRODUCER,
           oa_wire = pk_wire (nk_keys nodeKeys), oa_wireFinalizer = Some wireFinalizer, oa_ethereum = None, oa_solana = None\<rparr> ks, w)
     }
   })"

definition runIdentityMaterialization ::
    "'w key_services \<Rightarrow> cluster_config \<Rightarrow> string \<Rightarrow> operator_type \<Rightarrow> 'w keys_state \<Rightarrow> 'w keys_state option" where
  "runIdentityMaterialization sv c label t = (\<lambda>(ks, w).
     if \<not> (length label > 0 \<and> length label \<le> 12) then None
     else do {
       (wire, w) \<leftarrow> adoptOrCreateKey sv c K1 label w;
       (solana, w) \<leftarrow> adoptOrCreateKey sv c ED label w;
       (ethereum, w) \<leftarrow> adoptOrCreateKey sv c EM label w;
       (wireFinalizer, w) \<leftarrow> (if t = PRODUCER then map_option (\<lambda>(k, w). (Some k, w)) (adoptOrCreateKey sv c BLS label w)
         else Some (None, w));
       Some (setOperator \<lparr>oa_label = label, oa_publicationLabel = label, oa_account = None, oa_type = t, oa_wire = wire,
           oa_wireFinalizer = wireFinalizer, oa_ethereum = Some ethereum, oa_solana = Some solana\<rparr> ks, w)
     })"

text \<open>The genesis identities, seeded from the keys of the resolved configuration.\<close>

definition seedGenesisAccounts :: "key_pair \<Rightarrow> key_pair \<Rightarrow> key_pair \<Rightarrow> cluster_key_store \<Rightarrow> cluster_key_store" where
  "seedGenesisAccounts biosWire biosFinalizer nodeOwnerWire ks =
     setOperator \<lparr>oa_label = BOOTSTRAP_NODE_OWNER, oa_publicationLabel = BOOTSTRAP_NODE_OWNER,
         oa_account = Some BOOTSTRAP_NODE_OWNER, oa_type = UNKNOWN, oa_wire = nodeOwnerWire, oa_wireFinalizer = None,
         oa_ethereum = None, oa_solana = None\<rparr>
       (setOperator \<lparr>oa_label = BiosName, oa_publicationLabel = BiosName, oa_account = Some BiosProducer, oa_type = UNKNOWN,
         oa_wire = biosWire, oa_wireFinalizer = Some biosFinalizer, oa_ethereum = None, oa_solana = None\<rparr> ks)"

section \<open>Publishing\<close>

text \<open>\<open>PrivateKey.from\<close> throws on a missing key.\<close>

definition identityPrivateKey :: "operator_account \<Rightarrow> key_type \<Rightarrow> string option" where
  "identityPrivateKey a keyType =
     (case keyType of
        K1 \<Rightarrow> kp_privateKey (oa_wire a)
      | BLS \<Rightarrow> Option.bind (oa_wireFinalizer a) kp_privateKey
      | EM \<Rightarrow> Option.bind (oa_ethereum a) kp_privateKey
      | ED \<Rightarrow> Option.bind (oa_solana a) kp_privateKey
      | _ \<Rightarrow> None)"

definition assertPublishedKeyMatches :: "'w key_services \<Rightarrow> key_type \<Rightarrow> string \<Rightarrow> string \<Rightarrow> unit option" where
  "assertPublishedKeyMatches sv keyType existing nativePrivateKey = do {
     existingNative \<leftarrow> kv_fromNative sv keyType existing;
     if existingNative = nativePrivateKey then Some () else None
   }"

fun publish_regions :: "'w key_services \<Rightarrow> key_type \<Rightarrow> string \<Rightarrow> string \<Rightarrow> string list \<Rightarrow> 'w \<Rightarrow> 'w option" where
  "publish_regions sv keyType secretId native [] w = Some w"
| "publish_regions sv keyType secretId native (region # regions) w = do {
     existing \<leftarrow> tryGetParameter sv region secretId w;
     w \<leftarrow> (case existing of
         Some v \<Rightarrow> map_option (\<lambda>_. w) (assertPublishedKeyMatches sv keyType v native)
       | None \<Rightarrow> kv_put sv region secretId native w);
     publish_regions sv keyType secretId native regions w
   }"

definition runPublishSignatureProviderKey :: "'w key_services \<Rightarrow> key_publication \<Rightarrow> 'w keys_state \<Rightarrow> 'w keys_state option" where
  "runPublishSignatureProviderKey sv input = (\<lambda>(ks, w). do {
     operator \<leftarrow> operator_of ks (pb_label input);
     if oa_publicationLabel operator \<noteq> pb_publicationLabel input then None
     else do {
       privateKey \<leftarrow> identityPrivateKey operator (pb_keyType input);
       native \<leftarrow> kv_toNative sv privateKey;
       w \<leftarrow> publish_regions sv (pb_keyType input) (pb_secretId input) native (pb_awsRegions input) w;
       Some (ks, w)
     }
   })"

text \<open>One after another, stopping at the first step that fails, as the steps of a phase.\<close>

fun run_steps :: "('s \<Rightarrow> 's option) list \<Rightarrow> 's \<Rightarrow> 's option" where
  "run_steps [] s = Some s"
| "run_steps (f # fs) s = Option.bind (f s) (run_steps fs)"

definition publish_phase_keys :: "'w key_services \<Rightarrow> cluster_config \<Rightarrow> publish_phase \<Rightarrow> 'w keys_state \<Rightarrow> 'w keys_state option" where
  "publish_phase_keys sv c phase s = do {
     publications \<leftarrow> signatureProviderKeyPublications c;
     run_steps (map (runPublishSignatureProviderKey sv) (filter (\<lambda>p. pb_publishPhase p = phase) publications)) s
   }"

text \<open>The key work of a bootstrap up to the start of the first node: node keys, genesis producers, their publication.\<close>

definition producer_specs :: "cluster_config \<Rightarrow> (string \<times> int \<times> string) list option" where
  "producer_specs c =
     those (concat (map (\<lambda>n. map (\<lambda>label. map_option (\<lambda>l. (label, nc_index n, l)) (producerPublicationLabel n label))
       (nc_producers n)) (producerNodes c)))"

definition keys_before_nodes :: "'w key_services \<Rightarrow> cluster_config \<Rightarrow> 'w keys_state \<Rightarrow> 'w keys_state option" where
  "keys_before_nodes sv c s = do {
     specs \<leftarrow> producer_specs c;
     s \<leftarrow> runGenerateNodeKeys sv c s;
     s \<leftarrow> run_steps (map (\<lambda>(label, index, l). runProducerMaterialization sv c label index l) specs) s;
     if sg_type (cc_signatureProvider c) = SSM then publish_phase_keys sv c beforeNodes s else Some s
   }"

section \<open>The ids are distinct\<close>

definition DefaultSecretIdPattern :: string where "DefaultSecretIdPattern = ''/wire/{cluster}/{account}/{keyType}''"

lemma default_secret_id:
  "toSecretId DefaultSecretIdPattern s = Some (''/wire/'' @ su_cluster s @ ''/'' @ su_account s @ ''/'' @ su_keyType s)"
  by (simp add: DefaultSecretIdPattern_def toSecretId_def substitution_def isWordChar_def isDigit_def AsciiLower_def)

text \<open>An SSM configuration with the documented pattern, as the resolution of a configuration leaves it.\<close>

definition ssm_cluster :: "cluster_config \<Rightarrow> bool" where
  "ssm_cluster c \<longleftrightarrow>
     sg_type (cc_signatureProvider c) = SSM \<and> cc_awsClusterNodeConfig c \<noteq> None \<and>
     pred_option (\<lambda>ssm. so_awsSecretIdPattern ssm = DefaultSecretIdPattern \<and> so_awsRegions ssm \<noteq> Some [] \<and>
       so_awsRegions ssm \<noteq> None) (sg_ssm (cc_signatureProvider c)) \<and> sg_ssm (cc_signatureProvider c) \<noteq> None \<and>
     cc_batchOperatorCount c \<le> 26 \<and> cc_underwriterCount c \<le> 26 \<and> cc_producerCount c < 26 ^ 6 + 25"

definition cluster_regions :: "cluster_config \<Rightarrow> string list" where
  "cluster_regions c = (case replicationRegions c of Some rs \<Rightarrow> rs | None \<Rightarrow> [])"

definition secret_id :: "cluster_config \<Rightarrow> string \<Rightarrow> key_type \<Rightarrow> string" where
  "secret_id c account keyType =
     ''/wire/'' @ (case cc_awsClusterNodeConfig c of Some aws \<Rightarrow> aw_account aws | None \<Rightarrow> []) @ ''/'' @ account @ ''/'' @ key_type_name keyType"

lemma ssm_clusterE:
  assumes "ssm_cluster c"
  obtains ssm aws where "sg_type (cc_signatureProvider c) = SSM" "sg_ssm (cc_signatureProvider c) = Some ssm"
    "cc_awsClusterNodeConfig c = Some aws" "so_awsSecretIdPattern ssm = DefaultSecretIdPattern"
    "replicationRegions c = Some (cluster_regions c)" "cluster_regions c \<noteq> []"
  using assms by (auto simp: ssm_cluster_def cluster_regions_def replicationRegions_def)

lemma secret_id_inject: "secret_id c a k = secret_id c b l \<longleftrightarrow> a = b \<and> k = l"
proof
  assume "secret_id c a k = secret_id c b l"
  then have eq: "a @ CHR ''/'' # key_type_name k = b @ CHR ''/'' # key_type_name l" by (simp add: secret_id_def)
  have "CHR ''/'' \<notin> set (key_type_name k)" "CHR ''/'' \<notin> set (key_type_name l)" by (cases k; simp) (cases l; simp)
  then have "a = b \<and> key_type_name k = key_type_name l" using eq by (rule last_segment)
  then show "a = b \<and> k = l" by simp
qed simp

lemma signatureProviderSecretId_ssm: "ssm_cluster c \<Longrightarrow> signatureProviderSecretId c account k = Some (Some (secret_id c account k))"
  by (erule ssm_clusterE)
    (simp add: signatureProviderSecretId_def signatureProviderSource_def Let_def assertAWSAccountName_def default_secret_id
      keySource_def secret_id_def)

definition rendered :: "cluster_config \<Rightarrow> key_identity \<Rightarrow> key_type \<Rightarrow> key_publication" where
  "rendered c identity keyType =
     \<lparr>pb_publishPhase = ki_publishPhase identity, pb_label = ki_label identity, pb_publicationLabel = ki_publicationLabel identity,
      pb_keyType = keyType, pb_awsRegions = cluster_regions c, pb_secretId = secret_id c (ki_publicationLabel identity) keyType,
      pb_version = (case sg_ssm (cc_signatureProvider c) of Some ssm \<Rightarrow> so_version ssm | None \<Rightarrow> None)\<rparr>"

lemma rendered_simps [simp]:
  "pb_publishPhase (rendered c i k) = ki_publishPhase i" "pb_label (rendered c i k) = ki_label i"
  "pb_publicationLabel (rendered c i k) = ki_publicationLabel i" "pb_keyType (rendered c i k) = k"
  "pb_awsRegions (rendered c i k) = cluster_regions c" "pb_secretId (rendered c i k) = secret_id c (ki_publicationLabel i) k"
  by (simp_all add: rendered_def)

lemma publicationRenderer_ssm: "ssm_cluster c \<Longrightarrow> publicationRenderer c identity k = Some (rendered c identity k)"
  by (erule ssm_clusterE) (simp add: publicationRenderer_def default_secret_id rendered_def secret_id_def)

text \<open>Every pair of a producer node and an account it hosts.\<close>

definition hosted_pairs :: "cluster_config \<Rightarrow> (node_config \<times> string) list" where
  "hosted_pairs c = concat (map (\<lambda>n. map (Pair n) (nc_producers n)) (producerNodes c))"

definition publication_label :: "node_config \<Rightarrow> string \<Rightarrow> string" where
  "publication_label n label = (if length (nc_producers n) = 1 then nc_name n else label)"

lemma concat_map_pairs: "concat (map (\<lambda>n. map (f n) (h n)) ns) = map (\<lambda>(n, l). f n l) (concat (map (\<lambda>n. map (Pair n) (h n)) ns))"
  by (induction ns) (simp_all add: comp_def)

lemma producerNode_index: "n \<in> set (producerNodes c) \<Longrightarrow> nc_role n = producer_role \<and> 0 \<le> nc_index n"
  by (auto simp: producerNodes_eq producer_descriptor_def)

lemma hosted_label: "(n, l) \<in> set (hosted_pairs c) \<Longrightarrow>
    n \<in> set (producerNodes c) \<and> l \<in> set (nc_producers n) \<and> producerPublicationLabel n l = Some (publication_label n l)"
  using producerNode_index [of n c]
  by (auto simp: hosted_pairs_def producerPublicationLabel_def publication_label_def AdHocIndex_def)

definition hosted_identity :: "node_config \<times> string \<Rightarrow> key_identity" where
  "hosted_identity = (\<lambda>(n, l). \<lparr>ki_label = l, ki_publicationLabel = publication_label n l, ki_publishPhase = beforeNodes,
     ki_keyTypes = [K1, BLS]\<rparr>)"

definition genesis_identities :: "key_identity list" where
  "genesis_identities =
     [\<lparr>ki_label = BiosName, ki_publicationLabel = BiosName, ki_publishPhase = beforeNodes, ki_keyTypes = [K1, BLS]\<rparr>,
      \<lparr>ki_label = BOOTSTRAP_NODE_OWNER, ki_publicationLabel = BOOTSTRAP_NODE_OWNER, ki_publishPhase = beforeNodes, ki_keyTypes = [K1]\<rparr>]"

definition all_identities :: "cluster_config \<Rightarrow> key_identity list" where
  "all_identities c = genesis_identities @ map hosted_identity (hosted_pairs c)
     @ map (\<lambda>i. operatorKeyIdentity (batchOperatorLabel i) BATCH) [0..<cc_batchOperatorCount c]
     @ map (\<lambda>i. operatorKeyIdentity (underwriterLabel i) UNDERWRITER) [0..<cc_underwriterCount c]"

lemma key_identities_eq: "key_identities c = Some (all_identities c)"
proof -
  have "those (map (\<lambda>(n, l). producer_identity n l) (hosted_pairs c)) = Some (map hosted_identity (hosted_pairs c))"
    by (rule those_map_total) (auto dest: hosted_label simp: producer_identity_def hosted_identity_def)
  then have "those (concat (map (\<lambda>n. map (producer_identity n) (nc_producers n)) (producerNodes c))) =
      Some (map hosted_identity (hosted_pairs c))"
    by (simp only: hosted_pairs_def concat_map_pairs [of producer_identity nc_producers "producerNodes c"])
  then show ?thesis by (simp add: key_identities_def all_identities_def genesis_identities_def)
qed

definition all_publications :: "cluster_config \<Rightarrow> key_publication list" where
  "all_publications c = concat (map (\<lambda>i. map (rendered c i) (ki_keyTypes i)) (all_identities c))"

lemma producer_node_name: "n \<in> set (producerNodes c) \<Longrightarrow> \<exists>i. nc_name n = nodeName i"
  by (auto simp: producerNodes_eq producer_descriptor_def)

lemma account_name: "(n, l) \<in> set (hosted_pairs c) \<Longrightarrow> \<exists>i. l = producerName i"
  by (auto simp: hosted_pairs_def producerNodes_eq producer_descriptor_def hosted_producers_def)

lemma name_heads [simp]:
  "nodeName i \<noteq> producerNameIn False j" "producerNameIn False j \<noteq> nodeName i"
  "nodeName i \<noteq> batchOperatorLabel j" "nodeName i \<noteq> underwriterLabel j" "nodeName i \<noteq> BOOTSTRAP_NODE_OWNER"
  "producerNameIn False i \<noteq> batchOperatorLabel j" "producerNameIn False i \<noteq> underwriterLabel j"
  "producerNameIn False i \<noteq> BOOTSTRAP_NODE_OWNER" "producerNameIn False i \<noteq> BiosName"
  "batchOperatorLabel i \<noteq> underwriterLabel j" "BOOTSTRAP_NODE_OWNER \<noteq> batchOperatorLabel i" "BOOTSTRAP_NODE_OWNER \<noteq> underwriterLabel i"
  "BiosName \<noteq> batchOperatorLabel i" "BiosName \<noteq> underwriterLabel i" "BiosName \<noteq> BOOTSTRAP_NODE_OWNER"
  by (simp_all add: nodeName_def NodeNamePrefix_def producerNameIn_def batchOperatorLabel_def underwriterLabel_def
      BOOTSTRAP_NODE_OWNER_def BiosName_def Let_def)

lemma publication_label_cases:
  "(n, l) \<in> set (hosted_pairs c) \<Longrightarrow> (\<exists>i. publication_label n l = nodeName i) \<or> (publication_label n l = l \<and> (\<exists>i. l = producerName i))"
  by (auto simp: hosted_pairs_def publication_label_def producerNodes_eq producer_descriptor_def hosted_producers_def)

lemma distinct_accounts:
  assumes "ssm_cluster c"
  shows "distinct (map snd (hosted_pairs c))"
proof -
  have eq: "map snd (hosted_pairs c) = concat (map nc_producers (producerNodes c))"
    by (simp add: hosted_pairs_def map_concat comp_def)
  show ?thesis
  proof (cases "cp_producers (cluster_ports c) = []")
    case True
    then show ?thesis by (simp add: eq producerNodes_eq)
  next
    case False
    have "cc_producerCount c < 26 ^ 6 + 25" using assms by (simp add: ssm_cluster_def)
    then have "distinct (map producerName [0..<cc_producerCount c])"
      by (auto simp: distinct_map intro!: inj_onI elim!: producerName_inject [rotated 2])
    then show ?thesis unfolding eq
      using hosted_accounts_mset [OF False] by (metis mset_eq_imp_distinct_iff)
  qed
qed

lemma distinct_publication_labels:
  assumes "ssm_cluster c"
  shows "distinct (map (\<lambda>(n, l). publication_label n l) (hosted_pairs c))"
proof -
  have names: "distinct (map nc_name (producerNodes c))"
    using distinct_descriptor_names [of c] by (auto simp: producerNodes_def plan_config_of distinct_map_filter comp_def)
  have "inj_on (\<lambda>(n, l). publication_label n l) (set (hosted_pairs c))"
  proof (rule inj_onI, clarify)
    fix n l m k assume nl: "(n, l) \<in> set (hosted_pairs c)" and mk: "(m, k) \<in> set (hosted_pairs c)"
      and eq: "publication_label n l = publication_label m k"
    have same: "(n, l) = (m, k)" if "l = k"
      using distinct_key_eq [OF distinct_accounts [OF assms] nl mk] that by simp
    show "n = m \<and> l = k"
    proof (cases "length (nc_producers n) = 1 \<and> length (nc_producers m) = 1")
      case True
      then have "n = m" using eq distinct_key_eq [OF names] hosted_label [OF nl] hosted_label [OF mk]
        by (auto simp: publication_label_def)
      moreover have "l = k" using True hosted_label [OF nl] hosted_label [OF mk] \<open>n = m\<close>
        by (auto simp: length_Suc_conv)
      ultimately show ?thesis by simp
    next
      case False
      then show ?thesis
        using eq same publication_label_cases [OF nl] publication_label_cases [OF mk]
          producer_node_name [OF hosted_label [OF nl, THEN conjunct1]] producer_node_name [OF hosted_label [OF mk, THEN conjunct1]]
          account_name [OF nl] account_name [OF mk]
        by (auto simp: publication_label_def split: if_splits)
    qed
  qed
  moreover have "distinct (hosted_pairs c)" using distinct_accounts [OF assms] by (auto simp: distinct_map)
  ultimately show ?thesis by (simp add: distinct_map)
qed

lemma distinct_identity_labels:
  assumes "ssm_cluster c"
  shows "distinct (map ki_publicationLabel (all_identities c))"
proof -
  have counts: "cc_batchOperatorCount c \<le> 26" "cc_underwriterCount c \<le> 26" using assms by (auto simp: ssm_cluster_def)
  have ops: "distinct (map batchOperatorLabel [0..<cc_batchOperatorCount c])" "distinct (map underwriterLabel [0..<cc_underwriterCount c])"
    using counts by (auto simp: distinct_map inj_on_def operator_labels_inject)
  have hosted: "map ki_publicationLabel (map hosted_identity (hosted_pairs c)) = map (\<lambda>(n, l). publication_label n l) (hosted_pairs c)"
    by (simp add: hosted_identity_def case_prod_unfold)
  define H where "H = map (\<lambda>(n, l). publication_label n l) (hosted_pairs c)"
  have H: "distinct H" unfolding H_def by (rule distinct_publication_labels [OF assms])
  have others: "x \<noteq> BiosName" "x \<noteq> BOOTSTRAP_NODE_OWNER" "x \<noteq> batchOperatorLabel i" "x \<noteq> underwriterLabel i"
    if x: "x \<in> set H" for x i
  proof -
    obtain n l where "(n, l) \<in> set (hosted_pairs c)" "x = publication_label n l" using x by (auto simp: H_def)
    then consider k where "x = nodeName k" | k where "x = producerName k" using publication_label_cases by metis
    then show "x \<noteq> BiosName" "x \<noteq> BOOTSTRAP_NODE_OWNER" "x \<noteq> batchOperatorLabel i" "x \<noteq> underwriterLabel i"
      by (cases; simp)+
  qed
  have "map ki_publicationLabel (all_identities c) = [BiosName, BOOTSTRAP_NODE_OWNER] @ H
      @ map batchOperatorLabel [0..<cc_batchOperatorCount c] @ map underwriterLabel [0..<cc_underwriterCount c]"
    unfolding all_identities_def map_append hosted H_def by (simp add: genesis_identities_def operatorKeyIdentity_def comp_def)
  moreover have "batchOperatorLabel i \<notin> set H" "underwriterLabel i \<notin> set H" for i
    using others(3,4) by auto
  moreover have "BiosName \<notin> set H" "BOOTSTRAP_NODE_OWNER \<notin> set H" using others(1,2) by auto
  ultimately show ?thesis using ops H by (simp only:) auto
qed

lemma distinct_rendered_ids:
  assumes "distinct (map ki_publicationLabel ids)" and "\<And>i. i \<in> set ids \<Longrightarrow> distinct (ki_keyTypes i)"
  shows "distinct (map pb_secretId (concat (map (\<lambda>i. map (rendered c i) (ki_keyTypes i)) ids)))"
  using assms
proof (induction ids)
  case (Cons i ids)
  have "distinct (map (secret_id c (ki_publicationLabel i)) (ki_keyTypes i))"
    using Cons.prems(2) [of i] by (simp add: distinct_map inj_on_def secret_id_inject)
  moreover have "distinct (map pb_secretId (concat (map (\<lambda>i. map (rendered c i) (ki_keyTypes i)) ids)))"
    using Cons by simp
  ultimately show ?case
    using Cons.prems(1) by (auto simp: comp_def secret_id_inject)
qed simp

lemma identity_key_types: "i \<in> set (all_identities c) \<Longrightarrow> distinct (ki_keyTypes i)"
  by (auto simp: all_identities_def genesis_identities_def hosted_identity_def operatorKeyIdentity_def operatorKeyTypes_def
      OperatorKeyTypes_def)

lemma distinct_secret_ids: "ssm_cluster c \<Longrightarrow> distinct (map pb_secretId (all_publications c))"
  unfolding all_publications_def by (intro distinct_rendered_ids distinct_identity_labels identity_key_types)

lemma publications_eq:
  assumes "ssm_cluster c"
  shows "signatureProviderKeyPublications c = Some (all_publications c)"
proof -
  have "those (concat (map (\<lambda>i. map (publicationRenderer c i) (ki_keyTypes i)) ids)) =
      Some (concat (map (\<lambda>i. map (rendered c i) (ki_keyTypes i)) ids))" for ids
    using those_map_total [of "concat (map (\<lambda>i. map (Pair i) (ki_keyTypes i)) ids)" "\<lambda>(i, k). publicationRenderer c i k"
        "\<lambda>(i, k). rendered c i k"] publicationRenderer_ssm [OF assms]
    by (simp only: concat_map_pairs [of "publicationRenderer c" ki_keyTypes ids] concat_map_pairs [of "rendered c" ki_keyTypes ids]
        case_prod_unfold)
  then show ?thesis
    using distinct_secret_ids [OF assms]
    by (simp add: signatureProviderKeyPublications_def key_identities_eq all_publications_def)
qed

text \<open>For every SSM cluster with the documented pattern and rosters within the ceiling the walker plans its publications,
  and no two of them write to the same parameter.\<close>

theorem publications_never_collide:
  assumes "ssm_cluster c"
  shows "\<exists>ps. signatureProviderKeyPublications c = Some ps \<and> distinct (map pb_secretId ps) \<and>
    (\<forall>n \<in> set (producerNodes c). \<forall>l \<in> set (nc_producers n). \<forall>k \<in> {K1, BLS}. \<exists>p \<in> set ps.
       pb_label p = l \<and> pb_keyType p = k \<and> Some (pb_publicationLabel p) = producerPublicationLabel n l)"
proof -
  have "\<exists>p \<in> set (all_publications c). pb_label p = l \<and> pb_keyType p = k \<and> Some (pb_publicationLabel p) = producerPublicationLabel n l"
    if "n \<in> set (producerNodes c)" "l \<in> set (nc_producers n)" "k \<in> {K1, BLS}" for n l k
  proof -
    have "(n, l) \<in> set (hosted_pairs c)" using that by (auto simp: hosted_pairs_def)
    moreover from this have "producerPublicationLabel n l = Some (publication_label n l)" by (simp add: hosted_label)
    ultimately show ?thesis using that(3)
      by (intro bexI [of _ "rendered c (hosted_identity (n, l)) k"])
        (auto simp: hosted_identity_def all_publications_def all_identities_def intro!: bexI [of _ "(n, l)"])
  qed
  then show ?thesis
    by (intro exI [of _ "all_publications c"]) (simp add: publications_eq [OF assms] distinct_secret_ids [OF assms])
qed

text \<open>An SSM cluster with two regions; the argument says how many nodes the two accounts share.\<close>

definition ssm_example :: "nat \<Rightarrow> cluster_config" where
  "ssm_example nodes = example_config nodes 2
     \<lparr>sg_type = SSM, sg_ssm = Some \<lparr>so_awsRegions = Some [''us'', ''eu''], so_awsSecretIdPattern = DefaultSecretIdPattern, so_version = None\<rparr>\<rparr>"

lemma ssm_cluster_example [simp]: "ssm_cluster (ssm_example n)"
  by (simp add: ssm_cluster_def ssm_example_def example_config_def Let_def)

lemma publications_never_collide_witness:
  "\<exists>ps. signatureProviderKeyPublications (ssm_example 2) = Some ps \<and> distinct (map pb_secretId ps)"
  using publications_never_collide [OF ssm_cluster_example [of 2]] by blast

section \<open>Publishing never overwrites\<close>

text \<open>What \<open>PutParameter\<close> without \<open>Overwrite\<close> documents: it succeeds only for a name that does not exist in the region, and
  then that name, and no other, reads back what was put.\<close>

definition parameter_store :: "'w key_services \<Rightarrow> bool" where
  "parameter_store sv \<longleftrightarrow> (\<forall>region secretId v w w'. kv_put sv region secretId v w = Some w' \<longrightarrow>
     kv_get sv region secretId w = ParameterNotFound \<and>
     (\<forall>r i. kv_get sv r i w' = (if r = region \<and> i = secretId then Parameter (Some ''SecureString'') (Some v) else kv_get sv r i w)))"

text \<open>A native key text is one that is not empty, has no blanks around it and reads as itself.\<close>

definition native_text :: "'w key_services \<Rightarrow> key_type \<Rightarrow> string \<Rightarrow> bool" where
  "native_text sv k v \<longleftrightarrow> text_trim v = v \<and> v \<noteq> [] \<and> kv_fromNative sv k v = Some v"

lemma put_reads:
  assumes "parameter_store sv" "kv_put sv region i v w = Some w'" "native_text sv k v"
  shows "getParameter sv r j w' = (if r = region \<and> j = i then Got v else getParameter sv r j w)"
    and "getParameter sv region i w = Missing"
  using assms by (auto simp: parameter_store_def getParameter_def native_text_def Let_def)

lemma tryGet_eq:
  "tryGetParameter sv r i w = Some (Some v) \<longleftrightarrow> getParameter sv r i w = Got v"
  "tryGetParameter sv r i w = Some None \<longleftrightarrow> getParameter sv r i w = Missing"
  by (simp_all add: tryGetParameter_def split: lookup.splits)

lemma publish_regions_reads:
  assumes "parameter_store sv" "native_text sv k native" "publish_regions sv k i native regions w = Some w'"
  shows "(\<forall>r \<in> set regions. \<exists>v. getParameter sv r i w' = Got v \<and> kv_fromNative sv k v = Some native \<and>
      (v = native \<or> getParameter sv r i w = Got v)) \<and>
    (\<forall>r j. getParameter sv r j w' \<noteq> getParameter sv r j w \<longrightarrow>
      j = i \<and> getParameter sv r j w = Missing \<and> getParameter sv r j w' = Got native)"
  using assms(3)
proof (induction regions arbitrary: w)
  case (Cons region regions)
  obtain existing w1 where ex: "tryGetParameter sv region i w = Some existing"
    and w1: "(case existing of Some v \<Rightarrow> map_option (\<lambda>_. w) (assertPublishedKeyMatches sv k v native)
      | None \<Rightarrow> kv_put sv region i native w) = Some w1" and rest: "publish_regions sv k i native regions w1 = Some w'"
    using Cons.prems by (auto simp: bind_eq_Some_conv)
  note ih = Cons.IH [OF rest]
  show ?case
  proof (cases existing)
    case None
    then have put: "kv_put sv region i native w = Some w1" using w1 by simp
    note reads = put_reads [OF assms(1) put assms(2)]
    have "getParameter sv region i w1 = Got native" using reads(1) by simp
    then have "getParameter sv region i w' = Got native" using ih by (metis lookup.distinct(1))
    moreover have "kv_fromNative sv k native = Some native" using assms(2) by (simp add: native_text_def)
    moreover have "getParameter sv r i w1 = Got v \<Longrightarrow> v = native \<or> getParameter sv r i w = Got v" for r v
      using reads(1) by (auto split: if_splits)
    moreover have "j = i \<and> getParameter sv r j w = Missing \<and> getParameter sv r j w' = Got native"
      if "getParameter sv r j w' \<noteq> getParameter sv r j w" for r j
    proof (cases "getParameter sv r j w' = getParameter sv r j w1")
      case True
      then show ?thesis using that reads(1) [of r j] reads(2) by (auto split: if_splits)
    next
      case False
      then have "j = i" "getParameter sv r j w1 = Missing" "getParameter sv r j w' = Got native" using ih by blast+
      then show ?thesis using reads(1) [of r j] reads(2) by (auto split: if_splits)
    qed
    ultimately show ?thesis using ih by fastforce
  next
    case (Some v)
    then have got: "getParameter sv region i w = Got v" and same: "w1 = w" "kv_fromNative sv k v = Some native"
      using ex w1 by (auto simp: tryGet_eq assertPublishedKeyMatches_def bind_eq_Some_conv split: if_splits)
    moreover from this have "getParameter sv region i w' = Got v" using ih by (metis lookup.distinct(1))
    ultimately show ?thesis using ih by auto
  qed
qed simp

text \<open>C16: When the publication of a key succeeds, every region holds a parameter that reads as the key of this run, and no
  parameter that could be read before has changed.\<close>

theorem publication_never_overwrites:
  assumes store: "parameter_store sv"
    and native: "\<And>a pk n. operator_of ks (pb_label p) = Some a \<Longrightarrow> identityPrivateKey a (pb_keyType p) = Some pk \<Longrightarrow>
      kv_toNative sv pk = Some n \<Longrightarrow> native_text sv (pb_keyType p) n"
    and run: "runPublishSignatureProviderKey sv p (ks, w) = Some (ks', w')"
  shows "ks' = ks \<and>
    (\<exists>a pk n. operator_of ks (pb_label p) = Some a \<and> identityPrivateKey a (pb_keyType p) = Some pk \<and>
      kv_toNative sv pk = Some n \<and>
      (\<forall>r \<in> set (pb_awsRegions p). \<exists>v. getParameter sv r (pb_secretId p) w' = Got v \<and> kv_fromNative sv (pb_keyType p) v = Some n)) \<and>
    (\<forall>r i v. getParameter sv r i w = Got v \<longrightarrow> getParameter sv r i w' = Got v)"
proof -
  obtain a pk n where a: "operator_of ks (pb_label p) = Some a" "identityPrivateKey a (pb_keyType p) = Some pk"
    "kv_toNative sv pk = Some n" and pub: "publish_regions sv (pb_keyType p) (pb_secretId p) n (pb_awsRegions p) w = Some w'"
    and ks: "ks' = ks"
    using run by (auto simp: runPublishSignatureProviderKey_def bind_eq_Some_conv split: if_splits)
  note reads = publish_regions_reads [OF store native [OF a] pub]
  have "getParameter sv r i w' = Got v" if "getParameter sv r i w = Got v" for r i v
    using reads that by (metis lookup.distinct(1))
  then show ?thesis using a ks reads by blast
qed

section \<open>An example world\<close>

definition example_pair :: "key_type \<Rightarrow> string \<Rightarrow> key_pair" where
  "example_pair k v = \<lparr>kp_type = k, kp_publicKey = ''PUB_'' @ v, kp_privateKey = Some v, kp_awsSecretId = None,
     kp_proofOfPossession = None, kp_address = None\<rparr>"

definition example_services :: "(nat \<times> ((string \<times> string) \<times> string) list) key_services" where
  "example_services =
     \<lparr>kv_get = (\<lambda>r i w. case map_of (snd w) (r, i) of None \<Rightarrow> ParameterNotFound | Some v \<Rightarrow> Parameter (Some ''SecureString'') (Some v)),
      kv_put = (\<lambda>r i v w. if map_of (snd w) (r, i) = None then Some (fst w, ((r, i), v) # snd w) else None),
      kv_create = (\<lambda>k w. Some (example_pair k (key_type_name k @ decimal (fst w)), (Suc (fst w), snd w))),
      kv_pairFromPrivate = (\<lambda>k v. if text_trim v = v \<and> v \<noteq> [] then Some (example_pair k v) else None),
      kv_toNative = Some,
      kv_fromNative = (\<lambda>k v. Some v)\<rparr>"

definition example_genesis :: cluster_key_store where
  "example_genesis = seedGenesisAccounts (example_pair K1 ''a'') (example_pair BLS ''b'') (example_pair K1 ''c'') emptyKeyStore"

lemma example_store: "parameter_store example_services"
  by (auto simp: parameter_store_def example_services_def split: if_splits option.splits)

lemma publication_never_overwrites_witness:
  "\<exists>p w'. pb_awsRegions p = [''us'', ''eu''] \<and>
     runPublishSignatureProviderKey example_services p (example_genesis, (0, [((''us'', ''id''), ''a''), ((''us'', ''x''), ''y'')])) =
       Some (example_genesis, w') \<and>
     getParameter example_services ''us'' ''x'' w' = Got ''y'' \<and>
     (\<exists>v. getParameter example_services ''eu'' ''id'' w' = Got v)"
proof -
  define p where "p = \<lparr>pb_publishPhase = beforeNodes, pb_label = BiosName, pb_publicationLabel = BiosName, pb_keyType = K1,
    pb_awsRegions = [''us'', ''eu''], pb_secretId = ''id'', pb_version = None\<rparr>"
  let ?w = "(0, [((''us'', ''id''), ''a''), ((''us'', ''x''), ''y'')]) :: nat \<times> ((string \<times> string) \<times> string) list"
  have op: "map_option (\<lambda>a. identityPrivateKey a K1) (operator_of example_genesis BiosName) = Some (Some ''a'')" by code_simp
  have trim: "text_trim ''a'' = ''a''" by code_simp
  have run: "runPublishSignatureProviderKey example_services p (example_genesis, ?w) \<noteq> None" unfolding p_def by code_simp
  then obtain ks' w' where r: "runPublishSignatureProviderKey example_services p (example_genesis, ?w) = Some (ks', w')" by auto
  have native: "native_text example_services (pb_keyType p) n"
    if "operator_of example_genesis (pb_label p) = Some a" "identityPrivateKey a (pb_keyType p) = Some pk"
      "kv_toNative example_services pk = Some n" for a pk n
    using that op trim by (auto simp: p_def example_services_def native_text_def)
  have fact: "ks' = example_genesis \<and>
    (\<exists>a pk n. operator_of example_genesis (pb_label p) = Some a \<and> identityPrivateKey a (pb_keyType p) = Some pk \<and>
      kv_toNative example_services pk = Some n \<and> (\<forall>r \<in> set (pb_awsRegions p). \<exists>v.
        getParameter example_services r (pb_secretId p) w' = Got v \<and> kv_fromNative example_services (pb_keyType p) v = Some n)) \<and>
    (\<forall>r i v. getParameter example_services r i ?w = Got v \<longrightarrow> getParameter example_services r i w' = Got v)"
    by (rule publication_never_overwrites [OF example_store _ r]) (rule native)
  have "getParameter example_services ''us'' ''x'' ?w = Got ''y''" by code_simp
  then show ?thesis using fact r by (intro exI [of _ p] exI [of _ w']) (auto simp: p_def)
qed

section \<open>Two weak spots\<close>

text \<open>A placeholder is read as a member of the substitutions, and an object has members it inherits.\<close>

lemma inherited_placeholder: "toSecretId ''/wire/{constructor}'' s = Some ''/wire/function Object() { [native code] }''"
  by (simp add: toSecretId_def substitution_def prototype_text_def isWordChar_def isDigit_def AsciiLower_def)

text \<open>Publishing compares keys in their native form and adopting compares the parameters themselves: a key that was stored in
  another encoding is published on to a second region, and then read as two different values.\<close>

definition two_encodings :: "(nat \<times> ((string \<times> string) \<times> string) list) key_services" where
  "two_encodings = example_services\<lparr>kv_fromNative := (\<lambda>k v. Some (if v = ''other'' then ''a'' else v))\<rparr>"

lemma equivalent_copy_diverges:
  "\<exists>w. publish_regions two_encodings K1 ''id'' ''a'' [''us'', ''eu''] (0, [((''us'', ''id''), ''other'')]) = Some w \<and>
     getParameterAcrossRegions two_encodings [''us'', ''eu''] ''id'' w = None"
proof -
  have "case publish_regions two_encodings K1 ''id'' ''a'' [''us'', ''eu''] (0, [((''us'', ''id''), ''other'')]) of None \<Rightarrow> False
    | Some w \<Rightarrow> getParameterAcrossRegions two_encodings [''us'', ''eu''] ''id'' w = None" by code_simp
  then show ?thesis by (auto split: option.splits)
qed

end
