(* ===== verification/Key_Durability.thy ===== *)
theory Key_Durability
  imports Key_Publication
begin

text \<open>
  Two runs of \<open>cluster-tool\<close> in one AWS account, over the model of \<open>Key_Publication\<close>: the second adopts the keys the
  first one published when every producer node hosts one account, and fails when a node hosts several.
\<close>

section \<open>A second run in the same account\<close>

lemma producer_names_distinct: "distinct (map nc_name (producerNodes c))" "distinct (map nc_index (producerNodes c))"
proof -
  show "distinct (map nc_name (producerNodes c))"
    using distinct_descriptor_names [of c] by (auto simp: producerNodes_def plan_config_of distinct_map_filter comp_def)
  have "map nc_index (producerNodes c) = map int [0..<length (cp_producers (cluster_ports c))]"
    using map_enumerate_shift [of int 0 "cp_producers (cluster_ports c)"]
    by (simp add: producerNodes_eq producer_descriptor_def comp_def case_prod_unfold)
  then show "distinct (map nc_index (producerNodes c))" by (simp add: distinct_map)
qed

lemma shared_node_id_unpublished:
  assumes c: "ssm_cluster c" and n: "n \<in> set (producerNodes c)" and shared: "length (nc_producers n) \<noteq> 1"
  shows "secret_id c (nc_name n) k \<notin> pb_secretId ` set (all_publications c)"
proof -
  obtain j where j: "nc_name n = nodeName j" using producer_node_name [OF n] by blast
  have hosted: "publication_label m l \<noteq> nc_name n" if ml: "(m, l) \<in> set (hosted_pairs c)" for m l
  proof
    assume eq: "publication_label m l = nc_name n"
    note m = hosted_label [OF ml, THEN conjunct1]
    show False
    proof (cases "length (nc_producers m) = 1")
      case True
      then have "nc_name m = nc_name n" using eq by (simp add: publication_label_def)
      then show False using distinct_key_eq [OF producer_names_distinct(1) m n] True shared by simp
    next
      case False
      then have "l = nodeName j" using eq j by (simp add: publication_label_def)
      then show False using account_name [OF ml] by auto
    qed
  qed
  have neq: "ki_publicationLabel i \<noteq> nc_name n" if i: "i \<in> set (all_identities c)" for i
  proof -
    consider "i \<in> set genesis_identities" | m l where "(m, l) \<in> set (hosted_pairs c)" "i = hosted_identity (m, l)"
      | x where "i = operatorKeyIdentity (batchOperatorLabel x) BATCH" | x where "i = operatorKeyIdentity (underwriterLabel x) UNDERWRITER"
      using i by (auto simp: all_identities_def)
    then show ?thesis
    proof cases
      case 1
      then show ?thesis using name_heads(5) [of j, THEN not_sym] by (auto simp: genesis_identities_def j)
    next
      case (2 m l)
      then show ?thesis using hosted by (simp add: hosted_identity_def)
    qed (simp_all add: operatorKeyIdentity_def j name_heads [symmetric])
  qed
  show ?thesis
  proof
    assume "secret_id c (nc_name n) k \<in> pb_secretId ` set (all_publications c)"
    then obtain i k' where "i \<in> set (all_identities c)" "secret_id c (nc_name n) k = secret_id c (ki_publicationLabel i) k'"
      by (auto simp: all_publications_def)
    then show False using neq by (metis secret_id_inject)
  qed
qed

text \<open>The parameter that a node hosting several producers looks its own keys up under is never published, so every run
  generates them anew.\<close>

theorem shared_node_key_is_never_published:
  assumes c: "ssm_cluster c" and n: "n \<in> set (producerNodes c)" and shared: "length (nc_producers n) \<noteq> 1"
  shows "\<exists>ps i. signatureProviderKeyPublications c = Some ps \<and> signatureProviderSecretId c (nc_name n) k = Some (Some i) \<and>
    i \<notin> pb_secretId ` set ps"
  using shared_node_id_unpublished [OF assms] publications_eq [OF c] signatureProviderSecretId_ssm [OF c] by blast

lemma shared_node_key_is_never_published_witness:
  "\<exists>n ps i. n \<in> set (producerNodes (ssm_example 1)) \<and> signatureProviderKeyPublications (ssm_example 1) = Some ps \<and>
     signatureProviderSecretId (ssm_example 1) (nc_name n) K1 = Some (Some i) \<and> i \<notin> pb_secretId ` set ps"
proof -
  have "list_ex (\<lambda>n. length (nc_producers n) \<noteq> 1) (producerNodes (ssm_example 1))" by code_simp
  then obtain n where n: "n \<in> set (producerNodes (ssm_example 1))" "length (nc_producers n) \<noteq> 1" by (auto simp: list_ex_iff)
  then show ?thesis using shared_node_key_is_never_published [OF ssm_cluster_example n, of K1] by blast
qed

definition key_ok :: "'w key_services \<Rightarrow> key_type \<Rightarrow> key_pair \<Rightarrow> bool" where
  "key_ok sv k pair \<longleftrightarrow> (\<exists>pk v. kp_privateKey pair = Some pk \<and> kv_toNative sv pk = Some v \<and> native_text sv k v \<and>
     kv_pairFromPrivate sv k v = Some pair)"

text \<open>What \<open>keyPairFromPrivate\<close> documents: a pair read back from its native text is the pair that was created; and the
  generators do not touch SSM.\<close>

definition key_laws :: "'w key_services \<Rightarrow> bool" where
  "key_laws sv \<longleftrightarrow>
     (\<forall>k w pair w'. kv_create sv k w = Some (pair, w') \<longrightarrow> key_ok sv k pair \<and> (\<forall>r i. kv_get sv r i w' = kv_get sv r i w)) \<and>
     (\<forall>k v pair. kv_pairFromPrivate sv k v = Some pair \<longrightarrow> key_ok sv k pair)"

text \<open>Every region holds the pair under the account's name.\<close>

definition holds_key :: "'w key_services \<Rightarrow> cluster_config \<Rightarrow> 'w \<Rightarrow> key_type \<Rightarrow> string \<Rightarrow> key_pair \<Rightarrow> bool" where
  "holds_key sv c w k account pair \<longleftrightarrow> (\<exists>v. kv_pairFromPrivate sv k v = Some pair \<and>
     (\<forall>r \<in> set (cluster_regions c). getParameter sv r (secret_id c account k) w = Got v))"

lemma present_parameters_all:
  "(\<forall>r \<in> set rs. getParameter sv r i w = Got v) \<Longrightarrow> present_parameters sv rs i w = Some (map (\<lambda>r. (r, v)) rs)"
  by (induction rs) (auto simp: tryGetParameter_def)

lemma adopt_held:
  assumes "ssm_cluster c" "holds_key sv c w k account pair"
  shows "adoptOrCreateKey sv c k account w = Some (pair, w)"
proof -
  obtain v where v: "kv_pairFromPrivate sv k v = Some pair"
    "\<forall>r \<in> set (cluster_regions c). getParameter sv r (secret_id c account k) w = Got v"
    using assms(2) by (auto simp: holds_key_def)
  obtain r rs where rs: "cluster_regions c = r # rs" "replicationRegions c = Some (r # rs)"
    using assms(1) by (elim ssm_clusterE) (metis list.exhaust)
  have "getParameterAcrossRegions sv (r # rs) (secret_id c account k) w = Some (Some v)"
    unfolding getParameterAcrossRegions_def using present_parameters_all [OF v(2)] rs
    by (simp add: list_all_iff del: present_parameters.simps)
  then show ?thesis using v rs
    by (simp add: adoptOrCreateKey_def signatureProviderSecretId_ssm [OF assms(1)])
qed

lemma adopt_key_ok:
  assumes "key_laws sv" "adoptOrCreateKey sv c k account w = Some (pair, w')"
  shows "key_ok sv k pair \<and> (\<forall>r i. getParameter sv r i w' = getParameter sv r i w)"
  using assms by (auto simp: key_laws_def adoptOrCreateKey_def getParameter_def bind_eq_Some_conv split: option.splits)

lemma generate_nodes_ok:
  assumes "key_laws sv" "generate_nodes sv c ns w = Some (keys, w')"
  shows "list_all2 (\<lambda>n nk. nk_index nk = nc_index n \<and> key_ok sv K1 (pk_wire (nk_keys nk)) \<and> key_ok sv BLS (pk_wireFinalizer (nk_keys nk))) ns keys \<and>
    (\<forall>r i. getParameter sv r i w' = getParameter sv r i w)"
  using assms(2)
proof (induction ns arbitrary: w keys)
  case (Cons n ns)
  then show ?case
    by (fastforce simp: bind_eq_Some_conv adoptOrCreateProducerKeySet_def dest!: adopt_key_ok [OF assms(1)])
qed simp

lemma generate_nodes_held:
  assumes "ssm_cluster c"
    and "list_all2 (\<lambda>n nk. nk_index nk = nc_index n \<and> holds_key sv c w K1 (nc_name n) (pk_wire (nk_keys nk)) \<and>
      holds_key sv c w BLS (nc_name n) (pk_wireFinalizer (nk_keys nk))) ns keys"
  shows "generate_nodes sv c ns w = Some (keys, w)"
  using assms(2)
  by (induction rule: list_all2_induct) (auto simp: adoptOrCreateProducerKeySet_def adopt_held [OF assms(1)])

definition own_nodes :: "cluster_config \<Rightarrow> bool" where
  "own_nodes c \<longleftrightarrow> (\<forall>n \<in> set (producerNodes c). length (nc_producers n) = 1)"

definition sole_account :: "cluster_key_store \<Rightarrow> node_config \<times> string \<Rightarrow> operator_account" where
  "sole_account ks = (\<lambda>(n, l). let keys = nk_keys (the (node_of ks (nc_index n))) in
     \<lparr>oa_label = l, oa_publicationLabel = nc_name n, oa_account = Some l, oa_type = PRODUCER, oa_wire = pk_wire keys,
      oa_wireFinalizer = Some (pk_wireFinalizer keys), oa_ethereum = None, oa_solana = None\<rparr>)"

lemma node_of_setOperator [simp]: "node_of (setOperator a ks) = node_of ks"
  by (simp add: node_of_def setOperator_def fun_eq_iff)

lemma planned_producer_node: "n \<in> set (producerNodes c) \<Longrightarrow> assertPlannedProducerNode c (nc_index n) = Some n"
proof -
  assume n: "n \<in> set (producerNodes c)"
  have eq: "List.find (\<lambda>m. nc_role m = producer_role \<and> nc_index m = nc_index n) ms =
      List.find (\<lambda>m. nc_index m = nc_index n) (filter (\<lambda>m. nc_role m = producer_role) ms)" for ms
    by (induction ms) auto
  show ?thesis unfolding assertPlannedProducerNode_def eq
    using find_key [OF producer_names_distinct(2) n] by (simp add: producerNodes_def)
qed

lemma materialize_sole:
  assumes "own_nodes c" "(n, l) \<in> set (hosted_pairs c)" "node_of ks (nc_index n) \<noteq> None"
  shows "runProducerMaterialization sv c l (nc_index n) (publication_label n l) (ks, w) =
    Some (setOperator (sole_account ks (n, l)) ks, w)"
proof -
  have "length (nc_producers n) = 1" using assms(1) hosted_label [OF assms(2)] by (auto simp: own_nodes_def)
  then have "publication_label n l = nc_name n" by (simp add: publication_label_def)
  moreover obtain nk where "node_of ks (nc_index n) = Some nk" using assms(3) by blast
  ultimately show ?thesis
    using planned_producer_node [of n c] hosted_label [OF assms(2)]
    by (simp add: runProducerMaterialization_def sole_account_def Let_def)
qed

lemma materialize_all_sole:
  assumes "own_nodes c" "set pairs \<subseteq> set (hosted_pairs c)" "\<And>n. n \<in> set (producerNodes c) \<Longrightarrow> node_of ks (nc_index n) \<noteq> None"
  shows "run_steps (map (\<lambda>(label, index, l). runProducerMaterialization sv c label index l)
      (map (\<lambda>(n, l). (l, nc_index n, publication_label n l)) pairs)) (ks, w)
    = Some (fold setOperator (map (sole_account ks) pairs) ks, w)"
  using assms(2,3)
proof (induction pairs arbitrary: ks)
  case (Cons p pairs)
  obtain n l where p: "p = (n, l)" by (cases p)
  have nl: "(n, l) \<in> set (hosted_pairs c)" using Cons.prems(1) p by simp
  have node: "node_of ks (nc_index n) \<noteq> None" using Cons.prems(2) hosted_label [OF nl] by blast
  have "sole_account (setOperator a ks) = sole_account ks" for a by (simp add: sole_account_def fun_eq_iff)
  then show ?case using Cons p materialize_sole [OF assms(1) nl node, where sv = sv and w = w] by simp
qed simp

lemma producer_specs_eq: "producer_specs c = Some (map (\<lambda>(n, l). (l, nc_index n, publication_label n l)) (hosted_pairs c))"
proof -
  have "those (map (\<lambda>(n, label). map_option (\<lambda>l. (label, nc_index n, l)) (producerPublicationLabel n label)) (hosted_pairs c)) =
    Some (map (\<lambda>(n, l). (l, nc_index n, publication_label n l)) (hosted_pairs c))"
    by (rule those_map_total) (auto dest: hosted_label)
  then show ?thesis
    unfolding producer_specs_def hosted_pairs_def
    by (simp only: concat_map_pairs [of "\<lambda>n label. map_option (\<lambda>l. (label, nc_index n, l)) (producerPublicationLabel n label)"
          nc_producers "producerNodes c"])
qed

section \<open>A list of publications\<close>

text \<open>What a publication finds in the key store and leaves in SSM.\<close>

definition published_as :: "'w key_services \<Rightarrow> cluster_key_store \<Rightarrow> key_publication \<Rightarrow> string \<Rightarrow> bool" where
  "published_as sv ks p v \<longleftrightarrow> (\<exists>a pk. operator_of ks (pb_label p) = Some a \<and> oa_publicationLabel a = pb_publicationLabel p \<and>
     identityPrivateKey a (pb_keyType p) = Some pk \<and> kv_toNative sv pk = Some v)"

definition canonical :: "'w key_services \<Rightarrow> key_publication list \<Rightarrow> 'w \<Rightarrow> bool" where
  "canonical sv ps w \<longleftrightarrow> (\<forall>p \<in> set ps. \<forall>r v. getParameter sv r (pb_secretId p) w = Got v \<longrightarrow> native_text sv (pb_keyType p) v)"

lemma run_publication_iff:
  "runPublishSignatureProviderKey sv p (ks, w) = Some s \<longleftrightarrow> (\<exists>v w'. s = (ks, w') \<and> published_as sv ks p v \<and>
     publish_regions sv (pb_keyType p) (pb_secretId p) v (pb_awsRegions p) w = Some w')"
  by (auto simp: runPublishSignatureProviderKey_def published_as_def bind_eq_Some_conv split: if_splits)

lemma publish_regions_held:
  "native_text sv k v \<Longrightarrow> (\<forall>r \<in> set rs. getParameter sv r i w = Got v) \<Longrightarrow> publish_regions sv k i v rs w = Some w"
  by (induction rs) (auto simp: tryGetParameter_def assertPublishedKeyMatches_def native_text_def)

lemma publications_held:
  assumes "\<And>p. p \<in> set ps \<Longrightarrow> \<exists>v. published_as sv ks p v \<and> native_text sv (pb_keyType p) v \<and>
    (\<forall>r \<in> set (pb_awsRegions p). getParameter sv r (pb_secretId p) w = Got v)"
  shows "run_steps (map (runPublishSignatureProviderKey sv) ps) (ks, w) = Some (ks, w)"
  using assms
proof (induction ps)
  case (Cons p ps)
  obtain v where "published_as sv ks p v" "native_text sv (pb_keyType p) v"
    "\<forall>r \<in> set (pb_awsRegions p). getParameter sv r (pb_secretId p) w = Got v" using Cons.prems [of p] by auto
  then have "runPublishSignatureProviderKey sv p (ks, w) = Some (ks, w)"
    by (auto simp: run_publication_iff intro: publish_regions_held)
  moreover have "run_steps (map (runPublishSignatureProviderKey sv) ps) (ks, w) = Some (ks, w)"
    by (rule Cons.IH) (simp add: Cons.prems)
  ultimately show ?case by simp
qed simp

lemma publications_hold:
  assumes store: "parameter_store sv"
    and native: "\<And>p v. p \<in> set ps \<Longrightarrow> published_as sv ks p v \<Longrightarrow> native_text sv (pb_keyType p) v"
    and "distinct (map pb_secretId ps)" "canonical sv ps w"
    and "run_steps (map (runPublishSignatureProviderKey sv) ps) (ks, w) = Some (ks', w')"
  shows "ks' = ks \<and> (\<forall>r i v. getParameter sv r i w = Got v \<longrightarrow> getParameter sv r i w' = Got v) \<and>
    (\<forall>p \<in> set ps. \<exists>v. published_as sv ks p v \<and> (\<forall>r \<in> set (pb_awsRegions p). getParameter sv r (pb_secretId p) w' = Got v))"
  using assms(2-)
proof (induction ps arbitrary: w)
  case (Cons p ps)
  obtain v w1 where v: "published_as sv ks p v"
    and pub: "publish_regions sv (pb_keyType p) (pb_secretId p) v (pb_awsRegions p) w = Some w1"
    and rest: "run_steps (map (runPublishSignatureProviderKey sv) ps) (ks, w1) = Some (ks', w')"
    using Cons.prems(4) by (auto simp: bind_eq_Some_conv run_publication_iff)
  have nv: "native_text sv (pb_keyType p) v" using Cons.prems(1) v by simp
  note reads = publish_regions_reads [OF store nv pub]
  have keep: "getParameter sv r i w1 = Got u" if "getParameter sv r i w = Got u" for r i u
    using reads that by (metis lookup.distinct(1))
  have others: "getParameter sv r i w1 = getParameter sv r i w" if "i \<noteq> pb_secretId p" for r i
    using reads that by metis
  have all: "getParameter sv r (pb_secretId p) w1 = Got v" if r: "r \<in> set (pb_awsRegions p)" for r
  proof -
    obtain u where u: "getParameter sv r (pb_secretId p) w1 = Got u" "kv_fromNative sv (pb_keyType p) u = Some v"
      "u = v \<or> getParameter sv r (pb_secretId p) w = Got u" using reads r by blast
    then show ?thesis using Cons.prems(3) by (auto simp: canonical_def native_text_def)
  qed
  have "canonical sv ps w1"
    using Cons.prems(2,3) others by (auto simp: canonical_def image_iff)
  note ih = Cons.IH [OF Cons.prems(1) _ this rest]
  show ?case using ih Cons.prems(2) keep all v by auto
qed simp

section \<open>The second run adopts the node keys\<close>

lemma find_label_None: "k \<notin> f ` set xs \<Longrightarrow> List.find (\<lambda>a. f a = k) xs = None"
  by (induction xs) auto

lemma operator_of_fold:
  assumes "distinct (map oa_label as)"
  shows "operator_of (fold setOperator as ks) l =
    (case List.find (\<lambda>a. oa_label a = l) as of Some a \<Rightarrow> Some a | None \<Rightarrow> operator_of ks l)"
  using assms
proof (induction as arbitrary: ks)
  case (Cons a as)
  then have "l = oa_label a \<Longrightarrow> List.find (\<lambda>a. oa_label a = l) as = None" by (simp add: find_label_None)
  then show ?case using Cons by (auto simp: operator_of_setOperator split: option.splits)
qed simp

lemma find_generated:
  assumes "list_all2 (\<lambda>n nk. nk_index nk = nc_index n \<and> P n nk) ns keys" "distinct (map nc_index ns)" "n \<in> set ns"
  shows "\<exists>nk. List.find (\<lambda>k. nk_index k = nc_index n) keys = Some nk \<and> P n nk"
  using assms
proof (induction rule: list_all2_induct)
  case (Cons m ns nk keys)
  show ?case
  proof (cases "n = m")
    case False
    then have "n \<in> set ns" "nc_index m \<noteq> nc_index n" using Cons.prems by (auto simp: image_iff)
    then show ?thesis using Cons by auto
  qed (use Cons in auto)
qed simp

text \<open>The key store that a run's first two steps leave: the node keys, then one account for each node.\<close>

definition materialized :: "cluster_config \<Rightarrow> cluster_key_store \<Rightarrow> cluster_key_store" where
  "materialized c ks = fold setOperator (map (sole_account ks) (hosted_pairs c)) ks"

definition genesis_keys_ok :: "'w key_services \<Rightarrow> cluster_key_store \<Rightarrow> bool" where
  "genesis_keys_ok sv ks \<longleftrightarrow>
     (\<exists>a f. operator_of ks BiosName = Some a \<and> oa_publicationLabel a = BiosName \<and> key_ok sv K1 (oa_wire a) \<and>
       oa_wireFinalizer a = Some f \<and> key_ok sv BLS f) \<and>
     (\<exists>a. operator_of ks BOOTSTRAP_NODE_OWNER = Some a \<and> oa_publicationLabel a = BOOTSTRAP_NODE_OWNER \<and> key_ok sv K1 (oa_wire a))"

definition node_keys_ok :: "'w key_services \<Rightarrow> cluster_config \<Rightarrow> cluster_key_store \<Rightarrow> bool" where
  "node_keys_ok sv c ks \<longleftrightarrow> (\<forall>n \<in> set (producerNodes c). \<exists>nk. node_of ks (nc_index n) = Some nk \<and>
     key_ok sv K1 (pk_wire (nk_keys nk)) \<and> key_ok sv BLS (pk_wireFinalizer (nk_keys nk)))"

lemma sole_account_label [simp]: "oa_label (sole_account ks p) = snd p"
  by (simp add: sole_account_def Let_def split: prod.splits)

lemma materialized_operator:
  assumes "ssm_cluster c"
  shows "(n, l) \<in> set (hosted_pairs c) \<Longrightarrow> operator_of (materialized c ks) l = Some (sole_account ks (n, l))"
    and "l \<notin> snd ` set (hosted_pairs c) \<Longrightarrow> operator_of (materialized c ks) l = operator_of ks l"
proof -
  have labels: "map oa_label (map (sole_account ks) (hosted_pairs c)) = map snd (hosted_pairs c)" by simp
  have d: "distinct (map oa_label (map (sole_account ks) (hosted_pairs c)))"
    unfolding labels by (rule distinct_accounts [OF assms])
  show "operator_of (materialized c ks) l = Some (sole_account ks (n, l))" if "(n, l) \<in> set (hosted_pairs c)"
    using find_key [OF d, of "sole_account ks (n, l)"] that by (simp add: materialized_def operator_of_fold [OF d])
  show "operator_of (materialized c ks) l = operator_of ks l" if "l \<notin> snd ` set (hosted_pairs c)"
    using find_label_None [of l oa_label "map (sole_account ks) (hosted_pairs c)"] that
    by (simp add: materialized_def operator_of_fold [OF d] image_image)
qed

definition first_publications :: "cluster_config \<Rightarrow> key_publication list" where
  "first_publications c = filter (\<lambda>p. pb_publishPhase p = beforeNodes) (all_publications c)"

lemma first_publication_cases:
  assumes "p \<in> set (first_publications c)"
  obtains (bios) k where "k \<in> {K1, BLS}" "pb_label p = BiosName" "pb_publicationLabel p = BiosName" "pb_keyType p = k"
  | (owner) "pb_label p = BOOTSTRAP_NODE_OWNER" "pb_publicationLabel p = BOOTSTRAP_NODE_OWNER" "pb_keyType p = K1"
  | (hosted) n l k where "(n, l) \<in> set (hosted_pairs c)" "k \<in> {K1, BLS}" "pb_label p = l" "pb_publicationLabel p = publication_label n l"
      "pb_keyType p = k"
  using assms
  by (fastforce simp: first_publications_def all_publications_def all_identities_def genesis_identities_def hosted_identity_def
      operatorKeyIdentity_def)

text \<open>The pair that a publication before the nodes start writes.\<close>

definition pair_of :: "cluster_key_store \<Rightarrow> key_publication \<Rightarrow> key_pair" where
  "pair_of ks p = (let a = the (operator_of ks (pb_label p))
     in if pb_keyType p = K1 then oa_wire a else the (oa_wireFinalizer a))"

lemma publication_pair:
  assumes c: "ssm_cluster c" "own_nodes c" and ok: "genesis_keys_ok sv ks" "node_keys_ok sv c ks"
    and p: "p \<in> set (first_publications c)"
  shows "\<exists>a. operator_of (materialized c ks) (pb_label p) = Some a \<and> oa_publicationLabel a = pb_publicationLabel p \<and>
    identityPrivateKey a (pb_keyType p) = kp_privateKey (pair_of (materialized c ks) p) \<and>
    key_ok sv (pb_keyType p) (pair_of (materialized c ks) p)"
  using p
proof (cases rule: first_publication_cases)
  case (bios k)
  have "BiosName \<notin> snd ` set (hosted_pairs c)" by (auto dest!: account_name simp: name_heads(9) [THEN not_sym])
  note op = materialized_operator(2) [OF c(1) this, of ks]
  then show ?thesis using bios ok(1) by (auto simp: genesis_keys_ok_def identityPrivateKey_def pair_of_def)
next
  case owner
  have "BOOTSTRAP_NODE_OWNER \<notin> snd ` set (hosted_pairs c)" by (auto dest!: account_name simp: name_heads(8) [THEN not_sym])
  note op = materialized_operator(2) [OF c(1) this, of ks]
  then show ?thesis using owner ok(1) by (auto simp: genesis_keys_ok_def identityPrivateKey_def pair_of_def)
next
  case (hosted n l k)
  have n: "n \<in> set (producerNodes c)" using hosted_label [OF hosted(1)] by blast
  then obtain nk where "node_of ks (nc_index n) = Some nk" "key_ok sv K1 (pk_wire (nk_keys nk))"
    "key_ok sv BLS (pk_wireFinalizer (nk_keys nk))" using ok(2) by (auto simp: node_keys_ok_def)
  moreover have "publication_label n l = nc_name n" using n c(2) by (simp add: own_nodes_def publication_label_def)
  ultimately show ?thesis using hosted materialized_operator(1) [OF c(1) hosted(1), of ks]
    by (auto simp: sole_account_def Let_def identityPrivateKey_def pair_of_def)
qed

lemma publication_native:
  assumes "ssm_cluster c" "own_nodes c" "genesis_keys_ok sv ks" "node_keys_ok sv c ks" "p \<in> set (first_publications c)"
    and "published_as sv (materialized c ks) p v"
  shows "native_text sv (pb_keyType p) v \<and> kv_pairFromPrivate sv (pb_keyType p) v = Some (pair_of (materialized c ks) p)"
  using publication_pair [OF assms(1-5)] assms(6) by (auto simp: published_as_def key_ok_def)

lemma first_publications_regions: "p \<in> set (first_publications c) \<Longrightarrow> pb_awsRegions p = cluster_regions c"
  by (auto simp: first_publications_def all_publications_def)

lemma first_publications_distinct: "ssm_cluster c \<Longrightarrow> distinct (map pb_secretId (first_publications c))"
  using distinct_secret_ids [of c] by (simp add: first_publications_def distinct_map_filter)

lemma hosted_publication:
  assumes "own_nodes c" "n \<in> set (producerNodes c)" "k \<in> {K1, BLS}"
  obtains l p where "(n, l) \<in> set (hosted_pairs c)" "p \<in> set (first_publications c)" "pb_label p = l" "pb_keyType p = k"
    "pb_secretId p = secret_id c (nc_name n) k"
proof -
  have one: "length (nc_producers n) = 1" using assms by (simp add: own_nodes_def)
  then obtain l where "nc_producers n = [l]" by (auto simp: length_Suc_conv)
  then have nl: "(n, l) \<in> set (hosted_pairs c)" using assms(2) by (auto simp: hosted_pairs_def intro!: bexI [of _ n])
  have mem: "rendered c (hosted_identity (n, l)) k \<in> set (first_publications c)"
    using nl assms(3) by (auto simp: first_publications_def all_publications_def all_identities_def hosted_identity_def intro!: bexI [of _ "(n, l)"])
  show ?thesis using that [OF nl mem] one by (simp add: hosted_identity_def publication_label_def)
qed

lemma keys_before_nodes_eq:
  assumes "ssm_cluster c" "own_nodes c"
    and "generate_nodes sv c (producerNodes c) w = Some (keys, w1)" "node_keys_ok sv c (pushNodes keys ks)"
  shows "keys_before_nodes sv c (ks, w) =
    run_steps (map (runPublishSignatureProviderKey sv) (first_publications c)) (materialized c (pushNodes keys ks), w1)"
proof -
  have "node_of (pushNodes keys ks) (nc_index n) \<noteq> None" if "n \<in> set (producerNodes c)" for n
    using assms(4) that by (auto simp: node_keys_ok_def)
  note mat = materialize_all_sole [OF assms(2) subset_refl this, of sv w1]
  have "sg_type (cc_signatureProvider c) = SSM" using assms(1) by (simp add: ssm_cluster_def)
  then show ?thesis
    using assms(3) mat
    by (simp add: keys_before_nodes_def producer_specs_eq runGenerateNodeKeys_def publish_phase_keys_def publications_eq [OF assms(1)]
        first_publications_def materialized_def)
qed

text \<open>
  C17: The node keys survive a second run. Let every producer node host one account, both runs start from the same genesis
  accounts, and the parameters there were before hold key texts as the codec writes them (\<open>canonical\<close>; else
  \<open>equivalent_copy_diverges\<close>). If the first run of the key work before the nodes start succeeded, a second one on the
  parameters it left ends in the same key store and writes nothing: each node's signing and finalizer key is adopted, each
  publication of a genesis or producer key finds its own. Operators' keys, made later, are not covered.
\<close>

theorem second_run_adopts_node_keys:
  assumes c: "ssm_cluster c" "own_nodes c" and sv: "parameter_store sv" "key_laws sv"
    and ks: "ks_nodeList ks = []" "genesis_keys_ok sv ks" and w: "canonical sv (first_publications c) w"
    and run: "keys_before_nodes sv c (ks, w) = Some (ks', w')"
  shows "keys_before_nodes sv c (ks, w') = Some (ks', w')"
proof -
  obtain keys w1 where gen: "generate_nodes sv c (producerNodes c) w = Some (keys, w1)"
    using run by (auto simp: keys_before_nodes_def runGenerateNodeKeys_def bind_eq_Some_conv)
  note gen_ok = generate_nodes_ok [OF sv(2) gen]
  let ?ks = "pushNodes keys ks"
  have nodes: "node_keys_ok sv c ?ks"
    using find_generated [OF gen_ok [THEN conjunct1] producer_names_distinct(2)] ks(1)
    by (simp add: node_keys_ok_def node_of_def pushNodes_def)
  have genesis: "genesis_keys_ok sv ?ks" using ks(2) by (simp add: genesis_keys_ok_def)
  have "canonical sv (first_publications c) w1" using w gen_ok by (simp add: canonical_def)
  note hold = publications_hold [OF sv(1) publication_native [OF c genesis nodes, THEN conjunct1]
      first_publications_distinct [OF c(1)] this run [unfolded keys_before_nodes_eq [OF c gen nodes]]]
  then have ks': "ks' = materialized c ?ks" by blast
  have published: "\<exists>v. published_as sv ks' p v \<and> native_text sv (pb_keyType p) v \<and>
      kv_pairFromPrivate sv (pb_keyType p) v = Some (pair_of ks' p) \<and>
      (\<forall>r \<in> set (cluster_regions c). getParameter sv r (pb_secretId p) w' = Got v)" if "p \<in> set (first_publications c)" for p
    using hold that publication_native [OF c genesis nodes that] first_publications_regions [OF that] by (fastforce simp: ks')
  have held: "holds_key sv c w' k (nc_name n) (if k = K1 then pk_wire (nk_keys nk) else pk_wireFinalizer (nk_keys nk))"
    if "n \<in> set (producerNodes c)" "k \<in> {K1, BLS}" and nk: "node_of ?ks (nc_index n) = Some nk" for n k nk
  proof -
    obtain l p where p: "(n, l) \<in> set (hosted_pairs c)" "p \<in> set (first_publications c)" "pb_label p = l" "pb_keyType p = k"
      "pb_secretId p = secret_id c (nc_name n) k" using hosted_publication [OF c(2) \<open>n \<in> set (producerNodes c)\<close> \<open>k \<in> {K1, BLS}\<close>] by blast
    have "pair_of ks' p = (if k = K1 then pk_wire (nk_keys nk) else pk_wireFinalizer (nk_keys nk))"
      using materialized_operator(1) [OF c(1) p(1), of ?ks] nk p by (simp add: pair_of_def ks' sole_account_def Let_def)
    then show ?thesis using published [OF p(2)] p(4,5) by (auto simp: holds_key_def)
  qed
  have "list_all2 (\<lambda>n nk. nk_index nk = nc_index n \<and> holds_key sv c w' K1 (nc_name n) (pk_wire (nk_keys nk)) \<and>
      holds_key sv c w' BLS (nc_name n) (pk_wireFinalizer (nk_keys nk))) (producerNodes c) keys"
  proof (rule list_all2_all_nthI)
    show len: "length (producerNodes c) = length keys" using gen_ok list_all2_lengthD by blast
    have index: "nk_index (keys ! i) = nc_index (producerNodes c ! i)" if "i < length keys" for i
      using gen_ok that list_all2_nthD2 by fastforce
    then have "map nk_index keys = map nc_index (producerNodes c)" using len by (intro nth_equalityI) simp_all
    then have d: "distinct (map nk_index keys)" using producer_names_distinct(2) by simp
    fix i assume i: "i < length (producerNodes c)"
    have "node_of ?ks (nc_index (producerNodes c ! i)) = Some (keys ! i)"
      using find_key [OF d, of "keys ! i"] i len index [of i] ks(1) by (simp add: node_of_def pushNodes_def)
    then show "nk_index (keys ! i) = nc_index (producerNodes c ! i) \<and>
        holds_key sv c w' K1 (nc_name (producerNodes c ! i)) (pk_wire (nk_keys (keys ! i))) \<and>
        holds_key sv c w' BLS (nc_name (producerNodes c ! i)) (pk_wireFinalizer (nk_keys (keys ! i)))"
      using held [of "producerNodes c ! i" K1 "keys ! i"] held [of "producerNodes c ! i" BLS "keys ! i"] i len index [of i] by simp
  qed
  note again = generate_nodes_held [OF c(1) this]
  show ?thesis
    unfolding keys_before_nodes_eq [OF c again nodes] ks' [symmetric]
    using published first_publications_regions by (intro publications_held) fastforce
qed

section \<open>Both runs on an example\<close>

lemma text_trim_id: "list_all (\<lambda>ch. \<not> isSpace ch) v \<Longrightarrow> text_trim v = v"
proof -
  assume v: "list_all (\<lambda>ch. \<not> isSpace ch) v"
  have "dropWhile isSpace xs = xs" if "list_all (\<lambda>ch. \<not> isSpace ch) xs" for xs
    using that by (cases xs) auto
  then show ?thesis using v by (simp add: text_trim_def list_all_rev)
qed

lemma created_text: "text_trim (key_type_name k @ decimal n) = key_type_name k @ decimal n"
proof (rule text_trim_id)
  have "isDigit ch \<Longrightarrow> \<not> isSpace ch" for ch by (auto simp: isDigit_def isSpace_def Let_def)
  then have "list_all (\<lambda>ch. \<not> isSpace ch) (decimal n)" using decimal_digits [of n] by (auto simp: list_all_iff)
  moreover have "list_all (\<lambda>ch. \<not> isSpace ch) (key_type_name k)" by (cases k) (simp_all add: isSpace_def)
  ultimately show "list_all (\<lambda>ch. \<not> isSpace ch) (key_type_name k @ decimal n)" by simp
qed

lemma example_services_ok: "parameter_store example_services" "key_laws example_services"
proof -
  show "parameter_store example_services" by (rule example_store)
  have "key_ok example_services k (example_pair k v)" if "text_trim v = v" "v \<noteq> []" for k v
    using that by (simp add: key_ok_def example_services_def example_pair_def native_text_def)
  moreover have "key_type_name k @ decimal n \<noteq> []" for k n by (cases k) simp_all
  ultimately show "key_laws example_services"
    using created_text by (auto simp: key_laws_def example_services_def split: if_splits)
qed

lemma second_run_adopts_node_keys_witness:
  "\<exists>s. keys_before_nodes example_services (ssm_example 2) (example_genesis, (0, [])) = Some s \<and>
     keys_before_nodes example_services (ssm_example 2) (example_genesis, snd s) = Some s"
proof -
  have run: "keys_before_nodes example_services (ssm_example 2) (example_genesis, (0, [])) \<noteq> None" by code_simp
  then obtain ks' w' where r: "keys_before_nodes example_services (ssm_example 2) (example_genesis, (0, [])) = Some (ks', w')"
    by auto
  have own: "own_nodes (ssm_example 2)" unfolding own_nodes_def by code_simp
  have "key_ok example_services k (example_pair k [ch])" if "\<not> isSpace ch" for k ch
    using that by (simp add: key_ok_def example_services_def example_pair_def native_text_def text_trim_def)
  then have gen: "genesis_keys_ok example_services example_genesis"
    by (auto simp: genesis_keys_ok_def example_genesis_def seedGenesisAccounts_def operator_of_setOperator isSpace_def)
  have "canonical example_services ps (0, [])" for ps
    by (simp add: canonical_def getParameter_def example_services_def)
  then have "keys_before_nodes example_services (ssm_example 2) (example_genesis, w') = Some (ks', w')"
    by (intro second_run_adopts_node_keys [OF ssm_cluster_example own example_services_ok _ gen _ r])
      (simp_all add: example_genesis_def seedGenesisAccounts_def emptyKeyStore_def)
  with r show ?thesis by auto
qed

text \<open>With both accounts on one node, the first run publishes every key and the second one stops.\<close>

lemma second_create_on_a_shared_node_fails:
  "case keys_before_nodes example_services (ssm_example 1) (example_genesis, (0, [])) of
     None \<Rightarrow> False
   | Some (ks, w) \<Rightarrow> keys_before_nodes example_services (ssm_example 1) (example_genesis, w) = None"
  by code_simp

end
