(* ===== verification/Cluster_State.thy ===== *)
theory Cluster_State
  imports Key_Durability
begin

text \<open>
  What a finished build leaves for \<open>wire-cluster-tool run\<close>: \<open>cluster-tool/src/cluster/ClusterState.ts\<close> over the shapes of
  \<open>cluster-tool-shared/src/cluster/ClusterState.ts\<close>. A file is its decoded document and its mode; JSON text in between is
  read back as written. \<^const>\<open>None\<close> is a \<open>throw\<close>. The clock and the IDL path are arguments.
\<close>

section \<open>Paths\<close>

text \<open>\<open>Path.join\<close> on POSIX.\<close>

definition norm_step :: "bool \<Rightarrow> string list \<Rightarrow> string \<Rightarrow> string list" where
  "norm_step absolute stack seg =
     (if seg = [] \<or> seg = ''.'' then stack
      else if seg = ''..''
        then (if stack \<noteq> [] \<and> List.last stack \<noteq> ''..'' then butlast stack
              else if absolute then stack else stack @ [seg])
      else stack @ [seg])"

definition path_normalize :: "string \<Rightarrow> string" where
  "path_normalize p =
     (if p = [] then ''.''
      else let absolute = (take 1 p = ''/''); trailing = ends_with p ''/'';
               body = js_join ''/'' (foldl (norm_step absolute) [] (js_split CHR ''/'' p));
               shown = (if body = [] \<and> \<not> absolute then (if trailing then ''./'' else ''.'')
                        else if body \<noteq> [] \<and> trailing then body @ ''/'' else body)
           in if absolute then ''/'' @ shown else shown)"

definition path_join :: "string list \<Rightarrow> string" where
  "path_join parts = (let used = filter (\<lambda>p. p \<noteq> []) parts in if used = [] then ''.'' else path_normalize (js_join ''/'' used))"

section \<open>The snapshot\<close>

datatype cluster_state_node_role = bios_state | producer_state | operator_state | api_state

fun toClusterStateNodeRole :: "node_role \<Rightarrow> cluster_state_node_role" where
  "toClusterStateNodeRole bios_role = bios_state"
| "toClusterStateNodeRole producer_role = producer_state"
| "toClusterStateNodeRole batch_operator_role = operator_state"
| "toClusterStateNodeRole underwriter_role = operator_state"
| "toClusterStateNodeRole api_role = api_state"

record cluster_state_node =
  sn_name :: string
  sn_role :: cluster_state_node_role
  sn_nodePath :: string
  sn_http :: int
  sn_p2p :: int
  sn_producers :: "string list"
  sn_batchOperatorLabel :: "string option"
  sn_underwriterLabel :: "string option"

record cluster_snapshot =
  sp_createdAt :: string
  sp_nodes :: "cluster_state_node list"
  sp_walletPath :: string
  sp_anvilStateFile :: "string option"
  sp_solanaLedgerPath :: "string option"
  sp_solanaIdlFile :: "string option"

definition snapshot_node :: "cluster_config \<Rightarrow> node_config \<Rightarrow> cluster_state_node" where
  "snapshot_node c n =
     \<lparr>sn_name = nc_name n, sn_role = toClusterStateNodeRole (nc_role n), sn_nodePath = nodePath c n,
      sn_http = np_http (nc_ports n), sn_p2p = np_p2p (nc_ports n), sn_producers = nc_producers n,
      sn_batchOperatorLabel = nc_batchOperatorLabel n, sn_underwriterLabel = nc_underwriterLabel n\<rparr>"

definition capture :: "string \<Rightarrow> string option \<Rightarrow> cluster_config \<Rightarrow> cluster_snapshot" where
  "capture now solanaIdlFile c =
     \<lparr>sp_createdAt = now, sp_nodes = map (snapshot_node c) (plan c), sp_walletPath = cc_walletPath c,
      sp_anvilStateFile = (if cc_externalOutposts c then None else Some (path_join [cc_dataPath c, ''anvil'', ''anvil.json''])),
      sp_solanaLedgerPath = (if cc_externalOutposts c then None else Some (path_join [cc_dataPath c, ''solana-ledger''])),
      sp_solanaIdlFile = solanaIdlFile\<rparr>"

section \<open>The keys\<close>

record keys_node_entry =
  ne_index :: int
  ne_wire :: key_pair
  ne_wireFinalizer :: key_pair

record cluster_keys =
  ck_nodes :: "keys_node_entry list"
  ck_operators :: "operator_account list"

text \<open>The stored pair: as it is, or with its secret replaced by the id it was published under.\<close>

definition keyCustodyFor :: "cluster_config \<Rightarrow> string \<Rightarrow> key_pair \<Rightarrow> key_pair option" where
  "keyCustodyFor c account pair =
     (if sg_type (cc_signatureProvider c) \<noteq> SSM then Some pair
      else do {
        source \<leftarrow> signatureProviderSource c account (kp_type pair);
        Some (pair\<lparr>kp_privateKey := None, kp_awsSecretId := ss_awsSecretId source\<rparr>)
      })"

definition optional_custody :: "cluster_config \<Rightarrow> string \<Rightarrow> key_pair option \<Rightarrow> key_pair option option" where
  "optional_custody c account pair =
     (case pair of None \<Rightarrow> Some None | Some p \<Rightarrow> map_option Some (keyCustodyFor c account p))"

text \<open>A \<open>Map\<close> built from pairs keeps the last one of a key.\<close>

definition producerNodeNames :: "cluster_config \<Rightarrow> int \<Rightarrow> string option" where
  "producerNodeNames c = map_of (rev (map (\<lambda>n. (nc_index n, nc_name n)) (producerNodes c)))"

definition capture_node :: "cluster_config \<Rightarrow> node_keys \<Rightarrow> keys_node_entry option" where
  "capture_node c nk = do {
     name \<leftarrow> producerNodeNames c (nk_index nk);
     if name = [] then None
     else do {
       wire \<leftarrow> keyCustodyFor c name (pk_wire (nk_keys nk));
       wireFinalizer \<leftarrow> keyCustodyFor c name (pk_wireFinalizer (nk_keys nk));
       Some \<lparr>ne_index = nk_index nk, ne_wire = wire, ne_wireFinalizer = wireFinalizer\<rparr>
     }
   }"

definition capture_operator :: "cluster_config \<Rightarrow> operator_account \<Rightarrow> operator_account option" where
  "capture_operator c a =
     (if oa_account a = None \<or> oa_account a = Some [] then None
      else do {
        wire \<leftarrow> keyCustodyFor c (oa_publicationLabel a) (oa_wire a);
        wireFinalizer \<leftarrow> optional_custody c (oa_publicationLabel a) (oa_wireFinalizer a);
        ethereum \<leftarrow> optional_custody c (oa_publicationLabel a) (oa_ethereum a);
        solana \<leftarrow> optional_custody c (oa_publicationLabel a) (oa_solana a);
        Some (a\<lparr>oa_wire := wire, oa_wireFinalizer := wireFinalizer, oa_ethereum := ethereum, oa_solana := solana\<rparr>)
      })"

definition captureKeys :: "cluster_config \<Rightarrow> cluster_key_store \<Rightarrow> cluster_keys option" where
  "captureKeys c ks = do {
     nodes \<leftarrow> those (map (capture_node c) (ks_nodeList ks));
     ops \<leftarrow> those (map (capture_operator c) (operators ks));
     Some \<lparr>ck_nodes = nodes, ck_operators = ops\<rparr>
   }"

section \<open>The schema\<close>

definition hasSingleCustodyForm :: "key_pair \<Rightarrow> bool" where
  "hasSingleCustodyForm p \<longleftrightarrow> (kp_privateKey p \<noteq> None) \<noteq> (kp_awsSecretId p \<noteq> None)"

text \<open>A schema reads a record and keeps the members it names.\<close>

definition WireKeyPairSchema :: "key_pair \<Rightarrow> key_pair option" where
  "WireKeyPairSchema p =
     (if kp_type p = K1 \<and> hasSingleCustodyForm p then Some (p\<lparr>kp_proofOfPossession := None, kp_address := None\<rparr>) else None)"

definition WireFinalizerKeyPairSchema :: "key_pair \<Rightarrow> key_pair option" where
  "WireFinalizerKeyPairSchema p =
     (if kp_type p = BLS \<and> kp_proofOfPossession p \<noteq> None \<and> hasSingleCustodyForm p then Some (p\<lparr>kp_address := None\<rparr>) else None)"

definition EthereumKeyPairSchema :: "key_pair \<Rightarrow> key_pair option" where
  "EthereumKeyPairSchema p =
     (if kp_type p = EM \<and> kp_address p \<noteq> None \<and> hasSingleCustodyForm p then Some (p\<lparr>kp_proofOfPossession := None\<rparr>) else None)"

definition SolanaKeyPairSchema :: "key_pair \<Rightarrow> key_pair option" where
  "SolanaKeyPairSchema p =
     (if kp_type p = ED \<and> hasSingleCustodyForm p then Some (p\<lparr>kp_proofOfPossession := None, kp_address := None\<rparr>) else None)"

definition ClusterKeysNodeEntrySchema :: "keys_node_entry \<Rightarrow> keys_node_entry option" where
  "ClusterKeysNodeEntrySchema e = do {
     wire \<leftarrow> WireKeyPairSchema (ne_wire e);
     wireFinalizer \<leftarrow> WireFinalizerKeyPairSchema (ne_wireFinalizer e);
     Some \<lparr>ne_index = ne_index e, ne_wire = wire, ne_wireFinalizer = wireFinalizer\<rparr>
   }"

definition optional_schema :: "('a \<Rightarrow> 'a option) \<Rightarrow> 'a option \<Rightarrow> 'a option option" where
  "optional_schema schema x = (case x of None \<Rightarrow> Some None | Some v \<Rightarrow> map_option Some (schema v))"

definition ClusterKeysOperatorEntrySchema :: "operator_account \<Rightarrow> operator_account option" where
  "ClusterKeysOperatorEntrySchema a =
     (if oa_account a = None then None
      else do {
        wire \<leftarrow> WireKeyPairSchema (oa_wire a);
        wireFinalizer \<leftarrow> optional_schema WireFinalizerKeyPairSchema (oa_wireFinalizer a);
        ethereum \<leftarrow> optional_schema EthereumKeyPairSchema (oa_ethereum a);
        solana \<leftarrow> optional_schema SolanaKeyPairSchema (oa_solana a);
        Some (a\<lparr>oa_wire := wire, oa_wireFinalizer := wireFinalizer, oa_ethereum := ethereum, oa_solana := solana\<rparr>)
      })"

definition ClusterKeysSchema :: "cluster_keys \<Rightarrow> cluster_keys option" where
  "ClusterKeysSchema k = do {
     nodes \<leftarrow> those (map ClusterKeysNodeEntrySchema (ck_nodes k));
     ops \<leftarrow> those (map ClusterKeysOperatorEntrySchema (ck_operators k));
     Some \<lparr>ck_nodes = nodes, ck_operators = ops\<rparr>
   }"

section \<open>The files\<close>

datatype document = StateDocument cluster_snapshot | KeysDocument cluster_keys | OtherDocument

record stored_file =
  sf_document :: document
  sf_mode :: nat

type_synonym file_system = "string \<Rightarrow> stored_file option"

text \<open>\<open>0o600\<close>.\<close>

definition KeysFileMode :: nat where "KeysFileMode = 6 * 64"

definition stateFilePath :: "cluster_config \<Rightarrow> string" where
  "stateFilePath c = path_join [cc_clusterPath c, ''cluster-state.json'']"

definition keysFilePath :: "cluster_config \<Rightarrow> string" where
  "keysFilePath c = path_join [cc_clusterPath c, ''cluster-keys.json'']"

text \<open>\<open>writeFileSync\<close>: an existing file keeps its mode; \<open>mode\<close> is what a new one gets.\<close>

definition writeFile :: "string \<Rightarrow> document \<Rightarrow> nat \<Rightarrow> file_system \<Rightarrow> file_system" where
  "writeFile path d mode fs =
     fs(path \<mapsto> \<lparr>sf_document = d, sf_mode = (case fs path of Some f \<Rightarrow> sf_mode f | None \<Rightarrow> mode)\<rparr>)"

definition chmod :: "string \<Rightarrow> nat \<Rightarrow> file_system \<Rightarrow> file_system" where
  "chmod path mode fs = (case fs path of None \<Rightarrow> fs | Some f \<Rightarrow> fs(path \<mapsto> f\<lparr>sf_mode := mode\<rparr>))"

definition save_state :: "nat \<Rightarrow> cluster_config \<Rightarrow> cluster_snapshot \<Rightarrow> file_system \<Rightarrow> file_system" where
  "save_state mode c s fs = writeFile (stateFilePath c) (StateDocument s) mode fs"

definition saveKeys :: "cluster_config \<Rightarrow> cluster_keys \<Rightarrow> file_system \<Rightarrow> file_system option" where
  "saveKeys c k fs =
     map_option (\<lambda>encoded. chmod (keysFilePath c) KeysFileMode (writeFile (keysFilePath c) (KeysDocument encoded) KeysFileMode fs))
       (ClusterKeysSchema k)"

definition load_state :: "cluster_config \<Rightarrow> file_system \<Rightarrow> cluster_snapshot option" where
  "load_state c fs = do {
     f \<leftarrow> fs (stateFilePath c);
     case sf_document f of StateDocument s \<Rightarrow> Some s | _ \<Rightarrow> None
   }"

definition loadKeys :: "cluster_config \<Rightarrow> file_system \<Rightarrow> cluster_keys option" where
  "loadKeys c fs = do {
     f \<leftarrow> fs (keysFilePath c);
     case sf_document f of KeysDocument k \<Rightarrow> ClusterKeysSchema k | _ \<Rightarrow> None
   }"

definition rehydrate :: "cluster_key_store \<Rightarrow> cluster_keys \<Rightarrow> cluster_key_store" where
  "rehydrate ks k =
     fold setOperator (ck_operators k)
       (pushNodes (map (\<lambda>e. \<lparr>nk_index = ne_index e, nk_keys = \<lparr>pk_wire = ne_wire e, pk_wireFinalizer = ne_wireFinalizer e\<rparr>\<rparr>)
          (ck_nodes k)) ks)"

text \<open>\<open>runPersist\<close> of \<open>orchestration/steps/ClusterStateSteps.ts\<close>.\<close>

definition runPersist :: "string \<Rightarrow> string option \<Rightarrow> nat \<Rightarrow> cluster_config \<Rightarrow> cluster_key_store \<Rightarrow> file_system \<Rightarrow> file_system option" where
  "runPersist now idl mode c ks fs = do {
     keys \<leftarrow> captureKeys c ks;
     saveKeys c keys (save_state mode c (capture now idl c) fs)
   }"

section \<open>No secret leaves an SSM cluster\<close>

text \<open>Every pair of a payload.\<close>

definition account_pairs :: "operator_account \<Rightarrow> key_pair list" where
  "account_pairs a = oa_wire a # List.map_filter id [oa_wireFinalizer a, oa_ethereum a, oa_solana a]"

lemma in_account_pairs [simp]:
  "p \<in> set (account_pairs a) \<longleftrightarrow> p = oa_wire a \<or> oa_wireFinalizer a = Some p \<or> oa_ethereum a = Some p \<or> oa_solana a = Some p"
  by (auto simp: account_pairs_def map_filter_simps split: option.splits)

definition payload_pairs :: "cluster_keys \<Rightarrow> key_pair list" where
  "payload_pairs k = concat (map (\<lambda>e. [ne_wire e, ne_wireFinalizer e]) (ck_nodes k))
     @ concat (map account_pairs (ck_operators k))"

lemma custody_ssm:
  assumes "sg_type (cc_signatureProvider c) = SSM" "keyCustodyFor c account pair = Some q"
  shows "kp_privateKey q = None \<and> kp_awsSecretId q \<noteq> None \<and> kp_type q = kp_type pair \<and> kp_publicKey q = kp_publicKey pair \<and>
    kp_proofOfPossession q = kp_proofOfPossession pair \<and> kp_address q = kp_address pair"
  using assms
  by (auto simp: keyCustodyFor_def signatureProviderSource_def keySource_def Let_def bind_eq_Some_conv split: if_splits)

lemma optional_custody_ssm:
  assumes "sg_type (cc_signatureProvider c) = SSM" "optional_custody c account pair = Some (Some q)"
  shows "kp_privateKey q = None \<and> kp_awsSecretId q \<noteq> None"
  using assms custody_ssm [OF assms(1)] by (auto simp: optional_custody_def split: option.splits)

text \<open>C18: Under SSM nothing that is captured carries a private key; every record refers to a parameter instead, so the schema's
  custody rule holds.\<close>

theorem ssm_payload_has_no_secret:
  assumes ssm: "sg_type (cc_signatureProvider c) = SSM" and cap: "captureKeys c ks = Some k" and p: "p \<in> set (payload_pairs k)"
  shows "kp_privateKey p = None \<and> kp_awsSecretId p \<noteq> None \<and> hasSingleCustodyForm p"
proof -
  have nodes: "list_all2 (\<lambda>x y. capture_node c x = Some y) (ks_nodeList ks) (ck_nodes k)"
    and ops: "list_all2 (\<lambda>x y. capture_operator c x = Some y) (operators ks) (ck_operators k)"
    using cap by (auto simp: captureKeys_def bind_eq_Some_conv those_Some_iff)
  consider e where "e \<in> set (ck_nodes k)" "p \<in> {ne_wire e, ne_wireFinalizer e}"
    | a where "a \<in> set (ck_operators k)" "p = oa_wire a \<or> Some p \<in> {oa_wireFinalizer a, oa_ethereum a, oa_solana a}"
    using p by (auto simp: payload_pairs_def)
  then have "kp_privateKey p = None \<and> kp_awsSecretId p \<noteq> None"
  proof cases
    case (1 e)
    obtain x where "capture_node c x = Some e" using nodes 1(1) by (auto simp: list_all2_conv_all_nth in_set_conv_nth)
    then show ?thesis using 1(2) by (auto simp: capture_node_def bind_eq_Some_conv dest!: custody_ssm [OF ssm] split: if_splits)
  next
    case (2 a)
    obtain x where "capture_operator c x = Some a" using ops 2(1) by (auto simp: list_all2_conv_all_nth in_set_conv_nth)
    then obtain w f e s where parts: "keyCustodyFor c (oa_publicationLabel x) (oa_wire x) = Some w"
      "optional_custody c (oa_publicationLabel x) (oa_wireFinalizer x) = Some f"
      "optional_custody c (oa_publicationLabel x) (oa_ethereum x) = Some e" "optional_custody c (oa_publicationLabel x) (oa_solana x) = Some s"
      "a = x\<lparr>oa_wire := w, oa_wireFinalizer := f, oa_ethereum := e, oa_solana := s\<rparr>"
      by (auto simp: capture_operator_def bind_eq_Some_conv split: if_splits)
    then consider "p = w" | "f = Some p" | "e = Some p" | "s = Some p" using 2(2) by auto
    then show ?thesis
    proof cases
      case 1
      then show ?thesis using custody_ssm [OF ssm parts(1)] by simp
    next
      case 2
      then show ?thesis using optional_custody_ssm [OF ssm] parts(2) by simp
    next
      case 3
      then show ?thesis using optional_custody_ssm [OF ssm] parts(3) by simp
    next
      case 4
      then show ?thesis using optional_custody_ssm [OF ssm] parts(4) by simp
    qed
  qed
  then show ?thesis by (simp add: hasSingleCustodyForm_def)
qed

section \<open>What was captured comes back\<close>

text \<open>The members a curve adds, as the TypeScript type has them.\<close>

definition typed_pair :: "key_pair \<Rightarrow> bool" where
  "typed_pair p \<longleftrightarrow> (kp_proofOfPossession p \<noteq> None \<longleftrightarrow> kp_type p = BLS) \<and> (kp_address p \<noteq> None \<longleftrightarrow> kp_type p = EM)"

lemma schema_typed:
  assumes "typed_pair p"
  shows "WireKeyPairSchema p = Some q \<Longrightarrow> q = p" "WireFinalizerKeyPairSchema p = Some q \<Longrightarrow> q = p"
    "EthereumKeyPairSchema p = Some q \<Longrightarrow> q = p" "SolanaKeyPairSchema p = Some q \<Longrightarrow> q = p"
  using assms by (cases p; auto simp: typed_pair_def WireKeyPairSchema_def WireFinalizerKeyPairSchema_def EthereumKeyPairSchema_def
      SolanaKeyPairSchema_def split: if_splits)+

lemma optional_typed:
  assumes "optional_schema f x = Some y" "\<And>v w. x = Some v \<Longrightarrow> f v = Some w \<Longrightarrow> w = v"
  shows "y = x"
  using assms by (auto simp: optional_schema_def split: option.splits)

lemma those_identity:
  assumes "those (map f xs) = Some ys" "\<And>x y. x \<in> set xs \<Longrightarrow> f x = Some y \<Longrightarrow> y = x"
  shows "ys = xs"
  using assms by (auto simp: those_Some_iff list_all2_conv_all_nth intro!: nth_equalityI)

lemma schema_identity:
  assumes "list_all typed_pair (payload_pairs k)" "ClusterKeysSchema k = Some k'"
  shows "k' = k"
proof -
  have "y = x" if x: "x \<in> set (ck_nodes k)" and y: "ClusterKeysNodeEntrySchema x = Some y" for x y
  proof -
    have t: "typed_pair (ne_wire x)" "typed_pair (ne_wireFinalizer x)" using assms(1) x by (auto simp: payload_pairs_def list_all_iff)
    obtain a b where parts: "WireKeyPairSchema (ne_wire x) = Some a" "WireFinalizerKeyPairSchema (ne_wireFinalizer x) = Some b"
      "y = \<lparr>ne_index = ne_index x, ne_wire = a, ne_wireFinalizer = b\<rparr>"
      using y by (auto simp: ClusterKeysNodeEntrySchema_def bind_eq_Some_conv)
    then show ?thesis using schema_typed(1) [OF t(1) parts(1)] schema_typed(2) [OF t(2) parts(2)] by (cases x) simp
  qed
  moreover have "y = x" if x: "x \<in> set (ck_operators k)" and y: "ClusterKeysOperatorEntrySchema x = Some y" for x y
  proof -
    have "typed_pair p" if "p \<in> set (account_pairs x)" for p
      using assms(1) x that by (auto simp: payload_pairs_def list_all_iff simp del: in_account_pairs)
    then have t: "typed_pair (oa_wire x)" "oa_wireFinalizer x = Some v \<Longrightarrow> typed_pair v" "oa_ethereum x = Some v \<Longrightarrow> typed_pair v"
      "oa_solana x = Some v \<Longrightarrow> typed_pair v" for v
      by simp_all
    obtain a b d e where parts: "WireKeyPairSchema (oa_wire x) = Some a" "optional_schema WireFinalizerKeyPairSchema (oa_wireFinalizer x) = Some b"
      "optional_schema EthereumKeyPairSchema (oa_ethereum x) = Some d" "optional_schema SolanaKeyPairSchema (oa_solana x) = Some e"
      "y = x\<lparr>oa_wire := a, oa_wireFinalizer := b, oa_ethereum := d, oa_solana := e\<rparr>"
      using y by (auto simp: ClusterKeysOperatorEntrySchema_def bind_eq_Some_conv split: if_splits)
    have "a = oa_wire x" using schema_typed(1) [OF t(1) parts(1)] .
    moreover have "b = oa_wireFinalizer x" by (rule optional_typed [OF parts(2)]) (rule schema_typed(2) [OF t(2)])
    moreover have "d = oa_ethereum x" by (rule optional_typed [OF parts(3)]) (rule schema_typed(3) [OF t(3)])
    moreover have "e = oa_solana x" by (rule optional_typed [OF parts(4)]) (rule schema_typed(4) [OF t(4)])
    ultimately show ?thesis using parts(5) by simp
  qed
  moreover obtain nodes ops where k': "those (map ClusterKeysNodeEntrySchema (ck_nodes k)) = Some nodes"
    "those (map ClusterKeysOperatorEntrySchema (ck_operators k)) = Some ops" "k' = \<lparr>ck_nodes = nodes, ck_operators = ops\<rparr>"
    using assms(2) by (auto simp: ClusterKeysSchema_def bind_eq_Some_conv)
  ultimately have "nodes = ck_nodes k" "ops = ck_operators k"
    using those_identity [OF k'(1)] those_identity [OF k'(2)] by blast+
  with k'(3) show ?thesis by simp
qed

text \<open>Under KEY and KIOD a pair is stored as it is.\<close>

lemma custody_plain:
  assumes "sg_type (cc_signatureProvider c) \<noteq> SSM"
  shows "keyCustodyFor c account pair = Some pair" "optional_custody c account opt = Some opt"
  using assms by (auto simp: keyCustodyFor_def optional_custody_def split: option.splits)

lemma capture_plain:
  assumes "sg_type (cc_signatureProvider c) \<noteq> SSM" "captureKeys c ks = Some k"
  shows "ck_nodes k = map (\<lambda>nk. \<lparr>ne_index = nk_index nk, ne_wire = pk_wire (nk_keys nk), ne_wireFinalizer = pk_wireFinalizer (nk_keys nk)\<rparr>) (ks_nodeList ks)
    \<and> ck_operators k = operators ks"
proof -
  have nodes: "list_all2 (\<lambda>x y. capture_node c x = Some y) (ks_nodeList ks) (ck_nodes k)"
    and ops: "list_all2 (\<lambda>x y. capture_operator c x = Some y) (operators ks) (ck_operators k)"
    using assms(2) by (auto simp: captureKeys_def bind_eq_Some_conv those_Some_iff)
  have "y = \<lparr>ne_index = nk_index x, ne_wire = pk_wire (nk_keys x), ne_wireFinalizer = pk_wireFinalizer (nk_keys x)\<rparr>"
    if "capture_node c x = Some y" for x y
    using that custody_plain [OF assms(1)] by (auto simp: capture_node_def bind_eq_Some_conv split: if_splits)
  moreover have "y = x" if "capture_operator c x = Some y" for x y
    using that custody_plain [OF assms(1)] by (auto simp: capture_operator_def split: if_splits)
  ultimately show ?thesis using nodes ops
    by (auto simp: list_all2_conv_all_nth intro!: nth_equalityI)
qed

lemma rehydrate_capture:
  assumes "store_ok ks"
    and "ck_nodes k = map (\<lambda>nk. \<lparr>ne_index = nk_index nk, ne_wire = pk_wire (nk_keys nk), ne_wireFinalizer = pk_wireFinalizer (nk_keys nk)\<rparr>) (ks_nodeList ks)"
    and "ck_operators k = operators ks"
  shows "rehydrate emptyKeyStore k = ks"
proof -
  have nodes: "map (\<lambda>e. \<lparr>nk_index = ne_index e, nk_keys = \<lparr>pk_wire = ne_wire e, pk_wireFinalizer = ne_wireFinalizer e\<rparr>\<rparr>) (ck_nodes k) = ks_nodeList ks"
    by (simp add: assms(2) comp_def map_idI)
  have ops: "map (\<lambda>a. (oa_label a, a)) (operators ks) = ks_operatorMap ks"
    using assms(1) by (auto simp: operators_def store_ok_def list_all_iff comp_def intro!: map_idI)
  show ?thesis
    unfolding rehydrate_def nodes assms(3)
    by (subst fold_setOperator) (simp_all add: distinct_labels [OF assms(1)] pushNodes_def emptyKeyStore_def ops)
qed

definition store_typed :: "cluster_key_store \<Rightarrow> bool" where
  "store_typed ks \<longleftrightarrow>
     list_all (\<lambda>nk. typed_pair (pk_wire (nk_keys nk)) \<and> typed_pair (pk_wireFinalizer (nk_keys nk))) (ks_nodeList ks) \<and>
     list_all (\<lambda>a. list_all typed_pair (account_pairs a)) (operators ks)"

text \<open>A joined path ends with its last part.\<close>

lemma js_split_last_part: "CHR ''/'' \<notin> set name \<Longrightarrow> js_split CHR ''/'' (d @ CHR ''/'' # name) = js_split CHR ''/'' d @ [name]"
  by (simp add: js_split_append_sep js_split_no_sep)

lemma path_join_ends:
  assumes "proper_segment name" "d \<noteq> []"
  shows "\<exists>s. path_join [d, name] = s @ name"
proof -
  have name: "name \<noteq> []" "name \<noteq> ''.''" "name \<noteq> ''..''" "CHR ''/'' \<notin> set name" using assms(1) by (auto simp: proper_segment_def)
  define p where "p = d @ ''/'' @ name"
  have "\<not> ends_with p ''/''"
  proof
    assume "ends_with p ''/''"
    then have "List.last p = CHR ''/''" using ends_with_split [of p "''/''"] by (metis last_snoc)
    then show False using name by (simp add: p_def) (metis last_in_set)
  qed
  moreover have "\<exists>s. js_join ''/'' (foldl (norm_step b) [] (js_split CHR ''/'' p)) = s @ name" for b
  proof -
    have "foldl (norm_step b) [] (js_split CHR ''/'' p) = foldl (norm_step b) [] (js_split CHR ''/'' d) @ [name]"
      using name by (simp add: p_def js_split_last_part norm_step_def)
    then show ?thesis
      by (cases "foldl (norm_step b) [] (js_split CHR ''/'' d) = []") (simp_all add: js_join_append)
  qed
  ultimately have "\<exists>s. path_normalize p = s @ name"
    using name by (cases "take 1 p = ''/''") (auto simp: path_normalize_def Let_def p_def, (metis append_Cons append.assoc append_self_conv2)+)
  moreover have "path_join [d, name] = path_normalize p" using assms(2) name by (simp add: path_join_def p_def)
  ultimately show ?thesis by simp
qed

lemma files_differ:
  assumes "cc_clusterPath c \<noteq> []"
  shows "stateFilePath c \<noteq> keysFilePath c"
proof
  assume eq: "stateFilePath c = keysFilePath c"
  obtain s where "stateFilePath c = s @ ''cluster-state.json''"
    using path_join_ends [OF _ assms, of "''cluster-state.json''"] by (auto simp: stateFilePath_def proper_segment_def)
  moreover obtain t where "keysFilePath c = t @ ''cluster-keys.json''"
    using path_join_ends [OF _ assms, of "''cluster-keys.json''"] by (auto simp: keysFilePath_def proper_segment_def)
  ultimately have "rev (s @ ''cluster-state.json'') = rev (t @ ''cluster-keys.json'')" using eq by simp
  then show False by simp
qed

text \<open>C19: Outside SSM a persisted build comes back: after \<open>runPersist\<close> the snapshot and the keys load as they were captured, the
  key file is readable by its owner only, and a fresh store rehydrated from it is the store of the build.\<close>

theorem persisted_keys_come_back:
  assumes plain: "sg_type (cc_signatureProvider c) \<noteq> SSM" and path: "cc_clusterPath c \<noteq> []" and ok: "store_ok ks"
    and typed: "store_typed ks"
    and run: "runPersist now idl mode c ks fs = Some fs'"
  shows "load_state c fs' = Some (capture now idl c) \<and>
    (\<exists>k f. loadKeys c fs' = Some k \<and> rehydrate emptyKeyStore k = ks \<and> fs' (keysFilePath c) = Some f \<and> sf_mode f = KeysFileMode)"
proof -
  obtain k where k: "captureKeys c ks = Some k" and save: "saveKeys c k (save_state mode c (capture now idl c) fs) = Some fs'"
    using run by (auto simp: runPersist_def bind_eq_Some_conv)
  obtain k' where k': "ClusterKeysSchema k = Some k'" using save by (auto simp: saveKeys_def)
  have "list_all typed_pair (payload_pairs k)"
    using capture_plain [OF plain k] typed by (auto simp: payload_pairs_def store_typed_def list_all_iff simp del: in_account_pairs)
  then have [simp]: "k' = k" using schema_identity k' by blast
  have "fs' (keysFilePath c) = Some \<lparr>sf_document = KeysDocument k, sf_mode = KeysFileMode\<rparr>"
    using save k' by (auto simp: saveKeys_def chmod_def writeFile_def split: option.splits)
  moreover have "load_state c fs' = Some (capture now idl c)"
    using save k' files_differ [OF path]
    by (auto simp: saveKeys_def chmod_def writeFile_def save_state_def load_state_def split: option.splits)
  moreover have "rehydrate emptyKeyStore k = ks"
    using capture_plain [OF plain k] by (intro rehydrate_capture [OF ok]) simp_all
  ultimately show ?thesis using k' by (simp add: loadKeys_def)
qed

section \<open>Where the persisted references point\<close>

lemma sole_node_id_published:
  assumes "n \<in> set (producerNodes c)" "length (nc_producers n) = 1" "k \<in> {K1, BLS}"
  shows "secret_id c (nc_name n) k \<in> pb_secretId ` set (all_publications c)"
proof -
  obtain l where "nc_producers n = [l]" using assms(2) by (auto simp: length_Suc_conv)
  then have nl: "(n, l) \<in> set (hosted_pairs c)" using assms(1) by (auto simp: hosted_pairs_def intro!: bexI [of _ n])
  have "rendered c (hosted_identity (n, l)) k \<in> set (all_publications c)"
    using nl assms(3) by (auto simp: all_publications_def all_identities_def hosted_identity_def intro!: bexI [of _ "(n, l)"])
  moreover have "pb_secretId (rendered c (hosted_identity (n, l)) k) = secret_id c (nc_name n) k"
    using assms(2) by (simp add: hosted_identity_def publication_label_def)
  ultimately show ?thesis by force
qed

lemma producerNodeNames_planned: "producerNodeNames c i = Some name \<Longrightarrow> \<exists>n \<in> set (producerNodes c). nc_index n = i \<and> nc_name n = name"
  by (auto simp: producerNodeNames_def dest!: map_of_SomeD)

text \<open>C20: Under SSM the reference that the persisted state keeps for a producer node's own block-signing key names a parameter the
  build publishes exactly when the node hosts one account.\<close>

theorem node_reference_published_iff_sole:
  assumes c: "ssm_cluster c" and cap: "captureKeys c ks = Some k" and e: "e \<in> set (ck_nodes k)" and curve: "kp_type (ne_wire e) = K1"
  shows "\<exists>n \<in> set (producerNodes c). nc_index n = ne_index e \<and>
    (\<exists>i ps. kp_awsSecretId (ne_wire e) = Some i \<and> signatureProviderKeyPublications c = Some ps \<and>
      (i \<in> pb_secretId ` set ps \<longleftrightarrow> length (nc_producers n) = 1))"
proof -
  have ssm: "sg_type (cc_signatureProvider c) = SSM" using c by (simp add: ssm_cluster_def)
  obtain x where "capture_node c x = Some e"
    using cap e by (auto simp: captureKeys_def bind_eq_Some_conv those_Some_iff list_all2_conv_all_nth in_set_conv_nth)
  then obtain name where name: "producerNodeNames c (nk_index x) = Some name" "ne_index e = nk_index x"
    and wire: "keyCustodyFor c name (pk_wire (nk_keys x)) = Some (ne_wire e)"
    by (auto simp: capture_node_def bind_eq_Some_conv split: if_splits)
  obtain n where n: "n \<in> set (producerNodes c)" "nc_index n = ne_index e" "nc_name n = name"
    using producerNodeNames_planned [OF name(1)] name(2) by auto
  have type: "kp_type (pk_wire (nk_keys x)) = K1" using custody_ssm [OF ssm wire] curve by simp
  then obtain s where s: "signatureProviderSource c name K1 = Some s"
    "ne_wire e = (pk_wire (nk_keys x))\<lparr>kp_privateKey := None, kp_awsSecretId := ss_awsSecretId s\<rparr>"
    using wire ssm by (auto simp: keyCustodyFor_def bind_eq_Some_conv)
  have ref: "kp_awsSecretId (ne_wire e) = Some (secret_id c (nc_name n) K1)"
    using s signatureProviderSecretId_ssm [OF c, of name K1] n(3) ssm by (simp add: signatureProviderSecretId_def)
  have "secret_id c (nc_name n) K1 \<in> pb_secretId ` set (all_publications c) \<longleftrightarrow> length (nc_producers n) = 1"
    using sole_node_id_published [OF n(1)] shared_node_id_unpublished [OF c n(1)] by blast
  then show ?thesis using n(1,2) ref publications_eq [OF c] by blast
qed

section \<open>Examples\<close>

definition example_keys :: "cluster_key_store" where
  "example_keys = pushNodes [\<lparr>nk_index = 0, nk_keys = \<lparr>pk_wire = example_pair K1 ''k'',
       pk_wireFinalizer = (example_pair BLS ''f'')\<lparr>kp_proofOfPossession := Some ''p''\<rparr>\<rparr>\<rparr>]
     (seedGenesisAccounts (example_pair K1 ''a'') ((example_pair BLS ''b'')\<lparr>kp_proofOfPossession := Some ''p''\<rparr>) (example_pair K1 ''c'') emptyKeyStore)"

lemma ssm_payload_has_no_secret_witness:
  "\<exists>k. captureKeys (ssm_example 1) example_keys = Some k \<and> payload_pairs k \<noteq> [] \<and> kp_privateKey (hd (payload_pairs k)) = None"
proof -
  have "case captureKeys (ssm_example 1) example_keys of None \<Rightarrow> False | Some k \<Rightarrow> payload_pairs k \<noteq> []" by code_simp
  then obtain k where k: "captureKeys (ssm_example 1) example_keys = Some k" "payload_pairs k \<noteq> []" by (auto split: option.splits)
  then show ?thesis
    using ssm_payload_has_no_secret [OF _ k(1), of "hd (payload_pairs k)"] by (simp add: ssm_example_def example_config_def Let_def)
qed

lemma node_reference_published_iff_sole_witness:
  "\<exists>k e. captureKeys (ssm_example 1) example_keys = Some k \<and> e \<in> set (ck_nodes k) \<and>
     (\<exists>n \<in> set (producerNodes (ssm_example 1)). nc_index n = ne_index e \<and>
       (\<exists>i ps. kp_awsSecretId (ne_wire e) = Some i \<and> signatureProviderKeyPublications (ssm_example 1) = Some ps \<and>
         (i \<in> pb_secretId ` set ps \<longleftrightarrow> length (nc_producers n) = 1)))"
proof -
  have "case captureKeys (ssm_example 1) example_keys of None \<Rightarrow> False
    | Some k \<Rightarrow> ck_nodes k \<noteq> [] \<and> kp_type (ne_wire (hd (ck_nodes k))) = K1" by code_simp
  then obtain k where k: "captureKeys (ssm_example 1) example_keys = Some k" "ck_nodes k \<noteq> []" "kp_type (ne_wire (hd (ck_nodes k))) = K1"
    by (auto split: option.splits)
  then show ?thesis
    using node_reference_published_iff_sole [OF ssm_cluster_example k(1) hd_in_set k(3)] hd_in_set [OF k(2)] by blast
qed

lemma persisted_keys_come_back_witness:
  "let c = example_config 1 1 \<lparr>sg_type = KEY, sg_ssm = None\<rparr> in
   \<exists>fs' k. runPersist ''now'' None 0 c example_keys Map.empty = Some fs' \<and> loadKeys c fs' = Some k \<and> rehydrate emptyKeyStore k = example_keys"
proof -
  let ?c = "example_config 1 1 \<lparr>sg_type = KEY, sg_ssm = None\<rparr>"
  have run: "runPersist ''now'' None 0 ?c example_keys Map.empty \<noteq> None" by code_simp
  then obtain fs' where r: "runPersist ''now'' None 0 ?c example_keys Map.empty = Some fs'" by auto
  have "store_ok example_keys" "store_typed example_keys" by code_simp+
  then show ?thesis
    unfolding Let_def using persisted_keys_come_back [OF _ _ _ _ r] r by (simp add: example_config_def Let_def) blast
qed

end
