(* ===== verification/Lco_Plan.thy ===== *)
theory Lco_Plan
  imports Prelude "HOL-Library.AList" "HOL-Library.List_Lexorder" "HOL-Library.Char_ord" "HOL-Library.Multiset"
begin

text \<open>
  The launch-data import: \<open>cluster-tool/src/tools/wire/WireLcoImportTool.ts\<close>, with the export schemas of
  \<open>cluster-tool-shared/src/types\<close>, \<open>isqrt\<close> of \<open>utils/bigintUtils.ts\<close> and the constants it uses. An amount that the code
  keeps as a text of digits is the number the text denotes, so a schema's digits-only check is \<open>0 \<le>\<close>. Members of an
  export that the import does not read are left out. \<^const>\<open>None\<close> is a \<open>throw\<close>. Reading a file, base58, the
  derivation of an address from a key, SHA-256 and the JSON of a pool are the record \<open>lco_services\<close>.
\<close>

section \<open>Texts\<close>

definition lower_char :: "char \<Rightarrow> char" where
  "lower_char ch = (if 65 \<le> (of_char ch :: nat) \<and> (of_char ch :: nat) \<le> 90 then char_of ((of_char ch :: nat) + 32) else ch)"

text \<open>\<open>toLowerCase\<close> of an ASCII text.\<close>

definition lower :: "string \<Rightarrow> string" where "lower s = map lower_char s"

definition isHex :: "char \<Rightarrow> bool" where "isHex ch \<longleftrightarrow> ch \<in> set ''0123456789abcdefABCDEF''"

definition isBase58 :: "char \<Rightarrow> bool" where
  "isBase58 ch \<longleftrightarrow> ch \<in> set ''123456789ABCDEFGHJKLMNPQRSTUVWXYZabcdefghijkmnopqrstuvwxyz''"

definition EvmAddressPattern :: "string \<Rightarrow> bool" where
  "EvmAddressPattern s \<longleftrightarrow> length s = 42 \<and> take 2 s = ''0x'' \<and> list_all isHex (drop 2 s)"

definition EvmCompressedPublicKeyPattern :: "string \<Rightarrow> bool" where
  "EvmCompressedPublicKeyPattern s \<longleftrightarrow>
     (let body = (if take 2 s = ''0x'' then drop 2 s else s)
      in length body = 66 \<and> take 2 body \<in> {''02'', ''03''} \<and> list_all isHex (drop 2 body))"

definition SolanaAddressPattern :: "string \<Rightarrow> bool" where
  "SolanaAddressPattern s \<longleftrightarrow> 32 \<le> length s \<and> length s \<le> 44 \<and> list_all isBase58 s"

definition EvmHexPrefix :: string where "EvmHexPrefix = ''0x''"

text \<open>\<open>replace\<close> of \<open>EvmHexPrefixPattern\<close>, \<open>0x\<close> in either case, by nothing.\<close>

definition strip_hex_prefix :: "string \<Rightarrow> string" where
  "strip_hex_prefix s = (if take 2 s \<in> {''0x'', ''0X''} then drop 2 s else s)"

definition evmDisplayHex :: "string \<Rightarrow> string" where
  "evmDisplayHex s = EvmHexPrefix @ lower (strip_hex_prefix s)"

definition bigint_text :: "string \<Rightarrow> int" where "bigint_text s = digits_value s"

section \<open>The exports\<close>

record ethereum_staker =
  es_address :: string
  es_pubkey :: "string option"
  es_netPrincipal :: int
  es_pretokenYield :: int

record ethereum_purchaser =
  ep_address :: string
  ep_pretokens :: int
  ep_liqPrincipalIn :: int
  ep_pretokenYield :: int
  ep_totalPretokens :: int

record ethereum_metadata =
  em_totalPrincipal :: int
  em_totalLiqEthStaked :: int
  em_totalLiqEthPurchased :: int
  em_lastPoolLiqBalance :: "int option"
  em_highestTranchePriceUsd :: "string option"

record ethereum_snapshot =
  eg_stakers :: "ethereum_staker list"
  eg_purchasers :: "ethereum_purchaser list"
  eg_metadata :: ethereum_metadata

record solana_balance =
  sb_address :: string
  sb_syndicatedLiqsol :: int
  sb_purchasedLiqsol :: int
  sb_directlyPurchasedPretokens :: int
  sb_pretokenYield :: int
  sb_totalPretokens :: int

record solana_accounting =
  sa_poolBalance :: int
  sa_poolPretokens :: int
  sa_allocatedPretokenYield :: int
  sa_unallocatedPoolPretokens :: int
  sa_directlyPurchasedPretokens :: int
  sa_totalUserPretokens :: int
  sa_totalPretokensSold :: int
  sa_unreportedLiqsolYield :: int
  sa_backingAvailable :: int
  sa_initialChainAmount :: int
  sa_issues :: "string list"
  sa_liqsolDecimals :: nat
  sa_pretokenDecimals :: nat
  sa_highestTranchePriceUsd :: "string option"

record solana_snapshot =
  sg_programId :: string
  sg_allocationHash :: string
  sg_balances :: "solana_balance list"
  sg_accounting :: solana_accounting

definition UnsignedDecimal :: "string \<Rightarrow> bool" where
  "UnsignedDecimal s \<longleftrightarrow> s \<noteq> [] \<and> list_all isDigit s"

definition when_given :: "('a \<Rightarrow> bool) \<Rightarrow> 'a option \<Rightarrow> bool" where
  "when_given P opt = (case opt of None \<Rightarrow> True | Some a \<Rightarrow> P a)"

definition EthereumGenesisStakerSchema :: "ethereum_staker \<Rightarrow> bool" where
  "EthereumGenesisStakerSchema s \<longleftrightarrow>
     EvmAddressPattern (es_address s) \<and> when_given EvmCompressedPublicKeyPattern (es_pubkey s) \<and>
     0 \<le> es_netPrincipal s \<and> 0 \<le> es_pretokenYield s"

definition EthereumGenesisPurchaserSchema :: "ethereum_purchaser \<Rightarrow> bool" where
  "EthereumGenesisPurchaserSchema p \<longleftrightarrow>
     EvmAddressPattern (ep_address p) \<and> 0 \<le> ep_pretokens p \<and> 0 \<le> ep_liqPrincipalIn p \<and> 0 \<le> ep_pretokenYield p \<and>
     0 \<le> ep_totalPretokens p"

definition EthereumGenesisSnapshotSchema :: "ethereum_snapshot \<Rightarrow> bool" where
  "EthereumGenesisSnapshotSchema s \<longleftrightarrow>
     list_all EthereumGenesisStakerSchema (eg_stakers s) \<and> list_all EthereumGenesisPurchaserSchema (eg_purchasers s) \<and>
     0 \<le> em_totalPrincipal (eg_metadata s) \<and> 0 \<le> em_totalLiqEthStaked (eg_metadata s) \<and>
     0 \<le> em_totalLiqEthPurchased (eg_metadata s) \<and> when_given (\<lambda>n. 0 \<le> n) (em_lastPoolLiqBalance (eg_metadata s)) \<and>
     when_given UnsignedDecimal (em_highestTranchePriceUsd (eg_metadata s))"

definition SolanaGenesisBalanceSchema :: "solana_balance \<Rightarrow> bool" where
  "SolanaGenesisBalanceSchema b \<longleftrightarrow>
     SolanaAddressPattern (sb_address b) \<and> 0 \<le> sb_syndicatedLiqsol b \<and> 0 \<le> sb_purchasedLiqsol b \<and>
     0 \<le> sb_directlyPurchasedPretokens b \<and> 0 \<le> sb_pretokenYield b \<and> 0 \<le> sb_totalPretokens b"

definition SolanaGenesisAccountingSchema :: "solana_accounting \<Rightarrow> bool" where
  "SolanaGenesisAccountingSchema a \<longleftrightarrow>
     0 \<le> sa_poolBalance a \<and> 0 \<le> sa_poolPretokens a \<and> 0 \<le> sa_allocatedPretokenYield a \<and> 0 \<le> sa_unallocatedPoolPretokens a \<and>
     0 \<le> sa_directlyPurchasedPretokens a \<and> 0 \<le> sa_totalUserPretokens a \<and> 0 \<le> sa_totalPretokensSold a \<and>
     0 \<le> sa_unreportedLiqsolYield a \<and> 0 \<le> sa_backingAvailable a \<and> 0 \<le> sa_initialChainAmount a \<and>
     sa_liqsolDecimals a = 9 \<and> sa_pretokenDecimals a = 8 \<and> when_given UnsignedDecimal (sa_highestTranchePriceUsd a)"

definition isAllocationHash :: "string \<Rightarrow> bool" where
  "isAllocationHash s \<longleftrightarrow> length s = 64 \<and> list_all (\<lambda>ch. ch \<in> set ''0123456789abcdef'') s"

definition SolanaGenesisSnapshotSchema :: "solana_snapshot \<Rightarrow> bool" where
  "SolanaGenesisSnapshotSchema s \<longleftrightarrow>
     isAllocationHash (sg_allocationHash s) \<and> list_all SolanaGenesisBalanceSchema (sg_balances s) \<and>
     SolanaGenesisAccountingSchema (sg_accounting s)"

section \<open>The plan\<close>

datatype import_chain = EVM | SVM

record syndication_spec =
  sy_chainCode :: string
  sy_tokenCode :: string
  sy_pubkey :: string
  sy_amount :: int

record liq_pool_spec =
  lp_chainCode :: string
  lp_tokenCode :: string
  lp_pairSymbol :: string
  lp_name :: string
  lp_description :: string
  lp_initialChainAmount :: int
  lp_initialWireAmount :: int
  lp_fee :: int
  lp_lockedShares :: int
  lp_conversionHorizonSec :: int
  lp_depthCapBps :: int
  lp_clipFloor :: int
  lp_custodyTotal :: int

record claim_credit =
  cl_native_address :: string
  cl_wire_atomic :: int

record placeholder =
  ph_setting :: string
  ph_value :: string

record chain_plan =
  cp_chain :: import_chain
  cp_bootstrapJsonFile :: string
  cp_programId :: "string option"
  cp_syndications :: "syndication_spec list"
  cp_claims :: "claim_credit list"
  cp_pool :: liq_pool_spec

record lco_plan =
  pl_ethereum :: "chain_plan option"
  pl_solana :: "chain_plan option"
  pl_dclaimFundingAccount :: string
  pl_placeholders :: "placeholder list"

record lco_chain_config =
  lc_bootstrapJsonFile :: string
  lc_nativePriceUsd :: "string option"
  lc_highestTranchePriceUsd :: "string option"
  lc_pool :: "liq_pool_spec option"

record lco_import_config =
  li_ethereum :: "lco_chain_config option"
  li_solana :: "lco_chain_config option"
  li_dclaimFundingAccount :: "string option"

record chain_derivation =
  cd_plan :: chain_plan
  cd_placeholders :: "placeholder list"

text \<open>What the plan's digest is computed over.\<close>

record chain_allocation =
  ca_chain :: import_chain
  ca_programId :: "string option"
  ca_syndications :: "syndication_spec list"
  ca_claims :: "claim_credit list"
  ca_pool :: liq_pool_spec

record allocations =
  al_dclaimFundingAccount :: string
  al_chains :: "chain_allocation list"

record lco_services =
  ls_ethereumExport :: "string \<Rightarrow> ethereum_snapshot option"
  ls_solanaExport :: "string \<Rightarrow> solana_snapshot option"
  ls_allocationHash :: "string \<Rightarrow> string"
  ls_computeAddress :: "string \<Rightarrow> string option"
  ls_nativeBytes :: "import_chain \<Rightarrow> string \<Rightarrow> string option"
  ls_poolJson :: "liq_pool_spec \<Rightarrow> string"
  ls_digest :: "allocations \<Rightarrow> string"

section \<open>Constants\<close>

definition SyndicationBatchSize :: nat where "SyndicationBatchSize = 50"
definition ClaimBatchSize :: nat where "ClaimBatchSize = 500"
definition EthereumDecimals :: nat where "EthereumDecimals = 18"
definition AssetMaxAmount :: int where "AssetMaxAmount = 2 ^ 62 - 1"
definition MaxPoolFee :: int where "MaxPoolFee = 9999"
definition PoolSeedLimit :: int where "PoolSeedLimit = 10 ^ 15"
definition WIRE_PRECISION :: nat where "WIRE_PRECISION = 9"
definition LIQ_TOKEN_PRECISION :: nat where "LIQ_TOKEN_PRECISION = 9"
definition ETHEREUM_CHAIN_CODENAME :: string where "ETHEREUM_CHAIN_CODENAME = ''ETHEREUM''"
definition SOLANA_CHAIN_CODENAME :: string where "SOLANA_CHAIN_CODENAME = ''SOLANA''"

definition SHADOW_LIQ_TOKEN_PAIRS :: "(string \<times> string) list" where
  "SHADOW_LIQ_TOKEN_PAIRS = [(ETHEREUM_CHAIN_CODENAME, ''LIQETH''), (SOLANA_CHAIN_CODENAME, ''LIQSOL'')]"

definition liqTokenCode :: "string \<Rightarrow> string option" where
  "liqTokenCode chainCode = map_option snd (List.find (\<lambda>(chain, _). chain = chainCode) SHADOW_LIQ_TOKEN_PAIRS)"

definition liqPoolPairCode :: "string \<Rightarrow> string" where "liqPoolPairCode codename = codename @ ''P''"

definition PairCodePattern :: "string \<Rightarrow> bool" where
  "PairCodePattern s \<longleftrightarrow> 1 \<le> length s \<and> length s \<le> 7 \<and> list_all (\<lambda>ch. ch \<in> set ''ABCDEFGHIJKLMNOPQRSTUVWXYZ'') s"

definition PlaceholderEthereumPriceUsd :: string where "PlaceholderEthereumPriceUsd = ''400000000000''"
definition PlaceholderSolanaPriceUsd :: string where "PlaceholderSolanaPriceUsd = ''20000000000''"
definition PlaceholderHighestTranchePriceUsd :: string where "PlaceholderHighestTranchePriceUsd = ''10000000''"
definition PlaceholderDclaimFundingAccount :: string where "PlaceholderDclaimFundingAccount = ''sysio''"
definition DclaimAccount :: string where "DclaimAccount = ''sysio.dclaim''"

definition PlaceholderPoolTuning :: liq_pool_spec where
  "PlaceholderPoolTuning =
     \<lparr>lp_chainCode = [], lp_tokenCode = [], lp_pairSymbol = [], lp_name = [], lp_description = [], lp_initialChainAmount = 0,
      lp_initialWireAmount = 0, lp_fee = 30, lp_lockedShares = 0, lp_conversionHorizonSec = 86400, lp_depthCapBps = 30,
      lp_clipFloor = 1000, lp_custodyTotal = 0\<rparr>"

section \<open>Arithmetic\<close>

definition scaleUnits :: "int \<Rightarrow> nat \<Rightarrow> nat \<Rightarrow> int" where
  "scaleUnits amount fromDecimals toDecimals =
     (if fromDecimals \<ge> toDecimals then amount sdiv 10 ^ (fromDecimals - toDecimals)
      else amount * 10 ^ (toDecimals - fromDecimals))"

partial_function (option) isqrt_step :: "int \<Rightarrow> int \<Rightarrow> int option" where
  [code]: "isqrt_step v root =
     (let step = (root + v sdiv root) sdiv 2 in if step \<ge> root then Some root else isqrt_step v step)"

definition isqrt :: "int \<Rightarrow> int option" where
  "isqrt v = (if v < 0 then None else if v < 2 then Some v else isqrt_step v v)"

definition syndicatedTotal :: "syndication_spec list \<Rightarrow> int" where
  "syndicatedTotal syndications = (\<Sum>spec \<leftarrow> syndications. sy_amount spec)"

section \<open>Checks\<close>

abbreviation require :: "bool \<Rightarrow> unit option" where
  "require b \<equiv> (if b then Some () else None)"

text \<open>Declared totals with what they are derived from.\<close>

definition assertTotals :: "(int \<times> int) list \<Rightarrow> unit option" where
  "assertTotals totals = require (list_all (\<lambda>(declared, derived). declared = derived) totals)"

definition assertUnique :: "string list \<Rightarrow> unit option" where
  "assertUnique identities = require (distinct identities)"

definition assertRowTotals :: "(int \<times> int) list \<Rightarrow> unit option" where
  "assertRowTotals rows = require (list_all (\<lambda>(declared, derived). declared = derived) rows)"

definition assertTuningOnly :: "liq_pool_spec \<Rightarrow> unit option" where
  "assertTuningOnly tuning = require
     (lp_chainCode tuning = [] \<and> lp_tokenCode tuning = [] \<and> lp_pairSymbol tuning = [] \<and> lp_initialChainAmount tuning = 0 \<and>
      lp_initialWireAmount tuning = 0 \<and> lp_custodyTotal tuning = 0)"

definition assertPool :: "liq_pool_spec \<Rightarrow> unit option" where
  "assertPool pool = do {
     require (PairCodePattern (lp_pairSymbol pool));
     require (lp_initialWireAmount pool > 0);
     require (lp_initialChainAmount pool < PoolSeedLimit \<and> lp_initialWireAmount pool < PoolSeedLimit);
     require (lp_custodyTotal pool \<le> AssetMaxAmount);
     require (lp_fee pool \<le> MaxPoolFee);
     require (lp_conversionHorizonSec pool > 0);
     require (lp_depthCapBps pool \<ge> 1 \<and> lp_depthCapBps pool \<le> lp_fee pool);
     require (lp_clipFloor pool > 0 \<and> lp_clipFloor pool \<le> AssetMaxAmount);
     shares \<leftarrow> isqrt (lp_initialChainAmount pool * lp_initialWireAmount pool);
     require (lp_lockedShares pool < shares)
   }"

section \<open>Pools\<close>

record pool_source =
  ps_chainConfig :: lco_chain_config
  ps_member :: string
  ps_chainCode :: string
  ps_tokenCode :: string
  ps_custodyTotal :: int
  ps_syndications :: "syndication_spec list"
  ps_exportedTranchePriceUsd :: "string option"
  ps_placeholderNativePriceUsd :: string

record pool_pricing =
  pp_nativePriceUsd :: int
  pp_highestTranchePriceUsd :: int

definition getOrElse :: "'a option \<Rightarrow> 'a \<Rightarrow> 'a" where
  "getOrElse opt otherwise = (case opt of Some a \<Rightarrow> a | None \<Rightarrow> otherwise)"

definition resolvePricing :: "pool_source \<Rightarrow> (pool_pricing \<times> placeholder list) option" where
  "resolvePricing source =
     (let configured = lc_highestTranchePriceUsd (ps_chainConfig source);
          exported = ps_exportedTranchePriceUsd source;
          native = getOrElse (lc_nativePriceUsd (ps_chainConfig source)) (ps_placeholderNativePriceUsd source);
          tranche = getOrElse configured (getOrElse exported PlaceholderHighestTranchePriceUsd);
          placeholders =
            (if lc_nativePriceUsd (ps_chainConfig source) = None
             then [\<lparr>ph_setting = ''lcoImport.'' @ ps_member source @ ''.nativePriceUsd'', ph_value = native\<rparr>] else []) @
            (if configured = None \<and> exported = None
             then [\<lparr>ph_setting = ''lcoImport.'' @ ps_member source @ ''.highestTranchePriceUsd'', ph_value = tranche\<rparr>] else [])
      in do {
        require (case (configured, exported) of (Some c, Some e) \<Rightarrow> bigint_text c = bigint_text e | _ \<Rightarrow> True);
        require (bigint_text tranche > 0);
        Some (\<lparr>pp_nativePriceUsd = bigint_text native, pp_highestTranchePriceUsd = bigint_text tranche\<rparr>, placeholders)
      })"

definition poolName :: "string \<Rightarrow> string" where "poolName tokenCode = tokenCode @ ''/WIRE yield pool''"

definition poolDescription :: "string \<Rightarrow> string" where
  "poolDescription tokenCode = ''The LCO '' @ tokenCode @ '' against WIRE at the highest tranche price''"

definition createPool :: "lco_services \<Rightarrow> pool_source \<Rightarrow> (liq_pool_spec \<times> placeholder list) option" where
  "createPool sv source =
     (let initialChainAmount = ps_custodyTotal source - syndicatedTotal (ps_syndications source);
          tuning = getOrElse (lc_pool (ps_chainConfig source)) PlaceholderPoolTuning
      in do {
        require (initialChainAmount > 0);
        (pricing, pricingPlaceholders) \<leftarrow> resolvePricing source;
        assertTuningOnly tuning;
        pool \<leftarrow> Some
          \<lparr>lp_chainCode = ps_chainCode source, lp_tokenCode = ps_tokenCode source,
           lp_pairSymbol = liqPoolPairCode (ps_tokenCode source),
           lp_name = (if lp_name tuning = [] then poolName (ps_tokenCode source) else lp_name tuning),
           lp_description = (if lp_description tuning = [] then poolDescription (ps_tokenCode source) else lp_description tuning),
           lp_initialChainAmount = initialChainAmount,
           lp_initialWireAmount = (initialChainAmount * pp_nativePriceUsd pricing) sdiv pp_highestTranchePriceUsd pricing,
           lp_fee = lp_fee tuning, lp_lockedShares = lp_lockedShares tuning,
           lp_conversionHorizonSec = lp_conversionHorizonSec tuning, lp_depthCapBps = lp_depthCapBps tuning,
           lp_clipFloor = lp_clipFloor tuning, lp_custodyTotal = ps_custodyTotal source\<rparr>;
        assertPool pool;
        Some (pool, pricingPlaceholders @
          (if lc_pool (ps_chainConfig source) = None
           then [\<lparr>ph_setting = ''lcoImport.'' @ ps_member source @ ''.pool'', ph_value = ls_poolJson sv PlaceholderPoolTuning\<rparr>]
           else []))
      })"

section \<open>Positions and claims\<close>

definition sortSyndications :: "syndication_spec list \<Rightarrow> syndication_spec list option" where
  "sortSyndications specs =
     (if list_all (\<lambda>spec. sy_amount spec \<le> AssetMaxAmount) specs then Some (sort_key sy_pubkey specs) else None)"

text \<open>A \<open>Map\<close> keeps its entries in the order of their first insertion, as \<^const>\<open>AList.update\<close> does.\<close>

definition add_owed :: "string \<times> int \<Rightarrow> (string \<times> int) list \<Rightarrow> (string \<times> int) list" where
  "add_owed entry byAddress =
     AList.update (fst entry) (getOrElse (map_of byAddress (fst entry)) 0 + snd entry) byAddress"

definition owed_totals :: "(string \<times> int) list \<Rightarrow> (string \<times> int) list" where
  "owed_totals owed = fold add_owed owed []"

definition createClaims :: "(string \<times> int) list \<Rightarrow> nat \<Rightarrow> claim_credit list option" where
  "createClaims owed pretokenDecimals =
     (let claims = filter (\<lambda>claim. cl_wire_atomic claim > 0)
        (map (\<lambda>(nativeAddress, amount).
           \<lparr>cl_native_address = nativeAddress, cl_wire_atomic = scaleUnits amount pretokenDecimals WIRE_PRECISION\<rparr>)
          (owed_totals owed))
      in if list_all (\<lambda>claim. cl_wire_atomic claim \<le> AssetMaxAmount) claims
         then Some (sort_key cl_native_address claims) else None)"

section \<open>One chain\<close>

definition isKeyOf :: "lco_services \<Rightarrow> string \<Rightarrow> string \<Rightarrow> bool" where
  "isKeyOf sv pubkey address =
     (case ls_computeAddress sv (evmDisplayHex pubkey) of Some a \<Rightarrow> lower a = lower address | None \<Rightarrow> False)"

definition nativeBytesHex :: "lco_services \<Rightarrow> import_chain \<Rightarrow> string \<Rightarrow> string option" where
  "nativeBytesHex sv chain v = ls_nativeBytes sv chain (if chain = EVM then evmDisplayHex v else v)"

definition native_owed :: "lco_services \<Rightarrow> import_chain \<Rightarrow> (string \<times> int) list \<Rightarrow> (string \<times> int) list option" where
  "native_owed sv chain rows =
     those (map (\<lambda>(address, amount). map_option (\<lambda>h. (h, amount)) (nativeBytesHex sv chain address)) rows)"

definition readEthereumExport :: "lco_services \<Rightarrow> string \<Rightarrow> ethereum_snapshot option" where
  "readEthereumExport sv file = do {
     snapshot \<leftarrow> ls_ethereumExport sv file;
     if EthereumGenesisSnapshotSchema snapshot then Some snapshot else None
   }"

definition readSolanaExport :: "lco_services \<Rightarrow> string \<Rightarrow> solana_snapshot option" where
  "readSolanaExport sv file = do {
     snapshot \<leftarrow> ls_solanaExport sv file;
     if SolanaGenesisSnapshotSchema snapshot then Some snapshot else None
   }"

text \<open>The stakers that hold a position, with their position in the depot's precision.\<close>

definition staker_positions :: "ethereum_snapshot \<Rightarrow> (ethereum_staker \<times> int) list" where
  "staker_positions snapshot =
     filter (\<lambda>(_, amount). amount > 0)
       (map (\<lambda>staker. (staker, scaleUnits (es_netPrincipal staker) EthereumDecimals LIQ_TOKEN_PRECISION)) (eg_stakers snapshot))"

definition ethereum_checks :: "lco_services \<Rightarrow> ethereum_snapshot \<Rightarrow> unit option" where
  "ethereum_checks sv snapshot =
     (let stakers = eg_stakers snapshot; purchasers = eg_purchasers snapshot; metadata = eg_metadata snapshot;
          staked = (\<Sum>staker \<leftarrow> stakers. es_netPrincipal staker)
      in do {
        require (list_all (\<lambda>(staker, _). es_pubkey staker \<noteq> None) (staker_positions snapshot));
        require (list_all (\<lambda>staker. case es_pubkey staker of Some key \<Rightarrow> isKeyOf sv key (es_address staker) | None \<Rightarrow> True) stakers);
        assertUnique (map (evmDisplayHex \<circ> es_address) stakers);
        assertUnique (map (evmDisplayHex \<circ> ep_address) purchasers);
        assertRowTotals (map (\<lambda>p. (ep_totalPretokens p, ep_pretokens p + ep_pretokenYield p)) purchasers);
        assertTotals [(em_totalPrincipal metadata, staked), (em_totalLiqEthStaked metadata, staked),
          (em_totalLiqEthPurchased metadata, (\<Sum>p \<leftarrow> purchasers. ep_liqPrincipalIn p))]
      })"

definition staker_spec :: "string \<Rightarrow> ethereum_staker \<times> int \<Rightarrow> syndication_spec option" where
  "staker_spec tokenCode = (\<lambda>(staker, amount). map_option (\<lambda>key.
     \<lparr>sy_chainCode = ETHEREUM_CHAIN_CODENAME, sy_tokenCode = tokenCode, sy_pubkey = evmDisplayHex key, sy_amount = amount\<rparr>)
     (es_pubkey staker))"

definition ethereum_derivation :: "lco_services \<Rightarrow> lco_chain_config \<Rightarrow> ethereum_snapshot \<Rightarrow> chain_derivation option" where
  "ethereum_derivation sv chainConfig snapshot = do {
     tokenCode \<leftarrow> liqTokenCode ETHEREUM_CHAIN_CODENAME;
     ethereum_checks sv snapshot;
     specs \<leftarrow> those (map (staker_spec tokenCode) (staker_positions snapshot));
     syndications \<leftarrow> sortSyndications specs;
     let bookedPlaceholder = scaleUnits (syndicatedTotal syndications) LIQ_TOKEN_PRECISION EthereumDecimals
           + em_totalLiqEthPurchased (eg_metadata snapshot);
         booked = em_lastPoolLiqBalance (eg_metadata snapshot)
     in do {
       (pool, placeholders) \<leftarrow> createPool sv
         \<lparr>ps_chainConfig = chainConfig, ps_member = ''ethereum'', ps_chainCode = ETHEREUM_CHAIN_CODENAME, ps_tokenCode = tokenCode,
          ps_custodyTotal = scaleUnits (getOrElse booked bookedPlaceholder) EthereumDecimals LIQ_TOKEN_PRECISION,
          ps_syndications = syndications,
          ps_exportedTranchePriceUsd = em_highestTranchePriceUsd (eg_metadata snapshot),
          ps_placeholderNativePriceUsd = PlaceholderEthereumPriceUsd\<rparr>;
       owed \<leftarrow> native_owed sv EVM
         (map (\<lambda>p. (ep_address p, ep_totalPretokens p)) (eg_purchasers snapshot) @
          map (\<lambda>s. (es_address s, es_pretokenYield s)) (eg_stakers snapshot));
       claims \<leftarrow> createClaims owed EthereumDecimals;
       Some \<lparr>cd_plan = \<lparr>cp_chain = EVM, cp_bootstrapJsonFile = lc_bootstrapJsonFile chainConfig, cp_programId = None,
                 cp_syndications = syndications, cp_claims = claims, cp_pool = pool\<rparr>,
             cd_placeholders =
               (if booked = None
                then [\<lparr>ph_setting = lc_bootstrapJsonFile chainConfig @ '': metadata.lastPoolLiqBalance'',
                       ph_value = decimal (nat bookedPlaceholder)\<rparr>]
                else []) @ placeholders\<rparr>
     }
   }"

definition createEthereumPlan :: "lco_services \<Rightarrow> lco_chain_config \<Rightarrow> chain_derivation option" where
  "createEthereumPlan sv chainConfig =
     Option.bind (readEthereumExport sv (lc_bootstrapJsonFile chainConfig)) (ethereum_derivation sv chainConfig)"

definition solana_checks :: "lco_services \<Rightarrow> string \<Rightarrow> solana_snapshot \<Rightarrow> unit option" where
  "solana_checks sv file snapshot =
     (let accounting = sg_accounting snapshot; balances = sg_balances snapshot;
          total = (\<lambda>amount. \<Sum>b \<leftarrow> balances. amount b)
      in do {
        require (sa_issues accounting = []);
        require (ls_allocationHash sv file = sg_allocationHash snapshot);
        assertUnique (map sb_address balances);
        assertRowTotals (map (\<lambda>b. (sb_totalPretokens b, sb_directlyPurchasedPretokens b + sb_pretokenYield b)) balances);
        require (sa_poolBalance accounting \<ge> sa_unreportedLiqsolYield accounting);
        assertTotals
          [(sa_initialChainAmount accounting, total sb_purchasedLiqsol),
           (sa_backingAvailable accounting, sa_poolBalance accounting - sa_unreportedLiqsolYield accounting),
           (sa_directlyPurchasedPretokens accounting, total sb_directlyPurchasedPretokens),
           (sa_allocatedPretokenYield accounting, total sb_pretokenYield),
           (sa_totalUserPretokens accounting, total sb_totalPretokens),
           (sa_poolPretokens accounting, sa_allocatedPretokenYield accounting + sa_unallocatedPoolPretokens accounting),
           (sa_totalPretokensSold accounting, sa_directlyPurchasedPretokens accounting + sa_poolPretokens accounting)]
      })"

definition balance_specs :: "string \<Rightarrow> solana_snapshot \<Rightarrow> syndication_spec list" where
  "balance_specs tokenCode snapshot =
     filter (\<lambda>spec. sy_amount spec > 0)
       (map (\<lambda>b. \<lparr>sy_chainCode = SOLANA_CHAIN_CODENAME, sy_tokenCode = tokenCode, sy_pubkey = sb_address b,
          sy_amount = scaleUnits (sb_syndicatedLiqsol b) (sa_liqsolDecimals (sg_accounting snapshot)) LIQ_TOKEN_PRECISION\<rparr>)
         (sg_balances snapshot))"

definition solana_derivation :: "lco_services \<Rightarrow> lco_chain_config \<Rightarrow> solana_snapshot \<Rightarrow> chain_derivation option" where
  "solana_derivation sv chainConfig snapshot =
     (let accounting = sg_accounting snapshot;
          toDepot = (\<lambda>amount. scaleUnits amount (sa_liqsolDecimals accounting) LIQ_TOKEN_PRECISION)
      in do {
        tokenCode \<leftarrow> liqTokenCode SOLANA_CHAIN_CODENAME;
        solana_checks sv (lc_bootstrapJsonFile chainConfig) snapshot;
        syndications \<leftarrow> sortSyndications (balance_specs tokenCode snapshot);
        let custodyTotal = toDepot (sa_initialChainAmount accounting) + syndicatedTotal syndications
        in do {
          require (custodyTotal \<le> toDepot (sa_backingAvailable accounting));
          (pool, placeholders) \<leftarrow> createPool sv
            \<lparr>ps_chainConfig = chainConfig, ps_member = ''solana'', ps_chainCode = SOLANA_CHAIN_CODENAME, ps_tokenCode = tokenCode,
             ps_custodyTotal = custodyTotal, ps_syndications = syndications,
             ps_exportedTranchePriceUsd = sa_highestTranchePriceUsd accounting,
             ps_placeholderNativePriceUsd = PlaceholderSolanaPriceUsd\<rparr>;
          owed \<leftarrow> native_owed sv SVM (map (\<lambda>b. (sb_address b, sb_totalPretokens b)) (sg_balances snapshot));
          claims \<leftarrow> createClaims owed (sa_pretokenDecimals accounting);
          Some \<lparr>cd_plan = \<lparr>cp_chain = SVM, cp_bootstrapJsonFile = lc_bootstrapJsonFile chainConfig,
                    cp_programId = Some (sg_programId snapshot), cp_syndications = syndications, cp_claims = claims, cp_pool = pool\<rparr>,
                cd_placeholders = placeholders\<rparr>
        }
      })"

definition createSolanaPlan :: "lco_services \<Rightarrow> lco_chain_config \<Rightarrow> chain_derivation option" where
  "createSolanaPlan sv chainConfig =
     Option.bind (readSolanaExport sv (lc_bootstrapJsonFile chainConfig)) (solana_derivation sv chainConfig)"

section \<open>The whole import\<close>

definition chainPlans :: "lco_plan \<Rightarrow> chain_plan list" where
  "chainPlans p = List.map_filter id [pl_ethereum p, pl_solana p]"

definition claimTotal :: "chain_plan \<Rightarrow> int" where
  "claimTotal chainPlan = (\<Sum>credit \<leftarrow> cp_claims chainPlan. cl_wire_atomic credit)"

definition planClaimTotal :: "lco_plan \<Rightarrow> int" where
  "planClaimTotal p = (\<Sum>chainPlan \<leftarrow> chainPlans p. claimTotal chainPlan)"

definition dexEarmark :: "lco_plan \<Rightarrow> int" where
  "dexEarmark p = (\<Sum>chainPlan \<leftarrow> chainPlans p. lp_initialWireAmount (cp_pool chainPlan))"

text \<open>A chain that is not configured is no error.\<close>

definition optional_chain :: "('a \<Rightarrow> 'b option) \<Rightarrow> 'a option \<Rightarrow> 'b option option" where
  "optional_chain f opt = (case opt of None \<Rightarrow> Some None | Some a \<Rightarrow> map_option Some (f a))"

definition derived_placeholders :: "chain_derivation option \<Rightarrow> placeholder list" where
  "derived_placeholders d = (case d of None \<Rightarrow> [] | Some x \<Rightarrow> cd_placeholders x)"

text \<open>The inner \<^const>\<open>None\<close> is the \<open>null\<close> of a cluster that imports no export.\<close>

definition createPlan :: "lco_services \<Rightarrow> lco_import_config option \<Rightarrow> lco_plan option option" where
  "createPlan sv config =
     (case config of
        None \<Rightarrow> Some None
      | Some cfg \<Rightarrow> do {
          ethereum \<leftarrow> optional_chain (createEthereumPlan sv) (li_ethereum cfg);
          solana \<leftarrow> optional_chain (createSolanaPlan sv) (li_solana cfg);
          p \<leftarrow> Some
            \<lparr>pl_ethereum = map_option cd_plan ethereum, pl_solana = map_option cd_plan solana,
             pl_dclaimFundingAccount = getOrElse (li_dclaimFundingAccount cfg) PlaceholderDclaimFundingAccount,
             pl_placeholders = derived_placeholders ethereum @ derived_placeholders solana @
               (if li_dclaimFundingAccount cfg = None
                then [\<lparr>ph_setting = ''lcoImport.dclaimFundingAccount'', ph_value = PlaceholderDclaimFundingAccount\<rparr>] else [])\<rparr>;
          require (pl_dclaimFundingAccount p \<noteq> DclaimAccount);
          require (planClaimTotal p \<le> AssetMaxAmount);
          Some (Some p)
        })"

definition assertExportOutposts :: "lco_plan \<Rightarrow> string \<Rightarrow> unit option" where
  "assertExportOutposts p targeted =
     (let exported = Option.bind (pl_solana p) cp_programId in require (exported = None \<or> exported = Some targeted))"

definition assertRealData :: "lco_plan \<Rightarrow> unit option" where
  "assertRealData p = require (length (pl_placeholders p) = 0)"

definition allocations_of :: "lco_plan \<Rightarrow> allocations" where
  "allocations_of p =
     \<lparr>al_dclaimFundingAccount = pl_dclaimFundingAccount p,
      al_chains = map (\<lambda>c. \<lparr>ca_chain = cp_chain c, ca_programId = cp_programId c, ca_syndications = cp_syndications c,
        ca_claims = cp_claims c, ca_pool = cp_pool c\<rparr>) (chainPlans p)\<rparr>"

definition planDigest :: "lco_services \<Rightarrow> lco_plan \<Rightarrow> string" where
  "planDigest sv p = ls_digest sv (allocations_of p)"

record chain_summary =
  cs_bootstrapJsonFile :: string
  cs_syndicationCount :: nat
  cs_syndicatedTotal :: int
  cs_claimCount :: nat
  cs_claimTotal :: int
  cs_poolChainAmount :: int
  cs_poolWireAmount :: int

record lco_summary =
  sm_ethereum :: "chain_summary option"
  sm_solana :: "chain_summary option"
  sm_dclaimFundingAccount :: string
  sm_placeholders :: "placeholder list"
  sm_digest :: string

definition summarizeChain :: "chain_plan \<Rightarrow> chain_summary" where
  "summarizeChain c =
     \<lparr>cs_bootstrapJsonFile = cp_bootstrapJsonFile c, cs_syndicationCount = length (cp_syndications c),
      cs_syndicatedTotal = syndicatedTotal (cp_syndications c), cs_claimCount = length (cp_claims c),
      cs_claimTotal = claimTotal c, cs_poolChainAmount = lp_initialChainAmount (cp_pool c),
      cs_poolWireAmount = lp_initialWireAmount (cp_pool c)\<rparr>"

definition summarize :: "lco_services \<Rightarrow> lco_plan \<Rightarrow> lco_summary" where
  "summarize sv p =
     \<lparr>sm_ethereum = map_option summarizeChain (pl_ethereum p), sm_solana = map_option summarizeChain (pl_solana p),
      sm_dclaimFundingAccount = pl_dclaimFundingAccount p, sm_placeholders = pl_placeholders p,
      sm_digest = planDigest sv p\<rparr>"

definition RecordSchemaVersion :: int where "RecordSchemaVersion = 1"

text \<open>The members of the launch record that the import sets.\<close>

record bootstrap_platform_config =
  bp_schemaVersion :: int
  bp_network :: string
  bp_t5DexAllocation :: int
  bp_liqPools :: "liq_pool_spec list"
  bp_syndications :: "syndication_spec list"

definition toBootstrapPlatformConfig :: "lco_plan \<Rightarrow> string \<Rightarrow> bootstrap_platform_config" where
  "toBootstrapPlatformConfig p network =
     (let chains = chainPlans p
      in \<lparr>bp_schemaVersion = RecordSchemaVersion, bp_network = network, bp_t5DexAllocation = dexEarmark p,
          bp_liqPools = map cp_pool chains, bp_syndications = concat (map cp_syndications chains)\<rparr>)"

section \<open>Batches\<close>

definition batchCount :: "nat \<Rightarrow> nat \<Rightarrow> nat" where
  "batchCount n batchSize = n div batchSize + (if n mod batchSize = 0 then 0 else 1)"

definition batchCreditCount :: "nat \<Rightarrow> nat \<Rightarrow> nat \<Rightarrow> int" where
  "batchCreditCount n batchSize index = min (int batchSize) (int n - int index * int batchSize)"

definition assertBatch :: "'a list \<Rightarrow> nat \<Rightarrow> nat \<Rightarrow> 'a list option" where
  "assertBatch items index batchSize =
     (let batch = take batchSize (drop (index * batchSize) items) in if length batch > 0 then Some batch else None)"

record importsynd_action =
  is_chain_code :: string
  is_token_code :: string
  is_credits :: "(string \<times> int) list"

record importseed_action =
  ie_chain :: import_chain
  ie_credits :: "claim_credit list"

definition syndicationBatch :: "lco_services \<Rightarrow> chain_plan \<Rightarrow> nat \<Rightarrow> importsynd_action option" where
  "syndicationBatch sv chainPlan index = do {
     specs \<leftarrow> assertBatch (cp_syndications chainPlan) index SyndicationBatchSize;
     credits \<leftarrow> those (map (\<lambda>spec. map_option (\<lambda>key. (key, sy_amount spec))
       (nativeBytesHex sv (cp_chain chainPlan) (sy_pubkey spec))) specs);
     Some \<lparr>is_chain_code = lp_chainCode (cp_pool chainPlan), is_token_code = lp_tokenCode (cp_pool chainPlan), is_credits = credits\<rparr>
   }"

text \<open>The chain's enum member in the action's own enumeration is the chain itself.\<close>

definition claimBatch :: "chain_plan \<Rightarrow> nat \<Rightarrow> importseed_action option" where
  "claimBatch chainPlan index =
     map_option (\<lambda>credits. \<lparr>ie_chain = cp_chain chainPlan, ie_credits = credits\<rparr>)
       (assertBatch (cp_claims chainPlan) index ClaimBatchSize)"

end
