(* ===== verification/Lco_Accounts.thy ===== *)
theory Lco_Accounts
  imports Lco_Plan
begin

text \<open>
  What the launch-data import of \<open>Lco_Plan\<close> guarantees: the square root of a pool, the conservation of the booked
  custody, the claims of every address, and that the order of an export's rows does not matter.
\<close>

section \<open>The square root\<close>

lemma quotient_bounds:
  fixes v root :: int
  assumes "0 < root"
  shows "v div root * root \<le> v" "v < (v div root + 1) * root"
  using div_mult_mod_eq [of v root] pos_mod_bound [OF assms, of v] pos_mod_sign [OF assms, of v]
  by (simp_all only: distrib_right)

text \<open>One step of Newton's method stays above the root.\<close>

lemma newton_above:
  fixes v root :: int
  assumes "0 < root"
  shows "v < ((root + v div root) div 2 + 1) * ((root + v div root) div 2 + 1)"
proof -
  define q where "q = v div root"
  define n where "n = (root + q) div 2"
  have "v < (q + 1) * root" using quotient_bounds(2) [OF assms] by (simp add: q_def)
  moreover have "4 * ((q + 1) * root) \<le> (root + q + 1) * (root + q + 1)"
    using zero_le_square [of "root - (q + 1)"] by (simp add: algebra_simps)
  moreover have "root + q + 1 \<le> 2 * (n + 1)" by (simp add: n_def)
  moreover have "(root + q + 1) * (root + q + 1) \<le> (2 * (n + 1)) * (2 * (n + 1))" if "0 \<le> root + q + 1"
    using \<open>root + q + 1 \<le> 2 * (n + 1)\<close> that by (intro mult_mono) simp_all
  moreover have "v < 0" if "root + q + 1 < 0"
  proof -
    have "q + 1 \<le> 0" using that assms by simp
    then have "(q + 1) * root \<le> 0" using assms by (simp add: mult_le_0_iff)
    then show ?thesis using \<open>v < (q + 1) * root\<close> by simp
  qed
  moreover have "0 \<le> (n + 1) * (n + 1)" by simp
  ultimately have "v < (n + 1) * (n + 1)" by (cases "0 \<le> root + q + 1") (simp_all add: algebra_simps)
  then show ?thesis by (simp add: n_def q_def)
qed

lemma isqrt_step_correct:
  assumes "2 \<le> v" "1 \<le> root" "v < (root + 1) * (root + 1)"
  shows "\<exists>r. isqrt_step v root = Some r \<and> 0 \<le> r \<and> r * r \<le> v \<and> v < (r + 1) * (r + 1)"
  using assms(2,3)
proof (induction "nat root" arbitrary: root rule: less_induct)
  case less
  define n where "n = (root + v div root) div 2"
  have root: "0 < root" and q: "0 \<le> v div root"
    using less.prems(1) assms(1) by (simp_all add: pos_imp_zdiv_nonneg_iff)
  have step: "(root + v sdiv root) sdiv 2 = n" using root q assms(1) by (simp add: n_def sdiv_floor)
  show ?case
  proof (cases "n \<ge> root")
    case True
    then have "root \<le> v div root" by (simp add: n_def)
    then have "root * root \<le> v div root * root" using root by (simp add: mult_right_mono)
    then have "root * root \<le> v" using quotient_bounds(1) [OF root, of v] by linarith
    then show ?thesis using True root less.prems(2) by (simp add: isqrt_step.simps [of v root] step Let_def)
  next
    case False
    have "1 \<le> n"
    proof (rule ccontr)
      assume "\<not> 1 \<le> n"
      then have "root + v div root \<le> 1" by (simp add: n_def)
      then have "root = 1" using root q by simp
      then show False using \<open>root + v div root \<le> 1\<close> assms(1) by simp
    qed
    moreover have "v < (n + 1) * (n + 1)" using newton_above [OF root] by (simp add: n_def)
    ultimately show ?thesis using False less.hyps [of n] by (simp add: isqrt_step.simps [of v root] step Let_def)
  qed
qed

text \<open>\<open>isqrt\<close> always ends, and floors.\<close>

lemma isqrt_correct: "0 \<le> v \<Longrightarrow> \<exists>r. isqrt v = Some r \<and> 0 \<le> r \<and> r * r \<le> v \<and> v < (r + 1) * (r + 1)"
proof -
  assume v: "0 \<le> v"
  consider "v = 0" | "v = 1" | "2 \<le> v" using v by linarith
  then show ?thesis
  proof cases
    case 3
    have sq: "0 < v * v" using 3 by (intro mult_pos_pos) simp_all
    have "v < (v + 1) * (v + 1)" unfolding distrib_left distrib_right mult_1 mult_1_right using 3 sq by linarith
    then show ?thesis using isqrt_step_correct [of v v] 3 by (simp add: isqrt_def)
  qed (simp_all add: isqrt_def)
qed

section \<open>Scaling\<close>

lemma scaleUnits_nonneg: "0 \<le> amount \<Longrightarrow> 0 \<le> scaleUnits amount f t"
  by (simp add: scaleUnits_def sdiv_floor pos_imp_zdiv_nonneg_iff)

lemma scaleUnits_down: "0 \<le> amount \<Longrightarrow> t \<le> f \<Longrightarrow> scaleUnits amount f t = amount div 10 ^ (f - t)"
  by (simp add: scaleUnits_def sdiv_floor)

lemma scaleUnits_mono: "0 \<le> a \<Longrightarrow> a \<le> b \<Longrightarrow> scaleUnits a f t \<le> scaleUnits b f t"
  by (auto simp: scaleUnits_def sdiv_floor zdiv_mono1)

section \<open>Pools\<close>

lemma require_Some [simp]: "(if b then Some () else None) = Some u \<longleftrightarrow> b"
  by simp

lemma bind_require [simp]: "Option.bind (if b then Some () else None) f = (if b then f () else None)"
  by simp

lemma assertPool_facts:
  assumes "assertPool pool = Some u"
  shows "0 < lp_initialWireAmount pool \<and> lp_initialWireAmount pool < PoolSeedLimit \<and>
    lp_initialChainAmount pool < PoolSeedLimit \<and> lp_custodyTotal pool \<le> AssetMaxAmount \<and>
    (\<exists>shares. isqrt (lp_initialChainAmount pool * lp_initialWireAmount pool) = Some shares \<and> lp_lockedShares pool < shares)"
  using assms by (auto simp: assertPool_def bind_eq_Some_conv split: if_splits)

lemma createPool_facts:
  assumes "createPool sv source = Some (pool, placeholders)"
  shows "lp_custodyTotal pool = ps_custodyTotal source \<and> 0 < lp_initialChainAmount pool \<and>
    syndicatedTotal (ps_syndications source) + lp_initialChainAmount pool = lp_custodyTotal pool \<and>
    lp_chainCode pool = ps_chainCode source \<and> lp_tokenCode pool = ps_tokenCode source \<and> assertPool pool = Some ()"
    "\<exists>pricing ph. resolvePricing source = Some (pricing, ph) \<and> 0 < pp_highestTranchePriceUsd pricing \<and>
    lp_initialWireAmount pool = (lp_initialChainAmount pool * pp_nativePriceUsd pricing) sdiv pp_highestTranchePriceUsd pricing"
proof -
  obtain pricing ph where *: "ps_custodyTotal source - syndicatedTotal (ps_syndications source) > 0"
    "resolvePricing source = Some (pricing, ph)" "assertPool pool = Some ()"
    "lp_custodyTotal pool = ps_custodyTotal source"
    "lp_initialChainAmount pool = ps_custodyTotal source - syndicatedTotal (ps_syndications source)"
    "lp_chainCode pool = ps_chainCode source" "lp_tokenCode pool = ps_tokenCode source"
    "lp_initialWireAmount pool = ((ps_custodyTotal source - syndicatedTotal (ps_syndications source)) * pp_nativePriceUsd pricing)
       sdiv pp_highestTranchePriceUsd pricing"
    using assms by (auto simp: createPool_def Let_def bind_eq_Some_conv split: if_splits)
  moreover have "0 < pp_highestTranchePriceUsd pricing"
    using *(2) by (auto simp: resolvePricing_def Let_def split: if_splits)
  ultimately show "lp_custodyTotal pool = ps_custodyTotal source \<and> 0 < lp_initialChainAmount pool \<and>
      syndicatedTotal (ps_syndications source) + lp_initialChainAmount pool = lp_custodyTotal pool \<and>
      lp_chainCode pool = ps_chainCode source \<and> lp_tokenCode pool = ps_tokenCode source \<and> assertPool pool = Some ()"
    "\<exists>pricing ph. resolvePricing source = Some (pricing, ph) \<and> 0 < pp_highestTranchePriceUsd pricing \<and>
      lp_initialWireAmount pool = (lp_initialChainAmount pool * pp_nativePriceUsd pricing) sdiv pp_highestTranchePriceUsd pricing"
    by auto
qed

text \<open>The WIRE side is worth what the liq side is worth, up to less than one WIRE subunit.\<close>

lemma pool_value:
  assumes "createPool sv source = Some (pool, placeholders)"
  shows "\<exists>pricing ph. resolvePricing source = Some (pricing, ph) \<and>
    lp_initialWireAmount pool * pp_highestTranchePriceUsd pricing \<le> lp_initialChainAmount pool * pp_nativePriceUsd pricing \<and>
    lp_initialChainAmount pool * pp_nativePriceUsd pricing < (lp_initialWireAmount pool + 1) * pp_highestTranchePriceUsd pricing"
proof -
  obtain pricing ph where p: "resolvePricing source = Some (pricing, ph)" "0 < pp_highestTranchePriceUsd pricing"
    "lp_initialWireAmount pool = (lp_initialChainAmount pool * pp_nativePriceUsd pricing) sdiv pp_highestTranchePriceUsd pricing"
    using createPool_facts(2) [OF assms] by blast
  have wire: "0 < lp_initialWireAmount pool" and liq: "0 < lp_initialChainAmount pool"
    using createPool_facts(1) [OF assms] assertPool_facts by blast+
  have "0 \<le> lp_initialChainAmount pool * pp_nativePriceUsd pricing"
  proof (rule ccontr)
    assume "\<not> ?thesis"
    then have "lp_initialWireAmount pool \<le> 0"
      unfolding p(3) using p(2) by (simp add: signed_divide_int_def sgn_if pos_imp_zdiv_nonneg_iff)
    with wire show False by simp
  qed
  then have "lp_initialWireAmount pool = (lp_initialChainAmount pool * pp_nativePriceUsd pricing) div pp_highestTranchePriceUsd pricing"
    using p(2,3) by (simp add: sdiv_floor)
  then show ?thesis using p(1) quotient_bounds [OF p(2), of "lp_initialChainAmount pool * pp_nativePriceUsd pricing"] by auto
qed

section \<open>Claims\<close>

definition owed_to :: "(string \<times> int) list \<Rightarrow> string \<Rightarrow> int" where
  "owed_to owed address = (\<Sum>(a, n) \<leftarrow> owed. if a = address then n else 0)"

definition claim_of :: "claim_credit list \<Rightarrow> string \<Rightarrow> int" where
  "claim_of claims address = (\<Sum>claim \<leftarrow> claims. if cl_native_address claim = address then cl_wire_atomic claim else 0)"

lemma owed_to_simps [simp]:
  "owed_to [] a = 0" "owed_to (e # owed) a = (if fst e = a then snd e else 0) + owed_to owed a"
  "owed_to (xs @ ys) a = owed_to xs a + owed_to ys a"
  by (simp_all add: owed_to_def case_prod_unfold)

lemma owed_to_nonneg: "\<forall>e \<in> set owed. 0 \<le> snd e \<Longrightarrow> 0 \<le> owed_to owed a"
  by (induction owed) auto

lemma owed_to_absent: "a \<notin> fst ` set owed \<Longrightarrow> owed_to owed a = 0"
  by (induction owed) auto

lemma owed_to_mset: "mset xs = mset ys \<Longrightarrow> owed_to xs a = owed_to ys a"
  by (simp add: owed_to_def flip: sum_mset_sum_list)

lemma fold_owed:
  assumes "distinct (map fst acc)"
  shows "distinct (map fst (fold add_owed owed acc))" "fst ` set (fold add_owed owed acc) = fst ` set acc \<union> fst ` set owed"
    "getOrElse (map_of (fold add_owed owed acc) a) 0 = getOrElse (map_of acc a) 0 + owed_to owed a"
proof -
  have step: "distinct (map fst (add_owed e acc))" "fst ` set (add_owed e acc) = insert (fst e) (fst ` set acc)"
    "getOrElse (map_of (add_owed e acc) a) 0 = getOrElse (map_of acc a) 0 + (if fst e = a then snd e else 0)"
    if "distinct (map fst acc)" for e acc
    using that by (simp_all add: add_owed_def distinct_update dom_update [unfolded dom_map_of_conv_image_fst] update_conv' getOrElse_def)
  show "distinct (map fst (fold add_owed owed acc))" "fst ` set (fold add_owed owed acc) = fst ` set acc \<union> fst ` set owed"
    "getOrElse (map_of (fold add_owed owed acc) a) 0 = getOrElse (map_of acc a) 0 + owed_to owed a"
    using assms by (induction owed arbitrary: acc) (auto simp: step)
qed

lemma owed_totals_facts:
  "distinct (map fst (owed_totals owed))" "fst ` set (owed_totals owed) = fst ` set owed"
  "(a, n) \<in> set (owed_totals owed) \<Longrightarrow> n = owed_to owed a"
proof -
  show d: "distinct (map fst (owed_totals owed))" "fst ` set (owed_totals owed) = fst ` set owed"
    by (simp_all add: owed_totals_def fold_owed)
  show "n = owed_to owed a" if "(a, n) \<in> set (owed_totals owed)"
    using fold_owed(3) [of "[]" owed a] map_of_is_SomeI [OF d(1) that] by (simp add: owed_totals_def getOrElse_def)
qed

lemma mset_owed_totals:
  assumes "mset xs = mset ys"
  shows "mset (owed_totals xs) = mset (owed_totals ys)"
proof -
  have "set (owed_totals zs) = (\<lambda>a. (a, owed_to zs a)) ` (fst ` set zs)" for zs
  proof -
    have "e = (fst e, owed_to zs (fst e))" if "e \<in> set (owed_totals zs)" for e
      using owed_totals_facts(3) [of "fst e" "snd e" zs] that by (cases e) simp
    then have "set (owed_totals zs) = (\<lambda>e. (fst e, owed_to zs (fst e))) ` set (owed_totals zs)" by force
    then show ?thesis by (simp add: image_image flip: owed_totals_facts(2) [of zs])
  qed
  then have "set (owed_totals xs) = set (owed_totals ys)"
    using owed_to_mset [OF assms] mset_eq_setD [OF assms] by simp
  then show ?thesis
    using owed_totals_facts(1) by (subst set_eq_iff_mset_eq_distinct [symmetric]) (auto simp: distinct_map)
qed

lemma sort_key_mset:
  assumes "mset xs = mset ys" "distinct (map f xs)"
  shows "sort_key f xs = sort_key f ys"
proof (rule properties_for_sort_key)
  have single: "filter (\<lambda>x. f k = f x) zs = [k]" if "distinct (map f zs)" "k \<in> set zs" for k zs
    using that by (induction zs) (auto simp: filter_empty_conv image_iff)
  have d: "distinct (map f (sort_key f ys))"
    using assms by (metis mset_map mset_sort mset_eq_imp_distinct_iff)
  show "mset (sort_key f ys) = mset xs" using assms(1) by simp
  show "filter (\<lambda>x. f k = f x) (sort_key f ys) = filter (\<lambda>x. f k = f x) xs" if "k \<in> set (sort_key f ys)" for k
    using single [OF d, of k] single [OF assms(2), of k] that mset_eq_setD [OF assms(1)] by simp
qed simp

lemma claim_of_mset: "mset xs = mset ys \<Longrightarrow> claim_of xs a = claim_of ys a"
  by (simp add: claim_of_def flip: sum_mset_sum_list)

definition claims_of_totals :: "(string \<times> int) list \<Rightarrow> nat \<Rightarrow> claim_credit list" where
  "claims_of_totals totals d = filter (\<lambda>claim. cl_wire_atomic claim > 0)
     (map (\<lambda>(a, amount). \<lparr>cl_native_address = a, cl_wire_atomic = scaleUnits amount d WIRE_PRECISION\<rparr>) totals)"

lemma createClaims_eq:
  "createClaims owed d = (if list_all (\<lambda>claim. cl_wire_atomic claim \<le> AssetMaxAmount) (claims_of_totals (owed_totals owed) d)
     then Some (sort_key cl_native_address (claims_of_totals (owed_totals owed) d)) else None)"
  by (simp add: createClaims_def claims_of_totals_def Let_def)

lemma claims_of_totals_addresses: "cl_native_address ` set (claims_of_totals xs d) \<subseteq> fst ` set xs"
  by (force simp: claims_of_totals_def)

lemma claims_of_totals_distinct: "distinct (map fst xs) \<Longrightarrow> distinct (map cl_native_address (claims_of_totals xs d))"
proof (induction xs)
  case (Cons x xs)
  then show ?case using claims_of_totals_addresses [of xs d]
    by (auto simp: claims_of_totals_def case_prod_unfold)
qed (simp add: claims_of_totals_def)

lemma claim_of_absent: "a \<notin> cl_native_address ` set claims \<Longrightarrow> claim_of claims a = 0"
  by (induction claims) (auto simp: claim_of_def)

lemma claim_of_totals:
  "distinct (map fst xs) \<Longrightarrow>
     claim_of (claims_of_totals xs d) a = max 0 (scaleUnits (getOrElse (map_of xs a) 0) d WIRE_PRECISION)"
proof (induction xs)
  case (Cons x xs)
  have "claim_of (claims_of_totals xs d) a = 0" if "a \<notin> fst ` set xs"
    using that claims_of_totals_addresses [of xs d] by (intro claim_of_absent) auto
  then show ?case using Cons
    by (auto simp: claims_of_totals_def claim_of_def case_prod_unfold getOrElse_def)
qed (simp add: claims_of_totals_def claim_of_def getOrElse_def scaleUnits_def)

lemma createClaims_facts:
  assumes "createClaims owed d = Some claims" "\<forall>e \<in> set owed. 0 \<le> snd e"
  shows "distinct (map cl_native_address claims)" "sorted (map cl_native_address claims)"
    "claim_of claims a = scaleUnits (owed_to owed a) d WIRE_PRECISION"
    "\<forall>claim \<in> set claims. 0 < cl_wire_atomic claim \<and> cl_wire_atomic claim \<le> AssetMaxAmount"
proof -
  let ?cs = "claims_of_totals (owed_totals owed) d"
  have claims: "claims = sort_key cl_native_address ?cs" "list_all (\<lambda>claim. cl_wire_atomic claim \<le> AssetMaxAmount) ?cs"
    using assms(1) by (auto simp: createClaims_eq split: if_splits)
  have "distinct (map cl_native_address ?cs)" by (rule claims_of_totals_distinct) (rule owed_totals_facts)
  then show "distinct (map cl_native_address claims)"
    unfolding claims(1) by (metis mset_map mset_sort mset_eq_imp_distinct_iff)
  show "sorted (map cl_native_address claims)" unfolding claims(1) by simp
  have "claim_of claims a = claim_of ?cs a" unfolding claims(1) by (rule claim_of_mset) simp
  also have "\<dots> = max 0 (scaleUnits (owed_to owed a) d WIRE_PRECISION)"
    using claim_of_totals [OF owed_totals_facts(1)] fold_owed(3) [of "[]" owed a] by (simp add: owed_totals_def getOrElse_def)
  finally show "claim_of claims a = scaleUnits (owed_to owed a) d WIRE_PRECISION"
    using scaleUnits_nonneg [OF owed_to_nonneg [OF assms(2)]] by simp
  show "\<forall>claim \<in> set claims. 0 < cl_wire_atomic claim \<and> cl_wire_atomic claim \<le> AssetMaxAmount"
    using claims(2) by (auto simp: claims(1) list_all_iff) (auto simp: claims_of_totals_def)
qed

lemma createClaims_mset: "mset xs = mset ys \<Longrightarrow> createClaims xs d = createClaims ys d"
proof -
  assume "mset xs = mset ys"
  note totals = mset_owed_totals [OF this]
  have cs: "mset (claims_of_totals (owed_totals xs) d) = mset (claims_of_totals (owed_totals ys) d)"
    unfolding claims_of_totals_def mset_filter mset_map totals ..
  have "list_all P (claims_of_totals (owed_totals xs) d) = list_all P (claims_of_totals (owed_totals ys) d)" for P
    using mset_eq_setD [OF cs] by (simp add: list_all_iff)
  moreover have "sort_key cl_native_address (claims_of_totals (owed_totals xs) d) = sort_key cl_native_address (claims_of_totals (owed_totals ys) d)"
    by (rule sort_key_mset [OF cs claims_of_totals_distinct [OF owed_totals_facts(1)]])
  ultimately show ?thesis by (simp only: createClaims_eq)
qed

section \<open>The order of the rows\<close>

lemma those_None: "those xs = None \<longleftrightarrow> None \<in> set xs"
  by (induction xs) (auto split: option.splits)

lemma those_mset:
  assumes "mset xs = mset ys"
  shows "rel_option (\<lambda>us vs. mset us = mset vs) (those (map f xs)) (those (map f ys))"
proof (cases "those (map f xs)")
  case None
  then have "those (map f ys) = None" using mset_eq_setD [OF assms] by (simp add: those_None)
  with None show ?thesis by simp
next
  case (Some us)
  then have "None \<notin> set (map f ys)" using mset_eq_setD [OF assms] by (metis those_None image_set option.distinct(1))
  then obtain vs where vs: "those (map f ys) = Some vs" using those_None by (metis option.exhaust)
  have "map f xs = map Some us" "map f ys = map Some vs" using Some vs by (simp_all add: those_Some)
  then have "us = map (the \<circ> f) xs" "vs = map (the \<circ> f) ys"
    by (auto simp flip: map_map)  (metis comp_def map_idI map_map option.sel)+
  then show ?thesis using Some vs assms by simp
qed

section \<open>Addresses and keys\<close>

lemma lower_char_eq:
  "lower_char ch = CHR ''0'' \<longleftrightarrow> ch = CHR ''0''" "lower_char ch = CHR ''x'' \<longleftrightarrow> ch \<in> {CHR ''x'', CHR ''X''}"
proof -
  have code: "ch = c \<longleftrightarrow> (of_char ch :: nat) = of_char c" for ch c :: char by simp
  have lower: "(of_char (lower_char ch) :: nat) = (if 65 \<le> (of_char ch :: nat) \<and> (of_char ch :: nat) \<le> 90 then of_char ch + 32 else of_char ch)"
    by (simp add: lower_char_def of_char_of)
  show "lower_char ch = CHR ''0'' \<longleftrightarrow> ch = CHR ''0''" "lower_char ch = CHR ''x'' \<longleftrightarrow> ch \<in> {CHR ''x'', CHR ''X''}"
    unfolding insert_iff code [of "lower_char ch"] code [of ch] lower by simp_all arith
qed

text \<open>The display form depends on the lower-case text only.\<close>

lemma evmDisplayHex_lower: "evmDisplayHex s = EvmHexPrefix @ (if take 2 (lower s) = ''0x'' then drop 2 (lower s) else lower s)"
proof -
  have "take 2 s \<in> {''0x'', ''0X''} \<longleftrightarrow> take 2 (lower s) = ''0x''"
    by (cases s rule: remdups_adj.cases) (auto simp: lower_def lower_char_eq)
  then show ?thesis by (auto simp: evmDisplayHex_def strip_hex_prefix_def lower_def drop_map)
qed

lemma isKeyOf_unique:
  "isKeyOf sv key a \<Longrightarrow> isKeyOf sv key' b \<Longrightarrow> evmDisplayHex key = evmDisplayHex key' \<Longrightarrow> evmDisplayHex a = evmDisplayHex b"
  by (simp add: isKeyOf_def evmDisplayHex_lower [of a] evmDisplayHex_lower [of b] split: option.splits)

lemma distinct_map_finer:
  "distinct (map g xs) \<Longrightarrow> (\<And>x y. x \<in> set xs \<Longrightarrow> y \<in> set xs \<Longrightarrow> f x = f y \<Longrightarrow> g x = g y) \<Longrightarrow> distinct (map f xs)"
  unfolding distinct_map inj_on_def by blast

section \<open>The Ethereum export\<close>

definition ethereum_owed :: "ethereum_snapshot \<Rightarrow> (string \<times> int) list" where
  "ethereum_owed snapshot = map (\<lambda>p. (ep_address p, ep_totalPretokens p)) (eg_purchasers snapshot) @
     map (\<lambda>s. (es_address s, es_pretokenYield s)) (eg_stakers snapshot)"

definition ethereum_source :: "lco_chain_config \<Rightarrow> ethereum_snapshot \<Rightarrow> string \<Rightarrow> syndication_spec list \<Rightarrow> pool_source" where
  "ethereum_source cfg snapshot tokenCode syndications =
     \<lparr>ps_chainConfig = cfg, ps_member = ''ethereum'', ps_chainCode = ETHEREUM_CHAIN_CODENAME, ps_tokenCode = tokenCode,
      ps_custodyTotal = scaleUnits (getOrElse (em_lastPoolLiqBalance (eg_metadata snapshot))
        (scaleUnits (syndicatedTotal syndications) LIQ_TOKEN_PRECISION EthereumDecimals + em_totalLiqEthPurchased (eg_metadata snapshot)))
        EthereumDecimals LIQ_TOKEN_PRECISION,
      ps_syndications = syndications, ps_exportedTranchePriceUsd = em_highestTranchePriceUsd (eg_metadata snapshot),
      ps_placeholderNativePriceUsd = PlaceholderEthereumPriceUsd\<rparr>"

lemma ethereum_derivationE:
  assumes "ethereum_derivation sv cfg s = Some d"
  obtains tok specs ph owed where "liqTokenCode ETHEREUM_CHAIN_CODENAME = Some tok" "ethereum_checks sv s = Some ()"
    "those (map (staker_spec tok) (staker_positions s)) = Some specs" "sortSyndications specs = Some (cp_syndications (cd_plan d))"
    "createPool sv (ethereum_source cfg s tok (cp_syndications (cd_plan d))) = Some (cp_pool (cd_plan d), ph)"
    "native_owed sv EVM (ethereum_owed s) = Some owed" "createClaims owed EthereumDecimals = Some (cp_claims (cd_plan d))"
    "cp_chain (cd_plan d) = EVM"
  using assms that
  by (auto simp: ethereum_derivation_def Let_def bind_eq_Some_conv simp flip: ethereum_owed_def ethereum_source_def)

lemma staker_position_facts: "map fst (staker_positions s) = filter (\<lambda>x. scaleUnits (es_netPrincipal x) EthereumDecimals LIQ_TOKEN_PRECISION > 0) (eg_stakers s)"
  "(x, n) \<in> set (staker_positions s) \<Longrightarrow> x \<in> set (eg_stakers s) \<and> 0 < n"
  by (auto simp: staker_positions_def filter_map comp_def)

lemma staker_specs:
  assumes "those (map (staker_spec tok) ps) = Some specs"
  shows "map sy_pubkey specs = map (evmDisplayHex \<circ> the \<circ> es_pubkey \<circ> fst) ps" "map sy_amount specs = map snd ps"
    "list_all (\<lambda>spec. sy_chainCode spec = ETHEREUM_CHAIN_CODENAME \<and> sy_tokenCode spec = tok) specs"
  using assms by (induction ps arbitrary: specs) (auto simp: staker_spec_def split: option.splits prod.splits)

lemma ethereum_pubkeys_distinct:
  assumes "ethereum_checks sv s = Some ()" "those (map (staker_spec tok) (staker_positions s)) = Some specs"
  shows "distinct (map sy_pubkey specs)"
proof -
  have c: "list_all (\<lambda>(staker, _). es_pubkey staker \<noteq> None) (staker_positions s)"
    "list_all (\<lambda>staker. case es_pubkey staker of Some key \<Rightarrow> isKeyOf sv key (es_address staker) | None \<Rightarrow> True) (eg_stakers s)"
    "distinct (map (evmDisplayHex \<circ> es_address) (eg_stakers s))"
    using assms(1) by (auto simp: ethereum_checks_def Let_def assertUnique_def bind_eq_Some_conv split: if_splits)
  have "distinct (map (evmDisplayHex \<circ> es_address) (map fst (staker_positions s)))"
    unfolding staker_position_facts(1) by (rule distinct_map_filter [OF c(3)])
  then have "distinct (map (evmDisplayHex \<circ> the \<circ> es_pubkey) (map fst (staker_positions s)))"
  proof (rule distinct_map_finer)
    fix x y assume xy: "x \<in> set (map fst (staker_positions s))" "y \<in> set (map fst (staker_positions s))"
      "(evmDisplayHex \<circ> the \<circ> es_pubkey) x = (evmDisplayHex \<circ> the \<circ> es_pubkey) y"
    have key: "\<exists>k. es_pubkey z = Some k \<and> isKeyOf sv k (es_address z)" if z: "z \<in> set (map fst (staker_positions s))" for z
    proof -
      obtain n where n: "(z, n) \<in> set (staker_positions s)" using z by auto
      then obtain k where "es_pubkey z = Some k" using c(1) by (auto simp: list_all_iff)
      moreover have "z \<in> set (eg_stakers s)" using staker_position_facts(2) [OF n] by simp
      ultimately show ?thesis using c(2) by (auto simp: list_all_iff split: option.splits)
    qed
    obtain k k' where "es_pubkey x = Some k" "isKeyOf sv k (es_address x)" "es_pubkey y = Some k'" "isKeyOf sv k' (es_address y)"
      using key [OF xy(1)] key [OF xy(2)] by blast
    then show "(evmDisplayHex \<circ> es_address) x = (evmDisplayHex \<circ> es_address) y"
      using xy(3) isKeyOf_unique [of sv k "es_address x" k' "es_address y"] by simp
  qed
  then show ?thesis by (simp add: staker_specs(1) [OF assms(2)] comp_assoc)
qed


lemma sortSyndications_facts:
  assumes "sortSyndications specs = Some syndications"
  shows "mset syndications = mset specs" "list_all (\<lambda>spec. sy_amount spec \<le> AssetMaxAmount) syndications"
    "distinct (map sy_pubkey specs) \<Longrightarrow> distinct (map sy_pubkey syndications)" "sorted (map sy_pubkey syndications)"
proof -
  have s: "syndications = sort_key sy_pubkey specs" "list_all (\<lambda>spec. sy_amount spec \<le> AssetMaxAmount) specs"
    using assms by (auto simp: sortSyndications_def split: if_splits)
  show "mset syndications = mset specs" "list_all (\<lambda>spec. sy_amount spec \<le> AssetMaxAmount) syndications"
    "sorted (map sy_pubkey syndications)" using s by (simp_all add: list_all_iff)
  show "distinct (map sy_pubkey syndications)" if "distinct (map sy_pubkey specs)"
    using that unfolding s(1) by (metis mset_map mset_sort mset_eq_imp_distinct_iff)
qed

lemma syndicatedTotal_mset: "mset xs = mset ys \<Longrightarrow> syndicatedTotal xs = syndicatedTotal ys"
  by (simp add: syndicatedTotal_def flip: sum_mset_sum_list)

lemma sortSyndications_mset:
  "mset xs = mset ys \<Longrightarrow> distinct (map sy_pubkey xs) \<Longrightarrow> sortSyndications xs = sortSyndications ys"
  using sort_key_mset [of xs ys sy_pubkey] mset_eq_setD [of xs ys] by (simp add: sortSyndications_def list_all_iff)

lemma native_owed_nonneg:
  "native_owed sv chain rows = Some owed \<Longrightarrow> \<forall>e \<in> set rows. 0 \<le> snd e \<Longrightarrow> \<forall>e \<in> set owed. 0 \<le> snd e"
  by (auto simp: native_owed_def those_Some_iff list_all2_conv_all_nth in_set_conv_nth split: prod.splits)
    (metis fst_conv snd_conv nth_mem prod.collapse)

lemma native_owed_sum:
  "native_owed sv chain rows = Some owed \<Longrightarrow>
     owed_to owed h = (\<Sum>(a, n) \<leftarrow> rows. if nativeBytesHex sv chain a = Some h then n else 0)"
proof (induction rows arbitrary: owed)
  case (Cons row rows)
  obtain a n where row: "row = (a, n)" by (cases row)
  obtain b rest where "nativeBytesHex sv chain a = Some b" "native_owed sv chain rows = Some rest" "owed = (b, n) # rest"
    using Cons.prems by (auto simp: native_owed_def row split: option.splits)
  then show ?case using Cons.IH by (simp add: row)
qed (simp add: native_owed_def)

lemma ethereum_schema_owed: "EthereumGenesisSnapshotSchema s \<Longrightarrow> \<forall>e \<in> set (ethereum_owed s). 0 \<le> snd e"
  by (auto simp: EthereumGenesisSnapshotSchema_def EthereumGenesisStakerSchema_def EthereumGenesisPurchaserSchema_def
      ethereum_owed_def list_all_iff)

text \<open>C22: Every address of the Ethereum export is credited once, with exactly the pretokens of its purchases and its stakes
  together, at one WIRE per pretoken rounded down to the WIRE subunit.\<close>

theorem claims_are_owed:
  assumes "ethereum_derivation sv cfg s = Some d" "EthereumGenesisSnapshotSchema s"
  shows "distinct (map cl_native_address (cp_claims (cd_plan d))) \<and>
    (\<forall>h. claim_of (cp_claims (cd_plan d)) h =
       ((\<Sum>p \<leftarrow> eg_purchasers s. if nativeBytesHex sv EVM (ep_address p) = Some h then ep_totalPretokens p else 0) +
        (\<Sum>x \<leftarrow> eg_stakers s. if nativeBytesHex sv EVM (es_address x) = Some h then es_pretokenYield x else 0)) div 10 ^ 9)"
proof -
  obtain owed where o: "native_owed sv EVM (ethereum_owed s) = Some owed"
    "createClaims owed EthereumDecimals = Some (cp_claims (cd_plan d))"
    using assms(1) by (rule ethereum_derivationE)
  note nonneg = native_owed_nonneg [OF o(1) ethereum_schema_owed [OF assms(2)]]
  note claims = createClaims_facts [OF o(2) nonneg]
  have "claim_of (cp_claims (cd_plan d)) h = owed_to owed h div 10 ^ 9" for h
    using claims(3) scaleUnits_down [OF owed_to_nonneg [OF nonneg]] by (simp add: EthereumDecimals_def WIRE_PRECISION_def)
  then show ?thesis using claims(1) native_owed_sum [OF o(1)]
    by (simp add: ethereum_owed_def comp_def)
qed

lemma ethereum_checks_mset:
  assumes "mset (eg_stakers s) = mset (eg_stakers t)" "mset (eg_purchasers s) = mset (eg_purchasers t)" "eg_metadata s = eg_metadata t"
  shows "ethereum_checks sv s = ethereum_checks sv t"
proof -
  have positions: "mset (staker_positions s) = mset (staker_positions t)"
    unfolding staker_positions_def mset_filter mset_map assms(1) ..
  have all: "list_all P xs = list_all P ys" if "mset xs = mset ys" for P and xs ys :: "'b list"
    using mset_eq_setD [OF that] by (simp add: list_all_iff)
  have sums: "(\<Sum>x \<leftarrow> xs. f x) = (\<Sum>y \<leftarrow> ys. f y)" if "mset xs = mset ys" for f :: "'b \<Rightarrow> int" and xs ys
    using that by (simp flip: sum_mset_sum_list)
  have uniq: "assertUnique (map f xs) = assertUnique (map f ys)" if "mset xs = mset ys" for f :: "'b \<Rightarrow> string" and xs ys
    using that unfolding assertUnique_def by (metis mset_map mset_eq_imp_distinct_iff)
  have rows: "assertRowTotals (map f xs) = assertRowTotals (map f ys)" if "mset xs = mset ys" for f :: "'b \<Rightarrow> int \<times> int" and xs ys
    using mset_eq_setD [OF that] by (simp add: assertRowTotals_def list_all_iff)
  show ?thesis
    unfolding ethereum_checks_def Let_def assms(3) all [OF positions] all [OF assms(1)] sums [OF assms(1)] sums [OF assms(2)]
      uniq [OF assms(1)] uniq [OF assms(2)] rows [OF assms(2)] ..
qed

lemma native_owed_mset:
  "mset xs = mset ys \<Longrightarrow> rel_option (\<lambda>us vs. mset us = mset vs) (native_owed sv chain xs) (native_owed sv chain ys)"
  unfolding native_owed_def by (rule those_mset)

lemma ethereum_derivation_eq:
  "ethereum_derivation sv cfg s = do {
     tok \<leftarrow> liqTokenCode ETHEREUM_CHAIN_CODENAME;
     ethereum_checks sv s;
     syndications \<leftarrow> Option.bind (those (map (staker_spec tok) (staker_positions s))) sortSyndications;
     (pool, placeholders) \<leftarrow> createPool sv (ethereum_source cfg s tok syndications);
     claims \<leftarrow> Option.bind (native_owed sv EVM (ethereum_owed s)) (\<lambda>owed. createClaims owed EthereumDecimals);
     Some \<lparr>cd_plan = \<lparr>cp_chain = EVM, cp_bootstrapJsonFile = lc_bootstrapJsonFile cfg, cp_programId = None,
               cp_syndications = syndications, cp_claims = claims, cp_pool = pool\<rparr>,
           cd_placeholders =
             (if em_lastPoolLiqBalance (eg_metadata s) = None
              then [\<lparr>ph_setting = lc_bootstrapJsonFile cfg @ '': metadata.lastPoolLiqBalance'',
                     ph_value = decimal (nat (scaleUnits (syndicatedTotal syndications) LIQ_TOKEN_PRECISION EthereumDecimals
                       + em_totalLiqEthPurchased (eg_metadata s)))\<rparr>]
              else []) @ placeholders\<rparr>
   }"
  by (simp add: ethereum_derivation_def Let_def ethereum_source_def ethereum_owed_def)

text \<open>C23: The order in which the Ethereum export lists its stakers and its purchasers does not matter: the derivation gives
  the same plan with the same placeholders, or fails for both orders.\<close>

theorem import_is_order_free:
  assumes "mset (eg_stakers s) = mset (eg_stakers t)" "mset (eg_purchasers s) = mset (eg_purchasers t)" "eg_metadata s = eg_metadata t"
  shows "ethereum_derivation sv cfg s = ethereum_derivation sv cfg t"
proof (cases "liqTokenCode ETHEREUM_CHAIN_CODENAME")
  case (Some tok)
  note checks = ethereum_checks_mset [OF assms]
  have positions: "mset (staker_positions s) = mset (staker_positions t)"
    unfolding staker_positions_def mset_filter mset_map assms(1) ..
  have "mset (ethereum_owed s) = mset (ethereum_owed t)" by (simp add: ethereum_owed_def assms)
  then have "rel_option (\<lambda>us vs. mset us = mset vs) (native_owed sv EVM (ethereum_owed s)) (native_owed sv EVM (ethereum_owed t))"
    by (rule native_owed_mset)
  then have claims: "Option.bind (native_owed sv EVM (ethereum_owed s)) (\<lambda>owed. createClaims owed EthereumDecimals) =
      Option.bind (native_owed sv EVM (ethereum_owed t)) (\<lambda>owed. createClaims owed EthereumDecimals)"
    by (cases rule: option.rel_cases) (auto intro: createClaims_mset)
  have specs: "Option.bind (those (map (staker_spec tok) (staker_positions s))) sortSyndications =
      Option.bind (those (map (staker_spec tok) (staker_positions t))) sortSyndications" if "ethereum_checks sv s = Some ()"
    using those_mset [OF positions, of "staker_spec tok"] ethereum_pubkeys_distinct [OF that, of tok]
    by (cases rule: option.rel_cases) (auto intro!: sortSyndications_mset)
  show ?thesis
  proof (cases "ethereum_checks sv s")
    case None
    then show ?thesis using checks by (simp add: ethereum_derivation_eq Some)
  next
    case (Some u)
    then have ok: "ethereum_checks sv s = Some ()" by simp
    show ?thesis
      unfolding ethereum_derivation_eq ethereum_source_def assms(3) claims \<open>liqTokenCode ETHEREUM_CHAIN_CODENAME = Some tok\<close>
        Option.bind.bind_lunit specs [OF ok] checks ..
  qed
qed (simp add: ethereum_derivation_eq)

section \<open>The Solana export\<close>

definition solana_source :: "lco_chain_config \<Rightarrow> solana_snapshot \<Rightarrow> string \<Rightarrow> syndication_spec list \<Rightarrow> pool_source" where
  "solana_source cfg snapshot tokenCode syndications =
     \<lparr>ps_chainConfig = cfg, ps_member = ''solana'', ps_chainCode = SOLANA_CHAIN_CODENAME, ps_tokenCode = tokenCode,
      ps_custodyTotal = scaleUnits (sa_initialChainAmount (sg_accounting snapshot)) (sa_liqsolDecimals (sg_accounting snapshot))
        LIQ_TOKEN_PRECISION + syndicatedTotal syndications,
      ps_syndications = syndications, ps_exportedTranchePriceUsd = sa_highestTranchePriceUsd (sg_accounting snapshot),
      ps_placeholderNativePriceUsd = PlaceholderSolanaPriceUsd\<rparr>"

lemma solana_source_simps [simp]:
  "ps_syndications (solana_source cfg s tok syndications) = syndications"
  "ps_custodyTotal (solana_source cfg s tok syndications) =
     scaleUnits (sa_initialChainAmount (sg_accounting s)) (sa_liqsolDecimals (sg_accounting s)) LIQ_TOKEN_PRECISION + syndicatedTotal syndications"
  "ps_chainCode (solana_source cfg s tok syndications) = SOLANA_CHAIN_CODENAME" "ps_tokenCode (solana_source cfg s tok syndications) = tok"
  by (simp_all add: solana_source_def)

lemma solana_derivationE:
  assumes "solana_derivation sv cfg s = Some d"
  obtains tok ph owed where "liqTokenCode SOLANA_CHAIN_CODENAME = Some tok" "solana_checks sv (lc_bootstrapJsonFile cfg) s = Some ()"
    "sortSyndications (balance_specs tok s) = Some (cp_syndications (cd_plan d))"
    "createPool sv (solana_source cfg s tok (cp_syndications (cd_plan d))) = Some (cp_pool (cd_plan d), ph)"
    "native_owed sv SVM (map (\<lambda>b. (sb_address b, sb_totalPretokens b)) (sg_balances s)) = Some owed"
    "createClaims owed (sa_pretokenDecimals (sg_accounting s)) = Some (cp_claims (cd_plan d))" "cp_chain (cd_plan d) = SVM"
  using assms that
  by (auto simp: solana_derivation_def Let_def bind_eq_Some_conv simp flip: solana_source_def split: if_splits)

lemma solana_pubkeys_distinct:
  assumes "solana_checks sv file s = Some ()"
  shows "distinct (map sy_pubkey (balance_specs tok s))"
proof -
  have d: "distinct (map sb_address (sg_balances s))"
    using assms by (auto simp: solana_checks_def Let_def assertUnique_def bind_eq_Some_conv split: if_splits)
  show ?thesis unfolding balance_specs_def by (rule distinct_map_filter) (simp add: d comp_def)
qed

lemma solana_positions: "spec \<in> set (balance_specs tok s) \<Longrightarrow> 0 < sy_amount spec"
  by (simp add: balance_specs_def)

text \<open>The Solana pool gets exactly the principal spent on pretokens, and the export backs what is booked.\<close>

lemma solana_pool_is_the_principal:
  assumes "solana_derivation sv cfg s = Some d" "SolanaGenesisSnapshotSchema s"
  shows "lp_initialChainAmount (cp_pool (cd_plan d)) = sa_initialChainAmount (sg_accounting s)"
proof -
  obtain tok ph where pool: "createPool sv (solana_source cfg s tok (cp_syndications (cd_plan d))) = Some (cp_pool (cd_plan d), ph)"
    using assms(1) by (rule solana_derivationE)
  have "sa_liqsolDecimals (sg_accounting s) = 9" "0 \<le> sa_initialChainAmount (sg_accounting s)"
    using assms(2) by (simp_all add: SolanaGenesisSnapshotSchema_def SolanaGenesisAccountingSchema_def)
  then show ?thesis using createPool_facts(1) [OF pool]
    by (simp add: scaleUnits_def LIQ_TOKEN_PRECISION_def sdiv_floor)
qed

text \<open>Without a booked balance in the export, the Ethereum pool gets the purchases, in the depot's precision.\<close>

lemma ethereum_pool_is_the_purchases:
  assumes "ethereum_derivation sv cfg s = Some d" "EthereumGenesisSnapshotSchema s" "em_lastPoolLiqBalance (eg_metadata s) = None"
  shows "lp_initialChainAmount (cp_pool (cd_plan d)) = em_totalLiqEthPurchased (eg_metadata s) div 10 ^ 9"
proof -
  obtain tok specs ph where specs: "those (map (staker_spec tok) (staker_positions s)) = Some specs"
    "sortSyndications specs = Some (cp_syndications (cd_plan d))"
    "createPool sv (ethereum_source cfg s tok (cp_syndications (cd_plan d))) = Some (cp_pool (cd_plan d), ph)"
    using assms(1) by (rule ethereum_derivationE)
  let ?total = "syndicatedTotal (cp_syndications (cd_plan d))"
  have "?total = syndicatedTotal specs" by (rule syndicatedTotal_mset) (rule sortSyndications_facts(1) [OF specs(2)])
  also have "\<dots> = sum_list (map snd (staker_positions s))" using staker_specs(2) [OF specs(1)] by (simp add: syndicatedTotal_def)
  also have "\<dots> \<ge> 0" using staker_position_facts(2) by (intro sum_list_nonneg) (auto intro: less_imp_le)
  finally have "0 \<le> ?total" .
  moreover have "0 \<le> em_totalLiqEthPurchased (eg_metadata s)" using assms(2) by (simp add: EthereumGenesisSnapshotSchema_def)
  ultimately have "lp_custodyTotal (cp_pool (cd_plan d)) = ?total + em_totalLiqEthPurchased (eg_metadata s) div 10 ^ 9"
    using createPool_facts(1) [OF specs(3)] assms(3)
    by (simp add: ethereum_source_def getOrElse_def scaleUnits_def EthereumDecimals_def LIQ_TOKEN_PRECISION_def sdiv_floor add.commute)
  then show ?thesis using createPool_facts(1) [OF specs(3)] by (simp add: ethereum_source_def)
qed

section \<open>The whole plan\<close>

lemma createPlan_parts:
  assumes "createPlan sv (Some config) = Some (Some p)"
  shows "pl_ethereum p = Some c \<Longrightarrow>
      \<exists>cc s d. li_ethereum config = Some cc \<and> ethereum_derivation sv cc s = Some d \<and> EthereumGenesisSnapshotSchema s \<and> c = cd_plan d"
    and "pl_solana p = Some c \<Longrightarrow>
      \<exists>cc s d. li_solana config = Some cc \<and> solana_derivation sv cc s = Some d \<and> SolanaGenesisSnapshotSchema s \<and> c = cd_plan d"
proof -
  obtain e so where parts: "optional_chain (createEthereumPlan sv) (li_ethereum config) = Some e"
    "optional_chain (createSolanaPlan sv) (li_solana config) = Some so"
    "pl_ethereum p = map_option cd_plan e" "pl_solana p = map_option cd_plan so"
    using assms by (auto simp: createPlan_def bind_eq_Some_conv split: if_splits)
  show "\<exists>cc s d. li_ethereum config = Some cc \<and> ethereum_derivation sv cc s = Some d \<and> EthereumGenesisSnapshotSchema s \<and> c = cd_plan d"
    if c: "pl_ethereum p = Some c"
  proof -
    obtain d where d: "e = Some d" "c = cd_plan d" using c parts(3) by auto
    then obtain cc where "li_ethereum config = Some cc" "createEthereumPlan sv cc = Some d"
      using parts(1) by (auto simp: optional_chain_def split: option.splits)
    then show ?thesis using d(2) by (auto simp: createEthereumPlan_def readEthereumExport_def bind_eq_Some_conv split: if_splits)
  qed
  show "\<exists>cc s d. li_solana config = Some cc \<and> solana_derivation sv cc s = Some d \<and> SolanaGenesisSnapshotSchema s \<and> c = cd_plan d"
    if c: "pl_solana p = Some c"
  proof -
    obtain d where d: "so = Some d" "c = cd_plan d" using c parts(4) by auto
    then obtain cc where "li_solana config = Some cc" "createSolanaPlan sv cc = Some d"
      using parts(2) by (auto simp: optional_chain_def split: option.splits)
    then show ?thesis using d(2) by (auto simp: createSolanaPlan_def readSolanaExport_def bind_eq_Some_conv split: if_splits)
  qed
qed

lemma set_chainPlans: "c \<in> set (chainPlans p) \<longleftrightarrow> pl_ethereum p = Some c \<or> pl_solana p = Some c"
  by (auto simp: chainPlans_def List.map_filter_def split: option.splits if_splits)

lemma createPlan_chains:
  assumes "createPlan sv (Some config) = Some (Some p)" "c \<in> set (chainPlans p)"
  shows "(\<exists>cc s d. li_ethereum config = Some cc \<and> ethereum_derivation sv cc s = Some d \<and> EthereumGenesisSnapshotSchema s \<and> c = cd_plan d) \<or>
    (\<exists>cc s d. li_solana config = Some cc \<and> solana_derivation sv cc s = Some d \<and> SolanaGenesisSnapshotSchema s \<and> c = cd_plan d)"
  using createPlan_parts [OF assms(1), of c] assms(2) by (auto simp: set_chainPlans)

lemma chain_syndications:
  assumes "createPlan sv (Some config) = Some (Some p)" "c \<in> set (chainPlans p)"
  shows "distinct (map sy_pubkey (cp_syndications c)) \<and>
    (\<forall>spec \<in> set (cp_syndications c). 0 < sy_amount spec \<and> sy_amount spec \<le> AssetMaxAmount) \<and>
    (\<exists>source ph. createPool sv source = Some (cp_pool c, ph) \<and> ps_syndications source = cp_syndications c)"
  using createPlan_chains [OF assms]
proof (elim disjE exE conjE)
  fix cc s d assume d: "ethereum_derivation sv cc s = Some d" "c = cd_plan d"
  obtain tok specs ph where e: "ethereum_checks sv s = Some ()" "those (map (staker_spec tok) (staker_positions s)) = Some specs"
    "sortSyndications specs = Some (cp_syndications (cd_plan d))"
    "createPool sv (ethereum_source cc s tok (cp_syndications (cd_plan d))) = Some (cp_pool (cd_plan d), ph)"
    using d(1) by (rule ethereum_derivationE)
  have "0 < sy_amount spec" if "spec \<in> set specs" for spec
  proof -
    have "sy_amount spec \<in> set (map snd (staker_positions s))" using that by (simp flip: staker_specs(2) [OF e(2)])
    then show ?thesis using staker_position_facts(2) by fastforce
  qed
  then show ?thesis
    using sortSyndications_facts(1-3) [OF e(3)] ethereum_pubkeys_distinct [OF e(1,2)] e(4) d(2) mset_eq_setD [OF sortSyndications_facts(1) [OF e(3)]]
    by (auto simp: list_all_iff ethereum_source_def)
next
  fix cc s d assume d: "solana_derivation sv cc s = Some d" "c = cd_plan d"
  obtain tok ph where e: "solana_checks sv (lc_bootstrapJsonFile cc) s = Some ()"
    "sortSyndications (balance_specs tok s) = Some (cp_syndications (cd_plan d))"
    "createPool sv (solana_source cc s tok (cp_syndications (cd_plan d))) = Some (cp_pool (cd_plan d), ph)"
    using d(1) by (rule solana_derivationE)
  then show ?thesis
    using sortSyndications_facts(1-3) [OF e(2)] solana_pubkeys_distinct [OF e(1), of tok] solana_positions d(2)
      mset_eq_setD [OF sortSyndications_facts(1) [OF e(2)]]
    by (auto simp: list_all_iff)
qed

text \<open>C21: In every plan each chain's positions and its pool's liq side add up to the booked custody, no public key holds two
  positions, every amount is positive, and every amount fits the depot's asset or the swap's limit.\<close>

theorem custody_is_conserved:
  assumes "createPlan sv (Some config) = Some (Some p)" "c \<in> set (chainPlans p)"
  shows "syndicatedTotal (cp_syndications c) + lp_initialChainAmount (cp_pool c) = lp_custodyTotal (cp_pool c) \<and>
    lp_custodyTotal (cp_pool c) \<le> AssetMaxAmount \<and> distinct (map sy_pubkey (cp_syndications c)) \<and>
    (\<forall>spec \<in> set (cp_syndications c). 0 < sy_amount spec \<and> sy_amount spec \<le> AssetMaxAmount) \<and>
    0 < lp_initialChainAmount (cp_pool c) \<and> lp_initialChainAmount (cp_pool c) < PoolSeedLimit \<and>
    0 < lp_initialWireAmount (cp_pool c) \<and> lp_initialWireAmount (cp_pool c) < PoolSeedLimit \<and>
    planClaimTotal p \<le> AssetMaxAmount"
proof -
  have budget: "planClaimTotal p \<le> AssetMaxAmount"
    using assms(1) by (auto simp: createPlan_def bind_eq_Some_conv split: if_splits)
  note * = chain_syndications [OF assms]
  then obtain source ph where "createPool sv source = Some (cp_pool c, ph)" "ps_syndications source = cp_syndications c" by blast
  then show ?thesis using * budget createPool_facts(1) [of sv source "cp_pool c" ph] assertPool_facts [of "cp_pool c" "()"] by simp
qed

lemma chain_codes:
  assumes "createPlan sv (Some config) = Some (Some p)"
  shows "pl_ethereum p = Some c \<Longrightarrow> lp_chainCode (cp_pool c) = ETHEREUM_CHAIN_CODENAME \<and> cp_chain c = EVM"
    and "pl_solana p = Some c \<Longrightarrow> lp_chainCode (cp_pool c) = SOLANA_CHAIN_CODENAME \<and> cp_chain c = SVM"
proof -
  show "lp_chainCode (cp_pool c) = ETHEREUM_CHAIN_CODENAME \<and> cp_chain c = EVM" if c: "pl_ethereum p = Some c"
  proof -
    obtain cc s d where d: "ethereum_derivation sv cc s = Some d" "c = cd_plan d" using createPlan_parts(1) [OF assms c] by blast
    then show ?thesis using createPool_facts(1) by (auto elim!: ethereum_derivationE simp: ethereum_source_def)
  qed
  show "lp_chainCode (cp_pool c) = SOLANA_CHAIN_CODENAME \<and> cp_chain c = SVM" if c: "pl_solana p = Some c"
  proof -
    obtain cc s d where d: "solana_derivation sv cc s = Some d" "c = cd_plan d" using createPlan_parts(2) [OF assms c] by blast
    then show ?thesis using createPool_facts(1) by (auto elim!: solana_derivationE)
  qed
qed

lemma distinct_chain_codes:
  assumes "createPlan sv (Some config) = Some (Some p)"
  shows "distinct (map (lp_chainCode \<circ> cp_pool) (chainPlans p))"
  using chain_codes(1) [OF assms, of "the (pl_ethereum p)"] chain_codes(2) [OF assms, of "the (pl_solana p)"]
  by (cases "pl_ethereum p"; cases "pl_solana p")
    (simp_all add: chainPlans_def List.map_filter_def ETHEREUM_CHAIN_CODENAME_def SOLANA_CHAIN_CODENAME_def)

lemma distinct_claims:
  assumes "createPlan sv (Some config) = Some (Some p)" "c \<in> set (chainPlans p)"
  shows "distinct (map cl_native_address (cp_claims c))"
proof -
  have "\<exists>owed d rows sv chain. createClaims owed d = Some (cp_claims c) \<and> native_owed sv chain rows = Some owed \<and> (\<forall>e \<in> set rows. 0 \<le> snd e)"
    using createPlan_chains [OF assms]
  proof (elim disjE exE conjE)
    fix cc s d assume "ethereum_derivation sv cc s = Some d" "EthereumGenesisSnapshotSchema s" "c = cd_plan d"
    moreover obtain owed where "native_owed sv EVM (ethereum_owed s) = Some owed" "createClaims owed EthereumDecimals = Some (cp_claims (cd_plan d))"
      using calculation(1) by (rule ethereum_derivationE)
    ultimately show ?thesis using ethereum_schema_owed by blast
  next
    fix cc s d assume "solana_derivation sv cc s = Some d" "SolanaGenesisSnapshotSchema s" "c = cd_plan d"
    moreover from this have "\<forall>e \<in> set (map (\<lambda>b. (sb_address b, sb_totalPretokens b)) (sg_balances s)). 0 \<le> snd e"
      by (auto simp: SolanaGenesisSnapshotSchema_def SolanaGenesisBalanceSchema_def list_all_iff)
    moreover obtain owed where "native_owed sv SVM (map (\<lambda>b. (sb_address b, sb_totalPretokens b)) (sg_balances s)) = Some owed"
      "createClaims owed (sa_pretokenDecimals (sg_accounting s)) = Some (cp_claims (cd_plan d))"
      using calculation(1) by (rule solana_derivationE)
    ultimately show ?thesis by blast
  qed
  then show ?thesis using createClaims_facts(1) native_owed_nonneg by blast
qed

section \<open>An example\<close>

text \<open>Two stakers, one of whom bought pretokens; keys and addresses are the same text up to its length.\<close>

definition example_staker :: "char \<Rightarrow> int \<Rightarrow> int \<Rightarrow> ethereum_staker" where
  "example_staker ch amount pretokens = \<lparr>es_address = ''0x'' @ replicate 40 ch, es_pubkey = Some (''0x02'' @ replicate 64 ch),
     es_netPrincipal = amount, es_pretokenYield = pretokens\<rparr>"

definition example_export :: ethereum_snapshot where
  "example_export =
     \<lparr>eg_stakers = [example_staker CHR ''b'' 3000000000000000000 250000000000000000, example_staker CHR ''a'' 1500000000000000007 0],
      eg_purchasers = [\<lparr>ep_address = ''0x'' @ replicate 40 CHR ''b'', ep_pretokens = 1000000000000000000, ep_liqPrincipalIn = 2000000000000000000,
        ep_pretokenYield = 5, ep_totalPretokens = 1000000000000000005\<rparr>],
      eg_metadata = \<lparr>em_totalPrincipal = 4500000000000000007, em_totalLiqEthStaked = 4500000000000000007,
        em_totalLiqEthPurchased = 2000000000000000000, em_lastPoolLiqBalance = Some 6500000000000000007,
        em_highestTranchePriceUsd = None\<rparr>\<rparr>"

definition example_lco_services :: lco_services where
  "example_lco_services =
     \<lparr>ls_ethereumExport = (\<lambda>_. Some example_export), ls_solanaExport = (\<lambda>_. None), ls_allocationHash = (\<lambda>_. []),
      ls_computeAddress = (\<lambda>key. Some (''0x'' @ take 40 (drop 4 key))),
      ls_nativeBytes = (\<lambda>chain v. Some (drop 2 v)), ls_poolJson = (\<lambda>_. ''pool''), ls_digest = (\<lambda>_. ''digest'')\<rparr>"

definition example_chain_config :: lco_chain_config where
  "example_chain_config = \<lparr>lc_bootstrapJsonFile = ''e.json'', lc_nativePriceUsd = Some ''400000000000'',
     lc_highestTranchePriceUsd = None, lc_pool = None\<rparr>"

definition example_import :: lco_import_config where
  "example_import = \<lparr>li_ethereum = Some example_chain_config, li_solana = None, li_dclaimFundingAccount = None\<rparr>"

lemma example_derivation: "ethereum_derivation example_lco_services example_chain_config example_export \<noteq> None"
  by code_simp

lemma example_schema: "EthereumGenesisSnapshotSchema example_export"
  by code_simp

lemma example_plan: "case createPlan example_lco_services (Some example_import) of Some (Some p) \<Rightarrow> chainPlans p \<noteq> [] | _ \<Rightarrow> False"
  by code_simp

lemma claims_are_owed_witness:
  "\<exists>d. ethereum_derivation example_lco_services example_chain_config example_export = Some d \<and>
     claim_of (cp_claims (cd_plan d)) (replicate 40 CHR ''b'') = 1250000000"
proof -
  obtain d where d: "ethereum_derivation example_lco_services example_chain_config example_export = Some d"
    using example_derivation by auto
  have owed: "((\<Sum>p \<leftarrow> eg_purchasers example_export. if nativeBytesHex example_lco_services EVM (ep_address p) = Some (replicate 40 CHR ''b'')
        then ep_totalPretokens p else 0) +
      (\<Sum>x \<leftarrow> eg_stakers example_export. if nativeBytesHex example_lco_services EVM (es_address x) = Some (replicate 40 CHR ''b'')
        then es_pretokenYield x else 0)) div 10 ^ 9 = 1250000000" by code_simp
  note claims = claims_are_owed [OF d example_schema, THEN conjunct2, rule_format, of "replicate 40 CHR ''b''", unfolded owed]
  show ?thesis by (rule exI [of _ d]) (rule conjI [OF d claims])
qed

lemma import_is_order_free_witness:
  "ethereum_derivation example_lco_services example_chain_config
     (example_export\<lparr>eg_stakers := [example_staker CHR ''a'' 1500000000000000007 0,
        example_staker CHR ''b'' 3000000000000000000 250000000000000000]\<rparr>) \<noteq> None"
proof -
  have "ethereum_derivation example_lco_services example_chain_config
      (example_export\<lparr>eg_stakers := [example_staker CHR ''a'' 1500000000000000007 0,
         example_staker CHR ''b'' 3000000000000000000 250000000000000000]\<rparr>) =
    ethereum_derivation example_lco_services example_chain_config example_export"
    by (rule import_is_order_free) (simp_all add: example_export_def add_mset_commute)
  then show ?thesis using example_derivation by simp
qed

lemma custody_is_conserved_witness:
  "\<exists>p c. createPlan example_lco_services (Some example_import) = Some (Some p) \<and> c \<in> set (chainPlans p) \<and>
     syndicatedTotal (cp_syndications c) + lp_initialChainAmount (cp_pool c) = lp_custodyTotal (cp_pool c)"
proof -
  obtain p c where p: "createPlan example_lco_services (Some example_import) = Some (Some p)" "c \<in> set (chainPlans p)"
    using example_plan by (auto split: option.splits) (meson list.set_sel(1))
  then show ?thesis using custody_is_conserved [OF p] by blast
qed

end
