(* ===== verification/Lco_Import.thy ===== *)
theory Lco_Import
  imports Lco_Accounts "HOL-Library.Product_Lexorder"
begin

text \<open>
  The steps of the launch-data import: \<open>cluster-tool/src/orchestration/steps/LcoImportSteps.ts\<close>, over the plan of
  \<open>Lco_Plan\<close>, with the WIRE budget of \<open>orchestration/ClusterBuildDefaults.ts\<close>. What a step reads from the depot is the
  record \<open>depot_reads\<close>; a cell of a table that names a chain is of a type of its own, with \<open>matchesProtoEnum\<close> over the
  table's enumeration as an argument. Names and descriptions of steps are left out.
\<close>

section \<open>The WIRE budget\<close>

definition t1_allocation :: int where "t1_allocation = 7500000000000000"
definition t2_allocation :: int where "t2_allocation = 1000000000000000"
definition t3_allocation :: int where "t3_allocation = 100000000000000"
definition t5_distributable :: int where "t5_distributable = 375000000000000000"
definition T1_MAX_NODE_OWNERS :: int where "T1_MAX_NODE_OWNERS = 21"
definition T2_MAX_NODE_OWNERS :: int where "T2_MAX_NODE_OWNERS = 84"
definition T3_MAX_NODE_OWNERS :: int where "T3_MAX_NODE_OWNERS = 1000"
definition WIRE_SUPPLY :: int where "WIRE_SUPPLY = 1000000000 * 10 ^ WIRE_PRECISION"

definition nodeOwnerCommitment :: int where
  "nodeOwnerCommitment = t1_allocation * T1_MAX_NODE_OWNERS + t2_allocation * T2_MAX_NODE_OWNERS + t3_allocation * T3_MAX_NODE_OWNERS"

text \<open>The distributable pool of the emission configuration.\<close>

definition emissionConfig :: "int \<Rightarrow> int option" where
  "emissionConfig earmark = (if earmark \<le> t5_distributable then Some (t5_distributable - earmark) else None)"

definition assertWireBudget :: "int \<Rightarrow> int \<Rightarrow> unit option" where
  "assertWireBudget claims earmark = do {
     distributable \<leftarrow> emissionConfig earmark;
     require (claims + distributable + earmark + nodeOwnerCommitment \<le> WIRE_SUPPLY)
   }"

section \<open>The depot\<close>

record 'k unmapped_row =
  ur_chain_kind :: 'k
  ur_native_pubkey :: string
  ur_balance :: int

record 'k parked_row =
  pr_chain_kind :: 'k
  pr_tokenCode :: string
  pr_pubkey :: string
  pr_balance :: int

record link_row =
  lr_key :: int
  lr_linkKey :: string
  lr_username :: string

record 'k depot_reads =
  dr_wireBalance :: "string \<Rightarrow> int"
  dr_outstanding :: "string \<Rightarrow> int option"
  dr_pairSymbol :: "string \<Rightarrow> string option"
  dr_liqBalance :: "string \<Rightarrow> string \<Rightarrow> int"
  dr_unmapped :: "'k unmapped_row list"
  dr_parked :: "'k parked_row list"
  dr_links :: "link_row list"
  dr_claimsSealed :: bool
  dr_syndicationSealed :: bool
  dr_mismatches :: nat

section \<open>The composed steps\<close>

record regliqpool_action =
  rp_chain_code :: string
  rp_token_code :: string
  rp_pair_symbol :: string
  rp_initial_chain_amount :: int
  rp_initial_wire_amount :: int
  rp_fee :: int
  rp_locked_shares :: int
  rp_conversion_horizon_sec :: int
  rp_depth_cap_bps :: int
  rp_clip_floor :: int

definition liqSymbol :: "string \<Rightarrow> string" where
  "liqSymbol codename = decimal LIQ_TOKEN_PRECISION @ '','' @ codename"

definition poolRegistration :: "chain_plan \<Rightarrow> regliqpool_action" where
  "poolRegistration chainPlan =
     (let pool = cp_pool chainPlan
      in \<lparr>rp_chain_code = lp_chainCode pool, rp_token_code = lp_tokenCode pool, rp_pair_symbol = liqSymbol (lp_pairSymbol pool),
          rp_initial_chain_amount = lp_initialChainAmount pool, rp_initial_wire_amount = lp_initialWireAmount pool,
          rp_fee = lp_fee pool, rp_locked_shares = lp_lockedShares pool,
          rp_conversion_horizon_sec = lp_conversionHorizonSec pool, rp_depth_cap_bps = lp_depthCapBps pool,
          rp_clip_floor = lp_clipFloor pool\<rparr>)"

datatype import_step =
  PublishPlan lco_summary
| VerifyFunding
| VerifyUnminted
| WriteRecord
| SyndicationBatch string nat int
| ClaimBatch string nat int
| RegisterPool regliqpool_action
| FundClaims string string int
| ReconcileClaims nat
| ReconcileSyndication nat
| SealClaims
| SealSyndication
| VerifyImport bool

definition planChainImport :: "chain_plan \<Rightarrow> import_step list" where
  "planChainImport chainPlan =
     (let chainCode = lp_chainCode (cp_pool chainPlan); positions = length (cp_syndications chainPlan);
          claims = length (cp_claims chainPlan)
      in map (\<lambda>i. SyndicationBatch chainCode i (batchCreditCount positions SyndicationBatchSize i))
           [0..<batchCount positions SyndicationBatchSize] @
         map (\<lambda>i. ClaimBatch chainCode i (batchCreditCount claims ClaimBatchSize i))
           [0..<batchCount claims ClaimBatchSize] @
         [RegisterPool (poolRegistration chainPlan)])"

definition planImport :: "lco_services \<Rightarrow> lco_plan \<Rightarrow> bool \<Rightarrow> import_step list" where
  "planImport sv p sealSyndication =
     [PublishPlan (summarize sv p), VerifyFunding, VerifyUnminted, WriteRecord] @
     concat (map planChainImport (chainPlans p)) @
     (if planClaimTotal p > 0 then [FundClaims (pl_dclaimFundingAccount p) DclaimAccount (planClaimTotal p)] else []) @
     [ReconcileClaims (\<Sum>c \<leftarrow> chainPlans p. length (cp_claims c)),
      ReconcileSyndication (\<Sum>c \<leftarrow> chainPlans p. length (cp_syndications c)), SealClaims] @
     (if sealSyndication then [SealSyndication] else []) @ [VerifyImport sealSyndication]"

section \<open>Running the steps\<close>

text \<open>A plan is published when it is read again as it was composed.\<close>

definition runPublishPlan :: "lco_services \<Rightarrow> lco_import_config option \<Rightarrow> lco_summary \<Rightarrow> lco_plan option" where
  "runPublishPlan sv config composed = do {
     p \<leftarrow> Option.bind (createPlan sv config) id;
     require (summarize sv p = composed);
     Some p
   }"

definition assertChainPlan :: "lco_plan \<Rightarrow> string \<Rightarrow> chain_plan option" where
  "assertChainPlan p chainCode = List.find (\<lambda>c. lp_chainCode (cp_pool c) = chainCode) (chainPlans p)"

definition runSyndicationBatch :: "lco_services \<Rightarrow> lco_plan \<Rightarrow> string \<Rightarrow> nat \<Rightarrow> int \<Rightarrow> importsynd_action option" where
  "runSyndicationBatch sv p chainCode batchIndex creditCount = do {
     chainPlan \<leftarrow> assertChainPlan p chainCode;
     data \<leftarrow> syndicationBatch sv chainPlan batchIndex;
     require (int (length (is_credits data)) = creditCount);
     Some data
   }"

definition runClaimBatch :: "lco_plan \<Rightarrow> string \<Rightarrow> nat \<Rightarrow> int \<Rightarrow> importseed_action option" where
  "runClaimBatch p chainCode batchIndex creditCount = do {
     chainPlan \<leftarrow> assertChainPlan p chainCode;
     data \<leftarrow> claimBatch chainPlan batchIndex;
     require (int (length (ie_credits data)) = creditCount);
     Some data
   }"

definition runVerifyFunding :: "'k depot_reads \<Rightarrow> lco_plan \<Rightarrow> unit option" where
  "runVerifyFunding depot p =
     (let claims = planClaimTotal p;
          treasury = PlaceholderDclaimFundingAccount;
          reserved = t5_distributable + nodeOwnerCommitment;
          fromTreasury = (pl_dclaimFundingAccount p = treasury);
          treasuryBalance = dr_wireBalance depot treasury;
          funding = (if fromTreasury then treasuryBalance else dr_wireBalance depot (pl_dclaimFundingAccount p));
          kept = treasuryBalance - (if fromTreasury then claims else 0)
      in do {
        require (funding \<ge> claims);
        require (kept \<ge> reserved)
      })"

definition runVerifyUnminted :: "'k depot_reads \<Rightarrow> lco_plan \<Rightarrow> unit option" where
  "runVerifyUnminted depot p =
     require (list_all (\<lambda>c. dr_outstanding depot (lp_tokenCode (cp_pool c)) = Some 0) (chainPlans p))"

text \<open>The chain that a table's cell names, or the cell's text.\<close>

definition chainCodeOf :: "('k \<Rightarrow> import_chain \<Rightarrow> bool) \<Rightarrow> ('k \<Rightarrow> string) \<Rightarrow> chain_plan list \<Rightarrow> 'k \<Rightarrow> string" where
  "chainCodeOf matches cell_text plans kind =
     (case List.find (\<lambda>c. matches kind (cp_chain c)) plans of Some c \<Rightarrow> lp_chainCode (cp_pool c) | None \<Rightarrow> cell_text kind)"

record unmapped_claim =
  uc_chainCode :: string
  uc_nativeAddress :: string
  uc_amount :: int

definition sortClaims :: "unmapped_claim list \<Rightarrow> unmapped_claim list" where
  "sortClaims claims = sort_key (\<lambda>c. (uc_chainCode c, uc_nativeAddress c)) claims"

definition planned_claims :: "lco_plan \<Rightarrow> unmapped_claim list" where
  "planned_claims p = concat (map (\<lambda>c. map (\<lambda>claim. \<lparr>uc_chainCode = lp_chainCode (cp_pool c),
     uc_nativeAddress = cl_native_address claim, uc_amount = cl_wire_atomic claim\<rparr>) (cp_claims c)) (chainPlans p))"

definition imported_claims ::
    "('k \<Rightarrow> import_chain \<Rightarrow> bool) \<Rightarrow> ('k \<Rightarrow> string) \<Rightarrow> 'k depot_reads \<Rightarrow> lco_plan \<Rightarrow> unmapped_claim list" where
  "imported_claims matches cell_text depot p = map (\<lambda>row. \<lparr>uc_chainCode = chainCodeOf matches cell_text (chainPlans p) (ur_chain_kind row),
     uc_nativeAddress = ur_native_pubkey row, uc_amount = ur_balance row\<rparr>) (dr_unmapped depot)"

definition runReconcileClaims ::
    "('k \<Rightarrow> import_chain \<Rightarrow> bool) \<Rightarrow> ('k \<Rightarrow> string) \<Rightarrow> 'k depot_reads \<Rightarrow> lco_plan \<Rightarrow> nat \<Rightarrow> unit option" where
  "runReconcileClaims matches cell_text depot p claimCount = do {
     require (length (planned_claims p) = claimCount);
     require (sortClaims (imported_claims matches cell_text depot p) = sortClaims (planned_claims p))
   }"

section \<open>Batches\<close>

lemma below_batchCount: "0 < n \<Longrightarrow> i < batchCount m n \<longleftrightarrow> i * n < m"
proof -
  assume n: "0 < n"
  have m: "m = m div n * n + m mod n" and r: "m mod n < n" using n by simp_all
  show ?thesis
  proof (cases "m mod n = 0")
    case True
    then have "m = m div n * n" using m by simp
    then show ?thesis using n True unfolding batchCount_def by (metis add.right_neutral mult_less_cancel2)
  next
    case False
    have "i * n < m \<longleftrightarrow> i < Suc (m div n)"
    proof
      assume "i * n < m"
      also have "m < Suc (m div n) * n" using r m by (metis add.commute mult_Suc nat_add_left_cancel_less)
      finally show "i < Suc (m div n)" by (rule mult_less_cancel2 [THEN iffD1, THEN conjunct2])
    next
      assume "i < Suc (m div n)"
      then have "i * n \<le> m div n * n" by simp
      also have "\<dots> < m" using m False by linarith
      finally show "i * n < m" .
    qed
    then show ?thesis using False by (simp add: batchCount_def)
  qed
qed

lemma assertBatch_total:
  assumes "0 < n" "i < batchCount (length xs) n"
  shows "assertBatch xs i n = Some (take n (drop (i * n) xs))"
    "int (length (take n (drop (i * n) xs))) = batchCreditCount (length xs) n i"
proof -
  have "i * n < length xs" using below_batchCount [OF assms(1)] assms(2) by simp
  then show "assertBatch xs i n = Some (take n (drop (i * n) xs))"
    "int (length (take n (drop (i * n) xs))) = batchCreditCount (length xs) n i"
    using assms(1) by (simp_all add: assertBatch_def Let_def batchCreditCount_def min.commute [of n] of_nat_min of_nat_diff min.commute [of "int n"])
qed

lemma batchCount_step: "0 < n \<Longrightarrow> 0 < m \<Longrightarrow> batchCount m n = Suc (batchCount (m - n) n)"
  by (cases "m < n") (auto simp: batchCount_def le_div_geq le_mod_geq)

lemma batches_concat: "0 < n \<Longrightarrow> concat (map (\<lambda>i. take n (drop (i * n) xs)) [0..<batchCount (length xs) n]) = xs"
proof (induction "length xs" arbitrary: xs rule: less_induct)
  case less
  show ?case
  proof (cases "xs = []")
    case False
    have "concat (map (\<lambda>i. take n (drop (i * n) xs)) [0..<batchCount (length xs) n]) =
        take n xs @ concat (map (\<lambda>i. take n (drop (i * n) (drop n xs))) [0..<batchCount (length (drop n xs)) n])"
      using False less.prems
      by (simp add: batchCount_step upt_conv_Cons map_Suc_upt [symmetric] comp_def add.commute del: upt_Suc)
    also have "\<dots> = xs" using less.hyps [of "drop n xs"] False less.prems by simp
    finally show ?thesis .
  qed (simp add: batchCount_def)
qed

section \<open>What the steps push\<close>

definition pushed_claims :: "lco_plan \<Rightarrow> import_step \<Rightarrow> unmapped_claim list option" where
  "pushed_claims p s =
     (case s of
        ClaimBatch code i n \<Rightarrow> map_option (\<lambda>data. map (\<lambda>claim. \<lparr>uc_chainCode = code, uc_nativeAddress = cl_native_address claim,
          uc_amount = cl_wire_atomic claim\<rparr>) (ie_credits data)) (runClaimBatch p code i n)
      | _ \<Rightarrow> Some [])"

lemma pushed_claims_simps [simp]:
  "pushed_claims p (PublishPlan a) = Some []" "pushed_claims p VerifyFunding = Some []" "pushed_claims p VerifyUnminted = Some []"
  "pushed_claims p WriteRecord = Some []" "pushed_claims p (SyndicationBatch x y z) = Some []" "pushed_claims p (RegisterPool r) = Some []"
  "pushed_claims p (FundClaims u v m) = Some []" "pushed_claims p (ReconcileClaims k) = Some []"
  "pushed_claims p (ReconcileSyndication k) = Some []" "pushed_claims p SealClaims = Some []" "pushed_claims p SealSyndication = Some []"
  "pushed_claims p (VerifyImport b) = Some []"
  by (simp_all add: pushed_claims_def)

lemma those_append: "those (xs @ ys) = (case those xs of None \<Rightarrow> None | Some as \<Rightarrow> map_option ((@) as) (those ys))"
  by (induction xs; cases "those ys") (auto split: option.splits)

definition pushed_all :: "lco_plan \<Rightarrow> import_step list \<Rightarrow> unmapped_claim list option" where
  "pushed_all p steps = map_option concat (those (map (pushed_claims p) steps))"

lemma pushed_all_simps [simp]:
  "pushed_all p [] = Some []"
  "pushed_all p (s # steps) = (case pushed_claims p s of None \<Rightarrow> None | Some xs \<Rightarrow> map_option ((@) xs) (pushed_all p steps))"
  "pushed_all p (steps @ steps2) = (case pushed_all p steps of None \<Rightarrow> None | Some xs \<Rightarrow> map_option ((@) xs) (pushed_all p steps2))"
  by (auto simp: pushed_all_def those_append option.map_comp comp_def split: option.splits)

lemma pushed_all_none: "(\<And>s. s \<in> set steps \<Longrightarrow> pushed_claims p s = Some []) \<Longrightarrow> pushed_all p steps = Some []"
  by (induction steps) simp_all

lemma pushed_all_map:
  "(\<And>i. i \<in> set is \<Longrightarrow> pushed_claims p (f i) = Some (g i)) \<Longrightarrow> pushed_all p (map f is) = Some (concat (map g is))"
  by (induction "is") simp_all

definition plan_rows :: "chain_plan \<Rightarrow> unmapped_claim list" where
  "plan_rows c = map (\<lambda>claim. \<lparr>uc_chainCode = lp_chainCode (cp_pool c), uc_nativeAddress = cl_native_address claim,
     uc_amount = cl_wire_atomic claim\<rparr>) (cp_claims c)"

lemma planned_claims_rows: "planned_claims p = concat (map plan_rows (chainPlans p))"
  by (simp add: planned_claims_def plan_rows_def [abs_def])

lemma chain_is_pushed:
  assumes "distinct (map (lp_chainCode \<circ> cp_pool) (chainPlans p))" "c \<in> set (chainPlans p)"
  shows "pushed_all p (planChainImport c) = Some (plan_rows c)"
proof -
  have find: "assertChainPlan p (lp_chainCode (cp_pool c)) = Some c"
    using find_key [OF assms] by (simp add: assertChainPlan_def comp_def)
  have size: "0 < ClaimBatchSize" by (simp add: ClaimBatchSize_def)
  let ?rows = "\<lambda>claims. map (\<lambda>claim. \<lparr>uc_chainCode = lp_chainCode (cp_pool c), uc_nativeAddress = cl_native_address claim,
     uc_amount = cl_wire_atomic claim\<rparr>) claims"
  let ?batch = "\<lambda>i. take ClaimBatchSize (drop (i * ClaimBatchSize) (cp_claims c))"
  have "pushed_claims p (ClaimBatch (lp_chainCode (cp_pool c)) i (batchCreditCount (length (cp_claims c)) ClaimBatchSize i)) = Some (?rows (?batch i))"
    if i: "i \<in> set [0..<batchCount (length (cp_claims c)) ClaimBatchSize]" for i
    using assertBatch_total [OF size, of i "cp_claims c"] i find
    by (simp add: pushed_claims_def runClaimBatch_def claimBatch_def)
  then have "pushed_all p (map (\<lambda>i. ClaimBatch (lp_chainCode (cp_pool c)) i (batchCreditCount (length (cp_claims c)) ClaimBatchSize i))
      [0..<batchCount (length (cp_claims c)) ClaimBatchSize]) =
    Some (concat (map (\<lambda>i. ?rows (?batch i)) [0..<batchCount (length (cp_claims c)) ClaimBatchSize]))"
    by (rule pushed_all_map)
  also have "concat (map (\<lambda>i. ?rows (?batch i)) [0..<batchCount (length (cp_claims c)) ClaimBatchSize]) = plan_rows c"
    using map_concat [of "\<lambda>claim. \<lparr>uc_chainCode = lp_chainCode (cp_pool c), uc_nativeAddress = cl_native_address claim,
        uc_amount = cl_wire_atomic claim\<rparr>" "map ?batch [0..<batchCount (length (cp_claims c)) ClaimBatchSize]"]
    unfolding plan_rows_def batches_concat [OF size, of "cp_claims c"] by (simp add: comp_def)
  finally have claims: "pushed_all p (map (\<lambda>i. ClaimBatch (lp_chainCode (cp_pool c)) i (batchCreditCount (length (cp_claims c)) ClaimBatchSize i))
      [0..<batchCount (length (cp_claims c)) ClaimBatchSize]) = Some (plan_rows c)" .
  have "pushed_all p (map (\<lambda>i. SyndicationBatch (lp_chainCode (cp_pool c)) i (batchCreditCount (length (cp_syndications c)) SyndicationBatchSize i))
      [0..<batchCount (length (cp_syndications c)) SyndicationBatchSize]) = Some []"
    by (rule pushed_all_none) auto
  then show ?thesis by (simp add: planChainImport_def Let_def claims)
qed

lemma import_is_pushed:
  assumes "distinct (map (lp_chainCode \<circ> cp_pool) (chainPlans p))"
  shows "pushed_all p (planImport sv p seal) = Some (planned_claims p)"
proof -
  have "pushed_all p (concat (map planChainImport cs)) = Some (concat (map plan_rows cs))" if "set cs \<subseteq> set (chainPlans p)" for cs
    using that by (induction cs) (simp_all add: chain_is_pushed [OF assms])
  from this [of "chainPlans p"] show ?thesis by (simp add: planImport_def planned_claims_rows)
qed

section \<open>Reconciling the claims\<close>

lemma distinct_concat_keys:
  "distinct (map code cs) \<Longrightarrow> (\<And>c. c \<in> set cs \<Longrightarrow> distinct (map f (g c))) \<Longrightarrow> distinct (concat (map (\<lambda>c. map (\<lambda>x. (code c, f x)) (g c)) cs))"
proof (induction cs)
  case (Cons c cs)
  have "distinct (map (\<lambda>x. (code c, f x)) (g c))" using Cons.prems(2) [of c] by (auto simp: distinct_map inj_on_def)
  then show ?case using Cons by auto
qed simp

lemma distinct_planned_claims:
  assumes "createPlan sv (Some config) = Some (Some p)"
  shows "distinct (map (\<lambda>c. (uc_chainCode c, uc_nativeAddress c)) (planned_claims p))"
proof -
  have "map (\<lambda>c. (uc_chainCode c, uc_nativeAddress c)) (planned_claims p) =
      concat (map (\<lambda>c. map (\<lambda>x. ((lp_chainCode \<circ> cp_pool) c, cl_native_address x)) (cp_claims c)) (chainPlans p))"
    by (simp add: planned_claims_def map_concat comp_def)
  then show ?thesis
    using distinct_concat_keys [OF distinct_chain_codes [OF assms], of cl_native_address cp_claims] distinct_claims [OF assms] by simp
qed

text \<open>C24: For every plan that is created, all the composed claim steps succeed on it, and the reconcile step lets the claims be
  sealed exactly when the depot's table holds the rows that these steps push, each once and no other row.\<close>

theorem claims_sealed_iff_pushed_once:
  assumes "createPlan sv (Some config) = Some (Some p)" "ReconcileClaims n \<in> set (planImport sv p seal)"
  shows "\<exists>pushed. pushed_all p (planImport sv p seal) = Some pushed \<and>
    (runReconcileClaims matches cell_text depot p n = Some () \<longleftrightarrow> mset (imported_claims matches cell_text depot p) = mset pushed)"
proof -
  have n: "n = length (planned_claims p)"
    using assms(2) by (auto simp: planImport_def planChainImport_def Let_def planned_claims_def length_concat comp_def)
  have "sortClaims xs = sortClaims (planned_claims p) \<longleftrightarrow> mset xs = mset (planned_claims p)" for xs
  proof
    assume "sortClaims xs = sortClaims (planned_claims p)"
    then show "mset xs = mset (planned_claims p)" unfolding sortClaims_def by (metis mset_sort)
  next
    assume "mset xs = mset (planned_claims p)"
    then show "sortClaims xs = sortClaims (planned_claims p)"
      unfolding sortClaims_def using sort_key_mset [OF _ distinct_planned_claims [OF assms(1)]] by metis
  qed
  then show ?thesis
    using import_is_pushed [OF distinct_chain_codes [OF assms(1)]] n by (simp add: runReconcileClaims_def)
qed

definition example_depot :: "lco_plan \<Rightarrow> import_chain depot_reads" where
  "example_depot p = \<lparr>dr_wireBalance = (\<lambda>_. 0), dr_outstanding = (\<lambda>_. Some 0), dr_pairSymbol = (\<lambda>_. None), dr_liqBalance = (\<lambda>_ _. 0),
     dr_unmapped = rev (map (\<lambda>c. \<lparr>ur_chain_kind = EVM, ur_native_pubkey = uc_nativeAddress c, ur_balance = uc_amount c\<rparr>) (planned_claims p)),
     dr_parked = [], dr_links = [], dr_claimsSealed = False, dr_syndicationSealed = False, dr_mismatches = 0\<rparr>"

lemma claims_sealed_iff_pushed_once_witness:
  "\<exists>p pushed. createPlan example_lco_services (Some example_import) = Some (Some p) \<and>
     pushed_all p (planImport example_lco_services p True) = Some pushed \<and> pushed \<noteq> [] \<and>
     runReconcileClaims (=) (\<lambda>_. []) (example_depot p) p 1 = Some ()"
proof -
  have "case createPlan example_lco_services (Some example_import) of Some (Some p) \<Rightarrow>
      list_ex (\<lambda>s. s = ReconcileClaims 1) (planImport example_lco_services p True) \<and>
      imported_claims (=) (\<lambda>_. []) (example_depot p) p = planned_claims p \<and> planned_claims p \<noteq> [] | _ \<Rightarrow> False"
    by code_simp
  then obtain p where p: "createPlan example_lco_services (Some example_import) = Some (Some p)"
    "ReconcileClaims 1 \<in> set (planImport example_lco_services p True)"
    "imported_claims (=) (\<lambda>_. []) (example_depot p) p = planned_claims p" "planned_claims p \<noteq> []"
    by (auto simp: list_ex_iff split: option.splits)
  obtain pushed where "pushed_all p (planImport example_lco_services p True) = Some pushed"
    "runReconcileClaims (=) (\<lambda>_. []) (example_depot p) p 1 = Some () \<longleftrightarrow>
       mset (imported_claims (=) (\<lambda>_. []) (example_depot p) p) = mset pushed"
    using claims_sealed_iff_pushed_once [OF p(1,2), of "(=)" "\<lambda>_. []" "example_depot p"] by blast
  then show ?thesis using p import_is_pushed [OF distinct_chain_codes [OF p(1)]] by auto
qed

section \<open>The budget and the published plan\<close>

text \<open>A bootstrap within the budget passes the funding check later, as long as the treasury still holds the supply.\<close>

lemma budget_covers_funding:
  assumes "assertWireBudget (planClaimTotal p) earmark = Some ()" "pl_dclaimFundingAccount p = PlaceholderDclaimFundingAccount"
    "dr_wireBalance depot PlaceholderDclaimFundingAccount = WIRE_SUPPLY"
  shows "runVerifyFunding depot p = Some ()"
  using assms
  by (auto simp: assertWireBudget_def emissionConfig_def runVerifyFunding_def Let_def nodeOwnerCommitment_def t1_allocation_def
      t2_allocation_def t3_allocation_def T1_MAX_NODE_OWNERS_def T2_MAX_NODE_OWNERS_def T3_MAX_NODE_OWNERS_def t5_distributable_def
      split: if_splits)

text \<open>As long as the two plans' digests do not collide, a plan is only published when it is the plan that was composed.\<close>

lemma published_plan_is_the_composed_plan:
  assumes "runPublishPlan sv config (summarize sv composed) = Some p"
    and "planDigest sv p = planDigest sv composed \<Longrightarrow> allocations_of p = allocations_of composed"
  shows "p = composed"
proof -
  have s: "summarize sv p = summarize sv composed"
    using assms(1) by (auto simp: runPublishPlan_def bind_eq_Some_conv split: if_splits)
  have chains: "map_option cp_bootstrapJsonFile (pl_ethereum p) = map_option cp_bootstrapJsonFile (pl_ethereum composed)"
    "map_option cp_bootstrapJsonFile (pl_solana p) = map_option cp_bootstrapJsonFile (pl_solana composed)"
    using s by (auto simp: summarize_def summarizeChain_def map_option_case split: option.splits)
  have "allocations_of p = allocations_of composed" using s assms(2) by (simp add: summarize_def)
  then have "pl_ethereum p = pl_ethereum composed \<and> pl_solana p = pl_solana composed"
    using chains
    by (auto simp: allocations_of_def chainPlans_def List.map_filter_def map_option_case split: option.splits intro: chain_plan.equality)
  then show ?thesis using s by (cases p; cases composed) (simp add: summarize_def)
qed

section \<open>Reconciling the positions\<close>

record imported_position =
  im_chainCode :: string
  im_tokenCode :: string
  im_pubkey :: string
  im_amount :: int

record planned_position =
  pn_position :: imported_position
  pn_linkKey :: string

record linked_holding =
  lh_account :: string
  lh_tokenCode :: string
  lh_amount :: int

definition chain_positions :: "lco_services \<Rightarrow> (import_chain \<Rightarrow> string \<Rightarrow> string) \<Rightarrow> chain_plan \<Rightarrow> planned_position list option" where
  "chain_positions sv linkKey c =
     those (map (\<lambda>spec. map_option (\<lambda>key. \<lparr>pn_position = \<lparr>im_chainCode = lp_chainCode (cp_pool c), im_tokenCode = lp_tokenCode (cp_pool c),
         im_pubkey = key, im_amount = sy_amount spec\<rparr>, pn_linkKey = linkKey (cp_chain c) (sy_pubkey spec)\<rparr>)
       (nativeBytesHex sv (cp_chain c) (sy_pubkey spec))) (cp_syndications c))"

definition planned_positions :: "lco_services \<Rightarrow> (import_chain \<Rightarrow> string \<Rightarrow> string) \<Rightarrow> lco_plan \<Rightarrow> planned_position list option" where
  "planned_positions sv linkKey p = map_option concat (those (map (chain_positions sv linkKey) (chainPlans p)))"

text \<open>A \<open>Map\<close> built from pairs keeps the last one of a key.\<close>

definition readLinkedAccounts :: "'k depot_reads \<Rightarrow> string \<Rightarrow> string option" where
  "readLinkedAccounts depot =
     map_of (rev (map (\<lambda>row. (lr_linkKey row, lr_username row)) (rev (sort_key lr_key (dr_links depot)))))"

definition add_holding :: "(string \<Rightarrow> string option) \<Rightarrow> planned_position \<Rightarrow> (string \<times> linked_holding) list \<Rightarrow> (string \<times> linked_holding) list" where
  "add_holding linkedAccounts planned byHolder =
     (let account = getOrElse (linkedAccounts (pn_linkKey planned)) ''undefined'';
          tokenCode = im_tokenCode (pn_position planned);
          holder = account @ ''/'' @ tokenCode
      in AList.update holder \<lparr>lh_account = account, lh_tokenCode = tokenCode,
           lh_amount = (case map_of byHolder holder of Some h \<Rightarrow> lh_amount h | None \<Rightarrow> 0) + im_amount (pn_position planned)\<rparr> byHolder)"

definition linkedHoldings :: "planned_position list \<Rightarrow> (string \<Rightarrow> string option) \<Rightarrow> linked_holding list" where
  "linkedHoldings linked linkedAccounts =
     sort_key (\<lambda>h. (lh_account h, lh_tokenCode h)) (map snd (fold (add_holding linkedAccounts) linked []))"

definition sortPositions :: "imported_position list \<Rightarrow> imported_position list" where
  "sortPositions ps = sort_key (\<lambda>p. (im_tokenCode p, im_chainCode p, im_pubkey p)) ps"

definition parked_positions ::
    "('k \<Rightarrow> import_chain \<Rightarrow> bool) \<Rightarrow> ('k \<Rightarrow> string) \<Rightarrow> 'k depot_reads \<Rightarrow> lco_plan \<Rightarrow> imported_position list" where
  "parked_positions matches cell_text depot p = map (\<lambda>row.
     \<lparr>im_chainCode = chainCodeOf matches cell_text (chainPlans p) (pr_chain_kind row), im_tokenCode = pr_tokenCode row,
      im_pubkey = pr_pubkey row, im_amount = pr_balance row\<rparr>) (dr_parked depot)"

definition runReconcileSyndication ::
    "lco_services \<Rightarrow> (import_chain \<Rightarrow> string \<Rightarrow> string) \<Rightarrow> ('k \<Rightarrow> import_chain \<Rightarrow> bool) \<Rightarrow> ('k \<Rightarrow> string) \<Rightarrow> 'k depot_reads \<Rightarrow>
     lco_plan \<Rightarrow> nat \<Rightarrow> unit option" where
  "runReconcileSyndication sv linkKey matches cell_text depot p positionCount = do {
     planned \<leftarrow> planned_positions sv linkKey p;
     require (length planned = positionCount);
     let accounts = readLinkedAccounts depot;
         linked = filter (\<lambda>x. accounts (pn_linkKey x) \<noteq> None) planned;
         unlinked = filter (\<lambda>x. accounts (pn_linkKey x) = None) planned
     in do {
       require (sortPositions (parked_positions matches cell_text depot p) = sortPositions (map pn_position unlinked));
       require (list_all (\<lambda>h. dr_liqBalance depot (lh_account h) (lh_tokenCode h) = lh_amount h) (linkedHoldings linked accounts));
       require (list_all (\<lambda>c. dr_outstanding depot (lp_tokenCode (cp_pool c)) = Some (lp_custodyTotal (cp_pool c))) (chainPlans p))
     }
   }"

definition runVerify :: "'k depot_reads \<Rightarrow> lco_plan \<Rightarrow> bool \<Rightarrow> unit option" where
  "runVerify depot p sealsSyndication = do {
     require (list_all (\<lambda>c. dr_outstanding depot (lp_tokenCode (cp_pool c)) = Some (lp_custodyTotal (cp_pool c)) \<and>
       dr_pairSymbol depot (lp_tokenCode (cp_pool c)) = Some (lp_pairSymbol (cp_pool c))) (chainPlans p));
     require (dr_wireBalance depot DclaimAccount \<ge> planClaimTotal p);
     require (dr_claimsSealed depot);
     require (\<not> sealsSyndication \<or> dr_syndicationSealed depot);
     require (dr_mismatches depot = 0)
   }"

subsection \<open>Holdings\<close>

definition holder_of :: "(string \<Rightarrow> string option) \<Rightarrow> planned_position \<Rightarrow> string" where
  "holder_of accounts x = getOrElse (accounts (pn_linkKey x)) ''undefined'' @ ''/'' @ im_tokenCode (pn_position x)"

definition holding_amount :: "(string \<times> linked_holding) list \<Rightarrow> string \<Rightarrow> int" where
  "holding_amount hs holder = (case map_of hs holder of Some h \<Rightarrow> lh_amount h | None \<Rightarrow> 0)"

definition holdings_ok :: "(string \<times> linked_holding) list \<Rightarrow> bool" where
  "holdings_ok hs \<longleftrightarrow> distinct (map fst hs) \<and>
     (\<forall>e \<in> set hs. fst e = lh_account (snd e) @ ''/'' @ lh_tokenCode (snd e) \<and> CHR ''/'' \<notin> set (lh_tokenCode (snd e)))"

lemma update_entries:
  assumes "distinct (map fst hs)" "e \<in> set (AList.update k v hs)"
  shows "e = (k, v) \<or> e \<in> set hs"
proof -
  have "map_of (AList.update k v hs) (fst e) = Some (snd e)"
    using assms by (intro map_of_is_SomeI distinct_update) auto
  then show ?thesis by (cases e) (auto simp: update_conv' split: if_splits dest: map_of_SomeD)
qed

lemma add_holding_facts:
  assumes "holdings_ok hs" "CHR ''/'' \<notin> set (im_tokenCode (pn_position x))"
  shows "holdings_ok (add_holding accounts x hs)" "fst ` set (add_holding accounts x hs) = insert (holder_of accounts x) (fst ` set hs)"
    "holding_amount (add_holding accounts x hs) k = holding_amount hs k + (if holder_of accounts x = k then im_amount (pn_position x) else 0)"
proof -
  let ?h = "\<lparr>lh_account = getOrElse (accounts (pn_linkKey x)) ''undefined'', lh_tokenCode = im_tokenCode (pn_position x),
    lh_amount = holding_amount hs (holder_of accounts x) + im_amount (pn_position x)\<rparr>"
  have add: "add_holding accounts x hs = AList.update (holder_of accounts x) ?h hs"
    by (simp add: add_holding_def Let_def holder_of_def holding_amount_def)
  have d: "distinct (map fst hs)" using assms by (simp add: holdings_ok_def)
  show "fst ` set (add_holding accounts x hs) = insert (holder_of accounts x) (fst ` set hs)"
    by (simp add: add dom_update [unfolded dom_map_of_conv_image_fst])
  show "holding_amount (add_holding accounts x hs) k = holding_amount hs k + (if holder_of accounts x = k then im_amount (pn_position x) else 0)"
    by (simp add: add holding_amount_def update_conv')
  show "holdings_ok (add_holding accounts x hs)"
    unfolding holdings_ok_def add
  proof (intro conjI ballI)
    fix e assume e: "e \<in> set (AList.update (holder_of accounts x) ?h hs)"
    show "fst e = lh_account (snd e) @ ''/'' @ lh_tokenCode (snd e)" "CHR ''/'' \<notin> set (lh_tokenCode (snd e))"
      using update_entries [OF d e] assms by (auto simp: holdings_ok_def holder_of_def)
  qed (rule distinct_update [OF d])
qed

lemma fold_holdings:
  assumes "holdings_ok hs" "\<forall>x \<in> set xs. CHR ''/'' \<notin> set (im_tokenCode (pn_position x))"
  shows "holdings_ok (fold (add_holding accounts) xs hs) \<and>
    fst ` set (fold (add_holding accounts) xs hs) = fst ` set hs \<union> holder_of accounts ` set xs \<and>
    holding_amount (fold (add_holding accounts) xs hs) k = holding_amount hs k +
      (\<Sum>x \<leftarrow> xs. if holder_of accounts x = k then im_amount (pn_position x) else 0)"
  using assms
proof (induction xs arbitrary: hs)
  case (Cons x xs)
  then show ?case by (auto simp: add_holding_facts [OF Cons.prems(1)])
qed simp

text \<open>What an account is to hold of a token: the positions linked to it.\<close>

definition held :: "(string \<Rightarrow> string option) \<Rightarrow> planned_position list \<Rightarrow> string \<Rightarrow> string \<Rightarrow> int" where
  "held accounts planned account tokenCode = (\<Sum>x \<leftarrow> planned.
     if accounts (pn_linkKey x) = Some account \<and> im_tokenCode (pn_position x) = tokenCode then im_amount (pn_position x) else 0)"

lemma image_eq_by:
  assumes "\<And>e. e \<in> A \<Longrightarrow> \<exists>x \<in> B. f e = g x" "\<And>x. x \<in> B \<Longrightarrow> \<exists>e \<in> A. f e = g x"
  shows "f ` A = g ` B"
  using assms by (auto simp: image_iff) metis+

lemma holdings_facts:
  fixes accounts xs
  defines "hs \<equiv> fold (add_holding accounts) xs []"
  assumes linked: "\<forall>x \<in> set xs. accounts (pn_linkKey x) \<noteq> None" and tokens: "\<forall>x \<in> set xs. CHR ''/'' \<notin> set (im_tokenCode (pn_position x))"
  shows "\<And>e. e \<in> set hs \<Longrightarrow> lh_amount (snd e) = held accounts xs (lh_account (snd e)) (lh_tokenCode (snd e))"
    "(\<lambda>e. (lh_account (snd e), lh_tokenCode (snd e))) ` set hs =
      (\<lambda>x. (the (accounts (pn_linkKey x)), im_tokenCode (pn_position x))) ` set xs"
proof -
  have ok: "holdings_ok hs" "fst ` set hs = holder_of accounts ` set xs"
    "holding_amount hs k = (\<Sum>x \<leftarrow> xs. if holder_of accounts x = k then im_amount (pn_position x) else 0)" for k
  proof -
    have "holdings_ok []" "holding_amount [] k = 0" by (simp_all add: holdings_ok_def holding_amount_def)
    then show "holdings_ok hs" "fst ` set hs = holder_of accounts ` set xs"
      "holding_amount hs k = (\<Sum>x \<leftarrow> xs. if holder_of accounts x = k then im_amount (pn_position x) else 0)"
      using fold_holdings [of "[]" xs accounts k] tokens by (simp_all add: hs_def)
  qed
  have holder: "holder_of accounts y = a @ ''/'' @ t \<longleftrightarrow> the (accounts (pn_linkKey y)) = a \<and> im_tokenCode (pn_position y) = t"
    if y: "y \<in> set xs" "CHR ''/'' \<notin> set t" for y a t
  proof -
    obtain b where b: "accounts (pn_linkKey y) = Some b" using linked y(1) by auto
    show ?thesis
      using last_segment [of "CHR ''/''" "im_tokenCode (pn_position y)" t b a] tokens y by (auto simp: holder_of_def b getOrElse_def)
  qed
  have keyed: "fst e = lh_account (snd e) @ ''/'' @ lh_tokenCode (snd e)" "CHR ''/'' \<notin> set (lh_tokenCode (snd e))" if "e \<in> set hs" for e
    using ok(1) that by (auto simp: holdings_ok_def)
  show "lh_amount (snd e) = held accounts xs (lh_account (snd e)) (lh_tokenCode (snd e))" if e: "e \<in> set hs" for e
  proof -
    have d: "distinct (map fst hs)" using ok(1) by (simp add: holdings_ok_def)
    have "map_of hs (fst e) = Some (snd e)" by (intro map_of_is_SomeI d) (simp only: e prod.collapse)
    then have "lh_amount (snd e) = holding_amount hs (fst e)" by (simp add: holding_amount_def)
    also have "\<dots> = held accounts xs (lh_account (snd e)) (lh_tokenCode (snd e))"
      unfolding ok(3) held_def keyed(1) [OF e]
    proof (intro arg_cong [where f = sum_list] map_cong refl)
      fix x assume x: "x \<in> set xs"
      then obtain a where "accounts (pn_linkKey x) = Some a" using linked by auto
      then show "(if holder_of accounts x = lh_account (snd e) @ ''/'' @ lh_tokenCode (snd e) then im_amount (pn_position x) else 0) =
          (if accounts (pn_linkKey x) = Some (lh_account (snd e)) \<and> im_tokenCode (pn_position x) = lh_tokenCode (snd e)
           then im_amount (pn_position x) else 0)"
        using holder [OF x keyed(2) [OF e]] by simp
    qed
    finally show ?thesis .
  qed
  have to_position: "\<exists>x \<in> set xs. the (accounts (pn_linkKey x)) = lh_account (snd e) \<and> im_tokenCode (pn_position x) = lh_tokenCode (snd e)"
    if e: "e \<in> set hs" for e
  proof -
    obtain x where x: "x \<in> set xs" "holder_of accounts x = fst e" using ok(2) e by (metis imageE imageI)
    then show ?thesis using holder [OF x(1) keyed(2) [OF e]] keyed(1) [OF e] by auto
  qed
  have to_holding: "\<exists>e \<in> set hs. lh_account (snd e) = the (accounts (pn_linkKey x)) \<and> lh_tokenCode (snd e) = im_tokenCode (pn_position x)"
    if x: "x \<in> set xs" for x
  proof -
    obtain e where e: "e \<in> set hs" "fst e = holder_of accounts x" using ok(2) x by (metis imageE imageI)
    then have "holder_of accounts x = lh_account (snd e) @ ''/'' @ lh_tokenCode (snd e)" using keyed(1) [OF e(1)] by simp
    then have "the (accounts (pn_linkKey x)) = lh_account (snd e) \<and> im_tokenCode (pn_position x) = lh_tokenCode (snd e)"
      using holder [OF x keyed(2) [OF e(1)], of "lh_account (snd e)"] by simp
    then show ?thesis using e(1) by metis
  qed
  show "(\<lambda>e. (lh_account (snd e), lh_tokenCode (snd e))) ` set hs =
      (\<lambda>x. (the (accounts (pn_linkKey x)), im_tokenCode (pn_position x))) ` set xs"
  proof (rule image_eq_by)
    fix e assume "e \<in> set hs"
    from to_position [OF this] show "\<exists>x \<in> set xs. (lh_account (snd e), lh_tokenCode (snd e)) = (the (accounts (pn_linkKey x)), im_tokenCode (pn_position x))"
      by simp metis
  next
    fix x assume "x \<in> set xs"
    from to_holding [OF this] show "\<exists>e \<in> set hs. (lh_account (snd e), lh_tokenCode (snd e)) = (the (accounts (pn_linkKey x)), im_tokenCode (pn_position x))"
      by simp
  qed
qed

text \<open>The recomputed holdings are exactly the positions' sums, one per account and token.\<close>

lemma linkedHoldings_held:
  assumes "\<forall>x \<in> set xs. accounts (pn_linkKey x) \<noteq> None" "\<forall>x \<in> set xs. CHR ''/'' \<notin> set (im_tokenCode (pn_position x))"
  shows "(\<forall>h \<in> set (linkedHoldings xs accounts). balance (lh_account h) (lh_tokenCode h) = lh_amount h) \<longleftrightarrow>
    (\<forall>x \<in> set xs. balance (the (accounts (pn_linkKey x))) (im_tokenCode (pn_position x)) =
       held accounts xs (the (accounts (pn_linkKey x))) (im_tokenCode (pn_position x)))"
proof -
  let ?hs = "fold (add_holding accounts) xs []" and ?P = "\<lambda>at. balance (fst at) (snd at) = held accounts xs (fst at) (snd at)"
  have "(\<forall>h \<in> set (linkedHoldings xs accounts). balance (lh_account h) (lh_tokenCode h) = lh_amount h) \<longleftrightarrow>
      (\<forall>at \<in> (\<lambda>e. (lh_account (snd e), lh_tokenCode (snd e))) ` set ?hs. ?P at)"
    using holdings_facts(1) [OF assms] by (simp add: linkedHoldings_def)
  then show ?thesis unfolding holdings_facts(2) [OF assms] by simp
qed

subsection \<open>Reconciling\<close>

lemma lower_char_idem: "lower_char (lower_char ch) = lower_char ch"
  by (auto simp: lower_char_def of_char_of)

lemma lower_idem: "lower (lower s) = lower s"
  by (simp add: lower_def lower_char_idem)

lemma evmDisplayHex_idem: "evmDisplayHex (evmDisplayHex s) = evmDisplayHex s"
  by (simp add: evmDisplayHex_def strip_hex_prefix_def EvmHexPrefix_def lower_idem)

text \<open>The Ethereum keys of a plan are in display form already, and a plan's token is its chain's.\<close>

lemma plan_display:
  assumes "createPlan sv (Some config) = Some (Some p)" "c \<in> set (chainPlans p)"
  shows "spec \<in> set (cp_syndications c) \<Longrightarrow> cp_chain c = EVM \<Longrightarrow> evmDisplayHex (sy_pubkey spec) = sy_pubkey spec"
    "lp_tokenCode (cp_pool c) \<in> {''LIQETH'', ''LIQSOL''}"
proof -
  have "(spec \<in> set (cp_syndications c) \<longrightarrow> cp_chain c = EVM \<longrightarrow> evmDisplayHex (sy_pubkey spec) = sy_pubkey spec) \<and>
      lp_tokenCode (cp_pool c) \<in> {''LIQETH'', ''LIQSOL''}"
    using createPlan_chains [OF assms]
  proof (elim disjE exE conjE)
    fix cc s d assume d: "ethereum_derivation sv cc s = Some d" "c = cd_plan d"
    obtain tok specs ph where e: "liqTokenCode ETHEREUM_CHAIN_CODENAME = Some tok" "those (map (staker_spec tok) (staker_positions s)) = Some specs"
      "sortSyndications specs = Some (cp_syndications (cd_plan d))"
      "createPool sv (ethereum_source cc s tok (cp_syndications (cd_plan d))) = Some (cp_pool (cd_plan d), ph)"
      using d(1) by (rule ethereum_derivationE)
    have "sy_pubkey spec \<in> evmDisplayHex ` UNIV" if "spec \<in> set specs"
    proof -
      have "sy_pubkey spec \<in> set (map sy_pubkey specs)" using that by simp
      then show ?thesis unfolding staker_specs(1) [OF e(2)] by auto
    qed
    then show ?thesis
      using mset_eq_setD [OF sortSyndications_facts(1) [OF e(3)]] createPool_facts(1) [OF e(4)] e(1) d(2) evmDisplayHex_idem
      by (auto simp: ethereum_source_def liqTokenCode_def SHADOW_LIQ_TOKEN_PAIRS_def)
  next
    fix cc s d assume d: "solana_derivation sv cc s = Some d" "c = cd_plan d"
    obtain tok ph where e: "liqTokenCode SOLANA_CHAIN_CODENAME = Some tok"
      "createPool sv (solana_source cc s tok (cp_syndications (cd_plan d))) = Some (cp_pool (cd_plan d), ph)" "cp_chain (cd_plan d) = SVM"
      using d(1) by (rule solana_derivationE)
    then show ?thesis
      using createPool_facts(1) [OF e(2)] d(2)
      by (auto simp: liqTokenCode_def SHADOW_LIQ_TOKEN_PAIRS_def ETHEREUM_CHAIN_CODENAME_def SOLANA_CHAIN_CODENAME_def)
  qed
  then show "spec \<in> set (cp_syndications c) \<Longrightarrow> cp_chain c = EVM \<Longrightarrow> evmDisplayHex (sy_pubkey spec) = sy_pubkey spec"
    "lp_tokenCode (cp_pool c) \<in> {''LIQETH'', ''LIQSOL''}" by blast+
qed

definition position_key :: "imported_position \<Rightarrow> string \<times> string \<times> string" where
  "position_key position = (im_tokenCode position, im_chainCode position, im_pubkey position)"

lemma chain_positions_facts:
  assumes "chain_positions sv linkKey c = Some xs"
  shows "map pn_position xs = map (\<lambda>spec. \<lparr>im_chainCode = lp_chainCode (cp_pool c), im_tokenCode = lp_tokenCode (cp_pool c),
      im_pubkey = the (nativeBytesHex sv (cp_chain c) (sy_pubkey spec)), im_amount = sy_amount spec\<rparr>) (cp_syndications c)"
    "spec \<in> set (cp_syndications c) \<Longrightarrow> nativeBytesHex sv (cp_chain c) (sy_pubkey spec) \<noteq> None"
proof -
  have *: "map pn_position xs = map (\<lambda>spec. \<lparr>im_chainCode = a, im_tokenCode = t, im_pubkey = the (f spec), im_amount = sy_amount spec\<rparr>) specs \<and>
      (\<forall>spec \<in> set specs. f spec \<noteq> None)"
    if "those (map (\<lambda>spec. map_option (\<lambda>key. \<lparr>pn_position = \<lparr>im_chainCode = a, im_tokenCode = t, im_pubkey = key,
        im_amount = sy_amount spec\<rparr>, pn_linkKey = l spec\<rparr>) (f spec)) specs) = Some xs" for a t f l specs
    using that by (induction specs arbitrary: xs) (auto split: option.splits)
  from * [OF assms [unfolded chain_positions_def]]
  show "map pn_position xs = map (\<lambda>spec. \<lparr>im_chainCode = lp_chainCode (cp_pool c), im_tokenCode = lp_tokenCode (cp_pool c),
      im_pubkey = the (nativeBytesHex sv (cp_chain c) (sy_pubkey spec)), im_amount = sy_amount spec\<rparr>) (cp_syndications c)"
    "spec \<in> set (cp_syndications c) \<Longrightarrow> nativeBytesHex sv (cp_chain c) (sy_pubkey spec) \<noteq> None" by blast+
qed

lemma distinct_chain_positions:
  assumes "distinct (map sy_pubkey (cp_syndications c))" "chain_positions sv linkKey c = Some xs"
    and display: "\<And>spec. spec \<in> set (cp_syndications c) \<Longrightarrow> cp_chain c = EVM \<Longrightarrow> evmDisplayHex (sy_pubkey spec) = sy_pubkey spec"
    and decoding: "\<And>chain s t k. nativeBytesHex sv chain s = Some k \<Longrightarrow> nativeBytesHex sv chain t = Some k \<Longrightarrow>
      (if chain = EVM then evmDisplayHex s = evmDisplayHex t else s = t)"
  shows "distinct (map (im_pubkey \<circ> pn_position) xs)"
proof -
  have "distinct (map (\<lambda>spec. the (nativeBytesHex sv (cp_chain c) (sy_pubkey spec))) (cp_syndications c))"
    using assms(1)
  proof (rule distinct_map_finer)
    fix x y assume x: "x \<in> set (cp_syndications c)" and y: "y \<in> set (cp_syndications c)"
      and eq: "the (nativeBytesHex sv (cp_chain c) (sy_pubkey x)) = the (nativeBytesHex sv (cp_chain c) (sy_pubkey y))"
    obtain k where k: "nativeBytesHex sv (cp_chain c) (sy_pubkey x) = Some k" using chain_positions_facts(2) [OF assms(2) x] by blast
    obtain l where l: "nativeBytesHex sv (cp_chain c) (sy_pubkey y) = Some l" using chain_positions_facts(2) [OF assms(2) y] by blast
    have "k = l" using eq unfolding k l by simp
    note same = decoding [OF k l [folded this]]
    show "sy_pubkey x = sy_pubkey y"
    proof (cases "cp_chain c = EVM")
      case True
      then show ?thesis using same unfolding display [OF x True] display [OF y True] by simp
    next
      case False
      then show ?thesis using same by simp
    qed
  qed
  moreover have "map (im_pubkey \<circ> pn_position) xs = map im_pubkey (map pn_position xs)" by simp
  ultimately show ?thesis unfolding chain_positions_facts(1) [OF assms(2)] by (simp add: comp_def)
qed

lemma distinct_groups:
  assumes "those (map f cs) = Some xss" "distinct (map code cs)"
    and "\<And>c xs. c \<in> set cs \<Longrightarrow> f c = Some xs \<Longrightarrow> distinct (map key xs) \<and> (\<forall>x \<in> set xs. chain_of (key x) = code c)"
  shows "distinct (map key (concat xss)) \<and> (\<forall>x \<in> set (concat xss). chain_of (key x) \<in> code ` set cs)"
  using assms
proof (induction cs arbitrary: xss)
  case (Cons c cs)
  obtain xs yss where f: "f c = Some xs" "those (map f cs) = Some yss" "xss = xs # yss" using Cons.prems(1) by (auto split: option.splits)
  have tail: "distinct (map key (concat yss)) \<and> (\<forall>x \<in> set (concat yss). chain_of (key x) \<in> code ` set cs)"
    using Cons.prems by (intro Cons.IH [OF f(2)]) auto
  have head: "distinct (map key xs)" "\<forall>x \<in> set xs. chain_of (key x) = code c" using Cons.prems(3) [OF _ f(1)] by auto
  have "key ` set xs \<inter> key ` set (concat yss) = {}"
  proof (rule equals0I)
    fix k assume "k \<in> key ` set xs \<inter> key ` set (concat yss)"
    then have "chain_of k = code c" "chain_of k \<in> code ` set cs" using head(2) tail by auto
    then show False using Cons.prems(2) by auto
  qed
  moreover have "\<forall>x \<in> set (concat (xs # yss)). chain_of (key x) \<in> code ` set (c # cs)" using head(2) tail by auto
  ultimately show ?case using tail head(1) f(3) by (simp add: image_UN)
qed simp

lemma distinct_planned_positions:
  assumes "createPlan sv (Some config) = Some (Some p)" "planned_positions sv linkKey p = Some planned"
    and decoding: "\<And>chain s t k. nativeBytesHex sv chain s = Some k \<Longrightarrow> nativeBytesHex sv chain t = Some k \<Longrightarrow>
      (if chain = EVM then evmDisplayHex s = evmDisplayHex t else s = t)"
  shows "distinct (map (position_key \<circ> pn_position) planned)" "\<forall>x \<in> set planned. CHR ''/'' \<notin> set (im_tokenCode (pn_position x))"
proof -
  obtain xss where xss: "those (map (chain_positions sv linkKey) (chainPlans p)) = Some xss" "planned = concat xss"
    using assms(2) by (auto simp: planned_positions_def)
  have group: "im_chainCode (pn_position x) = lp_chainCode (cp_pool c) \<and> im_tokenCode (pn_position x) = lp_tokenCode (cp_pool c)"
    if "chain_positions sv linkKey c = Some xs" "x \<in> set xs" for c xs x
  proof -
    have "pn_position x \<in> set (map pn_position xs)" using that(2) by simp
    then show ?thesis unfolding chain_positions_facts(1) [OF that(1)] by auto
  qed
  have "distinct (map (position_key \<circ> pn_position) xs) \<and> (\<forall>x \<in> set xs. fst (snd ((position_key \<circ> pn_position) x)) = (lp_chainCode \<circ> cp_pool) c)"
    if c: "c \<in> set (chainPlans p)" "chain_positions sv linkKey c = Some xs" for c xs
  proof -
    have "distinct (map sy_pubkey (cp_syndications c))" using chain_syndications [OF assms(1) c(1)] by blast
    then have "distinct (map (im_pubkey \<circ> pn_position) xs)"
      using distinct_chain_positions [OF _ c(2)] plan_display(1) [OF assms(1) c(1)] decoding by blast
    then have "distinct (map (position_key \<circ> pn_position) xs)" by (rule distinct_map_finer) (simp add: position_key_def)
    then show ?thesis using group [OF c(2)] by (auto simp: position_key_def)
  qed
  from distinct_groups [where chain_of = "\<lambda>k. fst (snd k)", OF xss(1) distinct_chain_codes [OF assms(1)] this]
  show "distinct (map (position_key \<circ> pn_position) planned)" unfolding xss(2) by blast
  show "\<forall>x \<in> set planned. CHR ''/'' \<notin> set (im_tokenCode (pn_position x))"
  proof
    fix x assume "x \<in> set planned"
    then obtain xs where xs: "xs \<in> set xss" "x \<in> set xs" using xss(2) by auto
    then obtain c where c: "c \<in> set (chainPlans p)" "chain_positions sv linkKey c = Some xs"
      using those_members [OF xss(1)] by blast
    show "CHR ''/'' \<notin> set (im_tokenCode (pn_position x))" using group [OF c(2) xs(2)] plan_display(2) [OF assms(1) c(1)] by auto
  qed
qed

lemma sortPositions_iff:
  assumes "distinct (map position_key ys)"
  shows "sortPositions xs = sortPositions ys \<longleftrightarrow> mset xs = mset ys"
proof -
  have sort: "sortPositions zs = sort_key position_key zs" for zs
    unfolding sortPositions_def position_key_def [abs_def] by (rule refl)
  show ?thesis
    unfolding sort using sort_key_mset [of ys xs position_key, OF _ assms] by (metis mset_sort)
qed

lemma planned_positions_count:
  assumes "ReconcileSyndication n \<in> set (planImport sv p seal)" "planned_positions sv linkKey p = Some planned"
  shows "n = length planned"
proof -
  have "length (concat xss) = (\<Sum>c \<leftarrow> cs. length (cp_syndications c))" if "those (map (chain_positions sv linkKey) cs) = Some xss" for cs xss
    using that
  proof (induction cs arbitrary: xss)
    case (Cons c cs)
    obtain xs yss where f: "chain_positions sv linkKey c = Some xs" "those (map (chain_positions sv linkKey) cs) = Some yss" "xss = xs # yss"
      using Cons.prems by (auto split: option.splits)
    have "length xs = length (cp_syndications c)" using arg_cong [OF chain_positions_facts(1) [OF f(1)], of length] by simp
    then show ?case using Cons.IH [OF f(2)] f(3) by simp
  qed simp
  then have "length planned = (\<Sum>c \<leftarrow> chainPlans p. length (cp_syndications c))"
    using assms(2) by (auto simp: planned_positions_def)
  then show ?thesis using assms(1) by (auto simp: planImport_def planChainImport_def Let_def)
qed

lemma held_linked: "held accounts (filter (\<lambda>x. accounts (pn_linkKey x) \<noteq> None) xs) a t = held accounts xs a t"
  by (induction xs) (auto simp: held_def)

text \<open>C25: Provided that the native decoders identify no two keys, the reconcile step lets the positions be sealed exactly when the
  depot parks each position of an unlinked key once and nothing else, every linked account holds the sum of the positions linked
  to it in each token it has one in, and each shadow's outstanding is its booked custody.\<close>

theorem positions_sealed_iff_exact:
  assumes "createPlan sv (Some config) = Some (Some p)" "ReconcileSyndication n \<in> set (planImport sv p seal)"
    "planned_positions sv linkKey p = Some planned"
    and decoding: "\<forall>chain s t k. nativeBytesHex sv chain s = Some k \<longrightarrow> nativeBytesHex sv chain t = Some k \<longrightarrow>
      (if chain = EVM then evmDisplayHex s = evmDisplayHex t else s = t)"
  shows "runReconcileSyndication sv linkKey matches cell_text depot p n = Some () \<longleftrightarrow>
    mset (parked_positions matches cell_text depot p) =
      mset (map pn_position (filter (\<lambda>x. readLinkedAccounts depot (pn_linkKey x) = None) planned)) \<and>
    (\<forall>x \<in> set planned. \<forall>account. readLinkedAccounts depot (pn_linkKey x) = Some account \<longrightarrow>
      dr_liqBalance depot account (im_tokenCode (pn_position x)) =
        held (readLinkedAccounts depot) planned account (im_tokenCode (pn_position x))) \<and>
    (\<forall>c \<in> set (chainPlans p). dr_outstanding depot (lp_tokenCode (cp_pool c)) = Some (lp_custodyTotal (cp_pool c)))"
proof -
  let ?accounts = "readLinkedAccounts depot"
  let ?linked = "filter (\<lambda>x. ?accounts (pn_linkKey x) \<noteq> None) planned" and ?unlinked = "filter (\<lambda>x. ?accounts (pn_linkKey x) = None) planned"
  have planned: "distinct (map (position_key \<circ> pn_position) planned)" "\<forall>x \<in> set planned. CHR ''/'' \<notin> set (im_tokenCode (pn_position x))"
    using distinct_planned_positions [OF assms(1,3)] decoding by blast+
  have n: "n = length planned" by (rule planned_positions_count [OF assms(2,3)])
  have "distinct (map position_key (map pn_position ?unlinked))"
    using distinct_map_filter [OF planned(1), of "\<lambda>x. ?accounts (pn_linkKey x) = None"] by simp
  note parked = sortPositions_iff [OF this, of "parked_positions matches cell_text depot p"]
  have "\<forall>x \<in> set ?linked. ?accounts (pn_linkKey x) \<noteq> None" "\<forall>x \<in> set ?linked. CHR ''/'' \<notin> set (im_tokenCode (pn_position x))"
    using planned(2) by simp_all
  note holdings = linkedHoldings_held [OF this, of "dr_liqBalance depot", unfolded held_linked]
  have "(\<forall>h \<in> set (linkedHoldings ?linked ?accounts). dr_liqBalance depot (lh_account h) (lh_tokenCode h) = lh_amount h) \<longleftrightarrow>
      (\<forall>x \<in> set planned. \<forall>account. ?accounts (pn_linkKey x) = Some account \<longrightarrow>
        dr_liqBalance depot account (im_tokenCode (pn_position x)) = held ?accounts planned account (im_tokenCode (pn_position x)))"
    unfolding holdings by auto
  then show ?thesis using parked by (simp add: runReconcileSyndication_def Let_def assms(3) n list_all_iff)
qed

text \<open>A depot that has one of the two keys linked.\<close>

definition example_position_services :: lco_services where
  "example_position_services = example_lco_services\<lparr>ls_nativeBytes := (\<lambda>_. Some)\<rparr>"

definition example_positions :: "lco_plan \<Rightarrow> planned_position list" where
  "example_positions p = getOrElse (planned_positions example_position_services (\<lambda>_ key. key) p) []"

definition example_positions_depot :: "lco_plan \<Rightarrow> import_chain depot_reads" where
  "example_positions_depot p =
     (case example_positions p of
        [linked, parked] \<Rightarrow> (example_depot p)\<lparr>
          dr_links := [\<lparr>lr_key = 7, lr_linkKey = pn_linkKey linked, lr_username = ''late''\<rparr>,
            \<lparr>lr_key = 2, lr_linkKey = pn_linkKey linked, lr_username = ''alice''\<rparr>],
          dr_liqBalance := (\<lambda>account _. if account = ''alice'' then im_amount (pn_position linked) else 0),
          dr_parked := [\<lparr>pr_chain_kind = EVM, pr_tokenCode = im_tokenCode (pn_position parked), pr_pubkey = im_pubkey (pn_position parked),
            pr_balance = im_amount (pn_position parked)\<rparr>],
          dr_outstanding := (\<lambda>_. map_option (\<lambda>c. lp_custodyTotal (cp_pool c)) (pl_ethereum p))\<rparr>
      | _ \<Rightarrow> example_depot p)"

definition example_reconciled :: "lco_plan \<Rightarrow> bool" where
  "example_reconciled p \<longleftrightarrow> list_ex (\<lambda>s. s = ReconcileSyndication 2) (planImport example_position_services p True) \<and>
     planned_positions example_position_services (\<lambda>_ key. key) p = Some (example_positions p) \<and>
     runReconcileSyndication example_position_services (\<lambda>_ key. key) (=) (\<lambda>_. []) (example_positions_depot p) p 2 = Some () \<and>
     list_ex (\<lambda>x. readLinkedAccounts (example_positions_depot p) (pn_linkKey x) = Some ''alice'') (example_positions p)"

lemma example_reconciled: "case createPlan example_position_services (Some example_import) of Some (Some p) \<Rightarrow> example_reconciled p | _ \<Rightarrow> False"
  by code_simp

lemma positions_sealed_iff_exact_witness:
  "\<exists>p x. createPlan example_position_services (Some example_import) = Some (Some p) \<and> x \<in> set (example_positions p) \<and>
     dr_liqBalance (example_positions_depot p) ''alice'' (im_tokenCode (pn_position x)) =
       held (readLinkedAccounts (example_positions_depot p)) (example_positions p) ''alice'' (im_tokenCode (pn_position x))"
proof -
  obtain p where p: "createPlan example_position_services (Some example_import) = Some (Some p)" "example_reconciled p"
    using example_reconciled by (auto split: option.splits)
  have step: "ReconcileSyndication 2 \<in> set (planImport example_position_services p True)"
    and planned: "planned_positions example_position_services (\<lambda>_ key. key) p = Some (example_positions p)"
    and run: "runReconcileSyndication example_position_services (\<lambda>_ key. key) (=) (\<lambda>_. []) (example_positions_depot p) p 2 = Some ()"
    using p(2) by (auto simp: example_reconciled_def list_ex_iff)
  obtain x where x: "x \<in> set (example_positions p)" "readLinkedAccounts (example_positions_depot p) (pn_linkKey x) = Some ''alice''"
    using p(2) by (auto simp: example_reconciled_def list_ex_iff)
  have decoding: "\<forall>chain s t k. nativeBytesHex example_position_services chain s = Some k \<longrightarrow>
      nativeBytesHex example_position_services chain t = Some k \<longrightarrow> (if chain = EVM then evmDisplayHex s = evmDisplayHex t else s = t)"
    by (simp add: nativeBytesHex_def example_position_services_def split: if_splits)
  note positions_sealed_iff_exact [where matches = "(=)" and cell_text = "\<lambda>_. []" and depot = "example_positions_depot p",
      OF p(1) step planned decoding, THEN iffD1, OF run]
  then show ?thesis using p(1) x by blast
qed

end
