(* ===== verification/Spec2Isabelle.thy ===== *)
theory Spec2Isabelle
  imports Text_Buffer Line_Index Canonical_Codec Kicker_Accrual Batch_Schedule Stream_Protocol Subscription
    Stream_Client Stream_Server Storage_Key Server_Streams Cell_Values Result_View Delimited_Text Paging
    Build_Engine Build_Proofs Build_Properties Rpc_Transport Query_Client
    Results_Slice Query_Launcher Query_Host Query_Port Port_Allocation Bind_Registry Process_Manager
    Query_History Document_Store Profile_Stores Schema_Catalog Query_Text
    Key_Store Node_Plan Key_Publication Key_Durability Cluster_State Lco_Plan Lco_Accounts Lco_Import
begin

text \<open>
  \<^bold>\<open>Wire tools: the parts of the repository with logic of their own.\<close>

  The repository is a workspace of TypeScript packages (\<open>src/packages\<close>). Three programs meet in it: the
  \<^emph>\<open>cluster tool\<close>, which plans and starts local clusters of chain daemons and runs end-to-end flows against
  them; the \<^emph>\<open>debugging\<close> server and its clients, which stream the logs, processes and envelopes of a running
  cluster; and the \<^emph>\<open>query\<close> tools, a terminal and an Electron front end over the SQL engine of a node. The
  theories model the code of each that keeps state or computes; what only calls a chain, a compiler, a
  terminal or a window system is an argument or is left out (last paragraph).

  \<^bold>\<open>Conventions.\<close> A class is a record of its fields and a method a function on it, named after the method; an
  enum or tagged union is a datatype. A \<open>throw\<close> or a rejected promise is \<^const>\<open>None\<close> or the left of a sum. An
  \<open>await\<close> ends a step: code that interleaves with other code is a step relation or a run over a list of events,
  and a theorem about it speaks of every interleaving. \<open>bigint\<close> is \<^typ>\<open>int\<close>; numbers that count or index are
  integers within the range where doubles are exact; text is a list of characters or of UTF-16 code units.
  JavaScript's \<open>slice\<close>, \<open>split\<close>, \<open>join\<close> and a bounded push are in \<open>Prelude\<close>, once.

  \<^bold>\<open>The cluster tool.\<close>
  \<^item> \<open>Build_Engine\<close>, \<open>Build_Proofs\<close>, \<open>Build_Properties\<close>: \<open>cluster-tool/src/orchestration\<close>. A build is a tree of
    phases and groups, sequential or parallel; an event starts, settles, times out or aborts one node. The first
    theory is the machine (\<open>ClusterBuildPhase.run\<close>, \<open>ClusterBuildPhaseGroup.run\<close>, the report tree), the second its
    invariant, the third what it means: nothing runs after a failure in a series, the verdict of the report, that
    every run ends, whatever the concurrency limits (a measure of the steps still to be settled), that the narrative of completed phases is the
    one the report shows.
  \<^item> \<open>Batch_Schedule\<close>: the option schema of the batch operator schedule and its resolution.
  \<^item> \<open>Port_Allocation\<close>, \<open>Bind_Registry\<close>: \<open>config/BindConfigProvider.ts\<close>. The first chooses the ports of a
    cluster over an abstract host; the second is the registry directory that several processes share, with a step
    relation of starts, resolves, relaunches, exits and kills. The choice is used by the registry through one
    fact, that it takes fresh ports outside the exclusions; the registry proves that the exclusions contain every
    live process's ports, and together no port is ever held twice.
  \<^item> \<open>Process_Manager\<close>: \<open>cluster/processes\<close>. A child process with its start, stop and kill, the lines and raw logs
    captured from its output, the registry that stops them all, and the sweep of orphans by pid file.
  \<^item> \<open>Node_Plan\<close> over \<open>Port_Allocation\<close>: \<open>config/NodeConfig.ts\<close>, the nodes of a cluster with their names, roles, hosted
    accounts and peers. Names are distinct, accounts are dealt out evenly, the mesh is what the roles say.
  \<^item> \<open>Key_Store\<close>, \<open>Key_Publication\<close>, \<open>Key_Durability\<close>: where keys come from and go. The store of a build
    (\<open>cluster/ClusterKeyStore.ts\<close>); the ids that keys have in SSM, the adoption, creation and publication of keys by
    the steps of \<open>KeySteps.ts\<close> over a record of services; and two runs in one account: the second adopts every node
    key when each node hosts one account (an equivalence of runs), and fails when a node hosts several.
  \<^item> \<open>Cluster_State\<close>: \<open>cluster/ClusterState.ts\<close>, what a build leaves on disk: custody of the secrets under each signature
    provider, the schemas that a file is read with, the mode of the key file, and the store that is rebuilt from it.
  \<^item> \<open>Lco_Plan\<close>, \<open>Lco_Accounts\<close>, \<open>Lco_Import\<close>: the launch-data import. The first theory is the derivation of a plan from the
    two chains' exports (\<open>tools/wire/WireLcoImportTool.ts\<close>), the second its books: what is owed is claimed, custody is
    conserved, the order of an export's rows does not matter. The third is the steps (\<open>steps/LcoImportSteps.ts\<close>): the
    batches put together are the plan, and the two reconciles let an import be sealed exactly when the depot holds it.
  \<^item> \<open>Rpc_Transport\<close>: one JSON-RPC call, stage by stage.
  \<^item> \<open>Kicker_Accrual\<close>, \<open>Canonical_Codec\<close>: the arithmetic core of two flows: the liquidity kicker's index and the
    hand-written protobuf encoding whose keccak digest the batch operators sign.

  \<^bold>\<open>Debugging.\<close>
  \<^item> \<open>Stream_Protocol\<close> (frames and their schemas), \<open>Stream_Server\<close> (\<open>StreamServer.ts\<close>), \<open>Stream_Client\<close>
    (\<open>WebSocketStreamClient.ts\<close>), \<open>Subscription\<close> (\<open>DebuggingSubscription.ts\<close>): the two ends of the transport, each a
    state and its handlers; the client calls the operations of \<open>Subscription\<close>. The server's theorems hold for every run in
    which no client uses an id again on its connection; a stream of it may emit at any time.
  \<^item> \<open>Server_Streams\<close> over \<open>Line_Index\<close>, \<open>Utf8\<close> and \<open>Storage_Key\<close>: the three streams, step by step, so that ticks, reads and
    a stop overlap; the locale \<open>server_stream\<close>, interpreted by each, says how often a stopped stream may still emit, which
    is the count of late events in \<open>server_frame_order\<close>. The index of line starts they read logs with (extension equals
    rebuilding, for every way a read stream cuts the file), the keys of stored envelopes and the guard on paths.

  \<^bold>\<open>Query tools.\<close>
  \<^item> \<open>Cell_Values\<close>, \<open>Result_View\<close>, \<open>Delimited_Text\<close>, \<open>Paging\<close>: the cells of a result, the sorted and filtered view of
    a page, its copies as TSV, the windows of a request.
  \<^item> \<open>Query_Client\<close> over \<open>Rpc_Transport\<close>: requests with retries. \<open>Results_Slice\<close>: the state of the result panes and
    its reducers. \<open>Text_Buffer\<close>: the editor.
  \<^item> \<open>Query_History\<close>, \<open>Document_Store\<close>, \<open>Profile_Stores\<close>: what the tools keep on disk (\<open>ql-shared/src/node\<close>): the
    history log and its backward reader, shown to be a list of records; the JSON document store, whose contract is
    the locale \<open>document_store\<close>, interpreted on its model; the saved queries (a map from names to texts) and the
    connection profiles (a default that exists), proved from that contract.
  \<^item> \<open>Schema_Catalog\<close>, \<open>Query_Text\<close>: the tables and fields known of each owner, through loads, describes and
    invalidations that overlap; quoting, highlighting, formatting and completion over the tokens of a query.
  \<^item> \<open>Query_Launcher\<close>, \<open>Query_Host\<close>, \<open>Query_Port\<close>: the three processes of the Electron tool, the main process that
    owns the utility process, that process, and the window's client. The launcher's lemmas are proved against the
    locale \<open>control_server\<close>, which the host's model interprets, so \<open>host_serves_the_launcher\<close> speaks of both.

  \<^bold>\<open>Bounds and fuel.\<close> No loop of the models runs on fuel that the code does not have: \<open>pick_attempts\<close> and
  \<open>solana_attempts\<close> count down the code's own attempt limits (16), \<open>first_free_window\<close> the at most 32 windows it
  scans, \<open>run_attempt\<close> the retries of the profile; reading a file in chunks recurses on the bytes that are left.
  Four loops of the code are partial functions, \<^const>\<open>None\<close> where they do not: \<open>poll_exits\<close> ends once
  the clock reaches the deadline, \<open>readTail\<close> for any chunk of at least one byte, \<open>structFields\<close> unless base structs
  form a cycle, \<open>isqrt_step\<close> always (\<open>isqrt_correct\<close>); each is proved. Every other recursion is structural. Undo keeps the code's \<open>MaxUndo\<close> entries.

  \<^bold>\<open>Assumed of others.\<close> \<open>get-port\<close> returns no excluded port for a candidate it is asked for (\<open>excludes\<close>);
  \<open>proper-lockfile\<close> gives mutual exclusion, so a critical section is one step; a read stream delivers the asked range in
  order, in non-empty chunks of at most its high-water mark (\<open>delivers\<close>); a WebSocket delivers what was
  sent in order; a codec's text is well-formed UTF-16 and parses back (\<open>line_codec\<close>, \<open>document_law\<close>), and a rename
  replaces a file at once; SSM keeps what is put under a new name and refuses an existing one (\<open>parameter_store\<close>), and
  a key pair is found again from its native text (\<open>key_laws\<close>); \<open>keccak256\<close> is any function (a property that compares digests says what it needs);
  the decoders of native keys (base58, hex) identify no two keys, which the sealing of positions assumes.

  \<^bold>\<open>Not modelled.\<close> Chain clients, the other cluster steps and tools, and flow scenarios (\<open>cluster-tool/src/clients\<close>, \<open>steps\<close>, \<open>tools\<close>, the
  \<open>flow-*\<close> packages): scripts of calls to chains, wallets and compilers, with no state beyond the call in progress.
  The command lines (\<open>yargs\<close> declarations). The grammar (\<open>ql-shared/src/grammar/generated\<close>), generated by ANTLR. The
  React, Ink and Electron views. Logging, the text of most messages, durations and the writing of report files
  within modelled parts.
\<close>

end
